(* ===== verification/NetPrelude.thy ===== *)
theory NetPrelude
  imports Main "HOL-Library.Word"
begin

text \<open>
  Shared vocabulary of the development: the machine types of the C sources, memory blocks
  as byte lists (with \<open>memcpy\<close>/\<open>memset\<close> written out), C strings, and the byte order of the
  target. The G361F is a little-endian ARM device, so a multi-byte field lies in memory
  least significant byte first and \<open>htons\<close>/\<open>htonl\<close> swap bytes.
\<close>

unbundle bit_operations_syntax

type_synonym u8 = "8 word"
type_synonym u16 = "16 word"
type_synonym u32 = "32 word"
type_synonym u64 = "64 word"

named_theorems mem_simps \<open>lengths and reads of memory blocks\<close>
named_theorems step_simps \<open>one unfolding of each loop and handler\<close>

subsection \<open>Memory blocks\<close>

text \<open>
  \<open>write_at p ys xs\<close> is \<open>memcpy (xs + p, ys, length ys)\<close> for a block that fits.
\<close>

definition write_at :: "nat \<Rightarrow> 'a list \<Rightarrow> 'a list \<Rightarrow> 'a list" where
  "write_at p ys xs = take p xs @ ys @ drop (p + length ys) xs"

definition slice :: "nat \<Rightarrow> nat \<Rightarrow> 'a list \<Rightarrow> 'a list" where
  "slice p n xs = take n (drop p xs)"

text \<open>A guarded read: \<open>None\<close> is a read outside the block.\<close>

definition rd :: "'a list \<Rightarrow> nat \<Rightarrow> 'a option" where
  "rd xs i = (if i < length xs then Some (xs ! i) else None)"

lemma length_write_at [simp, mem_simps]:
  "p + length ys \<le> length xs \<Longrightarrow> length (write_at p ys xs) = length xs"
  by (simp add: write_at_def)

lemma length_slice [simp, mem_simps]: "length (slice p n xs) = min n (length xs - p)"
  by (simp add: slice_def min.commute)

lemma slice_write_at_same [simp, mem_simps]:
  "p + length ys \<le> length xs \<Longrightarrow> n = length ys \<Longrightarrow> slice p n (write_at p ys xs) = ys"
  by (simp add: slice_def write_at_def)

lemma slice_write_at_before [mem_simps]:
  "q + n \<le> p \<Longrightarrow> p + length ys \<le> length xs \<Longrightarrow> slice q n (write_at p ys xs) = slice q n xs"
  by (simp add: slice_def write_at_def drop_take min_absorb1)

lemma write_at_append:
  "p + length ys \<le> length xs \<Longrightarrow> write_at p (ys @ zs) xs = write_at (p + length ys) zs (write_at p ys xs)"
  by (simp add: write_at_def add.commute add.left_commute)

lemma slice_append_left [mem_simps]: "p + n \<le> length xs \<Longrightarrow> slice p n (xs @ ys) = slice p n xs"
  by (simp add: slice_def)

lemma slice_append_right [mem_simps]:
  "length xs \<le> p \<Longrightarrow> slice p n (xs @ ys) = slice (p - length xs) n ys"
  by (simp add: slice_def)

lemma rd_in [simp, mem_simps]: "i < length xs \<Longrightarrow> rd xs i = Some (xs ! i)"
  by (simp add: rd_def)

lemma rd_None_iff [simp]: "rd xs i = None \<longleftrightarrow> length xs \<le> i"
  by (simp add: rd_def)

subsection \<open>Words as numbers\<close>

lemma unat_u8_less [simp]: "unat (w :: u8) < 256"
  using unsigned_less [where ?'a = nat, of w] by simp

lemma unat_u16_less [simp]: "unat (w :: u16) < 65536"
  using unsigned_less [where ?'a = nat, of w] by simp

lemma unat_u32_less [simp]: "unat (w :: u32) < 4294967296"
  using unsigned_less [where ?'a = nat, of w] by simp

lemma unat_ucast_u8_u16 [simp]: "unat (ucast (w :: u8) :: u16) = unat w"
  using unat_u8_less [of w] by (simp add: unsigned_ucast_eq take_bit_nat_eq_self_iff del: unat_u8_less)

lemma unat_ucast_u8_u32 [simp]: "unat (ucast (w :: u8) :: u32) = unat w"
  using unat_u8_less [of w] by (simp add: unsigned_ucast_eq take_bit_nat_eq_self_iff del: unat_u8_less)

lemma unat_ucast_u16_u32 [simp]: "unat (ucast (w :: u16) :: u32) = unat w"
  using unat_u16_less [of w] by (simp add: unsigned_ucast_eq take_bit_nat_eq_self_iff del: unat_u16_less)

lemma unat_add_small: "unat a + unat b < 2 ^ LENGTH('a) \<Longrightarrow> unat (a + b :: 'a::len word) = unat a + unat b"
  by (simp add: unat_plus_if')

lemma unat_of_nat_small: "n < 2 ^ LENGTH('a) \<Longrightarrow> unat (of_nat n :: 'a::len word) = n"
  by (simp add: unat_of_nat)

subsection \<open>Byte order\<close>

definition htons :: "u16 \<Rightarrow> u16" where
  "htons w = push_bit 8 w OR drop_bit 8 w"

abbreviation ntohs :: "u16 \<Rightarrow> u16" where
  "ntohs \<equiv> htons"

lemma htons_htons [simp]: "htons (htons w) = w"
  by (rule bit_word_eqI) (auto simp: htons_def bit_simps)

lemma htons_eq_iff [simp]: "htons a = htons b \<longleftrightarrow> a = b"
  using htons_htons by metis

text \<open>In-memory images of the integers, least significant byte first.\<close>

definition le16 :: "u16 \<Rightarrow> u8 list" where
  "le16 w = [ucast w, ucast (drop_bit 8 w)]"

definition le32 :: "u32 \<Rightarrow> u8 list" where
  "le32 w = [ucast w, ucast (drop_bit 8 w), ucast (drop_bit 16 w), ucast (drop_bit 24 w)]"

fun of_le16 :: "u8 list \<Rightarrow> u16" where
  "of_le16 (a # b # _) = ucast a OR push_bit 8 (ucast b)"
| "of_le16 _ = 0"

fun of_le32 :: "u8 list \<Rightarrow> u32" where
  "of_le32 (a # b # c # d # _) =
     ucast a OR push_bit 8 (ucast b) OR push_bit 16 (ucast c) OR push_bit 24 (ucast d)"
| "of_le32 _ = 0"

lemma length_le16 [simp, mem_simps]: "length (le16 w) = 2"
  by (simp add: le16_def)

lemma length_le32 [simp, mem_simps]: "length (le32 w) = 4"
  by (simp add: le32_def)

lemma of_le16_le16_append: "of_le16 (le16 w @ r) = w"
  by (rule bit_word_eqI) (auto simp: le16_def bit_simps)

lemma of_le32_le32_append: "of_le32 (le32 w @ r) = w"
proof (rule bit_word_eqI)
  fix n assume n: "n < LENGTH(32)"
  consider "n < 8" | "8 \<le> n" "n < 16" | "16 \<le> n" "n < 24" | "24 \<le> n" "n < 32"
    using n by fastforce
  then show "bit (of_le32 (le32 w @ r)) n \<longleftrightarrow> bit w n"
    by cases (use n in \<open>auto simp: le32_def bit_simps\<close>)
qed

lemma byte_of_le32:
  "ucast (of_le32 [a, b, c, d]) = a" "ucast (drop_bit 8 (of_le32 [a, b, c, d])) = b"
  "ucast (drop_bit 16 (of_le32 [a, b, c, d])) = c" "ucast (drop_bit 24 (of_le32 [a, b, c, d])) = d"
proof -
  have out: "\<not> bit x n" if "8 \<le> n" for x :: u8 and n
    using that bit_imp_le_length [of x n] by auto
  show "ucast (of_le32 [a, b, c, d]) = a"
    by (rule bit_word_eqI) (auto simp: bit_simps out)
  show "ucast (drop_bit 8 (of_le32 [a, b, c, d])) = b"
    by (rule bit_word_eqI) (auto simp: bit_simps out)
  show "ucast (drop_bit 16 (of_le32 [a, b, c, d])) = c"
    by (rule bit_word_eqI) (auto simp: bit_simps out)
  show "ucast (drop_bit 24 (of_le32 [a, b, c, d])) = d"
    by (rule bit_word_eqI) (auto simp: bit_simps out)
qed

text \<open>\<open>htonl\<close> reverses the four bytes in memory.\<close>

definition htonl :: "u32 \<Rightarrow> u32" where
  "htonl w = of_le32 (rev (le32 w))"

abbreviation ntohl :: "u32 \<Rightarrow> u32" where
  "ntohl \<equiv> htonl"

lemma htonl_htonl [simp]: "htonl (htonl w) = w"
  using of_le32_le32_append [of w "[]"]
  by (simp add: htonl_def le32_def byte_of_le32 del: of_le32.simps)

lemma htonl_eq_iff [simp]: "htonl a = htonl b \<longleftrightarrow> a = b"
  using htonl_htonl by metis

text \<open>The same facts on the bytes themselves, as rewrite rules.\<close>

lemma le16_join [simp]:
  "(ucast (ucast w :: u8) :: u16) OR push_bit 8 (ucast (ucast (drop_bit 8 w) :: u8)) = w"
  using of_le16_le16_append [of w "[]"] by (simp add: le16_def)

lemma le32_join [simp]:
  "(ucast (ucast w :: u8) :: u32) OR push_bit 8 (ucast (ucast (drop_bit 8 w) :: u8)) OR
   push_bit 16 (ucast (ucast (drop_bit 16 w) :: u8)) OR
   push_bit 24 (ucast (ucast (drop_bit 24 w) :: u8)) = w"
  using of_le32_le32_append [of w "[]"] by (simp add: le32_def)

subsection \<open>Decimal text\<close>

text \<open>\<open>%d\<close> of a natural number, and \<open>inet_ntoa\<close> of an address in network byte order.\<close>

fun show_nat :: "nat \<Rightarrow> string" where
  "show_nat n = (if n < 10 then [char_of (48 + n)] else show_nat (n div 10) @ [char_of (48 + n mod 10)])"

declare show_nat.simps [simp del]

definition show_int :: "int \<Rightarrow> string" where
  "show_int i = (if i < 0 then ''-'' @ show_nat (nat (- i)) else show_nat (nat i))"

definition inet_ntoa :: "u32 \<Rightarrow> string" where
  "inet_ntoa a = (case map (\<lambda>b. show_nat (unat b)) (le32 a) of
     [p, q, r, t] \<Rightarrow> p @ ''.'' @ q @ ''.'' @ r @ ''.'' @ t | _ \<Rightarrow> [])"

text \<open>Reading numbers: the character classes of the C library and digit strings.\<close>

definition is_digit :: "char \<Rightarrow> bool" where
  "is_digit c \<longleftrightarrow> 48 \<le> (of_char c :: nat) \<and> (of_char c :: nat) \<le> 57"

definition is_blank :: "char \<Rightarrow> bool" where
  "is_blank c \<longleftrightarrow> c = CHR '' '' \<or> (9 \<le> (of_char c :: nat) \<and> (of_char c :: nat) \<le> 13)"

text \<open>The value of one digit in a base up to 16, and of a digit string.\<close>

definition digit_in :: "nat \<Rightarrow> char \<Rightarrow> nat option" where
  "digit_in base c =
     (let n = of_char c;
          v = (if 48 \<le> n \<and> n \<le> 57 then n - 48 else if 97 \<le> n \<and> n \<le> 102 then n - 87
               else if 65 \<le> n \<and> n \<le> 70 then n - 55 else 16)
      in if v < base then Some v else None)"

fun digits_val :: "nat \<Rightarrow> nat \<Rightarrow> string \<Rightarrow> nat option" where
  "digits_val base acc [] = Some acc"
| "digits_val base acc (c # cs) =
     (case digit_in base c of None \<Rightarrow> None | Some v \<Rightarrow> digits_val base (acc * base + v) cs)"

lemma digit_char: "n < 10 \<Longrightarrow> digit_in 10 (char_of (48 + n)) = Some n"
  "n < 10 \<Longrightarrow> (of_char (char_of (48 + n)) :: nat) = 48 + n"
  by (simp_all add: digit_in_def of_char_of take_bit_eq_mod)

lemma digits_val_append:
  "digits_val b acc (xs @ ys) = Option.bind (digits_val b acc xs) (\<lambda>a. digits_val b a ys)"
  by (induction xs arbitrary: acc) (auto split: option.splits)

lemma digits_show: "digits_val 10 0 (show_nat n) = Some n"
proof (induction n rule: show_nat.induct)
  case (1 n)
  show ?case
  proof (cases "n < 10")
    case True
    then show ?thesis by (simp add: show_nat.simps [of n] digit_char)
  next
    case False
    then show ?thesis using 1 by (simp add: show_nat.simps [of n] digits_val_append digit_char)
  qed
qed

lemma show_digits: "c \<in> set (show_nat n) \<Longrightarrow> 48 \<le> (of_char c :: nat) \<and> (of_char c :: nat) \<le> 57"
proof (induction n rule: show_nat.induct)
  case (1 n)
  then show ?case
    by (cases "n < 10") (auto simp: show_nat.simps [of n] digit_char(2))
qed

lemma show_nat_nonempty: "show_nat n \<noteq> []"
  by (subst show_nat.simps) simp

text \<open>Hexadecimal output.\<close>

definition hex_digit :: "nat \<Rightarrow> char" where
  "hex_digit n = (if n < 10 then char_of (48 + n) else char_of (87 + n))"

text \<open>\<open>%02x\<close>, \<open>%04x\<close> and \<open>%08x\<close> of a value that fits the width.\<close>

fun hex_w :: "nat \<Rightarrow> nat \<Rightarrow> string" where
  "hex_w 0 n = []"
| "hex_w (Suc w) n = hex_w w (n div 16) @ [hex_digit (n mod 16)]"

text \<open>A block that stands at a position of a memory.\<close>

definition stands_at :: "'a list \<Rightarrow> nat \<Rightarrow> 'a list \<Rightarrow> bool" where
  "stands_at d p bs \<longleftrightarrow> p + length bs \<le> length d \<and> slice p (length bs) d = bs"

lemma stands_atD: "stands_at d p bs \<Longrightarrow> drop p d = bs @ drop (p + length bs) d"
  unfolding stands_at_def slice_def by (metis add.commute append_take_drop_id drop_drop)

lemma stands_at_append:
  "stands_at d p (a @ b) \<longleftrightarrow> stands_at d p a \<and> stands_at d (p + length a) b"
proof
  assume ab: "stands_at d p (a @ b)"
  then have "drop p d = a @ b @ drop (p + length (a @ b)) d" using stands_atD by fastforce
  moreover from this have "drop (p + length a) d = b @ drop (p + length (a @ b)) d"
    by (metis add.commute append_eq_conv_conj drop_drop)
  ultimately show "stands_at d p a \<and> stands_at d (p + length a) b"
    using ab by (simp add: stands_at_def slice_def)
next
  assume a: "stands_at d p a \<and> stands_at d (p + length a) b"
  then have "drop p d = a @ b @ drop (p + length a + length b) d" using stands_atD by metis
  then show "stands_at d p (a @ b)" using a by (simp add: stands_at_def slice_def)
qed

lemma stands_at_length: "stands_at d p bs \<Longrightarrow> p + length bs \<le> length d"
  by (simp add: stands_at_def)

lemma stands_at_drop: "stands_at (drop k d) p bs \<Longrightarrow> k \<le> length d \<Longrightarrow> stands_at d (k + p) bs"
  by (simp add: stands_at_def slice_def add.commute le_diff_conv2)

text \<open>Reading and writing some bytes of a block; \<open>None\<close> is an access outside it.\<close>

definition block_read :: "u8 list \<Rightarrow> nat \<Rightarrow> nat \<Rightarrow> u8 list option" where
  "block_read d i n = (if i + n \<le> length d then Some (slice i n d) else None)"

definition block_write :: "u8 list \<Rightarrow> nat \<Rightarrow> u8 list \<Rightarrow> u8 list option" where
  "block_write d i bs = (if i + length bs \<le> length d then Some (write_at i bs d) else None)"

lemma slice_behind: "length x = n \<Longrightarrow> i = length a \<Longrightarrow> slice i n (a @ x @ z) = x"
  by (simp add: slice_def)

lemma block_read_behind: "length x = n \<Longrightarrow> i = length a \<Longrightarrow> block_read (a @ x @ z) i n = Some x"
  by (simp add: block_read_def slice_behind)

lemma block_write_behind: "length x = length y \<Longrightarrow> i = length a \<Longrightarrow> block_write (a @ y @ z) i x = Some (a @ x @ z)"
  by (simp add: block_write_def write_at_def)

lemma of_le_images [simp]: "of_le16 (le16 w) = w" "of_le32 (le32 v) = v"
  using of_le16_le16_append [of w "[]"] of_le32_le32_append [of v "[]"] by simp_all

end
