(* ===== verification/InetSum.thy ===== *)
theory InetSum
  imports NetPrelude
begin

text \<open>
  The Internet checksum of \<open>system/core/libnetutils/packet.c\<close> (\<open>checksum\<close>, \<open>finish_sum\<close>),
  its specification as a sum of 16-bit words reduced to the ones'-complement representative,
  and the contract the packet code relies on (locale \<open>inet_sum\<close>), interpreted on the code.
\<close>

subsection \<open>The code\<close>

text \<open>The summing loop: two bytes at a time, then the odd byte; the 32-bit sum wraps.\<close>

fun checksum_sum :: "u8 list \<Rightarrow> u32 \<Rightarrow> u32" where
  "checksum_sum (a # b # up) s = checksum_sum up (s + ucast (of_le16 [a, b]))"
| "checksum_sum [a] s = s + ucast a"
| "checksum_sum [] s = s"

text \<open>The folding loop adds the upper half back until it is zero.\<close>

lemma unat_drop16: "unat (drop_bit 16 (s :: u32)) = unat s div 65536"
  by (simp add: unat_drop_bit_eq drop_bit_eq_div unat_div)

lemma unat_and_ffff: "unat ((s :: u32) AND 0xffff) = unat s mod 65536"
proof -
  have "s AND 0xffff = take_bit 16 s"
    by (simp add: take_bit_eq_mask mask_eq_exp_minus_1)
  then show ?thesis
    by (simp add: take_bit_eq_mod unat_mod)
qed

lemma unat_fold_step:
  fixes s :: u32
  shows "unat ((s AND 0xffff) + drop_bit 16 s) = unat s mod 65536 + unat s div 65536"
proof -
  have "unat s < 2 ^ 32" by simp
  then have "unat (s AND 0xffff) + unat (drop_bit 16 s) < 2 ^ 32"
    unfolding unat_drop16 unat_and_ffff by linarith
  then show ?thesis
    by (simp only: unat_plus_if' unat_drop16 unat_and_ffff) simp
qed

lemma drop16_zero_iff: "drop_bit 16 (s :: u32) = 0 \<longleftrightarrow> unat s < 65536"
  by (simp only: unat_0_iff [symmetric] unat_drop16) auto

function fold_carry :: "u32 \<Rightarrow> u32" where
  "fold_carry s =
     (if drop_bit 16 s = 0 then s else fold_carry ((s AND 0xffff) + drop_bit 16 s))"
  by pat_completeness auto
termination
proof (relation "measure unat")
  fix s :: u32
  assume "drop_bit 16 s \<noteq> 0"
  then have "65536 \<le> unat s" by (simp only: drop16_zero_iff not_less)
  then have "unat s mod 65536 + unat s div 65536 < unat s"
    using div_mult_mod_eq [of "unat s" 65536] by linarith
  then show "((s AND 0xffff) + drop_bit 16 s, s) \<in> measure unat"
    by (simp only: in_measure unat_fold_step)
qed (rule wf_measure)

declare fold_carry.simps [simp del]

definition checksum :: "u8 list \<Rightarrow> u32 \<Rightarrow> u32" where
  "checksum buffer startsum = fold_carry (checksum_sum buffer startsum)"

definition finish_sum :: "u32 \<Rightarrow> u32" where
  "finish_sum s = NOT s AND 0xffff"

subsection \<open>The specification\<close>

text \<open>The exact sum of the 16-bit words, and the ones'-complement representative of a sum.\<close>

fun sum16 :: "u8 list \<Rightarrow> nat" where
  "sum16 (a # b # up) = unat a + 256 * unat b + sum16 up"
| "sum16 [a] = unat a"
| "sum16 [] = 0"

definition norm16 :: "nat \<Rightarrow> nat" where
  "norm16 n = (if n = 0 then 0 else (n - 1) mod 65535 + 1)"

lemma norm16_le: "norm16 n \<le> 65535"
  using mod_less_divisor [of 65535 "n - 1"] unfolding norm16_def by auto

lemma norm16_small [simp]: "n \<le> 65535 \<Longrightarrow> norm16 n = n"
  by (simp add: norm16_def)

lemma norm16_zero_iff [simp]: "norm16 n = 0 \<longleftrightarrow> n = 0"
  by (simp add: norm16_def)

lemma norm16_mod: "norm16 n mod 65535 = n mod 65535"
  by (cases n) (simp_all add: norm16_def mod_Suc_eq)

lemma norm16_mod_form: "0 < n \<Longrightarrow> norm16 n = (if n mod 65535 = 0 then 65535 else n mod 65535)"
proof -
  assume "0 < n"
  then obtain m where n: "n = Suc m" by (cases n) auto
  show ?thesis
    unfolding norm16_def n by (simp add: mod_Suc)
qed

lemma norm16_eqI: "(a = 0 \<longleftrightarrow> b = 0) \<Longrightarrow> a mod 65535 = b mod 65535 \<Longrightarrow> norm16 a = norm16 b"
  by (cases "a = 0") (simp_all add: norm16_mod_form)

lemma norm16_absorb [simp]: "norm16 (norm16 a + b) = norm16 (a + b)"
  by (rule norm16_eqI) (simp, metis norm16_mod mod_add_left_eq)

lemma norm16_absorb_right [simp]: "norm16 (b + norm16 a) = norm16 (b + a)"
  using norm16_absorb [of a b] by (simp only: add.commute)

lemma unat_of_le16: "unat (of_le16 (a # b # r)) = unat a + 256 * unat b"
proof -
  have a: "unat a < 256" and b: "unat b < 256" by simp_all
  have "bit (ucast a :: u16) n \<Longrightarrow> \<not> bit (push_bit 8 (ucast b :: u16)) n" for n
    using bit_imp_le_length [of a n] by (auto simp: bit_simps)
  then have "of_le16 (a # b # r) = ucast a + push_bit 8 (ucast b :: u16)"
    by (simp add: disjunctive_add)
  moreover have "unat (push_bit 8 (ucast b :: u16)) = 256 * unat b"
    using b by (simp add: push_bit_eq_mult unat_word_ariths)
  moreover have "unat a + 256 * unat b < 65536" using a b by linarith
  ultimately show ?thesis by (simp add: unat_add_small)
qed

subsection \<open>The loops compute the specification\<close>

lemma unat_fold_carry: "unat (fold_carry s) = norm16 (unat s)"
proof (induction s rule: fold_carry.induct)
  case (1 s)
  show ?case
  proof (cases "drop_bit 16 s = 0")
    case True
    then have "unat s < 65536" by (simp only: drop16_zero_iff)
    with True show ?thesis by (simp add: fold_carry.simps [of s])
  next
    case False
    then have big: "65536 \<le> unat s" by (simp only: drop16_zero_iff not_less)
    let ?t = "(s AND 0xffff) + drop_bit 16 s"
    have "unat s = (unat s div 65536) * 65535 + (unat s mod 65536 + unat s div 65536)"
      using div_mult_mod_eq [of "unat s" 65536] by linarith
    then have "(unat s mod 65536 + unat s div 65536) mod 65535 = unat s mod 65535"
      by (metis mod_mult_self3)
    moreover have "unat s mod 65536 + unat s div 65536 \<noteq> 0" using big by linarith
    ultimately have "norm16 (unat ?t) = norm16 (unat s)"
      unfolding unat_fold_step using big by (intro norm16_eqI) linarith+
    then show ?thesis
      using "1.IH" [OF False] False by (simp only: fold_carry.simps [of s] if_False)
  qed
qed

lemma sum16_bound: "sum16 bs \<le> 65535 * ((length bs + 1) div 2)"
proof (induction bs rule: sum16.induct)
  case (1 a b up)
  have "unat a + 256 * unat b \<le> 65535"
    using unat_u8_less [of a] unat_u8_less [of b] by linarith
  with 1 show ?case by simp
next
  case (2 a)
  show ?case using unat_u8_less [of a] by (simp del: unat_u8_less)
qed simp

lemma sum16_append: "even (length xs) \<Longrightarrow> sum16 (xs @ ys) = sum16 xs + sum16 ys"
  by (induction xs rule: sum16.induct) auto

lemma unat_checksum_sum:
  "unat s + sum16 bs < 2 ^ 32 \<Longrightarrow> unat (checksum_sum bs s) = unat s + sum16 bs"
proof (induction bs s rule: checksum_sum.induct)
  case (1 a b up s)
  have w: "unat (ucast (of_le16 [a, b]) :: u32) = unat a + 256 * unat b"
    by (simp add: unat_of_le16 del: of_le16.simps)
  with "1.prems" have "unat (s + ucast (of_le16 [a, b])) = unat s + (unat a + 256 * unat b)"
    by (subst unat_add_small) (simp_all del: of_le16.simps)
  with "1" show ?case by (simp del: of_le16.simps)
next
  case (2 a s)
  then show ?case by (simp add: unat_add_small)
qed simp

lemma unat_finish_sum: "unat (finish_sum s) = 65535 - unat s mod 65536"
proof -
  have "bit (s AND 0xffff) n \<Longrightarrow> \<not> bit (finish_sum s) n" for n
    by (auto simp: finish_sum_def bit_simps)
  then have "(s AND 0xffff) + finish_sum s = (s AND 0xffff) OR finish_sum s"
    by (simp add: disjunctive_add)
  also have "\<dots> = 0xffff"
    by (rule bit_word_eqI) (auto simp: finish_sum_def bit_simps)
  finally have s: "(s AND 0xffff) + finish_sum s = 0xffff" .
  have f: "unat (finish_sum s) < 65536"
    unfolding finish_sum_def unat_and_ffff by simp
  have "unat (s AND 0xffff) + unat (finish_sum s) = unat ((s AND 0xffff) + finish_sum s)"
    using f by (subst unat_add_small) (simp_all add: unat_and_ffff)
  then show ?thesis unfolding s unat_and_ffff by simp
qed

text \<open>
  The value the code computes: for a buffer of at most 65536 bytes the 32-bit sum does not
  wrap, and the folded result is the ones'-complement sum.
\<close>

lemma unat_checksum:
  assumes "length bs \<le> 65536" "unat s \<le> 65535"
  shows "unat (checksum bs s) = norm16 (unat s + sum16 bs)"
proof -
  have "(length bs + 1) div 2 \<le> 32768" using assms(1) by linarith
  then have "sum16 bs \<le> 65535 * 32768"
    using sum16_bound [of bs] by (meson le_trans mult_le_mono2)
  then have "unat s + sum16 bs < 2 ^ 32" using assms(2) by simp
  then show ?thesis by (simp add: checksum_def unat_fold_carry unat_checksum_sum)
qed

subsection \<open>The contract the packet code relies on\<close>

text \<open>
  What sender and receiver use of the checksum: its value is the ones'-complement sum of the
  start value and the 16-bit words of the buffer. Everything the packet code needs follows:
  splitting a buffer, independence of the order of the parts, and that a block whose
  checksum slot holds the complement of its sum verifies.
\<close>

locale inet_sum =
  fixes ck :: "u8 list \<Rightarrow> u32 \<Rightarrow> u32"
  assumes ck_value: "length bs \<le> 65536 \<Longrightarrow> unat s \<le> 65535 \<Longrightarrow>
    unat (ck bs s) = norm16 (unat s + sum16 bs)"
begin

lemma ck_le: "length bs \<le> 65536 \<Longrightarrow> unat s \<le> 65535 \<Longrightarrow> unat (ck bs s) \<le> 65535"
  by (simp add: ck_value norm16_le)

lemma ck_ck:
  "length xs \<le> 65536 \<Longrightarrow> length ys \<le> 65536 \<Longrightarrow> unat s \<le> 65535 \<Longrightarrow>
   unat (ck ys (ck xs s)) = norm16 (unat s + sum16 xs + sum16 ys)"
  by (simp add: ck_value norm16_le)

lemma ck_append:
  assumes "even (length xs)" "length (xs @ ys) \<le> 65536" "unat s \<le> 65535"
  shows "ck (xs @ ys) s = ck ys (ck xs s)"
proof (rule word_unat_eq_iff [THEN iffD2])
  have "length xs \<le> 65536" "length ys \<le> 65536" using assms(2) by simp_all
  then show "unat (ck (xs @ ys) s) = unat (ck ys (ck xs s))"
    using assms by (simp add: ck_value ck_ck sum16_append add.assoc)
qed

lemma ck_cong:
  "sum16 xs = sum16 ys \<Longrightarrow> length xs \<le> 65536 \<Longrightarrow> length ys \<le> 65536 \<Longrightarrow> unat s \<le> 65535 \<Longrightarrow>
   ck xs s = ck ys s"
  by (simp add: word_unat_eq_iff ck_value)

lemma complement_verifies:
  assumes len: "length bs \<le> 65536" "length bs' \<le> 65536"
    and slot: "sum16 bs' = sum16 bs + unat (finish_sum (ck bs 0))"
  shows "unat (ck bs' 0) = 65535"
proof -
  let ?n = "norm16 (sum16 bs)"
  have n: "?n \<le> 65535" by (rule norm16_le)
  then have c: "unat (finish_sum (ck bs 0)) = 65535 - ?n"
    using len(1) by (simp add: unat_finish_sum ck_value)
  have "unat (ck bs' 0) = norm16 (sum16 bs + (65535 - ?n))"
    using len(2) by (simp add: ck_value slot c)
  also have "\<dots> = norm16 (?n + (65535 - ?n))" by simp
  also have "\<dots> = 65535" using n by simp
  finally show ?thesis .
qed

lemma finish_zero_iff:
  "length bs \<le> 65536 \<Longrightarrow> finish_sum (ck bs 0) = 0 \<longleftrightarrow> unat (ck bs 0) = 65535"
  using ck_le [of bs 0] unat_finish_sum [of "ck bs 0"]
  by (auto simp: word_unat_eq_iff [of "finish_sum (ck bs 0)"])

end

interpretation csum: inet_sum checksum
  by unfold_locales (rule unat_checksum)

text \<open>C5: the value of the checksum routine. For every block that fits an IP datagram and every
  16-bit start value, the wrapping 32-bit accumulation and the carry-folding loop give the
  ones'-complement sum of the 16-bit little-endian words; \<open>finish_sum\<close> is its complement; and
  checksumming a block in two parts, cut at an even offset, gives the same value.\<close>

theorem checksum_ones_complement:
  assumes "length bs \<le> 65536" "unat s \<le> 65535"
  shows "unat (checksum bs s) = norm16 (unat s + sum16 bs) \<and>
    unat (finish_sum (checksum bs s)) = 65535 - norm16 (unat s + sum16 bs) \<and>
    checksum bs s = checksum (drop (2 * k) bs) (checksum (take (2 * k) bs) s)"
proof (intro conjI)
  show v: "unat (checksum bs s) = norm16 (unat s + sum16 bs)"
    using assms by (rule csum.ck_value)
  show "unat (finish_sum (checksum bs s)) = 65535 - norm16 (unat s + sum16 bs)"
    using norm16_le [of "unat s + sum16 bs"] by (simp add: unat_finish_sum v)
  show "checksum bs s = checksum (drop (2 * k) bs) (checksum (take (2 * k) bs) s)"
  proof (cases "2 * k \<le> length bs")
    case True
    then show ?thesis
      using csum.ck_append [of "take (2 * k) bs" "drop (2 * k) bs" s] assms by simp
  next
    case False
    then show ?thesis
      using csum.ck_le [OF assms] by (simp add: checksum_def fold_carry.simps [of "fold_carry _"] drop16_zero_iff)
  qed
qed

theorem checksum_ones_complement_witness:
  "unat (checksum [1, 2, 3] 0) = 516 \<and> unat (finish_sum (checksum [1, 2, 3] 0)) = 65019 \<and>
   checksum [1, 2, 3] 0 = checksum [3] (checksum [1, 2] 0)"
  by (rule checksum_ones_complement [of "[1, 2, 3]" 0 1, simplified])

end
