(* ===== verification/RawPacket.thy ===== *)
theory RawPacket
  imports InetSum
begin

text \<open>
  \<open>system/core/libnetutils/packet.c\<close>: building an IP/UDP frame around a DHCP message
  (\<open>send_packet\<close>), opening the packet socket (\<open>open_raw_socket\<close>), and filtering, checking and
  unpacking a received frame (\<open>receive_packet\<close>). The structures are records together with
  their in-memory images, because the code checksums and copies them as bytes.
\<close>

subsection \<open>Structures and their memory images\<close>

record iphdr =
  ip_version :: u8
  ip_ihl :: u8
  ip_tos :: u8
  ip_tot_len :: u16
  ip_id :: u16
  ip_frag_off :: u16
  ip_ttl :: u8
  ip_protocol :: u8
  ip_check :: u16
  ip_saddr :: u32
  ip_daddr :: u32

record udphdr =
  udp_source :: u16
  udp_dest :: u16
  udp_len :: u16
  udp_check :: u16

definition iphdr_bytes :: "iphdr \<Rightarrow> u8 list" where
  "iphdr_bytes ip =
     [(ip_ihl ip AND 15) OR push_bit 4 (ip_version ip), ip_tos ip] @ le16 (ip_tot_len ip) @
     le16 (ip_id ip) @ le16 (ip_frag_off ip) @ [ip_ttl ip, ip_protocol ip] @ le16 (ip_check ip) @
     le32 (ip_saddr ip) @ le32 (ip_daddr ip)"

definition iphdr_of :: "u8 list \<Rightarrow> iphdr" where
  "iphdr_of p =
     \<lparr>ip_version = drop_bit 4 (p ! 0), ip_ihl = p ! 0 AND 15, ip_tos = p ! 1,
      ip_tot_len = of_le16 (drop 2 p), ip_id = of_le16 (drop 4 p), ip_frag_off = of_le16 (drop 6 p),
      ip_ttl = p ! 8, ip_protocol = p ! 9, ip_check = of_le16 (drop 10 p),
      ip_saddr = of_le32 (drop 12 p), ip_daddr = of_le32 (drop 16 p)\<rparr>"

definition udphdr_bytes :: "udphdr \<Rightarrow> u8 list" where
  "udphdr_bytes u = le16 (udp_source u) @ le16 (udp_dest u) @ le16 (udp_len u) @ le16 (udp_check u)"

definition udphdr_of :: "u8 list \<Rightarrow> udphdr" where
  "udphdr_of p =
     \<lparr>udp_source = of_le16 p, udp_dest = of_le16 (drop 2 p),
      udp_len = of_le16 (drop 4 p), udp_check = of_le16 (drop 6 p)\<rparr>"

text \<open>The version and header length are 4-bit fields.\<close>

definition iphdr_wf :: "iphdr \<Rightarrow> bool" where
  "iphdr_wf ip \<longleftrightarrow> unat (ip_version ip) < 16 \<and> unat (ip_ihl ip) < 16"

subsection \<open>The interface of a structure image\<close>

locale struct_image =
  fixes enc :: "'a \<Rightarrow> u8 list" and dec :: "u8 list \<Rightarrow> 'a" and n :: nat and wf :: "'a \<Rightarrow> bool"
  assumes enc_len: "wf x \<Longrightarrow> length (enc x) = n"
    and dec_enc: "wf x \<Longrightarrow> dec (enc x @ r) = x"
begin

lemma enc_inject: "wf x \<Longrightarrow> wf y \<Longrightarrow> enc x = enc y \<Longrightarrow> x = y"
  using dec_enc [of x "[]"] dec_enc [of y "[]"] by simp

lemma dec_after: "wf x \<Longrightarrow> length p = k \<Longrightarrow> dec (drop k (p @ enc x @ r)) = x"
  by (simp add: dec_enc)

lemma drop_enc: "wf x \<Longrightarrow> drop n (enc x @ r) = r"
  by (simp add: enc_len)

lemma take_enc: "wf x \<Longrightarrow> take n (enc x @ r) = enc x"
  by (simp add: enc_len)

end

lemma length_iphdr_bytes [simp]: "length (iphdr_bytes ip) = 20"
  by (simp add: iphdr_bytes_def)

lemma length_udphdr_bytes [simp]: "length (udphdr_bytes u) = 8"
  by (simp add: udphdr_bytes_def)

lemma nibbles:
  fixes v h :: u8
  assumes "unat v < 16" "unat h < 16"
  shows "drop_bit 4 ((h AND 15) OR push_bit 4 v) = v" "((h AND 15) OR push_bit 4 v) AND 15 = h"
proof -
  have small: "w AND 15 = w" if "unat w < 16" for w :: u8
  proof -
    have "w AND 15 = take_bit 4 w" by (simp add: take_bit_eq_mask mask_eq_exp_minus_1)
    then show ?thesis using that
      by (simp add: word_unat_eq_iff unsigned_take_bit_eq take_bit_nat_eq_self del: take_bit_numeral_minus_1_eq)
  qed
  have v: "v AND 15 = v" and h: "h AND 15 = h" using assms small by auto
  have m: "(15 :: u8) = mask 4" by (simp add: mask_eq_exp_minus_1)
  have bv: "bit v k \<Longrightarrow> k < 4" and bh: "bit h k \<Longrightarrow> k < 4" for k
    using v h unfolding m by (metis bit_and_iff bit_mask_iff)+
  show "drop_bit 4 ((h AND 15) OR push_bit 4 v) = v"
    unfolding m by (rule bit_word_eqI) (auto simp: bit_simps dest: bv)
  show "((h AND 15) OR push_bit 4 v) AND 15 = h"
    unfolding m by (rule bit_word_eqI) (auto simp: bit_simps dest: bh)
qed

lemma shift_nibble: "unat (v :: u8) < 16 \<Longrightarrow> drop_bit 4 (push_bit 4 v) = v"
  using nibbles [of v 0] by simp

interpretation iph: struct_image iphdr_bytes iphdr_of 20 iphdr_wf
proof unfold_locales
  fix ip r assume "iphdr_wf ip"
  then show "iphdr_of (iphdr_bytes ip @ r) = ip"
    by (simp add: iphdr_of_def iphdr_bytes_def iphdr_wf_def nibbles shift_nibble le16_def le32_def)
qed simp

interpretation udph: struct_image udphdr_bytes udphdr_of 8 "\<lambda>_. True"
  by unfold_locales (simp_all add: udphdr_of_def udphdr_bytes_def le16_def)

subsection \<open>Opening the packet socket\<close>

record sockaddr_ll =
  sll_family :: u16
  sll_protocol :: u16
  sll_ifindex :: int
  sll_halen :: u8
  sll_addr :: "u8 list"

definition sockaddr_ll_zero :: sockaddr_ll where
  "sockaddr_ll_zero = \<lparr>sll_family = 0, sll_protocol = 0, sll_ifindex = 0, sll_halen = 0,
     sll_addr = replicate 8 0\<rparr>"

definition AF_PACKET :: u16 where "AF_PACKET = 17"
definition ETH_P_IP :: u16 where "ETH_P_IP = 0x0800"

text \<open>
  \<open>sock\<close> is the kernel's answer to \<open>socket\<close>, \<open>bind\<close> its answer for an address. The result is
  the returned value and the descriptors the call leaves open.
\<close>

definition open_raw_socket ::
  "int \<Rightarrow> (int \<Rightarrow> sockaddr_ll \<Rightarrow> int) \<Rightarrow> u8 list \<Rightarrow> int \<Rightarrow> int \<times> int list" where
  "open_raw_socket sock bind hwaddr if_index =
     (if sock < 0 then (-1, [])
      else
        let bindaddr = sockaddr_ll_zero\<lparr>
              sll_family := AF_PACKET, sll_protocol := htons ETH_P_IP, sll_halen := 6,
              sll_addr := write_at 0 (take 6 hwaddr) (replicate 8 0), sll_ifindex := if_index\<rparr>
        in if bind sock bindaddr < 0 then (-1, [sock]) else (sock, [sock]))"

subsection \<open>Sending\<close>

record msghdr =
  msg_name :: sockaddr_ll
  msg_iov :: "u8 list list"

definition send_ip :: "nat \<Rightarrow> u32 \<Rightarrow> u32 \<Rightarrow> iphdr" where
  "send_ip sz saddr daddr =
     (let ip = \<lparr>ip_version = 4, ip_ihl = 5, ip_tos = 0, ip_tot_len = htons (of_nat (20 + 8 + sz)),
                ip_id = 0, ip_frag_off = 0, ip_ttl = 64, ip_protocol = 17, ip_check = 0,
                ip_saddr = saddr, ip_daddr = daddr\<rparr>
      in ip\<lparr>ip_check := ucast (finish_sum (checksum (iphdr_bytes ip) 0))\<rparr>)"

definition send_udp :: "u8 list \<Rightarrow> nat \<Rightarrow> u32 \<Rightarrow> u32 \<Rightarrow> u32 \<Rightarrow> u32 \<Rightarrow> udphdr" where
  "send_udp msg sz saddr daddr sport dport =
     (let udp = \<lparr>udp_source = htons (ucast sport), udp_dest = htons (ucast dport),
                 udp_len = htons (of_nat (8 + sz)), udp_check = 0\<rparr>;
          udpsum = checksum (le32 saddr) 0;
          udpsum = checksum (le32 daddr) udpsum;
          temp = htons 17;
          udpsum = checksum (le16 temp) udpsum;
          temp = udp_len udp;
          udpsum = checksum (le16 temp) udpsum;
          udpsum = checksum (udphdr_bytes udp) udpsum;
          udpsum = checksum (take sz msg) udpsum
      in udp\<lparr>udp_check := ucast (finish_sum udpsum)\<rparr>)"

definition send_packet ::
  "int \<Rightarrow> u8 list \<Rightarrow> nat \<Rightarrow> u32 \<Rightarrow> u32 \<Rightarrow> u32 \<Rightarrow> u32 \<Rightarrow> msghdr" where
  "send_packet if_index msg sz saddr daddr sport dport =
     (let ip = send_ip sz saddr daddr;
          udp = send_udp msg sz saddr daddr sport dport;
          destaddr = sockaddr_ll_zero\<lparr>
            sll_family := AF_PACKET, sll_protocol := htons ETH_P_IP, sll_ifindex := if_index,
            sll_halen := 6, sll_addr := write_at 0 (replicate 6 0xff) (replicate 8 0)\<rparr>
      in \<lparr>msg_name = destaddr, msg_iov = [iphdr_bytes ip, udphdr_bytes udp, take sz msg]\<rparr>)"

subsection \<open>Receiving\<close>

text \<open>
  The result is the error return, the accepted message (size and new content of the caller's
  buffer), or \<open>Recv_overrun\<close>: the final \<open>memcpy\<close> is called with a size that is negative or
  larger than the 1260-byte message, which in C runs past both buffers. \<open>packet\<close> is the
  1288-byte stack buffer after \<open>read\<close> put \<open>nread\<close> bytes in front of it.
\<close>

datatype recv_result = Recv_fail | Recv_ok int "u8 list" | Recv_overrun int

definition DHCP_MSG_SIZE :: nat where "DHCP_MSG_SIZE = 1260"
definition PACKET_SIZE :: nat where "PACKET_SIZE = 20 + 8 + DHCP_MSG_SIZE"

definition packet_is_valid :: "u8 list \<Rightarrow> int \<Rightarrow> bool" where
  "packet_is_valid packet nread =
     (let ip = iphdr_of packet; udp = udphdr_of (drop 20 packet)
      in if nread < 28 then False
         else if ip_version ip \<noteq> 4 \<or> ip_ihl ip \<noteq> 5 then False
         else if nread < int (unat (ntohs (ip_tot_len ip))) then False
         else if ip_protocol ip \<noteq> 17 then False
         else if udp_dest udp \<noteq> htons 68 then False
         else True)"

definition pseudo_packet :: "u8 list \<Rightarrow> u8 list" where
  "pseudo_packet packet =
     (let ip = iphdr_of packet; udp = udphdr_of (drop 20 packet);
          ip' = \<lparr>ip_version = 0, ip_ihl = 0, ip_tos = 0, ip_tot_len = udp_len udp, ip_id = 0,
                 ip_frag_off = 0, ip_ttl = 0, ip_protocol = 17, ip_check = 0,
                 ip_saddr = ip_saddr ip, ip_daddr = ip_daddr ip\<rparr>
      in iphdr_bytes ip' @ udphdr_bytes (udp\<lparr>udp_check := 0\<rparr>) @ drop 28 packet)"

definition receive_packet :: "u8 list \<Rightarrow> int \<Rightarrow> u8 list \<Rightarrow> recv_result" where
  "receive_packet packet nread msg =
     (if nread < 0 then Recv_fail
      else if \<not> packet_is_valid packet nread then Recv_fail
      else if finish_sum (checksum (take 20 packet) 0) \<noteq> 0 then Recv_fail
      else
        let udp = udphdr_of (drop 20 packet);
            dhcp_size = int (unat (ntohs (udp_len udp))) - 8;
            nread = unat (ntohs (ip_tot_len (iphdr_of packet)));
            temp = udp_check udp;
            s = finish_sum (checksum (take nread (pseudo_packet packet)) 0);
            s = (if s = 0 then finish_sum s else s)
        in if ucast temp \<noteq> s then Recv_fail
           else if 0 \<le> dhcp_size \<and> dhcp_size \<le> int DHCP_MSG_SIZE
           then Recv_ok dhcp_size (write_at 0 (slice 28 (nat dhcp_size) packet) msg)
           else Recv_overrun dhcp_size)"

subsection \<open>Sums of the structures\<close>

lemma unat_bytes16: "unat (ucast w :: u8) + 256 * unat (ucast (drop_bit 8 w) :: u8) = unat (w :: u16)"
  using unat_of_le16 [of "ucast w" "ucast (drop_bit 8 w)" "[]"] by (simp only: of_le16.simps le16_join)

lemma sum16_le16 [simp]: "sum16 (le16 w @ r) = unat w + sum16 r"
  by (simp add: le16_def unat_bytes16 del: unsigned_ucast_eq)

lemma sum16_le16_only [simp]: "sum16 (le16 w) = unat w"
  using sum16_le16 [of w "[]"] by simp

lemma sum16_le32 [simp]: "sum16 (le32 w @ r) = sum16 (le32 w) + sum16 r"
  by (simp add: sum16_append)

lemma sum16_iphdr:
  "sum16 (iphdr_bytes ip) =
     sum16 [(ip_ihl ip AND 15) OR push_bit 4 (ip_version ip), ip_tos ip] + unat (ip_tot_len ip) +
     unat (ip_id ip) + unat (ip_frag_off ip) + (unat (ip_ttl ip) + 256 * unat (ip_protocol ip)) +
     unat (ip_check ip) + sum16 (le32 (ip_saddr ip)) + sum16 (le32 (ip_daddr ip))"
  by (simp add: iphdr_bytes_def)

lemma sum16_udphdr:
  "sum16 (udphdr_bytes u) =
     unat (udp_source u) + unat (udp_dest u) + unat (udp_len u) + unat (udp_check u)"
  by (simp add: udphdr_bytes_def)

lemma unat_finish16 [simp]: "unat (ucast (finish_sum s) :: u16) = unat (finish_sum s)"
proof -
  have "unat (finish_sum s) < 2 ^ 16" by (simp add: unat_finish_sum)
  then show ?thesis by (simp add: unsigned_ucast_eq take_bit_nat_eq_self)
qed

text \<open>Every IP header that \<open>send_packet\<close> builds passes the header check.\<close>

lemma send_ip_verifies: "finish_sum (checksum (iphdr_bytes (send_ip sz saddr daddr)) 0) = 0"
proof -
  let ?ip = "send_ip sz saddr daddr"
  let ?z = "?ip\<lparr>ip_check := 0\<rparr>"
  have c: "ip_check ?ip = ucast (finish_sum (checksum (iphdr_bytes ?z) 0))"
    by (simp add: send_ip_def)
  have "sum16 (iphdr_bytes ?ip) = sum16 (iphdr_bytes ?z) + unat (finish_sum (checksum (iphdr_bytes ?z) 0))"
    unfolding sum16_iphdr by (subst c) simp
  then have "unat (checksum (iphdr_bytes ?ip) 0) = 65535"
    by (rule csum.complement_verifies [rotated 2]) simp_all
  then show ?thesis by (simp add: csum.finish_zero_iff)
qed

text \<open>
  The sender folds the pseudo header, the UDP header and the data into one checksum; it is the
  checksum of their concatenation.
\<close>

lemma checksum_parts:
  assumes "length msg \<le> 65500"
  shows "checksum msg (checksum (udphdr_bytes u) (checksum (le16 l) (checksum (le16 p)
           (checksum (le32 d) (checksum (le32 s) 0))))) =
         checksum (le32 s @ le32 d @ le16 p @ le16 l @ udphdr_bytes u @ msg) 0"
  using assms by (simp add: csum.ck_append csum.ck_le)

lemma length_pseudo: "28 \<le> length p \<Longrightarrow> length (pseudo_packet p) = length p"
  by (simp add: pseudo_packet_def Let_def)

text \<open>What the receiver sums equals what the sender summed, part by part.\<close>

lemma sum16_pseudo:
  assumes "p = iphdr_bytes ip @ udphdr_bytes u @ data" "iphdr_wf ip" "28 \<le> n" "n \<le> length p"
  shows "sum16 (take n (pseudo_packet p)) =
    sum16 (le32 (ip_saddr ip) @ le32 (ip_daddr ip) @ le16 (htons 17) @ le16 (udp_len u) @
           udphdr_bytes (u\<lparr>udp_check := 0\<rparr>) @ take (n - 28) data)"
proof -
  have i: "iphdr_of p = ip" using assms(1,2) by (simp add: iph.dec_enc)
  have v: "udphdr_of (drop 20 p) = u" and d: "drop 28 p = data"
    using assms(1) by (simp_all add: udph.dec_enc)
  have h: "unat (htons 17) = 256 * 17" by (simp add: htons_def)
  show ?thesis
    using assms(3) unfolding pseudo_packet_def i v d Let_def
    by (simp add: sum16_append sum16_iphdr sum16_udphdr h)
qed

subsection \<open>What is on the wire\<close>

definition frame_bytes :: "msghdr \<Rightarrow> u8 list" where
  "frame_bytes m = concat (msg_iov m)"

lemma frame_send_packet:
  "frame_bytes (send_packet i msg n saddr daddr sport dport) =
     iphdr_bytes (send_ip n saddr daddr) @ udphdr_bytes (send_udp msg n saddr daddr sport dport) @ take n msg"
  by (simp add: frame_bytes_def send_packet_def Let_def)

lemma send_ip_fields [simp]:
  "iphdr_wf (send_ip n saddr daddr)"
  "ip_version (send_ip n saddr daddr) = 4" "ip_ihl (send_ip n saddr daddr) = 5"
  "ip_tot_len (send_ip n saddr daddr) = htons (of_nat (28 + n))"
  "ip_protocol (send_ip n saddr daddr) = 17"
  "ip_saddr (send_ip n saddr daddr) = saddr" "ip_daddr (send_ip n saddr daddr) = daddr"
  by (simp_all add: send_ip_def iphdr_wf_def Let_def)

lemma send_udp_fields [simp]:
  "udp_source (send_udp msg n saddr daddr sport dport) = htons (ucast sport)"
  "udp_dest (send_udp msg n saddr daddr sport dport) = htons (ucast dport)"
  "udp_len (send_udp msg n saddr daddr sport dport) = htons (of_nat (8 + n))"
  by (simp_all add: send_udp_def Let_def)

lemma udp_check_send_udp:
  assumes "length msg = n" "n \<le> 65500" and u_def: "u = send_udp msg n saddr daddr sport dport"
  shows "udp_check u = ucast (finish_sum (checksum
    (le32 saddr @ le32 daddr @ le16 (htons 17) @ le16 (udp_len u) @
     udphdr_bytes (u\<lparr>udp_check := 0\<rparr>) @ msg) 0))"
proof -
  let ?l = "htons (of_nat (8 + n)) :: u16"
  let ?v = "\<lparr>udp_source = htons (ucast sport), udp_dest = htons (ucast dport), udp_len = ?l, udp_check = 0\<rparr>"
  have v: "u\<lparr>udp_check := 0\<rparr> = ?v" and l: "udp_len u = ?l"
    by (simp_all add: u_def send_udp_def Let_def)
  show ?thesis
    unfolding v l using assms(1,2) checksum_parts [of msg ?v ?l "htons 17" daddr saddr]
    by (simp add: u_def send_udp_def Let_def)
qed

lemma ucast_finish32 [simp]: "(ucast (ucast (finish_sum s) :: u16) :: u32) = finish_sum s"
  by (simp add: word_unat_eq_iff [of _ "finish_sum s"])

text \<open>Reading \<open>ntohs\<close> of a length that fits in 16 bits.\<close>

lemma unat_ntohs_len: "n < 65536 \<Longrightarrow> unat (ntohs (htons (of_nat n))) = n"
  by (simp add: unat_of_nat_small)

lemma frame_valid:
  assumes "p = iphdr_bytes (send_ip n saddr daddr) @ udphdr_bytes (send_udp msg n saddr daddr sport 68) @ r"
    and "n \<le> 1260" "28 + int n \<le> nread"
  shows "packet_is_valid p nread"
proof -
  have i: "iphdr_of p = send_ip n saddr daddr" using assms(1) by (simp add: iph.dec_enc)
  have u: "udphdr_of (drop 20 p) = send_udp msg n saddr daddr sport 68"
    using assms(1) by (simp add: udph.dec_enc)
  have t: "unat (ntohs (ip_tot_len (send_ip n saddr daddr))) = 28 + n"
    using assms(2) unat_ntohs_len [of "28 + n"] by simp
  show ?thesis
    unfolding packet_is_valid_def Let_def i u using assms(3) t by simp
qed

subsection \<open>Sender and receiver agree\<close>

lemma send_udp_take: "send_udp (take n msg) n saddr daddr sport dport = send_udp msg n saddr daddr sport dport"
  by (simp add: send_udp_def)

lemma pseudo_sum_frame:
  assumes p: "p = iphdr_bytes (send_ip n saddr daddr) @ udphdr_bytes u @ take n msg @ junk"
    and u: "u = send_udp msg n saddr daddr sport 68" and n: "n \<le> length msg" "n \<le> 1260"
  shows "finish_sum (checksum (take (28 + n) (pseudo_packet p)) 0) = ucast (udp_check u)"
proof -
  let ?whole = "le32 saddr @ le32 daddr @ le16 (htons 17) @ le16 (udp_len u) @
     udphdr_bytes (u\<lparr>udp_check := 0\<rparr>) @ take n msg"
  have len: "28 + n \<le> length p" using n by (simp add: p)
  have "sum16 (take (28 + n) (pseudo_packet p)) = sum16 ?whole"
    using sum16_pseudo [OF p _ _ len] n by simp
  then have "checksum (take (28 + n) (pseudo_packet p)) 0 = checksum ?whole 0"
    by (rule csum.ck_cong) (use n in \<open>simp_all add: length_pseudo\<close>)
  moreover have "length (take n msg) = n" "n \<le> 65500" using n by simp_all
  then have "udp_check u = ucast (finish_sum (checksum ?whole 0))"
    by (rule udp_check_send_udp) (simp only: u send_udp_take)
  ultimately show ?thesis by simp
qed

lemma slice_frame:
  "length a = 20 \<Longrightarrow> length b = 8 \<Longrightarrow> length m = n \<Longrightarrow> slice 28 n (a @ b @ m @ junk) = m"
  by (simp add: slice_def)

lemma receive_of_send:
  assumes "n \<le> length msg" "n \<le> DHCP_MSG_SIZE" "DHCP_MSG_SIZE \<le> length old"
    and "p = frame_bytes (send_packet i msg n saddr daddr sport 68) @ junk"
  shows "receive_packet p (28 + int n) old =
    (if udp_check (send_udp msg n saddr daddr sport 68) = 0 then Recv_fail
     else Recv_ok (int n) (take n msg @ drop n old))"
proof -
  let ?ip = "send_ip n saddr daddr" and ?u = "send_udp msg n saddr daddr sport 68"
  have n: "n \<le> 1260" using assms(2) by (simp add: DHCP_MSG_SIZE_def)
  have p: "p = iphdr_bytes ?ip @ udphdr_bytes ?u @ take n msg @ junk"
    using assms(4) by (simp add: frame_send_packet)
  have i: "iphdr_of p = ?ip" and u: "udphdr_of (drop 20 p) = ?u" and t: "take 20 p = iphdr_bytes ?ip"
    using p by (simp_all add: iph.dec_enc udph.dec_enc)
  have v: "packet_is_valid p (28 + int n)" using n by (intro frame_valid [OF p]) simp_all
  have tot: "unat (ntohs (ip_tot_len ?ip)) = 28 + n" and ul: "unat (ntohs (udp_len ?u)) = 8 + n"
    using n unat_ntohs_len [of "28 + n"] unat_ntohs_len [of "8 + n"] by simp_all
  have s: "finish_sum (checksum (take (28 + n) (pseudo_packet p)) 0) = ucast (udp_check ?u)"
    by (rule pseudo_sum_frame [OF p refl assms(1) n])
  have d: "write_at 0 (slice 28 n p) old = take n msg @ drop n old"
    using assms(1) by (simp add: p slice_frame write_at_def)
  have z: "(ucast (udp_check ?u) :: u32) = 0 \<longleftrightarrow> udp_check ?u = 0"
    by (simp add: word_unat_eq_iff)
  have f: "finish_sum 0 \<noteq> 0" by (simp add: finish_sum_def)
  show ?thesis
    unfolding receive_packet_def i u t Let_def tot ul s
    using v n d z f by (simp add: send_ip_verifies DHCP_MSG_SIZE_def del: unsigned_ucast_eq)
qed

text \<open>C1: end to end, on every input of the sender: what the receiver of \<open>packet.c\<close> makes of a
  frame that \<open>send_packet\<close> built for the client port. The message arrives unchanged unless its
  UDP checksum is the value 0, which the sender does not replace by 0xffff: then the frame
  is dropped.\<close>

theorem receive_packet_send_packet:
  assumes "n \<le> length msg" "n \<le> DHCP_MSG_SIZE" "DHCP_MSG_SIZE \<le> length old"
    and "p = frame_bytes (send_packet i msg n saddr daddr sport 68) @ junk"
  shows "receive_packet p (28 + int n) old =
    (if udp_check (send_udp msg n saddr daddr sport 68) = 0 then Recv_fail
     else Recv_ok (int n) (take n msg @ drop n old))"
  using assms by (rule receive_of_send)

lemma example_udp_check:
  "udp_check (send_udp [1, 2, 3] 3 0 0xffffffff 67 68) \<noteq> 0"
  by code_simp

theorem receive_packet_send_packet_witness:
  "receive_packet (frame_bytes (send_packet 1 [1, 2, 3] 3 0 0xffffffff 67 68)) 31 (replicate 1260 0) =
     Recv_ok 3 ([1, 2, 3] @ replicate 1257 0)"
  using receive_packet_send_packet [of 3 "[1, 2, 3]" "replicate 1260 0" _ 1 0 "0xffffffff" 67 "[]"]
    example_udp_check
  by (simp add: DHCP_MSG_SIZE_def)

subsection \<open>The unchecked length\<close>

lemma overrun_cases:
  "receive_packet p nread old = Recv_overrun k \<longleftrightarrow>
     0 \<le> nread \<and> packet_is_valid p nread \<and> finish_sum (checksum (take 20 p) 0) = 0 \<and>
     k = int (unat (ntohs (udp_len (udphdr_of (drop 20 p))))) - 8 \<and> (k < 0 \<or> 1260 < k) \<and>
     (let s = finish_sum (checksum (take (unat (ntohs (ip_tot_len (iphdr_of p)))) (pseudo_packet p)) 0)
      in ucast (udp_check (udphdr_of (drop 20 p))) = (if s = 0 then 0xffff else s))"
proof -
  have f: "finish_sum 0 = 0xffff" by (simp add: finish_sum_def)
  show ?thesis
    unfolding receive_packet_def Let_def DHCP_MSG_SIZE_def by (auto simp: f simp del: unsigned_ucast_eq)
qed


text \<open>A datagram without payload whose UDP length field is 0: both checksums are right, and the
  copy is called with size -8.\<close>

definition short_udp_frame :: "u8 list" where
  "short_udp_frame =
     [0x45, 0, 0, 28, 0, 0, 0, 0, 64, 17, 0x7a, 0xd2, 0, 0, 0, 0, 0xff, 0xff, 0xff, 0xff] @
     [0, 67, 0, 68, 0, 0, 0xff, 0x67]"

theorem receive_packet_memcpy_overrun:
  "receive_packet (short_udp_frame @ replicate 1260 0) 28 (replicate 1260 0) = Recv_overrun (- 8)"
  by (subst overrun_cases) code_simp

end
