(* ===== verification/Netmask.thy ===== *)
theory Netmask
  imports NetPrelude
begin

text \<open>
  The netmask conversions of \<open>system/core/libnetutils/ifc_utils.c\<close>, used by the DHCP decoder
  and by the interface operations. Addresses are kept as the code keeps them, in network byte
  order.
\<close>

subsection \<open>The code\<close>

definition prefixLengthToIpv4Netmask :: "int \<Rightarrow> u32" where
  "prefixLengthToIpv4Netmask prefix_length =
     (if prefix_length \<le> 0 \<or> 32 < prefix_length then 0
      else htonl (push_bit (nat (32 - prefix_length)) (NOT 0)))"

text \<open>The loop shifts the mask left while its top bit is set; the number of set bits shrinks.\<close>

definition ones :: "u32 \<Rightarrow> nat set" where
  "ones m = {n. bit m n}"

lemma finite_ones [simp]: "finite (ones m)"
  by (rule finite_subset [of _ "{..<32}"]) (auto simp: ones_def dest: bit_imp_le_length)

lemma msb_test: "m AND 0x80000000 \<noteq> 0 \<longleftrightarrow> bit (m :: u32) 31"
  using bit_iff_and_push_bit_not_eq_0 [of m 31] by simp

lemma bit_shl1: "bit (push_bit 1 m) n \<longleftrightarrow> 1 \<le> n \<and> n < 32 \<and> bit (m :: u32) (n - 1)"
  using bit_push_bit_iff [of 1 m n] bit_imp_le_length [of "push_bit 1 m" n] by (auto simp: possible_bit_word)

lemma ones_shift_less:
  assumes "bit m 31"
  shows "card (ones (push_bit 1 m)) < card (ones m)"
proof -
  have "ones (push_bit 1 m) = Suc ` (ones m - {31})"
  proof
    show "ones (push_bit 1 m) \<subseteq> Suc ` (ones m - {31})"
    proof
      fix n assume "n \<in> ones (push_bit 1 m)"
      then have "n < 32" "1 \<le> n" "bit m (n - 1)"
        unfolding ones_def mem_Collect_eq bit_shl1 by blast+
      then show "n \<in> Suc ` (ones m - {31})"
        by (intro image_eqI [of _ _ "n - 1"]) (auto simp: ones_def)
    qed
    show "Suc ` (ones m - {31}) \<subseteq> ones (push_bit 1 m)"
      unfolding ones_def bit_shl1 using bit_imp_le_length [of m] by fastforce
  qed
  then have "card (ones (push_bit 1 m)) = card (ones m - {31})"
    by (simp add: card_image)
  then show ?thesis
    using assms by (metis card_Diff1_less finite_ones mem_Collect_eq ones_def)
qed

function mask_loop :: "u32 \<Rightarrow> int \<Rightarrow> int" where
  "mask_loop m prefixLength =
     (if m AND 0x80000000 \<noteq> 0 then mask_loop (push_bit 1 m) (prefixLength + 1) else prefixLength)"
  by pat_completeness auto
termination
  by (relation "measure (\<lambda>(m, p). card (ones m))")
    (use msb_test ones_shift_less in \<open>simp_all only: wf_measure in_measure split\<close>)

declare mask_loop.simps [simp del]

definition ipv4NetmaskToPrefixLength :: "u32 \<Rightarrow> int" where
  "ipv4NetmaskToPrefixLength msk = mask_loop (ntohl msk) 0"

subsection \<open>What the loop counts\<close>

text \<open>\<open>leads m k\<close>: the mask starts with exactly \<open>k\<close> ones, read from the top.\<close>

definition leads :: "u32 \<Rightarrow> nat \<Rightarrow> bool" where
  "leads m k \<longleftrightarrow> k \<le> 32 \<and> (\<forall>i<k. bit m (31 - i)) \<and> (k < 32 \<longrightarrow> \<not> bit m (31 - k))"

lemma leads_unique: "leads m j \<Longrightarrow> leads m k \<Longrightarrow> j = k"
  unfolding leads_def by (metis linorder_neqE_nat order_less_le_trans)

lemma leads_step:
  assumes "bit m 31" "leads (push_bit 1 m) k"
  shows "leads m (Suc k)"
proof -
  have k: "k < 32"
  proof (rule ccontr)
    assume "\<not> k < 32"
    then have "31 < k" by linarith
    then have "bit (push_bit 1 m) (31 - 31)" using assms(2) unfolding leads_def by blast
    then show False unfolding bit_shl1 by simp
  qed
  have sh: "bit (push_bit 1 m) (31 - i) \<longleftrightarrow> bit m (31 - Suc i)" if "i < 31" for i
    using that unfolding bit_shl1 by auto
  have "bit m (31 - i)" if "i < Suc k" for i
    using that assms sh [of "i - 1"] k unfolding leads_def by (cases i) auto
  moreover have "\<not> bit m (31 - Suc k)" if "Suc k < 32"
    using that assms sh [of k] unfolding leads_def by auto
  ultimately show ?thesis using k unfolding leads_def by auto
qed

lemma mask_loop_leads: "\<exists>k. leads m k \<and> mask_loop m p = p + int k"
proof (induction m p rule: mask_loop.induct)
  case (1 m p)
  show ?case
  proof (cases "m AND 0x80000000 \<noteq> 0")
    case True
    then obtain k where k: "leads (push_bit 1 m) k" "mask_loop (push_bit 1 m) (p + 1) = p + 1 + int k"
      using "1.IH" by blast
    have "leads m (Suc k)" using True k(1) leads_step msb_test by blast
    moreover have "mask_loop m p = p + int (Suc k)"
      using True k(2) by (subst mask_loop.simps) (simp only: if_True, simp)
    ultimately show ?thesis by blast
  next
    case False
    then have "leads m 0" using msb_test [of m] by (simp add: leads_def)
    moreover have "mask_loop m p = p + int 0"
      using False by (subst mask_loop.simps) simp
    ultimately show ?thesis by blast
  qed
qed

lemma ipv4NetmaskToPrefixLength_leads:
  "leads (ntohl msk) k \<Longrightarrow> ipv4NetmaskToPrefixLength msk = int k"
  using mask_loop_leads [of "ntohl msk" 0] leads_unique unfolding ipv4NetmaskToPrefixLength_def by auto

lemma leads_netmask:
  assumes "0 \<le> p" "p \<le> 32"
  shows "leads (ntohl (prefixLengthToIpv4Netmask p)) (nat p)"
proof (cases "p = 0")
  case True
  then show ?thesis by (simp add: prefixLengthToIpv4Netmask_def leads_def htonl_def le32_def)
next
  case False
  let ?k = "nat p"
  have "nat (32 - p) = 32 - ?k" using assms by linarith
  then have "ntohl (prefixLengthToIpv4Netmask p) = push_bit (32 - ?k) (NOT 0)"
    using assms False by (simp add: prefixLengthToIpv4Netmask_def)
  moreover have "leads (push_bit (32 - ?k) (NOT 0)) ?k"
    using assms False unfolding leads_def by (auto simp: bit_simps)
  ultimately show ?thesis by simp
qed

lemma leads_of_prefix: "leads (ntohl msk) (nat (ipv4NetmaskToPrefixLength msk))"
  using mask_loop_leads [of "ntohl msk" 0] unfolding ipv4NetmaskToPrefixLength_def by auto

lemma prefix_nonneg: "0 \<le> ipv4NetmaskToPrefixLength msk"
  using mask_loop_leads [of "ntohl msk" 0] unfolding ipv4NetmaskToPrefixLength_def by auto

lemma prefix_le_32: "ipv4NetmaskToPrefixLength msk \<le> 32"
  using leads_of_prefix [of msk] unfolding leads_def by linarith

lemma netmask_shape:
  assumes "k \<le> 32"
  shows "ntohl (prefixLengthToIpv4Netmask (int k)) = push_bit (32 - k) (NOT 0)"
proof (cases "k = 0")
  case True
  have "push_bit 32 (NOT 0 :: u32) = 0" by (rule bit_word_eqI) (auto simp: bit_push_bit_iff bit_not_iff bit_mask_iff)
  moreover have "ntohl 0 = 0" by (simp add: htonl_def le32_def)
  ultimately show ?thesis using True by (simp add: prefixLengthToIpv4Netmask_def)
next
  case False
  then have "nat (32 - int k) = 32 - k" using assms by linarith
  then show ?thesis
    using assms False by (simp add: prefixLengthToIpv4Netmask_def del: push_bit_minus_one_eq_not_mask)
qed

text \<open>the conversions are inverse on every prefix length, and on exactly the contiguous
  masks; on any mask the loop counts the leading ones.\<close>

lemma netmask_prefix_roundtrip:
  "(\<exists>k. leads (ntohl m) k \<and> ipv4NetmaskToPrefixLength m = int k) \<and>
   ipv4NetmaskToPrefixLength (prefixLengthToIpv4Netmask p) = (if p < 0 \<or> 32 < p then 0 else p) \<and>
   (prefixLengthToIpv4Netmask (ipv4NetmaskToPrefixLength m) = m \<longleftrightarrow>
      (\<exists>k\<le>32. ntohl m = push_bit (32 - k) (NOT 0)))"
proof (intro conjI)
  show "\<exists>k. leads (ntohl m) k \<and> ipv4NetmaskToPrefixLength m = int k"
    using leads_of_prefix [of m] prefix_nonneg [of m] by (intro exI [of _ "nat (ipv4NetmaskToPrefixLength m)"]) simp
  have "ipv4NetmaskToPrefixLength 0 = 0"
    using leads_netmask [of 0] ipv4NetmaskToPrefixLength_leads [of 0 0]
    by (simp add: prefixLengthToIpv4Netmask_def)
  moreover have "prefixLengthToIpv4Netmask p = 0" if "p < 0 \<or> 32 < p"
    using that by (auto simp: prefixLengthToIpv4Netmask_def)
  moreover have "ipv4NetmaskToPrefixLength (prefixLengthToIpv4Netmask p) = p" if "0 \<le> p" "p \<le> 32"
    using ipv4NetmaskToPrefixLength_leads [OF leads_netmask [OF that]] that by simp
  ultimately show "ipv4NetmaskToPrefixLength (prefixLengthToIpv4Netmask p) = (if p < 0 \<or> 32 < p then 0 else p)"
    by auto
  show "prefixLengthToIpv4Netmask (ipv4NetmaskToPrefixLength m) = m \<longleftrightarrow>
      (\<exists>k\<le>32. ntohl m = push_bit (32 - k) (NOT 0))" (is "?l \<longleftrightarrow> ?r")
  proof
    let ?k = "nat (ipv4NetmaskToPrefixLength m)"
    assume ?l
    then have "ntohl m = ntohl (prefixLengthToIpv4Netmask (int ?k))" using prefix_nonneg [of m] by simp
    then show ?r using netmask_shape [of ?k] prefix_le_32 [of m] by (intro exI [of _ ?k]) auto
  next
    assume ?r
    then obtain k where k: "k \<le> 32" "ntohl m = push_bit (32 - k) (NOT 0)" by blast
    then have "m = prefixLengthToIpv4Netmask (int k)"
      using netmask_shape [OF k(1)] by (metis htonl_eq_iff)
    then show ?l
      using ipv4NetmaskToPrefixLength_leads [OF leads_netmask [of "int k"]] k(1) by simp
  qed
qed

end
