(* ===== verification/DhcpMsg.thy ===== *)
theory DhcpMsg
  imports RawPacket
begin

text \<open>
  \<open>system/core/libnetutils/dhcpmsg.h\<close> and \<open>dhcpmsg.c\<close>: the BOOTP/DHCP message structure, its
  memory image, and the construction of the DISCOVER and REQUEST messages.
\<close>

subsection \<open>The message\<close>

record dhcp_msg =
  dm_op :: u8
  dm_htype :: u8
  dm_hlen :: u8
  dm_hops :: u8
  dm_xid :: u32
  dm_secs :: u16
  dm_flags :: u16
  dm_ciaddr :: u32
  dm_yiaddr :: u32
  dm_siaddr :: u32
  dm_giaddr :: u32
  dm_chaddr :: "u8 list"
  dm_sname :: "u8 list"
  dm_file :: "u8 list"
  dm_options :: "u8 list"

definition dhcp_msg_wf :: "dhcp_msg \<Rightarrow> bool" where
  "dhcp_msg_wf m \<longleftrightarrow> length (dm_chaddr m) = 16 \<and> length (dm_sname m) = 64 \<and>
     length (dm_file m) = 128 \<and> length (dm_options m) = 1024"

definition dhcp_msg_zero :: dhcp_msg where
  "dhcp_msg_zero = \<lparr>dm_op = 0, dm_htype = 0, dm_hlen = 0, dm_hops = 0, dm_xid = 0, dm_secs = 0,
     dm_flags = 0, dm_ciaddr = 0, dm_yiaddr = 0, dm_siaddr = 0, dm_giaddr = 0,
     dm_chaddr = replicate 16 0, dm_sname = replicate 64 0, dm_file = replicate 128 0,
     dm_options = replicate 1024 0\<rparr>"

definition dhcp_msg_bytes :: "dhcp_msg \<Rightarrow> u8 list" where
  "dhcp_msg_bytes m =
     [dm_op m, dm_htype m, dm_hlen m, dm_hops m] @ le32 (dm_xid m) @ le16 (dm_secs m) @
     le16 (dm_flags m) @ le32 (dm_ciaddr m) @ le32 (dm_yiaddr m) @ le32 (dm_siaddr m) @
     le32 (dm_giaddr m) @ dm_chaddr m @ dm_sname m @ dm_file m @ dm_options m"

definition dhcp_msg_of :: "u8 list \<Rightarrow> dhcp_msg" where
  "dhcp_msg_of p = \<lparr>dm_op = p ! 0, dm_htype = p ! 1, dm_hlen = p ! 2, dm_hops = p ! 3,
     dm_xid = of_le32 (drop 4 p), dm_secs = of_le16 (drop 8 p), dm_flags = of_le16 (drop 10 p),
     dm_ciaddr = of_le32 (drop 12 p), dm_yiaddr = of_le32 (drop 16 p), dm_siaddr = of_le32 (drop 20 p),
     dm_giaddr = of_le32 (drop 24 p), dm_chaddr = slice 28 16 p, dm_sname = slice 44 64 p,
     dm_file = slice 108 128 p, dm_options = slice 236 1024 p\<rparr>"

lemma length_dhcp_msg_bytes [simp]: "dhcp_msg_wf m \<Longrightarrow> length (dhcp_msg_bytes m) = 1260"
  by (simp add: dhcp_msg_bytes_def dhcp_msg_wf_def)

interpretation dmi: struct_image dhcp_msg_bytes dhcp_msg_of 1260 dhcp_msg_wf
proof unfold_locales
  fix m r assume wf: "dhcp_msg_wf m"
  let ?h = "[dm_op m, dm_htype m, dm_hlen m, dm_hops m] @ le32 (dm_xid m) @ le16 (dm_secs m) @
     le16 (dm_flags m) @ le32 (dm_ciaddr m) @ le32 (dm_yiaddr m) @ le32 (dm_siaddr m) @ le32 (dm_giaddr m)"
  have b: "dhcp_msg_bytes m @ r = ?h @ dm_chaddr m @ dm_sname m @ dm_file m @ dm_options m @ r"
    by (simp add: dhcp_msg_bytes_def)
  have h: "length ?h = 28" by simp
  have s: "slice 28 16 (?h @ dm_chaddr m @ dm_sname m @ dm_file m @ dm_options m @ r) = dm_chaddr m"
    "slice 44 64 (?h @ dm_chaddr m @ dm_sname m @ dm_file m @ dm_options m @ r) = dm_sname m"
    "slice 108 128 (?h @ dm_chaddr m @ dm_sname m @ dm_file m @ dm_options m @ r) = dm_file m"
    "slice 236 1024 (?h @ dm_chaddr m @ dm_sname m @ dm_file m @ dm_options m @ r) = dm_options m"
    using wf h by (simp_all add: slice_def dhcp_msg_wf_def)
  show "dhcp_msg_of (dhcp_msg_bytes m @ r) = m"
    unfolding dhcp_msg_of_def b s by (simp add: le16_def le32_def)
qed simp

subsection \<open>Building messages\<close>

text \<open>\<open>*x++ = b\<close> for each byte of a list, into the options array.\<close>

definition put_bytes :: "nat \<Rightarrow> u8 list \<Rightarrow> dhcp_msg \<Rightarrow> dhcp_msg \<times> nat" where
  "put_bytes x bs m = (m\<lparr>dm_options := write_at x bs (dm_options m)\<rparr>, x + length bs)"

definition init_dhcp_msg :: "u8 \<Rightarrow> u8 list \<Rightarrow> u32 \<Rightarrow> dhcp_msg \<times> nat" where
  "init_dhcp_msg type hwaddr xid =
     (let msg = dhcp_msg_zero\<lparr>
            dm_op := 1, dm_htype := 1, dm_hlen := 6, dm_hops := 0, dm_flags := htons 0x8000, dm_xid := xid,
            dm_chaddr := write_at 0 (take 6 hwaddr) (dm_chaddr dhcp_msg_zero)\<rparr>;
          (msg, x) = put_bytes 0 [0x63, 0x82, 0x53, 0x63] msg
      in put_bytes x [53, 1, type] msg)"

definition init_dhcp_discover_msg :: "u8 list \<Rightarrow> u32 \<Rightarrow> dhcp_msg \<times> int" where
  "init_dhcp_discover_msg hwaddr xid =
     (let (msg, x) = init_dhcp_msg 1 hwaddr xid;
          (msg, x) = put_bytes x [55, 4, 1, 3, 6, 28] msg;
          (msg, x) = put_bytes x [255] msg
      in (msg, 236 + int x))"

definition init_dhcp_request_msg :: "u8 list \<Rightarrow> u32 \<Rightarrow> u32 \<Rightarrow> u32 \<Rightarrow> dhcp_msg \<times> int" where
  "init_dhcp_request_msg hwaddr xid ipaddr serveraddr =
     (let (msg, x) = init_dhcp_msg 3 hwaddr xid;
          (msg, x) = put_bytes x [55, 4, 1, 3, 6, 28] msg;
          (msg, x) = put_bytes x [50, 4] msg;
          (msg, x) = put_bytes x (le32 ipaddr) msg;
          (msg, x) = put_bytes x [54, 4] msg;
          (msg, x) = put_bytes x (le32 serveraddr) msg;
          (msg, x) = put_bytes x [255] msg
      in (msg, 236 + int x))"

text \<open>The options arrays, as a whole.\<close>

lemma put_bytes_append:
  "length a = x \<Longrightarrow> length bs \<le> n \<Longrightarrow> dm_options m = a @ replicate n 0 \<Longrightarrow>
   put_bytes x bs m = (m\<lparr>dm_options := (a @ bs) @ replicate (n - length bs) 0\<rparr>, x + length bs)"
  by (simp add: put_bytes_def write_at_def)

lemma init_dhcp_msg_eq:
  assumes "length hwaddr = 6"
  shows "init_dhcp_msg ty hwaddr xid =
    (dhcp_msg_zero\<lparr>dm_op := 1, dm_htype := 1, dm_hlen := 6, dm_flags := htons 0x8000, dm_xid := xid,
       dm_chaddr := hwaddr @ replicate 10 0,
       dm_options := [0x63, 0x82, 0x53, 0x63, 53, 1, ty] @ replicate 1017 0\<rparr>, 7)"
proof -
  have "write_at 0 (take 6 hwaddr) (replicate 16 0) = hwaddr @ replicate 10 0"
    using assms by (simp add: write_at_def)
  then show ?thesis
    by (simp add: init_dhcp_msg_def put_bytes_append [where a = "[]" and n = 1024]
        put_bytes_append [where a = "[0x63, 0x82, 0x53, 0x63]" and n = 1020] dhcp_msg_zero_def)
qed

definition discover_options :: "u8 list" where
  "discover_options = [0x63, 0x82, 0x53, 0x63, 53, 1, 1, 55, 4, 1, 3, 6, 28, 255]"

definition request_options :: "u32 \<Rightarrow> u32 \<Rightarrow> u8 list" where
  "request_options ipaddr serveraddr =
     [0x63, 0x82, 0x53, 0x63, 53, 1, 3, 55, 4, 1, 3, 6, 28, 50, 4] @ le32 ipaddr @ [54, 4] @
     le32 serveraddr @ [255]"

lemma init_discover_eq:
  assumes "length hwaddr = 6"
  shows "init_dhcp_discover_msg hwaddr xid =
    ((fst (init_dhcp_msg 1 hwaddr xid))\<lparr>dm_options := discover_options @ replicate 1010 0\<rparr>, 250)"
  by (simp add: init_dhcp_discover_msg_def init_dhcp_msg_eq [OF assms] discover_options_def
      put_bytes_append [where a = "[0x63, 0x82, 0x53, 0x63, 53, 1, 1]" and n = 1017]
      put_bytes_append [where a = "[0x63, 0x82, 0x53, 0x63, 53, 1, 1, 55, 4, 1, 3, 6, 28]" and n = 1011])

lemma init_request_eq:
  assumes "length hwaddr = 6"
  shows "init_dhcp_request_msg hwaddr xid ip sv =
    ((fst (init_dhcp_msg 3 hwaddr xid))\<lparr>dm_options := request_options ip sv @ replicate 998 0\<rparr>, 262)"
proof -
  let ?a = "[0x63, 0x82, 0x53, 0x63, 53, 1, 3] :: u8 list" and ?b = "[55, 4, 1, 3, 6, 28] :: u8 list"
  let ?c = "?a @ ?b @ [50, 4]" let ?d = "?c @ le32 ip" let ?e = "?d @ [54, 4]" let ?f = "?e @ le32 sv"
  note steps = put_bytes_append [where a = ?a and n = 1017] put_bytes_append [where a = "?a @ ?b" and n = 1011]
    put_bytes_append [where a = ?c and n = 1009] put_bytes_append [where a = ?d and n = 1005]
    put_bytes_append [where a = ?e and n = 1003] put_bytes_append [where a = ?f and n = 999]
  show ?thesis
    by (simp add: init_dhcp_request_msg_def init_dhcp_msg_eq [OF assms] steps request_options_def)
qed

lemma init_msg_wf:
  assumes "length hwaddr = 6"
  shows "dhcp_msg_wf (fst (init_dhcp_discover_msg hwaddr xid))"
    and "dhcp_msg_wf (fst (init_dhcp_request_msg hwaddr xid ip sv))"
  using assms
  by (simp_all add: init_discover_eq init_request_eq init_dhcp_msg_eq dhcp_msg_wf_def dhcp_msg_zero_def
      discover_options_def request_options_def)

lemma init_msg_chaddr:
  assumes "length hwaddr = 6"
  shows "dm_chaddr (fst (init_dhcp_discover_msg hwaddr xid)) = hwaddr @ replicate 10 0"
    and "dm_chaddr (fst (init_dhcp_request_msg hwaddr xid ip sv)) = hwaddr @ replicate 10 0"
  using assms by (simp_all add: init_discover_eq init_request_eq init_dhcp_msg_eq)

text \<open>Header fields both messages carry.\<close>

lemma init_header [simp]:
  "dm_op (fst (init_dhcp_discover_msg hw xid)) = 1" "dm_op (fst (init_dhcp_request_msg hw xid ip sv)) = 1"
  "dm_htype (fst (init_dhcp_discover_msg hw xid)) = 1" "dm_htype (fst (init_dhcp_request_msg hw xid ip sv)) = 1"
  "dm_hlen (fst (init_dhcp_discover_msg hw xid)) = 6" "dm_hlen (fst (init_dhcp_request_msg hw xid ip sv)) = 6"
  "dm_xid (fst (init_dhcp_discover_msg hw xid)) = xid" "dm_xid (fst (init_dhcp_request_msg hw xid ip sv)) = xid"
  by (simp_all add: init_dhcp_discover_msg_def init_dhcp_request_msg_def init_dhcp_msg_def put_bytes_def)

end
