(* ===== verification/DhcpInfo.thy ===== *)
theory DhcpInfo
  imports DhcpMsg Netmask
begin

text \<open>
  The decoding half of \<open>system/core/libnetutils/dhcpclient.c\<close>: \<open>dhcp_info\<close>, \<open>decode_dhcp_msg\<close>,
  \<open>is_valid_reply\<close> and the message dump. Reads of the options array are guarded, so a read
  outside it is the result \<open>None\<close>.
\<close>

record dhcp_info =
  di_type :: u32
  di_ipaddr :: u32
  di_gateway :: u32
  di_prefixLength :: u32
  di_dns1 :: u32
  di_dns2 :: u32
  di_serveraddr :: u32
  di_lease :: u32

definition dhcp_info_zero :: dhcp_info where
  "dhcp_info_zero = \<lparr>di_type = 0, di_ipaddr = 0, di_gateway = 0, di_prefixLength = 0,
     di_dns1 = 0, di_dns2 = 0, di_serveraddr = 0, di_lease = 0\<rparr>"

subsection \<open>The decoder\<close>

definition rd_le32 :: "u8 list \<Rightarrow> nat \<Rightarrow> u32 option" where
  "rd_le32 opts x = (if x + 4 \<le> length opts then Some (of_le32 (drop x opts)) else None)"

text \<open>The \<open>switch\<close> on the option code; \<open>x\<close> points at the option's data.\<close>

definition decode_option :: "u8 list \<Rightarrow> u8 \<Rightarrow> int \<Rightarrow> nat \<Rightarrow> dhcp_info \<Rightarrow> dhcp_info option" where
  "decode_option opts opt optlen x info =
     (if opt = 1 then
        (if 4 \<le> optlen then
           map_option (\<lambda>m. info\<lparr>di_prefixLength := word_of_int (ipv4NetmaskToPrefixLength m)\<rparr>) (rd_le32 opts x)
         else Some info)
      else if opt = 3 then
        (if 4 \<le> optlen then map_option (\<lambda>v. info\<lparr>di_gateway := v\<rparr>) (rd_le32 opts x) else Some info)
      else if opt = 6 then
        Option.bind
          (if 4 \<le> optlen then map_option (\<lambda>v. info\<lparr>di_dns1 := v\<rparr>) (rd_le32 opts x) else Some info)
          (\<lambda>info. if 8 \<le> optlen then map_option (\<lambda>v. info\<lparr>di_dns2 := v\<rparr>) (rd_le32 opts (x + 4)) else Some info)
      else if opt = 51 then
        (if 4 \<le> optlen then map_option (\<lambda>v. info\<lparr>di_lease := ntohl v\<rparr>) (rd_le32 opts x) else Some info)
      else if opt = 54 then
        (if 4 \<le> optlen then map_option (\<lambda>v. info\<lparr>di_serveraddr := v\<rparr>) (rd_le32 opts x) else Some info)
      else if opt = 53 then map_option (\<lambda>b. info\<lparr>di_type := ucast b\<rparr>) (rd opts x)
      else Some info)"

function decode_loop :: "u8 list \<Rightarrow> nat \<Rightarrow> int \<Rightarrow> dhcp_info \<Rightarrow> dhcp_info option" where
  "decode_loop opts x len info =
     (if len > 2 then
        case rd opts x of
          None \<Rightarrow> None
        | Some opt \<Rightarrow>
            if opt = 0 then decode_loop opts (x + 1) (len - 1) info
            else if opt = 255 then Some info
            else case rd opts (x + 1) of
                None \<Rightarrow> None
              | Some l \<Rightarrow>
                  let optlen = int (unat l); len = len - 2 in
                  if optlen > len then Some info
                  else case decode_option opts opt optlen (x + 2) info of
                      None \<Rightarrow> None
                    | Some info \<Rightarrow> decode_loop opts (x + 2 + nat optlen) (len - optlen) info
      else Some info)"
  by pat_completeness auto
termination
  by (relation "measure (\<lambda>(opts, x, len, info). nat len)")
    (auto intro: less_le_trans [OF _ unsigned_greater_eq])

declare decode_loop.simps [simp del]

definition decode_dhcp_msg :: "dhcp_msg \<Rightarrow> int \<Rightarrow> (int \<times> dhcp_info) option" where
  "decode_dhcp_msg msg len =
     (let info = dhcp_info_zero in
      if len < 236 + 4 then Some (-1, info)
      else
        let len = len - (236 + 4) in
        if dm_options msg ! 0 \<noteq> 0x63 then Some (-1, info)
        else if dm_options msg ! 1 \<noteq> 0x82 then Some (-1, info)
        else if dm_options msg ! 2 \<noteq> 0x53 then Some (-1, info)
        else if dm_options msg ! 3 \<noteq> 0x63 then Some (-1, info)
        else map_option (\<lambda>info. (0, info\<lparr>di_ipaddr := dm_yiaddr msg\<rparr>))
               (decode_loop (dm_options msg) 4 len info))"

subsection \<open>The reply filter\<close>

text \<open>
  \<open>memcmp (msg->chaddr, reply->chaddr, msg->hlen)\<close>: the length is the message's own \<open>hlen\<close>, and
  what follows the address in the structure is its \<open>sname\<close>, \<open>file\<close> and \<open>options\<close>.
\<close>

definition from_chaddr :: "dhcp_msg \<Rightarrow> u8 list" where
  "from_chaddr m = dm_chaddr m @ dm_sname m @ dm_file m @ dm_options m"

definition is_valid_reply :: "dhcp_msg \<Rightarrow> dhcp_msg \<Rightarrow> int \<Rightarrow> bool" where
  "is_valid_reply msg reply sz =
     (if sz < 236 then False
      else if dm_op reply \<noteq> 2 then False
      else if dm_xid reply \<noteq> dm_xid msg then False
      else if dm_htype reply \<noteq> dm_htype msg then False
      else if dm_hlen reply \<noteq> dm_hlen msg then False
      else if take (unat (dm_hlen msg)) (from_chaddr msg) \<noteq> take (unat (dm_hlen msg)) (from_chaddr reply) then False
      else True)"

subsection \<open>Memory safety of the decoder\<close>

lemma decode_option_safe:
  "x + nat optlen \<le> length opts \<Longrightarrow> (opt = 53 \<Longrightarrow> x < length opts) \<Longrightarrow>
   \<exists>i. decode_option opts opt optlen x info = Some i"
  by (auto simp: decode_option_def rd_le32_def)

lemma decode_loop_safe:
  "int x + len \<le> int (length opts) \<Longrightarrow> \<exists>i. decode_loop opts x len info = Some i"
proof (induction opts x len info rule: decode_loop.induct)
  case (1 opts x len info)
  show ?case
  proof (cases "len > 2")
    case False
    then show ?thesis by (simp add: decode_loop.simps)
  next
    case True
    let ?opt = "opts ! x" and ?l = "opts ! (x + 1)"
    have in0: "x < length opts" and in1: "x + 1 < length opts" and in2: "x + 2 < length opts"
      using True "1.prems" by auto
    note unf = decode_loop.simps [of opts x len info]
    consider "?opt = 0" | "?opt = 255" | "?opt \<noteq> 0" "?opt \<noteq> 255" by blast
    then show ?thesis
    proof cases
      case 1
      then show ?thesis using True in0 "1.IH"(1) [of ?opt] "1.prems" unf by simp
    next
      case 2
      then show ?thesis using True in0 unf by simp
    next
      case 3
      show ?thesis
      proof (cases "int (unat ?l) > len - 2")
        case True
        then show ?thesis using 3 \<open>len > 2\<close> in0 in1 unf by (simp add: Let_def)
      next
        case False
        have "x + 2 + nat (int (unat ?l)) \<le> length opts" using False "1.prems" by linarith
        then obtain i where i: "decode_option opts ?opt (int (unat ?l)) (x + 2) info = Some i"
          using decode_option_safe [of "x + 2" "int (unat ?l)" opts ?opt info] in2 by auto
        have "\<exists>j. decode_loop opts (x + 2 + nat (int (unat ?l))) (len - 2 - int (unat ?l)) i = Some j"
          using "1.IH"(2) [of ?opt ?l "int (unat ?l)" "len - 2" i] 3 True False in0 in1 i "1.prems" by auto
        then show ?thesis using 3 True False in0 in1 i unf by (simp add: Let_def)
      qed
    qed
  qed
qed

lemma decode_defined:
  assumes "dhcp_msg_wf msg" "len \<le> int DHCP_MSG_SIZE"
  shows "\<exists>r info. decode_dhcp_msg msg len = Some (r, info)"
proof -
  have "\<exists>i. decode_loop (dm_options msg) 4 (len - 240) dhcp_info_zero = Some i"
    using assms by (intro decode_loop_safe) (simp add: dhcp_msg_wf_def DHCP_MSG_SIZE_def)
  then show ?thesis by (auto simp: decode_dhcp_msg_def Let_def)
qed

text \<open>C3: the decoder never reads outside the message, whatever the peer sent: for every length
  that \<open>receive_packet\<close> can return it produces a result.\<close>

theorem decode_dhcp_msg_in_bounds:
  assumes "dhcp_msg_wf msg" "len \<le> int DHCP_MSG_SIZE"
  shows "\<exists>r info. decode_dhcp_msg msg len = Some (r, info)"
  using assms by (rule decode_defined)

theorem decode_dhcp_msg_in_bounds_witness:
  "\<exists>r info. decode_dhcp_msg (fst (init_dhcp_discover_msg [1, 2, 3, 4, 5, 6] 7)) 1260 = Some (r, info)"
  by (rule decode_dhcp_msg_in_bounds) (simp_all add: init_msg_wf DHCP_MSG_SIZE_def)

subsection \<open>The decoder against the option format\<close>

text \<open>
  The abstract view of an options field (RFC 2132): a list of padding bytes and tagged options,
  the meaning of one option, and its encoding.
\<close>

datatype dhcp_opt = Pad | Opt u8 "u8 list"

definition opt_wf :: "dhcp_opt \<Rightarrow> bool" where
  "opt_wf q = (case q of Pad \<Rightarrow> True
     | Opt c d \<Rightarrow> c \<noteq> 0 \<and> c \<noteq> 255 \<and> length d \<le> 255 \<and> (c = 53 \<longrightarrow> d \<noteq> []))"

definition enc_opt :: "dhcp_opt \<Rightarrow> u8 list" where
  "enc_opt q = (case q of Pad \<Rightarrow> [0] | Opt c d \<Rightarrow> [c, of_nat (length d)] @ d)"

definition enc_opts :: "dhcp_opt list \<Rightarrow> u8 list" where
  "enc_opts os = concat (map enc_opt os)"

fun apply_opt :: "dhcp_opt \<Rightarrow> dhcp_info \<Rightarrow> dhcp_info" where
  "apply_opt Pad info = info"
| "apply_opt (Opt c d) info =
     (if c = 1 \<and> 4 \<le> length d then
        info\<lparr>di_prefixLength := word_of_int (ipv4NetmaskToPrefixLength (of_le32 d))\<rparr>
      else if c = 3 \<and> 4 \<le> length d then info\<lparr>di_gateway := of_le32 d\<rparr>
      else if c = 6 \<and> 8 \<le> length d then info\<lparr>di_dns1 := of_le32 d, di_dns2 := of_le32 (drop 4 d)\<rparr>
      else if c = 6 \<and> 4 \<le> length d then info\<lparr>di_dns1 := of_le32 d\<rparr>
      else if c = 51 \<and> 4 \<le> length d then info\<lparr>di_lease := ntohl (of_le32 d)\<rparr>
      else if c = 54 \<and> 4 \<le> length d then info\<lparr>di_serveraddr := of_le32 d\<rparr>
      else if c = 53 \<and> d \<noteq> [] then info\<lparr>di_type := ucast (hd d)\<rparr>
      else info)"

lemma of_le32_append: "4 \<le> length d \<Longrightarrow> of_le32 (d @ r) = of_le32 d"
  by (cases d; cases "tl d"; cases "tl (tl d)"; cases "tl (tl (tl d))") auto

lemma decode_option_apply:
  assumes "opts = pre @ d @ r" "x = length pre" "opt_wf (Opt c d)"
  shows "decode_option opts c (int (length d)) x info = Some (apply_opt (Opt c d) info)"
proof -
  have v: "4 \<le> length d \<Longrightarrow> rd_le32 opts x = Some (of_le32 d)"
    and w: "8 \<le> length d \<Longrightarrow> rd_le32 opts (x + 4) = Some (of_le32 (drop 4 d))"
    using assms(1,2) of_le32_append [of d r] of_le32_append [of "drop 4 d" r]
    by (auto simp: rd_le32_def)
  have b: "c = 53 \<Longrightarrow> rd opts x = Some (hd d)"
    using assms by (auto simp: rd_def opt_wf_def nth_append hd_conv_nth)
  show ?thesis
    using assms(3) v w b by (auto simp: decode_option_def opt_wf_def)
qed

lemma length_enc_opts_Cons: "length (enc_opts (q # os)) = length (enc_opt q) + length (enc_opts os)"
  by (simp add: enc_opts_def)

lemma enc_opts_short:
  "length (enc_opts os) \<le> 1 \<Longrightarrow> foldl (\<lambda>i q. apply_opt q i) info os = info"
  by (induction os arbitrary: info)
    (auto simp: enc_opts_def enc_opt_def split: dhcp_opt.splits)

lemma decode_loop_enc:
  assumes "list_all opt_wf os" "opts = pre @ enc_opts os @ [255] @ post"
    and "len = int (length (enc_opts os)) + 1 + int k"
  shows "decode_loop opts (length pre) len info = Some (foldl (\<lambda>i q. apply_opt q i) info os)"
  using assms
proof (induction os arbitrary: pre len info)
  case Nil
  then have "rd opts (length pre) = Some 255" by (simp add: rd_def enc_opts_def)
  then show ?case by (subst decode_loop.simps) simp
next
  case (Cons q os)
  note unf = decode_loop.simps [of opts "length pre" len info]
  show ?case
  proof (cases "len > 2")
    case False
    then have "length (enc_opts (q # os)) \<le> 1" using Cons.prems(3) by linarith
    then have "foldl (\<lambda>i q. apply_opt q i) info (q # os) = info" by (rule enc_opts_short)
    with False show ?thesis by (simp add: unf)
  next
    case True
    show ?thesis
    proof (cases q)
      case Pad
      have "decode_loop opts (length (pre @ [0])) (len - 1) info = Some (foldl (\<lambda>i q. apply_opt q i) info os)"
        using Cons.prems Pad by (intro Cons.IH) (simp_all add: enc_opts_def enc_opt_def)
      moreover have "rd opts (length pre) = Some 0"
        using Cons.prems(2) Pad by (simp add: rd_def enc_opts_def enc_opt_def nth_append)
      ultimately show ?thesis
        unfolding unf using True Pad by simp
    next
      case (Opt c d)
      have wf: "c \<noteq> 0" "c \<noteq> 255" "length d \<le> 255" "opt_wf (Opt c d)"
        using Cons.prems(1) Opt by (auto simp: opt_wf_def)
      have l: "unat (of_nat (length d) :: u8) = length d"
        using wf(3) by (simp add: unat_of_nat_small)
      let ?info = "apply_opt (Opt c d) info"
      have d: "decode_option opts c (int (length d)) (length pre + 2) info = Some ?info"
        using Cons.prems(2) wf(4) Opt
        by (intro decode_option_apply [where pre = "pre @ [c, of_nat (length d)]"
              and r = "enc_opts os @ [255] @ post"]) (simp_all add: enc_opts_def enc_opt_def)
      have "decode_loop opts (length (pre @ enc_opt q)) (len - 2 - int (length d)) ?info =
          Some (foldl (\<lambda>i q. apply_opt q i) ?info os)"
        using Cons.prems Opt by (intro Cons.IH) (simp_all add: enc_opts_def enc_opt_def)
      then have tail: "decode_loop opts (length pre + 2 + nat (int (length d))) (len - 2 - int (length d)) ?info =
          Some (foldl (\<lambda>i q. apply_opt q i) ?info os)"
        using Opt by (simp add: enc_opt_def add.assoc)
      have r0: "rd opts (length pre) = Some c"
        and r1: "rd opts (length pre + 1) = Some (of_nat (length d))"
        using Cons.prems(2) Opt by (simp_all add: enc_opts_def enc_opt_def rd_def nth_append)
      have fits: "\<not> int (length d) > len - 2"
        using Cons.prems(3) Opt by (simp add: enc_opts_def enc_opt_def)
      show ?thesis
        unfolding unf using True r0 r1 wf fits d tail Opt
        by (simp only: if_True if_False option.case Let_def l foldl.simps)
    qed
  qed
qed

lemma decode_enc_opts:
  assumes "list_all opt_wf os"
    and "dm_options msg = [0x63, 0x82, 0x53, 0x63] @ enc_opts os @ [255] @ post"
    and "len = 240 + int (length (enc_opts os)) + 1 + int k"
  shows "decode_dhcp_msg msg len =
    Some (0, (foldl (\<lambda>i q. apply_opt q i) dhcp_info_zero os)\<lparr>di_ipaddr := dm_yiaddr msg\<rparr>)"
proof -
  have "decode_loop (dm_options msg) (length [0x63, 0x82, 0x53, 0x63 :: u8]) (len - 240) dhcp_info_zero =
      Some (foldl (\<lambda>i q. apply_opt q i) dhcp_info_zero os)"
    using assms by (intro decode_loop_enc [where k = k and post = post]) simp_all
  then have loop: "decode_loop (dm_options msg) 4 (len - 240) dhcp_info_zero =
      Some (foldl (\<lambda>i q. apply_opt q i) dhcp_info_zero os)" by (simp add: numeral_eq_Suc)
  have cookie: "dm_options msg ! 0 = 0x63" "dm_options msg ! 1 = 0x82" "dm_options msg ! 2 = 0x53"
    "dm_options msg ! 3 = 0x63"
    using assms(2) by simp_all
  have "\<not> len < 240" using assms(3) by simp
  then show ?thesis
    unfolding decode_dhcp_msg_def Let_def cookie using loop by simp
qed

text \<open>C4: what the decoder computes from every well-formed options field. The message starts with
  the cookie; options are applied in order, later ones overriding earlier ones; what follows the
  end marker, inside or outside the received length, does not matter.\<close>

theorem decode_dhcp_msg_encoded:
  assumes "list_all opt_wf os"
    and "dm_options msg = [0x63, 0x82, 0x53, 0x63] @ enc_opts os @ [255] @ post"
    and "len = 240 + int (length (enc_opts os)) + 1 + int k"
  shows "decode_dhcp_msg msg len =
    Some (0, (foldl (\<lambda>i q. apply_opt q i) dhcp_info_zero os)\<lparr>di_ipaddr := dm_yiaddr msg\<rparr>)"
  using assms by (rule decode_enc_opts)

definition example_offer_opts :: "dhcp_opt list" where
  "example_offer_opts = [Opt 53 [2], Pad, Opt 54 [192, 168, 0, 1], Opt 1 [255, 255, 255, 0], Opt 51 [0, 0, 14, 16]]"

theorem decode_dhcp_msg_encoded_witness:
  "decode_dhcp_msg (dhcp_msg_zero\<lparr>dm_yiaddr := 0x0900a8c0,
      dm_options := [0x63, 0x82, 0x53, 0x63] @ enc_opts example_offer_opts @ [255] @ replicate 997 0\<rparr>) 1260 =
    Some (0, dhcp_info_zero\<lparr>di_type := 2, di_ipaddr := 0x0900a8c0, di_prefixLength := 24,
      di_serveraddr := 0x0100a8c0, di_lease := 3600\<rparr>)"
proof -
  let ?m = "dhcp_msg_zero\<lparr>dm_yiaddr := 0x0900a8c0,
      dm_options := [0x63, 0x82, 0x53, 0x63] @ enc_opts example_offer_opts @ [255] @ replicate 997 0\<rparr>"
  have p: "ipv4NetmaskToPrefixLength 0xffffff = 24"
    by code_simp
  have "decode_dhcp_msg ?m 1260 = Some (0, (foldl (\<lambda>i q. apply_opt q i) dhcp_info_zero example_offer_opts)
      \<lparr>di_ipaddr := dm_yiaddr ?m\<rparr>)"
    by (rule decode_dhcp_msg_encoded [where post = "replicate 997 0" and k = 997])
      (simp_all add: example_offer_opts_def opt_wf_def enc_opts_def enc_opt_def)
  also have "\<dots> = Some (0, dhcp_info_zero\<lparr>di_type := 2, di_ipaddr := 0x0900a8c0, di_prefixLength := 24,
      di_serveraddr := 0x0100a8c0, di_lease := 3600\<rparr>)"
    using p by (simp add: example_offer_opts_def dhcp_info_zero_def htonl_def le32_def)
  finally show ?thesis .
qed

subsection \<open>The messages of this client, decoded\<close>

lemma decode_discover:
  assumes "length hwaddr = 6"
  shows "decode_dhcp_msg (fst (init_dhcp_discover_msg hwaddr xid)) (snd (init_dhcp_discover_msg hwaddr xid)) =
    Some (0, dhcp_info_zero\<lparr>di_type := 1\<rparr>)"
proof -
  let ?m = "fst (init_dhcp_discover_msg hwaddr xid)"
  have o: "dm_options ?m = [0x63, 0x82, 0x53, 0x63] @ enc_opts [Opt 53 [1], Opt 55 [1, 3, 6, 28]] @ [255] @ replicate 1010 0"
    using assms by (simp add: init_discover_eq discover_options_def enc_opts_def enc_opt_def)
  have y: "dm_yiaddr ?m = 0" using assms by (simp add: init_discover_eq init_dhcp_msg_eq dhcp_msg_zero_def)
  have l: "snd (init_dhcp_discover_msg hwaddr xid) = 250" using assms by (simp add: init_discover_eq)
  show ?thesis
    unfolding l by (subst decode_enc_opts [OF _ o, where k = 0])
      (simp_all add: opt_wf_def enc_opts_def enc_opt_def y dhcp_info_zero_def)
qed

lemma decode_request:
  assumes "length hwaddr = 6"
  shows "decode_dhcp_msg (fst (init_dhcp_request_msg hwaddr xid ip sv)) (snd (init_dhcp_request_msg hwaddr xid ip sv)) =
    Some (0, dhcp_info_zero\<lparr>di_type := 3, di_serveraddr := sv\<rparr>)"
proof -
  let ?m = "fst (init_dhcp_request_msg hwaddr xid ip sv)"
  let ?os = "[Opt 53 [3], Opt 55 [1, 3, 6, 28], Opt 50 (le32 ip), Opt 54 (le32 sv)]"
  have o: "dm_options ?m = [0x63, 0x82, 0x53, 0x63] @ enc_opts ?os @ [255] @ replicate 998 0"
    using assms by (simp add: init_request_eq request_options_def enc_opts_def enc_opt_def)
  have y: "dm_yiaddr ?m = 0" using assms by (simp add: init_request_eq init_dhcp_msg_eq dhcp_msg_zero_def)
  have l: "snd (init_dhcp_request_msg hwaddr xid ip sv) = 262" using assms by (simp add: init_request_eq)
  have s: "of_le32 (le32 sv) = sv" using of_le32_le32_append [of sv "[]"] by simp
  show ?thesis
    unfolding l by (subst decode_enc_opts [OF _ o, where k = 0])
      (simp_all add: opt_wf_def enc_opts_def enc_opt_def y s dhcp_info_zero_def)
qed

end
