(* ===== verification/IfcSys.thy ===== *)
theory IfcSys
  imports NetPrelude "HOL-Library.State_Monad" "HOL-Library.Multiset"
begin

text \<open>
  The system interface of \<open>system/core/libnetutils/ifc_utils.c\<close>. The kernel and the resolver are
  not part of the repository: they are the record \<open>os\<close> of functions over an arbitrary kernel state
  \<open>'k\<close>. The library's own state is the two cached control sockets and \<open>errno\<close>. Every call that
  crosses the interface is also written to \<open>trace\<close> (newest first), a history variable the code
  does not have: ordering and resource properties are stated over it.
\<close>

subsection \<open>Structures passed to the kernel\<close>

text \<open>
  The union of \<open>struct ifreq\<close> is kept as its bytes (16 on the 32-bit target), because the code
  fills one member and the kernel reads and answers through another. A \<open>struct sockaddr_in\<close> is
  family (2 bytes), port (2), address (4), padding.
\<close>

record ifreq =
  ifr_name :: string
  ifr_ifru :: "u8 list"

record rtentry =
  rt_dst :: "u8 list"
  rt_gateway :: "u8 list"
  rt_genmask :: "u8 list"
  rt_flags :: u16
  rt_dev :: string

record in6_rtmsg =
  rtmsg_dst :: "u8 list"
  rtmsg_gateway :: "u8 list"
  rtmsg_dst_len :: u16
  rtmsg_flags :: u32
  rtmsg_ifindex :: int

datatype ioctl_arg = Arg_ifr ifreq | Arg_rt rtentry | Arg_rt6 in6_rtmsg | Arg_ifr6 "u8 list"

text \<open>One call across the interface, with its result (for \<open>ioctl\<close>, also \<open>errno\<close> after it).\<close>

datatype sys_event =
    Ev_socket int int
  | Ev_close int
  | Ev_ioctl int int ioctl_arg int int
  | Ev_send int "u8 list" int
  | Ev_recv int int
  | Ev_prop string string

text \<open>
  Functions of the system. Each returns its C result, the value of \<open>errno\<close> afterwards, and the new
  kernel state. \<open>os_if_inet6\<close> and \<open>os_route\<close> are the successive answers of \<open>fscanf\<close> on
  \<open>/proc/net/if_inet6\<close> and, behind its header line, \<open>/proc/net/route\<close>; \<open>None\<close> is a failed \<open>fopen\<close>
  (and, for the route file, \<open>Some None\<close> a missing header line). \<open>os_addrinfo\<close> is \<open>getaddrinfo\<close>
  with \<open>AI_NUMERICHOST\<close>: an error code or family and address bytes.
\<close>

record inet6_line =
  i6_nread :: int
  i6_addr :: string
  i6_prefixlen :: u32
  i6_ifname :: string

record route_line =
  rl_nread :: int
  rl_ifname :: string
  rl_dest :: u32
  rl_gway :: u32
  rl_flags :: u32
  rl_mask :: u32

record 'k os =
  os_socket :: "int \<Rightarrow> 'k \<Rightarrow> int \<times> int \<times> 'k"
  os_close :: "int \<Rightarrow> 'k \<Rightarrow> int \<times> 'k"
  os_ioctl :: "int \<Rightarrow> int \<Rightarrow> ioctl_arg \<Rightarrow> 'k \<Rightarrow> int \<times> ioctl_arg \<times> int \<times> 'k"
  os_nametoindex :: "string \<Rightarrow> 'k \<Rightarrow> int \<times> int"
  os_addrinfo :: "string \<Rightarrow> int + (int \<times> u8 list)"
  os_send :: "int \<Rightarrow> u8 list \<Rightarrow> 'k \<Rightarrow> int \<times> int \<times> 'k"
  os_recv :: "int \<Rightarrow> 'k \<Rightarrow> int \<times> u8 list \<times> int \<times> 'k"
  os_getpid :: int
  os_if_inet6 :: "'k \<Rightarrow> inet6_line list option"
  os_route :: "'k \<Rightarrow> route_line list option option"

record 'k ifc =
  ctl_sock :: int
  ctl_sock6 :: int
  errno :: int
  kern :: 'k
  trace :: "sys_event list"

type_synonym ('k, 'a) prog = "('k ifc, 'a) state"

subsection \<open>Reading and writing the library's state\<close>

abbreviation ret :: "'a \<Rightarrow> ('s, 'a) state" where
  "ret \<equiv> State_Monad.return"

definition gets :: "('s \<Rightarrow> 'a) \<Rightarrow> ('s, 'a) state" where
  "gets f = State (\<lambda>s. (f s, s))"

definition modify :: "('s \<Rightarrow> 's) \<Rightarrow> ('s, unit) state" where
  "modify f = State (\<lambda>s. ((), f s))"

definition whenM :: "bool \<Rightarrow> ('s, unit) state \<Rightarrow> ('s, unit) state" where
  "whenM b m = (if b then m else ret ())"

lemma run_gets [simp]: "run_state (gets f) s = (f s, s)"
  by (simp add: gets_def)

lemma run_modify [simp]: "run_state (modify f) s = ((), f s)"
  by (simp add: modify_def)

subsection \<open>System calls\<close>

definition sys_socket :: "'k os \<Rightarrow> int \<Rightarrow> ('k, int) prog" where
  "sys_socket os fam = State (\<lambda>s. case os_socket os fam (kern s) of (r, e, k) \<Rightarrow>
     (r, s\<lparr>errno := e, kern := k, trace := Ev_socket fam r # trace s\<rparr>))"

definition sys_close :: "'k os \<Rightarrow> int \<Rightarrow> ('k, unit) prog" where
  "sys_close os fd = State (\<lambda>s. case os_close os fd (kern s) of (e, k) \<Rightarrow>
     ((), s\<lparr>errno := e, kern := k, trace := Ev_close fd # trace s\<rparr>))"

definition sys_ioctl :: "'k os \<Rightarrow> int \<Rightarrow> int \<Rightarrow> ioctl_arg \<Rightarrow> ('k, int \<times> ioctl_arg) prog" where
  "sys_ioctl os fd cmd arg = State (\<lambda>s. case os_ioctl os fd cmd arg (kern s) of (r, arg', e, k) \<Rightarrow>
     ((r, arg'), s\<lparr>errno := e, kern := k, trace := Ev_ioctl fd cmd arg r e # trace s\<rparr>))"

definition sys_send :: "'k os \<Rightarrow> int \<Rightarrow> u8 list \<Rightarrow> ('k, int) prog" where
  "sys_send os fd b = State (\<lambda>s. case os_send os fd b (kern s) of (r, e, k) \<Rightarrow>
     (r, s\<lparr>errno := e, kern := k, trace := Ev_send fd b r # trace s\<rparr>))"

definition sys_recv :: "'k os \<Rightarrow> int \<Rightarrow> ('k, int \<times> u8 list) prog" where
  "sys_recv os fd = State (\<lambda>s. case os_recv os fd (kern s) of (r, b, e, k) \<Rightarrow>
     ((r, b), s\<lparr>errno := e, kern := k, trace := Ev_recv fd r # trace s\<rparr>))"

definition sys_nametoindex :: "'k os \<Rightarrow> string \<Rightarrow> ('k, int) prog" where
  "sys_nametoindex os name = State (\<lambda>s. case os_nametoindex os name (kern s) of (r, e) \<Rightarrow>
     (r, s\<lparr>errno := e\<rparr>))"

definition property_set :: "string \<Rightarrow> string \<Rightarrow> ('k, unit) prog" where
  "property_set key val = modify (\<lambda>s. s\<lparr>trace := Ev_prop key val # trace s\<rparr>)"

text \<open>What POSIX says of \<open>socket\<close>: a descriptor, or -1.\<close>

definition socket_doc :: "'k os \<Rightarrow> bool" where
  "socket_doc os \<longleftrightarrow> (\<forall>fam k. -1 \<le> fst (os_socket os fam k))"

text \<open>What is documented of \<open>ioctl\<close>: it fails on a bad descriptor, and a failure sets \<open>errno\<close>.\<close>

definition ioctl_doc :: "'k os \<Rightarrow> bool" where
  "ioctl_doc os \<longleftrightarrow> (\<forall>fd cmd arg k. case os_ioctl os fd cmd arg k of (r, _, e, _) \<Rightarrow>
     (fd < 0 \<longrightarrow> r = -1) \<and> (r < 0 \<longrightarrow> 0 < e))"

subsection \<open>Triples\<close>

text \<open>Total-correctness triples (no program of the library diverges), and their rules.\<close>

definition triple :: "('s \<Rightarrow> bool) \<Rightarrow> ('s, 'a) state \<Rightarrow> ('a \<Rightarrow> 's \<Rightarrow> bool) \<Rightarrow> bool" where
  "triple P m Q \<longleftrightarrow> (\<forall>s. P s \<longrightarrow> (case run_state m s of (r, s') \<Rightarrow> Q r s'))"

named_theorems wp \<open>rules of the triples\<close>

lemma tripleD: "triple P m Q \<Longrightarrow> P s \<Longrightarrow> run_state m s = (r, s') \<Longrightarrow> Q r s'"
  by (auto simp: triple_def)

lemma tripleI: "(\<And>s r s'. P s \<Longrightarrow> run_state m s = (r, s') \<Longrightarrow> Q r s') \<Longrightarrow> triple P m Q"
  by (auto simp: triple_def)

lemma triple_conseq: "triple P' m Q' \<Longrightarrow> (\<And>s. P s \<Longrightarrow> P' s) \<Longrightarrow> (\<And>r s. Q' r s \<Longrightarrow> Q r s) \<Longrightarrow> triple P m Q"
  by (fastforce simp: triple_def)

lemma triple_bind [wp]: "triple P m R \<Longrightarrow> (\<And>x. triple (R x) (f x) Q) \<Longrightarrow> triple P (m \<bind> f) Q"
  by (fastforce simp: triple_def split: prod.splits)

lemma triple_return: "(\<And>s. P s \<Longrightarrow> Q x s) \<Longrightarrow> triple P (ret x) Q"
  by (simp add: triple_def)

lemma triple_gets: "(\<And>s. P s \<Longrightarrow> Q (f s) s) \<Longrightarrow> triple P (gets f) Q"
  by (simp add: triple_def)

lemma triple_modify: "(\<And>s. P s \<Longrightarrow> Q () (f s)) \<Longrightarrow> triple P (modify f) Q"
  by (simp add: triple_def)

lemma triple_if [wp]: "(b \<Longrightarrow> triple P m Q) \<Longrightarrow> (\<not> b \<Longrightarrow> triple P n Q) \<Longrightarrow> triple P (if b then m else n) Q"
  by simp

lemma triple_when [wp]: "(b \<Longrightarrow> triple P m (\<lambda>_. Q)) \<Longrightarrow> (\<And>s. \<not> b \<Longrightarrow> P s \<Longrightarrow> Q s) \<Longrightarrow> triple P (whenM b m) (\<lambda>_. Q)"
  by (simp add: whenM_def triple_return)

subsection \<open>Descriptors held\<close>

text \<open>
  The descriptors a trace opened and closed. The invariant \<open>fds_ok\<close> says that the library holds
  exactly the sockets its two variables name: nothing has leaked and nothing was closed twice.
\<close>

fun opened :: "sys_event list \<Rightarrow> int multiset" where
  "opened [] = {#}"
| "opened (Ev_socket fam r # tr) = (if 0 \<le> r then add_mset r (opened tr) else opened tr)"
| "opened (_ # tr) = opened tr"

fun closed :: "sys_event list \<Rightarrow> int multiset" where
  "closed [] = {#}"
| "closed (Ev_close fd # tr) = (if 0 \<le> fd then add_mset fd (closed tr) else closed tr)"
| "closed (_ # tr) = closed tr"

definition held :: "int \<Rightarrow> int multiset" where
  "held fd = (if 0 \<le> fd then {#fd#} else {#})"

definition fds_ok :: "'k ifc \<Rightarrow> bool" where
  "fds_ok s \<longleftrightarrow> -1 \<le> ctl_sock s \<and> -1 \<le> ctl_sock6 s \<and>
     opened (trace s) = closed (trace s) + held (ctl_sock s) + held (ctl_sock6 s)"

text \<open>
  \<open>keeps m\<close>: the program \<open>m\<close> leaves the two variables alone and preserves the invariant.
\<close>

definition keeps :: "('k, 'a) prog \<Rightarrow> bool" where
  "keeps m \<longleftrightarrow> (\<forall>s r s'. run_state m s = (r, s') \<longrightarrow>
     ctl_sock s' = ctl_sock s \<and> ctl_sock6 s' = ctl_sock6 s \<and> (fds_ok s \<longrightarrow> fds_ok s'))"

named_theorems keeps_intros \<open>programs that leave the control sockets alone\<close>

lemma keeps_return [keeps_intros]: "keeps (ret x)"
  by (simp add: keeps_def)

lemma keeps_bind [keeps_intros]: "keeps m \<Longrightarrow> (\<And>x. keeps (f x)) \<Longrightarrow> keeps (m \<bind> f)"
  unfolding keeps_def by (simp split: prod.splits)

lemma keeps_gets [keeps_intros]: "keeps (gets f)"
  by (simp add: keeps_def)

lemma keeps_if [keeps_intros]: "(b \<Longrightarrow> keeps m) \<Longrightarrow> (\<not> b \<Longrightarrow> keeps n) \<Longrightarrow> keeps (if b then m else n)"
  by simp

lemma keeps_when [keeps_intros]: "(b \<Longrightarrow> keeps m) \<Longrightarrow> keeps (whenM b m)"
  by (simp add: whenM_def keeps_return)

lemma keeps_case_prod [keeps_intros]: "(\<And>a b. x = (a, b) \<Longrightarrow> keeps (f a b)) \<Longrightarrow> keeps (case x of (a, b) \<Rightarrow> f a b)"
  by (cases x) simp

lemma keeps_case_sum [keeps_intros]:
  "(\<And>a. keeps (f a)) \<Longrightarrow> (\<And>b. keeps (g b)) \<Longrightarrow> keeps (case x of Inl a \<Rightarrow> f a | Inr b \<Rightarrow> g b)"
  by (cases x) simp_all

lemma keeps_case_option [keeps_intros]:
  "keeps m \<Longrightarrow> (\<And>b. keeps (g b)) \<Longrightarrow> keeps (case x of None \<Rightarrow> m | Some b \<Rightarrow> g b)"
  by (cases x) simp_all

lemma keeps_ioctl [keeps_intros]: "keeps (sys_ioctl os fd cmd arg)"
  by (auto simp: keeps_def sys_ioctl_def fds_ok_def split: prod.splits)

lemma keeps_send [keeps_intros]: "keeps (sys_send os fd b)"
  by (auto simp: keeps_def sys_send_def fds_ok_def split: prod.splits)

lemma keeps_recv [keeps_intros]: "keeps (sys_recv os fd)"
  by (auto simp: keeps_def sys_recv_def fds_ok_def split: prod.splits)

lemma keeps_nametoindex [keeps_intros]: "keeps (sys_nametoindex os n)"
  by (auto simp: keeps_def sys_nametoindex_def fds_ok_def split: prod.splits)

lemma keeps_prop [keeps_intros]: "keeps (property_set k v)"
  by (auto simp: keeps_def property_set_def fds_ok_def)

end
