(* ===== verification/IfcUtils.thy ===== *)
theory IfcUtils
  imports IfcSys Netmask
begin

text \<open>
  The interface operations of \<open>system/core/libnetutils/ifc_utils.c\<close> as programs over the state of
  \<open>IfcSys\<close>: control sockets, \<open>ioctl\<close> requests for addresses, masks, flags and routes, netlink
  address messages, the walks over \<open>/proc/net\<close>, and \<open>ifc_configure\<close>. Log output is left out.
\<close>

subsection \<open>Constants of the kernel interface\<close>

abbreviation AF_INET :: int where "AF_INET \<equiv> 2"
abbreviation AF_INET6 :: int where "AF_INET6 \<equiv> 10"
abbreviation PF_NETLINK :: int where "PF_NETLINK \<equiv> 16"
abbreviation SIOCADDRT :: int where "SIOCADDRT \<equiv> 0x890B"
abbreviation SIOCDELRT :: int where "SIOCDELRT \<equiv> 0x890C"
abbreviation SIOCGIFFLAGS :: int where "SIOCGIFFLAGS \<equiv> 0x8913"
abbreviation SIOCSIFFLAGS :: int where "SIOCSIFFLAGS \<equiv> 0x8914"
abbreviation SIOCGIFADDR :: int where "SIOCGIFADDR \<equiv> 0x8915"
abbreviation SIOCSIFADDR :: int where "SIOCSIFADDR \<equiv> 0x8916"
abbreviation SIOCGIFNETMASK :: int where "SIOCGIFNETMASK \<equiv> 0x891B"
abbreviation SIOCSIFNETMASK :: int where "SIOCSIFNETMASK \<equiv> 0x891C"
abbreviation SIOCSIFHWADDR :: int where "SIOCSIFHWADDR \<equiv> 0x8924"
abbreviation SIOCGIFHWADDR :: int where "SIOCGIFHWADDR \<equiv> 0x8927"
abbreviation SIOCGIFINDEX :: int where "SIOCGIFINDEX \<equiv> 0x8933"
abbreviation SIOCKILLADDR :: int where "SIOCKILLADDR \<equiv> 0x8939"
abbreviation IFF_UP :: u32 where "IFF_UP \<equiv> 1"
abbreviation RTM_NEWADDR :: u16 where "RTM_NEWADDR \<equiv> 20"
abbreviation RTM_DELADDR :: u16 where "RTM_DELADDR \<equiv> 21"
abbreviation EEXIST :: int where "EEXIST \<equiv> 17"
abbreviation ENXIO :: int where "ENXIO \<equiv> 6"
abbreviation EINVAL :: int where "EINVAL \<equiv> 22"
abbreviation EAFNOSUPPORT :: int where "EAFNOSUPPORT \<equiv> 97"

subsection \<open>Control sockets\<close>

definition ifc_init :: "'k os \<Rightarrow> ('k, int) prog" where
  "ifc_init os = do {
     s \<leftarrow> gets ctl_sock;
     whenM (s = -1) (do { r \<leftarrow> sys_socket os AF_INET; modify (ctl_sock_update (\<lambda>_. r)) });
     s \<leftarrow> gets ctl_sock;
     ret (if s < 0 then -1 else 0) }"

definition ifc_init6 :: "'k os \<Rightarrow> ('k, int) prog" where
  "ifc_init6 os = do {
     s \<leftarrow> gets ctl_sock6;
     whenM (s = -1) (do { r \<leftarrow> sys_socket os AF_INET6; modify (ctl_sock6_update (\<lambda>_. r)) });
     s \<leftarrow> gets ctl_sock6;
     ret (if s < 0 then -1 else 0) }"

definition ifc_close :: "'k os \<Rightarrow> ('k, unit) prog" where
  "ifc_close os = do {
     s \<leftarrow> gets ctl_sock;
     whenM (s \<noteq> -1) (do { sys_close os s; modify (ctl_sock_update (\<lambda>_. -1)) }) }"

definition ifc_close6 :: "'k os \<Rightarrow> ('k, unit) prog" where
  "ifc_close6 os = do {
     s \<leftarrow> gets ctl_sock6;
     whenM (s \<noteq> -1) (do { sys_close os s; modify (ctl_sock6_update (\<lambda>_. -1)) }) }"

subsection \<open>Requests on an interface\<close>

text \<open>\<open>strncpy\<close> of at most 16 bytes, the last one then overwritten by the terminator.\<close>

definition ifc_init_ifr :: "string \<Rightarrow> ifreq" where
  "ifc_init_ifr name = \<lparr>ifr_name = take 15 name, ifr_ifru = replicate 16 0\<rparr>"

text \<open>Accessors of the union members.\<close>

definition sin_addr :: "u8 list \<Rightarrow> u32" where
  "sin_addr sa = of_le32 (slice 4 4 sa)"

definition init_sockaddr_in :: "u32 \<Rightarrow> u8 list \<Rightarrow> u8 list" where
  "init_sockaddr_in addr sa = write_at 0 (le16 2 @ le16 0 @ le32 addr) sa"

definition ifr_of :: "ioctl_arg \<Rightarrow> ifreq" where
  "ifr_of a = (case a of Arg_ifr r \<Rightarrow> r | _ \<Rightarrow> ifc_init_ifr [])"

definition ctl_ioctl :: "'k os \<Rightarrow> int \<Rightarrow> ifreq \<Rightarrow> ('k, int \<times> ifreq) prog" where
  "ctl_ioctl os cmd ifr = do {
     s \<leftarrow> gets ctl_sock;
     (r, a) \<leftarrow> sys_ioctl os s cmd (Arg_ifr ifr);
     ret (r, ifr_of a) }"

definition ifc_get_hwaddr :: "'k os \<Rightarrow> string \<Rightarrow> ('k, int \<times> u8 list option) prog" where
  "ifc_get_hwaddr os name = do {
     (r, ifr) \<leftarrow> ctl_ioctl os SIOCGIFHWADDR (ifc_init_ifr name);
     (if r < 0 then ret (-1, None) else ret (0, Some (slice 2 6 (ifr_ifru ifr)))) }"

definition ifc_get_ifindex :: "'k os \<Rightarrow> string \<Rightarrow> ('k, int \<times> int option) prog" where
  "ifc_get_ifindex os name = do {
     (r, ifr) \<leftarrow> ctl_ioctl os SIOCGIFINDEX (ifc_init_ifr name);
     (if r < 0 then ret (-1, None) else ret (0, Some (sint (of_le32 (ifr_ifru ifr))))) }"

definition ifc_set_flags :: "'k os \<Rightarrow> string \<Rightarrow> u32 \<Rightarrow> u32 \<Rightarrow> ('k, int) prog" where
  "ifc_set_flags os name set_bits clr = do {
     (r, ifr) \<leftarrow> ctl_ioctl os SIOCGIFFLAGS (ifc_init_ifr name);
     (if r < 0 then ret (-1) else do {
        let flags = (scast (of_le16 (ifr_ifru ifr)) AND NOT clr) OR set_bits;
        (r, _) \<leftarrow> ctl_ioctl os SIOCSIFFLAGS (ifr\<lparr>ifr_ifru := write_at 0 (le16 (ucast flags)) (ifr_ifru ifr)\<rparr>);
        ret r }) }"

definition ifc_up :: "'k os \<Rightarrow> string \<Rightarrow> ('k, int) prog" where
  "ifc_up os name = ifc_set_flags os name IFF_UP 0"

definition ifc_down :: "'k os \<Rightarrow> string \<Rightarrow> ('k, int) prog" where
  "ifc_down os name = ifc_set_flags os name 0 IFF_UP"

text \<open>A request whose union holds an IPv4 socket address.\<close>

definition addr_req :: "string \<Rightarrow> u32 \<Rightarrow> ifreq" where
  "addr_req name addr = (ifc_init_ifr name)\<lparr>ifr_ifru := init_sockaddr_in addr (ifr_ifru (ifc_init_ifr name))\<rparr>"

definition ifc_set_addr :: "'k os \<Rightarrow> string \<Rightarrow> u32 \<Rightarrow> ('k, int) prog" where
  "ifc_set_addr os name addr = do { (r, _) \<leftarrow> ctl_ioctl os SIOCSIFADDR (addr_req name addr); ret r }"

definition ifc_set_mask :: "'k os \<Rightarrow> string \<Rightarrow> u32 \<Rightarrow> ('k, int) prog" where
  "ifc_set_mask os name msk = do { (r, _) \<leftarrow> ctl_ioctl os SIOCSIFNETMASK (addr_req name msk); ret r }"

definition ifc_set_hwaddr :: "'k os \<Rightarrow> string \<Rightarrow> u8 list \<Rightarrow> ('k, int) prog" where
  "ifc_set_hwaddr os name hw = do {
     let ifr = ifc_init_ifr name;
     (r, _) \<leftarrow> ctl_ioctl os SIOCSIFHWADDR (ifr\<lparr>ifr_ifru := write_at 0 (le16 1 @ take 6 hw) (ifr_ifru ifr)\<rparr>);
     ret r }"

definition ifc_set_prefixLength :: "'k os \<Rightarrow> string \<Rightarrow> int \<Rightarrow> ('k, int) prog" where
  "ifc_set_prefixLength os name prefixLength =
     (if prefixLength > 32 \<or> prefixLength < 0 then ret (-1)
      else do {
        let msk = prefixLengthToIpv4Netmask prefixLength;
        (r, _) \<leftarrow> ctl_ioctl os SIOCSIFNETMASK (addr_req name msk);
        ret r })"

definition ifc_get_addr :: "'k os \<Rightarrow> string \<Rightarrow> ('k, int \<times> u32) prog" where
  "ifc_get_addr os name = do {
     (r, ifr) \<leftarrow> ctl_ioctl os SIOCGIFADDR (ifc_init_ifr name);
     (if r < 0 then ret (r, 0) else ret (r, sin_addr (ifr_ifru ifr))) }"

text \<open>
  The three queries share one request structure; each output is computed only when its pointer
  is not \<open>NULL\<close> (the arguments \<open>want_addr\<close>, \<open>want_plen\<close>, \<open>want_flags\<close>).
\<close>

definition ifc_get_info ::
  "'k os \<Rightarrow> string \<Rightarrow> bool \<Rightarrow> bool \<Rightarrow> bool \<Rightarrow> ('k, u32 option \<times> int option \<times> u32 option) prog" where
  "ifc_get_info os name want_addr want_plen want_flags = do {
     let ifr = ifc_init_ifr name;
     (addr, ifr) \<leftarrow> (if want_addr then do {
          (r, ifr) \<leftarrow> ctl_ioctl os SIOCGIFADDR ifr;
          ret (Some (if r < 0 then 0 else sin_addr (ifr_ifru ifr)), ifr) } else ret (None, ifr));
     (prefixLength, ifr) \<leftarrow> (if want_plen then do {
          (r, ifr) \<leftarrow> ctl_ioctl os SIOCGIFNETMASK ifr;
          ret (Some (if r < 0 then 0 else ipv4NetmaskToPrefixLength (sin_addr (ifr_ifru ifr))), ifr) }
        else ret (None, ifr));
     flags \<leftarrow> (if want_flags then do {
          (r, ifr) \<leftarrow> ctl_ioctl os SIOCGIFFLAGS ifr;
          ret (Some (if r < 0 then 0 else scast (of_le16 (ifr_ifru ifr)))) } else ret None);
     ret (addr, prefixLength, flags) }"

subsection \<open>Addresses over netlink\<close>

definition string_to_ip :: "'k os \<Rightarrow> string \<Rightarrow> int + (int \<times> u8 list)" where
  "string_to_ip os str = os_addrinfo os str"

text \<open>
  The 60-byte request: \<open>nlmsghdr\<close> (16 bytes), \<open>ifaddrmsg\<close> (8), and at the aligned end of both the
  routing attribute with the address. \<open>NLM_F_REQUEST | NLM_F_ACK\<close> is 5, \<open>IFA_LOCAL\<close> is 2.
\<close>

definition NLMSG_ALIGN :: "nat \<Rightarrow> nat" where "NLMSG_ALIGN n = (n + 3) div 4 * 4"
definition RTA_LENGTH :: "nat \<Rightarrow> nat" where "RTA_LENGTH n = 4 + n"

definition addr_msg :: "u16 \<Rightarrow> int \<Rightarrow> int \<Rightarrow> int \<Rightarrow> int \<Rightarrow> u8 list \<Rightarrow> u8 list" where
  "addr_msg action pid family prefixlen ifindex addr =
     (let req = replicate 60 0;
          nlmsg_len = 16 + 8;
          req = write_at 4 (le16 action) req;
          req = write_at 6 (le16 5) req;
          req = write_at 12 (le32 (word_of_int pid)) req;
          req = write_at 16 [word_of_int family] req;
          req = write_at 17 [word_of_int prefixlen] req;
          req = write_at 20 (le32 (word_of_int ifindex)) req;
          rta = NLMSG_ALIGN nlmsg_len;
          req = write_at (rta + 2) (le16 2) req;
          req = write_at rta (le16 (of_nat (RTA_LENGTH (length addr)))) req;
          nlmsg_len = NLMSG_ALIGN nlmsg_len + RTA_LENGTH (length addr);
          req = write_at 0 (le32 (of_nat nlmsg_len)) req;
          req = write_at (rta + 4) addr req
      in take nlmsg_len req)"

text \<open>\<open>NLMSG_OK\<close> on the received bytes; message type 2 is \<open>NLMSG_ERROR\<close>.\<close>

definition parse_ack :: "u8 list \<Rightarrow> int \<Rightarrow> int" where
  "parse_ack buf len =
     (if \<not> (16 \<le> len \<and> 16 \<le> unat (of_le32 buf) \<and> int (unat (of_le32 buf)) \<le> len)
         \<or> of_le16 (drop 4 buf) \<noteq> 2 then - EINVAL
      else sint (of_le32 (drop 16 buf)))"

definition ifc_act_on_address :: "'k os \<Rightarrow> u16 \<Rightarrow> string \<Rightarrow> string \<Rightarrow> int \<Rightarrow> ('k, int) prog" where
  "ifc_act_on_address os action name address prefixlen = do {
     ifindex \<leftarrow> sys_nametoindex os name;
     (if ifindex = 0 then do { e \<leftarrow> gets errno; ret (- e) }
      else case string_to_ip os address of
        Inl r \<Rightarrow> ret r
      | Inr (family, bytes) \<Rightarrow>
          if family \<noteq> AF_INET \<and> family \<noteq> AF_INET6 then ret (- EAFNOSUPPORT)
          else do {
            let addr = (if family = AF_INET then take 4 bytes else take 16 bytes);
            let req = addr_msg action (os_getpid os) family prefixlen ifindex addr;
            s \<leftarrow> sys_socket os PF_NETLINK;
            r \<leftarrow> sys_send os s req;
            (if r < 0 then do { sys_close os s; e \<leftarrow> gets errno; ret (- e) }
             else do {
               (len, buf) \<leftarrow> sys_recv os s;
               sys_close os s;
               (if len < 0 then do { e \<leftarrow> gets errno; ret (- e) }
                else ret (parse_ack buf len)) }) }) }"

definition ifc_add_address :: "'k os \<Rightarrow> string \<Rightarrow> string \<Rightarrow> int \<Rightarrow> ('k, int) prog" where
  "ifc_add_address os name address prefixlen = ifc_act_on_address os RTM_NEWADDR name address prefixlen"

definition ifc_del_address :: "'k os \<Rightarrow> string \<Rightarrow> string \<Rightarrow> int \<Rightarrow> ('k, int) prog" where
  "ifc_del_address os name address prefixlen = ifc_act_on_address os RTM_DELADDR name address prefixlen"

subsection \<open>Clearing addresses\<close>

text \<open>
  The loop that puts the colons back: \<open>i\<close> runs over 32 digits, \<open>j\<close> over the output; the last colon
  is overwritten by the terminator.
\<close>

fun colon_loop :: "string \<Rightarrow> nat \<Rightarrow> string \<Rightarrow> string" where
  "colon_loop raw 0 out = out"
| "colon_loop raw (Suc n) out =
     (let i = 31 - n;
          out = out @ [raw ! i];
          out = (if i mod 4 = 3 then out @ '':'' else out)
      in colon_loop raw n out)"

definition put_colons :: "string \<Rightarrow> string" where
  "put_colons raw = butlast (colon_loop raw 32 [])"

fun clear6_loop :: "'k os \<Rightarrow> string \<Rightarrow> inet6_line list \<Rightarrow> int \<Rightarrow> ('k, int) prog" where
  "clear6_loop os name [] lasterror = ret lasterror"
| "clear6_loop os name (l # ls) lasterror =
     (if i6_nread l \<noteq> 3 then ret lasterror
      else if name \<noteq> i6_ifname l then clear6_loop os name ls lasterror
      else let addrstr = put_colons (i6_addr l) in
        if take 5 addrstr = ''fe80:'' then clear6_loop os name ls lasterror
        else do {
          r \<leftarrow> ifc_del_address os (i6_ifname l) addrstr (sint (i6_prefixlen l));
          clear6_loop os name ls (if r \<noteq> 0 then r else lasterror) })"

definition ifc_clear_ipv6_addresses :: "'k os \<Rightarrow> string \<Rightarrow> ('k, int) prog" where
  "ifc_clear_ipv6_addresses os name = do {
     k \<leftarrow> gets kern;
     (case os_if_inet6 os k of
        None \<Rightarrow> do { e \<leftarrow> gets errno; ret (- e) }
      | Some ls \<Rightarrow> clear6_loop os name ls 0) }"

text \<open>At most 255 rounds of: read the address, and set it to 0 when it is not 0.\<close>

fun clear4_loop :: "'k os \<Rightarrow> string \<Rightarrow> nat \<Rightarrow> ('k, unit) prog" where
  "clear4_loop os name 0 = ret ()"
| "clear4_loop os name (Suc n) = do {
     (r, addr) \<leftarrow> ifc_get_addr os name;
     (if r < 0 then ret ()
      else if addr \<noteq> 0 then do { ifc_set_addr os name 0; clear4_loop os name n }
      else ret ()) }"

definition ifc_clear_ipv4_addresses :: "'k os \<Rightarrow> string \<Rightarrow> ('k, unit) prog" where
  "ifc_clear_ipv4_addresses os name = do {
     ifc_init os;
     clear4_loop os name 255;
     ifc_close os }"

definition ifc_clear_addresses :: "'k os \<Rightarrow> string \<Rightarrow> ('k, int) prog" where
  "ifc_clear_addresses os name = do {
     ifc_clear_ipv4_addresses os name;
     ifc_clear_ipv6_addresses os name }"

subsection \<open>Routes\<close>

definition rtentry_zero :: rtentry where
  "rtentry_zero = \<lparr>rt_dst = replicate 16 0, rt_gateway = replicate 16 0, rt_genmask = replicate 16 0,
     rt_flags = 0, rt_dev = []\<rparr>"

abbreviation RTF_UP :: "'a::len word" where "RTF_UP \<equiv> 1"
abbreviation RTF_GATEWAY :: "'a::len word" where "RTF_GATEWAY \<equiv> 2"
abbreviation RTF_HOST :: "'a::len word" where "RTF_HOST \<equiv> 4"

definition ipv4_rtentry :: "string \<Rightarrow> u32 \<Rightarrow> int \<Rightarrow> u32 \<Rightarrow> rtentry" where
  "ipv4_rtentry ifname dst prefix_length gw =
     (let rt = rtentry_zero;
          rt = rt\<lparr>rt_dst := write_at 0 (le16 2) (rt_dst rt)\<rparr>;
          rt = rt\<lparr>rt_dev := ifname\<rparr>;
          netmask = prefixLengthToIpv4Netmask prefix_length;
          rt = rt\<lparr>rt_genmask := init_sockaddr_in netmask (rt_genmask rt)\<rparr>;
          rt = rt\<lparr>rt_dst := init_sockaddr_in dst (rt_dst rt)\<rparr>;
          rt = rt\<lparr>rt_flags := RTF_UP\<rparr>;
          rt = (if prefix_length = 32 then rt\<lparr>rt_flags := rt_flags rt OR RTF_HOST\<rparr> else rt)
      in if gw \<noteq> 0
         then rt\<lparr>rt_flags := rt_flags rt OR RTF_GATEWAY, rt_gateway := init_sockaddr_in gw (rt_gateway rt)\<rparr>
         else rt)"

definition ifc_act_on_ipv4_route :: "'k os \<Rightarrow> int \<Rightarrow> string \<Rightarrow> u32 \<Rightarrow> int \<Rightarrow> u32 \<Rightarrow> ('k, int) prog" where
  "ifc_act_on_ipv4_route os action ifname dst prefix_length gw = do {
     let rt = ipv4_rtentry ifname dst prefix_length gw;
     ifc_init os;
     s \<leftarrow> gets ctl_sock;
     (if s < 0 then do { e \<leftarrow> gets errno; ret (- e) }
      else do {
        (result, _) \<leftarrow> sys_ioctl os s action (Arg_rt rt);
        e \<leftarrow> gets errno;
        let result = (if result < 0 then if e = EEXIST then 0 else - e else result);
        ifc_close os;
        ret result }) }"

definition ifc_create_default_route :: "'k os \<Rightarrow> string \<Rightarrow> u32 \<Rightarrow> ('k, int) prog" where
  "ifc_create_default_route os name gw = ifc_act_on_ipv4_route os SIOCADDRT name 0 0 gw"

definition ifc_add_host_route :: "'k os \<Rightarrow> string \<Rightarrow> u32 \<Rightarrow> ('k, int) prog" where
  "ifc_add_host_route os name dst = ifc_act_on_ipv4_route os SIOCADDRT name dst 32 0"

definition ifc_enable :: "'k os \<Rightarrow> string \<Rightarrow> ('k, int) prog" where
  "ifc_enable os ifname = do {
     ifc_init os;
     result \<leftarrow> ifc_up os ifname;
     ifc_close os;
     ret result }"

definition ifc_disable :: "'k os \<Rightarrow> string \<Rightarrow> ('k, int) prog" where
  "ifc_disable os ifname = do {
     ifc_init os;
     result \<leftarrow> ifc_down os ifname;
     ifc_set_addr os ifname 0;
     clear4_loop os ifname 255;
     ifc_close os;
     ret result }"

text \<open>Bits of \<open>reset_mask\<close>: 1 IPv4, 2 IPv6, 4 ignore the interface address. The request for IPv6
  is 24 zero bytes.\<close>

definition ifc_reset_connections :: "'k os \<Rightarrow> string \<Rightarrow> u32 \<Rightarrow> ('k, int) prog" where
  "ifc_reset_connections os ifname reset_mask = do {
     result \<leftarrow> (if reset_mask AND 1 \<noteq> 0 then do {
         ifc_init os;
         myaddr \<leftarrow> (if reset_mask AND 4 = 0 then do {
             (a, _) \<leftarrow> ifc_get_info os ifname True False False;
             ret (case a of Some a \<Rightarrow> a | None \<Rightarrow> 0) } else ret 0);
         (r, _) \<leftarrow> ctl_ioctl os SIOCKILLADDR (addr_req ifname myaddr);
         ifc_close os;
         ret r } else ret 0);
     (if reset_mask AND 2 \<noteq> 0 then do {
         ifc_init6 os;
         s \<leftarrow> gets ctl_sock6;
         (success, _) \<leftarrow> sys_ioctl os s SIOCKILLADDR (Arg_ifr6 (replicate 24 0));
         let result = (if result = 0 then success else result);
         ifc_close6 os;
         ret result }
      else ret result) }"

fun remove_routes_loop :: "'k os \<Rightarrow> string \<Rightarrow> route_line list \<Rightarrow> ('k, unit) prog" where
  "remove_routes_loop os name [] = ret ()"
| "remove_routes_loop os name (l # ls) =
     (if rl_nread l \<noteq> 11 then ret ()
      else if rl_flags l AND 5 \<noteq> 5 \<or> rl_ifname l \<noteq> name then remove_routes_loop os name ls
      else do {
        let rt = rtentry_zero\<lparr>rt_dev := name,
              rt_dst := init_sockaddr_in (rl_dest l) (rt_dst rtentry_zero),
              rt_gateway := init_sockaddr_in (rl_gway l) (rt_gateway rtentry_zero),
              rt_genmask := init_sockaddr_in (rl_mask l) (rt_genmask rtentry_zero)\<rparr>;
        s \<leftarrow> gets ctl_sock;
        sys_ioctl os s SIOCDELRT (Arg_rt rt);
        remove_routes_loop os name ls })"

definition ifc_remove_host_routes :: "'k os \<Rightarrow> string \<Rightarrow> ('k, int) prog" where
  "ifc_remove_host_routes os name = do {
     k \<leftarrow> gets kern;
     (case os_route os k of
        None \<Rightarrow> ret (-1)
      | Some None \<Rightarrow> ret (-1)
      | Some (Some ls) \<Rightarrow> do {
          ifc_init os;
          remove_routes_loop os name ls;
          ifc_close os;
          ret 0 }) }"

fun default_route_loop :: "string \<Rightarrow> route_line list \<Rightarrow> u32" where
  "default_route_loop ifname [] = 0"
| "default_route_loop ifname (l # ls) =
     (if rl_nread l \<noteq> 11 then 0
      else if rl_flags l AND 3 = 3 \<and> rl_dest l = 0 \<and> ifname = rl_ifname l then rl_gway l
      else default_route_loop ifname ls)"

definition ifc_get_default_route :: "'k os \<Rightarrow> string \<Rightarrow> ('k, int) prog" where
  "ifc_get_default_route os ifname = do {
     k \<leftarrow> gets kern;
     (case os_route os k of
        None \<Rightarrow> ret 0
      | Some None \<Rightarrow> ret 0
      | Some (Some ls) \<Rightarrow> do {
          ifc_init os;
          let result = sint (default_route_loop ifname ls);
          ifc_close os;
          ret result }) }"

definition ifc_set_default_route :: "'k os \<Rightarrow> string \<Rightarrow> u32 \<Rightarrow> ('k, int) prog" where
  "ifc_set_default_route os ifname gateway = do {
     ifc_init os;
     result \<leftarrow> ifc_create_default_route os ifname gateway;
     ifc_close os;
     ret result }"

definition ifc_remove_default_route :: "'k os \<Rightarrow> string \<Rightarrow> ('k, int) prog" where
  "ifc_remove_default_route os ifname = do {
     ifc_init os;
     let rt = rtentry_zero\<lparr>rt_dev := ifname, rt_flags := RTF_UP OR RTF_GATEWAY,
           rt_dst := init_sockaddr_in 0 (rt_dst rtentry_zero)\<rparr>;
     s \<leftarrow> gets ctl_sock;
     (result, _) \<leftarrow> sys_ioctl os s SIOCDELRT (Arg_rt rt);
     ifc_close os;
     ret result }"

definition in6_rtmsg_of :: "int \<Rightarrow> u8 list \<Rightarrow> int \<Rightarrow> u8 list \<Rightarrow> in6_rtmsg" where
  "in6_rtmsg_of ifindex dst prefix_length gw =
     (let rtmsg = \<lparr>rtmsg_dst = dst, rtmsg_gateway = replicate 16 0,
                   rtmsg_dst_len = word_of_int prefix_length, rtmsg_flags = RTF_UP,
                   rtmsg_ifindex = ifindex\<rparr>;
          rtmsg = (if prefix_length = 128 then rtmsg\<lparr>rtmsg_flags := rtmsg_flags rtmsg OR RTF_HOST\<rparr> else rtmsg)
      in if gw \<noteq> replicate 16 0
         then rtmsg\<lparr>rtmsg_flags := rtmsg_flags rtmsg OR RTF_GATEWAY, rtmsg_gateway := gw\<rparr>
         else rtmsg)"

definition ifc_act_on_ipv6_route :: "'k os \<Rightarrow> int \<Rightarrow> string \<Rightarrow> u8 list \<Rightarrow> int \<Rightarrow> u8 list \<Rightarrow> ('k, int) prog" where
  "ifc_act_on_ipv6_route os action ifname dst prefix_length gw = do {
     ifindex \<leftarrow> sys_nametoindex os ifname;
     (if ifindex = 0 then ret (- ENXIO)
      else do {
        let rtmsg = in6_rtmsg_of ifindex dst prefix_length gw;
        ifc_init6 os;
        s \<leftarrow> gets ctl_sock6;
        (if s < 0 then do { e \<leftarrow> gets errno; ret (- e) }
         else do {
           (result, _) \<leftarrow> sys_ioctl os s action (Arg_rt6 rtmsg);
           e \<leftarrow> gets errno;
           let result = (if result < 0 then if e = EEXIST then 0 else - e else result);
           ifc_close6 os;
           ret result }) }) }"

text \<open>\<open>gw\<close> is \<open>None\<close> for a \<open>NULL\<close> pointer, which a family other than the two leaves in place;
  \<open>getaddrinfo\<close> without node and service fails.\<close>

definition default_gw :: "int \<Rightarrow> string option \<Rightarrow> string option" where
  "default_gw family gw =
     (if gw = None \<or> gw = Some [] then
        (if family = AF_INET6 then Some ''::'' else if family = AF_INET then Some ''0.0.0.0'' else gw)
      else gw)"

definition ifc_act_on_route :: "'k os \<Rightarrow> int \<Rightarrow> string \<Rightarrow> string \<Rightarrow> int \<Rightarrow> string option \<Rightarrow> ('k, int) prog" where
  "ifc_act_on_route os action ifname dst prefix_length gw =
     (case os_addrinfo os dst of
        Inl e \<Rightarrow> ret (- EINVAL)
      | Inr (family, d) \<Rightarrow>
          let gw = default_gw family gw in
          if (family = AF_INET6 \<and> (prefix_length < 0 \<or> prefix_length > 128)) \<or>
             (family = AF_INET \<and> (prefix_length < 0 \<or> prefix_length > 32)) then ret (- EINVAL)
          else case (case gw of None \<Rightarrow> Inl (-2) | Some g \<Rightarrow> os_addrinfo os g) of
            Inl e \<Rightarrow> ret (- EINVAL)
          | Inr (gfamily, g) \<Rightarrow>
              if family \<noteq> gfamily then ret (- EINVAL)
              else if family = AF_INET6 then
                ifc_act_on_ipv6_route os action ifname (take 16 d) prefix_length (take 16 g)
              else if family = AF_INET then
                ifc_act_on_ipv4_route os action ifname (of_le32 d) prefix_length (of_le32 g)
              else ret (- EAFNOSUPPORT))"

definition ifc_add_ipv4_route :: "'k os \<Rightarrow> string \<Rightarrow> u32 \<Rightarrow> int \<Rightarrow> u32 \<Rightarrow> ('k, int) prog" where
  "ifc_add_ipv4_route os ifname dst prefix_length gw =
     ifc_act_on_ipv4_route os SIOCADDRT ifname dst prefix_length gw"

definition ifc_add_ipv6_route :: "'k os \<Rightarrow> string \<Rightarrow> u8 list \<Rightarrow> int \<Rightarrow> u8 list \<Rightarrow> ('k, int) prog" where
  "ifc_add_ipv6_route os ifname dst prefix_length gw =
     ifc_act_on_ipv6_route os SIOCADDRT ifname dst prefix_length gw"

definition ifc_add_route :: "'k os \<Rightarrow> string \<Rightarrow> string \<Rightarrow> int \<Rightarrow> string option \<Rightarrow> ('k, int) prog" where
  "ifc_add_route os ifname dst prefix_length gw = ifc_act_on_route os SIOCADDRT ifname dst prefix_length gw"

definition ifc_remove_route :: "'k os \<Rightarrow> string \<Rightarrow> string \<Rightarrow> int \<Rightarrow> string option \<Rightarrow> ('k, int) prog" where
  "ifc_remove_route os ifname dst prefix_length gw = ifc_act_on_route os SIOCDELRT ifname dst prefix_length gw"

end
