(* ===== verification/IfcConfig.thy ===== *)
theory IfcConfig
  imports IfcUtils
begin

text \<open>
  \<open>ifc_configure\<close> of \<open>ifc_utils.c\<close>, and the properties of the interface operations: every public
  operation returns with its control sockets closed, what \<open>ifc_configure\<close> asks of the kernel and
  in which order, the layout of the netlink request, and the walks over \<open>/proc/net\<close>.
\<close>

definition ipaddr_to_string :: "u32 \<Rightarrow> string" where
  "ipaddr_to_string addr = inet_ntoa addr"

text \<open>\<open>snprintf\<close> into \<open>dns_prop_name[PROPERTY_KEY_MAX]\<close>, 32 bytes with the terminator.\<close>

definition dns_prop_name :: "string \<Rightarrow> string \<Rightarrow> string" where
  "dns_prop_name ifname suffix = take 31 (''net.'' @ ifname @ ''.'' @ suffix)"

definition ifc_configure :: "'k os \<Rightarrow> string \<Rightarrow> u32 \<Rightarrow> u32 \<Rightarrow> u32 \<Rightarrow> u32 \<Rightarrow> u32 \<Rightarrow> ('k, int) prog" where
  "ifc_configure os ifname address prefixLength gateway dns1 dns2 = do {
     ifc_init os;
     r \<leftarrow> ifc_up os ifname;
     (if r \<noteq> 0 then do { ifc_close os; ret (-1) }
      else do {
        r \<leftarrow> ifc_set_addr os ifname address;
        (if r \<noteq> 0 then do { ifc_close os; ret (-1) }
         else do {
           r \<leftarrow> ifc_set_prefixLength os ifname (sint prefixLength);
           (if r \<noteq> 0 then do { ifc_close os; ret (-1) }
            else do {
              r \<leftarrow> ifc_create_default_route os ifname gateway;
              (if r \<noteq> 0 then do { ifc_close os; ret (-1) }
               else do {
                 ifc_close os;
                 property_set (dns_prop_name ifname ''dns1'') (if dns1 \<noteq> 0 then ipaddr_to_string dns1 else []);
                 property_set (dns_prop_name ifname ''dns2'') (if dns2 \<noteq> 0 then ipaddr_to_string dns2 else []);
                 ret 0 }) }) }) }) }"

subsection \<open>Operations that leave the control sockets alone\<close>

lemma keeps_ctl_ioctl [keeps_intros]: "keeps (ctl_ioctl os cmd ifr)"
  unfolding ctl_ioctl_def by (intro keeps_intros)

lemma keeps_requests [keeps_intros]:
  "keeps (ifc_get_hwaddr os name)" "keeps (ifc_get_ifindex os name)"
  "keeps (ifc_set_flags os name set_bits clr)" "keeps (ifc_up os name)" "keeps (ifc_down os name)"
  "keeps (ifc_set_addr os name addr)" "keeps (ifc_set_mask os name msk)" "keeps (ifc_set_hwaddr os name hw)"
  "keeps (ifc_set_prefixLength os name n)" "keeps (ifc_get_addr os name)"
  "keeps (ifc_get_info os name a b c)"
  unfolding ifc_get_hwaddr_def ifc_get_ifindex_def ifc_set_flags_def ifc_up_def ifc_down_def
    ifc_set_addr_def ifc_set_mask_def ifc_set_hwaddr_def ifc_set_prefixLength_def ifc_get_addr_def
    ifc_get_info_def Let_def
  by (intro keeps_intros)+

lemma keeps_clear4 [keeps_intros]: "keeps (clear4_loop os name n)"
  by (induction n) (auto intro!: keeps_intros)

lemma keeps_remove_routes [keeps_intros]: "keeps (remove_routes_loop os name ls)"
  by (induction ls) (auto simp: Let_def intro!: keeps_intros)

text \<open>The netlink socket is closed on every path.\<close>

lemma keeps_act_on_address [keeps_intros]: "keeps (ifc_act_on_address os action name address n)"
  unfolding keeps_def ifc_act_on_address_def sys_nametoindex_def sys_socket_def sys_send_def
    sys_recv_def sys_close_def
  by (auto simp: fds_ok_def Let_def split: prod.splits sum.splits if_splits)

lemma keeps_clear6 [keeps_intros]: "keeps (clear6_loop os name ls e)"
  by (induction ls arbitrary: e) (auto simp: Let_def ifc_del_address_def intro!: keeps_intros)

lemma keeps_clear_ipv6 [keeps_intros]: "keeps (ifc_clear_ipv6_addresses os name)"
  unfolding ifc_clear_ipv6_addresses_def by (intro keeps_intros)

subsection \<open>Operations that open and close them\<close>

text \<open>
  The two sockets behave alike, so the rules take a flag: \<open>own True\<close> is the IPv6 socket.
  \<open>pres v m\<close> preserves the invariant and the other socket; \<open>rels v m\<close> also ends with the own
  socket closed.
\<close>

definition own :: "bool \<Rightarrow> 'k ifc \<Rightarrow> int" where
  "own v6 s = (if v6 then ctl_sock6 s else ctl_sock s)"

definition pres :: "bool \<Rightarrow> ('k, 'a) prog \<Rightarrow> bool" where
  "pres v m \<longleftrightarrow> (\<forall>s r s'. fds_ok s \<longrightarrow> run_state m s = (r, s') \<longrightarrow>
     fds_ok s' \<and> own (\<not> v) s' = own (\<not> v) s)"

definition rels :: "bool \<Rightarrow> ('k, 'a) prog \<Rightarrow> bool" where
  "rels v m \<longleftrightarrow> (\<forall>s r s'. fds_ok s \<longrightarrow> run_state m s = (r, s') \<longrightarrow>
     fds_ok s' \<and> own (\<not> v) s' = own (\<not> v) s \<and> own v s' = -1)"

named_theorems rels_intros \<open>programs that end with their control socket closed\<close>

lemma socket_docD: "os_socket os fam k = (r, e, k') \<Longrightarrow> socket_doc os \<Longrightarrow> -1 \<le> r"
  by (metis socket_doc_def fst_conv)

lemma pres_keeps: "keeps m \<Longrightarrow> pres v m"
  unfolding keeps_def pres_def own_def by metis

lemma pres_rels: "rels v m \<Longrightarrow> pres v m"
  unfolding rels_def pres_def by blast

lemma pres_init [rels_intros]: "socket_doc os \<Longrightarrow> pres False (ifc_init os)"
  by (auto simp: pres_def own_def ifc_init_def whenM_def sys_socket_def fds_ok_def held_def
      split: prod.splits if_splits dest: socket_docD)

lemma pres_init6 [rels_intros]: "socket_doc os \<Longrightarrow> pres True (ifc_init6 os)"
  by (auto simp: pres_def own_def ifc_init6_def whenM_def sys_socket_def fds_ok_def held_def
      split: prod.splits if_splits dest: socket_docD)

lemma rels_close [rels_intros]: "rels False (ifc_close os)"
  by (auto simp: rels_def own_def ifc_close_def whenM_def sys_close_def fds_ok_def held_def
      split: prod.splits if_splits)

lemma rels_close6 [rels_intros]: "rels True (ifc_close6 os)"
  by (auto simp: rels_def own_def ifc_close6_def whenM_def sys_close_def fds_ok_def held_def
      split: prod.splits if_splits)

lemma run_bindE:
  assumes "run_state (m \<bind> f) s = (r, s')"
  obtains x t where "run_state m s = (x, t)" "run_state (f x) t = (r, s')"
  using assms by (auto split: prod.splits)

lemma rels_bind: "pres v m \<Longrightarrow> (\<And>x. rels v (f x)) \<Longrightarrow> rels v (m \<bind> f)"
  unfolding pres_def rels_def by (metis (no_types, lifting) run_bindE)

lemma rels_bind_keeps:
  assumes "rels v m" "\<And>x. keeps (f x)"
  shows "rels v (m \<bind> f)"
  unfolding rels_def
proof (intro allI impI)
  fix s r s' assume ok: "fds_ok s" and run: "run_state (m \<bind> f) s = (r, s')"
  from run obtain x t where m: "run_state m s = (x, t)" and f: "run_state (f x) t = (r, s')" by (rule run_bindE)
  have "fds_ok t \<and> own (\<not> v) t = own (\<not> v) s \<and> own v t = -1" using assms(1) ok m by (simp add: rels_def)
  moreover have "ctl_sock s' = ctl_sock t \<and> ctl_sock6 s' = ctl_sock6 t \<and> (fds_ok t \<longrightarrow> fds_ok s')"
    using assms(2) [of x] f unfolding keeps_def by blast
  ultimately show "fds_ok s' \<and> own (\<not> v) s' = own (\<not> v) s \<and> own v s' = -1"
    by (cases v) (simp_all add: own_def)
qed

lemma rels_if [rels_intros]: "(b \<Longrightarrow> rels v m) \<Longrightarrow> (\<not> b \<Longrightarrow> rels v n) \<Longrightarrow> rels v (if b then m else n)"
  by simp

lemma rels_case_prod [rels_intros]: "(\<And>a b. x = (a, b) \<Longrightarrow> rels v (f a b)) \<Longrightarrow> rels v (case x of (a, b) \<Rightarrow> f a b)"
  by (cases x) simp

lemma rels_close_ret [rels_intros]: "rels False (ifc_close os \<bind> (\<lambda>_. ret x))" "rels True (ifc_close6 os \<bind> (\<lambda>_. ret x))"
  by (intro rels_bind_keeps rels_close rels_close6 keeps_return)+

text \<open>A test of the own socket: when it is negative there is nothing to close.\<close>

lemma rels_test:
  assumes "keeps m" "\<And>x. rels False (f x)"
  shows "rels False (gets ctl_sock \<bind> (\<lambda>s. if s < 0 then m else f s))"
  unfolding rels_def
proof (intro allI impI)
  fix s r s'
  assume ok: "fds_ok s" and run: "run_state (gets ctl_sock \<bind> (\<lambda>s. if s < 0 then m else f s)) s = (r, s')"
  show "fds_ok s' \<and> own (\<not> False) s' = own (\<not> False) s \<and> own False s' = -1"
  proof (cases "ctl_sock s < 0")
    case True
    then have "ctl_sock s = -1" using ok by (simp add: fds_ok_def)
    then show ?thesis using assms(1) ok run True by (auto simp: keeps_def own_def)
  next
    case False
    then show ?thesis using assms(2) ok run by (auto simp: rels_def)
  qed
qed

lemma rels_test6:
  assumes "keeps m" "\<And>x. rels True (f x)"
  shows "rels True (gets ctl_sock6 \<bind> (\<lambda>s. if s < 0 then m else f s))"
  unfolding rels_def
proof (intro allI impI)
  fix s r s'
  assume ok: "fds_ok s" and run: "run_state (gets ctl_sock6 \<bind> (\<lambda>s. if s < 0 then m else f s)) s = (r, s')"
  show "fds_ok s' \<and> own (\<not> True) s' = own (\<not> True) s \<and> own True s' = -1"
  proof (cases "ctl_sock6 s < 0")
    case True
    then have "ctl_sock6 s = -1" using ok by (simp add: fds_ok_def)
    then show ?thesis using assms(1) ok run True by (auto simp: keeps_def own_def)
  next
    case False
    then show ?thesis using assms(2) ok run by (auto simp: rels_def)
  qed
qed

lemmas rels_seq = rels_bind [OF pres_keeps] rels_bind [OF pres_init] rels_bind [OF pres_init6]
  rels_bind [OF pres_rels]

lemma rels_act_on_ipv4_route [rels_intros]:
  "socket_doc os \<Longrightarrow> rels False (ifc_act_on_ipv4_route os action ifname dst n gw)"
  unfolding ifc_act_on_ipv4_route_def Let_def
  by (rule rels_bind [OF pres_init], assumption, rule rels_test)
    (intro keeps_intros rels_bind [OF pres_keeps] rels_intros)+

subsection \<open>Nothing leaks\<close>

definition clean :: "'k ifc \<Rightarrow> bool" where
  "clean s \<longleftrightarrow> fds_ok s \<and> ctl_sock s = -1 \<and> ctl_sock6 s = -1"

definition cleans :: "('k, 'a) prog \<Rightarrow> bool" where
  "cleans m \<longleftrightarrow> (\<forall>s r s'. clean s \<longrightarrow> run_state m s = (r, s') \<longrightarrow> clean s')"

lemma cleans_keeps: "keeps m \<Longrightarrow> cleans m"
  unfolding keeps_def cleans_def clean_def by metis

lemma cleans_rels4: "rels False m \<Longrightarrow> cleans m"
  unfolding rels_def cleans_def clean_def own_def by (metis (full_types))

lemma cleans_rels6: "rels True m \<Longrightarrow> cleans m"
  unfolding rels_def cleans_def clean_def own_def by (metis (full_types))

lemma cleans_bind: "cleans m \<Longrightarrow> (\<And>x. cleans (f x)) \<Longrightarrow> cleans (m \<bind> f)"
  unfolding cleans_def by (metis (no_types, lifting) run_bindE)

lemma cleans_if: "(b \<Longrightarrow> cleans m) \<Longrightarrow> (\<not> b \<Longrightarrow> cleans n) \<Longrightarrow> cleans (if b then m else n)"
  by simp

lemma cleans_act_on_ipv6_route: "socket_doc os \<Longrightarrow> cleans (ifc_act_on_ipv6_route os action ifname dst n gw)"
  unfolding ifc_act_on_ipv6_route_def Let_def
  by (intro cleans_bind cleans_if cleans_rels6 rels_bind [OF pres_init6] rels_test6 cleans_keeps rels_intros
      rels_bind [OF pres_keeps] keeps_intros)

lemma cleans_act_on_route: "socket_doc os \<Longrightarrow> cleans (ifc_act_on_route os action ifname dst n gw)"
  unfolding ifc_act_on_route_def Let_def
  by (auto split: sum.splits prod.splits
      intro: cleans_keeps keeps_intros cleans_rels4 rels_intros cleans_act_on_ipv6_route)

lemma rels_default_route [rels_intros]:
  "socket_doc os \<Longrightarrow> rels False (ifc_create_default_route os name gw)"
  "socket_doc os \<Longrightarrow> rels False (ifc_add_host_route os name dst)"
  unfolding ifc_create_default_route_def ifc_add_host_route_def by (rule rels_intros, assumption)+

lemma rels_ops [rels_intros]:
  assumes "socket_doc os"
  shows "rels False (ifc_clear_ipv4_addresses os name)" "rels False (ifc_enable os name)"
    "rels False (ifc_disable os name)" "rels False (ifc_remove_default_route os name)"
  unfolding ifc_clear_ipv4_addresses_def ifc_enable_def ifc_disable_def ifc_remove_default_route_def Let_def
  by (rule rels_bind [OF pres_init [OF assms]],
      intro rels_bind [OF pres_keeps] rels_case_prod rels_close_ret rels_close keeps_intros)+

lemma rels_set_default_route [rels_intros]:
  assumes "socket_doc os"
  shows "rels False (ifc_set_default_route os name gw)"
  unfolding ifc_set_default_route_def
  by (rule rels_bind [OF pres_init [OF assms]], rule rels_bind [OF pres_rels], rule rels_intros, rule assms,
      rule rels_close_ret)

lemma rels_configure [rels_intros]:
  assumes "socket_doc os"
  shows "rels False (ifc_configure os name a n gw d1 d2)"
proof -
  note seq = rels_bind [OF pres_keeps]
  show ?thesis
    unfolding ifc_configure_def
    by (rule rels_bind [OF pres_init [OF assms]], (rule seq, rule keeps_intros, rule rels_if, rule rels_close_ret)+,
        rule rels_bind [OF pres_rels], rule rels_default_route [OF assms], rule rels_if, rule rels_close_ret,
        rule rels_bind_keeps [OF rels_close], intro keeps_intros)
qed

lemma cleans_proc:
  assumes "socket_doc os"
  shows "cleans (ifc_get_default_route os name)" "cleans (ifc_remove_host_routes os name)"
  unfolding ifc_get_default_route_def ifc_remove_host_routes_def Let_def
  by (rule cleans_bind [OF cleans_keeps], rule keeps_intros, simp split: option.split,
      intro conjI allI impI cleans_keeps keeps_return cleans_rels4 rels_bind [OF pres_init [OF assms]] rels_close_ret
        rels_bind [OF pres_keeps] keeps_remove_routes keeps_return)+

lemma rels_reset4:
  assumes "socket_doc os"
  shows "rels False (do {
         ifc_init os;
         myaddr \<leftarrow> (if b then do {
             (a, _) \<leftarrow> ifc_get_info os ifname True False False;
             ret (case a of Some a \<Rightarrow> a | None \<Rightarrow> 0) } else ret 0);
         (r, _) \<leftarrow> ctl_ioctl os cmd (addr_req ifname myaddr);
         ifc_close os;
         ret r })"
  by (rule rels_bind [OF pres_init [OF assms]], rule rels_bind [OF pres_keeps],
      intro keeps_intros, rule rels_bind [OF pres_keeps], rule keeps_ctl_ioctl, rule rels_case_prod, rule rels_close_ret)

lemma rels_reset6:
  assumes "socket_doc os"
  shows "rels True (do {
         ifc_init6 os;
         s \<leftarrow> gets ctl_sock6;
         (r, _) \<leftarrow> sys_ioctl os s cmd arg;
         ifc_close6 os;
         ret (f r) })"
  by (rule rels_bind [OF pres_init6 [OF assms]], rule rels_bind [OF pres_keeps], rule keeps_gets,
      rule rels_bind [OF pres_keeps], rule keeps_ioctl, rule rels_case_prod, rule rels_close_ret)

lemma cleans_reset: 
  assumes "socket_doc os"
  shows "cleans (ifc_reset_connections os name msk)"
  unfolding ifc_reset_connections_def Let_def
  by (rule cleans_bind; rule cleans_if; (rule cleans_rels4, rule rels_reset4, rule assms)?,
     (rule cleans_rels6, rule rels_reset6, rule assms)?, (rule cleans_keeps, rule keeps_return)?)


text \<open>A kernel that grants every request, for the concrete instances.\<close>

definition yes_os :: "unit os" where
  "yes_os = \<lparr>os_socket = \<lambda>fam k. (3, 0, k), os_close = \<lambda>fd k. (0, k), os_ioctl = \<lambda>fd cmd arg k. (if fd < 0 then -1 else 0, arg, if fd < 0 then 9 else 0, k),
     os_nametoindex = \<lambda>name k. (2, 0), os_addrinfo = \<lambda>str. if str = [] then Inl 8 else Inr (2, [10, 0, 0, 1]),
     os_send = \<lambda>fd b k. (int (length b), 0, k), os_recv = \<lambda>fd k. (36, le32 36 @ le16 2 @ replicate 46 0, 0, k),
     os_getpid = 77, os_if_inet6 = \<lambda>k. Some [], os_route = \<lambda>k. Some (Some [])\<rparr>"

definition start :: "unit ifc" where
  "start = \<lparr>ctl_sock = -1, ctl_sock6 = -1, errno = 0, kern = (), trace = []\<rparr>"

lemma yes_doc: "socket_doc yes_os"
  by (simp add: socket_doc_def yes_os_def)

lemma start_clean: "clean start"
  by (simp add: clean_def fds_ok_def held_def start_def)


subsection \<open>What \<open>ifc_configure\<close> asks of the kernel\<close>

text \<open>One request on the control socket, as an equation.\<close>

lemma run_ctl_ioctl_bad:
  "ioctl_doc os \<Longrightarrow> ctl_sock s < 0 \<Longrightarrow> run_state (ctl_ioctl os cmd ifr) s = (r, s') \<Longrightarrow> fst r = -1"
  unfolding ioctl_doc_def ctl_ioctl_def sys_ioctl_def
  by (auto split: prod.splits) (metis (mono_tags, lifting) case_prod_conv)

lemma run_ctl_ioctl:
  "run_state (ctl_ioctl os cmd ifr) s = (r, s') \<Longrightarrow>
   trace s' = Ev_ioctl (ctl_sock s) cmd (Arg_ifr ifr) (fst r) (errno s') # trace s \<and> ctl_sock s' = ctl_sock s"
  by (auto simp: ctl_ioctl_def sys_ioctl_def split: prod.splits)

text \<open>The interface flags written are those read with \<open>IFF_UP\<close> added, in the low 16 bits.\<close>

definition up_req :: "ifreq \<Rightarrow> ifreq" where
  "up_req ifr = ifr\<lparr>ifr_ifru := write_at 0 (le16 (of_le16 (ifr_ifru ifr) OR 1)) (ifr_ifru ifr)\<rparr>"

lemma up_flags: "(ucast ((scast (f :: u16) AND NOT 0) OR (1 :: u32)) :: u16) = f OR 1"
  by (rule bit_word_eqI) (auto simp: bit_simps)

lemma run_up_ok:
  assumes "run_state (ifc_up os name) s = (0, s')"
  shows "\<exists>r e ifr e'. 0 \<le> r \<and> trace s' = Ev_ioctl (ctl_sock s) SIOCSIFFLAGS (Arg_ifr (up_req ifr)) 0 e' #
      Ev_ioctl (ctl_sock s) SIOCGIFFLAGS (Arg_ifr (ifc_init_ifr name)) r e # trace s \<and> ctl_sock s' = ctl_sock s"
  using assms unfolding ifc_up_def ifc_set_flags_def Let_def up_flags up_req_def [symmetric]
  by (fastforce split: prod.splits if_splits dest!: run_ctl_ioctl)

lemma run_up_bad:
  assumes "ioctl_doc os" "ctl_sock s < 0" "run_state (ifc_up os name) s = (r, s')"
  shows "r = -1"
  using assms(3) unfolding ifc_up_def ifc_set_flags_def Let_def
  by (auto split: prod.splits if_splits dest!: run_ctl_ioctl_bad [OF assms(1,2)])

lemma run_set_addr: "run_state (ifc_set_addr os name a) s = (r, s') \<Longrightarrow>
    (\<exists>e. trace s' = Ev_ioctl (ctl_sock s) SIOCSIFADDR (Arg_ifr (addr_req name a)) r e # trace s) \<and>
    ctl_sock s' = ctl_sock s"
  unfolding ifc_set_addr_def by (auto split: prod.splits dest!: run_ctl_ioctl)

lemma run_set_plen: "run_state (ifc_set_prefixLength os name n) s = (r, s') \<Longrightarrow>
    (0 \<le> n \<and> n \<le> 32 \<and> (\<exists>e. trace s' =
       Ev_ioctl (ctl_sock s) SIOCSIFNETMASK (Arg_ifr (addr_req name (prefixLengthToIpv4Netmask n))) r e # trace s) \<or>
     (n < 0 \<or> 32 < n) \<and> r = -1 \<and> trace s' = trace s) \<and> ctl_sock s' = ctl_sock s"
  unfolding ifc_set_prefixLength_def by (auto split: prod.splits if_splits dest!: run_ctl_ioctl)

lemma run_ipv4_route:
  assumes "run_state (ifc_act_on_ipv4_route os action name dst n gw) s = (r, s')" "0 \<le> ctl_sock s"
  shows "\<exists>q e. trace s' = Ev_close (ctl_sock s) #
      Ev_ioctl (ctl_sock s) action (Arg_rt (ipv4_rtentry name dst n gw)) q e # trace s \<and>
      r = (if q < 0 then if e = EEXIST then 0 else - e else q) \<and> ctl_sock s' = -1 \<and>
      (ioctl_doc os \<longrightarrow> q < 0 \<longrightarrow> 0 < e)"
proof -
  obtain q a e k where io: "os_ioctl os (ctl_sock s) action (Arg_rt (ipv4_rtentry name dst n gw)) (kern s) = (q, a, e, k)"
    by (rule prod_cases4)
  obtain e2 k2 where cl: "os_close os (ctl_sock s) k = (e2, k2)" by (rule prod.exhaust)
  have init: "run_state (ifc_init os) s = (0, s)"
    using assms(2) by (simp add: ifc_init_def whenM_def)
  have doc: "ioctl_doc os \<longrightarrow> q < 0 \<longrightarrow> 0 < e"
    using io unfolding ioctl_doc_def by (metis (mono_tags, lifting) case_prod_conv)
  show ?thesis
    using assms io cl init doc
    by (intro exI [of _ q] exI [of _ e])
      (auto simp: ifc_act_on_ipv4_route_def ifc_close_def whenM_def sys_ioctl_def sys_close_def Let_def)
qed

lemma run_init_clean:
  assumes "ctl_sock s = -1" "run_state (ifc_init os) s = (r, s')"
  shows "trace s' = Ev_socket AF_INET (ctl_sock s') # trace s"
  using assms by (auto simp: ifc_init_def whenM_def sys_socket_def split: prod.splits)

definition prop_value :: "u32 \<Rightarrow> string" where
  "prop_value a = (if a \<noteq> 0 then ipaddr_to_string a else [])"

lemma run_close: "run_state (ifc_close os) s = (r, s') \<Longrightarrow>
    trace s' = (if ctl_sock s \<noteq> -1 then Ev_close (ctl_sock s) # trace s else trace s)"
  by (auto simp: ifc_close_def whenM_def sys_close_def split: prod.splits if_splits)

lemma guard_step:
  "run_state (m \<bind> (\<lambda>r. if r \<noteq> 0 then ifc_close os \<bind> (\<lambda>_. ret (-1)) else n)) s = (0 :: int, s') \<Longrightarrow>
   \<exists>t. run_state m s = (0 :: int, t) \<and> run_state n t = (0, s')"
  by (auto split: prod.splits if_splits)

lemma configure_steps:
  assumes "run_state (ifc_configure os name addr plen gw dns1 dns2) s = (0, s')"
  shows "\<exists>i s1 s2 s3 s4 s5 s6. run_state (ifc_init os) s = (i, s1) \<and> run_state (ifc_up os name) s1 = (0, s2) \<and>
    run_state (ifc_set_addr os name addr) s2 = (0, s3) \<and>
    run_state (ifc_set_prefixLength os name (sint plen)) s3 = (0, s4) \<and>
    run_state (ifc_create_default_route os name gw) s4 = (0, s5) \<and> run_state (ifc_close os) s5 = ((), s6) \<and>
    trace s' = Ev_prop (dns_prop_name name ''dns2'') (prop_value dns2) #
      Ev_prop (dns_prop_name name ''dns1'') (prop_value dns1) # trace s6"
  using assms unfolding ifc_configure_def
  apply -
  apply (erule run_bindE)
  apply (drule guard_step, elim exE conjE)
  apply (drule guard_step, elim exE conjE)
  apply (drule guard_step, elim exE conjE)
  apply (drule guard_step, elim exE conjE)
  apply (erule run_bindE)
  apply (intro exI conjI)
        apply assumption
       apply assumption
      apply assumption
     apply assumption
    apply assumption
   apply simp
  by (auto simp: property_set_def prop_value_def)

text \<open>C7: success of \<open>ifc_configure\<close> means that the kernel accepted, on one socket and in this order:
  the interface up, its address, its netmask, the default route (or answered that the route
  exists); only then, with the socket closed, are the two name servers published. A prefix
  length above 32 never succeeds.\<close>

theorem ifc_configure_success:
  assumes "ctl_sock s = -1" "ioctl_doc os"
    and "run_state (ifc_configure os name addr plen gw dns1 dns2) s = (0, s')"
  shows "\<exists>fd f fe ifr e1 e2 e3 q e4. trace s' =
      [Ev_prop (dns_prop_name name ''dns2'') (prop_value dns2),
       Ev_prop (dns_prop_name name ''dns1'') (prop_value dns1),
       Ev_close fd,
       Ev_ioctl fd SIOCADDRT (Arg_rt (ipv4_rtentry name 0 0 gw)) q e4,
       Ev_ioctl fd SIOCSIFNETMASK (Arg_ifr (addr_req name (prefixLengthToIpv4Netmask (sint plen)))) 0 e3,
       Ev_ioctl fd SIOCSIFADDR (Arg_ifr (addr_req name addr)) 0 e2,
       Ev_ioctl fd SIOCSIFFLAGS (Arg_ifr (up_req ifr)) 0 e1,
       Ev_ioctl fd SIOCGIFFLAGS (Arg_ifr (ifc_init_ifr name)) f fe,
       Ev_socket AF_INET fd] @ trace s \<and>
    0 \<le> fd \<and> 0 \<le> f \<and> (q = 0 \<or> q < 0 \<and> e4 = EEXIST) \<and> 0 \<le> sint plen \<and> sint plen \<le> 32"
proof -
  obtain i s1 s2 s3 s4 s5 s6 where run: "run_state (ifc_init os) s = (i, s1)" "run_state (ifc_up os name) s1 = (0, s2)"
    "run_state (ifc_set_addr os name addr) s2 = (0, s3)" "run_state (ifc_set_prefixLength os name (sint plen)) s3 = (0, s4)"
    "run_state (ifc_create_default_route os name gw) s4 = (0, s5)" "run_state (ifc_close os) s5 = ((), s6)"
    and tr: "trace s' = Ev_prop (dns_prop_name name ''dns2'') (prop_value dns2) #
      Ev_prop (dns_prop_name name ''dns1'') (prop_value dns1) # trace s6"
    using configure_steps [OF assms(3)] by blast
  have fd: "0 \<le> ctl_sock s1" using run_up_bad [OF assms(2) _ run(2)] by linarith
  have t1: "trace s1 = Ev_socket AF_INET (ctl_sock s1) # trace s" using run_init_clean [OF assms(1) run(1)] .
  from run_up_ok [OF run(2)] obtain f fe ifr e1 where
    t2: "trace s2 = Ev_ioctl (ctl_sock s1) SIOCSIFFLAGS (Arg_ifr (up_req ifr)) 0 e1 #
      Ev_ioctl (ctl_sock s1) SIOCGIFFLAGS (Arg_ifr (ifc_init_ifr name)) f fe # trace s1" "0 \<le> f"
    and c2: "ctl_sock s2 = ctl_sock s1" by blast
  from run_set_addr [OF run(3)] obtain e2 where
    t3: "trace s3 = Ev_ioctl (ctl_sock s2) SIOCSIFADDR (Arg_ifr (addr_req name addr)) 0 e2 # trace s2"
    and c3: "ctl_sock s3 = ctl_sock s2" by blast
  from run_set_plen [OF run(4)] obtain e3 where pl: "0 \<le> sint plen" "sint plen \<le> 32" and
    t4: "trace s4 = Ev_ioctl (ctl_sock s3) SIOCSIFNETMASK
      (Arg_ifr (addr_req name (prefixLengthToIpv4Netmask (sint plen)))) 0 e3 # trace s3"
    and c4: "ctl_sock s4 = ctl_sock s3" by auto
  from run_ipv4_route [OF run(5) [unfolded ifc_create_default_route_def]] obtain q e4 where
    t5: "trace s5 = Ev_close (ctl_sock s4) #
      Ev_ioctl (ctl_sock s4) SIOCADDRT (Arg_rt (ipv4_rtentry name 0 0 gw)) q e4 # trace s4"
    and q: "q = 0 \<or> q < 0 \<and> e4 = EEXIST" and c5: "ctl_sock s5 = -1"
    using fd c2 c3 c4 assms(2) by (auto split: if_splits)
  have t6: "trace s6 = trace s5" using run_close [OF run(6)] c5 by simp
  show ?thesis
  proof (intro exI conjI)
    show "trace s' =
      [Ev_prop (dns_prop_name name ''dns2'') (prop_value dns2),
       Ev_prop (dns_prop_name name ''dns1'') (prop_value dns1),
       Ev_close (ctl_sock s1),
       Ev_ioctl (ctl_sock s1) SIOCADDRT (Arg_rt (ipv4_rtentry name 0 0 gw)) q e4,
       Ev_ioctl (ctl_sock s1) SIOCSIFNETMASK (Arg_ifr (addr_req name (prefixLengthToIpv4Netmask (sint plen)))) 0 e3,
       Ev_ioctl (ctl_sock s1) SIOCSIFADDR (Arg_ifr (addr_req name addr)) 0 e2,
       Ev_ioctl (ctl_sock s1) SIOCSIFFLAGS (Arg_ifr (up_req ifr)) 0 e1,
       Ev_ioctl (ctl_sock s1) SIOCGIFFLAGS (Arg_ifr (ifc_init_ifr name)) f fe,
       Ev_socket AF_INET (ctl_sock s1)] @ trace s"
      unfolding tr t6 t5 t4 t3 t2(1) t1 c4 c3 c2 by (simp only: append.simps)
  qed (use fd t2(2) q pl in simp_all)
qed

lemma yes_ioctl_doc: "ioctl_doc yes_os"
  by (auto simp: ioctl_doc_def yes_os_def)

theorem ifc_configure_success_witness:
  "\<exists>s' fd q e. run_state (ifc_configure yes_os ''wlan0'' 0x0900a8c0 24 0x0100a8c0 0x08080808 0) start = (0, s') \<and>
     Ev_ioctl fd SIOCADDRT (Arg_rt (ipv4_rtentry ''wlan0'' 0 0 0x0100a8c0)) q e \<in> set (trace s') \<and> 0 \<le> fd"
proof -
  let ?m = "ifc_configure yes_os ''wlan0'' 0x0900a8c0 24 0x0100a8c0 0x08080808 0"
  have "fst (run_state ?m start) = 0" by code_simp
  then have run: "run_state ?m start = (0, snd (run_state ?m start))" by (metis prod.collapse)
  have "ctl_sock start = -1" by (simp add: start_def)
  from ifc_configure_success [OF this yes_ioctl_doc run] show ?thesis
    by (metis run append_Cons list.set_intros)
qed

subsection \<open>The netlink request\<close>

lemma write_at_skip: "length x \<le> p \<Longrightarrow> write_at p ys (x @ r) = x @ write_at (p - length x) ys r"
  by (simp add: write_at_def diff_commute)

lemma write_at_here: "length ys = length b \<Longrightarrow> write_at 0 ys (b @ r) = ys @ r"
  by (simp add: write_at_def)

lemma zeros_60:
  "replicate 60 (0 :: u8) = le32 0 @ le16 0 @ le16 0 @ le32 0 @ le32 0 @ [0] @ [0] @ [0, 0] @ le32 0 @ le16 0 @
     le16 0 @ replicate 32 0"
  by code_simp

lemma addr_msg_layout:
  assumes "length addr = 4 \<or> length addr = 16"
  shows "addr_msg action pid family prefixlen ifindex addr =
    le32 (of_nat (28 + length addr)) @ le16 action @ le16 5 @ le32 0 @ le32 (word_of_int pid) @
    [word_of_int family, word_of_int prefixlen, 0, 0] @ le32 (word_of_int ifindex) @
    le16 (of_nat (4 + length addr)) @ le16 2 @ addr"
proof -
  have last: "write_at 0 addr (replicate 32 0) = addr @ replicate (32 - length addr) 0"
    using assms by (auto simp: write_at_def)
  have al: "NLMSG_ALIGN (16 + 8) = 24" by (simp add: NLMSG_ALIGN_def)
  show ?thesis
    unfolding addr_msg_def RTA_LENGTH_def Let_def al zeros_60
    using assms by (auto simp: write_at_skip write_at_here last simp del: of_nat_add append_Cons append.simps)
qed

text \<open>the netlink exchange of \<open>ifc_act_on_address\<close>, for both address families. One socket is opened;
  the request sent is the message with the lengths, the acknowledgement flag, the interface
  index, the prefix length and the address in their places, and its length field is its length;
  the socket is closed on every path; and the result is the error code of the acknowledgement.\<close>

lemma ifc_act_on_address_exchange:
  assumes "os_nametoindex os name (kern s) = (idx, e)" "idx \<noteq> 0"
    and "os_addrinfo os str = Inr (family, bytes)"
    and "family = AF_INET \<and> n = 4 \<or> family = AF_INET6 \<and> n = 16" "n \<le> length bytes"
    and "run_state (ifc_act_on_address os action name str plen) s = (r, s')"
  shows "\<exists>fd sent mid.
    trace s' = Ev_close fd # mid @ [Ev_send fd
      (le32 (of_nat (28 + n)) @ le16 action @ le16 5 @ le32 0 @ le32 (word_of_int (os_getpid os)) @
       [word_of_int family, word_of_int plen, 0, 0] @ le32 (word_of_int idx) @
       le16 (of_nat (4 + n)) @ le16 2 @ take n bytes) sent, Ev_socket PF_NETLINK fd] @ trace s \<and>
    (sent < 0 \<and> mid = [] \<and> r = - errno s' \<or>
     0 \<le> sent \<and> (\<exists>len buf. mid = [Ev_recv fd len] \<and> r = (if len < 0 then - errno s' else parse_ack buf len)))"
proof -
  let ?addr = "if family = AF_INET then take 4 bytes else take 16 bytes"
  have a: "?addr = take n bytes" and l: "length (take n bytes) = n" "n = 4 \<or> n = 16"
    using assms(4,5) by auto
  have msg: "addr_msg action (os_getpid os) family plen idx ?addr =
      le32 (of_nat (28 + n)) @ le16 action @ le16 5 @ le32 0 @ le32 (word_of_int (os_getpid os)) @
       [word_of_int family, word_of_int plen, 0, 0] @ le32 (word_of_int idx) @
       le16 (of_nat (4 + n)) @ le16 2 @ take n bytes"
    unfolding a using addr_msg_layout [of "take n bytes"] l by simp
  have f: "\<not> (family \<noteq> AF_INET \<and> family \<noteq> AF_INET6)" using assms(4) by auto
  show ?thesis
    using assms(1-3,6) f unfolding msg [symmetric] ifc_act_on_address_def sys_nametoindex_def sys_socket_def
      sys_send_def sys_recv_def sys_close_def string_to_ip_def Let_def
    by (auto split: prod.splits if_splits)
qed

text \<open>What the return value can be when the address text is not numeric: the code of
  \<open>getaddrinfo\<close>, unchanged, before anything is sent. The comment above the function promises
  zero or a negative \<open>errno\<close>; the resolver's codes of the platform are positive.\<close>

lemma ifc_act_on_address_resolver_code:
  assumes "os_nametoindex os name (kern s) = (idx, e)" "idx \<noteq> 0" "os_addrinfo os str = Inl c"
  shows "\<exists>s'. run_state (ifc_act_on_address os action name str plen) s = (c, s') \<and> trace s' = trace s"
  using assms by (simp add: ifc_act_on_address_def sys_nametoindex_def string_to_ip_def)

subsection \<open>Putting the colons back\<close>

text \<open>The groups of four digits, joined by colons.\<close>

fun groups :: "string \<Rightarrow> string" where
  "groups (a # b # c # d # e # r) = [a, b, c, d] @ '':'' @ groups (e # r)"
| "groups r = r"

fun weave :: "nat \<Rightarrow> string \<Rightarrow> string" where
  "weave i [] = []"
| "weave i (c # cs) = c # (if i mod 4 = 3 then '':'' else []) @ weave (Suc i) cs"

lemma colon_loop_weave:
  "n \<le> 32 \<Longrightarrow> length raw = 32 \<Longrightarrow> colon_loop raw n out = out @ weave (32 - n) (drop (32 - n) raw)"
proof (induction n arbitrary: out)
  case (Suc n)
  have d: "drop (32 - Suc n) raw = raw ! (31 - n) # drop (32 - n) raw"
    using Suc.prems Cons_nth_drop_Suc [of "31 - n" raw] Suc_diff_le [of n 31] by simp
  have "Suc (32 - Suc n) = 32 - n" "32 - Suc n = 31 - n" using Suc.prems by simp_all
  then show ?case
    using Suc.IH Suc.prems unfolding d by (simp add: Let_def)
qed simp

lemma weave_groups: "4 dvd length xs \<Longrightarrow> i mod 4 = 0 \<Longrightarrow> butlast (weave i xs) = groups xs"
proof (induction xs arbitrary: i rule: groups.induct)
  case (1 a b c d e r)
  have m: "Suc i mod 4 = 1" "Suc (Suc i) mod 4 = 2" "Suc (Suc (Suc i)) mod 4 = 3" "Suc (Suc (Suc (Suc i))) mod 4 = 0"
    using 1(3) by (simp_all add: mod_Suc)
  have "4 dvd length (e # r)"
    using 1(2) dvd_diff_nat [of 4 "length (a # b # c # d # e # r)" 4] by simp
  from "1.IH" [OF this m(4)] show ?case
    using m 1(3) by simp
qed (simp_all add: mod_Suc dvd_eq_mod_eq_0)

lemma length_groups: "xs \<noteq> [] \<Longrightarrow> length (groups xs) = length xs + (length xs - 1) div 4"
  by (induction xs rule: groups.induct) (auto simp: div_if)

lemma filter_groups: "CHR '':'' \<notin> set xs \<Longrightarrow> filter (\<lambda>c. c \<noteq> CHR '':'') (groups xs) = xs"
  by (induction xs rule: groups.induct) auto

text \<open>The address text rebuilt from the 32 digits of \<open>/proc/net/if_inet6\<close>: groups of four
  joined by colons; 39 characters, so that with its terminator it fits \<open>addrstr\<close> (46 bytes); no
  digit is lost or moved.\<close>

lemma put_colons_groups:
  assumes "length raw = 32"
  shows "put_colons raw = groups raw \<and> length (put_colons raw) = 39 \<and>
    (CHR '':'' \<notin> set raw \<longrightarrow> filter (\<lambda>c. c \<noteq> CHR '':'') (put_colons raw) = raw)"
proof -
  have "put_colons raw = groups raw"
    using assms colon_loop_weave [of 32 raw "[]"] weave_groups [of raw 0] by (simp add: put_colons_def)
  moreover have "raw \<noteq> []" using assms by auto
  ultimately show ?thesis
    using assms length_groups [of raw] filter_groups [of raw] by simp
qed

subsection \<open>Routes\<close>

text \<open>The line of the routing table that a lookup is about, among those that parse.\<close>

definition parsed :: "route_line list \<Rightarrow> route_line list" where
  "parsed ls = takeWhile (\<lambda>l. rl_nread l = 11) ls"

definition is_default :: "string \<Rightarrow> route_line \<Rightarrow> bool" where
  "is_default ifname l \<longleftrightarrow> rl_flags l AND 3 = 3 \<and> rl_dest l = 0 \<and> rl_ifname l = ifname"

lemma default_route_loop_find:
  "default_route_loop ifname ls = (case find (is_default ifname) (parsed ls) of None \<Rightarrow> 0 | Some l \<Rightarrow> rl_gway l)"
  by (induction ls) (auto simp: parsed_def is_default_def)

definition is_host :: "string \<Rightarrow> route_line \<Rightarrow> bool" where
  "is_host name l \<longleftrightarrow> rl_flags l AND 5 = 5 \<and> rl_ifname l = name"

definition host_rt :: "string \<Rightarrow> route_line \<Rightarrow> rtentry" where
  "host_rt name l = \<lparr>rt_dst = init_sockaddr_in (rl_dest l) (replicate 16 0),
     rt_gateway = init_sockaddr_in (rl_gway l) (replicate 16 0),
     rt_genmask = init_sockaddr_in (rl_mask l) (replicate 16 0), rt_flags = 0, rt_dev = name\<rparr>"

definition ioctl_args :: "int \<Rightarrow> sys_event list \<Rightarrow> ioctl_arg list" where
  "ioctl_args cmd tr = [a. Ev_ioctl fd c a r e \<leftarrow> rev tr, c = cmd]"

lemma ioctl_args_simps [simp]:
  "ioctl_args cmd [] = []"
  "ioctl_args cmd (Ev_ioctl fd c a r e # tr) = ioctl_args cmd tr @ (if c = cmd then [a] else [])"
  "ioctl_args cmd (Ev_socket fam fd # tr) = ioctl_args cmd tr"
  "ioctl_args cmd (Ev_close fd # tr) = ioctl_args cmd tr"
  by (simp_all add: ioctl_args_def)

lemma init_args: "run_state (ifc_init os) s = (r, s') \<Longrightarrow> ioctl_args cmd (trace s') = ioctl_args cmd (trace s)"
  by (auto simp: ifc_init_def whenM_def sys_socket_def split: prod.splits if_splits)

lemma remove_loop_args:
  "run_state (remove_routes_loop os name ls) s = (r, s') \<Longrightarrow>
   ioctl_args SIOCDELRT (trace s') =
     ioctl_args SIOCDELRT (trace s) @ map (Arg_rt \<circ> host_rt name) (filter (is_host name) (parsed ls))"
proof (induction ls arbitrary: s)
  case Nil
  then show ?case by (simp add: parsed_def)
next
  case (Cons l ls)
  consider (stop) "rl_nread l \<noteq> 11" | (skip) "rl_nread l = 11" "\<not> is_host name l"
    | (del) "rl_nread l = 11" "is_host name l" by blast
  then show ?case
  proof cases
    case stop
    then show ?thesis using Cons.prems by (simp add: parsed_def)
  next
    case skip
    then show ?thesis using Cons by (auto simp: parsed_def is_host_def)
  next
    case del
    obtain q a e k where io: "os_ioctl os (ctl_sock s) SIOCDELRT (Arg_rt (host_rt name l)) (kern s) = (q, a, e, k)"
      by (rule prod_cases4)
    have "run_state (remove_routes_loop os name ls)
        (s\<lparr>errno := e, kern := k, trace := Ev_ioctl (ctl_sock s) SIOCDELRT (Arg_rt (host_rt name l)) q e # trace s\<rparr>) = (r, s')"
      using Cons.prems del io
      by (simp add: sys_ioctl_def is_host_def host_rt_def rtentry_zero_def Let_def)
    from Cons.IH [OF this] del show ?thesis by (simp add: parsed_def)
  qed
qed

text \<open>\<open>ifc_get_default_route\<close> answers the gateway of the first default route of the interface
  among the lines before the first one that does not parse, and 0 when there is none or the
  table cannot be read.\<close>

lemma ifc_get_default_route_first:
  "fst (run_state (ifc_get_default_route os ifname) s) =
    (case os_route os (kern s) of
       Some (Some ls) \<Rightarrow> (case find (is_default ifname) (parsed ls) of None \<Rightarrow> 0 | Some l \<Rightarrow> sint (rl_gway l))
     | _ \<Rightarrow> 0)"
  by (auto simp: ifc_get_default_route_def default_route_loop_find Let_def split: option.splits prod.splits)

text \<open>\<open>ifc_remove_host_routes\<close> asks the kernel to delete every host route of the interface that
  is up, in the order of the table and no other route, whatever the kernel answers to each.\<close>

lemma ifc_remove_host_routes_all:
  assumes "os_route os (kern s) = Some (Some ls)"
    and "run_state (ifc_remove_host_routes os name) s = (r, s')"
  shows "r = 0 \<and> ioctl_args SIOCDELRT (trace s') =
    ioctl_args SIOCDELRT (trace s) @ map (Arg_rt \<circ> host_rt name) (filter (is_host name) (parsed ls))"
proof -
  obtain i s1 where i: "run_state (ifc_init os) s = (i, s1)" by (rule prod.exhaust)
  obtain u s2 where l: "run_state (remove_routes_loop os name ls) s1 = (u, s2)" by (rule prod.exhaust)
  obtain v s3 where c: "run_state (ifc_close os) s2 = (v, s3)" by (rule prod.exhaust)
  have "r = 0" "s' = s3"
    using assms i l c by (simp_all add: ifc_remove_host_routes_def)
  then show ?thesis
    using init_args [OF i, of SIOCDELRT] remove_loop_args [OF l] run_close [OF c] by simp
qed

definition two_routes :: "route_line list" where
  "two_routes = [\<lparr>rl_nread = 11, rl_ifname = ''wlan0'', rl_dest = 0, rl_gway = 0x0100a8c0, rl_flags = 3, rl_mask = 0\<rparr>,
     \<lparr>rl_nread = 11, rl_ifname = ''wlan0'', rl_dest = 0x0900a8c0, rl_gway = 0, rl_flags = 5, rl_mask = 0xffffffff\<rparr>]"

lemma run_ipv4_route_closed:
  assumes "ctl_sock s = -1" "socket_doc os"
    and "run_state (ifc_act_on_ipv4_route os action name dst n gw) s = (r, s')"
  shows "\<exists>fd. if fd = -1 then r = - errno s' \<and> trace s' = Ev_socket AF_INET fd # trace s
    else \<exists>q e. trace s' = [Ev_close fd, Ev_ioctl fd action (Arg_rt (ipv4_rtentry name dst n gw)) q e,
        Ev_socket AF_INET fd] @ trace s \<and> r = (if q < 0 then if e = EEXIST then 0 else - e else q)"
proof -
  obtain fd e k where so: "os_socket os AF_INET (kern s) = (fd, e, k)" by (rule prod_cases3)
  let ?s1 = "s\<lparr>errno := e, kern := k, trace := Ev_socket AF_INET fd # trace s, ctl_sock := fd\<rparr>"
  have fd: "-1 \<le> fd" using so assms(2) by (rule socket_docD)
  have init: "run_state (ifc_init os) s = (if fd < 0 then -1 else 0, ?s1)"
    using assms(1) so by (simp add: ifc_init_def whenM_def sys_socket_def)
  show ?thesis
  proof (cases "fd = -1")
    case True
    then show ?thesis using assms(3) init
      by (intro exI [of _ fd]) (auto simp: ifc_act_on_ipv4_route_def Let_def)
  next
    case False
    then have fd0: "0 \<le> fd" using fd by simp
    have init1: "run_state (ifc_init os) ?s1 = (0, ?s1)" using fd0 by (simp add: ifc_init_def whenM_def)
    have "run_state (ifc_act_on_ipv4_route os action name dst n gw) ?s1 = (r, s')"
      using assms(3) init init1 by (simp add: ifc_act_on_ipv4_route_def Let_def)
    from run_ipv4_route [OF this] fd0 obtain q e where
      "trace s' = [Ev_close fd, Ev_ioctl fd action (Arg_rt (ipv4_rtentry name dst n gw)) q e] @ Ev_socket AF_INET fd # trace s"
      "r = (if q < 0 then if e = EEXIST then 0 else - e else q)" by auto
    then show ?thesis using False by (intro exI [of _ fd]) auto
  qed
qed

text \<open>adding or removing a route by text. A destination or gateway that is not numeric, a prefix
  length outside the family, or two families are refused with \<open>-EINVAL\<close> before any system call; an
  accepted IPv4 route is one request on a control socket that is closed again, and a route that
  already exists counts as added.\<close>

lemma ifc_act_on_route_ipv4:
  assumes "ctl_sock s = -1" "socket_doc os"
    and "run_state (ifc_act_on_route os action ifname dst n gw) s = (r, s')"
    and "\<And>e. os_addrinfo os dst = Inr e \<Longrightarrow> fst e = AF_INET"
  shows "(\<exists>d g. os_addrinfo os dst = Inr (AF_INET, d) \<and> 0 \<le> n \<and> n \<le> 32 \<and>
      os_addrinfo os (if gw = None \<or> gw = Some [] then ''0.0.0.0'' else the gw) = Inr (AF_INET, g) \<and>
      (\<exists>fd. if fd = -1 then r = - errno s' \<and> trace s' = Ev_socket AF_INET fd # trace s
        else \<exists>q e. trace s' = [Ev_close fd,
            Ev_ioctl fd action (Arg_rt (ipv4_rtentry ifname (of_le32 d) n (of_le32 g))) q e,
            Ev_socket AF_INET fd] @ trace s \<and>
          r = (if q < 0 then if e = EEXIST then 0 else - e else q))) \<or>
    r = - EINVAL \<and> s' = s"
proof -
  let ?g = "if gw = None \<or> gw = Some [] then ''0.0.0.0'' else the gw"
  have dg: "default_gw AF_INET gw = Some ?g" by (auto simp: default_gw_def)
  show ?thesis
  proof (cases "\<exists>d g. os_addrinfo os dst = Inr (AF_INET, d) \<and> 0 \<le> n \<and> n \<le> 32 \<and> os_addrinfo os ?g = Inr (AF_INET, g)")
    case True
    then obtain d g where h: "os_addrinfo os dst = Inr (AF_INET, d)" "0 \<le> n" "n \<le> 32" "os_addrinfo os ?g = Inr (AF_INET, g)"
      by blast
    then have "run_state (ifc_act_on_ipv4_route os action ifname (of_le32 d) n (of_le32 g)) s = (r, s')"
      using assms(3) by (simp add: ifc_act_on_route_def dg)
    from run_ipv4_route_closed [OF assms(1,2) this] h show ?thesis by blast
  next
    case False
    then have "run_state (ifc_act_on_route os action ifname dst n gw) s = (- EINVAL, s)"
      using assms(4) dg by (auto simp: ifc_act_on_route_def Let_def split: sum.splits prod.splits if_splits)
    then show ?thesis using assms(3) by simp
  qed
qed

end
