(* ===== verification/DhcpDump.thy ===== *)
theory DhcpDump
  imports DhcpInfo
begin

text \<open>
  The message dump of \<open>system/core/libnetutils/dhcpclient.c\<close> (\<open>hex2str\<close>, \<open>dump_dhcp_msg\<close>,
  \<open>dump_dhcp_info\<close>, \<open>dhcp_type_to_name\<close>). It is compiled in (\<open>VERBOSE\<close> is 2) and runs on every
  received message before the message is checked, and it writes to the message, so it is part of
  the client. The log is the list of lines. The stack buffer \<open>buf\<close> holds an undefined string
  until something is printed into it: \<open>None\<close>. A read of an undefined \<open>buf\<close> or outside the options
  makes the whole dump \<open>None\<close>.
\<close>

subsection \<open>Formatting\<close>

text \<open>The C string that starts a byte block: up to the first zero byte.\<close>

definition c_string :: "u8 list \<Rightarrow> string" where
  "c_string bs = map (\<lambda>b. char_of (unat b)) (takeWhile (\<lambda>b. b \<noteq> 0) bs)"

definition dhcp_type_to_name :: "u32 \<Rightarrow> string" where
  "dhcp_type_to_name type =
     (if type = 1 then ''discover''
      else if type = 2 then ''offer''
      else if type = 3 then ''request''
      else if type = 4 then ''decline''
      else if type = 5 then ''ack''
      else if type = 6 then ''nak''
      else if type = 7 then ''release''
      else if type = 8 then ''inform''
      else ''???'')"

definition ipaddr :: "u32 \<Rightarrow> string" where
  "ipaddr addr = inet_ntoa addr"

definition dump_dhcp_info :: "dhcp_info \<Rightarrow> string list" where
  "dump_dhcp_info info =
     [''--- dhcp '' @ dhcp_type_to_name (di_type info) @ '' ('' @ show_int (sint (di_type info)) @ '') ---'',
      ''ip '' @ ipaddr (di_ipaddr info) @ '' gw '' @ ipaddr (di_gateway info) @
      '' prefixLength '' @ show_int (sint (di_prefixLength info))] @
     (if di_dns1 info \<noteq> 0 then [''dns1: '' @ ipaddr (di_dns1 info)] else []) @
     (if di_dns2 info \<noteq> 0 then [''dns2: '' @ ipaddr (di_dns2 info)] else []) @
     [''server '' @ ipaddr (di_serveraddr info) @ '', lease '' @ show_int (sint (di_lease info)) @ '' seconds'']"

text \<open>\<open>hex2str\<close> prints into \<open>buf\<close>; an empty array leaves the buffer as it is.\<close>

definition hex2str :: "string option \<Rightarrow> u8 list \<Rightarrow> string option" where
  "hex2str buf array =
     (if array = [] then buf else Some (concat (map (\<lambda>b. '' '' @ hex_w 2 (unat b) @ '' '') array)))"

text \<open>The loops that replace unprintable characters, up to the first zero byte.\<close>

fun dots :: "u8 list \<Rightarrow> u8 list" where
  "dots [] = []"
| "dots (x # xs) =
     (if x < 32 \<or> x > 127 then if x = 0 then x # xs else 46 # dots xs else x # dots xs)"

subsection \<open>The dump\<close>

definition opt_text :: "u8 \<Rightarrow> string option \<Rightarrow> u8 list \<Rightarrow> string option" where
  "opt_text code buf dat = (if code = 15 \<or> code = 56 then Some (c_string dat) else hex2str buf dat)"

definition opt_name :: "u8 \<Rightarrow> u8 list \<Rightarrow> nat \<Rightarrow> string option" where
  "opt_name code opts x =
     (if code = 53 then map_option (\<lambda>b. dhcp_type_to_name (ucast b)) (rd opts x) else Some [])"

function dump_loop :: "u8 list \<Rightarrow> nat \<Rightarrow> int \<Rightarrow> string option \<Rightarrow> string list option" where
  "dump_loop opts x len buf =
     (if len > 2 then
        case rd opts x of
          None \<Rightarrow> None
        | Some code \<Rightarrow>
            if code = 0 then dump_loop opts (x + 1) (len - 1) buf
            else if code = 255 then Some []
            else case rd opts (x + 1) of
                None \<Rightarrow> None
              | Some l \<Rightarrow>
                  let len = len - 2; optsz = unat l in
                  if int optsz > len then Some []
                  else if \<not> (x + 2 + optsz \<le> length opts) then None
                  else
                    let dat = slice (x + 2) optsz opts;
                        buf = opt_text code buf dat
                    in case opt_name code opts (x + 2) of
                         None \<Rightarrow> None
                       | Some name \<Rightarrow>
                           case buf of
                             None \<Rightarrow> None
                           | Some txt \<Rightarrow>
                               map_option (\<lambda>ls. (''op '' @ show_nat (unat code) @ '' len '' @ show_nat optsz @
                                   '' {'' @ txt @ ''} '' @ name) # ls)
                                 (dump_loop opts (x + optsz + 2) (len - int optsz) buf)
      else Some [])"
  by pat_completeness auto
termination
  by (relation "measure (\<lambda>(opts, x, len, buf). nat len)")
    (auto intro: less_le_trans [OF _ unsigned_greater_eq])

declare dump_loop.simps [simp del]

definition dump_header :: "dhcp_msg \<Rightarrow> int \<Rightarrow> string list" where
  "dump_header msg len =
     (let name = (if dm_op msg = 1 then ''BOOTREQUEST'' else if dm_op msg = 2 then ''BOOTREPLY'' else ''????'')
      in [''op = '' @ name @ '' ('' @ show_nat (unat (dm_op msg)) @ ''), htype = '' @ show_nat (unat (dm_htype msg)) @
          '', hlen = '' @ show_nat (unat (dm_hlen msg)) @ '', hops = '' @ show_nat (unat (dm_hops msg)),
          ''xid = 0x'' @ hex_w 8 (unat (ntohl (dm_xid msg))) @ '' secs = '' @ show_nat (unat (ntohs (dm_secs msg))) @
          '', flags = 0x'' @ hex_w 4 (unat (ntohs (dm_flags msg))) @ '' optlen = '' @ show_int len,
          ''ciaddr = '' @ ipaddr (dm_ciaddr msg), ''yiaddr = '' @ ipaddr (dm_yiaddr msg),
          ''siaddr = '' @ ipaddr (dm_siaddr msg), ''giaddr = '' @ ipaddr (dm_giaddr msg)])"

definition dump_dhcp_msg :: "dhcp_msg \<Rightarrow> int \<Rightarrow> (dhcp_msg \<times> string list) option" where
  "dump_dhcp_msg msg len =
     (let log = [''===== DHCP message:''] in
      if len < 236 then
        Some (msg, log @ [''Invalid length '' @ show_int len @ '', should be 236''])
      else
        let len = len - 236;
            log = log @ dump_header msg len;
            c = (if unat (dm_hlen msg) > 16 then 16 else unat (dm_hlen msg));
            buf = hex2str None (take c (dm_chaddr msg))
        in case buf of
             None \<Rightarrow> None
           | Some txt \<Rightarrow>
               let log = log @ [''chaddr = {'' @ txt @ ''}''];
                   msg = msg\<lparr>dm_sname := (dots (dm_sname msg))[63 := 0]\<rparr>;
                   msg = msg\<lparr>dm_file := (dots (dm_file msg))[127 := 0]\<rparr>;
                   log = log @ [''sname = '' @ [CHR 0x27] @ c_string (dm_sname msg) @ [CHR 0x27],
                                ''file = '' @ [CHR 0x27] @ c_string (dm_file msg) @ [CHR 0x27]]
               in if len < 4 then Some (msg, log)
                  else map_option (\<lambda>ls. (msg, log @ ls)) (dump_loop (dm_options msg) 4 (len - 4) buf))"

subsection \<open>When the dump is defined\<close>

lemma length_dots [simp]: "length (dots xs) = length xs"
  by (induction xs) auto

text \<open>Each round of the loop keeps the rest of the message inside the options array and the buffer
  defined.\<close>

lemma dump_loop_defined:
  "int x + len \<le> int (length opts) \<Longrightarrow> \<exists>ls. dump_loop opts x len (Some buf) = Some ls"
proof (induction "nat len" arbitrary: x len buf rule: less_induct)
  case less
  note unf = dump_loop.simps [of opts x len]
  show ?case
  proof (cases "len > 2")
    case False
    then show ?thesis by (simp add: unf)
  next
    case True
    have in0: "x < length opts" "x + 1 < length opts" "x + 2 < length opts" using True less.prems by auto
    consider "opts ! x = 0" | "opts ! x = 255" | "opts ! x \<noteq> 0" "opts ! x \<noteq> 255" by blast
    then show ?thesis
    proof cases
      case 1
      then show ?thesis using True in0 less.hyps [of "len - 1" "x + 1" buf] less.prems by (simp add: unf)
    next
      case 2
      then show ?thesis using True in0 by (simp add: unf)
    next
      case 3
      let ?n = "unat (opts ! (x + 1))"
      show ?thesis
      proof (cases "int ?n > len - 2")
        case True
        then show ?thesis using 3 \<open>len > 2\<close> in0 by (simp add: unf Let_def)
      next
        case False
        then have fit: "x + 2 + ?n \<le> length opts" using less.prems by linarith
        have "\<exists>b. opt_text (opts ! x) (Some buf) (slice (x + 2) ?n opts) = Some b"
          by (simp add: opt_text_def hex2str_def)
        then obtain b where b: "opt_text (opts ! x) (Some buf) (slice (x + 2) ?n opts) = Some b" ..
        have "\<exists>nm. opt_name (opts ! x) opts (x + 2) = Some nm"
          using in0 by (simp add: opt_name_def)
        then obtain nm where nm: "opt_name (opts ! x) opts (x + 2) = Some nm" ..
        have "\<exists>ls. dump_loop opts (x + ?n + 2) (len - 2 - int ?n) (Some b) = Some ls"
          using less.prems True
          by (intro less.hyps) (auto intro: less_le_trans [OF _ unsigned_greater_eq])
        then show ?thesis
          using 3 True in0(1,2) False fit unfolding unf Let_def rd_in [OF in0(1)] rd_in [OF in0(2)]
          by (simp only: b nm option.case if_True if_False not_False_eq_True simp_thms option.map) auto
      qed
    qed
  qed
qed

lemma dump_defined:
  assumes "dhcp_msg_wf msg" "len \<le> 1260" "236 \<le> len \<Longrightarrow> dm_hlen msg \<noteq> 0"
  shows "\<exists>log. dump_dhcp_msg msg len = Some (if len < 236 then msg
    else msg\<lparr>dm_sname := (dots (dm_sname msg))[63 := 0], dm_file := (dots (dm_file msg))[127 := 0]\<rparr>, log)"
proof (cases "len < 236")
  case True
  then show ?thesis by (simp add: dump_dhcp_msg_def)
next
  case False
  let ?c = "if unat (dm_hlen msg) > 16 then 16 else unat (dm_hlen msg)"
  have "take ?c (dm_chaddr msg) \<noteq> []"
    using assms(1,3) False by (auto simp: dhcp_msg_wf_def unat_eq_0 unat_gt_0)
  then obtain tx where b: "hex2str None (take ?c (dm_chaddr msg)) = Some tx" by (simp add: hex2str_def)
  have "length (dm_options msg) = 1024" using assms(1) by (simp add: dhcp_msg_wf_def)
  then obtain ls where "dump_loop (dm_options msg) 4 (len - 236 - 4) (Some tx) = Some ls"
    using dump_loop_defined [of 4 "len - 236 - 4" "dm_options msg" tx] assms(2) by auto
  then show ?thesis
    using False by (simp add: dump_dhcp_msg_def b Let_def)
qed

text \<open>C8: when the dump of a received message is defined. Its own reads of the options stay inside
  the array for every length \<open>receive_packet\<close> returns, and it changes nothing but the two text
  fields; but a message that is long enough to be dumped and says that its hardware address is
  empty makes it print a buffer that nothing has written.\<close>

theorem dump_dhcp_msg_defined_iff:
  assumes "dhcp_msg_wf msg" "len \<le> 1260"
  shows "(\<exists>msg' log. dump_dhcp_msg msg len = Some (msg', log) \<and> dhcp_msg_wf msg' \<and>
      msg'\<lparr>dm_sname := dm_sname msg, dm_file := dm_file msg\<rparr> = msg) \<longleftrightarrow> len < 236 \<or> dm_hlen msg \<noteq> 0"
    (is "?l \<longleftrightarrow> ?r")
proof
  assume ?l
  then show ?r by (auto simp: dump_dhcp_msg_def hex2str_def Let_def)
next
  assume r: ?r
  then obtain log where "dump_dhcp_msg msg len = Some (if len < 236 then msg
    else msg\<lparr>dm_sname := (dots (dm_sname msg))[63 := 0], dm_file := (dots (dm_file msg))[127 := 0]\<rparr>, log)"
    using dump_defined [OF assms] by auto
  then show ?l using assms(1) by (auto simp: dhcp_msg_wf_def)
qed

theorem dump_dhcp_msg_defined_iff_witness:
  "\<not> (\<exists>msg' log. dump_dhcp_msg dhcp_msg_zero 240 = Some (msg', log) \<and> dhcp_msg_wf msg' \<and>
      msg'\<lparr>dm_sname := dm_sname dhcp_msg_zero, dm_file := dm_file dhcp_msg_zero\<rparr> = dhcp_msg_zero)"
  by (subst dump_dhcp_msg_defined_iff) (simp_all add: dhcp_msg_wf_def dhcp_msg_zero_def)

text \<open>The client's own messages are dumped without being changed.\<close>

lemma dots_zero [simp]: "dots (replicate n 0) = replicate n 0"
  by (cases n) auto

lemma dump_own_msg:
  assumes "length hw = 6"
  shows "\<exists>log. dump_dhcp_msg (fst (init_dhcp_discover_msg hw xid)) 250 = Some (fst (init_dhcp_discover_msg hw xid), log)"
    and "\<exists>log. dump_dhcp_msg (fst (init_dhcp_request_msg hw xid ip sv)) 262 = Some (fst (init_dhcp_request_msg hw xid ip sv), log)"
proof -
  have z: "(replicate 64 (0 :: u8))[63 := 0] = replicate 64 0" "(replicate 128 (0 :: u8))[127 := 0] = replicate 128 0"
    using list_update_id [of "replicate 64 (0 :: u8)" 63] list_update_id [of "replicate 128 (0 :: u8)" 127] by simp_all
  have s: "dm_sname (fst (init_dhcp_discover_msg hw xid)) = replicate 64 0"
    "dm_file (fst (init_dhcp_discover_msg hw xid)) = replicate 128 0"
    "dm_sname (fst (init_dhcp_request_msg hw xid ip sv)) = replicate 64 0"
    "dm_file (fst (init_dhcp_request_msg hw xid ip sv)) = replicate 128 0"
    using assms by (simp_all add: init_discover_eq init_request_eq init_dhcp_msg_eq dhcp_msg_zero_def)
  have same: "m\<lparr>dm_sname := (dots (dm_sname m))[63 := 0], dm_file := (dots (dm_file m))[127 := 0]\<rparr> = m"
    if "dm_sname m = replicate 64 0" "dm_file m = replicate 128 0" for m :: dhcp_msg
    using that z by (simp only: dots_zero) (cases m, simp)
  show "\<exists>log. dump_dhcp_msg (fst (init_dhcp_discover_msg hw xid)) 250 = Some (fst (init_dhcp_discover_msg hw xid), log)"
    using dump_defined [OF init_msg_wf(1) [OF assms, of xid], of 250] unfolding same [OF s(1,2)] by simp
  show "\<exists>log. dump_dhcp_msg (fst (init_dhcp_request_msg hw xid ip sv)) 262 = Some (fst (init_dhcp_request_msg hw xid ip sv), log)"
    using dump_defined [OF init_msg_wf(2) [OF assms, of xid ip sv], of 262] unfolding same [OF s(3,4)] by simp
qed

end
