(* ===== verification/DhcpClient.thy ===== *)
theory DhcpClient
  imports DhcpDump IfcConfig
begin

text \<open>
  The client state machine of \<open>system/core/libnetutils/dhcpclient.c\<close> (\<open>dhcp_init_ifc\<close>): the loop
  around \<open>poll\<close>, with its two states, the timeout that doubles, the retransmissions and the
  replies. The environment is the sequence of what \<open>poll\<close> and \<open>read\<close> answer. A step is one round
  of the loop; \<open>dhcp_run\<close> iterates it over a sequence of answers.
\<close>

subsection \<open>State and events\<close>

datatype dhcp_state = STATE_SELECTING | STATE_REQUESTING

record dhcp =
  dc_hwaddr :: "u8 list"
  dc_ifindex :: int
  dc_xid :: u32
  dc_state :: dhcp_state
  dc_timeout :: nat
  dc_info :: dhcp_info
  dc_discover :: dhcp_msg
  dc_request :: dhcp_msg
  dc_reply :: dhcp_msg
  dc_sent :: "msghdr list"

text \<open>
  What one \<open>poll\<close> gives: nothing until the timeout, an error, or a frame, with the content of the
  1288-byte read buffer, the value \<open>read\<close> returned and \<open>errno\<close>.
\<close>

datatype poll_event = Timeout | Poll_error int | Frame "u8 list" int int

text \<open>
  Where a round leads: on with the loop; a return, with whether the packet socket was closed before
  it; the call of \<open>dhcp_configure\<close> whose value is returned, likewise; or undefined behaviour.
\<close>

datatype dhcp_out = Running dhcp | Return int bool | Configure dhcp_info bool | Undefined

abbreviation TIMEOUT_INITIAL :: nat where "TIMEOUT_INITIAL \<equiv> 4000"
abbreviation TIMEOUT_MAX :: nat where "TIMEOUT_MAX \<equiv> 32000"
abbreviation EAGAIN :: int where "EAGAIN \<equiv> 11"
abbreviation EINTR :: int where "EINTR \<equiv> 4"
abbreviation ENETDOWN :: int where "ENETDOWN \<equiv> 100"

subsection \<open>Sending\<close>

text \<open>\<open>send_message\<close> dumps the message and sends it from port 68 to port 67, by broadcast.\<close>

definition send_message :: "int \<Rightarrow> dhcp_msg \<Rightarrow> int \<Rightarrow> (dhcp_msg \<times> msghdr) option" where
  "send_message if_index msg n =
     map_option (\<lambda>(msg, _). (msg, send_packet if_index (dhcp_msg_bytes msg) (nat n) 0 0xffffffff 68 67))
       (dump_dhcp_msg msg n)"

definition transmit :: "dhcp \<Rightarrow> dhcp_out" where
  "transmit d =
     (case dc_state d of
        STATE_SELECTING \<Rightarrow>
          (let (msg, n) = init_dhcp_discover_msg (dc_hwaddr d) (dc_xid d)
           in case send_message (dc_ifindex d) msg n of
                None \<Rightarrow> Undefined
              | Some (msg, m) \<Rightarrow> Running (d\<lparr>dc_discover := msg, dc_sent := m # dc_sent d\<rparr>))
      | STATE_REQUESTING \<Rightarrow>
          (let (msg, n) = init_dhcp_request_msg (dc_hwaddr d) (dc_xid d) (di_ipaddr (dc_info d))
                 (di_serveraddr (dc_info d))
           in case send_message (dc_ifindex d) msg n of
                None \<Rightarrow> Undefined
              | Some (msg, m) \<Rightarrow> Running (d\<lparr>dc_request := msg, dc_sent := m # dc_sent d\<rparr>)))"

subsection \<open>One round\<close>

definition on_timeout :: "dhcp \<Rightarrow> dhcp_out" where
  "on_timeout d =
     (if dc_timeout d \<ge> TIMEOUT_MAX then
        if di_type (dc_info d) = 2 then Configure (dc_info d) False else Return (-1) True
      else transmit (d\<lparr>dc_timeout := dc_timeout d * 2\<rparr>))"

text \<open>A message of \<open>r\<close> bytes was received into \<open>reply\<close>: dump, decode into \<open>info\<close>, check, act.\<close>

definition on_reply :: "dhcp \<Rightarrow> dhcp_msg \<Rightarrow> int \<Rightarrow> dhcp_out" where
  "on_reply d reply r =
     (case dump_dhcp_msg reply r of
        None \<Rightarrow> Undefined
      | Some (reply, _) \<Rightarrow>
          case decode_dhcp_msg reply r of
            None \<Rightarrow> Undefined
          | Some (_, info) \<Rightarrow>
              let d = d\<lparr>dc_reply := reply, dc_info := info\<rparr>;
                  valid_reply =
                    (case dc_state d of
                       STATE_SELECTING \<Rightarrow> is_valid_reply (dc_discover d) reply r
                     | STATE_REQUESTING \<Rightarrow> is_valid_reply (dc_request d) reply r)
              in if \<not> valid_reply then Running d
                 else case dc_state d of
                     STATE_SELECTING \<Rightarrow>
                       if di_type info = 2 then
                         transmit (d\<lparr>dc_state := STATE_REQUESTING, dc_timeout := TIMEOUT_INITIAL,
                                     dc_xid := dc_xid d + 1\<rparr>)
                       else Running d
                   | STATE_REQUESTING \<Rightarrow>
                       if di_type info = 5 then Configure info True
                       else if di_type info = 6 then Return (-1) True
                       else Running d)"

definition dhcp_step :: "dhcp \<Rightarrow> poll_event \<Rightarrow> dhcp_out" where
  "dhcp_step d ev =
     (case ev of
        Timeout \<Rightarrow> on_timeout d
      | Poll_error e \<Rightarrow> if e = EAGAIN \<or> e = EINTR then Running d else Return (-1) False
      | Frame packet nread e \<Rightarrow>
          case receive_packet packet nread (dhcp_msg_bytes (dc_reply d)) of
            Recv_fail \<Rightarrow>
              if nread < 0 \<and> e \<noteq> 0 \<and> (e = ENETDOWN \<or> e = ENXIO) then Return (-1) False else Running d
          | Recv_overrun _ \<Rightarrow> Undefined
          | Recv_ok r bytes \<Rightarrow> on_reply d (dhcp_msg_of bytes) r)"

fun dhcp_run :: "dhcp \<Rightarrow> poll_event list \<Rightarrow> dhcp_out" where
  "dhcp_run d [] = Running d"
| "dhcp_run d (ev # evs) = (case dhcp_step d ev of Running d' \<Rightarrow> dhcp_run d' evs | res \<Rightarrow> res)"

text \<open>
  Entry of the loop: the fields are set and the first message is transmitted. \<open>info\<close> is an
  uninitialised local of which only \<open>type\<close> is set; \<open>reply\<close> and \<open>request_msg\<close> are uninitialised.
\<close>

definition dhcp_enter :: "u8 list \<Rightarrow> int \<Rightarrow> u32 \<Rightarrow> dhcp_info \<Rightarrow> dhcp_msg \<Rightarrow> dhcp_msg \<Rightarrow> dhcp_out" where
  "dhcp_enter hwaddr if_index xid info request reply =
     transmit \<lparr>dc_hwaddr = hwaddr, dc_ifindex = if_index, dc_xid = xid, dc_state = STATE_SELECTING,
       dc_timeout = TIMEOUT_INITIAL, dc_info = info\<lparr>di_type := 0\<rparr>, dc_discover = request,
       dc_request = request, dc_reply = reply, dc_sent = []\<rparr>"

subsection \<open>The whole function\<close>

text \<open>\<open>get_msecs\<close>: the clock in milliseconds, in 64 bits.\<close>

definition get_msecs :: "(u64 \<times> u64) option \<Rightarrow> u64" where
  "get_msecs ts = (case ts of None \<Rightarrow> 0 | Some (sec, nsec) \<Rightarrow> sec * 1000 + nsec div 1000000)"

text \<open>\<open>dhcp_configure\<close> returns the new \<open>last_good_info\<close> with its result; \<open>get_dhcp_info\<close> reads it.\<close>

definition dhcp_configure :: "'k os \<Rightarrow> string \<Rightarrow> dhcp_info \<Rightarrow> ('k, int \<times> dhcp_info) prog" where
  "dhcp_configure os ifname info = do {
     r \<leftarrow> ifc_configure os ifname (di_ipaddr info) (di_prefixLength info) (di_gateway info)
            (di_dns1 info) (di_dns2 info);
     ret (r, info) }"

definition get_dhcp_info :: "dhcp_info \<Rightarrow> u32 \<times> u32 \<times> u32 \<times> u32 \<times> u32 \<times> u32 \<times> u32" where
  "get_dhcp_info last_good_info =
     (di_ipaddr last_good_info, di_gateway last_good_info, di_prefixLength last_good_info,
      di_dns1 last_good_info, di_dns2 last_good_info, di_serveraddr last_good_info, di_lease last_good_info)"

text \<open>
  The environment of one call: the clock, the answers of \<open>socket\<close> and \<open>bind\<close> for the packet socket,
  the uninitialised locals, and the answers of \<open>poll\<close> and \<open>read\<close>.
\<close>

record dhcp_env =
  ev_clock :: "(u64 \<times> u64) option"
  ev_sock :: int
  ev_bind :: "int \<Rightarrow> sockaddr_ll \<Rightarrow> int"
  ev_info :: dhcp_info
  ev_request :: dhcp_msg
  ev_reply :: dhcp_msg
  ev_polls :: "poll_event list"

text \<open>
  The result is \<open>None\<close> when the answers end before the loop does or the behaviour is undefined,
  and otherwise the returned value with \<open>last_good_info\<close>.
\<close>

definition dhcp_init_ifc ::
  "'k os \<Rightarrow> dhcp_env \<Rightarrow> dhcp_info \<Rightarrow> string \<Rightarrow> ('k, (int \<times> dhcp_info) option) prog" where
  "dhcp_init_ifc os env last_good_info ifname = do {
     let xid = ucast (get_msecs (ev_clock env));
     (r, hwaddr) \<leftarrow> ifc_get_hwaddr os ifname;
     (if r \<noteq> 0 then ret (Some (-1, last_good_info))
      else do {
        (r, if_index) \<leftarrow> ifc_get_ifindex os ifname;
        (if r \<noteq> 0 then ret (Some (-1, last_good_info))
         else do {
           let (s, _) = open_raw_socket (ev_sock env) (ev_bind env) (the hwaddr) (the if_index);
           (case dhcp_enter (the hwaddr) (the if_index) xid (ev_info env) (ev_request env) (ev_reply env) of
              Running d \<Rightarrow>
                (case dhcp_run d (ev_polls env) of
                   Return v _ \<Rightarrow> ret (Some (v, last_good_info))
                 | Configure info _ \<Rightarrow> do { r \<leftarrow> dhcp_configure os ifname info; ret (Some r) }
                 | _ \<Rightarrow> ret None)
            | _ \<Rightarrow> ret None) }) }) }"

definition do_dhcp ::
  "'k os \<Rightarrow> dhcp_env \<Rightarrow> dhcp_info \<Rightarrow> string \<Rightarrow> ('k, (int \<times> dhcp_info) option) prog" where
  "do_dhcp os env last_good_info iname = do {
     r \<leftarrow> ifc_set_addr os iname 0;
     (if r \<noteq> 0 then ret (Some (-1, last_good_info))
      else do {
        r \<leftarrow> ifc_up os iname;
        (if r \<noteq> 0 then ret (Some (-1, last_good_info))
         else dhcp_init_ifc os env last_good_info iname) }) }"

subsection \<open>Sending never fails\<close>

lemma init_pairs:
  assumes "length hw = 6"
  shows "init_dhcp_discover_msg hw xid = (fst (init_dhcp_discover_msg hw xid), 250)"
    and "init_dhcp_request_msg hw xid ip sv = (fst (init_dhcp_request_msg hw xid ip sv), 262)"
  using assms by (simp_all add: init_discover_eq init_request_eq)

definition wire :: "dhcp \<Rightarrow> dhcp_msg \<Rightarrow> nat \<Rightarrow> msghdr" where
  "wire d msg n = send_packet (dc_ifindex d) (dhcp_msg_bytes msg) n 0 0xffffffff 68 67"

lemma transmit_selecting:
  assumes "length (dc_hwaddr d) = 6" "dc_state d = STATE_SELECTING"
  defines "m \<equiv> fst (init_dhcp_discover_msg (dc_hwaddr d) (dc_xid d))"
  shows "transmit d = Running (d\<lparr>dc_discover := m, dc_sent := wire d m 250 # dc_sent d\<rparr>)"
proof -
  obtain log where log: "dump_dhcp_msg m 250 = Some (m, log)"
    using dump_own_msg(1) [OF assms(1)] unfolding m_def by blast
  have i: "init_dhcp_discover_msg (dc_hwaddr d) (dc_xid d) = (m, 250)"
    unfolding m_def using assms(1) by (rule init_pairs)
  show ?thesis
    unfolding transmit_def send_message_def i by (simp add: log assms(2) wire_def)
qed

lemma transmit_requesting:
  assumes "length (dc_hwaddr d) = 6" "dc_state d = STATE_REQUESTING"
  defines "m \<equiv> fst (init_dhcp_request_msg (dc_hwaddr d) (dc_xid d) (di_ipaddr (dc_info d)) (di_serveraddr (dc_info d)))"
  shows "transmit d = Running (d\<lparr>dc_request := m, dc_sent := wire d m 262 # dc_sent d\<rparr>)"
proof -
  obtain log where log: "dump_dhcp_msg m 262 = Some (m, log)"
    using dump_own_msg(2) [OF assms(1)] unfolding m_def by blast
  have i: "init_dhcp_request_msg (dc_hwaddr d) (dc_xid d) (di_ipaddr (dc_info d)) (di_serveraddr (dc_info d)) = (m, 262)"
    unfolding m_def using assms(1) by (rule init_pairs)
  show ?thesis
    unfolding transmit_def send_message_def i by (simp add: log assms(2) wire_def)
qed

subsection \<open>The invariant\<close>

text \<open>
  In every round: the timeout is one of four values; the messages kept are the ones built from the
  hardware address and the transaction id, the DISCOVER with the id before the increment.
  \<open>rounds\<close> counts the timeouts that can still pass; it starts at 7. \<open>sends\<close> is a bound on the
  messages still to be sent.
\<close>

definition tries :: "nat \<Rightarrow> nat" where
  "tries t = (if t = 4000 then 4 else if t = 8000 then 3 else if t = 16000 then 2 else 1)"

definition rounds :: "dhcp \<Rightarrow> nat" where
  "rounds d = tries (dc_timeout d) + (case dc_state d of STATE_SELECTING \<Rightarrow> 3 | STATE_REQUESTING \<Rightarrow> 0)"

definition sends :: "dhcp \<Rightarrow> nat" where
  "sends d = tries (dc_timeout d) - 1 + (case dc_state d of STATE_SELECTING \<Rightarrow> 4 | STATE_REQUESTING \<Rightarrow> 0)"

definition dhcp_ok :: "dhcp \<Rightarrow> bool" where
  "dhcp_ok d \<longleftrightarrow> length (dc_hwaddr d) = 6 \<and> dhcp_msg_wf (dc_reply d) \<and>
     dc_timeout d \<in> {4000, 8000, 16000, 32000} \<and>
     length (dc_sent d) + sends d \<le> 8 \<and>
     (case dc_state d of
        STATE_SELECTING \<Rightarrow> dc_discover d = fst (init_dhcp_discover_msg (dc_hwaddr d) (dc_xid d))
      | STATE_REQUESTING \<Rightarrow> dc_discover d = fst (init_dhcp_discover_msg (dc_hwaddr d) (dc_xid d - 1)) \<and>
          (\<exists>ip sv. dc_request d = fst (init_dhcp_request_msg (dc_hwaddr d) (dc_xid d) ip sv)))"

text \<open>How state and transaction id change in one round.\<close>

definition phase :: "dhcp \<Rightarrow> dhcp \<Rightarrow> bool" where
  "phase d d' \<longleftrightarrow> dc_state d' = dc_state d \<and> dc_xid d' = dc_xid d \<or>
     dc_state d = STATE_SELECTING \<and> dc_state d' = STATE_REQUESTING \<and> dc_xid d' = dc_xid d + 1"

text \<open>What a received frame leaves in the caller's buffer.\<close>

lemma receive_ok_size:
  assumes "receive_packet p nread old = Recv_ok r bytes" "length old = 1260"
  shows "0 \<le> r" "r \<le> 1260" "length bytes = 1260"
proof -
  have r: "0 \<le> r \<and> r \<le> 1260 \<and> bytes = write_at 0 (slice 28 (nat r) p) old"
    using assms(1) by (auto simp: receive_packet_def DHCP_MSG_SIZE_def Let_def split: if_splits)
  then show "0 \<le> r" "r \<le> 1260" by auto
  have "length (slice 28 (nat r) p) \<le> 1260" using r by (simp add: min_le_iff_disj nat_le_iff)
  then show "length bytes = 1260" using r assms(2) by (simp add: write_at_def)
qed

lemma dhcp_msg_of_wf: "length bytes = 1260 \<Longrightarrow> dhcp_msg_wf (dhcp_msg_of bytes)"
  by (simp add: dhcp_msg_of_def dhcp_msg_wf_def)

lemma dump_wf: "dump_dhcp_msg m r = Some (m', log) \<Longrightarrow> dhcp_msg_wf m \<Longrightarrow> dhcp_msg_wf m'"
  by (auto simp: dump_dhcp_msg_def dhcp_msg_wf_def Let_def split: if_splits option.splits)

lemma on_reply_ok:
  assumes "dhcp_ok d" "dhcp_msg_wf reply" "on_reply d reply r = Running d'"
  shows "dhcp_ok d' \<and> dc_hwaddr d' = dc_hwaddr d \<and> rounds d' \<le> rounds d \<and> phase d d'"
proof -
  obtain m log where m: "dump_dhcp_msg reply r = Some (m, log)"
    using assms(3) by (auto simp: on_reply_def split: option.splits)
  obtain v info where i: "decode_dhcp_msg m r = Some (v, info)"
    using assms(3) m by (auto simp: on_reply_def split: option.splits)
  have wf: "dhcp_msg_wf m" using m assms(2) by (rule dump_wf)
  let ?d = "d\<lparr>dc_reply := m, dc_info := info\<rparr>"
  have same: "dhcp_ok ?d \<and> dc_hwaddr ?d = dc_hwaddr d \<and> rounds ?d \<le> rounds d \<and> phase d ?d"
    using assms(1) wf by (cases "dc_state d") (simp_all add: dhcp_ok_def rounds_def sends_def phase_def)
  show ?thesis
  proof (cases "d' = ?d")
    case True
    then show ?thesis using same by simp
  next
    case False
    then have sel: "dc_state d = STATE_SELECTING" and
      tr: "transmit (?d\<lparr>dc_state := STATE_REQUESTING, dc_timeout := TIMEOUT_INITIAL, dc_xid := dc_xid d + 1\<rparr>) = Running d'"
      using assms(3) m i by (auto simp: on_reply_def Let_def split: if_splits dhcp_state.splits)
    then show ?thesis
      using assms(1) wf transmit_requesting [of "?d\<lparr>dc_state := STATE_REQUESTING, dc_timeout := TIMEOUT_INITIAL, dc_xid := dc_xid d + 1\<rparr>"]
      by (auto simp: dhcp_ok_def rounds_def sends_def tries_def phase_def)
  qed
qed

lemma on_timeout_ok:
  assumes "dhcp_ok d" "on_timeout d = Running d'"
  shows "dhcp_ok d' \<and> dc_hwaddr d' = dc_hwaddr d \<and> rounds d' < rounds d \<and> phase d d'"
proof -
  have t: "dc_timeout d \<in> {4000, 8000, 16000}"
    using assms by (auto simp: dhcp_ok_def on_timeout_def split: if_splits)
  let ?d = "d\<lparr>dc_timeout := dc_timeout d * 2\<rparr>"
  have tr: "transmit ?d = Running d'"
    using assms(2) t by (auto simp: on_timeout_def)
  have tm: "dc_timeout d * 2 \<in> {4000, 8000, 16000, 32000}" "tries (dc_timeout d) = Suc (tries (dc_timeout d * 2))"
    "0 < tries (dc_timeout d * 2)"
    using t by (auto simp: tries_def)
  have hw: "length (dc_hwaddr ?d) = 6" using assms(1) by (simp add: dhcp_ok_def)
  show ?thesis
  proof (cases "dc_state d")
    case STATE_SELECTING
    then have "d' = ?d\<lparr>dc_discover := dc_discover d, dc_sent := wire ?d (dc_discover d) 250 # dc_sent d\<rparr>"
      using tr transmit_selecting [OF hw] assms(1) by (simp add: dhcp_ok_def)
    then show ?thesis
      using assms(1) tm STATE_SELECTING by (simp add: dhcp_ok_def rounds_def sends_def phase_def)
  next
    case STATE_REQUESTING
    let ?m = "fst (init_dhcp_request_msg (dc_hwaddr d) (dc_xid d) (di_ipaddr (dc_info d)) (di_serveraddr (dc_info d)))"
    have "d' = ?d\<lparr>dc_request := ?m, dc_sent := wire ?d ?m 262 # dc_sent d\<rparr>"
      using tr transmit_requesting [OF hw] STATE_REQUESTING by simp
    then show ?thesis
      using assms(1) tm STATE_REQUESTING by (auto simp: dhcp_ok_def rounds_def sends_def phase_def)
  qed
qed

lemma dhcp_step_ok:
  assumes "dhcp_ok d" "dhcp_step d ev = Running d'"
  shows "dhcp_ok d' \<and> dc_hwaddr d' = dc_hwaddr d \<and> rounds d' \<le> rounds d \<and> (ev = Timeout \<longrightarrow> rounds d' < rounds d) \<and>
    phase d d'"
proof (cases ev)
  case Timeout
  then show ?thesis using on_timeout_ok [OF assms(1)] assms(2) by (auto simp: dhcp_step_def)
next
  case (Poll_error e)
  then show ?thesis using assms by (auto simp: dhcp_step_def phase_def split: if_splits)
next
  case (Frame p nread e)
  have l: "length (dhcp_msg_bytes (dc_reply d)) = 1260" using assms(1) by (simp add: dhcp_ok_def)
  show ?thesis
  proof (cases "receive_packet p nread (dhcp_msg_bytes (dc_reply d))")
    case (Recv_ok r bytes)
    then have "on_reply d (dhcp_msg_of bytes) r = Running d'" using assms(2) Frame by (simp add: dhcp_step_def)
    then show ?thesis
      using on_reply_ok [OF assms(1) dhcp_msg_of_wf [OF receive_ok_size(3) [OF Recv_ok l]]] Frame by auto
  qed (use assms Frame in \<open>auto simp: dhcp_step_def phase_def split: if_splits\<close>)
qed

text \<open>The reachable states of one call, as an inductive relation, and its case rules.\<close>

inductive dhcp_reach :: "dhcp \<Rightarrow> dhcp \<Rightarrow> bool" for d0 where
  reach_start: "dhcp_reach d0 d0"
| reach_step: "dhcp_reach d0 d \<Longrightarrow> dhcp_step d ev = Running d' \<Longrightarrow> dhcp_reach d0 d'"

inductive_cases dhcp_reachE: "dhcp_reach d0 d"

lemma dhcp_reach_ok: "dhcp_reach d0 d \<Longrightarrow> dhcp_ok d0 \<Longrightarrow> dhcp_ok d \<and> dc_hwaddr d = dc_hwaddr d0 \<and> rounds d \<le> rounds d0"
  by (induction rule: dhcp_reach.induct) (auto dest: dhcp_step_ok)

lemma dhcp_enter_ok:
  assumes "length hw = 6" "dhcp_msg_wf reply"
  shows "\<exists>d. dhcp_enter hw ifx xid info request reply = Running d \<and> dhcp_ok d \<and> dc_hwaddr d = hw \<and>
    dc_xid d = xid \<and> dc_state d = STATE_SELECTING \<and> dc_timeout d = 4000 \<and> dc_reply d = reply \<and> rounds d = 7 \<and>
    dc_info d = info\<lparr>di_type := 0\<rparr> \<and> dc_ifindex d = ifx"
  using assms unfolding dhcp_enter_def
  by (subst transmit_selecting) (auto simp: dhcp_ok_def rounds_def sends_def tries_def)

lemma dhcp_run_running:
  "dhcp_run d evs = Running d' \<Longrightarrow> dhcp_ok d \<Longrightarrow>
   dhcp_ok d' \<and> dhcp_reach d d' \<and> rounds d' + length (filter (\<lambda>ev. ev = Timeout) evs) \<le> rounds d"
proof (induction evs arbitrary: d)
  case Nil
  then show ?case by (auto intro: reach_start)
next
  case (Cons ev evs)
  then obtain d1 where s: "dhcp_step d ev = Running d1" and r: "dhcp_run d1 evs = Running d'"
    by (auto split: dhcp_out.splits)
  note ok = dhcp_step_ok [OF Cons.prems(2) s]
  have "dhcp_reach d1 d' \<Longrightarrow> dhcp_reach d d'"
    by (induction rule: dhcp_reach.induct) (auto intro: dhcp_reach.intros s)
  then show ?case using Cons.IH [OF r] ok by auto
qed

lemma dhcp_reach_xid:
  "dhcp_reach d0 d \<Longrightarrow> dhcp_ok d0 \<Longrightarrow> dc_state d0 = STATE_SELECTING \<Longrightarrow>
   dc_xid d = (case dc_state d of STATE_SELECTING \<Rightarrow> dc_xid d0 | STATE_REQUESTING \<Rightarrow> dc_xid d0 + 1)"
proof (induction rule: dhcp_reach.induct)
  case (reach_step d ev d')
  then have "phase d d'" using dhcp_reach_ok dhcp_step_ok by blast
  then show ?case using reach_step by (auto simp: phase_def split: dhcp_state.splits)
qed simp

lemma dhcp_msg_zero_wf: "dhcp_msg_wf dhcp_msg_zero"
  by (simp add: dhcp_msg_wf_def dhcp_msg_zero_def)

text \<open>A call for the concrete instances.\<close>

lemma example_enter:
  "\<exists>d. dhcp_enter [1, 2, 3, 4, 5, 6] 2 77 dhcp_info_zero dhcp_msg_zero dhcp_msg_zero = Running d"
  using dhcp_enter_ok [OF _ dhcp_msg_zero_wf, of "[1, 2, 3, 4, 5, 6]"] by force

lemma transmit_out: "transmit d \<noteq> Configure info cl" "transmit d \<noteq> Return v cl"
  by (auto simp: transmit_def split: dhcp_state.splits prod.splits option.splits)

lemma on_reply_configure:
  assumes "on_reply d m r = Configure info cl"
  shows "\<exists>reply log v. cl \<and> dc_state d = STATE_REQUESTING \<and> di_type info = 5 \<and>
    dump_dhcp_msg m r = Some (reply, log) \<and> decode_dhcp_msg reply r = Some (v, info) \<and>
    is_valid_reply (dc_request d) reply r"
  using assms
  by (auto simp: on_reply_def Let_def transmit_out split: option.splits if_splits dhcp_state.splits)

subsection \<open>Properties of the client\<close>

text \<open>C9: what holds in every state the loop can reach, whatever frames arrive: the timeout is one of
  four values, at most eight messages have been sent, the DISCOVER carries the hardware address
  and the transaction id of the call, and in the second state the REQUEST carries the id
  incremented by one.\<close>

theorem dhcp_reachable_states:
  assumes "dhcp_enter hw ifx xid info request reply = Running d0" "length hw = 6" "dhcp_msg_wf reply"
    and "dhcp_reach d0 d"
  shows "dc_timeout d \<in> {4000, 8000, 16000, 32000} \<and> 1 \<le> rounds d \<and> rounds d \<le> 7 \<and> length (dc_sent d) \<le> 8 \<and>
    dc_discover d = fst (init_dhcp_discover_msg hw xid) \<and>
    (dc_state d = STATE_REQUESTING \<longrightarrow> (\<exists>ip sv. dc_request d = fst (init_dhcp_request_msg hw (xid + 1) ip sv)))"
proof -
  have d0: "dhcp_ok d0" "dc_hwaddr d0 = hw" "dc_xid d0 = xid" "dc_state d0 = STATE_SELECTING" "rounds d0 = 7"
    using dhcp_enter_ok [OF assms(2,3), of ifx xid info request] assms(1) by auto
  have ok: "dhcp_ok d" "dc_hwaddr d = hw" "rounds d \<le> 7"
    using dhcp_reach_ok [OF assms(4) d0(1)] d0 by auto
  have x: "dc_xid d = (case dc_state d of STATE_SELECTING \<Rightarrow> xid | STATE_REQUESTING \<Rightarrow> xid + 1)"
    using dhcp_reach_xid [OF assms(4) d0(1,4)] unfolding d0(3) .
  have "1 \<le> rounds d" by (simp add: rounds_def tries_def)
  with ok x show ?thesis
    by (auto simp: dhcp_ok_def split: dhcp_state.splits)
qed

theorem dhcp_reachable_states_witness:
  "\<exists>d. dhcp_enter [1, 2, 3, 4, 5, 6] 2 77 dhcp_info_zero dhcp_msg_zero dhcp_msg_zero = Running d \<and>
     dc_discover d = fst (init_dhcp_discover_msg [1, 2, 3, 4, 5, 6] 77) \<and> length (dc_sent d) \<le> 8"
proof -
  obtain d where d: "dhcp_enter [1, 2, 3, 4, 5, 6] 2 77 dhcp_info_zero dhcp_msg_zero dhcp_msg_zero = Running d"
    using example_enter ..
  have h: "length [1, 2, 3, 4, 5, 6 :: u8] = 6" by simp
  from dhcp_reachable_states [OF d h dhcp_msg_zero_wf reach_start] d show ?thesis by blast
qed

text \<open>C10: the client gives up. A run that has seen seven timeouts is over, whatever came between
  them; in the loop as such nothing else bounds it, since every frame restarts the wait.\<close>

theorem dhcp_gives_up:
  assumes "dhcp_enter hw ifx xid info request reply = Running d0" "length hw = 6" "dhcp_msg_wf reply"
    and "7 \<le> length (filter (\<lambda>ev. ev = Timeout) evs)"
  shows "\<nexists>d. dhcp_run d0 evs = Running d"
proof
  assume "\<exists>d. dhcp_run d0 evs = Running d"
  then obtain d where r: "dhcp_run d0 evs = Running d" ..
  have d0: "dhcp_ok d0" "rounds d0 = 7" using dhcp_enter_ok [OF assms(2,3), of ifx xid info request] assms(1) by auto
  have "rounds d + length (filter (\<lambda>ev. ev = Timeout) evs) \<le> 7" using dhcp_run_running [OF r d0(1)] d0(2) by simp
  moreover have "1 \<le> rounds d" by (simp add: rounds_def tries_def)
  ultimately show False using assms(4) by linarith
qed

theorem dhcp_gives_up_witness:
  "\<exists>d. dhcp_enter [1, 2, 3, 4, 5, 6] 2 77 dhcp_info_zero dhcp_msg_zero dhcp_msg_zero = Running d \<and>
     (\<nexists>d'. dhcp_run d (replicate 7 Timeout) = Running d')"
proof -
  obtain d where d: "dhcp_enter [1, 2, 3, 4, 5, 6] 2 77 dhcp_info_zero dhcp_msg_zero dhcp_msg_zero = Running d"
    using example_enter ..
  have h: "length [1, 2, 3, 4, 5, 6 :: u8] = 6" by simp
  have "7 \<le> length (filter (\<lambda>ev. ev = Timeout) (replicate 7 Timeout))" by simp
  from dhcp_gives_up [OF d h dhcp_msg_zero_wf this] d show ?thesis by blast
qed

text \<open>C11: the interface is configured in two cases only, and with the socket state each has. Either
  the round received a message that passed the reply filter in the second state and is an
  acknowledgement, and exactly its decoded parameters are used; or the last timeout passed while
  the information last decoded, from a message that need not have passed the filter, is an
  offer. In the second case the packet socket is left open.\<close>

theorem dhcp_step_configure:
  assumes "dhcp_step d ev = Configure info cl"
  shows "(cl \<and> dc_state d = STATE_REQUESTING \<and> di_type info = 5 \<and>
      (\<exists>p n e r bytes reply log v. ev = Frame p n e \<and>
         receive_packet p n (dhcp_msg_bytes (dc_reply d)) = Recv_ok r bytes \<and>
         dump_dhcp_msg (dhcp_msg_of bytes) r = Some (reply, log) \<and>
         decode_dhcp_msg reply r = Some (v, info) \<and> is_valid_reply (dc_request d) reply r)) \<or>
    (\<not> cl \<and> ev = Timeout \<and> TIMEOUT_MAX \<le> dc_timeout d \<and> info = dc_info d \<and> di_type info = 2)"
proof (cases ev)
  case Timeout
  then show ?thesis
    using assms transmit_out [of "d\<lparr>dc_timeout := dc_timeout d * 2\<rparr>"]
    by (auto simp: dhcp_step_def on_timeout_def split: if_splits)
next
  case (Poll_error e)
  then show ?thesis using assms by (auto simp: dhcp_step_def split: if_splits)
next
  case (Frame p n e)
  then obtain r bytes where rx: "receive_packet p n (dhcp_msg_bytes (dc_reply d)) = Recv_ok r bytes"
    and rep: "on_reply d (dhcp_msg_of bytes) r = Configure info cl"
    using assms by (auto simp: dhcp_step_def split: recv_result.splits if_splits)
  show ?thesis
    using on_reply_configure [OF rep] Frame rx by blast
qed

theorem dhcp_step_configure_witness:
  "\<exists>d. dhcp_step d Timeout = Configure (dhcp_info_zero\<lparr>di_type := 2\<rparr>) False \<and> TIMEOUT_MAX \<le> dc_timeout d"
proof -
  obtain d0 where "dhcp_enter [1, 2, 3, 4, 5, 6] 2 77 dhcp_info_zero dhcp_msg_zero dhcp_msg_zero = Running d0"
    using example_enter ..
  let ?d = "d0\<lparr>dc_timeout := 32000, dc_info := dhcp_info_zero\<lparr>di_type := 2\<rparr>\<rparr>"
  have "dhcp_step ?d Timeout = Configure (dhcp_info_zero\<lparr>di_type := 2\<rparr>) False"
    by (simp add: dhcp_step_def on_timeout_def)
  with dhcp_step_configure [OF this] show ?thesis by blast
qed

subsection \<open>Conversations with a server\<close>

text \<open>
  A message of a server for a client with the given hardware address and transaction id: its
  options are an encoded list, and \<open>n\<close> bytes of it are sent, the end marker included. \<open>carries\<close>
  says that an event is the arrival of those bytes in a frame of this library's own sender, to
  the client port, whose UDP checksum is not zero.
\<close>

definition server_msg :: "u8 list \<Rightarrow> u32 \<Rightarrow> dhcp_msg \<Rightarrow> dhcp_opt list \<Rightarrow> nat \<Rightarrow> bool" where
  "server_msg hw xid m os n \<longleftrightarrow> dhcp_msg_wf m \<and> dm_op m = 2 \<and> dm_xid m = xid \<and> dm_htype m = 1 \<and>
     dm_hlen m = 6 \<and> take 6 (dm_chaddr m) = hw \<and> list_all opt_wf os \<and>
     (\<exists>post. dm_options m = [0x63, 0x82, 0x53, 0x63] @ enc_opts os @ [255] @ post) \<and>
     241 + length (enc_opts os) \<le> n \<and> n \<le> 1260"

definition carries :: "poll_event \<Rightarrow> dhcp_msg \<Rightarrow> nat \<Rightarrow> bool" where
  "carries ev m n \<longleftrightarrow> (\<exists>i saddr daddr sport junk e.
     ev = Frame (frame_bytes (send_packet i (dhcp_msg_bytes m) n saddr daddr sport 68) @ junk) (28 + int n) e \<and>
     udp_check (send_udp (dhcp_msg_bytes m) n saddr daddr sport 68) \<noteq> 0)"

definition info_of :: "dhcp_msg \<Rightarrow> dhcp_opt list \<Rightarrow> dhcp_info" where
  "info_of m os = (foldl (\<lambda>i q. apply_opt q i) dhcp_info_zero os)\<lparr>di_ipaddr := dm_yiaddr m\<rparr>"

text \<open>A shorter message leaves the tail of the previous one in the buffer.\<close>

lemma recv_image:
  assumes "dhcp_msg_wf m" "dhcp_msg_wf old" "236 \<le> n" "n \<le> 1260"
  shows "dhcp_msg_of (take n (dhcp_msg_bytes m) @ drop n (dhcp_msg_bytes old)) =
    m\<lparr>dm_options := take (n - 236) (dm_options m) @ drop (n - 236) (dm_options old)\<rparr>"
proof -
  let ?h = "\<lambda>m. take 236 (dhcp_msg_bytes m)"
  let ?m = "m\<lparr>dm_options := take (n - 236) (dm_options m) @ drop (n - 236) (dm_options old)\<rparr>"
  have sp: "dhcp_msg_bytes x = ?h x @ dm_options x \<and> length (?h x) = 236" if "dhcp_msg_wf x" for x
    using that by (simp add: dhcp_msg_bytes_def dhcp_msg_wf_def)
  have wf: "dhcp_msg_wf ?m" using assms by (simp add: dhcp_msg_wf_def)
  have hm: "?h ?m = ?h m" using assms(1) by (simp add: dhcp_msg_bytes_def dhcp_msg_wf_def)
  have "take n (dhcp_msg_bytes m) = ?h m @ take (n - 236) (dm_options m)"
    using sp [OF assms(1)] assms(3) by (metis take_append take_all)
  moreover have "drop n (dhcp_msg_bytes old) = drop (n - 236) (dm_options old)"
    using sp [OF assms(2)] assms(3) by (metis append_Nil drop_all drop_append)
  ultimately have "take n (dhcp_msg_bytes m) @ drop n (dhcp_msg_bytes old) = dhcp_msg_bytes ?m"
    using sp [OF wf] hm by simp
  then show ?thesis using dmi.dec_enc [OF wf, of "[]"] by simp
qed

lemma step_carries:
  assumes "dhcp_ok d" "server_msg hw xid m os n" "carries ev m n"
  shows "dhcp_step d ev =
    on_reply d (m\<lparr>dm_options := take (n - 236) (dm_options m) @ drop (n - 236) (dm_options (dc_reply d))\<rparr>) (int n)"
proof -
  have wf: "dhcp_msg_wf m" "dhcp_msg_wf (dc_reply d)" and n: "236 \<le> n" "n \<le> 1260"
    using assms(1,2) by (auto simp: dhcp_ok_def server_msg_def)
  obtain i saddr daddr sport junk e where
    ev: "ev = Frame (frame_bytes (send_packet i (dhcp_msg_bytes m) n saddr daddr sport 68) @ junk) (28 + int n) e"
    and u: "udp_check (send_udp (dhcp_msg_bytes m) n saddr daddr sport 68) \<noteq> 0"
    using assms(3) by (auto simp: carries_def)
  have "receive_packet (frame_bytes (send_packet i (dhcp_msg_bytes m) n saddr daddr sport 68) @ junk) (28 + int n)
      (dhcp_msg_bytes (dc_reply d)) = Recv_ok (int n) (take n (dhcp_msg_bytes m) @ drop n (dhcp_msg_bytes (dc_reply d)))"
    using receive_of_send [OF _ _ _ refl, of n "dhcp_msg_bytes m" "dhcp_msg_bytes (dc_reply d)" i saddr daddr sport junk]
      wf n u by (simp add: DHCP_MSG_SIZE_def)
  then show ?thesis
    unfolding dhcp_step_def ev using recv_image [OF wf n] by simp
qed

text \<open>What the client makes of such a message: it is dumped, decoded to the meaning of its options,
  and passes the filter of a state whose last message has the same id and address.\<close>

lemma server_msg_decoded:
  assumes "server_msg hw xid m os n" "dhcp_msg_wf old"
  defines "m' \<equiv> m\<lparr>dm_options := take (n - 236) (dm_options m) @ drop (n - 236) (dm_options old)\<rparr>"
  shows "\<exists>m'' log. dump_dhcp_msg m' (int n) = Some (m'', log) \<and> dhcp_msg_wf m'' \<and>
    decode_dhcp_msg m'' (int n) = Some (0, info_of m os) \<and>
    (\<forall>q. dm_xid q = xid \<and> dm_htype q = 1 \<and> dm_hlen q = 6 \<and> dm_chaddr q = hw @ replicate 10 0 \<longrightarrow>
       is_valid_reply q m'' (int n))"
proof -
  obtain post where post: "dm_options m = [0x63, 0x82, 0x53, 0x63] @ enc_opts os @ [255] @ post"
    and n: "241 + length (enc_opts os) \<le> n" "n \<le> 1260" and wf: "dhcp_msg_wf m" and os: "list_all opt_wf os"
    using assms(1) by (auto simp: server_msg_def)
  have wf': "dhcp_msg_wf m'" using wf assms(2) n by (simp add: dhcp_msg_wf_def m'_def)
  define m2 where "m2 = m'\<lparr>dm_sname := (dots (dm_sname m'))[63 := 0], dm_file := (dots (dm_file m'))[127 := 0]\<rparr>"
  obtain log where d: "dump_dhcp_msg m' (int n) = Some (m2, log)"
    using dump_defined [OF wf', of "int n"] n assms(1) by (auto simp: m2_def server_msg_def m'_def)
  let ?pre = "[0x63, 0x82, 0x53, 0x63] @ enc_opts os @ [255 :: u8]"
  obtain k where k: "n - 236 = length ?pre + k"
    using n by (intro that [of "n - 236 - length ?pre"]) simp
  have "dm_options m2 = ?pre @ take k post @ drop (n - 236) (dm_options old)"
    unfolding m2_def m'_def using post k by simp
  then have o: "dm_options m2 = [0x63, 0x82, 0x53, 0x63] @ enc_opts os @ [255] @ take k post @ drop (n - 236) (dm_options old)"
    by simp
  have "decode_dhcp_msg m2 (int n) = Some (0, (foldl (\<lambda>i q. apply_opt q i) dhcp_info_zero os)\<lparr>di_ipaddr := dm_yiaddr m2\<rparr>)"
    by (rule decode_enc_opts [OF os o, where k = "n - 241 - length (enc_opts os)"]) (use n in simp)
  then have dec: "decode_dhcp_msg m2 (int n) = Some (0, info_of m os)"
    by (simp add: info_of_def m2_def m'_def)
  have "length (dm_chaddr m) = 16" using wf by (simp add: dhcp_msg_wf_def)
  then have val: "is_valid_reply q m2 (int n)"
    if "dm_xid q = xid \<and> dm_htype q = 1 \<and> dm_hlen q = 6 \<and> dm_chaddr q = hw @ replicate 10 0" for q
    using that assms(1) n by (auto simp: is_valid_reply_def from_chaddr_def server_msg_def m2_def m'_def)
  show ?thesis
    using d dump_wf [OF d wf'] dec val by blast
qed

lemma reached_state:
  assumes "dhcp_enter hw ifx xid info request reply = Running d0" "length hw = 6" "dhcp_msg_wf reply" "dhcp_reach d0 d"
  shows "dhcp_ok d" "dc_hwaddr d = hw"
    "dc_xid d = (case dc_state d of STATE_SELECTING \<Rightarrow> xid | STATE_REQUESTING \<Rightarrow> xid + 1)"
proof -
  have d0: "dhcp_ok d0" "dc_hwaddr d0 = hw" "dc_xid d0 = xid" "dc_state d0 = STATE_SELECTING"
    using dhcp_enter_ok [OF assms(2,3), of ifx xid info request] assms(1) by auto
  show "dhcp_ok d" "dc_hwaddr d = hw" using dhcp_reach_ok [OF assms(4) d0(1)] d0 by auto
  show "dc_xid d = (case dc_state d of STATE_SELECTING \<Rightarrow> xid | STATE_REQUESTING \<Rightarrow> xid + 1)"
    using dhcp_reach_xid [OF assms(4) d0(1,4)] unfolding d0(3) .
qed

lemma valid_for_discover:
  "length hw = 6 \<Longrightarrow> q = fst (init_dhcp_discover_msg hw xid) \<Longrightarrow>
   dm_xid q = xid \<and> dm_htype q = 1 \<and> dm_hlen q = 6 \<and> dm_chaddr q = hw @ replicate 10 0"
  by (simp add: init_msg_chaddr)

lemma valid_for_request:
  "length hw = 6 \<Longrightarrow> q = fst (init_dhcp_request_msg hw xid ip sv) \<Longrightarrow>
   dm_xid q = xid \<and> dm_htype q = 1 \<and> dm_hlen q = 6 \<and> dm_chaddr q = hw @ replicate 10 0"
  by (simp add: init_msg_chaddr)

lemma offer_step:
  assumes "dhcp_ok d" "dc_state d = STATE_SELECTING"
    and "server_msg (dc_hwaddr d) (dc_xid d) m os n" "carries ev m n" "di_type (info_of m os) = 2"
  shows "\<exists>d'. dhcp_step d ev = Running d' \<and> dc_state d' = STATE_REQUESTING \<and> dc_timeout d' = TIMEOUT_INITIAL \<and>
    dc_request d' = fst (init_dhcp_request_msg (dc_hwaddr d) (dc_xid d + 1) (dm_yiaddr m) (di_serveraddr (info_of m os))) \<and>
    dc_sent d' = wire d' (dc_request d') 262 # dc_sent d"
proof -
  have hw: "length (dc_hwaddr d) = 6" and old: "dhcp_msg_wf (dc_reply d)" using assms(1) by (auto simp: dhcp_ok_def)
  obtain m2 log where m2: "dump_dhcp_msg (m\<lparr>dm_options := take (n - 236) (dm_options m) @
        drop (n - 236) (dm_options (dc_reply d))\<rparr>) (int n) = Some (m2, log)"
      "decode_dhcp_msg m2 (int n) = Some (0, info_of m os)"
    and v: "is_valid_reply (dc_discover d) m2 (int n)"
    using server_msg_decoded [OF assms(3) old] valid_for_discover [OF hw, of "dc_discover d" "dc_xid d"] assms(1,2)
    by (auto simp: dhcp_ok_def)
  let ?d = "d\<lparr>dc_reply := m2, dc_info := info_of m os, dc_state := STATE_REQUESTING,
      dc_timeout := TIMEOUT_INITIAL, dc_xid := dc_xid d + 1\<rparr>"
  have "dhcp_step d ev = transmit ?d"
    unfolding step_carries [OF assms(1,3,4)] on_reply_def using m2 v assms(2,5) by (simp add: Let_def)
  then show ?thesis
    using transmit_requesting [of ?d] hw by (simp add: wire_def) (simp add: info_of_def)
qed

lemma final_step:
  assumes "dhcp_ok d" "dc_state d = STATE_REQUESTING"
    and "server_msg (dc_hwaddr d) (dc_xid d) m os n" "carries ev m n"
  shows "di_type (info_of m os) = 5 \<Longrightarrow> dhcp_step d ev = Configure (info_of m os) True"
    and "di_type (info_of m os) = 6 \<Longrightarrow> dhcp_step d ev = Return (-1) True"
proof -
  have hw: "length (dc_hwaddr d) = 6" and old: "dhcp_msg_wf (dc_reply d)" using assms(1) by (auto simp: dhcp_ok_def)
  obtain ip sv where "dc_request d = fst (init_dhcp_request_msg (dc_hwaddr d) (dc_xid d) ip sv)"
    using assms(1,2) by (auto simp: dhcp_ok_def)
  from valid_for_request [OF hw this] obtain m2 log where
    m2: "dump_dhcp_msg (m\<lparr>dm_options := take (n - 236) (dm_options m) @
        drop (n - 236) (dm_options (dc_reply d))\<rparr>) (int n) = Some (m2, log)"
      "decode_dhcp_msg m2 (int n) = Some (0, info_of m os)"
    and v: "is_valid_reply (dc_request d) m2 (int n)"
    using server_msg_decoded [OF assms(3) old] by blast
  show "di_type (info_of m os) = 5 \<Longrightarrow> dhcp_step d ev = Configure (info_of m os) True"
    and "di_type (info_of m os) = 6 \<Longrightarrow> dhcp_step d ev = Return (-1) True"
    unfolding step_carries [OF assms(1,3,4)] on_reply_def using m2 v assms(2) by (simp_all add: Let_def)
qed

text \<open>C12: the client completes the handshake. From any state it can reach, an offer for its
  transaction in the first state makes it request, with the incremented id, the offered address
  from the offering server, and restart the timeout; in the second state an acknowledgement for
  the incremented id configures the interface with the parameters it carries and closes the
  packet socket, and a refusal ends the call with -1.\<close>

theorem dhcp_handshake:
  assumes "dhcp_enter hw ifx xid info request reply = Running d0" "length hw = 6" "dhcp_msg_wf reply" "dhcp_reach d0 d"
    and "carries ev m n" "server_msg hw (dc_xid d) m os n"
  shows "(dc_state d = STATE_SELECTING \<and> di_type (info_of m os) = 2 \<longrightarrow>
      (\<exists>d'. dhcp_step d ev = Running d' \<and> dc_state d' = STATE_REQUESTING \<and> dc_timeout d' = TIMEOUT_INITIAL \<and>
        dc_request d' = fst (init_dhcp_request_msg hw (xid + 1) (dm_yiaddr m) (di_serveraddr (info_of m os))) \<and>
        dc_sent d' = wire d' (dc_request d') 262 # dc_sent d)) \<and>
    (dc_state d = STATE_REQUESTING \<and> di_type (info_of m os) = 5 \<longrightarrow>
      dc_xid d = xid + 1 \<and> dhcp_step d ev = Configure (info_of m os) True) \<and>
    (dc_state d = STATE_REQUESTING \<and> di_type (info_of m os) = 6 \<longrightarrow> dhcp_step d ev = Return (-1) True)"
proof -
  note st = reached_state [OF assms(1-4)]
  have m: "server_msg (dc_hwaddr d) (dc_xid d) m os n" using assms(6) st(2) by simp
  show ?thesis
    using offer_step [OF st(1) _ m assms(5)] final_step [OF st(1) _ m assms(5)] st(2,3)
    by (auto split: dhcp_state.splits)
qed

text \<open>An offer, for the concrete instances.\<close>

definition example_offer :: "u32 \<Rightarrow> dhcp_msg" where
  "example_offer xid = dhcp_msg_zero\<lparr>dm_op := 2, dm_xid := xid, dm_htype := 1, dm_hlen := 6, dm_yiaddr := 0x0900a8c0,
     dm_chaddr := [1, 2, 3, 4, 5, 6] @ replicate 10 0,
     dm_options := [0x63, 0x82, 0x53, 0x63] @ enc_opts example_offer_opts @ [255] @ replicate 997 0\<rparr>"

definition offer_event :: "u32 \<Rightarrow> poll_event" where
  "offer_event xid = Frame (frame_bytes (send_packet 2 (dhcp_msg_bytes (example_offer xid)) 264 0x0100a8c0 0xffffffff 67 68)) 292 0"

lemma example_offer_msg: "server_msg [1, 2, 3, 4, 5, 6] xid (example_offer xid) example_offer_opts 264"
  by (simp add: server_msg_def example_offer_def dhcp_msg_wf_def dhcp_msg_zero_def example_offer_opts_def
      enc_opts_def enc_opt_def opt_wf_def)

lemma example_offer_info: "di_type (info_of (example_offer xid) example_offer_opts) = 2"
  by (simp add: info_of_def example_offer_opts_def dhcp_info_zero_def)

lemma example_offer_check: "udp_check (send_udp (dhcp_msg_bytes (example_offer 77)) 264 0x0100a8c0 0xffffffff 67 68) \<noteq> 0"
  "udp_check (send_udp (dhcp_msg_bytes (example_offer 99)) 264 0x0100a8c0 0xffffffff 67 68) \<noteq> 0"
  by code_simp+

lemma offer_carries: "carries (offer_event 77) (example_offer 77) 264" "carries (offer_event 99) (example_offer 99) 264"
  unfolding carries_def offer_event_def
  using example_offer_check
  by (intro exI [of _ 2] exI [of _ "0x0100a8c0"] exI [of _ "0xffffffff"] exI [of _ 67] exI [of _ "[]"] exI [of _ 0]; simp)+

theorem dhcp_handshake_witness:
  "\<exists>d0 d'. dhcp_enter [1, 2, 3, 4, 5, 6] 2 77 dhcp_info_zero dhcp_msg_zero dhcp_msg_zero = Running d0 \<and>
     dhcp_step d0 (offer_event 77) = Running d' \<and> dc_state d' = STATE_REQUESTING"
proof -
  obtain d where d: "dhcp_enter [1, 2, 3, 4, 5, 6] 2 77 dhcp_info_zero dhcp_msg_zero dhcp_msg_zero = Running d"
    "dc_xid d = 77" "dc_state d = STATE_SELECTING"
    using dhcp_enter_ok [OF _ dhcp_msg_zero_wf, of "[1, 2, 3, 4, 5, 6]" 2 77 dhcp_info_zero dhcp_msg_zero] by auto
  have h: "length [1, 2, 3, 4, 5, 6 :: u8] = 6" by simp
  have m: "server_msg [1, 2, 3, 4, 5, 6] (dc_xid d) (example_offer 77) example_offer_opts 264"
    using example_offer_msg d(2) by simp
  from dhcp_handshake [OF d(1) h dhcp_msg_zero_wf reach_start offer_carries(1) m] show ?thesis
    using d example_offer_info by blast
qed

subsection \<open>Two defects\<close>

lemma rejected_step:
  assumes "dhcp_ok d" "dc_state d = STATE_SELECTING" "server_msg hw' xid' m os n" "carries ev m n" "xid' \<noteq> dc_xid d"
  shows "\<exists>m2. dhcp_step d ev = Running (d\<lparr>dc_reply := m2, dc_info := info_of m os\<rparr>) \<and> dhcp_msg_wf m2"
proof -
  have old: "dhcp_msg_wf (dc_reply d)" and disc: "dm_xid (dc_discover d) = dc_xid d"
    using assms(1,2) by (auto simp: dhcp_ok_def)
  obtain m2 log where m2: "dump_dhcp_msg (m\<lparr>dm_options := take (n - 236) (dm_options m) @
        drop (n - 236) (dm_options (dc_reply d))\<rparr>) (int n) = Some (m2, log)"
      "decode_dhcp_msg m2 (int n) = Some (0, info_of m os)" "dhcp_msg_wf m2"
    using server_msg_decoded [OF assms(3) old] by blast
  have "dm_xid m2 = xid'"
    using m2(1) assms(3) by (auto simp: dump_dhcp_msg_def server_msg_def Let_def split: if_splits option.splits)
  then have "\<not> is_valid_reply (dc_discover d) m2 (int n)"
    using disc assms(5) by (simp add: is_valid_reply_def)
  then have "dhcp_step d ev = Running (d\<lparr>dc_reply := m2, dc_info := info_of m os\<rparr>)"
    unfolding step_carries [OF assms(1,3,4)] on_reply_def using m2 assms(2) by (simp add: Let_def)
  with m2(3) show ?thesis by blast
qed

lemma timeouts_then_configure:
  assumes "length (dc_hwaddr d) = 6" "dc_state d = STATE_SELECTING" "dc_timeout d = 4000" "di_type (dc_info d) = 2"
  shows "dhcp_run d [Timeout, Timeout, Timeout, Timeout] = Configure (dc_info d) False"
  using assms by (simp add: dhcp_step_def on_timeout_def transmit_selecting)

text \<open>An offer that the client has rejected is used all the same. A message with the transaction
  id of somebody else's conversation (and any hardware address) fails the reply filter, but its
  parameters are already in \<open>info\<close>; after four timeouts without a valid reply the client
  configures the interface with them.\<close>

lemma dhcp_configures_rejected_offer:
  assumes "dhcp_enter hw ifx xid info request reply = Running d0" "length hw = 6" "dhcp_msg_wf reply"
    and "server_msg hw' xid' m os n" "carries ev m n" "xid' \<noteq> xid" "di_type (info_of m os) = 2"
  shows "dhcp_run d0 [ev, Timeout, Timeout, Timeout, Timeout] = Configure (info_of m os) False"
proof -
  have d0: "dhcp_ok d0" "dc_hwaddr d0 = hw" "dc_xid d0 = xid" "dc_state d0 = STATE_SELECTING" "dc_timeout d0 = 4000"
    using dhcp_enter_ok [OF assms(2,3), of ifx xid info request] assms(1) by auto
  obtain m2 where step: "dhcp_step d0 ev = Running (d0\<lparr>dc_reply := m2, dc_info := info_of m os\<rparr>)"
    using rejected_step [OF d0(1,4) assms(4,5)] d0(3) assms(6) by auto
  show ?thesis
    using timeouts_then_configure [of "d0\<lparr>dc_reply := m2, dc_info := info_of m os\<rparr>"] d0 assms(2,7)
    by (simp only: dhcp_run.simps(2) [of d0] step dhcp_out.case) simp
qed

text \<open>the only ways a round can be undefined: a frame whose UDP length makes the copy overrun, or a
  received message, valid or not, long enough to be dumped and with an empty hardware address.
  In particular the decoder and the retransmissions never are.\<close>

lemma dhcp_step_undefined_iff:
  assumes "dhcp_ok d"
  shows "dhcp_step d ev = Undefined \<longleftrightarrow>
    (\<exists>p n e. ev = Frame p n e \<and>
      ((\<exists>k. receive_packet p n (dhcp_msg_bytes (dc_reply d)) = Recv_overrun k) \<or>
       (\<exists>r bytes. receive_packet p n (dhcp_msg_bytes (dc_reply d)) = Recv_ok r bytes \<and> 236 \<le> r \<and>
          dm_hlen (dhcp_msg_of bytes) = 0)))"
proof -
  have hw: "length (dc_hwaddr d) = 6" and len: "length (dhcp_msg_bytes (dc_reply d)) = 1260"
    using assms by (auto simp: dhcp_ok_def)
  have tr: "transmit x \<noteq> Undefined" if "length (dc_hwaddr x) = 6" for x
    using transmit_selecting [OF that] transmit_requesting [OF that] by (cases "dc_state x") simp_all
  have rep: "on_reply d m r = Undefined \<longleftrightarrow> 236 \<le> r \<and> dm_hlen m = 0"
    if wm: "dhcp_msg_wf m" and rm: "r \<le> 1260" for m r
  proof (cases "236 \<le> r \<and> dm_hlen m = 0")
    case True
    then show ?thesis by (auto simp: on_reply_def dump_dhcp_msg_def hex2str_def Let_def)
  next
    case False
    then obtain m2 log where m2: "dump_dhcp_msg m r = Some (m2, log)" using dump_defined [OF wm rm] by fastforce
    obtain v info where "decode_dhcp_msg m2 r = Some (v, info)"
      using decode_defined [OF dump_wf [OF m2 wm], of r] rm by (auto simp: DHCP_MSG_SIZE_def)
    then show ?thesis
      using m2 False tr hw by (auto simp: on_reply_def Let_def split: dhcp_state.splits)
  qed
  show ?thesis
  proof (cases ev)
    case Timeout
    then show ?thesis using tr hw by (auto simp: dhcp_step_def on_timeout_def)
  next
    case (Poll_error e)
    then show ?thesis by (auto simp: dhcp_step_def)
  next
    case (Frame p n e)
    show ?thesis
    proof (cases "receive_packet p n (dhcp_msg_bytes (dc_reply d))")
      case (Recv_ok r bytes)
      then show ?thesis
        using Frame rep [OF dhcp_msg_of_wf [OF receive_ok_size(3) [OF Recv_ok len]] receive_ok_size(2) [OF Recv_ok len]]
        by (auto simp: dhcp_step_def)
    qed (use Frame in \<open>auto simp: dhcp_step_def\<close>)
  qed
qed

end
