(* ===== verification/DhcpUtils.thy ===== *)
theory DhcpUtils
  imports IfcSys Netmask
begin

text \<open>
  \<open>system/core/libnetutils/dhcp_utils.c\<close>: driving the \<open>dhcpcd\<close> daemon through system properties.
  The property service is not part of the repository: it is the record \<open>prop_os\<close> over an arbitrary
  state, with a function for the 200 ms that pass in \<open>usleep\<close>. \<open>property_get\<close> with a \<open>NULL\<close>
  default gives the value, the empty string when there is none, and returns its length.
\<close>

record 'p prop_os =
  po_get :: "string \<Rightarrow> 'p \<Rightarrow> string"
  po_set :: "string \<Rightarrow> string \<Rightarrow> 'p \<Rightarrow> 'p"
  po_nap :: "'p \<Rightarrow> 'p"

text \<open>The state: the service, the static \<open>errmsg\<close>, and (a history variable) the naps taken and the
  properties set, newest first.\<close>

datatype prop_event = Nap | Set string string

record 'p du =
  du_props :: 'p
  du_errmsg :: string
  du_log :: "prop_event list"

definition prop_get :: "'p prop_os \<Rightarrow> string \<Rightarrow> ('p du, string) state" where
  "prop_get os name = gets (\<lambda>s. po_get os name (du_props s))"

definition prop_set :: "'p prop_os \<Rightarrow> string \<Rightarrow> string \<Rightarrow> ('p du, unit) state" where
  "prop_set os name val = modify (\<lambda>s. s\<lparr>du_props := po_set os name val (du_props s), du_log := Set name val # du_log s\<rparr>)"

definition nap :: "'p prop_os \<Rightarrow> ('p du, unit) state" where
  "nap os = modify (\<lambda>s. s\<lparr>du_props := po_nap os (du_props s), du_log := Nap # du_log s\<rparr>)"

definition set_errmsg :: "string \<Rightarrow> ('p du, unit) state" where
  "set_errmsg msg = modify (\<lambda>s. s\<lparr>du_errmsg := take 99 msg\<rparr>)"

subsection \<open>Numbers and addresses from text\<close>

text \<open>\<open>atol\<close> on the 32-bit target: blanks, a sign, decimal digits; saturating.\<close>

definition atol :: "string \<Rightarrow> int" where
  "atol str =
     (let str = dropWhile is_blank str;
          neg = (str \<noteq> [] \<and> hd str = CHR ''-'');
          str = (if str \<noteq> [] \<and> (hd str = CHR ''-'' \<or> hd str = CHR ''+'') then tl str else str);
          n = int (the (digits_val 10 0 (takeWhile is_digit str)))
      in if neg then max (- n) (- 2147483648) else min n 2147483647)"

text \<open>
  \<open>inet_addr\<close>: up to four parts in the C number syntax, the last one filling the remaining bytes;
  what follows a blank is ignored; \<open>INADDR_NONE\<close> for anything else.
\<close>

definition part_val :: "string \<Rightarrow> nat option" where
  "part_val str =
     (case str of
        [] \<Rightarrow> None
      | c # r \<Rightarrow>
          if c = CHR ''0'' \<and> r \<noteq> [] then
            if hd r = CHR ''x'' \<or> hd r = CHR ''X'' then digits_val 16 0 (tl r) else digits_val 8 0 r
          else digits_val 10 0 str)"

fun split_dots :: "string \<Rightarrow> string list" where
  "split_dots [] = [[]]"
| "split_dots (c # r) =
     (if c = CHR ''.'' then [] # split_dots r
      else case split_dots r of p # ps \<Rightarrow> (c # p) # ps | [] \<Rightarrow> [[c]])"

definition inet_aton :: "string \<Rightarrow> nat option" where
  "inet_aton str =
     (case map part_val (split_dots (takeWhile (\<lambda>c. \<not> is_blank c) str)) of
        [Some a] \<Rightarrow> if a < 2 ^ 32 then Some a else None
      | [Some a, Some b] \<Rightarrow> if a < 256 \<and> b < 2 ^ 24 then Some (a * 2 ^ 24 + b) else None
      | [Some a, Some b, Some c] \<Rightarrow>
          if a < 256 \<and> b < 256 \<and> c < 2 ^ 16 then Some (a * 2 ^ 24 + b * 2 ^ 16 + c) else None
      | [Some a, Some b, Some c, Some d] \<Rightarrow>
          if a < 256 \<and> b < 256 \<and> c < 256 \<and> d < 256 then Some (a * 2 ^ 24 + b * 2 ^ 16 + c * 2 ^ 8 + d) else None
      | _ \<Rightarrow> None)"

definition INADDR_NONE :: u32 where "INADDR_NONE = 0xffffffff"

definition inet_addr :: "string \<Rightarrow> u32" where
  "inet_addr str = (case inet_aton str of None \<Rightarrow> INADDR_NONE | Some n \<Rightarrow> htonl (of_nat n))"

subsection \<open>The code\<close>

text \<open>
  \<open>strncpy\<close> into \<open>p2p_interface[MAX_INTERFACE_LENGTH]\<close>. A name of 25 characters or more fills the
  array and leaves it without terminator; every use prints it with \<open>%s\<close>: \<open>None\<close>.
\<close>

definition get_p2p_interface_replacement :: "string \<Rightarrow> string option" where
  "get_p2p_interface_replacement ifname =
     (if take 3 ifname = ''p2p'' then Some ''p2p''
      else if length ifname < 25 then Some ifname else None)"

fun wait_loop :: "'p prop_os \<Rightarrow> string \<Rightarrow> string option \<Rightarrow> nat \<Rightarrow> ('p du, int) state" where
  "wait_loop os name desired_value 0 = ret (-1)"
| "wait_loop os name desired_value (Suc maxnaps) = do {
     nap os;
     v \<leftarrow> prop_get os name;
     (if v \<noteq> [] \<and> (desired_value = None \<or> Some v = desired_value) then ret 0
      else wait_loop os name desired_value maxnaps) }"

definition wait_for_property :: "'p prop_os \<Rightarrow> string \<Rightarrow> string option \<Rightarrow> nat \<Rightarrow> ('p du, int) state" where
  "wait_for_property os name desired_value maxwait =
     (let maxnaps = maxwait * 1000 div 200;
          maxnaps = (if maxnaps < 1 then 1 else maxnaps)
      in wait_loop os name desired_value maxnaps)"

text \<open>The output parameters.\<close>

record ip_info =
  ii_ipaddr :: string
  ii_gateway :: string
  ii_prefixLength :: u32
  ii_dns :: "string list"
  ii_server :: string
  ii_lease :: u32
  ii_vendorInfo :: string
  ii_domain :: string
  ii_mtu :: string
  ii_roaming :: u32

definition prop_name :: "string \<Rightarrow> string \<Rightarrow> string" where
  "prop_name p2p suffix = take 31 (''dhcp.'' @ p2p @ ''.'' @ suffix)"

text \<open>The netmask loop: at most 32 shifts; \<open>None\<close> when a clear bit precedes a set one.\<close>

fun mask_scan :: "nat \<Rightarrow> nat \<Rightarrow> u32 \<Rightarrow> nat option" where
  "mask_scan 0 p m = Some p"
| "mask_scan (Suc n) p m =
     (if m = 0 then Some p
      else if m AND 0x80000000 = 0 then None
      else mask_scan n (p + 1) (push_bit 1 m))"

definition mask_text :: "string \<Rightarrow> nat option" where
  "mask_text prop_value =
     (let msk = ntohl (inet_addr prop_value)
      in if msk = INADDR_NONE \<and> prop_value \<noteq> ''255.255.255.255'' then None else mask_scan 32 0 msk)"

fun fill_dns :: "'p prop_os \<Rightarrow> string \<Rightarrow> nat \<Rightarrow> string list \<Rightarrow> ('p du, string list) state" where
  "fill_dns os p2p x [] = ret []"
| "fill_dns os p2p x (_ # r) = do {
     v \<leftarrow> prop_get os (prop_name p2p (''dns'' @ show_nat (x + 1)));
     vs \<leftarrow> fill_dns os p2p (x + 1) r;
     ret (v # vs) }"

definition fill_from :: "'p prop_os \<Rightarrow> string \<Rightarrow> ip_info \<Rightarrow> ('p du, int \<times> ip_info) state" where
  "fill_from os p2p info = do {
     v \<leftarrow> prop_get os (prop_name p2p ''ipaddress'');
     let info = info\<lparr>ii_ipaddr := v\<rparr>;
     v \<leftarrow> prop_get os (prop_name p2p ''gateway'');
     let info = info\<lparr>ii_gateway := v\<rparr>;
     v \<leftarrow> prop_get os (prop_name p2p ''server'');
     let info = info\<lparr>ii_server := v\<rparr>;
     let info = (if ii_gateway info = [] \<or> take 7 (ii_gateway info) = ''0.0.0.0''
                 then info\<lparr>ii_gateway := ii_server info\<rparr> else info);
     v \<leftarrow> prop_get os (prop_name p2p ''mask'');
     (case (if v = [] then Some (ii_prefixLength info) else map_option of_nat (mask_text v)) of
        None \<Rightarrow> do { set_errmsg (''DHCP gave invalid net mask '' @ v); ret (-1, info) }
      | Some p \<Rightarrow> do {
          let info = info\<lparr>ii_prefixLength := p\<rparr>;
          dns \<leftarrow> fill_dns os p2p 0 (ii_dns info);
          let info = info\<lparr>ii_dns := dns\<rparr>;
          v \<leftarrow> prop_get os (prop_name p2p ''leasetime'');
          let info = (if v \<noteq> [] then info\<lparr>ii_lease := word_of_int (atol v)\<rparr> else info);
          v \<leftarrow> prop_get os (prop_name p2p ''vendorInfo'');
          let info = info\<lparr>ii_vendorInfo := v\<rparr>;
          v \<leftarrow> prop_get os (prop_name p2p ''domain'');
          let info = info\<lparr>ii_domain := v\<rparr>;
          v \<leftarrow> prop_get os (prop_name p2p ''mtu'');
          let info = info\<lparr>ii_mtu := v\<rparr>;
          v \<leftarrow> prop_get os (prop_name p2p ''roaming'');
          let info = (if v \<noteq> [] then info\<lparr>ii_roaming := word_of_int (atol v)\<rparr> else info);
          ret (0, info) }) }"

text \<open>The functions of the interface; \<open>None\<close> is the use of an unterminated name.\<close>

definition fill_ip_info :: "'p prop_os \<Rightarrow> string \<Rightarrow> ip_info \<Rightarrow> ('p du, (int \<times> ip_info) option) state" where
  "fill_ip_info os ifname info =
     (case get_p2p_interface_replacement ifname of
        None \<Rightarrow> ret None
      | Some p2p \<Rightarrow> do { r \<leftarrow> fill_from os p2p info; ret (Some r) })"

definition result_prop_name :: "string \<Rightarrow> string" where
  "result_prop_name p2p = prop_name p2p ''result''"

definition daemon_prop_name :: "string \<Rightarrow> string" where
  "daemon_prop_name p2p = take 31 (''init.svc.dhcpcd_'' @ p2p)"

text \<open>The command for \<open>init\<close>, in a buffer of 215 bytes.\<close>

definition request_cmd :: "string \<Rightarrow> string \<Rightarrow> string \<Rightarrow> string" where
  "request_cmd p2p ifname hostname = take 214
     (if hostname \<noteq> [] then ''dhcpcd_'' @ p2p @ '':-f /system/etc/dhcpcd/dhcpcd.conf -h '' @ hostname @ '' '' @ ifname
      else ''dhcpcd_'' @ p2p @ '':-f /system/etc/dhcpcd/dhcpcd.conf '' @ ifname)"

text \<open>The second half of \<open>dhcp_do_request\<close>: wait for the result, and read it.\<close>

definition request_result :: "'p prop_os \<Rightarrow> string \<Rightarrow> string \<Rightarrow> ip_info \<Rightarrow> ('p du, (int \<times> ip_info) option) state" where
  "request_result os p2p ifname info = do {
     w \<leftarrow> wait_for_property os (result_prop_name p2p) None 30;
     (if w < 0 then do { set_errmsg ''Timed out waiting for DHCP to finish''; ret (Some (-1, info)) }
      else do {
        v \<leftarrow> prop_get os (result_prop_name p2p);
        (if v = [] then do { set_errmsg ''DHCP result property was not set''; ret (Some (-1, info)) }
         else if v = ''ok'' then do {
           r \<leftarrow> fill_ip_info os ifname info;
           (case r of
              None \<Rightarrow> ret None
            | Some (r, info) \<Rightarrow> if r = -1 then ret (Some (-1, info)) else ret (Some (0, info))) }
         else do { set_errmsg (''DHCP result was '' @ v); ret (Some (-1, info)) }) }) }"

definition dhcp_do_request :: "'p prop_os \<Rightarrow> string \<Rightarrow> ip_info \<Rightarrow> ('p du, (int \<times> ip_info) option) state" where
  "dhcp_do_request os ifname info =
     (case get_p2p_interface_replacement ifname of
        None \<Rightarrow> ret None
      | Some p2p \<Rightarrow> do {
          prop_set os (result_prop_name p2p) [];
          v \<leftarrow> prop_get os ''net.hostname'';
          prop_set os ''ctl.start'' (request_cmd p2p ifname v);
          w \<leftarrow> wait_for_property os (daemon_prop_name p2p) (Some ''running'') 10;
          (if w < 0 then do { set_errmsg ''Timed out waiting for dhcpcd to start''; ret (Some (-1, info)) }
           else request_result os p2p ifname info) })"

definition dhcp_stop :: "'p prop_os \<Rightarrow> string \<Rightarrow> ('p du, int option) state" where
  "dhcp_stop os ifname =
     (case get_p2p_interface_replacement ifname of
        None \<Rightarrow> ret None
      | Some p2p \<Rightarrow> do {
          prop_set os ''ctl.stop'' (take 183 (''dhcpcd_'' @ p2p));
          w \<leftarrow> wait_for_property os (daemon_prop_name p2p) (Some ''stopped'') 5;
          (if w < 0 then ret (Some (-1))
           else do { prop_set os (result_prop_name p2p) ''failed''; ret (Some 0) }) })"

definition dhcp_release_lease :: "'p prop_os \<Rightarrow> string \<Rightarrow> ('p du, int option) state" where
  "dhcp_release_lease os ifname =
     (case get_p2p_interface_replacement ifname of
        None \<Rightarrow> ret None
      | Some p2p \<Rightarrow> do {
          prop_set os ''ctl.stop'' (take 183 (''dhcpcd_'' @ p2p));
          w \<leftarrow> wait_for_property os (daemon_prop_name p2p) (Some ''stopped'') 5;
          (if w < 0 then ret (Some (-1)) else ret (Some 0)) })"

definition dhcp_get_errmsg :: "('p du, string) state" where
  "dhcp_get_errmsg = gets du_errmsg"

definition dhcp_do_request_renew :: "'p prop_os \<Rightarrow> string \<Rightarrow> ip_info \<Rightarrow> ('p du, (int \<times> ip_info) option) state" where
  "dhcp_do_request_renew os ifname info =
     (case get_p2p_interface_replacement ifname of
        None \<Rightarrow> ret None
      | Some p2p \<Rightarrow> do {
          prop_set os (result_prop_name p2p) [];
          prop_set os ''ctl.start'' (take 183 (''iprenew_'' @ p2p @ '':'' @ ifname));
          w \<leftarrow> wait_for_property os (result_prop_name p2p) None 30;
          (if w < 0 then do { set_errmsg ''Timed out waiting for DHCP Renew to finish''; ret (Some (-1, info)) }
           else do {
             v \<leftarrow> prop_get os (result_prop_name p2p);
             (if v = [] then do { set_errmsg ''DHCP Renew result property was not set''; ret (Some (-1, info)) }
              else if v = ''ok'' then fill_ip_info os ifname info
              else do { set_errmsg (''DHCP Renew result was '' @ v); ret (Some (-1, info)) }) }) })"

subsection \<open>Waiting\<close>

definition wanted :: "'p prop_os \<Rightarrow> string \<Rightarrow> string option \<Rightarrow> 'p \<Rightarrow> bool" where
  "wanted os name desired_value p \<longleftrightarrow>
     po_get os name p \<noteq> [] \<and> (desired_value = None \<or> Some (po_get os name p) = desired_value)"

definition after :: "'p prop_os \<Rightarrow> nat \<Rightarrow> 'p du \<Rightarrow> 'p du" where
  "after os j s = s\<lparr>du_props := (po_nap os ^^ j) (du_props s), du_log := replicate j Nap @ du_log s\<rparr>"

lemma after_Suc: "after os (Suc j) s = after os j (s\<lparr>du_props := po_nap os (du_props s), du_log := Nap # du_log s\<rparr>)"
  by (simp add: after_def funpow_swap1 replicate_append_same)

text \<open>The loop stops at the first nap after which the property is as wanted.\<close>

lemma wait_loop_run:
  "run_state (wait_loop os name dv n) s =
     (case find (\<lambda>j. wanted os name dv ((po_nap os ^^ j) (du_props s))) [1..<Suc n] of
        Some j \<Rightarrow> (0, after os j s)
      | None \<Rightarrow> (-1, after os n s))"
proof (induction n arbitrary: s)
  case 0
  then show ?case by (simp add: after_def)
next
  case (Suc n)
  let ?s = "s\<lparr>du_props := po_nap os (du_props s), du_log := Nap # du_log s\<rparr>"
  have up: "[1..<Suc (Suc n)] = 1 # map Suc [1..<Suc n]" by (simp add: map_Suc_upt upt_conv_Cons)
  have fs: "find P (map Suc xs) = map_option Suc (find (P \<circ> Suc) xs)" for P and xs :: "nat list"
    by (induction xs) auto
  show ?case
  proof (cases "wanted os name dv (po_nap os (du_props s))")
    case True
    then show ?thesis unfolding up
      by (simp add: nap_def prop_get_def wanted_def after_def)
  next
    case False
    have "run_state (wait_loop os name dv (Suc n)) s = run_state (wait_loop os name dv n) ?s"
      using False by (auto simp: nap_def prop_get_def wanted_def)
    then show ?thesis
      using False unfolding up Suc.IH
      by (simp add: fs comp_def funpow_swap1 after_Suc split: option.split)
  qed
qed

lemma wait_run:
  "run_state (wait_for_property os name dv maxwait) s =
     (case find (\<lambda>j. wanted os name dv ((po_nap os ^^ j) (du_props s))) [1..<Suc (max 1 (5 * maxwait))] of
        Some j \<Rightarrow> (0, after os j s)
      | None \<Rightarrow> (-1, after os (max 1 (5 * maxwait)) s))"
proof -
  have "maxwait * 1000 div 200 = 5 * maxwait" by simp
  then have "(if maxwait * 1000 div 200 < 1 then 1 else maxwait * 1000 div 200) = max 1 (5 * maxwait)" by auto
  then show ?thesis unfolding wait_for_property_def Let_def by (simp only: wait_loop_run)
qed

text \<open>Waiting for a property. The answer is 0 exactly when within the allowed time there is a nap
  after which the property has the value (any value, when none is asked for), and the wait ends
  with the first such nap; otherwise it is -1. Never more than \<open>maxwait\<close> seconds of 200 ms naps
  are taken (one nap when \<open>maxwait\<close> is 0).\<close>

lemma wait_for_property_first:
  "run_state (wait_for_property os name dv maxwait) s =
     (case find (\<lambda>j. wanted os name dv ((po_nap os ^^ j) (du_props s))) [1..<Suc (max 1 (5 * maxwait))] of
        Some j \<Rightarrow> (0, after os j s)
      | None \<Rightarrow> (-1, after os (max 1 (5 * maxwait)) s))"
  by (rule wait_run)

subsection \<open>The netmask check\<close>

text \<open>\<open>top m j\<close>: the mask is \<open>j\<close> ones from the top, and nothing else.\<close>

definition top_ones :: "u32 \<Rightarrow> nat \<Rightarrow> bool" where
  "top_ones m j \<longleftrightarrow> (\<forall>i<32. bit m i \<longleftrightarrow> 32 - j \<le> i)"

lemma top_ones_0: "top_ones m 0 \<longleftrightarrow> m = 0"
  by (auto simp: top_ones_def intro!: bit_word_eqI)

lemma top_ones_31: "top_ones m j \<Longrightarrow> bit m 31 \<longleftrightarrow> 0 < j"
  by (auto simp: top_ones_def)

lemma top_ones_shift:
  assumes "bit m 31" "j < 32"
  shows "top_ones (push_bit 1 m) j \<longleftrightarrow> top_ones m (Suc j)"
proof
  assume l: "top_ones (push_bit 1 m) j"
  show "top_ones m (Suc j)"
    unfolding top_ones_def
  proof (intro allI impI)
    fix i :: nat assume i: "i < 32"
    show "bit m i \<longleftrightarrow> 32 - Suc j \<le> i"
    proof (cases "i = 31")
      case False
      then have "bit (push_bit 1 m) (Suc i) \<longleftrightarrow> bit m i" using i by (simp only: bit_shl1) auto
      then show ?thesis using l False i unfolding top_ones_def by auto
    qed (use assms in simp)
  qed
next
  assume r: "top_ones m (Suc j)"
  show "top_ones (push_bit 1 m) j"
    unfolding top_ones_def
  proof (intro allI impI)
    fix i :: nat assume i: "i < 32"
    show "bit (push_bit 1 m) i \<longleftrightarrow> 32 - j \<le> i"
      using r i assms(2) unfolding bit_shl1 top_ones_def by (cases i) auto
  qed
qed

lemma mask_scan_shape:
  "n + p = 32 \<Longrightarrow> (\<forall>i<p. \<not> bit m i) \<Longrightarrow>
   mask_scan n p m = Some k \<longleftrightarrow> (\<exists>j\<le>n. k = p + j \<and> top_ones m j)"
proof (induction n p m rule: mask_scan.induct)
  case (1 p m)
  then have "m = 0" by (intro bit_word_eqI) simp
  then show ?case by (auto simp: top_ones_0)
next
  case (2 n p m)
  show ?case
  proof (cases "m = 0")
    case True
    then have "top_ones m j \<longleftrightarrow> j = 0" if "j \<le> Suc n" for j
      using top_ones_31 [of m j] top_ones_0 [of m] by auto
    then show ?thesis using True by auto
  next
    case nz: False
    show ?thesis
    proof (cases "bit m 31")
      case False
      then have "\<not> top_ones m j" for j using top_ones_31 [of m j] top_ones_0 [of m] nz by (cases j) auto
      then show ?thesis using nz False msb_test [of m] by simp
    next
      case True
      have "mask_scan (Suc n) p m = mask_scan n (p + 1) (push_bit 1 m)"
        using nz True msb_test [of m] by simp
      also have "\<dots> = Some k \<longleftrightarrow> (\<exists>j\<le>n. k = p + 1 + j \<and> top_ones (push_bit 1 m) j)"
      proof (rule "2.IH")
        show "\<not> m AND 0x80000000 = 0" using True msb_test by blast
        show "\<forall>i<p + 1. \<not> bit (push_bit 1 m) i" using "2.prems" unfolding bit_shl1 by auto
      qed (use nz "2.prems" in simp_all)
      also have "\<dots> \<longleftrightarrow> (\<exists>j\<le>n. k = p + Suc j \<and> top_ones m (Suc j))"
        using top_ones_shift [OF True] "2.prems"(1) by auto
      also have "\<dots> \<longleftrightarrow> (\<exists>j\<le>Suc n. k = p + j \<and> top_ones m j)"
        using top_ones_0 [of m] nz by (metis Suc_le_mono not0_implies_Suc le0)
      finally show ?thesis .
    qed
  qed
qed

lemma top_ones_netmask: "k \<le> 32 \<Longrightarrow> top_ones m k \<longleftrightarrow> m = push_bit (32 - k) (NOT 0)"
proof
  assume "k \<le> 32" "top_ones m k"
  then show "m = push_bit (32 - k) (NOT 0)"
    by (intro bit_word_eqI) (auto simp: top_ones_def bit_simps)
next
  assume "k \<le> 32" "m = push_bit (32 - k) (NOT 0)"
  then show "top_ones m k" by (auto simp: top_ones_def bit_simps)
qed

lemma mask_scan_iff: "mask_scan 32 0 m = Some k \<longleftrightarrow> k \<le> 32 \<and> m = push_bit (32 - k) (NOT 0)"
  using mask_scan_shape [of 32 0 m k] top_ones_netmask [of _ m] by auto

subsection \<open>Dotted quads\<close>

lemma show_nat_zero: "hd (show_nat n) = CHR ''0'' \<Longrightarrow> n = 0"
proof (induction n rule: show_nat.induct)
  case (1 n)
  show ?case
  proof (cases "n < 10")
    case True
    then have "(of_char (CHR ''0'') :: nat) = 48 + n"
      using 1(2) digit_char(2) [OF True] by (simp add: show_nat.simps [of n])
    then show ?thesis by simp
  next
    case False
    then have "n div 10 = 0" using 1 by (simp add: show_nat.simps [of n] show_nat_nonempty)
    then show ?thesis using False by simp
  qed
qed

lemma part_show: "part_val (show_nat n) = Some n"
proof (cases "show_nat n")
  case (Cons c r)
  show ?thesis
  proof (cases "c = CHR ''0''")
    case True
    then have "n = 0" using show_nat_zero [of n] Cons by simp
    then have "r = []" using Cons by (simp add: show_nat.simps [of 0])
    then show ?thesis using Cons digits_show [of n] by (simp add: part_val_def)
  next
    case False
    then show ?thesis using Cons digits_show [of n] by (simp add: part_val_def)
  qed
qed (simp add: show_nat_nonempty)

lemma byte_textD:
  "CHR ''.'' \<notin> set (show_nat b)" "c \<in> set (show_nat b) \<Longrightarrow> \<not> is_blank c"
  using show_digits [of "CHR ''.''" b] show_digits [of c b] by (auto simp: is_blank_def)

lemma split_dots_part: "CHR ''.'' \<notin> set p \<Longrightarrow> split_dots p = [p]"
  by (induction p) auto

lemma split_dots_append: "CHR ''.'' \<notin> set p \<Longrightarrow> split_dots (p @ CHR ''.'' # r) = p # split_dots r"
  by (induction p) auto

lemma inet_aton_quad:
  assumes "a < 256" "b < 256" "c < 256" "d < 256"
  shows "inet_aton (show_nat a @ ''.'' @ show_nat b @ ''.'' @ show_nat c @ ''.'' @ show_nat d) =
    Some (a * 2 ^ 24 + b * 2 ^ 16 + c * 2 ^ 8 + d)"
proof -
  let ?s = "show_nat a @ ''.'' @ show_nat b @ ''.'' @ show_nat c @ ''.'' @ show_nat d"
  have "\<not> is_blank (CHR ''.'')" by (simp add: is_blank_def)
  then have t: "takeWhile (\<lambda>c. \<not> is_blank c) ?s = ?s"
    using byte_textD(2) by (simp add: takeWhile_eq_all_conv)
  have "split_dots ?s = [show_nat a, show_nat b, show_nat c, show_nat d]"
    using byte_textD(1) by (simp add: split_dots_append split_dots_part)
  then show ?thesis
    unfolding inet_aton_def t using part_show assms by simp
qed

lemma of_le32_sum:
  "of_le32 [a, b, c, d] = ucast a + push_bit 8 (ucast b) + push_bit 16 (ucast c) + push_bit 24 (ucast d)"
proof -
  have out: "bit x n \<Longrightarrow> n < 8" for x :: u8 and n using bit_imp_le_length [of x n] by simp
  have "of_le32 [a, b, c, d] = ucast a OR push_bit 8 (ucast b) OR push_bit 16 (ucast c) OR push_bit 24 (ucast d)"
    by simp
  also have "\<dots> = (ucast a OR push_bit 8 (ucast b) OR push_bit 16 (ucast c)) + push_bit 24 (ucast d)"
    by (subst disjunctive_add) (auto simp: bit_simps ac_simps dest: out)
  also have "ucast a OR push_bit 8 (ucast b) OR push_bit 16 (ucast c) =
      (ucast a OR push_bit 8 (ucast b)) + push_bit 16 (ucast c :: u32)"
    by (subst disjunctive_add) (auto simp: bit_simps ac_simps dest: out)
  also have "ucast a OR push_bit 8 (ucast b) = ucast a + push_bit 8 (ucast b :: u32)"
    by (subst disjunctive_add) (auto simp: bit_simps dest: out)
  finally show ?thesis .
qed

lemma inet_addr_ntoa: "inet_addr (inet_ntoa a) = a"
proof -
  obtain p q r t where l: "le32 a = [p, q, r, t]" by (simp add: le32_def)
  have "inet_aton (inet_ntoa a) =
      Some (unat p * 2 ^ 24 + unat q * 2 ^ 16 + unat r * 2 ^ 8 + unat t)"
    unfolding inet_ntoa_def l using inet_aton_quad [of "unat p" "unat q" "unat r" "unat t"] by simp
  moreover have "of_nat (unat p * 2 ^ 24 + unat q * 2 ^ 16 + unat r * 2 ^ 8 + unat t) = (of_le32 [t, r, q, p])"
    unfolding of_le32_sum by (simp add: push_bit_eq_mult)
  moreover have "of_le32 [t, r, q, p] = htonl a" by (simp add: htonl_def l)
  ultimately show ?thesis by (simp add: inet_addr_def del: of_nat_add of_nat_mult)
qed

text \<open>C14: the netmask property. The text is accepted exactly when it denotes a contiguous mask (the
  all-ones mask only in its dotted form, since \<open>inet_addr\<close> cannot tell it from an error), and the
  result is its prefix length; in particular the printed form of every mask that
  \<open>prefixLengthToIpv4Netmask\<close> builds is read back as its prefix length.\<close>

theorem mask_text_iff:
  "(mask_text v = Some k \<longleftrightarrow> k \<le> 32 \<and> ntohl (inet_addr v) = push_bit (32 - k) (NOT 0) \<and>
      (k = 32 \<longrightarrow> v = ''255.255.255.255'')) \<and>
   (k \<le> 32 \<longrightarrow> mask_text (inet_ntoa (prefixLengthToIpv4Netmask (int k))) = Some k)"
proof -
  have ones: "push_bit (32 - k) (NOT 0) = INADDR_NONE \<longleftrightarrow> k = 32" if "k \<le> 32" for k
  proof
    assume "push_bit (32 - k) (NOT 0) = INADDR_NONE"
    then have "bit (push_bit (32 - k) (NOT 0 :: u32)) 0" by (simp add: INADDR_NONE_def)
    then show "k = 32" using that by (simp add: bit_simps)
  qed (simp add: INADDR_NONE_def)
  have iff: "mask_text v = Some k \<longleftrightarrow> k \<le> 32 \<and> ntohl (inet_addr v) = push_bit (32 - k) (NOT 0) \<and>
      (k = 32 \<longrightarrow> v = ''255.255.255.255'')" for v k
    using ones [of k] by (auto simp: mask_text_def Let_def mask_scan_iff)
  have last: "inet_ntoa (prefixLengthToIpv4Netmask 32) = ''255.255.255.255''" by code_simp
  have "mask_text (inet_ntoa (prefixLengthToIpv4Netmask (int k))) = Some k" if "k \<le> 32"
    using that last netmask_shape [OF that] by (auto simp: iff inet_addr_ntoa)
  with iff show ?thesis by blast
qed

lemma mask_text_iff_witness:
  "mask_text (inet_ntoa (prefixLengthToIpv4Netmask (int 24))) = Some 24"
  using mask_text_iff [of "[]" 24] by simp

subsection \<open>The requests\<close>

text \<open>The name buffer, and what the property names become.\<close>

lemma p2p_None_iff: "get_p2p_interface_replacement ifname = None \<longleftrightarrow> take 3 ifname \<noteq> ''p2p'' \<and> 25 \<le> length ifname"
  by (auto simp: get_p2p_interface_replacement_def)

lemma fill_dns_log: "run_state (fill_dns os p2p x ds) s = (r, s') \<Longrightarrow> s' = s"
  by (induction ds arbitrary: x r) (auto simp: prop_get_def split: prod.splits)

lemma fill_from_effect:
  "run_state (fill_from os p2p info) s = ((r, info'), s') \<Longrightarrow>
   (r = 0 \<and> s' = s \<or> r = -1 \<and> (\<exists>v. s' = s\<lparr>du_errmsg := take 99 (''DHCP gave invalid net mask '' @ v)\<rparr> \<and>
      v = po_get os (prop_name p2p ''mask'') (du_props s) \<and> v \<noteq> [] \<and> mask_text v = None))"
  unfolding fill_from_def
  by (auto simp: prop_get_def set_errmsg_def Let_def dest!: fill_dns_log split: prod.splits option.splits if_splits)

lemma wait_cases:
  assumes "run_state (wait_for_property os name dv n) s = (w, s')"
  shows "(\<exists>j. 1 \<le> j \<and> j \<le> max 1 (5 * n) \<and> s' = after os j s \<and> (w = 0 \<and> wanted os name dv (du_props s') \<or> w = -1))"
proof -
  let ?P = "\<lambda>j. wanted os name dv ((po_nap os ^^ j) (du_props s))"
  have eq: "(w, s') = (case find ?P [1..<Suc (max 1 (5 * n))] of Some j \<Rightarrow> (0, after os j s)
      | None \<Rightarrow> (-1, after os (max 1 (5 * n)) s))"
    using assms unfolding wait_run by simp
  show ?thesis
  proof (cases "find ?P [1..<Suc (max 1 (5 * n))]")
    case None
    then show ?thesis using eq by (intro exI [of _ "max 1 (5 * n)"]) auto
  next
    case (Some j)
    then have "1 \<le> j" "j \<le> max 1 (5 * n)" "?P j" by (auto simp: find_Some_iff simp del: upt_Suc)
    then show ?thesis using eq Some by (intro exI [of _ j]) (auto simp: after_def)
  qed
qed

text \<open>How a request can fail, in \<open>errmsg\<close>.\<close>

definition request_error :: "string \<Rightarrow> bool" where
  "request_error msg \<longleftrightarrow>
     msg \<in> {''Timed out waiting for dhcpcd to start'', ''Timed out waiting for DHCP to finish'',
         ''DHCP result property was not set''} \<or>
     (\<exists>v. msg = take 99 (''DHCP result was '' @ v) \<and> v \<noteq> ''ok'') \<or>
     (\<exists>v. msg = take 99 (''DHCP gave invalid net mask '' @ v) \<and> mask_text v = None)"

lemma request_errors [intro]:
  "request_error ''Timed out waiting for dhcpcd to start''" "request_error ''Timed out waiting for DHCP to finish''"
  "request_error ''DHCP result property was not set''"
  "v \<noteq> ''ok'' \<Longrightarrow> request_error (take 99 (''DHCP result was '' @ v))"
  "mask_text v = None \<Longrightarrow> request_error (take 99 (''DHCP gave invalid net mask '' @ v))"
  unfolding request_error_def by blast+

lemma request_result_run:
  assumes "get_p2p_interface_replacement ifname = Some p2p"
    and "run_state (request_result os p2p ifname info) s = (x, s')"
  shows "\<exists>r info' k. x = Some (r, info') \<and> du_log s' = replicate k Nap @ du_log s \<and> 1 \<le> k \<and> k \<le> 150 \<and>
    (r = 0 \<and> du_errmsg s' = du_errmsg s \<and> po_get os (result_prop_name p2p) (du_props s') = ''ok'' \<or>
     r = -1 \<and> request_error (du_errmsg s'))"
proof -
  let ?n = "result_prop_name p2p"
  obtain w s1 where w: "run_state (wait_for_property os ?n None 30) s = (w, s1)" by (rule prod.exhaust)
  from wait_cases [OF w] obtain j where j: "1 \<le> j" "j \<le> 150" "s1 = after os j s" "w = 0 \<or> w = -1" by auto
  have k: "du_log s1 = replicate j Nap @ du_log s" "du_errmsg s1 = du_errmsg s" using j(3) by (simp_all add: after_def)
  let ?v = "po_get os ?n (du_props s1)"
  consider (late) "w = -1" | (unset) "w = 0" "?v = []" | (other) "w = 0" "?v \<noteq> []" "?v \<noteq> ''ok''" | (ok) "w = 0" "?v = ''ok''"
    using j(4) by blast
  then show ?thesis
  proof cases
    case late
    then have "x = Some (-1, info)" "s' = s1\<lparr>du_errmsg := ''Timed out waiting for DHCP to finish''\<rparr>"
      using assms(2) w by (simp_all add: request_result_def set_errmsg_def)
    then show ?thesis using k j by auto
  next
    case unset
    then have "x = Some (-1, info)" "s' = s1\<lparr>du_errmsg := ''DHCP result property was not set''\<rparr>"
      using assms(2) w by (simp_all add: request_result_def set_errmsg_def prop_get_def)
    then show ?thesis using k j by auto
  next
    case other
    then have "x = Some (-1, info)" "s' = s1\<lparr>du_errmsg := take 99 (''DHCP result was '' @ ?v)\<rparr>"
      using assms(2) w by (simp_all add: request_result_def set_errmsg_def prop_get_def del: take_append)
    then show ?thesis using k j other request_errors(4) by (auto simp del: take_append append.simps)
  next
    case ok
    obtain r info' s4 where f: "run_state (fill_from os p2p info) s1 = ((r, info'), s4)"
      by (cases "run_state (fill_from os p2p info) s1") auto
    have eff: "r = 0 \<and> s4 = s1 \<or> r = -1 \<and> request_error (du_errmsg s4) \<and> du_log s4 = du_log s1"
      using fill_from_effect [OF f] request_errors(5) by auto
    have "x = Some (r, info')" "s' = s4"
      using assms w ok f eff by (auto simp: request_result_def prop_get_def fill_ip_info_def)
    then show ?thesis using eff ok k j by auto
  qed
qed

lemma dhcp_do_request_run:
  assumes "get_p2p_interface_replacement ifname = Some p2p"
    and "run_state (dhcp_do_request os ifname info) s = (x, s')"
  shows "\<exists>r info' cmd k. x = Some (r, info') \<and>
    du_log s' = replicate k Nap @ [Set ''ctl.start'' cmd, Set (result_prop_name p2p) []] @ du_log s \<and>
    1 \<le> k \<and> k \<le> 200 \<and>
    (r = 0 \<and> du_errmsg s' = du_errmsg s \<and> po_get os (result_prop_name p2p) (du_props s') = ''ok'' \<or>
     r = -1 \<and> request_error (du_errmsg s'))"
proof -
  define s1 where "s1 = snd (run_state (do {
          prop_set os (result_prop_name p2p) [];
          v \<leftarrow> prop_get os ''net.hostname'';
          prop_set os ''ctl.start'' (request_cmd p2p ifname v) }) s)"
  obtain cmd where s1: "du_log s1 = [Set ''ctl.start'' cmd, Set (result_prop_name p2p) []] @ du_log s"
    "du_errmsg s1 = du_errmsg s"
    by (simp add: s1_def prop_set_def prop_get_def)
  obtain w s2 where w: "run_state (wait_for_property os (daemon_prop_name p2p) (Some ''running'') 10) s1 = (w, s2)"
    by (rule prod.exhaust)
  from wait_cases [OF w] obtain j where j: "1 \<le> j" "j \<le> 50" "s2 = after os j s1" "w = 0 \<or> w = -1" by auto
  have k: "du_log s2 = replicate j Nap @ [Set ''ctl.start'' cmd, Set (result_prop_name p2p) []] @ du_log s"
    "du_errmsg s2 = du_errmsg s" using j(3) s1 by (simp_all add: after_def)
  show ?thesis
  proof (cases "w = 0")
    case True
    then have "run_state (request_result os p2p ifname info) s2 = (x, s')"
      using assms w by (simp add: dhcp_do_request_def s1_def prop_set_def prop_get_def)
    from request_result_run [OF assms(1) this] obtain r info' i where
      r: "x = Some (r, info')" "du_log s' = replicate i Nap @ du_log s2" "1 \<le> i" "i \<le> 150"
      "r = 0 \<and> du_errmsg s' = du_errmsg s2 \<and> po_get os (result_prop_name p2p) (du_props s') = ''ok'' \<or>
       r = -1 \<and> request_error (du_errmsg s')" by blast
    then show ?thesis
      using k j by (intro exI [of _ r] exI [of _ info'] exI [of _ cmd] exI [of _ "i + j"]) (auto simp: replicate_add)
  next
    case False
    then have "x = Some (-1, info)" "s' = s2\<lparr>du_errmsg := ''Timed out waiting for dhcpcd to start''\<rparr>"
      using assms w j(4) by (auto simp: dhcp_do_request_def s1_def prop_set_def prop_get_def set_errmsg_def)
    then show ?thesis
      using k j by (intro exI [of _ "-1"] exI [of _ info] exI [of _ cmd] exI [of _ j]) auto
  qed
qed


text \<open>A service whose daemon answers at once, for the concrete instances.\<close>

definition quick_props :: "(string \<Rightarrow> string) prop_os" where
  "quick_props = \<lparr>po_get = \<lambda>n p. p n,
     po_set = \<lambda>n v p. if n = ''ctl.start'' then p(''init.svc.dhcpcd_wlan0'' := ''running'', ''dhcp.wlan0.result'' := ''ok'')
       else p(n := v), po_nap = \<lambda>p. p\<rparr>"

definition no_info :: ip_info where
  "no_info = \<lparr>ii_ipaddr = [], ii_gateway = [], ii_prefixLength = 0, ii_dns = [[], []], ii_server = [], ii_lease = 0,
     ii_vendorInfo = [], ii_domain = [], ii_mtu = [], ii_roaming = 0\<rparr>"

definition quick_start :: "(string \<Rightarrow> string) du" where
  "quick_start = \<lparr>du_props = (\<lambda>n. []), du_errmsg = [], du_log = []\<rparr>"


text \<open>an interface name of 25 characters or more, unless it starts with \<open>p2p\<close>, is copied without
  its terminator, and every operation of the file then prints the array: exactly these names make
  the operations undefined.\<close>

lemma dhcp_utils_name_buffer:
  assumes "x = fst (run_state (dhcp_do_request os ifname info) s)"
    and "y = fst (run_state (dhcp_do_request_renew os ifname info) s)"
    and "v = fst (run_state (dhcp_stop os ifname) s)" "w = fst (run_state (dhcp_release_lease os ifname) s)"
  shows "(x = None \<longleftrightarrow> take 3 ifname \<noteq> ''p2p'' \<and> 25 \<le> length ifname) \<and> (y = None \<longleftrightarrow> x = None) \<and>
    (v = None \<longleftrightarrow> x = None) \<and> (w = None \<longleftrightarrow> x = None)"
proof (cases "get_p2p_interface_replacement ifname")
  case None
  then show ?thesis
    using assms p2p_None_iff [of ifname]
    by (simp add: dhcp_do_request_def dhcp_do_request_renew_def dhcp_stop_def dhcp_release_lease_def)
next
  case (Some p2p)
  have "x \<noteq> None"
    using dhcp_do_request_run [OF Some, of os info s x] assms(1) by (metis option.distinct(1) prod.collapse)
  moreover have "y \<noteq> None"
    unfolding assms(2) using Some
    by (auto simp: dhcp_do_request_renew_def fill_ip_info_def set_errmsg_def prop_get_def prop_set_def split: prod.splits)
  moreover have "v \<noteq> None" "w \<noteq> None"
    unfolding assms(3,4) using Some
    by (auto simp: dhcp_stop_def dhcp_release_lease_def prop_set_def split: prod.splits)
  ultimately show ?thesis using Some p2p_None_iff [of ifname] by auto
qed

end
