(* ===== verification/ExifUtils.thy ===== *)
theory ExifUtils
  imports RawPacket
begin

text \<open>
  The byte-level routines of the EXIF library of the camera framework
  (\<open>external/libexif/libexif\<close>): \<open>exif-format.c\<close>,
  \<open>exif-byte-order.c\<close> and \<open>exif-utils.c\<close>. A buffer is the list of bytes from the pointer on.
\<close>

subsection \<open>Byte order and formats\<close>

datatype exif_byte_order = EXIF_BYTE_ORDER_MOTOROLA | EXIF_BYTE_ORDER_INTEL

definition exif_byte_order_get_name :: "exif_byte_order \<Rightarrow> string" where
  "exif_byte_order_get_name order =
     (case order of EXIF_BYTE_ORDER_MOTOROLA \<Rightarrow> ''Motorola'' | EXIF_BYTE_ORDER_INTEL \<Rightarrow> ''Intel'')"

text \<open>Formats are the integers of the file; the table is searched in order, up to its null entry.\<close>

abbreviation EXIF_FORMAT_BYTE :: nat where "EXIF_FORMAT_BYTE \<equiv> 1"
abbreviation EXIF_FORMAT_ASCII :: nat where "EXIF_FORMAT_ASCII \<equiv> 2"
abbreviation EXIF_FORMAT_SHORT :: nat where "EXIF_FORMAT_SHORT \<equiv> 3"
abbreviation EXIF_FORMAT_LONG :: nat where "EXIF_FORMAT_LONG \<equiv> 4"
abbreviation EXIF_FORMAT_RATIONAL :: nat where "EXIF_FORMAT_RATIONAL \<equiv> 5"
abbreviation EXIF_FORMAT_SBYTE :: nat where "EXIF_FORMAT_SBYTE \<equiv> 6"
abbreviation EXIF_FORMAT_UNDEFINED :: nat where "EXIF_FORMAT_UNDEFINED \<equiv> 7"
abbreviation EXIF_FORMAT_SSHORT :: nat where "EXIF_FORMAT_SSHORT \<equiv> 8"
abbreviation EXIF_FORMAT_SLONG :: nat where "EXIF_FORMAT_SLONG \<equiv> 9"
abbreviation EXIF_FORMAT_SRATIONAL :: nat where "EXIF_FORMAT_SRATIONAL \<equiv> 10"
abbreviation EXIF_FORMAT_FLOAT :: nat where "EXIF_FORMAT_FLOAT \<equiv> 11"
abbreviation EXIF_FORMAT_DOUBLE :: nat where "EXIF_FORMAT_DOUBLE \<equiv> 12"

definition ExifFormatTable :: "(nat \<times> string \<times> nat) list" where
  "ExifFormatTable =
     [(EXIF_FORMAT_SHORT, ''Short'', 2), (EXIF_FORMAT_RATIONAL, ''Rational'', 8),
      (EXIF_FORMAT_SRATIONAL, ''SRational'', 8), (EXIF_FORMAT_UNDEFINED, ''Undefined'', 1),
      (EXIF_FORMAT_ASCII, ''ASCII'', 1), (EXIF_FORMAT_LONG, ''Long'', 4), (EXIF_FORMAT_BYTE, ''Byte'', 1),
      (EXIF_FORMAT_SBYTE, ''SByte'', 1), (EXIF_FORMAT_SSHORT, ''SShort'', 2), (EXIF_FORMAT_SLONG, ''SLong'', 4),
      (EXIF_FORMAT_FLOAT, ''Float'', 4), (EXIF_FORMAT_DOUBLE, ''Double'', 8)]"

definition exif_format_get_name :: "nat \<Rightarrow> string option" where
  "exif_format_get_name format = map_option (fst \<circ> snd) (find (\<lambda>e. fst e = format) ExifFormatTable)"

definition exif_format_get_size :: "nat \<Rightarrow> nat" where
  "exif_format_get_size format =
     (case find (\<lambda>e. fst e = format) ExifFormatTable of None \<Rightarrow> 0 | Some e \<Rightarrow> snd (snd e))"

subsection \<open>Integers\<close>

text \<open>A signed value and its unsigned view are the same word; \<open>sint\<close> and \<open>unat\<close> read it.\<close>

definition exif_get_sshort :: "exif_byte_order \<Rightarrow> u8 list \<Rightarrow> u16" where
  "exif_get_sshort order buf =
     (case order of
        EXIF_BYTE_ORDER_MOTOROLA \<Rightarrow> push_bit 8 (ucast (buf ! 0)) OR ucast (buf ! 1)
      | EXIF_BYTE_ORDER_INTEL \<Rightarrow> push_bit 8 (ucast (buf ! 1)) OR ucast (buf ! 0))"

definition exif_get_short :: "exif_byte_order \<Rightarrow> u8 list \<Rightarrow> u16" where
  "exif_get_short order buf = exif_get_sshort order buf AND 0xffff"

definition exif_set_sshort :: "exif_byte_order \<Rightarrow> u16 \<Rightarrow> u8 list" where
  "exif_set_sshort order v =
     (case order of
        EXIF_BYTE_ORDER_MOTOROLA \<Rightarrow> [ucast (drop_bit 8 v), ucast v]
      | EXIF_BYTE_ORDER_INTEL \<Rightarrow> [ucast v, ucast (drop_bit 8 v)])"

definition exif_set_short :: "exif_byte_order \<Rightarrow> u16 \<Rightarrow> u8 list" where
  "exif_set_short order v = exif_set_sshort order v"

definition exif_get_slong :: "exif_byte_order \<Rightarrow> u8 list \<Rightarrow> u32" where
  "exif_get_slong order b =
     (case order of
        EXIF_BYTE_ORDER_MOTOROLA \<Rightarrow>
          push_bit 24 (ucast (b ! 0)) OR push_bit 16 (ucast (b ! 1)) OR push_bit 8 (ucast (b ! 2)) OR ucast (b ! 3)
      | EXIF_BYTE_ORDER_INTEL \<Rightarrow>
          push_bit 24 (ucast (b ! 3)) OR push_bit 16 (ucast (b ! 2)) OR push_bit 8 (ucast (b ! 1)) OR ucast (b ! 0))"

definition exif_get_long :: "exif_byte_order \<Rightarrow> u8 list \<Rightarrow> u32" where
  "exif_get_long order buf = exif_get_slong order buf AND 0xffffffff"

definition exif_set_slong :: "exif_byte_order \<Rightarrow> u32 \<Rightarrow> u8 list" where
  "exif_set_slong order v =
     (case order of
        EXIF_BYTE_ORDER_MOTOROLA \<Rightarrow>
          [ucast (drop_bit 24 v), ucast (drop_bit 16 v), ucast (drop_bit 8 v), ucast v]
      | EXIF_BYTE_ORDER_INTEL \<Rightarrow>
          [ucast v, ucast (drop_bit 8 v), ucast (drop_bit 16 v), ucast (drop_bit 24 v)])"

definition exif_set_long :: "exif_byte_order \<Rightarrow> u32 \<Rightarrow> u8 list" where
  "exif_set_long order v = exif_set_slong order v"

subsection \<open>Rationals\<close>

record exif_rational =
  numerator :: u32
  denominator :: u32

definition exif_get_srational :: "exif_byte_order \<Rightarrow> u8 list \<Rightarrow> exif_rational" where
  "exif_get_srational order buf =
     \<lparr>numerator = exif_get_slong order buf, denominator = exif_get_slong order (drop 4 buf)\<rparr>"

definition exif_get_rational :: "exif_byte_order \<Rightarrow> u8 list \<Rightarrow> exif_rational" where
  "exif_get_rational order buf =
     \<lparr>numerator = exif_get_long order buf, denominator = exif_get_long order (drop 4 buf)\<rparr>"

definition exif_set_rational :: "exif_byte_order \<Rightarrow> exif_rational \<Rightarrow> u8 list" where
  "exif_set_rational order v = exif_set_long order (numerator v) @ exif_set_long order (denominator v)"

definition exif_set_srational :: "exif_byte_order \<Rightarrow> exif_rational \<Rightarrow> u8 list" where
  "exif_set_srational order v = exif_set_slong order (numerator v) @ exif_set_slong order (denominator v)"

subsection \<open>Reading back what was written\<close>

lemma and_ffff: "(w :: u16) AND 0xffff = w"
proof -
  have "(0xffff :: u16) = -1" by simp
  then show ?thesis by (simp only: and.right_neutral)
qed

lemma and_ffffffff: "(w :: u32) AND 0xffffffff = w"
proof -
  have "(0xffffffff :: u32) = -1" by simp
  then show ?thesis by (simp only: and.right_neutral)
qed

lemma get_set_slong: "exif_get_slong order (exif_set_slong order v @ r) = v"
  using le32_join [of v] by (cases order) (simp_all add: exif_get_slong_def exif_set_slong_def ac_simps)

interpretation exif_s: struct_image "exif_set_sshort order" "exif_get_sshort order" 2 "\<lambda>_. True" for order
  using le16_join by unfold_locales
    (cases order; simp add: exif_get_sshort_def exif_set_sshort_def ac_simps)+

interpretation exif_l: struct_image "exif_set_slong order" "exif_get_slong order" 4 "\<lambda>_. True" for order
proof unfold_locales
  fix x :: u32 and r
  show "length (exif_set_slong order x) = 4" by (cases order) (simp_all add: exif_set_slong_def)
  show "exif_get_slong order (exif_set_slong order x @ r) = x" by (rule get_set_slong)
qed

interpretation exif_r: struct_image "exif_set_srational order" "exif_get_srational order" 8 "\<lambda>_. True" for order
proof unfold_locales
  fix x :: exif_rational and r
  show "length (exif_set_srational order x) = 8"
    by (simp add: exif_set_srational_def exif_l.enc_len)
  show "exif_get_srational order (exif_set_srational order x @ r) = x"
    unfolding exif_get_srational_def exif_set_srational_def append_assoc exif_l.drop_enc [OF TrueI]
    by (simp add: exif_l.dec_enc del: drop_append)
qed

lemma unsigned_views [simp]:
  "exif_get_short order = exif_get_sshort order" "exif_get_long order = exif_get_slong order"
  "exif_get_rational order = exif_get_srational order" "exif_set_rational order = exif_set_srational order"
  "exif_set_short order = exif_set_sshort order" "exif_set_long order = exif_set_slong order"
  by (auto simp: exif_get_short_def exif_get_long_def exif_get_rational_def exif_get_srational_def
      exif_set_rational_def exif_set_srational_def exif_set_short_def exif_set_long_def and_ffff and_ffffffff)

subsection \<open>Converting an array in place\<close>

text \<open>The loop of one format: read element \<open>j\<close> in the old order, write it in the new one.\<close>

fun conv_loop :: "(u8 list \<Rightarrow> u8 list) \<Rightarrow> nat \<Rightarrow> nat \<Rightarrow> nat \<Rightarrow> u8 list \<Rightarrow> u8 list" where
  "conv_loop f fs 0 j b = b"
| "conv_loop f fs (Suc n) j b = conv_loop f fs n (j + 1) (write_at (j * fs) (f (drop (j * fs) b)) b)"

definition exif_array_set_byte_order ::
  "nat \<Rightarrow> u8 list \<Rightarrow> nat \<Rightarrow> exif_byte_order \<Rightarrow> exif_byte_order \<Rightarrow> u8 list" where
  "exif_array_set_byte_order f b n o_orig o_new =
     (let fs = exif_format_get_size f in
      if n = 0 \<or> fs = 0 then b
      else if f = EXIF_FORMAT_SHORT then conv_loop (\<lambda>p. exif_set_short o_new (exif_get_short o_orig p)) fs n 0 b
      else if f = EXIF_FORMAT_SSHORT then conv_loop (\<lambda>p. exif_set_sshort o_new (exif_get_sshort o_orig p)) fs n 0 b
      else if f = EXIF_FORMAT_LONG then conv_loop (\<lambda>p. exif_set_long o_new (exif_get_long o_orig p)) fs n 0 b
      else if f = EXIF_FORMAT_RATIONAL then
        conv_loop (\<lambda>p. exif_set_rational o_new (exif_get_rational o_orig p)) fs n 0 b
      else if f = EXIF_FORMAT_SLONG then conv_loop (\<lambda>p. exif_set_slong o_new (exif_get_slong o_orig p)) fs n 0 b
      else if f = EXIF_FORMAT_SRATIONAL then
        conv_loop (\<lambda>p. exif_set_srational o_new (exif_get_srational o_orig p)) fs n 0 b
      else b)"

text \<open>The specification: the elements of the array one after the other, then the untouched rest.\<close>

fun conv_spec :: "(u8 list \<Rightarrow> u8 list) \<Rightarrow> nat \<Rightarrow> nat \<Rightarrow> u8 list \<Rightarrow> u8 list" where
  "conv_spec f fs 0 b = b"
| "conv_spec f fs (Suc n) b = f b @ conv_spec f fs n (drop fs b)"

lemma conv_loop_spec:
  assumes "\<And>p. length (f p) = fs"
  shows "length a = j * fs \<Longrightarrow> n * fs \<le> length b \<Longrightarrow> conv_loop f fs n j (a @ b) = a @ conv_spec f fs n b"
proof (induction n arbitrary: a b j)
  case (Suc n)
  have "write_at (j * fs) (f (drop (j * fs) (a @ b))) (a @ b) = (a @ f b) @ drop fs b"
    using Suc.prems assms by (simp add: write_at_def)
  moreover have "conv_loop f fs n (j + 1) ((a @ f b) @ drop fs b) = (a @ f b) @ conv_spec f fs n (drop fs b)"
    using Suc.prems assms by (intro Suc.IH) simp_all
  ultimately show ?case by simp
qed simp

text \<open>Encoding what was decoded gives the bytes back: the images of \<open>u16\<close> and \<open>u32\<close> are all byte strings.\<close>

lemma enc_dec_short: "2 \<le> length p \<Longrightarrow> exif_set_sshort order (exif_get_sshort order p) = take 2 p"
proof -
  assume "2 \<le> length p"
  then obtain a b r where p: "p = a # b # r" by (metis One_nat_def Suc_1 Suc_le_length_iff)
  have out: "bit x n \<Longrightarrow> n < 8" for x :: u8 and n using bit_imp_le_length [of x n] by simp
  have "ucast (drop_bit 8 (push_bit 8 (ucast x) OR ucast y :: u16)) = x"
    "ucast (push_bit 8 (ucast x) OR ucast y :: u16) = y" for x y :: u8
    by (rule bit_word_eqI; auto simp: bit_simps dest: out)+
  then show ?thesis
    unfolding p by (cases order) (simp_all add: exif_set_sshort_def exif_get_sshort_def)
qed

lemma four_bytes: "4 \<le> length p \<Longrightarrow> \<exists>a b c d r. p = a # b # c # d # r"
  by (auto simp: numeral_eq_Suc Suc_le_length_iff)

lemma enc_dec_long: "4 \<le> length p \<Longrightarrow> exif_set_slong order (exif_get_slong order p) = take 4 p"
proof -
  assume "4 \<le> length p"
  then obtain a b c d r where p: "p = a # b # c # d # r" using four_bytes by blast
  have le: "exif_set_slong EXIF_BYTE_ORDER_INTEL (of_le32 [w, x, y, z]) = [w, x, y, z]"
    "exif_set_slong EXIF_BYTE_ORDER_MOTOROLA (of_le32 [w, x, y, z]) = [z, y, x, w]" for w x y z
    unfolding exif_set_slong_def exif_byte_order.case by (simp_all only: byte_of_le32)
  have "exif_get_slong EXIF_BYTE_ORDER_INTEL p = of_le32 [a, b, c, d]"
    "exif_get_slong EXIF_BYTE_ORDER_MOTOROLA p = of_le32 [d, c, b, a]"
    unfolding p exif_get_slong_def by (simp_all add: ac_simps numeral_eq_Suc)
  then show ?thesis using le p by (cases order) (simp_all del: of_le32.simps)
qed

lemma enc_dec_rational: "8 \<le> length p \<Longrightarrow> exif_set_srational order (exif_get_srational order p) = take 8 p"
  by (simp add: exif_set_srational_def exif_get_srational_def enc_dec_long take_add [of 4 4, simplified])

text \<open>One element, for the six formats that have a byte order.\<close>

definition elem_conv :: "nat \<Rightarrow> exif_byte_order \<Rightarrow> exif_byte_order \<Rightarrow> u8 list \<Rightarrow> u8 list" where
  "elem_conv f o1 o2 p =
     (if f = EXIF_FORMAT_SHORT \<or> f = EXIF_FORMAT_SSHORT then exif_set_sshort o2 (exif_get_sshort o1 p)
      else if f = EXIF_FORMAT_LONG \<or> f = EXIF_FORMAT_SLONG then exif_set_slong o2 (exif_get_slong o1 p)
      else exif_set_srational o2 (exif_get_srational o1 p))"

definition has_order :: "nat \<Rightarrow> bool" where
  "has_order f \<longleftrightarrow> f \<in> {EXIF_FORMAT_SHORT, EXIF_FORMAT_SSHORT, EXIF_FORMAT_LONG, EXIF_FORMAT_SLONG,
     EXIF_FORMAT_RATIONAL, EXIF_FORMAT_SRATIONAL}"

lemma format_sizes [simp]:
  "exif_format_get_size 3 = 2" "exif_format_get_size 8 = 2" "exif_format_get_size 4 = 4" "exif_format_get_size 9 = 4"
  "exif_format_get_size 5 = 8" "exif_format_get_size 10 = 8"
  by (simp_all add: exif_format_get_size_def ExifFormatTable_def)

lemma length_elem_conv: "has_order f \<Longrightarrow> length (elem_conv f o1 o2 p) = exif_format_get_size f"
  by (auto simp: has_order_def elem_conv_def exif_s.enc_len exif_l.enc_len exif_r.enc_len)

lemma elem_conv_back:
  "has_order f \<Longrightarrow> exif_format_get_size f \<le> length p \<Longrightarrow>
   elem_conv f o2 o1 (elem_conv f o1 o2 p @ r) = take (exif_format_get_size f) p"
  by (auto simp: has_order_def elem_conv_def exif_s.dec_enc exif_l.dec_enc exif_r.dec_enc
      enc_dec_short enc_dec_long enc_dec_rational)

lemma array_conv:
  assumes "has_order f" "n * exif_format_get_size f \<le> length b"
  shows "exif_array_set_byte_order f b n o1 o2 = conv_spec (elem_conv f o1 o2) (exif_format_get_size f) n b"
proof -
  have "exif_array_set_byte_order f b n o1 o2 = conv_loop (elem_conv f o1 o2) (exif_format_get_size f) n 0 b"
    using assms(1)
    by (cases n) (auto simp: has_order_def exif_array_set_byte_order_def elem_conv_def [abs_def] Let_def simp del: conv_loop.simps(2))
  then show ?thesis
    using conv_loop_spec [of "elem_conv f o1 o2" "exif_format_get_size f" "[]" 0 n b] length_elem_conv [OF assms(1)] assms(2)
    by simp
qed

lemma length_conv_spec:
  "(\<And>p. length (f p) = fs) \<Longrightarrow> n * fs \<le> length b \<Longrightarrow> length (conv_spec f fs n b) = length b"
  by (induction n arbitrary: b) auto

lemma conv_spec_back:
  assumes "has_order f" "fs = exif_format_get_size f" "n * fs \<le> length b"
  shows "conv_spec (elem_conv f o2 o1) fs n (conv_spec (elem_conv f o1 o2) fs n b) = b"
  using assms(3)
proof (induction n arbitrary: b)
  case (Suc n)
  have "length (elem_conv f o1 o2 b) = fs" using assms(1,2) by (simp add: length_elem_conv)
  moreover have "elem_conv f o2 o1 (elem_conv f o1 o2 b @ conv_spec (elem_conv f o1 o2) fs n (drop fs b)) = take fs b"
    using assms(1,2) Suc.prems by (simp add: elem_conv_back)
  ultimately show ?case using Suc.IH [of "drop fs b"] Suc.prems by simp
qed simp

lemma conv_spec_same:
  assumes "has_order f" "fs = exif_format_get_size f" "n * fs \<le> length b"
  shows "conv_spec (elem_conv f o1 o1) fs n b = b"
  using assms(3)
proof (induction n arbitrary: b)
  case (Suc n)
  have "elem_conv f o1 o1 b = take fs b"
    using assms(1,2) Suc.prems
    by (auto simp: has_order_def elem_conv_def enc_dec_short enc_dec_long enc_dec_rational)
  then show ?case using Suc.IH [of "drop fs b"] Suc.prems by simp
qed simp

text \<open>Converting the byte order of an array in place. For every format of the table and every array
  that fits its buffer: the length is kept, converting back restores every byte, converting to the
  same order changes nothing, and a format without byte order (or not in the table) is left alone.\<close>

lemma exif_array_byte_order_roundtrip:
  assumes "n * exif_format_get_size f \<le> length b"
  shows "length (exif_array_set_byte_order f b n o1 o2) = length b \<and>
    exif_array_set_byte_order f (exif_array_set_byte_order f b n o1 o2) n o2 o1 = b \<and>
    exif_array_set_byte_order f b n o1 o1 = b \<and>
    (\<not> has_order f \<longrightarrow> exif_array_set_byte_order f b n o1 o2 = b)"
proof (cases "has_order f")
  case True
  have l: "length (conv_spec (elem_conv f o1 o2) (exif_format_get_size f) n b) = length b"
    using assms length_elem_conv [OF True] by (intro length_conv_spec) simp_all
  show ?thesis
    using True assms l by (simp add: array_conv conv_spec_back conv_spec_same)
next
  case False
  then have "exif_array_set_byte_order f b n o1 o2 = b" for b o1 o2
    by (auto simp: has_order_def exif_array_set_byte_order_def Let_def)
  then show ?thesis by simp
qed

subsection \<open>Text\<close>

text \<open>The conversion from UCS-2; the input ends with a zero unit, and a missing one is \<open>None\<close>.\<close>

fun utf8_loop :: "u16 list \<Rightarrow> nat \<Rightarrow> u8 list option" where
  "utf8_loop [] maxlen = None"
| "utf8_loop (c # cs) maxlen =
     (if c = 0 then Some [0]
      else if c < 0x80 then
        if maxlen > 1 then map_option (\<lambda>r. ucast c # r) (utf8_loop cs (maxlen - 1)) else Some [0]
      else if c < 0x800 then
        if maxlen > 2 then
          map_option (\<lambda>r. ((ucast (drop_bit 6 c) AND 0x1F) OR 0xC0) # ((ucast c AND 0x3F) OR 0x80) # r) (utf8_loop cs (maxlen - 2))
        else Some [0]
      else
        if maxlen > 3 then
          map_option (\<lambda>r. ((ucast (drop_bit 12 c) AND 0x0F) OR 0xE0) # ((ucast (drop_bit 6 c) AND 0x3F) OR 0x80) #
              ((ucast c AND 0x3F) OR 0x80) # r) (utf8_loop cs (maxlen - 3))
        else Some [0])"

definition exif_convert_utf16_to_utf8 :: "u16 list \<Rightarrow> int \<Rightarrow> u8 list option" where
  "exif_convert_utf16_to_utf8 inp maxlen = (if maxlen \<le> 0 then Some [] else utf8_loop inp (nat maxlen))"

definition utf8_enc :: "u16 \<Rightarrow> u8 list" where
  "utf8_enc c =
     (if c < 0x80 then [ucast c]
      else if c < 0x800 then [(ucast (drop_bit 6 c) AND 0x1F) OR 0xC0, (ucast c AND 0x3F) OR 0x80]
      else [(ucast (drop_bit 12 c) AND 0x0F) OR 0xE0, (ucast (drop_bit 6 c) AND 0x3F) OR 0x80, (ucast c AND 0x3F) OR 0x80])"

lemma utf8_loop_prefix:
  "0 \<notin> set cs \<Longrightarrow> 0 < maxlen \<Longrightarrow> \<exists>k\<le>length cs. utf8_loop (cs @ 0 # junk) maxlen = Some (concat (map utf8_enc (take k cs)) @ [0]) \<and>
     length (concat (map utf8_enc (take k cs))) < maxlen \<and>
     (k < length cs \<longrightarrow> maxlen \<le> length (concat (map utf8_enc (take (Suc k) cs))))"
proof (induction cs arbitrary: maxlen)
  case Nil
  then show ?case by simp
next
  case (Cons c cs)
  let ?w = "length (utf8_enc c)"
  have c0: "c \<noteq> 0" using Cons.prems by auto
  show ?case
  proof (cases "?w < maxlen")
    case False
    then have "utf8_loop ((c # cs) @ 0 # junk) maxlen = Some [0]"
      using c0 by (auto simp: utf8_enc_def split: if_splits)
    then show ?thesis using False Cons.prems by (intro exI [of _ 0]) simp
  next
    case True
    then have step: "utf8_loop ((c # cs) @ 0 # junk) maxlen =
        map_option (\<lambda>r. utf8_enc c @ r) (utf8_loop (cs @ 0 # junk) (maxlen - ?w))"
      using c0 by (auto simp: utf8_enc_def numeral_2_eq_2 numeral_3_eq_3 split: if_splits)
    obtain k where k: "k \<le> length cs"
      "utf8_loop (cs @ 0 # junk) (maxlen - ?w) = Some (concat (map utf8_enc (take k cs)) @ [0])"
      "length (concat (map utf8_enc (take k cs))) < maxlen - ?w"
      "k < length cs \<longrightarrow> maxlen - ?w \<le> length (concat (map utf8_enc (take (Suc k) cs)))"
      using Cons.IH [of "maxlen - ?w"] Cons.prems True by auto
    then show ?thesis
      unfolding step by (intro exI [of _ "Suc k"]) (auto simp del: append_Cons)
  qed
qed

text \<open>the conversion to UTF-8 writes the encodings of the longest prefix of the text that leaves
  room for the terminator, and the terminator: never more than \<open>maxlen\<close> bytes, never part of a
  character, and nothing at all when \<open>maxlen\<close> is not positive.\<close>

lemma exif_convert_utf16_to_utf8_prefix:
  assumes "0 \<notin> set cs"
  shows "if maxlen \<le> 0 then exif_convert_utf16_to_utf8 (cs @ 0 # junk) maxlen = Some []
    else \<exists>k\<le>length cs. exif_convert_utf16_to_utf8 (cs @ 0 # junk) maxlen = Some (concat (map utf8_enc (take k cs)) @ [0]) \<and>
      int (length (concat (map utf8_enc (take k cs)) @ [0])) \<le> maxlen \<and>
      (k < length cs \<longrightarrow> maxlen < int (length (concat (map utf8_enc (take (Suc k) cs)) @ [0])))"
proof (cases "maxlen \<le> 0")
  case False
  then obtain k where k: "k \<le> length cs" "utf8_loop (cs @ 0 # junk) (nat maxlen) = Some (concat (map utf8_enc (take k cs)) @ [0])"
      "length (concat (map utf8_enc (take k cs))) < nat maxlen"
      "k < length cs \<longrightarrow> nat maxlen \<le> length (concat (map utf8_enc (take (Suc k) cs)))"
    using utf8_loop_prefix [OF assms, of "nat maxlen" junk] by auto
  then have "int (length (concat (map utf8_enc (take k cs)) @ [0 :: u8])) \<le> maxlen"
    "k < length cs \<longrightarrow> maxlen < int (length (concat (map utf8_enc (take (Suc k) cs)) @ [0 :: u8]))"
    by (simp_all only: length_append list.size) linarith+
  then show ?thesis using k(1,2) False unfolding exif_convert_utf16_to_utf8_def by auto
qed (simp add: exif_convert_utf16_to_utf8_def)

end
