(* ===== verification/ExifLoader.thy ===== *)
theory ExifLoader
  imports NetPrelude
begin

text \<open>
  The incremental EXIF scanner \<open>exif-loader.c\<close> of \<open>external/libexif/libexif\<close>: a state machine fed with chunks
  of a file. It skips the sections of a JPEG file, collects two-byte lengths in a twelve-byte
  buffer, and copies the EXIF block once its size is known. Memory is allocated through the
  parameter \<open>al\<close>, which says whether a request for so many bytes is granted (blocks are zeroed).
\<close>

subsection \<open>State\<close>

datatype el_state = EL_READ | EL_READ_SIZE_BYTE_24 | EL_READ_SIZE_BYTE_16 | EL_READ_SIZE_BYTE_08
  | EL_READ_SIZE_BYTE_00 | EL_SKIP_BYTES | EL_EXIF_FOUND

datatype el_format = EL_DATA_FORMAT_UNKNOWN | EL_DATA_FORMAT_EXIF | EL_DATA_FORMAT_JPEG | EL_DATA_FORMAT_FUJI_RAW

record loader =
  ld_state :: el_state
  ld_format :: el_format
  ld_b :: "u8 list"
  ld_b_len :: nat
  ld_size :: u32
  ld_buf :: "u8 list option"
  ld_bytes_read :: nat

definition ExifHeader :: "u8 list" where
  "ExifHeader = [0x45, 0x78, 0x69, 0x66, 0, 0]"

definition FUJIFILM :: "u8 list" where
  "FUJIFILM = [0x46, 0x55, 0x4A, 0x49, 0x46, 0x49, 0x4C, 0x4D]"

definition exif_loader_new :: loader where
  "exif_loader_new = \<lparr>ld_state = EL_READ, ld_format = EL_DATA_FORMAT_UNKNOWN, ld_b = replicate 12 0, ld_b_len = 0,
     ld_size = 0, ld_buf = None, ld_bytes_read = 0\<rparr>"

definition exif_loader_reset :: "loader \<Rightarrow> loader" where
  "exif_loader_reset l = l\<lparr>ld_buf := None, ld_size := 0, ld_bytes_read := 0, ld_state := EL_READ, ld_b_len := 0,
     ld_format := EL_DATA_FORMAT_UNKNOWN\<rparr>"

definition exif_loader_alloc :: "(nat \<Rightarrow> bool) \<Rightarrow> u32 \<Rightarrow> u8 list option" where
  "exif_loader_alloc al i = (if i = 0 then None else if al (unat i) then Some (replicate (unat i) 0) else None)"

subsection \<open>Operations\<close>

definition exif_loader_copy :: "(nat \<Rightarrow> bool) \<Rightarrow> loader \<Rightarrow> u8 list \<Rightarrow> loader \<times> bool" where
  "exif_loader_copy al l buf =
     (if ld_bytes_read l \<ge> unat (ld_size l) then (l, False)
      else
        let l = (case ld_buf l of None \<Rightarrow> l\<lparr>ld_buf := exif_loader_alloc al (ld_size l)\<rparr> | Some _ \<Rightarrow> l)
        in case ld_buf l of
             None \<Rightarrow> (l, False)
           | Some b \<Rightarrow>
               let len = min (length buf) (unat (ld_size l) - ld_bytes_read l);
                   l = l\<lparr>ld_buf := Some (write_at (ld_bytes_read l) (take len buf) b),
                         ld_bytes_read := ld_bytes_read l + len\<rparr>
               in (l, ld_bytes_read l < unat (ld_size l)))"

text \<open>The check of the full small buffer against the known formats.\<close>

definition el_detect :: "loader \<Rightarrow> loader" where
  "el_detect l =
     (if ld_format l = EL_DATA_FORMAT_UNKNOWN then
        if take 8 (ld_b l) = FUJIFILM then l\<lparr>ld_format := EL_DATA_FORMAT_FUJI_RAW, ld_size := 84, ld_state := EL_SKIP_BYTES\<rparr>
        else if slice 2 6 (ld_b l) = ExifHeader then l\<lparr>ld_format := EL_DATA_FORMAT_EXIF, ld_state := EL_READ_SIZE_BYTE_08\<rparr>
        else l
      else l)"

text \<open>
  The body of the loop over the small buffer, for byte \<open>i\<close>: go on, or return. \<open>rest\<close> is what is left
  of the chunk. The markers are those of \<open>exif-loader.c\<close>: DHT 0xc4, SOI 0xd8, DQT 0xdb, APP0 0xe0,
  APP1 0xe1, APP2 0xe2, APP13 0xed, COM 0xfe.
\<close>

definition el_byte :: "(nat \<Rightarrow> bool) \<Rightarrow> u8 list \<Rightarrow> nat \<Rightarrow> loader \<Rightarrow> loader + (loader \<times> bool)" where
  "el_byte al rest i l =
     (let c = ld_b l ! i in
      case ld_state l of
        EL_EXIF_FOUND \<Rightarrow>
          (case exif_loader_copy al l (drop i (ld_b l)) of
             (l, ok) \<Rightarrow> if \<not> ok then Inr (l, False) else Inr (exif_loader_copy al l rest))
      | EL_SKIP_BYTES \<Rightarrow>
          let l = l\<lparr>ld_size := ld_size l - 1\<rparr>
          in Inl (if ld_size l = 0 then l\<lparr>ld_state := EL_READ\<rparr> else l)
      | EL_READ_SIZE_BYTE_24 \<Rightarrow> Inl (l\<lparr>ld_size := ld_size l OR push_bit 24 (ucast c), ld_state := EL_READ_SIZE_BYTE_16\<rparr>)
      | EL_READ_SIZE_BYTE_16 \<Rightarrow> Inl (l\<lparr>ld_size := ld_size l OR push_bit 16 (ucast c), ld_state := EL_READ_SIZE_BYTE_08\<rparr>)
      | EL_READ_SIZE_BYTE_08 \<Rightarrow> Inl (l\<lparr>ld_size := ld_size l OR push_bit 8 (ucast c), ld_state := EL_READ_SIZE_BYTE_00\<rparr>)
      | EL_READ_SIZE_BYTE_00 \<Rightarrow>
          let l = l\<lparr>ld_size := ld_size l OR ucast c\<rparr>
          in Inl (case ld_format l of
               EL_DATA_FORMAT_JPEG \<Rightarrow> l\<lparr>ld_state := EL_SKIP_BYTES, ld_size := ld_size l - 2\<rparr>
             | EL_DATA_FORMAT_FUJI_RAW \<Rightarrow>
                 l\<lparr>ld_format := EL_DATA_FORMAT_EXIF, ld_state := EL_SKIP_BYTES, ld_size := ld_size l - 86\<rparr>
             | EL_DATA_FORMAT_EXIF \<Rightarrow> l\<lparr>ld_state := EL_EXIF_FOUND\<rparr>
             | EL_DATA_FORMAT_UNKNOWN \<Rightarrow> l)
      | EL_READ \<Rightarrow>
          if c = 0xe1 then
            let n = min 6 (12 - i - 3);
                fmt = (if slice (i + 3) n (ld_b l) = take n ExifHeader then EL_DATA_FORMAT_EXIF else EL_DATA_FORMAT_JPEG)
            in Inl (l\<lparr>ld_format := fmt, ld_size := 0, ld_state := EL_READ_SIZE_BYTE_08\<rparr>)
          else if c = 0xc4 \<or> c = 0xdb \<or> c = 0xe0 \<or> c = 0xe2 \<or> c = 0xed \<or> c = 0xfe then
            Inl (l\<lparr>ld_format := EL_DATA_FORMAT_JPEG, ld_size := 0, ld_state := EL_READ_SIZE_BYTE_08\<rparr>)
          else if c = 0xff \<or> c = 0xd8 then Inl l
          else Inr (exif_loader_reset l, False))"

fun el_scan :: "(nat \<Rightarrow> bool) \<Rightarrow> u8 list \<Rightarrow> nat \<Rightarrow> loader \<Rightarrow> loader + (loader \<times> bool)" where
  "el_scan al rest 0 l = Inl l"
| "el_scan al rest (Suc n) l =
     (case el_byte al rest (11 - n) l of Inl l \<Rightarrow> el_scan al rest n l | Inr r \<Rightarrow> Inr r)"

text \<open>The entry: bytes are skipped in bulk; then the small buffer is filled; \<open>(l, buf)\<close> is what goes on.\<close>

definition el_enter :: "loader \<Rightarrow> u8 list \<Rightarrow> loader \<times> u8 list" where
  "el_enter l buf =
     (if ld_state l = EL_SKIP_BYTES then
        (l\<lparr>ld_size := 0, ld_b_len := 0,
           ld_state := (if ld_format l = EL_DATA_FORMAT_FUJI_RAW then EL_READ_SIZE_BYTE_24 else EL_READ)\<rparr>,
         drop (unat (ld_size l)) buf)
      else (l, buf))"

definition el_fill :: "loader \<Rightarrow> u8 list \<Rightarrow> loader \<times> u8 list" where
  "el_fill l buf =
     (let i = min (length buf) (12 - ld_b_len l)
      in (l\<lparr>ld_b := write_at (ld_b_len l) (take i buf) (ld_b l), ld_b_len := ld_b_len l + i\<rparr>, drop i buf))"

lemma length_enter: "length (snd (el_enter l buf)) \<le> length buf"
  by (simp add: el_enter_def)

lemma enter_b_len: "12 \<le> ld_b_len (fst (el_enter l buf)) \<Longrightarrow> 12 \<le> ld_b_len l"
  by (simp add: el_enter_def split: if_splits)

lemma length_fill: "length (snd (el_fill l buf)) = length buf - (12 - ld_b_len l)"
  by (simp add: el_fill_def Let_def min_def)

function exif_loader_write :: "(nat \<Rightarrow> bool) \<Rightarrow> loader \<Rightarrow> u8 list \<Rightarrow> loader \<times> bool" where
  "exif_loader_write al l buf =
     (if ld_state l = EL_EXIF_FOUND then exif_loader_copy al l buf
      else if ld_state l = EL_SKIP_BYTES \<and> unat (ld_size l) > length buf then
        (l\<lparr>ld_size := ld_size l - of_nat (length buf)\<rparr>, True)
      else
        let (l1, buf1) = el_enter l buf
        in if buf1 = [] then (l1, True)
           else
             let (l2, buf2) = el_fill l1 buf1
             in if ld_b_len l1 < 12 \<and> ld_b_len l2 < 12 then (l2, True)
                else
                  case el_scan al buf2 12 (el_detect l2) of
                    Inr r \<Rightarrow> r
                  | Inl l3 \<Rightarrow> exif_loader_write al (l3\<lparr>ld_b_len := 0\<rparr>) buf2)"
  by pat_completeness auto
termination
proof (relation "measure (\<lambda>(al, l, buf). 2 * length buf + (if 12 \<le> ld_b_len l then 1 else 0))")
  fix al :: "nat \<Rightarrow> bool" and l l1 l2 l3 :: loader and buf buf1 buf2 :: "u8 list" and x y
  assume e: "x = el_enter l buf" "(l1, buf1) = x" and ne: "buf1 \<noteq> []" and f: "y = el_fill l1 buf1" "(l2, buf2) = y"
  have l: "length buf1 \<le> length buf" using length_enter [of l buf] e by (metis snd_conv)
  have m: "length buf2 = length buf1 - (12 - ld_b_len l1)" using length_fill [of l1 buf1] f by (metis snd_conv)
  have b: "12 \<le> ld_b_len l1 \<longrightarrow> 12 \<le> ld_b_len l" using enter_b_len [of l buf] e by (metis fst_conv)
  have n: "0 < length buf1" using ne by simp
  have "2 * length buf2 < 2 * length buf + (if 12 \<le> ld_b_len l then 1 else 0)"
  proof (cases "12 \<le> ld_b_len l1")
    case True
    then show ?thesis using l m b by simp
  next
    case False
    then have "length buf2 < length buf1" using m n by linarith
    then show ?thesis using l by linarith
  qed
  then show "((al, l3\<lparr>ld_b_len := 0\<rparr>, buf2), al, l, buf) \<in> measure (\<lambda>(al, l, buf). 2 * length buf + (if 12 \<le> ld_b_len l then 1 else 0))"
    by simp
qed simp

declare exif_loader_write.simps [simp del]

text \<open>The file reader: chunks of at most 1024 bytes until one is refused.\<close>

function exif_loader_write_file :: "(nat \<Rightarrow> bool) \<Rightarrow> loader \<Rightarrow> u8 list \<Rightarrow> loader" where
  "exif_loader_write_file al l contents =
     (if contents = [] then l
      else case exif_loader_write al l (take 1024 contents) of
        (l, ok) \<Rightarrow> if ok then exif_loader_write_file al l (drop 1024 contents) else l)"
  by pat_completeness auto
termination
  by (relation "measure (\<lambda>(al, l, c). length c)") auto

declare exif_loader_write_file.simps [simp del]

definition exif_loader_get_buf :: "loader \<Rightarrow> u8 list option \<times> nat" where
  "exif_loader_get_buf l = (if ld_format l = EL_DATA_FORMAT_UNKNOWN then (None, 0) else (ld_buf l, ld_bytes_read l))"

text \<open>\<open>load\<close> is \<open>exif_data_load_data\<close> on a new data object.\<close>

definition exif_loader_get_data :: "(u8 list \<Rightarrow> 'e) \<Rightarrow> loader \<Rightarrow> 'e option" where
  "exif_loader_get_data load l =
     (if ld_format l = EL_DATA_FORMAT_UNKNOWN \<or> ld_bytes_read l = 0 then None
      else map_option (\<lambda>b. load (take (ld_bytes_read l) b)) (ld_buf l))"

subsection \<open>The invariant\<close>

text \<open>
  The small buffer has twelve bytes; outside the copying state nothing is allocated or counted and,
  between calls, the small buffer is not full; in the copying state the block has the announced size
  and the count is within it.
\<close>

definition ld_core :: "loader \<Rightarrow> bool" where
  "ld_core l \<longleftrightarrow> length (ld_b l) = 12
     \<and> (if ld_state l = EL_EXIF_FOUND
         then (\<forall>b. ld_buf l = Some b \<longrightarrow> length b = unat (ld_size l) \<and> ld_bytes_read l \<le> unat (ld_size l))
           \<and> (ld_buf l = None \<longrightarrow> ld_bytes_read l = 0)
         else ld_buf l = None \<and> ld_bytes_read l = 0)"

definition ld_ok :: "loader \<Rightarrow> bool" where
  "ld_ok l \<longleftrightarrow> ld_core l \<and> (ld_state l \<noteq> EL_EXIF_FOUND \<longrightarrow> ld_b_len l < 12)"

lemma ld_ok_new: "ld_ok exif_loader_new"
  by (simp add: ld_ok_def ld_core_def exif_loader_new_def)

definition ld_block :: "(nat \<Rightarrow> bool) \<Rightarrow> loader \<Rightarrow> u8 list option" where
  "ld_block al l = (case ld_buf l of None \<Rightarrow> exif_loader_alloc al (ld_size l) | Some b \<Rightarrow> Some b)"

lemma copy_refused:
  "unat (ld_size l) \<le> ld_bytes_read l \<or> ld_block al l = None \<Longrightarrow> exif_loader_copy al l buf = (l, False)"
  by (auto simp: exif_loader_copy_def ld_block_def Let_def split: option.splits)

lemma copy_granted:
  assumes "ld_bytes_read l < unat (ld_size l)" "ld_block al l = Some b"
  shows "exif_loader_copy al l buf =
    (l\<lparr>ld_buf := Some (write_at (ld_bytes_read l) (take (unat (ld_size l) - ld_bytes_read l) buf) b),
       ld_bytes_read := ld_bytes_read l + min (length buf) (unat (ld_size l) - ld_bytes_read l)\<rparr>,
     length buf < unat (ld_size l) - ld_bytes_read l)"
proof -
  have t: "take (min (length buf) n) buf = take n buf" for n by (simp add: min_def)
  show ?thesis
    using assms by (auto simp: exif_loader_copy_def ld_block_def Let_def t split: option.splits)
qed

lemma block_length:
  "ld_core l \<Longrightarrow> ld_state l = EL_EXIF_FOUND \<Longrightarrow> ld_block al l = Some b \<Longrightarrow> length b = unat (ld_size l)"
  by (auto simp: ld_core_def ld_block_def exif_loader_alloc_def split: option.splits if_splits)

lemma copy_cases:
  obtains "\<And>buf. exif_loader_copy al l buf = (l, False)"
  | b where "ld_bytes_read l < unat (ld_size l)" "ld_block al l = Some b"
proof (cases "ld_bytes_read l < unat (ld_size l) \<and> ld_block al l \<noteq> None")
  case True
  then show ?thesis using that(2) by blast
next
  case False
  then have "\<And>buf. exif_loader_copy al l buf = (l, False)" by (intro copy_refused) auto
  then show ?thesis by (rule that(1))
qed

lemma copy_core:
  assumes c: "ld_core l" and s: "ld_state l = EL_EXIF_FOUND" and e: "exif_loader_copy al l buf = (l', r)"
  shows "ld_core l' \<and> ld_state l' = EL_EXIF_FOUND"
proof (cases rule: copy_cases [of al l])
  case 1
  then show ?thesis using c s e by simp
next
  case (2 b)
  have "length b = unat (ld_size l)" by (rule block_length [OF c s 2(2)])
  moreover have "length (ld_b l) = 12" using c by (simp add: ld_core_def)
  ultimately show ?thesis
    using e s 2(1) by (auto simp: copy_granted [OF 2] ld_core_def)
qed

lemma copy_append:
  assumes c: "ld_core l" and s: "ld_state l = EL_EXIF_FOUND" and e: "exif_loader_copy al l a = (l1, True)"
  shows "exif_loader_copy al l (a @ b) = exif_loader_copy al l1 b"
proof (cases rule: copy_cases [of al l])
  case 1
  then show ?thesis using e by simp
next
  case (2 blk)
  have len: "length blk = unat (ld_size l)" by (rule block_length [OF c s 2(2)])
  have lt: "length a < unat (ld_size l) - ld_bytes_read l"
    and l1: "l1 = l\<lparr>ld_buf := Some (write_at (ld_bytes_read l) a blk), ld_bytes_read := ld_bytes_read l + length a\<rparr>"
    using e by (auto simp: copy_granted [OF 2])
  have g1: "ld_bytes_read l1 < unat (ld_size l1)" using lt l1 by simp
  have g2: "ld_block al l1 = Some (write_at (ld_bytes_read l) a blk)" by (simp add: l1 ld_block_def)
  have w: "write_at (ld_bytes_read l) (a @ ys) blk = write_at (ld_bytes_read l + length a) ys (write_at (ld_bytes_read l) a blk)" for ys
    by (rule write_at_append) (use lt len in simp)
  show ?thesis
    unfolding copy_granted [OF 2] copy_granted [OF g1 g2] using lt by (auto simp: l1 w)
qed

lemma copy_stop:
  assumes e: "exif_loader_copy al l a = (l1, False)"
  shows "exif_loader_copy al l (a @ b) = (l1, False)"
proof (cases rule: copy_cases [of al l])
  case 1
  then show ?thesis using e by simp
next
  case (2 blk)
  have n: "unat (ld_size l) - ld_bytes_read l \<le> length a" using e by (auto simp: copy_granted [OF 2])
  have "take (unat (ld_size l) - ld_bytes_read l) (a @ b) = take (unat (ld_size l) - ld_bytes_read l) a" using n by simp
  moreover have "min (length (a @ b)) (unat (ld_size l) - ld_bytes_read l) = min (length a) (unat (ld_size l) - ld_bytes_read l)"
    using n by simp
  ultimately show ?thesis using e n by (simp add: copy_granted [OF 2])
qed

lemma detect_core: "ld_core l \<Longrightarrow> ld_state l \<noteq> EL_EXIF_FOUND \<Longrightarrow> ld_core (el_detect l) \<and> ld_state (el_detect l) \<noteq> EL_EXIF_FOUND"
  by (simp add: el_detect_def ld_core_def)

lemma byte_core:
  "ld_core l \<Longrightarrow> el_byte al rest i l = Inl l' \<Longrightarrow> ld_core l'"
  by (auto simp: el_byte_def ld_core_def Let_def split: el_state.splits el_format.splits if_splits prod.splits)

lemma byte_core_stop:
  assumes "ld_core l" "el_byte al rest i l = Inr (l', r)"
  shows "ld_ok l'"
proof (cases "ld_state l = EL_EXIF_FOUND")
  case True
  obtain l1 ok where c: "exif_loader_copy al l (drop i (ld_b l)) = (l1, ok)" by (metis surj_pair)
  have k: "ld_core l1 \<and> ld_state l1 = EL_EXIF_FOUND" by (rule copy_core [OF assms(1) True c])
  show ?thesis
    using assms(2) k copy_core [of l1 al rest l' r] by (auto simp: el_byte_def ld_ok_def Let_def True c split: if_splits)
next
  case False
  then show ?thesis
    using assms by (auto simp: el_byte_def ld_ok_def ld_core_def exif_loader_reset_def Let_def split: el_state.splits if_splits)
qed

lemma scan_core: "ld_core l \<Longrightarrow> el_scan al rest n l = Inl l' \<Longrightarrow> ld_core l'"
  by (induction n arbitrary: l) (auto split: sum.splits dest: byte_core)

lemma scan_core_stop: "ld_core l \<Longrightarrow> el_scan al rest n l = Inr (l', r) \<Longrightarrow> ld_ok l'"
  by (induction n arbitrary: l) (auto split: sum.splits dest: byte_core byte_core_stop)


subsection \<open>Chunks\<close>

lemma byte_other: "ld_state l \<noteq> EL_EXIF_FOUND \<Longrightarrow> el_byte al r i l = el_byte al q i l"
  by (cases "ld_state l") (simp_all add: el_byte_def Let_def)

lemma byte_found:
  "ld_state l = EL_EXIF_FOUND \<Longrightarrow> el_byte al r i l =
    (case exif_loader_copy al l (drop i (ld_b l)) of (l1, ok) \<Rightarrow> Inr (if ok then exif_loader_copy al l1 r else (l1, False)))"
  by (simp add: el_byte_def Let_def split: prod.split)

lemma byte_go: "el_byte al r i l = Inl l' \<Longrightarrow> el_byte al q i l = Inl l'"
  by (cases "ld_state l = EL_EXIF_FOUND") (auto simp: byte_found byte_other [where q = q and r = r] split: prod.splits)

lemma byte_stop: "el_byte al r i l = Inr (l', False) \<Longrightarrow> el_byte al (r @ b) i l = Inr (l', False)"
  by (cases "ld_state l = EL_EXIF_FOUND")
    (auto simp: byte_found copy_stop byte_other [where q = "r @ b" and r = r] split: prod.splits if_splits)

lemma byte_copy:
  assumes c: "ld_core l" and e: "el_byte al r i l = Inr (l', True)"
  shows "ld_state l' = EL_EXIF_FOUND \<and> el_byte al (r @ b) i l = Inr (exif_loader_copy al l' b)"
proof -
  have s: "ld_state l = EL_EXIF_FOUND"
    using e by (auto simp: el_byte_def Let_def split: el_state.splits if_splits)
  obtain l1 ok where f: "exif_loader_copy al l (drop i (ld_b l)) = (l1, ok)" by (metis surj_pair)
  have k: "ld_core l1 \<and> ld_state l1 = EL_EXIF_FOUND" by (rule copy_core [OF c s f])
  have ok: ok and g: "exif_loader_copy al l1 r = (l', True)"
    using e by (auto simp: el_byte_def Let_def s f split: if_splits)
  show ?thesis
    using copy_core [of l1 al r l' True] copy_append [of l1 al r l' b] k ok g by (simp add: el_byte_def Let_def s f)
qed

lemma scan_go: "el_scan al r n l = Inl l' \<Longrightarrow> el_scan al q n l = Inl l'"
  by (induction n arbitrary: l) (auto split: sum.splits dest: byte_go [where q = q])

lemma scan_stop: "el_scan al r n l = Inr (l', False) \<Longrightarrow> el_scan al (r @ b) n l = Inr (l', False)"
  by (induction n arbitrary: l) (auto split: sum.splits dest: byte_go [where q = "r @ b"] byte_stop [where b = b])

lemma scan_copy:
  "ld_core l \<Longrightarrow> el_scan al r n l = Inr (l', True) \<Longrightarrow>
    ld_state l' = EL_EXIF_FOUND \<and> el_scan al (r @ b) n l = Inr (exif_loader_copy al l' b)"
proof (induction n arbitrary: l)
  case (Suc n)
  show ?case
  proof (cases "el_byte al r (11 - n) l")
    case (Inl k)
    then show ?thesis using Suc byte_core [OF Suc.prems(1) Inl] by (simp add: byte_go [OF Inl])
  next
    case (Inr k)
    then show ?thesis using Suc.prems byte_copy [of l al r "11 - n" l' b] by simp
  qed
qed simp

lemma enter_core:
  "ld_ok l \<Longrightarrow> ld_state l \<noteq> EL_EXIF_FOUND \<Longrightarrow>
    ld_ok (fst (el_enter l buf)) \<and> ld_state (fst (el_enter l buf)) \<noteq> EL_EXIF_FOUND \<and> ld_state (fst (el_enter l buf)) \<noteq> EL_SKIP_BYTES"
  by (simp add: el_enter_def ld_ok_def ld_core_def)

lemma fill_core:
  "ld_ok l \<Longrightarrow> ld_state l \<noteq> EL_EXIF_FOUND \<Longrightarrow> ld_core (fst (el_fill l buf)) \<and> ld_state (fst (el_fill l buf)) = ld_state l"
  by (auto simp: el_fill_def Let_def ld_ok_def ld_core_def min_def)

lemma fill_split:
  assumes "ld_b_len (fst (el_fill l a)) < 12" "ld_ok l" "ld_state l \<noteq> EL_EXIF_FOUND"
  shows "el_fill l (a @ b) = el_fill (fst (el_fill l a)) b"
proof -
  have lt: "length a < 12 - ld_b_len l"
    using assms by (auto simp: el_fill_def Let_def ld_ok_def ld_core_def min_def split: if_splits)
  have n: "length (ld_b l) = 12" using assms(2) by (simp add: ld_ok_def ld_core_def)
  have w: "write_at (ld_b_len l) (a @ ys) (ld_b l) = write_at (ld_b_len l + length a) ys (write_at (ld_b_len l) a (ld_b l))" for ys
    by (rule write_at_append) (use lt n in simp)
  show ?thesis using lt by (auto simp: el_fill_def Let_def w min_def)
qed

lemma fill_full:
  assumes "12 \<le> ld_b_len (fst (el_fill l a))" "ld_b_len l < 12"
  shows "el_fill l (a @ b) = (fst (el_fill l a), snd (el_fill l a) @ b)"
proof -
  have "12 - ld_b_len l \<le> length a" using assms by (auto simp: el_fill_def Let_def min_def split: if_splits)
  then show ?thesis by (simp add: el_fill_def Let_def min_def)
qed


lemma write_found: "ld_state l = EL_EXIF_FOUND \<Longrightarrow> exif_loader_write al l buf = exif_loader_copy al l buf"
  by (subst exif_loader_write.simps) simp

lemma write_bulk:
  "ld_state l = EL_SKIP_BYTES \<Longrightarrow> length buf < unat (ld_size l) \<Longrightarrow>
    exif_loader_write al l buf = (l\<lparr>ld_size := ld_size l - of_nat (length buf)\<rparr>, True)"
  by (subst exif_loader_write.simps) simp

text \<open>Neither copying nor skipping the whole chunk.\<close>

definition el_scans :: "loader \<Rightarrow> u8 list \<Rightarrow> bool" where
  "el_scans l buf \<longleftrightarrow> ld_state l \<noteq> EL_EXIF_FOUND \<and> \<not> (ld_state l = EL_SKIP_BYTES \<and> length buf < unat (ld_size l))"

lemma write_scans:
  assumes "el_scans l buf"
  shows "exif_loader_write al l buf =
    (let (l1, buf1) = el_enter l buf
     in if buf1 = [] then (l1, True)
        else let (l2, buf2) = el_fill l1 buf1
          in if ld_b_len l1 < 12 \<and> ld_b_len l2 < 12 then (l2, True)
             else case el_scan al buf2 12 (el_detect l2) of
                 Inr r \<Rightarrow> r
               | Inl l3 \<Rightarrow> exif_loader_write al (l3\<lparr>ld_b_len := 0\<rparr>) buf2)"
  using assms by (subst exif_loader_write.simps) (auto simp: el_scans_def)

lemma enter_idem: "ld_state l \<noteq> EL_SKIP_BYTES \<Longrightarrow> el_enter l buf = (l, buf)"
  by (simp add: el_enter_def)

lemma write_enter:
  assumes s: "el_scans l buf" and o: "ld_ok l" and e: "el_enter l buf = (l1, buf1)"
  shows "exif_loader_write al l buf = exif_loader_write al l1 buf1"
proof -
  have k: "ld_state l1 \<noteq> EL_EXIF_FOUND" "ld_state l1 \<noteq> EL_SKIP_BYTES"
    using enter_core [OF o, of buf] s e by (auto simp: el_scans_def)
  then have "el_scans l1 buf1" by (simp add: el_scans_def)
  then show ?thesis by (simp only: write_scans [OF s] write_scans e enter_idem [OF k(2)])
qed

lemma enter_append: "el_scans l a \<Longrightarrow> el_enter l (a @ b) = (fst (el_enter l a), snd (el_enter l a) @ b)"
  by (auto simp: el_enter_def el_scans_def)

lemma scans_append: "el_scans l a \<Longrightarrow> el_scans l (a @ b)"
  by (auto simp: el_scans_def)

lemma write_append_bulk:
  assumes "ld_state l = EL_SKIP_BYTES" "length a < unat (ld_size l)"
  shows "exif_loader_write al l (a @ b) = exif_loader_write al (l\<lparr>ld_size := ld_size l - of_nat (length a)\<rparr>) b"
proof -
  let ?l = "l\<lparr>ld_size := ld_size l - of_nat (length a)\<rparr>"
  have w: "unat (ld_size l - of_nat (length a)) = unat (ld_size l) - length a"
  proof -
    have "unat (ld_size l) < 2 ^ 32" by (rule order_less_le_trans [OF unsigned_less]) simp
    then have "length a < 2 ^ 32" using assms(2) by linarith
    then have e: "unat (of_nat (length a) :: u32) = length a"
      using take_bit_nat_eq_self by (simp add: unsigned_of_nat)
    then have "of_nat (length a) \<le> ld_size l" using assms(2) by (simp add: word_le_nat_alt)
    then show ?thesis using unat_sub [of "of_nat (length a)" "ld_size l"] e by simp
  qed
  show ?thesis
  proof (cases "length (a @ b) < unat (ld_size l)")
    case True
    then show ?thesis using assms w by (simp add: write_bulk)
  next
    case False
    then have "el_scans l (a @ b)" "el_scans ?l b" using assms w by (auto simp: el_scans_def)
    moreover have "el_enter l (a @ b) = el_enter ?l b" using assms w by (simp add: el_enter_def)
    ultimately show ?thesis using assms by (simp only: write_scans)
  qed
qed


lemma write_append_held:
  assumes s: "el_scans l a" and o: "ld_ok l" and e: "el_enter l a = (l1, a1)" and f: "el_fill l1 a1 = (l2, a2)"
    and h: "ld_b_len l2 < 12"
  shows "exif_loader_write al l (a @ b) = exif_loader_write al l2 b"
proof -
  have k: "ld_ok l1" "ld_state l1 \<noteq> EL_EXIF_FOUND" "ld_state l1 \<noteq> EL_SKIP_BYTES"
    using enter_core [OF o, of a] s e by (auto simp: el_scans_def)
  have st: "ld_state l2 = ld_state l1" using fill_core [OF k(1,2), of a1] f by simp
  have s1: "el_scans l1 ys" "el_scans l2 ys" for ys using k st by (simp_all add: el_scans_def)
  have split: "el_fill l1 (a1 @ b) = el_fill l2 b" using fill_split [of l1 a1 b] f h k by simp
  have en: "el_enter l1 ys = (l1, ys)" "el_enter l2 ys = (l2, ys)" for ys using k st by (simp_all add: enter_idem)
  have lt: "ld_b_len l1 < 12" using k by (simp add: ld_ok_def)
  have z: "el_fill l2 [] = (l2, [])" by (simp add: el_fill_def write_at_def)
  have "exif_loader_write al l (a @ b) = exif_loader_write al l1 (a1 @ b)"
    by (rule write_enter [OF scans_append [OF s] o]) (use e enter_append [OF s, of b] in simp)
  also have "\<dots> = exif_loader_write al l2 b"
  proof (cases "a1 @ b = []")
    case True
    then have "l2 = l1" "b = []" using f by (auto simp: el_fill_def write_at_def)
    then show ?thesis using True by simp
  next
    case False
    show ?thesis
    proof (cases "b = []")
      case True
      then show ?thesis using False lt h f by (simp add: write_scans [OF s1(1)] write_scans [OF s1(2)] en)
    next
      case b: False
      then show ?thesis using lt h by (simp add: write_scans [OF s1(1)] write_scans [OF s1(2)] en split)
    qed
  qed
  finally show ?thesis .
qed

lemma write_full:
  assumes s: "el_scans l a" and o: "ld_ok l" and e: "el_enter l a = (l1, a1)" and f: "el_fill l1 a1 = (l2, a2)"
    and h: "12 \<le> ld_b_len l2"
  shows "exif_loader_write al l (a @ b) =
    (case el_scan al (a2 @ b) 12 (el_detect l2) of
       Inr r \<Rightarrow> r | Inl l3 \<Rightarrow> exif_loader_write al (l3\<lparr>ld_b_len := 0\<rparr>) (a2 @ b))"
    (is "_ = ?r")
proof -
  have k: "ld_ok l1" "ld_state l1 \<noteq> EL_EXIF_FOUND" "ld_state l1 \<noteq> EL_SKIP_BYTES"
    using enter_core [OF o, of a] s e by (auto simp: el_scans_def)
  have lt: "ld_b_len l1 < 12" using k by (simp add: ld_ok_def)
  have s1: "el_scans l1 (a1 @ b)" using k by (simp add: el_scans_def)
  have ne: "a1 \<noteq> []" using f h lt by (auto simp: el_fill_def)
  have "exif_loader_write al l (a @ b) = exif_loader_write al l1 (a1 @ b)"
    by (rule write_enter [OF scans_append [OF s] o]) (use e enter_append [OF s, of b] in simp)
  also have "\<dots> = ?r"
    using ne h fill_full [of l1 a1 b] lt f by (simp add: write_scans [OF s1] enter_idem [OF k(3)])
  finally show ?thesis .
qed

lemma write_append:
  "ld_ok l \<Longrightarrow> exif_loader_write al l (a @ b)
     = (case exif_loader_write al l a of (l1, ok) \<Rightarrow> if ok then exif_loader_write al l1 b else (l1, False))
   \<and> ld_ok (fst (exif_loader_write al l a))"
proof (induction "length a * 2 + (if 12 \<le> ld_b_len l then 1 else 0)" arbitrary: l a rule: less_induct)
  case less
  note o = less.prems
  consider (found) "ld_state l = EL_EXIF_FOUND" | (bulk) "ld_state l = EL_SKIP_BYTES" "length a < unat (ld_size l)"
    | (scans) "el_scans l a" by (auto simp: el_scans_def)
  then show ?case
  proof cases
    case found
    have c: "ld_core l" using o by (simp add: ld_ok_def)
    obtain l1 ok where w: "exif_loader_copy al l a = (l1, ok)" by (metis surj_pair)
    show ?thesis
      using copy_core [OF c found w] copy_append [of l al a l1 b] copy_stop [of al l a l1 b] w c
      by (cases ok) (simp_all add: write_found found ld_ok_def)
  next
    case bulk
    then show ?thesis
      using o write_append_bulk [OF bulk, of al b] by (simp add: write_bulk ld_ok_def ld_core_def)
  next
    case scans
    obtain l1 a1 where e: "el_enter l a = (l1, a1)" by (metis surj_pair)
    obtain l2 a2 where f: "el_fill l1 a1 = (l2, a2)" by (metis surj_pair)
    have k: "ld_ok l1" "ld_state l1 \<noteq> EL_EXIF_FOUND" using enter_core [OF o, of a] scans e by (auto simp: el_scans_def)
    have c2: "ld_core l2" "ld_state l2 \<noteq> EL_EXIF_FOUND" using fill_core [OF k, of a1] f k by auto
    show ?thesis
    proof (cases "ld_b_len l2 < 12")
      case True
      have z: "a1 = [] \<Longrightarrow> l2 = l1" using f by (auto simp: el_fill_def write_at_def)
      have "exif_loader_write al l a = (l2, True)"
        using True k z by (simp add: write_scans [OF scans] e f ld_ok_def)
      then show ?thesis using write_append_held [OF scans o e f True, of al b] c2 True by (simp add: ld_ok_def)
    next
      case False
      then have h: "12 \<le> ld_b_len l2" by simp
      note wa = write_full [OF scans o e f h, of al "[]", simplified] and wb = write_full [OF scans o e f h, of al b]
      have cd: "ld_core (el_detect l2)" using detect_core c2 by blast
      show ?thesis
      proof (cases "el_scan al a2 12 (el_detect l2)")
        case (Inl l3)
        have o3: "ld_ok (l3\<lparr>ld_b_len := 0\<rparr>)" using scan_core [OF cd Inl] by (simp add: ld_ok_def ld_core_def)
        have "length a2 < length a"
        proof -
          have "a1 \<noteq> []" "ld_b_len l1 < 12" using f h k by (auto simp: el_fill_def ld_ok_def)
          then have "length a2 < length a1" using length_fill [of l1 a1] f by (cases a1) auto
          then show ?thesis using length_enter [of l a] e by simp
        qed
        then have m: "length a2 * 2 + (if 12 \<le> ld_b_len (l3\<lparr>ld_b_len := 0\<rparr>) then 1 else 0) < length a * 2 + (if 12 \<le> ld_b_len l then 1 else 0)"
          by simp
        show ?thesis using less.hyps [OF m o3] by (simp add: wa wb Inl scan_go [OF Inl])
      next
        case (Inr p)
        obtain l' r where p: "p = (l', r)" by (metis surj_pair)
        show ?thesis
          using scan_core_stop [OF cd Inr [unfolded p]] scan_copy [OF cd, of al a2 12 l' b] scan_stop [of al a2 12 "el_detect l2" l' b]
            Inr by (cases r) (simp_all add: wa wb p write_found)
      qed
    qed
  qed
qed


lemma write_file_all:
  "ld_ok l \<Longrightarrow> contents \<noteq> [] \<Longrightarrow> exif_loader_write_file al l contents = fst (exif_loader_write al l contents)"
proof (induction al l contents rule: exif_loader_write_file.induct)
  case (1 al l contents)
  obtain l1 ok where w: "exif_loader_write al l (take 1024 contents) = (l1, ok)" by (metis surj_pair)
  have a: "exif_loader_write al l contents = (if ok then exif_loader_write al l1 (drop 1024 contents) else (l1, False))"
    and o1: "ld_ok l1"
    using write_append [OF 1(2), of al "take 1024 contents" "drop 1024 contents"] w by simp_all
  show ?case
  proof (cases "ok \<and> drop 1024 contents \<noteq> []")
    case True
    then show ?thesis
      using 1 a o1 w by (subst exif_loader_write_file.simps) simp
  next
    case False
    then have "exif_loader_write_file al l contents = l1"
      using w 1(3) by (subst exif_loader_write_file.simps) (auto simp: exif_loader_write_file.simps [of al l1])
    moreover have "fst (exif_loader_write al l contents) = l1"
      using False a w by (auto simp: a)
    ultimately show ?thesis by simp
  qed
qed


subsection \<open>What is found\<close>

lemma copy_whole:
  assumes "ld_state l = EL_EXIF_FOUND" "ld_buf l = None" "ld_bytes_read l = 0" "0 < unat (ld_size l)"
    "al (unat (ld_size l))"
  shows "exif_loader_copy al l buf =
    (l\<lparr>ld_buf := Some (take (unat (ld_size l)) buf @ replicate (unat (ld_size l) - length buf) 0),
       ld_bytes_read := min (length buf) (unat (ld_size l))\<rparr>, length buf < unat (ld_size l))"
proof -
  have z: "ld_size l \<noteq> 0" using assms(4) by auto
  show ?thesis
    using assms z by (subst copy_granted [where b = "replicate (unat (ld_size l)) 0"])
      (auto simp: ld_block_def exif_loader_alloc_def write_at_def min_def)
qed

lemma scan_step:
  "0 < n \<Longrightarrow> el_scan al rest n l =
    (case el_byte al rest (12 - n) l of Inl l \<Rightarrow> el_scan al rest (n - 1) l | Inr r \<Rightarrow> Inr r)"
  by (cases n) (auto split: sum.split)

lemma found_scan:
  assumes "ld_core l" "ld_state l = EL_EXIF_FOUND" "0 < n"
  shows "el_scan al rest n l = Inr (exif_loader_copy al l (drop (12 - n) (ld_b l) @ rest))"
proof -
  obtain l1 ok where c: "exif_loader_copy al l (drop (12 - n) (ld_b l)) = (l1, ok)" by (metis surj_pair)
  show ?thesis
    using copy_append [OF assms(1,2), of al _ l1 rest] copy_stop [of al l _ l1 rest] c assms
    by (cases ok) (simp_all add: scan_step byte_found)
qed

text \<open>A JPEG file whose first segment is an APP1 segment with an EXIF block.\<close>

definition app1_stream :: "u8 \<Rightarrow> u8 \<Rightarrow> u8 list \<Rightarrow> u8 list" where
  "app1_stream hi lo rest = [0xff, 0xd8, 0xff, 0xe1, hi, lo] @ ExifHeader @ rest"

definition app1_size :: "u8 \<Rightarrow> u8 \<Rightarrow> u32" where
  "app1_size hi lo = push_bit 8 (ucast hi) OR ucast lo"

lemma app1_scan:
  assumes l: "l = exif_loader_new\<lparr>ld_b := [0xff, 0xd8, 0xff, 0xe1, hi, lo] @ ExifHeader, ld_b_len := 12\<rparr>"
  shows "el_scan al rest 12 (el_detect l) =
    Inr (exif_loader_copy al (l\<lparr>ld_format := EL_DATA_FORMAT_EXIF, ld_size := app1_size hi lo, ld_state := EL_EXIF_FOUND\<rparr>)
      (ExifHeader @ rest))"
proof -
  have d: "el_detect l = l"
    by (simp add: el_detect_def l exif_loader_new_def FUJIFILM_def ExifHeader_def slice_def)
  have b: "el_byte al rest 0 l = Inl l" "el_byte al rest (Suc 0) l = Inl l" "el_byte al rest 2 l = Inl l"
    by (simp_all add: el_byte_def l exif_loader_new_def)
  let ?l3 = "l\<lparr>ld_format := EL_DATA_FORMAT_EXIF, ld_size := 0, ld_state := EL_READ_SIZE_BYTE_08\<rparr>"
  let ?l4 = "l\<lparr>ld_format := EL_DATA_FORMAT_EXIF, ld_size := push_bit 8 (ucast hi), ld_state := EL_READ_SIZE_BYTE_00\<rparr>"
  let ?l5 = "l\<lparr>ld_format := EL_DATA_FORMAT_EXIF, ld_size := app1_size hi lo, ld_state := EL_EXIF_FOUND\<rparr>"
  have b3: "el_byte al rest 3 l = Inl ?l3"
    by (simp add: el_byte_def l exif_loader_new_def ExifHeader_def slice_def)
  have b4: "el_byte al rest 4 ?l3 = Inl ?l4" by (simp add: el_byte_def l)
  have b5: "el_byte al rest 5 ?l4 = Inl ?l5" by (simp add: el_byte_def l app1_size_def)
  have "el_scan al rest 12 (el_detect l) = el_scan al rest 6 ?l5"
    unfolding d
    using scan_step [of 12 al rest l] scan_step [of 11 al rest l] scan_step [of 10 al rest l] scan_step [of 9 al rest l]
      scan_step [of 8 al rest ?l3] scan_step [of 7 al rest ?l4] by (simp add: b b3 b4 b5 del: el_scan.simps)
  also have "ld_core ?l5" by (simp add: ld_core_def l exif_loader_new_def ExifHeader_def)
  note found_scan [OF this, of 6 al rest]
  finally show ?thesis by (simp add: l)
qed


lemma app1_write:
  assumes "0 < unat (app1_size hi lo)" "al (unat (app1_size hi lo))"
  shows "exif_loader_write al exif_loader_new (app1_stream hi lo rest) =
    (exif_loader_new\<lparr>ld_b := [0xff, 0xd8, 0xff, 0xe1, hi, lo] @ ExifHeader, ld_b_len := 12,
       ld_format := EL_DATA_FORMAT_EXIF, ld_size := app1_size hi lo, ld_state := EL_EXIF_FOUND,
       ld_buf := Some (take (unat (app1_size hi lo)) (ExifHeader @ rest)
         @ replicate (unat (app1_size hi lo) - length (ExifHeader @ rest)) 0),
       ld_bytes_read := min (length (ExifHeader @ rest)) (unat (app1_size hi lo))\<rparr>,
     length (ExifHeader @ rest) < unat (app1_size hi lo))"
proof -
  let ?l = "exif_loader_new\<lparr>ld_b := [0xff, 0xd8, 0xff, 0xe1, hi, lo] @ ExifHeader, ld_b_len := 12\<rparr>"
  have s: "el_scans exif_loader_new (app1_stream hi lo rest)" by (simp add: el_scans_def exif_loader_new_def)
  have e: "el_enter exif_loader_new (app1_stream hi lo rest) = (exif_loader_new, app1_stream hi lo rest)"
    by (simp add: enter_idem exif_loader_new_def)
  have f: "el_fill exif_loader_new (app1_stream hi lo rest) = (?l, rest)"
    by (simp add: el_fill_def exif_loader_new_def app1_stream_def ExifHeader_def write_at_def)
  have "exif_loader_write al exif_loader_new (app1_stream hi lo rest) =
      exif_loader_copy al (?l\<lparr>ld_format := EL_DATA_FORMAT_EXIF, ld_size := app1_size hi lo, ld_state := EL_EXIF_FOUND\<rparr>)
        (ExifHeader @ rest)"
    using write_full [OF s ld_ok_new e f, of al "[]"] app1_scan [OF refl, of al rest hi lo] by simp
  also note copy_whole
  finally show ?thesis using assms by (simp add: exif_loader_new_def)
qed

text \<open>The length field of a skipped section is not checked: a section of length two underflows the skip counter.\<close>

definition short_section :: "u8 list" where
  "short_section = [0xff, 0xd8, 0xff, 0xfe, 0, 2] @ [0xff, 0xe1, 0, 0x20, 0x45, 0x78]"

lemma byte_skip:
  "ld_state l = EL_SKIP_BYTES \<Longrightarrow> ld_size l - 1 = s \<Longrightarrow> s \<noteq> 0 \<Longrightarrow> el_byte al rest i l = Inl (l\<lparr>ld_size := s\<rparr>)"
  by (simp add: el_byte_def Let_def)

lemma skip_scan:
  "ld_state l = EL_SKIP_BYTES \<Longrightarrow> n \<le> 12 \<Longrightarrow> ld_size l = - of_nat m \<Longrightarrow> m + n \<le> 12 \<Longrightarrow>
    el_scan al rest n l = Inl (l\<lparr>ld_size := - of_nat (m + n)\<rparr>)"
proof (induction n arbitrary: l m)
  case (Suc n)
  have z: "ld_size l - 1 = - of_nat (Suc m)" by (simp add: Suc.prems(3))
  have "of_nat (Suc m) \<noteq> (0 :: u32)"
  proof
    assume "of_nat (Suc m) = (0 :: u32)"
    then have "2 ^ 32 dvd Suc m" by (simp only: word_of_nat_eq_0_iff) simp
    then show False using Suc.prems by (auto dest: dvd_imp_le)
  qed
  then have "el_byte al rest (11 - n) l = Inl (l\<lparr>ld_size := - of_nat (Suc m)\<rparr>)"
    by (intro byte_skip [OF Suc.prems(1) z]) (simp only: neg_equal_0_iff_equal not_False_eq_True)
  then show ?case using Suc.IH [of "l\<lparr>ld_size := - of_nat (Suc m)\<rparr>" "Suc m"] Suc.prems by simp
qed simp

lemma short_section_skip:
  "exif_loader_write al exif_loader_new short_section =
    (exif_loader_new\<lparr>ld_b := short_section, ld_b_len := 0, ld_format := EL_DATA_FORMAT_JPEG, ld_size := - 6,
       ld_state := EL_SKIP_BYTES\<rparr>, True)"
proof -
  let ?l = "exif_loader_new\<lparr>ld_b := short_section, ld_b_len := 12\<rparr>"
  let ?j = "?l\<lparr>ld_format := EL_DATA_FORMAT_JPEG\<rparr>"
  let ?s = "?j\<lparr>ld_state := EL_SKIP_BYTES\<rparr>"
  have s: "el_scans exif_loader_new short_section" by (simp add: el_scans_def exif_loader_new_def)
  have e: "el_enter exif_loader_new short_section = (exif_loader_new, short_section)"
    by (simp add: enter_idem exif_loader_new_def)
  have f: "el_fill exif_loader_new short_section = (?l, [])"
    by (simp add: el_fill_def exif_loader_new_def short_section_def write_at_def)
  have d: "el_detect ?l = ?l"
    by (simp add: el_detect_def exif_loader_new_def FUJIFILM_def ExifHeader_def short_section_def slice_def)
  have b: "el_byte al [] 0 ?l = Inl ?l" "el_byte al [] (Suc 0) ?l = Inl ?l" "el_byte al [] 2 ?l = Inl ?l"
    "el_byte al [] 3 ?l = Inl (?j\<lparr>ld_state := EL_READ_SIZE_BYTE_08\<rparr>)"
    "el_byte al [] 4 (?j\<lparr>ld_state := EL_READ_SIZE_BYTE_08\<rparr>) = Inl (?j\<lparr>ld_state := EL_READ_SIZE_BYTE_00\<rparr>)"
    "el_byte al [] 5 (?j\<lparr>ld_state := EL_READ_SIZE_BYTE_00\<rparr>) = Inl ?s"
    by (simp_all add: el_byte_def short_section_def exif_loader_new_def)
  have "el_scan al [] 12 ?l = el_scan al [] 6 ?s"
    using scan_step [of 12 al "[]" ?l] scan_step [of 11 al "[]" ?l] scan_step [of 10 al "[]" ?l] scan_step [of 9 al "[]" ?l]
      scan_step [of 8 al "[]" "?j\<lparr>ld_state := EL_READ_SIZE_BYTE_08\<rparr>"]
      scan_step [of 7 al "[]" "?j\<lparr>ld_state := EL_READ_SIZE_BYTE_00\<rparr>"]
    by (simp add: b del: el_scan.simps)
  also have "\<dots> = Inl (?s\<lparr>ld_size := - 6\<rparr>)"
    using skip_scan [of ?s 6 0 al "[]"] by (simp add: exif_loader_new_def)
  finally have "el_scan al [] 12 ?l = Inl (?s\<lparr>ld_size := - 6\<rparr>)" .
  then have "exif_loader_write al exif_loader_new short_section = exif_loader_write al (?s\<lparr>ld_size := - 6, ld_b_len := 0\<rparr>) []"
    using write_full [OF s ld_ok_new e f, of al "[]"] by (simp add: d del: el_scan.simps)
  also have "\<dots> = (?s\<lparr>ld_size := - 6, ld_b_len := 0\<rparr>, True)" by (simp add: write_bulk)
  finally show ?thesis by (simp add: exif_loader_new_def)
qed

text \<open>A skipped section that announces its minimal length, two, makes the skip counter wrap
  around: whatever follows (up to four gigabytes, the EXIF block included), nothing is found.\<close>

lemma short_section_stalls:
  assumes "length rest < 2 ^ 32 - 6"
  shows "exif_loader_get_buf (fst (exif_loader_write al exif_loader_new (short_section @ rest))) = (None, 0)"
proof -
  have u: "unat (- 6 :: u32) = 2 ^ 32 - 6" by simp
  let ?l = "exif_loader_new\<lparr>ld_b := short_section, ld_b_len := 0, ld_format := EL_DATA_FORMAT_JPEG, ld_size := - 6,
    ld_state := EL_SKIP_BYTES\<rparr>"
  have "exif_loader_write al exif_loader_new (short_section @ rest) = exif_loader_write al ?l rest"
    using write_append [OF ld_ok_new, of al short_section rest] by (simp add: short_section_skip)
  also have "\<dots> = (?l\<lparr>ld_size := - 6 - of_nat (length rest)\<rparr>, True)"
    using assms u by (intro trans [OF write_bulk]) simp_all
  finally show ?thesis by (simp add: exif_loader_new_def exif_loader_get_buf_def)
qed

lemma app1_found:
  assumes "0 < unat (app1_size hi lo)" "unat (app1_size hi lo) \<le> length (ExifHeader @ rest)" "al (unat (app1_size hi lo))"
  shows "exif_loader_get_buf (exif_loader_write_file al exif_loader_new (app1_stream hi lo rest))
    = (Some (take (unat (app1_size hi lo)) (ExifHeader @ rest)), unat (app1_size hi lo))"
proof -
  have "app1_stream hi lo rest \<noteq> []" by (simp add: app1_stream_def)
  then show ?thesis
    using assms by (simp add: write_file_all ld_ok_new app1_write exif_loader_get_buf_def min_def)
qed

subsection \<open>Properties\<close>

text \<open>C15: feeding a stream in two chunks is the same as feeding it at once: if the first chunk asks
  for more, the second goes on from the state it left, and if it refuses, the rest is ignored.
  The loader's invariant is kept (in particular every copy stays within the allocated block).\<close>

theorem exif_loader_write_chunks:
  assumes "ld_ok l"
  shows "exif_loader_write al l (a @ b)
     = (case exif_loader_write al l a of (l1, ok) \<Rightarrow> if ok then exif_loader_write al l1 b else (l1, False))
   \<and> ld_ok (fst (exif_loader_write al l a))"
  using assms by (rule write_append)

lemma exif_loader_write_chunks_witness:
  "exif_loader_write (\<lambda>_. True) exif_loader_new ([0xff, 0xd8] @ [0xff, 0xe1, 0, 8] @ ExifHeader)
    = (case exif_loader_write (\<lambda>_. True) exif_loader_new [0xff, 0xd8] of
         (l1, ok) \<Rightarrow> if ok then exif_loader_write (\<lambda>_. True) l1 ([0xff, 0xe1, 0, 8] @ ExifHeader) else (l1, False))"
  using exif_loader_write_chunks [OF ld_ok_new, of "\<lambda>_. True" "[0xff, 0xd8]" "[0xff, 0xe1, 0, 8] @ ExifHeader"] by simp

text \<open>C16: a JPEG file that starts with an APP1 segment holding an EXIF block, read by
  \<open>exif_loader_write_file\<close> in chunks of 1024 bytes, leaves exactly the announced number of bytes
  from the EXIF header on in the loader.\<close>

theorem exif_loader_finds_app1:
  assumes "0 < unat (app1_size hi lo)" "unat (app1_size hi lo) \<le> length (ExifHeader @ rest)" "al (unat (app1_size hi lo))"
  shows "exif_loader_get_buf (exif_loader_write_file al exif_loader_new (app1_stream hi lo rest))
    = (Some (take (unat (app1_size hi lo)) (ExifHeader @ rest)), unat (app1_size hi lo))"
  using assms by (rule app1_found)

lemma exif_loader_finds_app1_witness:
  "exif_loader_get_buf (exif_loader_write_file (\<lambda>n. n < 100) exif_loader_new (app1_stream 0 8 [0x49, 0x49, 0x2A, 0]))
    = (Some (ExifHeader @ [0x49, 0x49]), 8)"
  using exif_loader_finds_app1 [of 0 8 "[0x49, 0x49, 0x2A, 0]" "\<lambda>n. n < 100"]
  by (simp add: app1_size_def ExifHeader_def)

end
