(* ===== verification/ExifTag.thy ===== *)
theory ExifTag
  imports NetPrelude
begin

text \<open>
  The table of EXIF tags and its lookups (\<open>exif-tag.c\<close>, \<open>exif-ifd.c\<close> of \<open>external/libexif\<close>): which tag
  exists under which name in which image file directory, and how far the standard supports it there.
  Titles and descriptions are texts for the user interface and are left out of the rows.
\<close>

subsection \<open>Directories, data types and support levels\<close>

datatype exif_ifd = EXIF_IFD_0 | EXIF_IFD_1 | EXIF_IFD_EXIF | EXIF_IFD_GPS | EXIF_IFD_INTEROPERABILITY
  | EXIF_IFD_COUNT

text \<open>The code compares directories as integers.\<close>

primrec ifd_num :: "exif_ifd \<Rightarrow> nat" where
  "ifd_num EXIF_IFD_0 = 0"
| "ifd_num EXIF_IFD_1 = 1"
| "ifd_num EXIF_IFD_EXIF = 2"
| "ifd_num EXIF_IFD_GPS = 3"
| "ifd_num EXIF_IFD_INTEROPERABILITY = 4"
| "ifd_num EXIF_IFD_COUNT = 5"

lemma ifd_num_inject: "ifd_num a = ifd_num b \<longleftrightarrow> a = b"
  by (cases a; cases b) simp_all

instantiation exif_ifd :: linorder
begin

definition less_eq_exif_ifd :: "exif_ifd \<Rightarrow> exif_ifd \<Rightarrow> bool" where
  "a \<le> b \<longleftrightarrow> ifd_num a \<le> ifd_num b"

definition less_exif_ifd :: "exif_ifd \<Rightarrow> exif_ifd \<Rightarrow> bool" where
  "a < b \<longleftrightarrow> ifd_num a < ifd_num b"

instance
  by standard (auto simp: less_eq_exif_ifd_def less_exif_ifd_def ifd_num_inject)

end

lemma ifd_count_le [simp]: "EXIF_IFD_COUNT \<le> a \<longleftrightarrow> a = EXIF_IFD_COUNT"
  by (cases a) (simp_all add: less_eq_exif_ifd_def)

definition ExifIfdTable :: "(exif_ifd \<times> string) list" where
  "ExifIfdTable =
     [(EXIF_IFD_0, ''0''), (EXIF_IFD_1, ''1''), (EXIF_IFD_EXIF, ''EXIF''), (EXIF_IFD_GPS, ''GPS''),
      (EXIF_IFD_INTEROPERABILITY, ''Interoperability'')]"

definition exif_ifd_get_name :: "exif_ifd \<Rightarrow> string option" where
  "exif_ifd_get_name ifd = map_option snd (find (\<lambda>r. fst r = ifd) ExifIfdTable)"

datatype exif_data_type = EXIF_DATA_TYPE_UNCOMPRESSED_CHUNKY | EXIF_DATA_TYPE_UNCOMPRESSED_PLANAR
  | EXIF_DATA_TYPE_UNCOMPRESSED_YCC | EXIF_DATA_TYPE_COMPRESSED | EXIF_DATA_TYPE_COUNT

primrec data_type_num :: "exif_data_type \<Rightarrow> nat" where
  "data_type_num EXIF_DATA_TYPE_UNCOMPRESSED_CHUNKY = 0"
| "data_type_num EXIF_DATA_TYPE_UNCOMPRESSED_PLANAR = 1"
| "data_type_num EXIF_DATA_TYPE_UNCOMPRESSED_YCC = 2"
| "data_type_num EXIF_DATA_TYPE_COMPRESSED = 3"
| "data_type_num EXIF_DATA_TYPE_COUNT = 4"

datatype support_level = EXIF_SUPPORT_LEVEL_UNKNOWN | EXIF_SUPPORT_LEVEL_NOT_RECORDED
  | EXIF_SUPPORT_LEVEL_MANDATORY | EXIF_SUPPORT_LEVEL_OPTIONAL

subsection \<open>The table\<close>

text \<open>The initialisers of the support levels, one letter per data type, one list per directory.\<close>

primrec esl_of :: "string \<Rightarrow> support_level list" where
  "esl_of [] = []"
| "esl_of (c # cs) =
     (if c = CHR ''N'' then EXIF_SUPPORT_LEVEL_NOT_RECORDED else if c = CHR ''M'' then EXIF_SUPPORT_LEVEL_MANDATORY
      else if c = CHR ''O'' then EXIF_SUPPORT_LEVEL_OPTIONAL else EXIF_SUPPORT_LEVEL_UNKNOWN) # esl_of cs"

definition ESL_NNNN :: string where "ESL_NNNN = ''NNNN''"
definition ESL_OOOO :: string where "ESL_OOOO = ''OOOO''"
definition ESL_MMMN :: string where "ESL_MMMN = ''MMMN''"
definition ESL_MMMM :: string where "ESL_MMMM = ''MMMM''"
definition ESL_OMON :: string where "ESL_OMON = ''OMON''"
definition ESL_NNOO :: string where "ESL_NNOO = ''NNOO''"
definition ESL_NNMN :: string where "ESL_NNMN = ''NNMN''"
definition ESL_NNMM :: string where "ESL_NNMM = ''NNMM''"
definition ESL_NNNM :: string where "ESL_NNNM = ''NNNM''"
definition ESL_NNNO :: string where "ESL_NNNO = ''NNNO''"
definition ESL_UUUU :: string where "ESL_UUUU = ''UUUU''"
definition ESL_GPS :: "string list" where "ESL_GPS = [ESL_NNNN, ESL_NNNN, ESL_NNNN, ESL_OOOO, ESL_NNNN]"
definition ESL_DEF :: "string list" where "ESL_DEF = [ESL_UUUU, ESL_UUUU, ESL_UUUU, ESL_UUUU, ESL_UUUU]"

lemmas esl_defs = ESL_NNNN_def ESL_OOOO_def ESL_MMMN_def ESL_MMMM_def ESL_OMON_def ESL_NNOO_def
  ESL_NNMN_def ESL_NNMM_def ESL_NNNM_def ESL_NNNO_def ESL_UUUU_def ESL_GPS_def ESL_DEF_def

record tag_entry =
  te_tag :: nat
  te_name :: string
  te_esl :: "string list"

definition tag_row :: "nat \<times> string \<times> string list \<Rightarrow> tag_entry" where
  "tag_row r = \<lparr>te_tag = fst r, te_name = fst (snd r), te_esl = snd (snd r)\<rparr>"

text \<open>The rows of the table, without the null row at its end; tags are written as their numbers.\<close>

definition tag_rows :: "(nat \<times> string \<times> string list) list" where
  "tag_rows = [
     (0x0000, ''GPSVersionID'', ESL_GPS),
     (0x0001, ''InteroperabilityIndex'', [ESL_NNNN, ESL_NNNN, ESL_NNNN, ESL_NNNN, ESL_OOOO]),
     (0x0001, ''GPSLatitudeRef'', ESL_GPS),
     (0x0002, ''InteroperabilityVersion'', [ESL_NNNN, ESL_NNNN, ESL_NNNN, ESL_NNNN, ESL_OOOO]),
     (0x0002, ''GPSLatitude'', ESL_GPS),
     (0x0003, ''GPSLongitudeRef'', ESL_GPS),
     (0x0004, ''GPSLongitude'', ESL_GPS),
     (0x0005, ''GPSAltitudeRef'', ESL_GPS),
     (0x0006, ''GPSAltitude'', ESL_GPS),
     (0x0007, ''GPSTimeStamp'', ESL_GPS),
     (0x0008, ''GPSSatellites'', ESL_GPS),
     (0x0009, ''GPSStatus'', ESL_GPS),
     (0x000a, ''GPSMeasureMode'', ESL_GPS),
     (0x000b, ''GPSDOP'', ESL_GPS),
     (0x000c, ''GPSSpeedRef'', ESL_GPS),
     (0x000d, ''GPSSpeed'', ESL_GPS),
     (0x000e, ''GPSTrackRef'', ESL_GPS),
     (0x000f, ''GPSTrack'', ESL_GPS),
     (0x0010, ''GPSImgDirectionRef'', ESL_GPS),
     (0x0011, ''GPSImgDirection'', ESL_GPS),
     (0x0012, ''GPSMapDatum'', ESL_GPS),
     (0x0013, ''GPSDestLatitudeRef'', ESL_GPS),
     (0x0014, ''GPSDestLatitude'', ESL_GPS),
     (0x0015, ''GPSDestLongitudeRef'', ESL_GPS),
     (0x0016, ''GPSDestLongitude'', ESL_GPS),
     (0x0017, ''GPSDestBearingRef'', ESL_GPS),
     (0x0018, ''GPSDestBearing'', ESL_GPS),
     (0x0019, ''GPSDestDistanceRef'', ESL_GPS),
     (0x001a, ''GPSDestDistance'', ESL_GPS),
     (0x001b, ''GPSProcessingMethod'', ESL_GPS),
     (0x001c, ''GPSAreaInformation'', ESL_GPS),
     (0x001d, ''GPSDateStamp'', ESL_GPS),
     (0x001e, ''GPSDifferential'', ESL_GPS),
     (0x00fe, ''NewSubfileType'', ESL_DEF),
     (0x0100, ''ImageWidth'', [ESL_MMMN, ESL_MMMN, ESL_NNNN, ESL_NNNN, ESL_NNNN]),
     (0x0101, ''ImageLength'', [ESL_MMMN, ESL_MMMN, ESL_NNNN, ESL_NNNN, ESL_NNNN]),
     (0x0102, ''BitsPerSample'', [ESL_MMMN, ESL_MMMN, ESL_NNNN, ESL_NNNN, ESL_NNNN]),
     (0x0103, ''Compression'', [ESL_MMMN, ESL_MMMM, ESL_NNNN, ESL_NNNN, ESL_NNNN]),
     (0x0106, ''PhotometricInterpretation'', [ESL_MMMN, ESL_MMMN, ESL_NNNN, ESL_NNNN, ESL_NNNN]),
     (0x010a, ''FillOrder'', ESL_DEF),
     (0x010d, ''DocumentName'', ESL_DEF),
     (0x010e, ''ImageDescription'', [ESL_OOOO, ESL_OOOO, ESL_NNNN, ESL_NNNN, ESL_NNNN]),
     (0x010f, ''Make'', [ESL_OOOO, ESL_OOOO, ESL_NNNN, ESL_NNNN, ESL_NNNN]),
     (0x0110, ''Model'', [ESL_OOOO, ESL_OOOO, ESL_NNNN, ESL_NNNN, ESL_NNNN]),
     (0x0111, ''StripOffsets'', [ESL_MMMN, ESL_MMMN, ESL_NNNN, ESL_NNNN, ESL_NNNN]),
     (0x0112, ''Orientation'', [ESL_OOOO, ESL_OOOO, ESL_NNNN, ESL_NNNN, ESL_NNNN]),
     (0x0115, ''SamplesPerPixel'', [ESL_MMMN, ESL_MMMN, ESL_NNNN, ESL_NNNN, ESL_NNNN]),
     (0x0116, ''RowsPerStrip'', [ESL_MMMN, ESL_MMMN, ESL_NNNN, ESL_NNNN, ESL_NNNN]),
     (0x0117, ''StripByteCounts'', [ESL_MMMN, ESL_MMMN, ESL_NNNN, ESL_NNNN, ESL_NNNN]),
     (0x011a, ''XResolution'', [ESL_MMMM, ESL_MMMM, ESL_NNNN, ESL_NNNN, ESL_NNNN]),
     (0x011b, ''YResolution'', [ESL_MMMM, ESL_MMMM, ESL_NNNN, ESL_NNNN, ESL_NNNN]),
     (0x011c, ''PlanarConfiguration'', [ESL_OMON, ESL_OMON, ESL_NNNN, ESL_NNNN, ESL_NNNN]),
     (0x0128, ''ResolutionUnit'', [ESL_MMMM, ESL_MMMM, ESL_NNNN, ESL_NNNN, ESL_NNNN]),
     (0x012d, ''TransferFunction'', [ESL_OOOO, ESL_OOOO, ESL_NNNN, ESL_NNNN, ESL_NNNN]),
     (0x0131, ''Software'', [ESL_OOOO, ESL_OOOO, ESL_NNNN, ESL_NNNN, ESL_NNNN]),
     (0x0132, ''DateTime'', [ESL_OOOO, ESL_OOOO, ESL_NNNN, ESL_NNNN, ESL_NNNN]),
     (0x013b, ''Artist'', [ESL_OOOO, ESL_OOOO, ESL_NNNN, ESL_NNNN, ESL_NNNN]),
     (0x013e, ''WhitePoint'', [ESL_OOOO, ESL_OOOO, ESL_NNNN, ESL_NNNN, ESL_NNNN]),
     (0x013f, ''PrimaryChromaticities'', [ESL_OOOO, ESL_OOOO, ESL_NNNN, ESL_NNNN, ESL_NNNN]),
     (0x014a, ''SubIFDs'', ESL_DEF),
     (0x0156, ''TransferRange'', ESL_DEF),
     (0x0200, ''JPEGProc'', ESL_DEF),
     (0x0201, ''JPEGInterchangeFormat'', [ESL_NNNN, ESL_NNNM, ESL_NNNN, ESL_NNNN, ESL_NNNN]),
     (0x0202, ''JPEGInterchangeFormatLength'', [ESL_NNNN, ESL_NNNM, ESL_NNNN, ESL_NNNN, ESL_NNNN]),
     (0x0211, ''YCbCrCoefficients'', [ESL_NNOO, ESL_NNOO, ESL_NNNN, ESL_NNNN, ESL_NNNN]),
     (0x0212, ''YCbCrSubSampling'', [ESL_NNMN, ESL_NNMN, ESL_NNNN, ESL_NNNN, ESL_NNNN]),
     (0x0213, ''YCbCrPositioning'', [ESL_NNMM, ESL_NNOO, ESL_NNNN, ESL_NNNN, ESL_NNNN]),
     (0x0214, ''ReferenceBlackWhite'', [ESL_OOOO, ESL_OOOO, ESL_NNNN, ESL_NNNN, ESL_NNNN]),
     (0x02bc, ''XMLPacket'', ESL_DEF),
     (0x1000, ''RelatedImageFileFormat'', ESL_DEF),
     (0x1001, ''RelatedImageWidth'', ESL_DEF),
     (0x1002, ''RelatedImageLength'', ESL_DEF),
     (0x828d, ''CFARepeatPatternDim'', ESL_DEF),
     (0x828e, ''CFAPattern'', ESL_DEF),
     (0x828f, ''BatteryLevel'', ESL_DEF),
     (0x8298, ''Copyright'', [ESL_OOOO, ESL_OOOO, ESL_NNNN, ESL_NNNN, ESL_NNNN]),
     (0x829a, ''ExposureTime'', [ESL_NNNN, ESL_NNNN, ESL_OOOO, ESL_NNNN, ESL_NNNN]),
     (0x829d, ''FNumber'', [ESL_NNNN, ESL_NNNN, ESL_OOOO, ESL_NNNN, ESL_NNNN]),
     (0x83bb, ''IPTC/NAA'', ESL_DEF),
     (0x8649, ''ImageResources'', ESL_DEF),
     (0x8769, ''ExifIfdPointer'', [ESL_NNNN, ESL_NNNN, ESL_NNNN, ESL_NNNN, ESL_NNNN]),
     (0x8773, ''InterColorProfile'', ESL_DEF),
     (0x8822, ''ExposureProgram'', [ESL_NNNN, ESL_NNNN, ESL_OOOO, ESL_NNNN, ESL_NNNN]),
     (0x8824, ''SpectralSensitivity'', [ESL_NNNN, ESL_NNNN, ESL_OOOO, ESL_NNNN, ESL_NNNN]),
     (0x8825, ''GPSInfoIFDPointer'', [ESL_NNNN, ESL_NNNN, ESL_NNNN, ESL_NNNN, ESL_NNNN]),
     (0x8827, ''ISOSpeedRatings'', [ESL_NNNN, ESL_NNNN, ESL_OOOO, ESL_NNNN, ESL_NNNN]),
     (0x8828, ''OECF'', [ESL_NNNN, ESL_NNNN, ESL_OOOO, ESL_NNNN, ESL_NNNN]),
     (0x882a, ''TimeZoneOffset'', ESL_DEF),
     (0x9000, ''ExifVersion'', [ESL_NNNN, ESL_NNNN, ESL_MMMM, ESL_NNNN, ESL_NNNN]),
     (0x9003, ''DateTimeOriginal'', [ESL_NNNN, ESL_NNNN, ESL_OOOO, ESL_NNNN, ESL_NNNN]),
     (0x9004, ''DateTimeDigitized'', [ESL_NNNN, ESL_NNNN, ESL_OOOO, ESL_NNNN, ESL_NNNN]),
     (0x9101, ''ComponentsConfiguration'', [ESL_NNNN, ESL_NNNN, ESL_NNNM, ESL_NNNN, ESL_NNNN]),
     (0x9102, ''CompressedBitsPerPixel'', [ESL_NNNN, ESL_NNNN, ESL_NNNO, ESL_NNNN, ESL_NNNN]),
     (0x9201, ''ShutterSpeedValue'', [ESL_NNNN, ESL_NNNN, ESL_OOOO, ESL_NNNN, ESL_NNNN]),
     (0x9202, ''ApertureValue'', [ESL_NNNN, ESL_NNNN, ESL_OOOO, ESL_NNNN, ESL_NNNN]),
     (0x9203, ''BrightnessValue'', [ESL_NNNN, ESL_NNNN, ESL_OOOO, ESL_NNNN, ESL_NNNN]),
     (0x9204, ''ExposureBiasValue'', [ESL_NNNN, ESL_NNNN, ESL_OOOO, ESL_NNNN, ESL_NNNN]),
     (0x9205, ''MaxApertureValue'', [ESL_NNNN, ESL_NNNN, ESL_OOOO, ESL_NNNN, ESL_NNNN]),
     (0x9206, ''SubjectDistance'', [ESL_NNNN, ESL_NNNN, ESL_OOOO, ESL_NNNN, ESL_NNNN]),
     (0x9207, ''MeteringMode'', [ESL_NNNN, ESL_NNNN, ESL_OOOO, ESL_NNNN, ESL_NNNN]),
     (0x9208, ''LightSource'', [ESL_NNNN, ESL_NNNN, ESL_OOOO, ESL_NNNN, ESL_NNNN]),
     (0x9209, ''Flash'', [ESL_NNNN, ESL_NNNN, ESL_OOOO, ESL_NNNN, ESL_NNNN]),
     (0x920a, ''FocalLength'', [ESL_NNNN, ESL_NNNN, ESL_OOOO, ESL_NNNN, ESL_NNNN]),
     (0x9214, ''SubjectArea'', [ESL_NNNN, ESL_NNNN, ESL_OOOO, ESL_NNNN, ESL_NNNN]),
     (0x9216, ''TIFF/EPStandardID'', ESL_DEF),
     (0x927c, ''MakerNote'', [ESL_NNNN, ESL_NNNN, ESL_OOOO, ESL_NNNN, ESL_NNNN]),
     (0x9286, ''UserComment'', [ESL_NNNN, ESL_NNNN, ESL_OOOO, ESL_NNNN, ESL_NNNN]),
     (0x9290, ''SubsecTime'', [ESL_NNNN, ESL_NNNN, ESL_OOOO, ESL_NNNN, ESL_NNNN]),
     (0x9291, ''SubSecTimeOriginal'', [ESL_NNNN, ESL_NNNN, ESL_OOOO, ESL_NNNN, ESL_NNNN]),
     (0x9292, ''SubSecTimeDigitized'', [ESL_NNNN, ESL_NNNN, ESL_OOOO, ESL_NNNN, ESL_NNNN]),
     (0x9c9b, ''XPTitle'', [ESL_OOOO, ESL_NNNN, ESL_NNNN, ESL_NNNN, ESL_NNNN]),
     (0x9c9c, ''XPComment'', [ESL_OOOO, ESL_NNNN, ESL_NNNN, ESL_NNNN, ESL_NNNN]),
     (0x9c9d, ''XPAuthor'', [ESL_OOOO, ESL_NNNN, ESL_NNNN, ESL_NNNN, ESL_NNNN]),
     (0x9c9e, ''XPKeywords'', [ESL_OOOO, ESL_NNNN, ESL_NNNN, ESL_NNNN, ESL_NNNN]),
     (0x9c9f, ''XPSubject'', [ESL_OOOO, ESL_NNNN, ESL_NNNN, ESL_NNNN, ESL_NNNN]),
     (0xa000, ''FlashPixVersion'', [ESL_NNNN, ESL_NNNN, ESL_MMMM, ESL_NNNN, ESL_NNNN]),
     (0xa001, ''ColorSpace'', [ESL_NNNN, ESL_NNNN, ESL_MMMM, ESL_NNNN, ESL_NNNN]),
     (0xa002, ''PixelXDimension'', [ESL_NNNN, ESL_NNNN, ESL_NNNM, ESL_NNNN, ESL_NNNN]),
     (0xa003, ''PixelYDimension'', [ESL_NNNN, ESL_NNNN, ESL_NNNM, ESL_NNNN, ESL_NNNN]),
     (0xa004, ''RelatedSoundFile'', [ESL_NNNN, ESL_NNNN, ESL_OOOO, ESL_NNNN, ESL_NNNN]),
     (0xa005, ''InteroperabilityIFDPointer'', [ESL_NNNN, ESL_NNNN, ESL_NNNN, ESL_NNNN, ESL_NNNN]),
     (0xa20b, ''FlashEnergy'', [ESL_NNNN, ESL_NNNN, ESL_OOOO, ESL_NNNN, ESL_NNNN]),
     (0xa20c, ''SpatialFrequencyResponse'', [ESL_NNNN, ESL_NNNN, ESL_OOOO, ESL_NNNN, ESL_NNNN]),
     (0xa20e, ''FocalPlaneXResolution'', [ESL_NNNN, ESL_NNNN, ESL_OOOO, ESL_NNNN, ESL_NNNN]),
     (0xa20f, ''FocalPlaneYResolution'', [ESL_NNNN, ESL_NNNN, ESL_OOOO, ESL_NNNN, ESL_NNNN]),
     (0xa210, ''FocalPlaneResolutionUnit'', [ESL_NNNN, ESL_NNNN, ESL_OOOO, ESL_NNNN, ESL_NNNN]),
     (0xa214, ''SubjectLocation'', [ESL_NNNN, ESL_NNNN, ESL_OOOO, ESL_NNNN, ESL_NNNN]),
     (0xa215, ''ExposureIndex'', [ESL_NNNN, ESL_NNNN, ESL_OOOO, ESL_NNNN, ESL_NNNN]),
     (0xa217, ''SensingMethod'', [ESL_NNNN, ESL_NNNN, ESL_OOOO, ESL_NNNN, ESL_NNNN]),
     (0xa300, ''FileSource'', [ESL_NNNN, ESL_NNNN, ESL_OOOO, ESL_NNNN, ESL_NNNN]),
     (0xa301, ''SceneType'', [ESL_NNNN, ESL_NNNN, ESL_OOOO, ESL_NNNN, ESL_NNNN]),
     (0xa302, ''CFAPattern'', [ESL_NNNN, ESL_NNNN, ESL_OOOO, ESL_NNNN, ESL_NNNN]),
     (0xa401, ''CustomRendered'', [ESL_NNNN, ESL_NNNN, ESL_OOOO, ESL_NNNN, ESL_NNNN]),
     (0xa402, ''ExposureMode'', [ESL_NNNN, ESL_NNNN, ESL_OOOO, ESL_NNNN, ESL_NNNN]),
     (0xa403, ''WhiteBalance'', [ESL_NNNN, ESL_NNNN, ESL_OOOO, ESL_NNNN, ESL_NNNN]),
     (0xa404, ''DigitalZoomRatio'', [ESL_NNNN, ESL_NNNN, ESL_OOOO, ESL_NNNN, ESL_NNNN]),
     (0xa405, ''FocalLengthIn35mmFilm'', [ESL_NNNN, ESL_NNNN, ESL_OOOO, ESL_NNNN, ESL_NNNN]),
     (0xa406, ''SceneCaptureType'', [ESL_NNNN, ESL_NNNN, ESL_OOOO, ESL_NNNN, ESL_NNNN]),
     (0xa407, ''GainControl'', [ESL_NNNN, ESL_NNNN, ESL_OOOO, ESL_NNNN, ESL_NNNN]),
     (0xa408, ''Contrast'', [ESL_NNNN, ESL_NNNN, ESL_OOOO, ESL_NNNN, ESL_NNNN]),
     (0xa409, ''Saturation'', [ESL_NNNN, ESL_NNNN, ESL_OOOO, ESL_NNNN, ESL_NNNN]),
     (0xa40a, ''Sharpness'', [ESL_NNNN, ESL_NNNN, ESL_OOOO, ESL_NNNN, ESL_NNNN]),
     (0xa40b, ''DeviceSettingDescription'', [ESL_NNNN, ESL_NNNN, ESL_OOOO, ESL_NNNN, ESL_NNNN]),
     (0xa40c, ''SubjectDistanceRange'', [ESL_NNNN, ESL_NNNN, ESL_OOOO, ESL_NNNN, ESL_NNNN]),
     (0xa420, ''ImageUniqueID'', [ESL_NNNN, ESL_NNNN, ESL_OOOO, ESL_NNNN, ESL_NNNN]),
     (0xa500, ''Gamma'', ESL_DEF),
     (0xc4a5, ''PrintImageMatching'', ESL_DEF),
     (0xea1c, ''Padding'', [ESL_OOOO, ESL_NNNN, ESL_OOOO, ESL_NNNN, ESL_NNNN])]"

definition ExifTagTable :: "tag_entry list" where
  "ExifTagTable = map tag_row tag_rows"

text \<open>\<open>esl[ifd][t]\<close> of a row.\<close>

definition te_level :: "tag_entry \<Rightarrow> exif_ifd \<Rightarrow> exif_data_type \<Rightarrow> support_level" where
  "te_level e ifd t = esl_of (te_esl e ! ifd_num ifd) ! data_type_num t"

definition RECORDED :: "tag_entry \<Rightarrow> exif_ifd \<Rightarrow> bool" where
  "RECORDED e ifd \<longleftrightarrow>
     te_level e ifd EXIF_DATA_TYPE_UNCOMPRESSED_CHUNKY \<noteq> EXIF_SUPPORT_LEVEL_NOT_RECORDED \<or>
     te_level e ifd EXIF_DATA_TYPE_UNCOMPRESSED_PLANAR \<noteq> EXIF_SUPPORT_LEVEL_NOT_RECORDED \<or>
     te_level e ifd EXIF_DATA_TYPE_UNCOMPRESSED_YCC \<noteq> EXIF_SUPPORT_LEVEL_NOT_RECORDED \<or>
     te_level e ifd EXIF_DATA_TYPE_COMPRESSED \<noteq> EXIF_SUPPORT_LEVEL_NOT_RECORDED"

definition exif_tag_table_count :: nat where
  "exif_tag_table_count = length ExifTagTable + 1"

definition exif_tag_table_get_tag :: "nat \<Rightarrow> nat" where
  "exif_tag_table_get_tag n = (if n < length ExifTagTable then te_tag (ExifTagTable ! n) else 0)"

definition exif_tag_table_get_name :: "nat \<Rightarrow> string option" where
  "exif_tag_table_get_name n = (if n < length ExifTagTable then Some (te_name (ExifTagTable ! n)) else None)"

subsection \<open>Lookups\<close>

definition match_tag :: "nat \<Rightarrow> tag_entry \<Rightarrow> int" where
  "match_tag tag entry = int tag - int (te_tag entry)"

text \<open>
  \<open>bsearch\<close> of the C library: \<open>base\<close> is the start of the part still searched and \<open>lim\<close> its
  length; the middle element is compared and the part halved.
\<close>

function bsearch :: "('a \<Rightarrow> int) \<Rightarrow> 'a list \<Rightarrow> nat \<Rightarrow> nat \<Rightarrow> nat option" where
  "bsearch cmp xs base lim =
     (if lim = 0 then None
      else let p = base + lim div 2; c = cmp (xs ! p)
           in if c = 0 then Some p
              else if 0 < c then bsearch cmp xs (p + 1) ((lim - 1) div 2)
              else bsearch cmp xs base (lim div 2))"
  by pat_completeness auto
termination by (relation "measure (\<lambda>(_, _, _, lim). lim)") auto

declare bsearch.simps [simp del]

primrec back_first :: "nat \<Rightarrow> nat \<Rightarrow> nat" where
  "back_first tag 0 = 0"
| "back_first tag (Suc i) = (if te_tag (ExifTagTable ! i) = tag then back_first tag i else Suc i)"

definition exif_tag_table_first :: "nat \<Rightarrow> nat option" where
  "exif_tag_table_first tag =
     (case bsearch (match_tag tag) ExifTagTable 0 (exif_tag_table_count - 1) of
        None \<Rightarrow> None
      | Some i \<Rightarrow> Some (back_first tag i))"

text \<open>The loop over the rows from the first one with the tag on.\<close>

primrec scan_name :: "nat \<Rightarrow> exif_ifd \<Rightarrow> tag_entry list \<Rightarrow> string option" where
  "scan_name tag ifd [] = None"
| "scan_name tag ifd (e # es) =
     (if te_tag e = tag then (if RECORDED e ifd then Some (te_name e) else scan_name tag ifd es) else None)"

definition exif_tag_get_name_in_ifd :: "nat \<Rightarrow> exif_ifd \<Rightarrow> string option" where
  "exif_tag_get_name_in_ifd tag ifd =
     (if EXIF_IFD_COUNT \<le> ifd then None
      else case exif_tag_table_first tag of
             None \<Rightarrow> None
           | Some first \<Rightarrow> scan_name tag ifd (drop first ExifTagTable))"

primrec first_result :: "(exif_ifd \<Rightarrow> 'a option) \<Rightarrow> exif_ifd list \<Rightarrow> 'a option" where
  "first_result func [] = None"
| "first_result func (i # ifds) = (case func i of Some r \<Rightarrow> Some r | None \<Rightarrow> first_result func ifds)"

definition exif_tag_get_stuff :: "nat \<Rightarrow> (nat \<Rightarrow> exif_ifd \<Rightarrow> 'a option) \<Rightarrow> 'a option" where
  "exif_tag_get_stuff tag func =
     first_result (func tag) [EXIF_IFD_EXIF, EXIF_IFD_0, EXIF_IFD_1, EXIF_IFD_INTEROPERABILITY, EXIF_IFD_GPS]"

definition exif_tag_get_name :: "nat \<Rightarrow> string option" where
  "exif_tag_get_name tag = exif_tag_get_stuff tag exif_tag_get_name_in_ifd"

definition exif_tag_from_name :: "string option \<Rightarrow> nat" where
  "exif_tag_from_name nm =
     (case nm of None \<Rightarrow> 0
      | Some s \<Rightarrow> (case find (\<lambda>e. te_name e = s) ExifTagTable of None \<Rightarrow> 0 | Some e \<Rightarrow> te_tag e))"

primrec scan_level :: "nat \<Rightarrow> exif_ifd \<Rightarrow> exif_data_type \<Rightarrow> tag_entry list \<Rightarrow> support_level" where
  "scan_level tag ifd t [] = EXIF_SUPPORT_LEVEL_NOT_RECORDED"
| "scan_level tag ifd t (e # es) =
     (if te_tag e = tag
      then if te_level e ifd t \<noteq> EXIF_SUPPORT_LEVEL_NOT_RECORDED then te_level e ifd t
           else scan_level tag ifd t es
      else EXIF_SUPPORT_LEVEL_NOT_RECORDED)"

definition get_support_level_in_ifd :: "nat \<Rightarrow> exif_ifd \<Rightarrow> exif_data_type \<Rightarrow> support_level" where
  "get_support_level_in_ifd tag ifd t =
     (case exif_tag_table_first tag of
        None \<Rightarrow> EXIF_SUPPORT_LEVEL_NOT_RECORDED
      | Some first \<Rightarrow> scan_level tag ifd t (drop first ExifTagTable))"

primrec scan_any :: "nat \<Rightarrow> exif_ifd \<Rightarrow> tag_entry list \<Rightarrow> support_level" where
  "scan_any tag ifd [] = EXIF_SUPPORT_LEVEL_UNKNOWN"
| "scan_any tag ifd (e # es) =
     (if te_tag e = tag
      then let supp = te_level e ifd EXIF_DATA_TYPE_UNCOMPRESSED_CHUNKY
           in if supp \<noteq> EXIF_SUPPORT_LEVEL_NOT_RECORDED \<and>
                 list_all (\<lambda>dt. te_level e ifd dt = supp)
                   [EXIF_DATA_TYPE_UNCOMPRESSED_CHUNKY, EXIF_DATA_TYPE_UNCOMPRESSED_PLANAR,
                    EXIF_DATA_TYPE_UNCOMPRESSED_YCC, EXIF_DATA_TYPE_COMPRESSED]
              then supp else scan_any tag ifd es
      else EXIF_SUPPORT_LEVEL_UNKNOWN)"

definition get_support_level_any_type :: "nat \<Rightarrow> exif_ifd \<Rightarrow> support_level" where
  "get_support_level_any_type tag ifd =
     (case exif_tag_table_first tag of
        None \<Rightarrow> EXIF_SUPPORT_LEVEL_UNKNOWN
      | Some first \<Rightarrow> scan_any tag ifd (drop first ExifTagTable))"

definition exif_tag_get_support_level_in_ifd :: "nat \<Rightarrow> exif_ifd \<Rightarrow> exif_data_type \<Rightarrow> support_level" where
  "exif_tag_get_support_level_in_ifd tag ifd t =
     (if EXIF_IFD_COUNT \<le> ifd then EXIF_SUPPORT_LEVEL_UNKNOWN
      else if t = EXIF_DATA_TYPE_COUNT then get_support_level_any_type tag ifd
      else get_support_level_in_ifd tag ifd t)"

subsection \<open>Searching a sorted table\<close>

text \<open>
  What a table sorted by a key promises: the binary search finds some row with the key exactly
  when there is one, and the rows with the key are the run that starts at the first of them.
\<close>

locale sorted_table =
  fixes key :: "'a \<Rightarrow> nat" and rows :: "'a list"
  assumes rows_sorted: "sorted (map key rows)"
begin

lemma key_mono: "i \<le> j \<Longrightarrow> j < length rows \<Longrightarrow> key (rows ! i) \<le> key (rows ! j)"
  using rows_sorted by (fastforce simp: sorted_iff_nth_mono)

lemma bsearch_cases:
  assumes "base + lim \<le> length rows" "\<And>i. i < base \<Longrightarrow> key (rows ! i) < k"
    "\<And>i. base + lim \<le> i \<Longrightarrow> i < length rows \<Longrightarrow> k < key (rows ! i)"
  shows "case bsearch (\<lambda>e. int k - int (key e)) rows base lim of
           None \<Rightarrow> \<forall>i < length rows. key (rows ! i) \<noteq> k
         | Some p \<Rightarrow> p < length rows \<and> key (rows ! p) = k"
  using assms
proof (induction lim arbitrary: base rule: less_induct)
  case (less lim)
  show ?case
  proof (cases "lim = 0")
    case True
    have "key (rows ! i) \<noteq> k" if "i < length rows" for i
      using True less.prems(2) [of i] less.prems(3) [of i] that by (cases "i < base") auto
    then show ?thesis using True by (simp add: bsearch.simps [of _ _ _ 0])
  next
    case False
    define p where "p = base + lim div 2"
    have p: "base \<le> p" "p < base + lim" "p < length rows" using False less.prems(1) by (auto simp: p_def)
    consider "key (rows ! p) = k" | "key (rows ! p) < k" | "k < key (rows ! p)" by linarith
    then show ?thesis
    proof cases
      case 1
      then show ?thesis using False p by (subst bsearch.simps) (simp add: p_def)
    next
      case 2
      have "key (rows ! i) < k" if "i < p + 1" for i using key_mono [of i p] that p 2 by simp
      moreover have "p + 1 + (lim - 1) div 2 = base + lim"
        using False by (simp add: p_def)
      ultimately show ?thesis
        using less.IH [of "(lim - 1) div 2" "p + 1"] less.prems 2 False
        by (subst bsearch.simps) (simp add: p_def Let_def)
    next
      case 3
      have "k < key (rows ! i)" if "p \<le> i" "i < length rows" for i using key_mono [of p i] that 3 by simp
      then have "case bsearch (\<lambda>e. int k - int (key e)) rows base (lim div 2) of
           None \<Rightarrow> \<forall>i < length rows. key (rows ! i) \<noteq> k
         | Some p \<Rightarrow> p < length rows \<and> key (rows ! p) = k"
        using less.IH [of "lim div 2" base] less.prems False by (simp add: p_def)
      moreover have "bsearch (\<lambda>e. int k - int (key e)) rows base lim =
          bsearch (\<lambda>e. int k - int (key e)) rows base (lim div 2)"
        using 3 False by (subst bsearch.simps) (simp add: p_def Let_def)
      ultimately show ?thesis by simp
    qed
  qed
qed

lemma sorted_run: "sorted (map key xs) \<Longrightarrow> (\<And>x. x \<in> set xs \<Longrightarrow> k \<le> key x) \<Longrightarrow>
   takeWhile (\<lambda>x. key x = k) xs = filter (\<lambda>x. key x = k) xs"
proof (induction xs)
  case (Cons a xs)
  have "filter (\<lambda>x. key x = k) xs = []" if "k < key a"
    using that Cons.prems(1) by (fastforce simp: filter_empty_conv)
  then show ?case using Cons.IH Cons.prems(1) Cons.prems(2) [of a] Cons.prems(2) by fastforce
qed simp

lemma first_run:
  assumes "p < length rows" "key (rows ! p) = k" "p = 0 \<or> key (rows ! (p - 1)) \<noteq> k"
  shows "takeWhile (\<lambda>x. key x = k) (drop p rows) = filter (\<lambda>x. key x = k) rows"
proof -
  have before: "key (rows ! i) < k" if "i < p" for i
  proof -
    have "key (rows ! i) \<le> key (rows ! (p - 1))" "key (rows ! (p - 1)) \<le> k"
      using key_mono [of i "p - 1"] key_mono [of "p - 1" p] assms(1, 2) that by simp_all
    then show ?thesis using assms(3) that by linarith
  qed
  have above: "k \<le> key x" if "x \<in> set (drop p rows)" for x
  proof -
    obtain j where "j < length rows - p" "x = rows ! (p + j)"
      using \<open>x \<in> set (drop p rows)\<close> by (auto simp: in_set_conv_nth)
    then show ?thesis using key_mono [of p "p + j"] assms(2) by simp
  qed
  have "filter (\<lambda>x. key x = k) (take p rows) = []"
    using before by (fastforce simp: filter_empty_conv in_set_conv_nth)
  then have "filter (\<lambda>x. key x = k) rows = filter (\<lambda>x. key x = k) (drop p rows)"
    by (metis append_Nil append_take_drop_id filter_append)
  moreover have "sorted (map key (drop p rows))"
    using rows_sorted by (simp add: drop_map [symmetric] sorted_wrt_drop)
  ultimately show ?thesis using sorted_run [OF _ above] by simp
qed

end

interpretation tags: sorted_table te_tag ExifTagTable
proof
  have "map te_tag ExifTagTable = map fst tag_rows"
    by (simp add: ExifTagTable_def tag_row_def)
  moreover have "sorted (map fst tag_rows)" 
    by (simp only: tag_rows_def list.map fst_conv sorted2 sorted1) simp
  ultimately show "sorted (map te_tag ExifTagTable)" by simp
qed

lemma back_first_run:
  assumes "p < length ExifTagTable" "te_tag (ExifTagTable ! p) = tag"
  defines "f \<equiv> back_first tag p"
  shows "f \<le> p \<and> te_tag (ExifTagTable ! f) = tag \<and> (f = 0 \<or> te_tag (ExifTagTable ! (f - 1)) \<noteq> tag)"
  unfolding f_def using assms(2) by (induction p) auto

lemma table_first:
  "case exif_tag_table_first tag of
     None \<Rightarrow> filter (\<lambda>e. te_tag e = tag) ExifTagTable = []
   | Some f \<Rightarrow> takeWhile (\<lambda>e. te_tag e = tag) (drop f ExifTagTable) = filter (\<lambda>e. te_tag e = tag) ExifTagTable"
proof -
  have m: "match_tag tag = (\<lambda>e. int tag - int (te_tag e))" by (rule ext) (simp add: match_tag_def)
  note found = tags.bsearch_cases [of 0 "length ExifTagTable" tag]
  show ?thesis
  proof (cases "bsearch (match_tag tag) ExifTagTable 0 (length ExifTagTable)")
    case None
    then show ?thesis using found
      by (auto simp: exif_tag_table_first_def exif_tag_table_count_def m filter_empty_conv in_set_conv_nth)
  next
    case (Some p)
    then have p: "p < length ExifTagTable" "te_tag (ExifTagTable ! p) = tag" using found by (simp_all add: m)
    show ?thesis
      using back_first_run [OF p] tags.first_run [of "back_first tag p" tag] p(1) Some
      by (simp add: exif_tag_table_first_def exif_tag_table_count_def)
  qed
qed

lemma scan_name_find:
  "scan_name tag ifd es = map_option te_name (find (\<lambda>e. RECORDED e ifd) (takeWhile (\<lambda>e. te_tag e = tag) es))"
  by (induction es) auto

lemma scan_level_find:
  "scan_level tag ifd t es =
     (case find (\<lambda>e. te_level e ifd t \<noteq> EXIF_SUPPORT_LEVEL_NOT_RECORDED) (takeWhile (\<lambda>e. te_tag e = tag) es) of
        None \<Rightarrow> EXIF_SUPPORT_LEVEL_NOT_RECORDED | Some e \<Rightarrow> te_level e ifd t)"
  by (induction es) auto

lemma find_filter: "find P (filter Q xs) = find (\<lambda>x. Q x \<and> P x) xs"
  by (induction xs) auto

lemma tag_lookup:
  "exif_tag_get_name_in_ifd tag ifd =
     (if ifd = EXIF_IFD_COUNT then None
      else map_option te_name (find (\<lambda>e. te_tag e = tag \<and> RECORDED e ifd) ExifTagTable))" (is ?name)
  "get_support_level_in_ifd tag ifd t =
     (case find (\<lambda>e. te_tag e = tag \<and> te_level e ifd t \<noteq> EXIF_SUPPORT_LEVEL_NOT_RECORDED) ExifTagTable of
        None \<Rightarrow> EXIF_SUPPORT_LEVEL_NOT_RECORDED | Some e \<Rightarrow> te_level e ifd t)" (is ?level)
proof -
  have none: "find (\<lambda>e. te_tag e = tag \<and> P e) ExifTagTable = None"
    if "filter (\<lambda>e. te_tag e = tag) ExifTagTable = []" for P
    using that find_filter [of P "\<lambda>e. te_tag e = tag" ExifTagTable] by simp
  show ?name
    using table_first [of tag]
    by (auto simp: exif_tag_get_name_in_ifd_def scan_name_find find_filter none split: option.splits)
  show ?level
    using table_first [of tag]
    by (auto simp: get_support_level_in_ifd_def scan_level_find find_filter none split: option.splits)
qed

text \<open>
  The tag names are documented as unique, but one is used for two tags, and only the first of
  them is found again by its name.
\<close>

lemma cfa_pattern_name:
  "exif_tag_table_get_name 131 = Some ''CFAPattern'' \<and> exif_tag_table_get_tag 131 = 0xa302 \<and>
   exif_tag_from_name (exif_tag_table_get_name 131) = 0x828e"
  by (simp add: ExifTagTable_def tag_rows_def tag_row_def exif_tag_table_get_name_def
      exif_tag_table_get_tag_def exif_tag_from_name_def)

text \<open>C28: The lookups agree with a plain search of the table: the binary search, the walk back to the
  first row with the tag and the loop over its rows give the first row of the tag that is recorded
  in the directory, and its support level there.
\<close>

theorem exif_tag_lookup_linear:
  "exif_tag_get_name_in_ifd tag ifd =
     (if ifd = EXIF_IFD_COUNT then None
      else map_option te_name (find (\<lambda>e. te_tag e = tag \<and> RECORDED e ifd) ExifTagTable)) \<and>
   get_support_level_in_ifd tag ifd t =
     (case find (\<lambda>e. te_tag e = tag \<and> te_level e ifd t \<noteq> EXIF_SUPPORT_LEVEL_NOT_RECORDED) ExifTagTable of
        None \<Rightarrow> EXIF_SUPPORT_LEVEL_NOT_RECORDED | Some e \<Rightarrow> te_level e ifd t)"
  by (simp add: tag_lookup)

end
