(* ===== verification/ExifEntry.thy ===== *)
theory ExifEntry
  imports ExifUtils ExifTag
begin

text \<open>
  Entries of an EXIF directory (\<open>exif-entry.c\<close>): their representation, the correction of entries
  against the standard and the default value of a new entry. The allocator is the argument \<open>al\<close>,
  which tells whether a request for a number of bytes is granted; a result \<open>None\<close> is an access
  outside a block, the dereference of a null pointer included. A tag is kept in 16 bits: the reader takes
  it from a 16-bit field and the constants of the table fit.
\<close>

abbreviation EXIF_TAG_IMAGE_WIDTH :: nat where "EXIF_TAG_IMAGE_WIDTH \<equiv> 0x0100"
abbreviation EXIF_TAG_IMAGE_LENGTH :: nat where "EXIF_TAG_IMAGE_LENGTH \<equiv> 0x0101"
abbreviation EXIF_TAG_BITS_PER_SAMPLE :: nat where "EXIF_TAG_BITS_PER_SAMPLE \<equiv> 0x0102"
abbreviation EXIF_TAG_COMPRESSION :: nat where "EXIF_TAG_COMPRESSION \<equiv> 0x0103"
abbreviation EXIF_TAG_PHOTOMETRIC_INTERPRETATION :: nat where "EXIF_TAG_PHOTOMETRIC_INTERPRETATION \<equiv> 0x0106"
abbreviation EXIF_TAG_IMAGE_DESCRIPTION :: nat where "EXIF_TAG_IMAGE_DESCRIPTION \<equiv> 0x010e"
abbreviation EXIF_TAG_MAKE :: nat where "EXIF_TAG_MAKE \<equiv> 0x010f"
abbreviation EXIF_TAG_MODEL :: nat where "EXIF_TAG_MODEL \<equiv> 0x0110"
abbreviation EXIF_TAG_ORIENTATION :: nat where "EXIF_TAG_ORIENTATION \<equiv> 0x0112"
abbreviation EXIF_TAG_SAMPLES_PER_PIXEL :: nat where "EXIF_TAG_SAMPLES_PER_PIXEL \<equiv> 0x0115"
abbreviation EXIF_TAG_X_RESOLUTION :: nat where "EXIF_TAG_X_RESOLUTION \<equiv> 0x011a"
abbreviation EXIF_TAG_Y_RESOLUTION :: nat where "EXIF_TAG_Y_RESOLUTION \<equiv> 0x011b"
abbreviation EXIF_TAG_PLANAR_CONFIGURATION :: nat where "EXIF_TAG_PLANAR_CONFIGURATION \<equiv> 0x011c"
abbreviation EXIF_TAG_RESOLUTION_UNIT :: nat where "EXIF_TAG_RESOLUTION_UNIT \<equiv> 0x0128"
abbreviation EXIF_TAG_SOFTWARE :: nat where "EXIF_TAG_SOFTWARE \<equiv> 0x0131"
abbreviation EXIF_TAG_DATE_TIME :: nat where "EXIF_TAG_DATE_TIME \<equiv> 0x0132"
abbreviation EXIF_TAG_ARTIST :: nat where "EXIF_TAG_ARTIST \<equiv> 0x013b"
abbreviation EXIF_TAG_WHITE_POINT :: nat where "EXIF_TAG_WHITE_POINT \<equiv> 0x013e"
abbreviation EXIF_TAG_PRIMARY_CHROMATICITIES :: nat where "EXIF_TAG_PRIMARY_CHROMATICITIES \<equiv> 0x013f"
abbreviation EXIF_TAG_JPEG_INTERCHANGE_FORMAT :: nat where "EXIF_TAG_JPEG_INTERCHANGE_FORMAT \<equiv> 0x0201"
abbreviation EXIF_TAG_JPEG_INTERCHANGE_FORMAT_LENGTH :: nat where "EXIF_TAG_JPEG_INTERCHANGE_FORMAT_LENGTH \<equiv> 0x0202"
abbreviation EXIF_TAG_YCBCR_SUB_SAMPLING :: nat where "EXIF_TAG_YCBCR_SUB_SAMPLING \<equiv> 0x0212"
abbreviation EXIF_TAG_YCBCR_POSITIONING :: nat where "EXIF_TAG_YCBCR_POSITIONING \<equiv> 0x0213"
abbreviation EXIF_TAG_REFERENCE_BLACK_WHITE :: nat where "EXIF_TAG_REFERENCE_BLACK_WHITE \<equiv> 0x0214"
abbreviation EXIF_TAG_COPYRIGHT :: nat where "EXIF_TAG_COPYRIGHT \<equiv> 0x8298"
abbreviation EXIF_TAG_EXPOSURE_TIME :: nat where "EXIF_TAG_EXPOSURE_TIME \<equiv> 0x829a"
abbreviation EXIF_TAG_FNUMBER :: nat where "EXIF_TAG_FNUMBER \<equiv> 0x829d"
abbreviation EXIF_TAG_EXIF_IFD_POINTER :: nat where "EXIF_TAG_EXIF_IFD_POINTER \<equiv> 0x8769"
abbreviation EXIF_TAG_EXPOSURE_PROGRAM :: nat where "EXIF_TAG_EXPOSURE_PROGRAM \<equiv> 0x8822"
abbreviation EXIF_TAG_GPS_INFO_IFD_POINTER :: nat where "EXIF_TAG_GPS_INFO_IFD_POINTER \<equiv> 0x8825"
abbreviation EXIF_TAG_ISO_SPEED_RATINGS :: nat where "EXIF_TAG_ISO_SPEED_RATINGS \<equiv> 0x8827"
abbreviation EXIF_TAG_EXIF_VERSION :: nat where "EXIF_TAG_EXIF_VERSION \<equiv> 0x9000"
abbreviation EXIF_TAG_DATE_TIME_ORIGINAL :: nat where "EXIF_TAG_DATE_TIME_ORIGINAL \<equiv> 0x9003"
abbreviation EXIF_TAG_DATE_TIME_DIGITIZED :: nat where "EXIF_TAG_DATE_TIME_DIGITIZED \<equiv> 0x9004"
abbreviation EXIF_TAG_COMPONENTS_CONFIGURATION :: nat where "EXIF_TAG_COMPONENTS_CONFIGURATION \<equiv> 0x9101"
abbreviation EXIF_TAG_COMPRESSED_BITS_PER_PIXEL :: nat where "EXIF_TAG_COMPRESSED_BITS_PER_PIXEL \<equiv> 0x9102"
abbreviation EXIF_TAG_SHUTTER_SPEED_VALUE :: nat where "EXIF_TAG_SHUTTER_SPEED_VALUE \<equiv> 0x9201"
abbreviation EXIF_TAG_APERTURE_VALUE :: nat where "EXIF_TAG_APERTURE_VALUE \<equiv> 0x9202"
abbreviation EXIF_TAG_BRIGHTNESS_VALUE :: nat where "EXIF_TAG_BRIGHTNESS_VALUE \<equiv> 0x9203"
abbreviation EXIF_TAG_EXPOSURE_BIAS_VALUE :: nat where "EXIF_TAG_EXPOSURE_BIAS_VALUE \<equiv> 0x9204"
abbreviation EXIF_TAG_MAX_APERTURE_VALUE :: nat where "EXIF_TAG_MAX_APERTURE_VALUE \<equiv> 0x9205"
abbreviation EXIF_TAG_SUBJECT_DISTANCE :: nat where "EXIF_TAG_SUBJECT_DISTANCE \<equiv> 0x9206"
abbreviation EXIF_TAG_METERING_MODE :: nat where "EXIF_TAG_METERING_MODE \<equiv> 0x9207"
abbreviation EXIF_TAG_LIGHT_SOURCE :: nat where "EXIF_TAG_LIGHT_SOURCE \<equiv> 0x9208"
abbreviation EXIF_TAG_FLASH :: nat where "EXIF_TAG_FLASH \<equiv> 0x9209"
abbreviation EXIF_TAG_FOCAL_LENGTH :: nat where "EXIF_TAG_FOCAL_LENGTH \<equiv> 0x920a"
abbreviation EXIF_TAG_SUBJECT_AREA :: nat where "EXIF_TAG_SUBJECT_AREA \<equiv> 0x9214"
abbreviation EXIF_TAG_MAKER_NOTE :: nat where "EXIF_TAG_MAKER_NOTE \<equiv> 0x927c"
abbreviation EXIF_TAG_USER_COMMENT :: nat where "EXIF_TAG_USER_COMMENT \<equiv> 0x9286"
abbreviation EXIF_TAG_SUB_SEC_TIME :: nat where "EXIF_TAG_SUB_SEC_TIME \<equiv> 0x9290"
abbreviation EXIF_TAG_SUB_SEC_TIME_ORIGINAL :: nat where "EXIF_TAG_SUB_SEC_TIME_ORIGINAL \<equiv> 0x9291"
abbreviation EXIF_TAG_SUB_SEC_TIME_DIGITIZED :: nat where "EXIF_TAG_SUB_SEC_TIME_DIGITIZED \<equiv> 0x9292"
abbreviation EXIF_TAG_FLASH_PIX_VERSION :: nat where "EXIF_TAG_FLASH_PIX_VERSION \<equiv> 0xa000"
abbreviation EXIF_TAG_COLOR_SPACE :: nat where "EXIF_TAG_COLOR_SPACE \<equiv> 0xa001"
abbreviation EXIF_TAG_PIXEL_X_DIMENSION :: nat where "EXIF_TAG_PIXEL_X_DIMENSION \<equiv> 0xa002"
abbreviation EXIF_TAG_PIXEL_Y_DIMENSION :: nat where "EXIF_TAG_PIXEL_Y_DIMENSION \<equiv> 0xa003"
abbreviation EXIF_TAG_INTEROPERABILITY_IFD_POINTER :: nat where "EXIF_TAG_INTEROPERABILITY_IFD_POINTER \<equiv> 0xa005"
abbreviation EXIF_TAG_FLASH_ENERGY :: nat where "EXIF_TAG_FLASH_ENERGY \<equiv> 0xa20b"
abbreviation EXIF_TAG_FOCAL_PLANE_X_RESOLUTION :: nat where "EXIF_TAG_FOCAL_PLANE_X_RESOLUTION \<equiv> 0xa20e"
abbreviation EXIF_TAG_FOCAL_PLANE_Y_RESOLUTION :: nat where "EXIF_TAG_FOCAL_PLANE_Y_RESOLUTION \<equiv> 0xa20f"
abbreviation EXIF_TAG_FOCAL_PLANE_RESOLUTION_UNIT :: nat where "EXIF_TAG_FOCAL_PLANE_RESOLUTION_UNIT \<equiv> 0xa210"
abbreviation EXIF_TAG_SUBJECT_LOCATION :: nat where "EXIF_TAG_SUBJECT_LOCATION \<equiv> 0xa214"
abbreviation EXIF_TAG_EXPOSURE_INDEX :: nat where "EXIF_TAG_EXPOSURE_INDEX \<equiv> 0xa215"
abbreviation EXIF_TAG_SENSING_METHOD :: nat where "EXIF_TAG_SENSING_METHOD \<equiv> 0xa217"
abbreviation EXIF_TAG_FILE_SOURCE :: nat where "EXIF_TAG_FILE_SOURCE \<equiv> 0xa300"
abbreviation EXIF_TAG_SCENE_TYPE :: nat where "EXIF_TAG_SCENE_TYPE \<equiv> 0xa301"
abbreviation EXIF_TAG_CUSTOM_RENDERED :: nat where "EXIF_TAG_CUSTOM_RENDERED \<equiv> 0xa401"
abbreviation EXIF_TAG_EXPOSURE_MODE :: nat where "EXIF_TAG_EXPOSURE_MODE \<equiv> 0xa402"
abbreviation EXIF_TAG_WHITE_BALANCE :: nat where "EXIF_TAG_WHITE_BALANCE \<equiv> 0xa403"
abbreviation EXIF_TAG_DIGITAL_ZOOM_RATIO :: nat where "EXIF_TAG_DIGITAL_ZOOM_RATIO \<equiv> 0xa404"
abbreviation EXIF_TAG_FOCAL_LENGTH_IN_35MM_FILM :: nat where "EXIF_TAG_FOCAL_LENGTH_IN_35MM_FILM \<equiv> 0xa405"
abbreviation EXIF_TAG_SCENE_CAPTURE_TYPE :: nat where "EXIF_TAG_SCENE_CAPTURE_TYPE \<equiv> 0xa406"
abbreviation EXIF_TAG_GAIN_CONTROL :: nat where "EXIF_TAG_GAIN_CONTROL \<equiv> 0xa407"
abbreviation EXIF_TAG_CONTRAST :: nat where "EXIF_TAG_CONTRAST \<equiv> 0xa408"
abbreviation EXIF_TAG_SATURATION :: nat where "EXIF_TAG_SATURATION \<equiv> 0xa409"
abbreviation EXIF_TAG_SHARPNESS :: nat where "EXIF_TAG_SHARPNESS \<equiv> 0xa40a"
abbreviation EXIF_TAG_SUBJECT_DISTANCE_RANGE :: nat where "EXIF_TAG_SUBJECT_DISTANCE_RANGE \<equiv> 0xa40c"

record exif_entry =
  en_tag :: u16
  en_format :: nat
  en_components :: u32
  en_data :: "u8 list option"
  en_size :: u32

definition exif_entry_new :: exif_entry where
  "exif_entry_new = \<lparr>en_tag = 0, en_format = 0, en_components = 0, en_data = None, en_size = 0\<rparr>"

definition exif_mem_alloc :: "(nat \<Rightarrow> bool) \<Rightarrow> nat \<Rightarrow> u8 list option" where
  "exif_mem_alloc al n = (if al n then Some (replicate n 0) else None)"

definition exif_entry_alloc :: "(nat \<Rightarrow> bool) \<Rightarrow> u32 \<Rightarrow> u8 list option" where
  "exif_entry_alloc al i = (if i = 0 then None else exif_mem_alloc al (unat i))"

text \<open>The bytes behind a data pointer; a null pointer has none.\<close>

definition en_block :: "exif_entry \<Rightarrow> u8 list" where
  "en_block e = (case en_data e of None \<Rightarrow> [] | Some b \<Rightarrow> b)"

definition fsize :: "nat \<Rightarrow> u32" where
  "fsize f = of_nat (exif_format_get_size f)"

subsection \<open>Correcting an entry\<close>

definition exif_get_short_convert :: "u8 list \<Rightarrow> nat \<Rightarrow> exif_byte_order \<Rightarrow> u16" where
  "exif_get_short_convert buf format order =
     (if format = EXIF_FORMAT_LONG then ucast (exif_get_long order buf)
      else if format = EXIF_FORMAT_SLONG then ucast (exif_get_slong order buf)
      else if format = EXIF_FORMAT_SHORT then exif_get_short order buf
      else if format = EXIF_FORMAT_SSHORT then exif_get_sshort order buf
      else if format = EXIF_FORMAT_BYTE \<or> format = EXIF_FORMAT_SBYTE then ucast (buf ! 0)
      else 0)"

fun short_loop :: "exif_byte_order \<Rightarrow> nat \<Rightarrow> u8 list \<Rightarrow> nat \<Rightarrow> nat \<Rightarrow> u8 list \<Rightarrow> u8 list option" where
  "short_loop order f src i 0 new = Some new"
| "short_loop order f src i (Suc n) new =
     (if (i + 1) * exif_format_get_size f \<le> length src \<and> (i + 1) * 2 \<le> length new
      then short_loop order f src (i + 1) n
             (write_at (i * 2)
                (exif_set_short order (exif_get_short_convert (drop (i * exif_format_get_size f) src) f order)) new)
      else None)"

fun rational_loop :: "(u8 list \<Rightarrow> exif_rational) \<Rightarrow> (exif_rational \<Rightarrow> u8 list) \<Rightarrow> nat \<Rightarrow> nat \<Rightarrow> u8 list \<Rightarrow> u8 list option" where
  "rational_loop get put i 0 buf = Some buf"
| "rational_loop get put i (Suc n) buf =
     (if (i + 1) * 8 \<le> length buf
      then rational_loop get put (i + 1) n (write_at (i * 8) (put (get (drop (i * 8) buf))) buf)
      else None)"

text \<open>The tags the standard wants as \<open>SHORT\<close>, \<open>RATIONAL\<close> and \<open>SRATIONAL\<close>.\<close>

definition fix_short_tags :: "nat list" where
  "fix_short_tags =
    [EXIF_TAG_YCBCR_SUB_SAMPLING, EXIF_TAG_SUBJECT_AREA, EXIF_TAG_COLOR_SPACE,
     EXIF_TAG_PLANAR_CONFIGURATION, EXIF_TAG_SENSING_METHOD, EXIF_TAG_ORIENTATION,
     EXIF_TAG_YCBCR_POSITIONING, EXIF_TAG_PHOTOMETRIC_INTERPRETATION, EXIF_TAG_CUSTOM_RENDERED,
     EXIF_TAG_EXPOSURE_MODE, EXIF_TAG_WHITE_BALANCE, EXIF_TAG_SCENE_CAPTURE_TYPE,
     EXIF_TAG_GAIN_CONTROL, EXIF_TAG_SATURATION, EXIF_TAG_CONTRAST, EXIF_TAG_SHARPNESS,
     EXIF_TAG_ISO_SPEED_RATINGS]"

definition fix_rational_tags :: "nat list" where
  "fix_rational_tags =
    [EXIF_TAG_FNUMBER, EXIF_TAG_APERTURE_VALUE, EXIF_TAG_EXPOSURE_TIME, EXIF_TAG_FOCAL_LENGTH]"

definition fix_srational_tags :: "nat list" where
  "fix_srational_tags =
    [EXIF_TAG_EXPOSURE_BIAS_VALUE, EXIF_TAG_BRIGHTNESS_VALUE, EXIF_TAG_SHUTTER_SPEED_VALUE]"

definition ASCII_CODE :: "u8 list" where "ASCII_CODE = map of_char ''ASCII'' @ [0, 0, 0]"
definition UNICODE_CODE :: "u8 list" where "UNICODE_CODE = map of_char ''UNICODE'' @ [0]"
definition JIS_CODE :: "u8 list" where "JIS_CODE = map of_char ''JIS'' @ [0, 0, 0, 0, 0]"

text \<open>
  The expansion of a comment by a character code: \<open>realloc\<close>, \<open>memmove\<close> of the old text and
  \<open>memcpy\<close> of the code. The size is computed in 32 bits.
\<close>

definition expand_comment :: "(nat \<Rightarrow> bool) \<Rightarrow> exif_entry \<Rightarrow> exif_entry option" where
  "expand_comment al e =
     (let ns = 8 + en_size e
      in if \<not> al (unat ns) then Some (e\<lparr>en_data := None, en_size := 0, en_components := 0\<rparr>)
         else if unat ns < 8 + unat (en_size e) \<or> length (en_block e) < unat (en_size e) then None
         else Some (e\<lparr>en_data := Some (ASCII_CODE @ take (unat (en_size e)) (en_block e)),
                      en_size := ns, en_components := en_components e + 8\<rparr>))"

definition fix_user_comment :: "(nat \<Rightarrow> bool) \<Rightarrow> exif_entry \<Rightarrow> exif_entry option" where
  "fix_user_comment al e0 =
     (let e1 = (if en_format e0 \<noteq> EXIF_FORMAT_UNDEFINED then e0\<lparr>en_format := EXIF_FORMAT_UNDEFINED\<rparr> else e0);
          sz = unat (en_size e1)
      in if sz < 8 then expand_comment al e1
         else if length (en_block e1) < sz then None
         else let e = (if en_block e1 ! 0 = 0
                       then e1\<lparr>en_data := Some (write_at 0 (replicate 8 0) (en_block e1))\<rparr> else e1);
                  d = take sz (en_block e);
                  zeros = length (takeWhile (\<lambda>b. b = 0) d);
                  i = (if zeros = 0 then length (takeWhile (\<lambda>b. b = 0x20) d) else zeros)
              in if 8 \<le> i \<and> i < sz then Some (e\<lparr>en_data := Some (write_at 0 ASCII_CODE (en_block e))\<rparr>)
                 else if take 8 d \<noteq> ASCII_CODE \<and> take 8 d \<noteq> UNICODE_CODE \<and> take 8 d \<noteq> JIS_CODE \<and>
                         take 8 d \<noteq> replicate 8 0
                 then expand_comment al e
                 else Some e)"

definition exif_entry_fix :: "(nat \<Rightarrow> bool) \<Rightarrow> exif_byte_order \<Rightarrow> exif_entry \<Rightarrow> exif_entry option" where
  "exif_entry_fix al order e =
     (let tag = unat (en_tag e); n = unat (en_components e)
      in if tag \<in> set fix_short_tags then
           (if en_format e \<in> {EXIF_FORMAT_LONG, EXIF_FORMAT_SLONG, EXIF_FORMAT_BYTE, EXIF_FORMAT_SBYTE, EXIF_FORMAT_SSHORT}
            then let newsize = en_components e * fsize EXIF_FORMAT_SHORT
                 in case exif_entry_alloc al newsize of
                      None \<Rightarrow> Some e
                    | Some newdata \<Rightarrow>
                        map_option (\<lambda>d. e\<lparr>en_data := Some d, en_size := newsize, en_format := EXIF_FORMAT_SHORT\<rparr>)
                          (short_loop order (en_format e) (en_block e) 0 n newdata)
            else Some e)
         else if tag \<in> set fix_rational_tags then
           (if en_format e = EXIF_FORMAT_SRATIONAL
            then map_option (\<lambda>d. e\<lparr>en_data := map_option (\<lambda>_. d) (en_data e), en_format := EXIF_FORMAT_RATIONAL\<rparr>)
                   (rational_loop (exif_get_srational order) (exif_set_rational order) 0 n (en_block e))
            else Some e)
         else if tag \<in> set fix_srational_tags then
           (if en_format e = EXIF_FORMAT_RATIONAL
            then map_option (\<lambda>d. e\<lparr>en_data := map_option (\<lambda>_. d) (en_data e), en_format := EXIF_FORMAT_SRATIONAL\<rparr>)
                   (rational_loop (exif_get_rational order) (exif_set_srational order) 0 n (en_block e))
            else Some e)
         else if tag = EXIF_TAG_USER_COMMENT then fix_user_comment al e
         else Some e)"

subsection \<open>Default values\<close>

text \<open>The fields of \<open>struct tm\<close> that the code prints.\<close>

record tm =
  tm_year :: nat
  tm_mon :: nat
  tm_mday :: nat
  tm_hour :: nat
  tm_min :: nat
  tm_sec :: nat

definition pad0 :: "nat \<Rightarrow> nat \<Rightarrow> string" where
  "pad0 w n = replicate (w - length (show_nat n)) (CHR ''0'') @ show_nat n"

definition date_text :: "tm \<Rightarrow> string" where
  "date_text tm =
     pad0 4 (tm_year tm + 1900) @ '':'' @ pad0 2 (tm_mon tm + 1) @ '':'' @ pad0 2 (tm_mday tm) @ '' '' @
     pad0 2 (tm_hour tm) @ '':'' @ pad0 2 (tm_min tm) @ '':'' @ pad0 2 (tm_sec tm)"

text \<open>\<open>snprintf\<close> and \<open>strcpy\<close> into a zeroed block.\<close>

definition put_text :: "nat \<Rightarrow> string \<Rightarrow> u8 list \<Rightarrow> u8 list" where
  "put_text lim s b = write_at 0 (map of_char (take (lim - 1) s) @ [0]) b"

definition init_entry :: "(nat \<Rightarrow> bool) \<Rightarrow> exif_entry \<Rightarrow> nat \<Rightarrow> nat \<Rightarrow> (u8 list \<Rightarrow> u8 list) \<Rightarrow> exif_entry" where
  "init_entry al e comps f put =
     (let sz = fsize f * of_nat comps
      in e\<lparr>en_components := of_nat comps, en_format := f, en_size := sz,
           en_data := map_option put (exif_entry_alloc al sz)\<rparr>)"

definition init_long :: "nat list" where
  "init_long =
    [EXIF_TAG_PIXEL_X_DIMENSION, EXIF_TAG_PIXEL_Y_DIMENSION, EXIF_TAG_EXIF_IFD_POINTER,
     EXIF_TAG_GPS_INFO_IFD_POINTER, EXIF_TAG_INTEROPERABILITY_IFD_POINTER,
     EXIF_TAG_JPEG_INTERCHANGE_FORMAT_LENGTH, EXIF_TAG_JPEG_INTERCHANGE_FORMAT]"

definition init_short0 :: "nat list" where
  "init_short0 =
    [EXIF_TAG_SUBJECT_LOCATION, EXIF_TAG_SENSING_METHOD, EXIF_TAG_PHOTOMETRIC_INTERPRETATION,
     EXIF_TAG_COMPRESSION, EXIF_TAG_EXPOSURE_MODE, EXIF_TAG_WHITE_BALANCE,
     EXIF_TAG_FOCAL_LENGTH_IN_35MM_FILM, EXIF_TAG_GAIN_CONTROL, EXIF_TAG_SUBJECT_DISTANCE_RANGE,
     EXIF_TAG_FLASH, EXIF_TAG_ISO_SPEED_RATINGS, EXIF_TAG_IMAGE_WIDTH, EXIF_TAG_IMAGE_LENGTH,
     EXIF_TAG_EXPOSURE_PROGRAM, EXIF_TAG_LIGHT_SOURCE, EXIF_TAG_METERING_MODE,
     EXIF_TAG_CUSTOM_RENDERED, EXIF_TAG_SCENE_CAPTURE_TYPE, EXIF_TAG_CONTRAST, EXIF_TAG_SATURATION,
     EXIF_TAG_SHARPNESS]"

definition init_short1 :: "nat list" where
  "init_short1 =
    [EXIF_TAG_ORIENTATION, EXIF_TAG_PLANAR_CONFIGURATION, EXIF_TAG_YCBCR_POSITIONING]"

definition init_short2 :: "nat list" where
  "init_short2 =
    [EXIF_TAG_RESOLUTION_UNIT, EXIF_TAG_FOCAL_PLANE_RESOLUTION_UNIT]"

definition init_srational :: "nat list" where
  "init_srational =
    [EXIF_TAG_EXPOSURE_BIAS_VALUE, EXIF_TAG_BRIGHTNESS_VALUE, EXIF_TAG_SHUTTER_SPEED_VALUE]"

definition init_rational :: "nat list" where
  "init_rational =
    [EXIF_TAG_EXPOSURE_TIME, EXIF_TAG_FOCAL_PLANE_X_RESOLUTION, EXIF_TAG_FOCAL_PLANE_Y_RESOLUTION,
     EXIF_TAG_EXPOSURE_INDEX, EXIF_TAG_FLASH_ENERGY, EXIF_TAG_FNUMBER, EXIF_TAG_FOCAL_LENGTH,
     EXIF_TAG_SUBJECT_DISTANCE, EXIF_TAG_MAX_APERTURE_VALUE, EXIF_TAG_APERTURE_VALUE,
     EXIF_TAG_COMPRESSED_BITS_PER_PIXEL, EXIF_TAG_PRIMARY_CHROMATICITIES, EXIF_TAG_DIGITAL_ZOOM_RATIO]"

definition init_72 :: "nat list" where
  "init_72 =
    [EXIF_TAG_X_RESOLUTION, EXIF_TAG_Y_RESOLUTION]"

definition init_date :: "nat list" where
  "init_date =
    [EXIF_TAG_DATE_TIME, EXIF_TAG_DATE_TIME_ORIGINAL, EXIF_TAG_DATE_TIME_DIGITIZED]"

definition init_subsec :: "nat list" where
  "init_subsec =
    [EXIF_TAG_SUB_SEC_TIME, EXIF_TAG_SUB_SEC_TIME_ORIGINAL, EXIF_TAG_SUB_SEC_TIME_DIGITIZED]"

definition init_none :: "nat list" where
  "init_none =
    [EXIF_TAG_IMAGE_DESCRIPTION, EXIF_TAG_MAKE, EXIF_TAG_MODEL, EXIF_TAG_SOFTWARE, EXIF_TAG_ARTIST]"

definition exif_entry_initialize ::
  "(nat \<Rightarrow> bool) \<Rightarrow> tm \<Rightarrow> exif_byte_order \<Rightarrow> exif_entry \<Rightarrow> nat \<Rightarrow> exif_entry" where
  "exif_entry_initialize al now order e0 tag =
     (if en_data e0 \<noteq> None then e0
      else let e = e0\<lparr>en_tag := of_nat tag\<rparr>;
               short = (\<lambda>i v. write_at (2 * i) (exif_set_short order v));
               rat = (\<lambda>i v. write_at (8 * i) (exif_set_rational order \<lparr>numerator = v, denominator = 1\<rparr>))
           in if tag \<in> set init_long then init_entry al e 1 EXIF_FORMAT_LONG (\<lambda>b. b)
              else if tag \<in> set init_short0 then init_entry al e 1 EXIF_FORMAT_SHORT (short 0 0)
              else if tag \<in> set init_short1 then init_entry al e 1 EXIF_FORMAT_SHORT (short 0 1)
              else if tag \<in> set init_short2 then init_entry al e 1 EXIF_FORMAT_SHORT (short 0 2)
              else if tag = EXIF_TAG_SAMPLES_PER_PIXEL then init_entry al e 1 EXIF_FORMAT_SHORT (short 0 3)
              else if tag = EXIF_TAG_COLOR_SPACE then init_entry al e 1 EXIF_FORMAT_SHORT (short 0 0xffff)
              else if tag = EXIF_TAG_BITS_PER_SAMPLE
                then init_entry al e 3 EXIF_FORMAT_SHORT (short 2 8 \<circ> short 1 8 \<circ> short 0 8)
              else if tag = EXIF_TAG_YCBCR_SUB_SAMPLING
                then init_entry al e 2 EXIF_FORMAT_SHORT (short 1 1 \<circ> short 0 2)
              else if tag \<in> set init_srational then init_entry al e 1 EXIF_FORMAT_SRATIONAL (\<lambda>b. b)
              else if tag \<in> set init_rational then init_entry al e 1 EXIF_FORMAT_RATIONAL (\<lambda>b. b)
              else if tag \<in> set init_72 then init_entry al e 1 EXIF_FORMAT_RATIONAL (rat 0 72)
              else if tag = EXIF_TAG_WHITE_POINT then init_entry al e 2 EXIF_FORMAT_RATIONAL (\<lambda>b. b)
              else if tag = EXIF_TAG_REFERENCE_BLACK_WHITE
                then init_entry al e 6 EXIF_FORMAT_RATIONAL
                       (rat 5 255 \<circ> rat 4 0 \<circ> rat 3 255 \<circ> rat 2 0 \<circ> rat 1 255 \<circ> rat 0 0)
              else if tag \<in> set init_date then init_entry al e 20 EXIF_FORMAT_ASCII (put_text 20 (date_text now))
              else if tag \<in> set init_subsec
                then e\<lparr>en_components := 0, en_format := EXIF_FORMAT_ASCII, en_size := 0, en_data := None\<rparr>
              else if tag \<in> set init_none then init_entry al e 7 EXIF_FORMAT_ASCII (put_text 7 ''[None]'')
              else if tag = EXIF_TAG_COPYRIGHT
                then init_entry al e 14 EXIF_FORMAT_ASCII
                       (write_at 7 (map of_char ''[None]'' @ [0]) \<circ> put_text 7 ''[None]'')
              else if tag = EXIF_TAG_SCENE_TYPE then init_entry al e 1 EXIF_FORMAT_UNDEFINED (write_at 0 [1])
              else if tag = EXIF_TAG_FILE_SOURCE then init_entry al e 1 EXIF_FORMAT_UNDEFINED (write_at 0 [3])
              else if tag = EXIF_TAG_FLASH_PIX_VERSION
                then init_entry al e 4 EXIF_FORMAT_UNDEFINED (write_at 0 (map of_char ''0100''))
              else if tag = EXIF_TAG_EXIF_VERSION
                then init_entry al e 4 EXIF_FORMAT_UNDEFINED (write_at 0 (map of_char ''0210''))
              else if tag = EXIF_TAG_COMPONENTS_CONFIGURATION
                then init_entry al e 4 EXIF_FORMAT_UNDEFINED (write_at 0 [1, 2, 3, 0])
              else e\<lparr>en_components := 0, en_format := EXIF_FORMAT_UNDEFINED, en_size := 0, en_data := None\<rparr>)"

subsection \<open>The invariant of an entry\<close>

text \<open>
  The size field is the length of the block, and the block holds all components: the comment at
  \<open>size\<close> in \<open>exif-entry.h\<close> asks for this. A component has at least one byte.
\<close>

definition entry_ok :: "exif_entry \<Rightarrow> bool" where
  "entry_ok e \<longleftrightarrow> length (en_block e) = unat (en_size e) \<and>
     exif_format_get_size (en_format e) * unat (en_components e) \<le> unat (en_size e) \<and>
     unat (en_components e) \<le> unat (en_size e)"

lemma entry_ok_new: "entry_ok exif_entry_new"
  by (simp add: entry_ok_def exif_entry_new_def en_block_def)

lemma byte_sizes [simp]:
  "exif_format_get_size 1 = 1" "exif_format_get_size 2 = 1" "exif_format_get_size 6 = 1" "exif_format_get_size 7 = 1"
  "exif_format_get_size (Suc 0) = 1"
  by (simp_all add: exif_format_get_size_def ExifFormatTable_def)

lemma fsize_simps [simp]: "fsize 1 = 1" "fsize 2 = 1" "fsize 3 = 2" "fsize 4 = 4" "fsize 5 = 8" "fsize 7 = 1" "fsize 10 = 8"
  "fsize (Suc 0) = 1"
  by (simp_all add: fsize_def)

lemma length_codes [simp]: "length ASCII_CODE = 8" "length UNICODE_CODE = 8" "length JIS_CODE = 8"
  by (simp_all add: ASCII_CODE_def UNICODE_CODE_def JIS_CODE_def)

lemma write_at_same: "p + n \<le> length xs \<Longrightarrow> write_at p (take n (drop p xs)) xs = xs"
proof -
  assume "p + n \<le> length xs"
  then have "write_at p (take n (drop p xs)) xs = take p xs @ take n (drop p xs) @ drop n (drop p xs)"
    by (simp add: write_at_def add.commute min_absorb1)
  then show ?thesis by (simp only: append_take_drop_id)
qed

text \<open>The converted elements, one after the other.\<close>

definition shorts_of :: "exif_byte_order \<Rightarrow> nat \<Rightarrow> u8 list \<Rightarrow> nat \<Rightarrow> nat \<Rightarrow> u8 list" where
  "shorts_of order f src i n =
     concat (map (\<lambda>k. exif_set_short order (exif_get_short_convert (drop (k * exif_format_get_size f) src) f order))
       [i ..< i + n])"

lemma length_set_short [simp]: "length (exif_set_sshort order v) = 2"
  by (simp add: exif_s.enc_len)

lemma length_shorts_of [simp]: "length (shorts_of order f src i n) = 2 * n"
  by (induction n) (simp_all add: shorts_of_def)

lemma shorts_of_Suc:
  "shorts_of order f src i (Suc n) =
     exif_set_short order (exif_get_short_convert (drop (i * exif_format_get_size f) src) f order) @
     shorts_of order f src (i + 1) n"
  by (simp add: shorts_of_def upt_conv_Cons del: upt_Suc)

lemma short_loop_result:
  "(i + n) * exif_format_get_size f \<le> length src \<Longrightarrow> (i + n) * 2 \<le> length new \<Longrightarrow>
   short_loop order f src i n new = Some (write_at (i * 2) (shorts_of order f src i n) new)"
proof (induction n arbitrary: i new)
  case 0
  then show ?case by (simp add: shorts_of_def write_at_def)
next
  case (Suc n)
  let ?w = "exif_set_short order (exif_get_short_convert (drop (i * exif_format_get_size f) src) f order)"
  have fits: "(i + 1) * exif_format_get_size f \<le> length src"
    using le_trans [OF mult_le_mono1 [of "i + 1" "i + Suc n" "exif_format_get_size f"] Suc.prems(1)] by simp
  have "short_loop order f src i (Suc n) new = short_loop order f src (i + 1) n (write_at (i * 2) ?w new)"
    using fits Suc.prems(2) by simp
  also have "\<dots> = Some (write_at ((i + 1) * 2) (shorts_of order f src (i + 1) n) (write_at (i * 2) ?w new))"
    using Suc.prems by (intro Suc.IH) (simp_all add: algebra_simps)
  also have "write_at ((i + 1) * 2) (shorts_of order f src (i + 1) n) (write_at (i * 2) ?w new) =
      write_at (i * 2) (?w @ shorts_of order f src (i + 1) n) new"
    using Suc.prems(2) by (subst write_at_append) (simp_all add: algebra_simps)
  finally show ?case by (simp only: shorts_of_Suc)
qed

lemma rational_loop_id:
  "(i + n) * 8 \<le> length buf \<Longrightarrow> rational_loop (exif_get_srational order) (exif_set_srational order) i n buf = Some buf"
proof (induction n arbitrary: i)
  case (Suc n)
  have "write_at (i * 8) (take 8 (drop (i * 8) buf)) buf = buf"
    using Suc.prems by (intro write_at_same) simp
  then show ?case using Suc by (simp add: enc_dec_rational algebra_simps)
qed simp

text \<open>What the tag classes have in common is decided by computation.\<close>

lemma tag_classes:
  "tag \<in> set fix_rational_tags \<Longrightarrow> tag \<notin> set fix_short_tags"
  "tag \<in> set fix_srational_tags \<Longrightarrow> tag \<notin> set fix_short_tags \<and> tag \<notin> set fix_rational_tags"
  "0x9286 \<notin> set fix_short_tags \<and> 0x9286 \<notin> set fix_rational_tags \<and> 0x9286 \<notin> set fix_srational_tags"
  by (auto simp: fix_rational_tags_def fix_short_tags_def fix_srational_tags_def)

subsection \<open>What the correction does\<close>

definition granted :: "(nat \<Rightarrow> bool) \<Rightarrow> bool" where
  "granted al \<longleftrightarrow> al = (\<lambda>_. True)"

lemma alloc_granted: "granted al \<Longrightarrow> i \<noteq> 0 \<Longrightarrow> exif_entry_alloc al i = Some (replicate (unat i) 0)"
  by (simp add: exif_entry_alloc_def exif_mem_alloc_def granted_def)

definition convertible :: "nat \<Rightarrow> bool" where
  "convertible f \<longleftrightarrow> f \<in> {EXIF_FORMAT_LONG, EXIF_FORMAT_SLONG, EXIF_FORMAT_BYTE, EXIF_FORMAT_SBYTE, EXIF_FORMAT_SSHORT}"

lemma unat_double: "unat c < 2 ^ 31 \<Longrightarrow> unat (c * 2 :: u32) = 2 * unat c"
  by (simp add: unat_word_ariths)

lemma fix_short_result:
  assumes "granted al" "entry_ok e" "unat (en_size e) < 2 ^ 31" "unat (en_tag e) \<in> set fix_short_tags"
    "convertible (en_format e)" "en_components e \<noteq> 0"
  shows "exif_entry_fix al order e =
    Some (e\<lparr>en_data := Some (shorts_of order (en_format e) (en_block e) 0 (unat (en_components e))),
            en_size := en_components e * 2, en_format := EXIF_FORMAT_SHORT\<rparr>)"
proof -
  let ?n = "unat (en_components e)"
  have block: "?n * exif_format_get_size (en_format e) \<le> length (en_block e)"
    using assms(2) by (simp add: entry_ok_def mult.commute)
  have n: "?n < 2 ^ 31" using assms(2, 3) by (simp add: entry_ok_def)
  have sz: "unat (en_components e * 2) = 2 * ?n" by (rule unat_double [OF n])
  have "?n \<noteq> 0" using assms(6) by (simp add: unat_eq_0)
  then have "en_components e * 2 \<noteq> 0" using sz by (metis mult_eq_0_iff unat_0 zero_neq_numeral)
  then have alloc: "exif_entry_alloc al (en_components e * fsize EXIF_FORMAT_SHORT) = Some (replicate (2 * ?n) 0)"
    using alloc_granted [OF assms(1)] sz by simp
  have "short_loop order (en_format e) (en_block e) 0 ?n (replicate (2 * ?n) 0) =
      Some (write_at (0 * 2) (shorts_of order (en_format e) (en_block e) 0 ?n) (replicate (2 * ?n) 0))"
    using block by (intro short_loop_result) simp_all
  also have "write_at (0 * 2) (shorts_of order (en_format e) (en_block e) 0 ?n) (replicate (2 * ?n) 0) =
      shorts_of order (en_format e) (en_block e) 0 ?n"
    by (simp add: write_at_def)
  finally show ?thesis
    using assms(4, 5) alloc by (simp add: exif_entry_fix_def convertible_def Let_def del: One_nat_def)
qed

lemma fix_short_ok:
  assumes "granted al" "entry_ok e" "unat (en_size e) < 2 ^ 31" "unat (en_tag e) \<in> set fix_short_tags"
  shows "\<exists>e'. exif_entry_fix al order e = Some e' \<and> entry_ok e' \<and> en_tag e' = en_tag e \<and>
    (convertible (en_format e') \<longrightarrow> en_components e' = 0)"
proof (cases "convertible (en_format e) \<and> en_components e \<noteq> 0")
  case True
  then have r: "exif_entry_fix al order e =
    Some (e\<lparr>en_data := Some (shorts_of order (en_format e) (en_block e) 0 (unat (en_components e))),
            en_size := en_components e * 2, en_format := EXIF_FORMAT_SHORT\<rparr>)"
    using fix_short_result [OF assms] by blast
  have "unat (en_components e * 2) = 2 * unat (en_components e)"
    using assms(2, 3) by (intro unat_double) (simp add: entry_ok_def)
  then show ?thesis by (simp add: r entry_ok_def en_block_def convertible_def)
next
  case False
  then have "exif_entry_fix al order e = Some e"
    using assms(4) by (auto simp: exif_entry_fix_def convertible_def exif_entry_alloc_def Let_def)
  then show ?thesis using assms(2) False by simp
qed

lemma fix_rational_ok:
  assumes "entry_ok e" "unat (en_tag e) \<in> set fix_rational_tags \<union> set fix_srational_tags"
  shows "\<exists>f. exif_entry_fix al order e = Some (e\<lparr>en_format := f\<rparr>) \<and> entry_ok (e\<lparr>en_format := f\<rparr>) \<and>
    (unat (en_tag e) \<in> set fix_rational_tags \<longrightarrow> f \<noteq> EXIF_FORMAT_SRATIONAL) \<and>
    (unat (en_tag e) \<in> set fix_srational_tags \<longrightarrow> f \<noteq> EXIF_FORMAT_RATIONAL)"
proof -
  have fits: "(0 + unat (en_components e)) * 8 \<le> length (en_block e)" if "en_format e = 5 \<or> en_format e = 10"
    using assms(1) that by (auto simp: entry_ok_def)
  have same: "e\<lparr>en_data := map_option (\<lambda>_. en_block e) (en_data e), en_format := f\<rparr> = e\<lparr>en_format := f\<rparr>" for f
    by (cases "en_data e") (simp_all add: en_block_def)
  have keep: "e\<lparr>en_format := en_format e\<rparr> = e" by simp
  show ?thesis
  proof (cases "unat (en_tag e) \<in> set fix_rational_tags")
    case True
    then have not: "unat (en_tag e) \<notin> set fix_short_tags" "unat (en_tag e) \<notin> set fix_srational_tags"
      using tag_classes by blast+
    show ?thesis
    proof (cases "en_format e = EXIF_FORMAT_SRATIONAL")
      case srat: True
      then have "exif_entry_fix al order e = Some (e\<lparr>en_format := EXIF_FORMAT_RATIONAL\<rparr>)"
        using True not rational_loop_id [OF fits] same by (simp add: exif_entry_fix_def Let_def)
      then show ?thesis using assms(1) srat not by (auto simp: entry_ok_def en_block_def)
    next
      case False
      then have "exif_entry_fix al order e = Some e" using True not by (simp add: exif_entry_fix_def Let_def)
      then show ?thesis using assms(1) False not keep by metis
    qed
  next
    case False
    then have srat: "unat (en_tag e) \<in> set fix_srational_tags" "unat (en_tag e) \<notin> set fix_short_tags"
      using assms(2) tag_classes by blast+
    show ?thesis
    proof (cases "en_format e = EXIF_FORMAT_RATIONAL")
      case rat: True
      then have "exif_entry_fix al order e = Some (e\<lparr>en_format := EXIF_FORMAT_SRATIONAL\<rparr>)"
        using False srat rational_loop_id [OF fits] same by (simp add: exif_entry_fix_def Let_def)
      then show ?thesis using assms(1) rat False by (auto simp: entry_ok_def en_block_def)
    next
      case nrat: False
      then have "exif_entry_fix al order e = Some e" using False srat by (simp add: exif_entry_fix_def Let_def)
      then show ?thesis using assms(1) False nrat keep by metis
    qed
  qed
qed

lemma expand_comment_ok:
  assumes "granted al" "entry_ok e" "unat (en_size e) < 2 ^ 31" "en_format e = EXIF_FORMAT_UNDEFINED"
  shows "\<exists>e'. expand_comment al e = Some e' \<and> entry_ok e' \<and> en_tag e' = en_tag e \<and> en_format e' = 7 \<and>
    take 8 (en_block e') = ASCII_CODE \<and> 8 \<le> unat (en_size e')"
proof -
  have "unat (8 + en_size e) = 8 + unat (en_size e)" "unat (en_components e + 8) = unat (en_components e) + 8"
    using assms(2, 3) by (subst unat_add_small; simp add: entry_ok_def)+
  then show ?thesis
    using assms by (simp add: expand_comment_def granted_def Let_def entry_ok_def en_block_def)
qed

text \<open>A comment that needs no correction.\<close>

definition comment_done :: "exif_entry \<Rightarrow> bool" where
  "comment_done e \<longleftrightarrow> en_format e = EXIF_FORMAT_UNDEFINED \<and> 8 \<le> unat (en_size e) \<and>
     (take 8 (en_block e) \<in> {ASCII_CODE, UNICODE_CODE, JIS_CODE} \<or> en_block e = replicate (unat (en_size e)) 0)"

lemma code_first: "take 8 d = c \<Longrightarrow> c \<in> {ASCII_CODE, UNICODE_CODE, JIS_CODE} \<Longrightarrow>
    8 \<le> length d \<Longrightarrow> d ! 0 \<noteq> 0 \<and> d ! 0 \<noteq> 0x20"
  using nth_take [of 0 8 d] by (auto simp: ASCII_CODE_def UNICODE_CODE_def JIS_CODE_def)

lemma takeWhile_first: "xs \<noteq> [] \<Longrightarrow> \<not> P (xs ! 0) \<Longrightarrow> takeWhile P xs = []"
  by (cases xs) simp_all

lemma comment_done_fix:
  assumes "entry_ok e" "comment_done e"
  shows "fix_user_comment al e = Some e"
proof -
  have len: "length (en_block e) = unat (en_size e)" "8 \<le> unat (en_size e)"
    using assms by (simp_all add: entry_ok_def comment_done_def)
  show ?thesis
  proof (cases "take 8 (en_block e) \<in> {ASCII_CODE, UNICODE_CODE, JIS_CODE}")
    case True
    have "en_block e ! 0 \<noteq> 0" "en_block e ! 0 \<noteq> 0x20" "en_block e \<noteq> []"
      using code_first [OF refl True] len by auto
    then show ?thesis
      using len True assms(2) by (auto simp: fix_user_comment_def Let_def takeWhile_first comment_done_def)
  next
    case False
    then have z: "en_block e = replicate (unat (en_size e)) 0" using assms(2) by (simp add: comment_done_def)
    then obtain b where b: "en_data e = Some b" using len by (cases "en_data e") (auto simp: en_block_def)
    have "write_at 0 (replicate 8 0) (en_block e) = en_block e"
      using len by (simp add: z write_at_def flip: replicate_add)
    then have "e\<lparr>en_data := Some (write_at 0 (replicate 8 0) (en_block e))\<rparr> = e"
      using b by (simp add: en_block_def)
    moreover have "takeWhile (\<lambda>b. b = 0) (replicate (unat (en_size e)) (0 :: u8)) = replicate (unat (en_size e)) 0"
      by (simp add: takeWhile_eq_all_conv)
    moreover have "en_block e ! 0 = 0" using len by (simp add: z)
    ultimately show ?thesis
      using len assms(2) z by (simp add: fix_user_comment_def Let_def comment_done_def min_def)
  qed
qed

lemma fix_comment_ok:
  assumes "granted al" "entry_ok e" "unat (en_size e) < 2 ^ 31"
  shows "\<exists>e'. fix_user_comment al e = Some e' \<and> entry_ok e' \<and> en_tag e' = en_tag e \<and> comment_done e'"
proof -
  define e1 where "e1 = e\<lparr>en_format := EXIF_FORMAT_UNDEFINED\<rparr>"
  have set7: "(if en_format e \<noteq> EXIF_FORMAT_UNDEFINED then e\<lparr>en_format := EXIF_FORMAT_UNDEFINED\<rparr> else e) = e1"
    by (simp add: e1_def)
  have ok1: "entry_ok e1" "en_format e1 = 7" "en_size e1 = en_size e" "en_tag e1 = en_tag e"
    using assms(2) by (simp_all add: e1_def entry_ok_def en_block_def)
  have expand: "\<exists>e'. expand_comment al x = Some e' \<and> entry_ok e' \<and> en_tag e' = en_tag e \<and> comment_done e'"
    if "entry_ok x" "en_format x = 7" "en_size x = en_size e" "en_tag x = en_tag e" for x
    using expand_comment_ok [OF assms(1) that(1)] that assms(3) by (auto simp: comment_done_def)
  show ?thesis
  proof (cases "unat (en_size e) < 8")
    case True
    then show ?thesis using expand [OF ok1] unfolding fix_user_comment_def Let_def set7 ok1(3) by simp
  next
    case False
    define x where "x = (if en_block e1 ! 0 = 0
      then e1\<lparr>en_data := Some (write_at 0 (replicate 8 0) (en_block e1))\<rparr> else e1)"
    have len: "length (en_block e1) = unat (en_size e)" using ok1 by (simp add: entry_ok_def)
    have x: "entry_ok x" "en_format x = 7" "en_size x = en_size e" "en_tag x = en_tag e"
      using ok1 False len by (simp_all add: x_def entry_ok_def en_block_def)
    have lenx: "length (en_block x) = unat (en_size e)" using x by (simp add: entry_ok_def)
    define d where "d = take (unat (en_size e)) (en_block x)"
    have d: "d = en_block x" using lenx by (simp add: d_def)
    define zeros where "zeros = length (takeWhile (\<lambda>b. b = 0) d)"
    define i where "i = (if zeros = 0 then length (takeWhile (\<lambda>b. b = 0x20) d) else zeros)"
    have r: "fix_user_comment al e =
        (if 8 \<le> i \<and> i < unat (en_size e) then Some (x\<lparr>en_data := Some (write_at 0 ASCII_CODE (en_block x))\<rparr>)
         else if take 8 d \<noteq> ASCII_CODE \<and> take 8 d \<noteq> UNICODE_CODE \<and> take 8 d \<noteq> JIS_CODE \<and> take 8 d \<noteq> replicate 8 0
         then expand_comment al x else Some x)"
      unfolding fix_user_comment_def Let_def set7 ok1(3)
      unfolding x_def [symmetric] d_def [symmetric] zeros_def [symmetric] i_def [symmetric]
      using False len by (simp only: if_False less_irrefl)
    consider (code) "8 \<le> i" "i < unat (en_size e)"
      | (none) "\<not> (8 \<le> i \<and> i < unat (en_size e))"
          "take 8 d \<notin> {ASCII_CODE, UNICODE_CODE, JIS_CODE, replicate 8 0}"
      | (kept) "\<not> (8 \<le> i \<and> i < unat (en_size e))"
          "take 8 d \<in> {ASCII_CODE, UNICODE_CODE, JIS_CODE, replicate 8 0}"
      by blast
    then show ?thesis
    proof cases
      case code
      define y where "y = x\<lparr>en_data := Some (write_at 0 ASCII_CODE (en_block x))\<rparr>"
      have y: "en_block y = write_at 0 ASCII_CODE (en_block x)" by (simp add: y_def en_block_def)
      have "entry_ok y" using x(1) lenx False by (simp add: y_def entry_ok_def en_block_def)
      moreover have "comment_done y"
        unfolding comment_done_def y using x(2, 3) False by (simp add: y_def write_at_def)
      moreover have "fix_user_comment al e = Some y" using r code by (simp add: y_def)
      ultimately show ?thesis using x(4) by (intro exI [of _ y]) (simp add: y_def)
    next
      case none
      then show ?thesis using expand [OF x] r by auto
    next
      case kept
      have "comment_done x"
      proof (cases "take 8 d = replicate 8 0")
        case True
        have split: "d = replicate 8 0 @ drop 8 d" using append_take_drop_id [of 8 d] True by simp
        have "takeWhile (\<lambda>b. b = 0) (replicate 8 0 @ drop 8 d) =
            replicate 8 0 @ takeWhile (\<lambda>b. b = 0) (drop 8 d)"
          by (rule takeWhile_append2) simp
        then have "takeWhile (\<lambda>b. b = 0) d = replicate 8 0 @ takeWhile (\<lambda>b. b = 0) (drop 8 d)"
          by (simp only: split [symmetric])
        then have "8 \<le> zeros" by (simp add: zeros_def del: takeWhile.simps)
        then have "i = zeros" by (simp add: i_def)
        then have "length d \<le> zeros" using kept(1) \<open>8 \<le> zeros\<close> lenx d by simp
        then have "length (takeWhile (\<lambda>b. b = 0) d) = length d"
          unfolding zeros_def by (intro le_antisym length_takeWhile_le)
        then have "takeWhile (\<lambda>b. b = 0) d = d" by (metis takeWhile_eq_take take_all order_refl)
        then have "\<forall>b \<in> set d. b = 0" by (simp add: takeWhile_eq_all_conv)
        then have "d = replicate (length d) 0" using replicate_length_same [of d 0] by simp
        then show ?thesis using x False lenx d by (simp add: comment_done_def)
      next
        case no: False
        then show ?thesis using x False kept(2) d by (simp add: comment_done_def)
      qed
      then show ?thesis using r kept x by auto
    qed
  qed
qed

lemma fix_entry_cases:
  "exif_entry_fix al order e =
     (if unat (en_tag e) = EXIF_TAG_USER_COMMENT then fix_user_comment al e
      else if unat (en_tag e) \<in> set fix_short_tags \<union> set fix_rational_tags \<union> set fix_srational_tags
      then exif_entry_fix al order e else Some e)"
  using tag_classes(3) by (auto simp: exif_entry_fix_def Let_def)

lemma fix_entry_ok:
  assumes "granted al" "entry_ok e" "unat (en_size e) < 2 ^ 31"
  shows "\<exists>e'. exif_entry_fix al order e = Some e' \<and> entry_ok e' \<and> en_tag e' = en_tag e \<and>
    exif_entry_fix al order e' = Some e'"
proof -
  let ?t = "unat (en_tag e)"
  consider (comment) "?t = EXIF_TAG_USER_COMMENT" | (short) "?t \<in> set fix_short_tags"
    | (rational) "?t \<in> set fix_rational_tags \<union> set fix_srational_tags"
    | (other) "?t \<noteq> EXIF_TAG_USER_COMMENT" "?t \<notin> set fix_short_tags \<union> set fix_rational_tags \<union> set fix_srational_tags"
    by blast
  then show ?thesis
  proof cases
    case comment
    then show ?thesis
      using fix_comment_ok [OF assms] comment_done_fix fix_entry_cases [of al order] by metis
  next
    case short
    then obtain e' where e': "exif_entry_fix al order e = Some e'" "entry_ok e'" "en_tag e' = en_tag e"
      "convertible (en_format e') \<longrightarrow> en_components e' = 0"
      using fix_short_ok [OF assms] by blast
    have "exif_entry_fix al order e' = Some e'"
      using e'(3, 4) short by (auto simp: exif_entry_fix_def convertible_def exif_entry_alloc_def Let_def)
    then show ?thesis using e' by blast
  next
    case rational
    obtain f where f: "exif_entry_fix al order e = Some (e\<lparr>en_format := f\<rparr>)" "entry_ok (e\<lparr>en_format := f\<rparr>)"
      "?t \<in> set fix_rational_tags \<longrightarrow> f \<noteq> 10" "?t \<in> set fix_srational_tags \<longrightarrow> f \<noteq> 5"
      using fix_rational_ok [OF assms(2) rational] by blast
    have "exif_entry_fix al order (e\<lparr>en_format := f\<rparr>) = Some (e\<lparr>en_format := f\<rparr>)"
      using f(3, 4) rational tag_classes by (auto simp: exif_entry_fix_def Let_def)
    then show ?thesis using f by (intro exI [of _ "e\<lparr>en_format := f\<rparr>"]) simp
  next
    case other
    then show ?thesis using assms(2) fix_entry_cases [of al order e] by simp
  qed
qed

text \<open>C27: Correcting an entry whose size field and block agree stays within the block, gives an entry
  of the same tag whose size field and block agree, and correcting that one changes nothing more.
\<close>

theorem exif_entry_fix_stable:
  assumes "granted al" "entry_ok e" "unat (en_size e) < 2 ^ 31"
  shows "\<exists>e'. exif_entry_fix al order e = Some e' \<and> entry_ok e' \<and> en_tag e' = en_tag e \<and>
    exif_entry_fix al order e' = Some e'"
  using assms by (rule fix_entry_ok)

definition long_orientation :: exif_entry where
  "long_orientation = \<lparr>en_tag = 0x0112, en_format = EXIF_FORMAT_LONG, en_components = 1,
     en_data = Some [6, 0, 0, 0], en_size = 4\<rparr>"

lemma exif_entry_fix_stable_witness:
  "\<exists>e'. exif_entry_fix (\<lambda>_. True) EXIF_BYTE_ORDER_INTEL long_orientation = Some e' \<and> entry_ok e' \<and>
     en_tag e' = 0x0112 \<and> exif_entry_fix (\<lambda>_. True) EXIF_BYTE_ORDER_INTEL e' = Some e'"
  using exif_entry_fix_stable [of "\<lambda>_. True" long_orientation EXIF_BYTE_ORDER_INTEL]
  by (simp add: granted_def long_orientation_def entry_ok_def en_block_def)

text \<open>A value that fits sixteen bits survives the change from \<open>LONG\<close> to \<open>SHORT\<close>.\<close>

lemma fix_long_value:
  assumes "granted al" "entry_ok e" "unat (en_size e) < 2 ^ 31" "unat (en_tag e) \<in> set fix_short_tags"
    "en_format e = EXIF_FORMAT_LONG" "en_components e = 1" "exif_get_long order (en_block e) = ucast v"
  shows "map_option (\<lambda>e'. exif_get_short order (en_block e')) (exif_entry_fix al order e) = Some v"
proof -
  have narrow: "ucast (ucast v :: u32) = v" by (rule bit_word_eqI) (auto simp: bit_simps)
  have "exif_get_short_convert (en_block e) 4 order = v"
    using assms(7) narrow by (simp add: exif_get_short_convert_def)
  then have "shorts_of order 4 (en_block e) 0 1 = exif_set_short order v"
    by (simp add: shorts_of_def)
  then show ?thesis
    using fix_short_result [OF assms(1-4)] assms(5, 6) exif_s.dec_enc [where order = order and x = v and r = "[]"]
    by (simp add: convertible_def en_block_def)
qed

subsection \<open>A new entry\<close>

lemma init_entry_ok:
  assumes "granted al" "exif_format_get_size f * comps < 2 ^ 32" "1 \<le> exif_format_get_size f" "0 < comps"
    "\<And>b. length b = exif_format_get_size f * comps \<Longrightarrow> length (put b) = length b"
  shows "entry_ok (init_entry al e comps f put)"
proof -
  define sz :: u32 where "sz = fsize f * of_nat comps"
  have n: "unat sz = exif_format_get_size f * comps"
    unfolding sz_def fsize_def of_nat_mult [symmetric] using assms(2) by (intro unat_of_nat_small) simp
  have "1 * comps \<le> exif_format_get_size f * comps" using assms(3) by (rule mult_le_mono1)
  from le_less_trans [OF this assms(2)] have c: "unat (of_nat comps :: u32) = comps"
    by (intro unat_of_nat_small) simp
  have "sz \<noteq> 0" using n assms(3, 4) by (metis mult_is_0 not_one_le_zero less_numeral_extra(3) unat_0)
  then have "exif_entry_alloc al sz = Some (replicate (unat sz) 0)" by (rule alloc_granted [OF assms(1)])
  then show ?thesis
    using n c assms(3, 5) by (simp add: init_entry_def sz_def [symmetric] entry_ok_def en_block_def Let_def)
qed

lemma init_entry_tag [simp]: "en_tag (init_entry al e comps f put) = en_tag e"
  by (simp add: init_entry_def Let_def)

lemma entry_ok_empty: "entry_ok (e\<lparr>en_components := 0, en_format := f, en_size := 0, en_data := None\<rparr>)"
  by (simp add: entry_ok_def en_block_def)

lemma length_set_rational [simp]: "length (exif_set_srational order v) = 8"
  by (simp add: exif_r.enc_len)

lemma length_date: "length (take 19 (date_text now)) \<le> 19"
  by simp

lemma initialize_tag: "en_data e = None \<Longrightarrow> en_tag (exif_entry_initialize al now order e tag) = of_nat tag"
  by (simp add: exif_entry_initialize_def Let_def)

lemma entry_ok_if: "entry_ok a \<Longrightarrow> entry_ok b \<Longrightarrow> entry_ok (if c then a else b)"
  by simp

lemma initialize_ok:
  assumes "granted al" "en_data e = None"
  shows "entry_ok (exif_entry_initialize al now order e tag)"
proof -
  note ok = init_entry_ok [OF assms(1)]
  have no: "(en_data e \<noteq> None) = False" using assms(2) by simp
  show ?thesis
    unfolding exif_entry_initialize_def Let_def no if_False
    by (intro entry_ok_if) (rule ok entry_ok_empty; simp add: put_text_def length_date)+
qed

end
