(* ===== verification/ExifContent.thy ===== *)
theory ExifContent
  imports ExifEntry
begin

text \<open>
  An image file directory (\<open>exif-content.c\<close>): the list of its entries. The pointer to an entry is its
  position in the list. Blocks of memory are granted by \<open>al\<close>, as for entries.
\<close>

type_synonym exif_content = "exif_entry list"

definition exif_content_get_entry :: "exif_content \<Rightarrow> u16 \<Rightarrow> exif_entry option" where
  "exif_content_get_entry content tag = find (\<lambda>e. en_tag e = tag) content"

text \<open>The second result says whether the entry belongs to the directory afterwards.\<close>

definition exif_content_add_entry :: "(nat \<Rightarrow> bool) \<Rightarrow> exif_content \<Rightarrow> exif_entry \<Rightarrow> exif_content \<times> bool" where
  "exif_content_add_entry al c entry =
     (if exif_content_get_entry c (en_tag entry) \<noteq> None then (c, False)
      else if \<not> al (4 * (length c + 1)) then (c, False)
      else (c @ [entry], True))"

definition exif_content_remove_entry :: "(nat \<Rightarrow> bool) \<Rightarrow> exif_content \<Rightarrow> nat \<Rightarrow> exif_content" where
  "exif_content_remove_entry al c i =
     (if length c \<le> i then c
      else let temp = c ! (length c - 1)
           in if 1 < length c
              then if \<not> al (4 * (length c - 1)) then c
                   else let t = take (length c - 1) c; count = length c - 1
                        in if i \<noteq> count
                           then (write_at i (slice (i + 1) (count - i - 1) t) t)[count - 1 := temp]
                           else t
              else [])"

subsection \<open>Correcting a directory\<close>

primrec fix_entries :: "(nat \<Rightarrow> bool) \<Rightarrow> exif_byte_order \<Rightarrow> exif_content \<Rightarrow> exif_content option" where
  "fix_entries al order [] = Some []"
| "fix_entries al order (e # es) =
     (case exif_entry_fix al order e of
        None \<Rightarrow> None
      | Some e' \<Rightarrow> map_option ((#) e') (fix_entries al order es))"

definition not_recorded :: "exif_ifd \<Rightarrow> exif_data_type \<Rightarrow> exif_entry \<Rightarrow> bool" where
  "not_recorded ifd dt e \<longleftrightarrow>
     exif_tag_get_support_level_in_ifd (unat (en_tag e)) ifd dt = EXIF_SUPPORT_LEVEL_NOT_RECORDED"

definition remove_not_recorded ::
  "(nat \<Rightarrow> bool) \<Rightarrow> exif_ifd \<Rightarrow> exif_data_type \<Rightarrow> exif_content \<Rightarrow> nat \<Rightarrow> exif_content" where
  "remove_not_recorded al ifd dt c i = (if not_recorded ifd dt (c ! i) then exif_content_remove_entry al c i else c)"

lemma length_remove: "length (exif_content_remove_entry al c i) \<le> length c"
  by (auto simp: exif_content_remove_entry_def Let_def write_at_def slice_def)

lemma length_remove_not_recorded: "length (remove_not_recorded al ifd dt c i) \<le> length c"
  by (simp add: remove_not_recorded_def length_remove)

text \<open>\<open>exif_content_foreach_entry\<close> with \<open>remove_not_recorded\<close>: the index advances past a removed entry.\<close>

function remove_pass ::
  "(nat \<Rightarrow> bool) \<Rightarrow> exif_ifd \<Rightarrow> exif_data_type \<Rightarrow> exif_content \<Rightarrow> nat \<Rightarrow> exif_content" where
  "remove_pass al ifd dt c i =
     (if i < length c then remove_pass al ifd dt (remove_not_recorded al ifd dt c i) (i + 1) else c)"
  by pat_completeness auto
termination
proof (relation "measure (\<lambda>(al, ifd, dt, c, i). length c - i)")
  fix al :: "nat \<Rightarrow> bool" and ifd dt and c :: exif_content and i :: nat
  assume "i < length c"
  then show "((al, ifd, dt, remove_not_recorded al ifd dt c i, i + 1), al, ifd, dt, c, i)
      \<in> measure (\<lambda>(al, ifd, dt, c, i). length c - i)"
    using length_remove_not_recorded [of al ifd dt c i] by simp
qed simp

declare remove_pass.simps [simp del]

lemma length_remove_pass: "length (remove_pass al ifd dt c i) \<le> length c"
proof (induction al ifd dt c i rule: remove_pass.induct)
  case (1 al ifd dt c i)
  then show ?case
    using length_remove_not_recorded [of al ifd dt c i] by (subst remove_pass.simps) auto
qed

function remove_loop :: "(nat \<Rightarrow> bool) \<Rightarrow> exif_ifd \<Rightarrow> exif_data_type \<Rightarrow> exif_content \<Rightarrow> exif_content" where
  "remove_loop al ifd dt c =
     (let c' = remove_pass al ifd dt c 0
      in if length c \<noteq> length c' then remove_loop al ifd dt c' else c')"
  by pat_completeness auto
termination
proof (relation "measure (\<lambda>(al, ifd, dt, c). length c)")
  fix al :: "nat \<Rightarrow> bool" and ifd dt and c :: exif_content and x
  assume "x = remove_pass al ifd dt c 0" "length c \<noteq> length x"
  then show "((al, ifd, dt, x), al, ifd, dt, c) \<in> measure (\<lambda>(al, ifd, dt, c). length c)"
    using length_remove_pass [of al ifd dt c 0] by simp
qed simp

declare remove_loop.simps [simp del]

definition add_mandatory ::
  "(nat \<Rightarrow> bool) \<Rightarrow> tm \<Rightarrow> exif_byte_order \<Rightarrow> exif_ifd \<Rightarrow> exif_data_type \<Rightarrow> exif_content \<Rightarrow> nat \<Rightarrow> exif_content" where
  "add_mandatory al now order ifd dt c t =
     (if exif_tag_get_support_level_in_ifd t ifd dt = EXIF_SUPPORT_LEVEL_MANDATORY
      then if exif_content_get_entry c (of_nat t) \<noteq> None then c
           else let (c', added) = exif_content_add_entry al c exif_entry_new
                in if added then c'[length c := exif_entry_initialize al now order exif_entry_new t] else c'
      else c)"

definition exif_content_fix ::
  "(nat \<Rightarrow> bool) \<Rightarrow> tm \<Rightarrow> exif_byte_order \<Rightarrow> exif_ifd \<Rightarrow> exif_data_type \<Rightarrow> exif_content \<Rightarrow> exif_content option" where
  "exif_content_fix al now order ifd dt c =
     map_option
       (\<lambda>c1. foldl (add_mandatory al now order ifd dt) (remove_loop al ifd dt c1)
          (map exif_tag_table_get_tag [0 ..< exif_tag_table_count]))
       (fix_entries al order c)"

subsection \<open>What the operations do\<close>

lemma remove_entry_nth:
  assumes "granted al" "i < length c"
  shows "exif_content_remove_entry al c i = take i c @ drop (i + 1) c"
proof (cases "i = length c - 1")
  case True
  then show ?thesis
    using assms by (cases "length c = 1") (auto simp: exif_content_remove_entry_def granted_def Let_def)
next
  case False
  then have i: "i + 1 < length c" using assms(2) by simp
  define m where "m = take (length c - i - 2) (drop (i + 1) c)"
  have "last (drop (i + 1) c) = c ! (length c - 1)" 
    using i last_conv_nth [of c] by (cases c) (auto split: if_splits)
  then have "drop (i + 1) c = m @ [c ! (length c - 1)]"
    using append_butlast_last_id [of "drop (i + 1) c"] i by (simp add: m_def butlast_conv_take diff_diff_add)
  moreover have "c = take i c @ c ! i # drop (i + 1) c" using id_take_nth_drop [OF assms(2)] by simp
  ultimately have c: "c = take i c @ c ! i # m @ [c ! (length c - 1)]" by simp
  define xs x z where "xs = take i c" and "x = c ! i" and "z = c ! (length c - 1)"
  have cx: "c = xs @ x # m @ [z]" and xs: "length xs = i" using c i by (simp_all add: xs_def x_def z_def)
  have "(xs @ x # m @ [z]) ! Suc (length xs + length m) = z" by (simp add: nth_append)
  moreover have "drop (length m) (x # m) = [last (x # m)]" for x :: exif_entry and m
    by (induction m arbitrary: x) auto
  ultimately show ?thesis
    using assms(1) unfolding cx
    by (simp add: exif_content_remove_entry_def granted_def Let_def slice_def write_at_def xs [symmetric]
        list_update_append)
qed

text \<open>
  One pass skips the entry behind a removed one; the loop repeats the pass until nothing is removed,
  and then no entry is left that is not recorded.
\<close>

lemma remove_pass_filter:
  assumes "granted al"
  shows "filter (\<lambda>e. \<not> not_recorded ifd dt e) (remove_pass al ifd dt c i) = filter (\<lambda>e. \<not> not_recorded ifd dt e) c"
proof (induction "length c - i" arbitrary: c i rule: less_induct)
  case less
  show ?case
  proof (cases "i < length c")
    case True
    have "filter (\<lambda>e. \<not> not_recorded ifd dt e) (remove_not_recorded al ifd dt c i) = filter (\<lambda>e. \<not> not_recorded ifd dt e) c"
    proof (cases "not_recorded ifd dt (c ! i)")
      case rec: True
      have "filter (\<lambda>e. \<not> not_recorded ifd dt e) (take i c @ c ! i # drop (i + 1) c) = 
          filter (\<lambda>e. \<not> not_recorded ifd dt e) (take i c @ drop (i + 1) c)"
        using rec by simp
      then show ?thesis
        using rec True by (simp add: remove_not_recorded_def remove_entry_nth [OF assms] id_take_nth_drop [symmetric])
    qed (simp add: remove_not_recorded_def)
    moreover have "length (remove_not_recorded al ifd dt c i) - (i + 1) < length c - i"
      using True length_remove_not_recorded [of al ifd dt c i] by linarith
    ultimately show ?thesis using less [of "remove_not_recorded al ifd dt c i" "i + 1"] True
      by (subst remove_pass.simps) simp
  qed (simp add: remove_pass.simps)
qed

lemma remove_pass_stable:
  assumes "granted al"
  shows "length (remove_pass al ifd dt c i) = length c \<Longrightarrow> i \<le> j \<Longrightarrow> j < length c \<Longrightarrow> \<not> not_recorded ifd dt (c ! j)"
proof (induction "length c - i" arbitrary: i)
  case (Suc k)
  have keep: "\<not> not_recorded ifd dt (c ! i)"
  proof
    assume rec: "not_recorded ifd dt (c ! i)"
    have i: "i < length c" using Suc.hyps(2) by simp
    then have "length (remove_not_recorded al ifd dt c i) < length c"
      using rec by (simp add: remove_not_recorded_def remove_entry_nth [OF assms])
    then have "length (remove_pass al ifd dt c i) < length c"
      using i length_remove_pass [of al ifd dt "remove_not_recorded al ifd dt c i" "i + 1"]
      by (subst remove_pass.simps) simp
    then show False using Suc.prems(1) by simp
  qed
  then have "remove_pass al ifd dt c i = remove_pass al ifd dt c (i + 1)"
    using Suc.hyps(2) by (subst remove_pass.simps) (auto simp: remove_not_recorded_def)
  then have "\<not> not_recorded ifd dt (c ! j)" if "j \<noteq> i"
    using Suc.hyps(1) [of "i + 1"] Suc.hyps(2) Suc.prems that by simp
  then show ?case using keep by blast
qed simp

lemma remove_loop_filter:
  assumes "granted al"
  shows "remove_loop al ifd dt c = filter (\<lambda>e. \<not> not_recorded ifd dt e) c"
proof (induction "length c" arbitrary: c rule: less_induct)
  case less
  define c' where "c' = remove_pass al ifd dt c 0"
  have f: "filter (\<lambda>e. \<not> not_recorded ifd dt e) c' = filter (\<lambda>e. \<not> not_recorded ifd dt e) c"
    unfolding c'_def by (rule remove_pass_filter [OF assms])
  show ?case
  proof (cases "length c = length c'")
    case True
    then have "\<not> not_recorded ifd dt (c ! j)" if "j < length c" for j
      using remove_pass_stable [OF assms, of ifd dt c 0 j] that by (simp add: c'_def)
    then have all: "filter (\<lambda>e. \<not> not_recorded ifd dt e) c = c" by (auto simp: filter_id_conv in_set_conv_nth)
    have "length (filter (\<lambda>e. \<not> not_recorded ifd dt e) c') = length c'" using f all True by simp
    then have "filter (\<lambda>e. \<not> not_recorded ifd dt e) c' = c'"
      using length_filter_less [of _ c' "\<lambda>e. \<not> not_recorded ifd dt e"] by (fastforce simp: filter_id_conv)
    then show ?thesis using True f by (subst remove_loop.simps) (simp add: c'_def Let_def)
  next
    case False
    then have "length c' < length c" using length_remove_pass [of al ifd dt c 0] by (simp add: c'_def)
    then show ?thesis using less f False by (subst remove_loop.simps) (simp add: c'_def [symmetric] Let_def)
  qed
qed

lemma get_entry_None: "exif_content_get_entry c tag = None \<longleftrightarrow> tag \<notin> en_tag ` set c"
  by (auto simp: exif_content_get_entry_def find_None_iff)

subsection \<open>The corrected directory\<close>

text \<open>The invariant of a directory: sound entries, each tag once.\<close>

definition content_ok :: "exif_content \<Rightarrow> bool" where
  "content_ok c \<longleftrightarrow> (\<forall>e \<in> set c. entry_ok e) \<and> distinct (map en_tag c)"

lemma content_ok_add: "content_ok c \<Longrightarrow> entry_ok e \<Longrightarrow> content_ok (fst (exif_content_add_entry al c e))"
  by (auto simp: content_ok_def exif_content_add_entry_def get_entry_None)

lemma fix_entries_ok:
  assumes "granted al"
  shows "\<forall>e \<in> set c. entry_ok e \<and> unat (en_size e) < 2 ^ 31 \<Longrightarrow>
    \<exists>c'. fix_entries al order c = Some c' \<and> (\<forall>e \<in> set c'. entry_ok e) \<and> map en_tag c' = map en_tag c"
proof (induction c)
  case (Cons e c)
  then obtain c' where "fix_entries al order c = Some c'" "\<forall>e \<in> set c'. entry_ok e" "map en_tag c' = map en_tag c" by auto
  moreover obtain e' where "exif_entry_fix al order e = Some e'" "entry_ok e'" "en_tag e' = en_tag e"
    using fix_entry_ok [OF assms] Cons.prems by (metis list.set_intros(1))
  ultimately show ?case by simp
qed simp

text \<open>The null entry is not mandatory anywhere, so the temporary tag of a new entry is free again.\<close>

lemma tag0_rows: "filter (\<lambda>e. te_tag e = 0) ExifTagTable = [tag_row (0, ''GPSVersionID'', ESL_GPS)]"
  by (simp add: ExifTagTable_def tag_rows_def tag_row_def)

lemma tag0_first: "exif_tag_table_first 0 \<noteq> None"
  using table_first [of 0] tag0_rows by (cases "exif_tag_table_first 0") auto

lemma gps_level: "ifd \<noteq> EXIF_IFD_COUNT \<Longrightarrow> t \<noteq> EXIF_DATA_TYPE_COUNT \<Longrightarrow>
   te_level (tag_row (0, ''GPSVersionID'', ESL_GPS)) ifd t \<noteq> EXIF_SUPPORT_LEVEL_MANDATORY"
  by (cases ifd; cases t) (simp_all add: te_level_def tag_row_def esl_defs)

lemma scan_any_run: "scan_any tag ifd es = scan_any tag ifd (takeWhile (\<lambda>e. te_tag e = tag) es)"
  by (induction es) (auto simp: Let_def)

lemma scan_level_run: "scan_level tag ifd t es = scan_level tag ifd t (takeWhile (\<lambda>e. te_tag e = tag) es)"
  by (induction es) auto

lemma tag0_not_mandatory: "exif_tag_get_support_level_in_ifd 0 ifd t \<noteq> EXIF_SUPPORT_LEVEL_MANDATORY"
proof -
  obtain f where f: "exif_tag_table_first 0 = Some f" using tag0_first by blast
  have run: "takeWhile (\<lambda>e. te_tag e = 0) (drop f ExifTagTable) = [tag_row (0, ''GPSVersionID'', ESL_GPS)]"
    using table_first [of 0] f tag0_rows by simp
  have t: "te_tag (tag_row (0, ''GPSVersionID'', ESL_GPS)) = 0" by (simp add: tag_row_def)
  show ?thesis
    using gps_level [of ifd] scan_any_run [of 0 ifd "drop f ExifTagTable"] scan_level_run [of 0 ifd t "drop f ExifTagTable"]
    unfolding exif_tag_get_support_level_in_ifd_def get_support_level_any_type_def get_support_level_in_ifd_def f run
    by (auto simp: t Let_def)
qed

definition mandatory_tags :: "exif_ifd \<Rightarrow> exif_data_type \<Rightarrow> nat list" where
  "mandatory_tags ifd dt =
     filter (\<lambda>t. exif_tag_get_support_level_in_ifd t ifd dt = EXIF_SUPPORT_LEVEL_MANDATORY)
       (map exif_tag_table_get_tag [0 ..< exif_tag_table_count])"

lemma table_tag_small: "exif_tag_table_get_tag n < 2 ^ 16"
proof (cases "n < length ExifTagTable")
  case True
  have "list_all (\<lambda>r. fst r < 2 ^ 16) tag_rows" by (simp only: tag_rows_def list.pred_inject fst_conv) simp
  then have "\<forall>e \<in> set ExifTagTable. te_tag e < 2 ^ 16" by (auto simp: ExifTagTable_def tag_row_def list_all_iff)
  then show ?thesis using True by (simp add: exif_tag_table_get_tag_def)
qed (simp add: exif_tag_table_get_tag_def)

lemma add_mandatory_step:
  fixes ifd :: exif_ifd and dt :: exif_data_type and t :: nat
  assumes "granted al" "content_ok c" "0 \<notin> en_tag ` set c" "t < 2 ^ 16"
  defines "m \<equiv> exif_tag_get_support_level_in_ifd t ifd dt = EXIF_SUPPORT_LEVEL_MANDATORY"
  shows "content_ok (add_mandatory al now order ifd dt c t) \<and>
    0 \<notin> en_tag ` set (add_mandatory al now order ifd dt c t) \<and>
    (\<exists>new. add_mandatory al now order ifd dt c t = c @ new) \<and>
    en_tag ` set (add_mandatory al now order ifd dt c t) = en_tag ` set c \<union> (if m then {of_nat t} else {})"
proof (cases "m \<and> of_nat t \<notin> en_tag ` set c")
  case True
  let ?e = "exif_entry_initialize al now order exif_entry_new t"
  have "t \<noteq> 0" using True tag0_not_mandatory unfolding m_def by metis
  then have nz: "(of_nat t :: u16) \<noteq> 0" using assms(4) by (simp add: unat_of_nat_small unat_eq_zero [symmetric])
  have e: "entry_ok ?e" "en_tag ?e = of_nat t"
    by (rule initialize_ok [OF assms(1)], simp add: exif_entry_new_def)
      (rule initialize_tag, simp add: exif_entry_new_def)
  have "en_tag exif_entry_new = 0" by (simp add: exif_entry_new_def)
  then have "exif_content_add_entry al c exif_entry_new = (c @ [exif_entry_new], True)"
    using assms(1, 3) by (simp add: exif_content_add_entry_def get_entry_None granted_def)
  then have r: "add_mandatory al now order ifd dt c t = c @ [?e]"
    using True by (simp add: add_mandatory_def m_def get_entry_None)
  show ?thesis unfolding r using e assms(2, 3) True nz by (auto simp: content_ok_def)
next
  case False
  then have r: "add_mandatory al now order ifd dt c t = c"
    using get_entry_None [of c "of_nat t"] by (auto simp: add_mandatory_def m_def)
  show ?thesis unfolding r using assms(2, 3) False by auto
qed

lemma add_mandatory_all:
  assumes "granted al"
  shows "content_ok c \<Longrightarrow> 0 \<notin> en_tag ` set c \<Longrightarrow> \<forall>t \<in> set ts. t < 2 ^ 16 \<Longrightarrow>
    content_ok (foldl (add_mandatory al now order ifd dt) c ts) \<and>
    (\<exists>new. foldl (add_mandatory al now order ifd dt) c ts = c @ new) \<and>
    en_tag ` set (foldl (add_mandatory al now order ifd dt) c ts) =
      en_tag ` set c \<union>
      of_nat ` {t \<in> set ts. exif_tag_get_support_level_in_ifd t ifd dt = EXIF_SUPPORT_LEVEL_MANDATORY}"
proof (induction ts arbitrary: c)
  case (Cons t ts)
  let ?c = "add_mandatory al now order ifd dt c t"
  have t: "t < 2 ^ 16" using Cons.prems(3) by simp
  have step: "content_ok ?c" "0 \<notin> en_tag ` set ?c" "\<exists>new. ?c = c @ new"
    "en_tag ` set ?c = en_tag ` set c \<union>
       (if exif_tag_get_support_level_in_ifd t ifd dt = EXIF_SUPPORT_LEVEL_MANDATORY then {of_nat t} else {})"
    using add_mandatory_step [OF assms Cons.prems(1, 2) t, where now = now and order = order and
        ifd = ifd and dt = dt] by blast+
  note ih = Cons.IH [OF step(1, 2)]
  show ?case
    using ih Cons.prems(3) step(3, 4) by (auto simp: image_iff)
qed auto

lemma content_fix_result:
  assumes "granted al" "content_ok c" "\<forall>e \<in> set c. unat (en_size e) < 2 ^ 31" "0 \<notin> en_tag ` set c"
  shows "\<exists>c' new. exif_content_fix al now order ifd dt c = Some c' \<and> content_ok c' \<and>
    map en_tag c' = filter (\<lambda>t. exif_tag_get_support_level_in_ifd (unat t) ifd dt \<noteq> EXIF_SUPPORT_LEVEL_NOT_RECORDED)
      (map en_tag c) @ new \<and>
    set new \<subseteq> of_nat ` set (mandatory_tags ifd dt) \<and> of_nat ` set (mandatory_tags ifd dt) \<subseteq> en_tag ` set c'"
proof -
  obtain c1 where c1: "fix_entries al order c = Some c1" "\<forall>e \<in> set c1. entry_ok e" "map en_tag c1 = map en_tag c"
    using fix_entries_ok [OF assms(1), of c order] assms(2, 3) by (auto simp: content_ok_def)
  define c2 where "c2 = remove_loop al ifd dt c1"
  have c2: "c2 = filter (\<lambda>e. \<not> not_recorded ifd dt e) c1" unfolding c2_def by (rule remove_loop_filter [OF assms(1)])
  have tags1: "distinct (map en_tag c1)" "en_tag ` set c1 = en_tag ` set c"
    using assms(2) c1(3) by (auto simp: content_ok_def simp flip: set_map)
  have ok2: "content_ok c2" using c1(2) tags1(1) by (auto simp: content_ok_def c2 distinct_map_filter)
  have no0: "0 \<notin> en_tag ` set c2" using assms(4) tags1(2) by (auto simp: c2)
  define c3 where "c3 = foldl (add_mandatory al now order ifd dt) c2 (map exif_tag_table_get_tag [0 ..< exif_tag_table_count])"
  have c3: "content_ok c3" "\<exists>new. c3 = c2 @ new"
    "en_tag ` set c3 = en_tag ` set c2 \<union> of_nat ` set (mandatory_tags ifd dt)"
    using add_mandatory_all [OF assms(1) ok2 no0, of "map exif_tag_table_get_tag [0 ..< exif_tag_table_count]"]
      table_tag_small by (auto simp: c3_def mandatory_tags_def)
  obtain new where new: "c3 = c2 @ new" using c3(2) by blast
  have dis: "en_tag ` set c2 \<inter> en_tag ` set new = {}" using c3(1) by (simp add: new content_ok_def)
  have t2: "map en_tag c2 = filter (\<lambda>t. exif_tag_get_support_level_in_ifd (unat t) ifd dt \<noteq> EXIF_SUPPORT_LEVEL_NOT_RECORDED)
      (map en_tag c)"
    unfolding c2 c1(3) [symmetric] by (simp add: not_recorded_def filter_map comp_def)
  have "exif_content_fix al now order ifd dt c = Some c3"
    by (simp add: exif_content_fix_def c1(1) c2_def c3_def)
  moreover have "en_tag ` set c2 \<union> en_tag ` set new = en_tag ` set c2 \<union> of_nat ` set (mandatory_tags ifd dt)"
    using c3(3) by (simp add: new image_Un)
  then have "set (map en_tag new) \<subseteq> of_nat ` set (mandatory_tags ifd dt)"
    using dis by auto blast
  ultimately show ?thesis using c3 t2 new by (intro exI [of _ c3] exI [of _ "map en_tag new"]) simp
qed

text \<open>
  A new entry is first added with tag 0. When the directory holds an entry with tag 0 the addition
  is refused, and no mandatory tag is created.
\<close>

lemma add_mandatory_blocked: "0 \<in> en_tag ` set c \<Longrightarrow> foldl (add_mandatory al now order ifd dt) c ts = c"
proof (induction ts)
  case (Cons t ts)
  then have "exif_content_get_entry c 0 \<noteq> None" by (simp add: get_entry_None)
  then have "add_mandatory al now order ifd dt c t = c"
    by (simp add: add_mandatory_def exif_content_add_entry_def exif_entry_new_def)
  then show ?case using Cons by simp
qed simp

lemma content_fix_blocked:
  assumes "granted al" "en_tag e = 0"
  shows "exif_content_fix al now order EXIF_IFD_0 EXIF_DATA_TYPE_COUNT [e] = Some [e]"
proof -
  obtain f where f: "exif_tag_table_first 0 = Some f" using tag0_first by blast
  have run: "takeWhile (\<lambda>e. te_tag e = 0) (drop f ExifTagTable) = [tag_row (0, ''GPSVersionID'', ESL_GPS)]"
    using table_first [of 0] f tag0_rows by simp
  have "scan_any 0 EXIF_IFD_0 (drop f ExifTagTable) = EXIF_SUPPORT_LEVEL_UNKNOWN"
    unfolding scan_any_run [of 0 EXIF_IFD_0 "drop f ExifTagTable"] run
    by (simp add: tag_row_def te_level_def esl_defs Let_def)
  then have "\<not> not_recorded EXIF_IFD_0 EXIF_DATA_TYPE_COUNT e"
    using assms(2) f by (simp add: not_recorded_def exif_tag_get_support_level_in_ifd_def
        get_support_level_any_type_def)
  moreover have "exif_entry_fix al order e = Some e"
    using assms(2) fix_entry_cases [of al order e]
    by (simp add: fix_short_tags_def fix_rational_tags_def fix_srational_tags_def)
  ultimately show ?thesis
    using assms(2) by (simp add: exif_content_fix_def remove_loop_filter [OF assms(1)] add_mandatory_blocked)
qed

lemma content_fix_ok:
  assumes "granted al" "content_ok c" "\<forall>e \<in> set c. unat (en_size e) < 2 ^ 31"
  shows "\<exists>c'. exif_content_fix al now order ifd dt c = Some c' \<and> content_ok c'"
proof -
  obtain c1 where c1: "fix_entries al order c = Some c1" "\<forall>e \<in> set c1. entry_ok e" "map en_tag c1 = map en_tag c"
    using fix_entries_ok [OF assms(1), of c order] assms(2, 3) by (auto simp: content_ok_def)
  have ok: "content_ok (remove_loop al ifd dt c1)"
    using c1 assms(2) by (auto simp: content_ok_def remove_loop_filter [OF assms(1)] distinct_map_filter)
  show ?thesis
  proof (cases "0 \<in> en_tag ` set (remove_loop al ifd dt c1)")
    case True
    then show ?thesis using ok c1(1) by (simp add: exif_content_fix_def add_mandatory_blocked)
  next
    case False
    then show ?thesis
      using add_mandatory_all [OF assms(1) ok False, of "map exif_tag_table_get_tag [0 ..< exif_tag_table_count]"]
        c1(1) table_tag_small by (auto simp: exif_content_fix_def)
  qed
qed

text \<open>C26: Correcting a directory without a tag-0 entry keeps, in order, exactly the entries whose tags are
  recorded there, for however many passes the removal needs, and appends entries for missing
  mandatory tags; afterwards all mandatory tags are there, each tag once, with sound entries.
\<close>

theorem exif_content_fix_result:
  assumes "granted al" "content_ok c" "\<forall>e \<in> set c. unat (en_size e) < 2 ^ 31" "0 \<notin> en_tag ` set c"
  shows "\<exists>c' new. exif_content_fix al now order ifd dt c = Some c' \<and> content_ok c' \<and>
    map en_tag c' = filter (\<lambda>t. exif_tag_get_support_level_in_ifd (unat t) ifd dt \<noteq> EXIF_SUPPORT_LEVEL_NOT_RECORDED)
      (map en_tag c) @ new \<and>
    set new \<subseteq> of_nat ` set (mandatory_tags ifd dt) \<and> of_nat ` set (mandatory_tags ifd dt) \<subseteq> en_tag ` set c'"
  using assms by (rule content_fix_result)

definition noon :: tm where
  "noon = \<lparr>tm_year = 116, tm_mon = 5, tm_mday = 7, tm_hour = 12, tm_min = 0, tm_sec = 0\<rparr>"

lemma exif_content_fix_result_witness:
  "\<exists>c' new. exif_content_fix (\<lambda>_. True) noon EXIF_BYTE_ORDER_INTEL EXIF_IFD_0 EXIF_DATA_TYPE_COMPRESSED
       [long_orientation] = Some c' \<and> content_ok c' \<and>
    map en_tag c' =
      filter (\<lambda>t. exif_tag_get_support_level_in_ifd (unat t) EXIF_IFD_0 EXIF_DATA_TYPE_COMPRESSED \<noteq>
          EXIF_SUPPORT_LEVEL_NOT_RECORDED) [0x0112] @ new \<and>
    set new \<subseteq> of_nat ` set (mandatory_tags EXIF_IFD_0 EXIF_DATA_TYPE_COMPRESSED) \<and>
    of_nat ` set (mandatory_tags EXIF_IFD_0 EXIF_DATA_TYPE_COMPRESSED) \<subseteq> en_tag ` set c'"
proof -
  have c: "content_ok [long_orientation]" "\<forall>e \<in> set [long_orientation]. unat (en_size e) < 2 ^ 31"
    "0 \<notin> en_tag ` set [long_orientation]" "map en_tag [long_orientation] = [0x0112]"
    by (simp_all add: content_ok_def long_orientation_def entry_ok_def en_block_def)
  show ?thesis
    using exif_content_fix_result [OF _ c(1-3), of "\<lambda>_. True" noon EXIF_BYTE_ORDER_INTEL EXIF_IFD_0
        EXIF_DATA_TYPE_COMPRESSED] unfolding c(4) by (simp add: granted_def)
qed

end
