(* ===== verification/ExifData.thy ===== *)
theory ExifData
  imports ExifLoader ExifContent "HOL-Library.Monad_Syntax"
begin

text \<open>
  The EXIF data object and its reader (\<open>exif-data.c\<close> of \<open>external/libexif/libexif\<close>). A read outside the block that was handed over,
  and the dereference of a null pointer, is the result \<open>None\<close>. The interpretation of maker notes
  is the argument \<open>mn\<close>: it maps the object, the maker note entry and the block to the new note.
\<close>

abbreviation EXIF_DATA_OPTION_IGNORE_UNKNOWN_TAGS :: u32 where "EXIF_DATA_OPTION_IGNORE_UNKNOWN_TAGS \<equiv> 1"
abbreviation EXIF_DATA_OPTION_FOLLOW_SPECIFICATION :: u32 where "EXIF_DATA_OPTION_FOLLOW_SPECIFICATION \<equiv> 2"
abbreviation EXIF_DATA_OPTION_DONT_CHANGE_MAKER_NOTE :: u32 where "EXIF_DATA_OPTION_DONT_CHANGE_MAKER_NOTE \<equiv> 4"

record 'm exif_data =
  ed_ifd :: "exif_ifd \<Rightarrow> exif_content"
  ed_data :: "u8 list option"
  ed_size :: u32
  ed_order :: exif_byte_order
  ed_md :: "'m option"
  ed_offset_mnote :: u32
  ed_options :: u32
  ed_data_type :: exif_data_type

definition exif_data_set_option :: "'m exif_data \<Rightarrow> u32 \<Rightarrow> 'm exif_data" where
  "exif_data_set_option d o' = d\<lparr>ed_options := ed_options d OR o'\<rparr>"

definition exif_data_unset_option :: "'m exif_data \<Rightarrow> u32 \<Rightarrow> 'm exif_data" where
  "exif_data_unset_option d o' = d\<lparr>ed_options := ed_options d AND NOT o'\<rparr>"

definition exif_data_set_data_type :: "'m exif_data \<Rightarrow> exif_data_type \<Rightarrow> 'm exif_data" where
  "exif_data_set_data_type d dt = d\<lparr>ed_data_type := dt\<rparr>"

definition exif_data_new :: "'m exif_data" where
  "exif_data_new =
     exif_data_set_data_type
       (exif_data_set_option
         (exif_data_set_option
           \<lparr>ed_ifd = (\<lambda>_. []), ed_data = None, ed_size = 0, ed_order = EXIF_BYTE_ORDER_MOTOROLA, ed_md = None,
            ed_offset_mnote = 0, ed_options = 0, ed_data_type = EXIF_DATA_TYPE_UNCOMPRESSED_CHUNKY\<rparr>
           EXIF_DATA_OPTION_IGNORE_UNKNOWN_TAGS)
         EXIF_DATA_OPTION_FOLLOW_SPECIFICATION)
       EXIF_DATA_TYPE_COUNT"

definition exif_data_alloc :: "(nat \<Rightarrow> bool) \<Rightarrow> u32 \<Rightarrow> u8 list option" where
  "exif_data_alloc al i = (if i = 0 then None else exif_mem_alloc al (unat i))"

definition ifd_upd :: "exif_ifd \<Rightarrow> exif_content \<Rightarrow> 'm exif_data \<Rightarrow> 'm exif_data" where
  "ifd_upd ifd c data = data\<lparr>ed_ifd := (ed_ifd data)(ifd := c)\<rparr>"

text \<open>The search over the directories (a macro of \<open>exif-data.h\<close>).\<close>

definition exif_data_get_entry :: "'m exif_data \<Rightarrow> u16 \<Rightarrow> exif_entry option" where
  "exif_data_get_entry d t =
     first_result (\<lambda>ifd. exif_content_get_entry (ed_ifd d ifd) t)
       [EXIF_IFD_0, EXIF_IFD_1, EXIF_IFD_EXIF, EXIF_IFD_GPS, EXIF_IFD_INTEROPERABILITY]"

subsection \<open>Guarded reads\<close>

definition get16 :: "exif_byte_order \<Rightarrow> u8 list \<Rightarrow> nat \<Rightarrow> u16 option" where
  "get16 order d p = (if p + 2 \<le> length d then Some (exif_get_short order (drop p d)) else None)"

definition get32 :: "exif_byte_order \<Rightarrow> u8 list \<Rightarrow> nat \<Rightarrow> u32 option" where
  "get32 order d p = (if p + 4 \<le> length d then Some (exif_get_long order (drop p d)) else None)"

definition get_bytes :: "u8 list \<Rightarrow> nat \<Rightarrow> nat \<Rightarrow> u8 list option" where
  "get_bytes d p n = (if p + n \<le> length d then Some (slice p n d) else None)"

subsection \<open>Loading entries, thumbnail and directories\<close>

text \<open>The entry is \<open>None\<close> when the code returns 0; \<open>size\<close> is the bound the code checks against.\<close>

definition exif_data_load_data_entry ::
  "(nat \<Rightarrow> bool) \<Rightarrow> 'm exif_data \<Rightarrow> u8 list \<Rightarrow> u32 \<Rightarrow> u32 \<Rightarrow> ('m exif_data \<times> exif_entry option) option" where
  "exif_data_load_data_entry al data d size' offset = do {
     tag \<leftarrow> get16 (ed_order data) d (unat offset + 0);
     format \<leftarrow> get16 (ed_order data) d (unat offset + 2);
     components \<leftarrow> get32 (ed_order data) d (unat offset + 4);
     let s = fsize (unat format) * components;
     if s < components \<or> s = 0 then Some (data, None)
     else do {
       doff \<leftarrow> (if 4 < s then get32 (ed_order data) d (unat offset + 8) else Some (offset + 8));
       if doff + s < doff \<or> doff + s < s \<or> size' < doff + s then Some (data, None)
       else do {
         let entry = exif_entry_new\<lparr>en_tag := tag, en_format := unat format, en_components := components\<rparr>;
         entry' \<leftarrow> (case exif_data_alloc al s of
                      None \<Rightarrow> Some entry
                    | Some _ \<Rightarrow> do {
                        bytes \<leftarrow> get_bytes d (unat doff) (unat s);
                        Some (entry\<lparr>en_size := s, en_data := Some bytes\<rparr>) });
         Some (if unat tag = EXIF_TAG_MAKER_NOTE then data\<lparr>ed_offset_mnote := doff\<rparr> else data, Some entry')
       }
     }
   }"

definition exif_data_load_data_thumbnail ::
  "(nat \<Rightarrow> bool) \<Rightarrow> 'm exif_data \<Rightarrow> u8 list \<Rightarrow> u32 \<Rightarrow> u32 \<Rightarrow> u32 \<Rightarrow> 'm exif_data option" where
  "exif_data_load_data_thumbnail al data d ds o' s =
     (if o' + s < o' \<or> o' + s < s \<or> ds < o' + s \<or> ds < o' then Some data
      else case exif_data_alloc al s of
             None \<Rightarrow> Some (data\<lparr>ed_data := None, ed_size := 0\<rparr>)
           | Some _ \<Rightarrow> do {
               bytes \<leftarrow> get_bytes d (unat o') (unat s);
               Some (data\<lparr>ed_data := Some bytes, ed_size := s\<rparr>) })"

text \<open>
  The body of the loop over the \<open>n\<close> entries of a directory: \<open>p\<close> is \<open>offset + 12 * i\<close>, \<open>sub\<close> the recursive call,
  and \<open>tn\<close> holds the offset and the length of the thumbnail seen so far. \<open>CHECK_REC\<close> skips a pointer to the directory
  being read and to one that has entries.
\<close>

definition load_pointer ::
  "('m exif_data \<Rightarrow> exif_ifd \<Rightarrow> u32 \<Rightarrow> 'm exif_data option) \<Rightarrow> exif_ifd \<Rightarrow> exif_ifd \<Rightarrow> u32 \<Rightarrow> 'm exif_data \<Rightarrow>
   'm exif_data option" where
  "load_pointer sub ifd i o' data = (if i = ifd \<or> ed_ifd data i \<noteq> [] then Some data else sub data i o')"

definition load_thumb ::
  "(nat \<Rightarrow> bool) \<Rightarrow> u8 list \<Rightarrow> u32 \<Rightarrow> u32 \<times> u32 \<Rightarrow> 'm exif_data \<Rightarrow> ('m exif_data \<times> u32 \<times> u32) option" where
  "load_thumb al d ds tn data =
     map_option (\<lambda>data'. (data', tn))
       (if fst tn \<noteq> 0 \<and> snd tn \<noteq> 0 then exif_data_load_data_thumbnail al data d ds (fst tn) (snd tn) else Some data)"

definition load_other ::
  "(nat \<Rightarrow> bool) \<Rightarrow> exif_ifd \<Rightarrow> u8 list \<Rightarrow> u32 \<Rightarrow> u32 \<Rightarrow> u16 \<Rightarrow> 'm exif_data \<Rightarrow> 'm exif_data option" where
  "load_other al ifd d ds p tag data =
     (let load = do {
            (data', entry) \<leftarrow> exif_data_load_data_entry al data d ds p;
            Some (case entry of None \<Rightarrow> data'
                  | Some e \<Rightarrow> ifd_upd ifd (fst (exif_content_add_entry al (ed_ifd data' ifd) e)) data') }
      in if exif_tag_get_name_in_ifd (unat tag) ifd = None then do {
           b \<leftarrow> get_bytes d (unat p) 4;
           if b = [0, 0, 0, 0] then Some data
           else if ed_options data AND EXIF_DATA_OPTION_IGNORE_UNKNOWN_TAGS \<noteq> 0 then Some data
           else load }
         else load)"

definition load_one ::
  "(nat \<Rightarrow> bool) \<Rightarrow> ('m exif_data \<Rightarrow> exif_ifd \<Rightarrow> u32 \<Rightarrow> 'm exif_data option) \<Rightarrow> exif_ifd \<Rightarrow> u8 list \<Rightarrow> u32 \<Rightarrow> u32 \<Rightarrow>
   'm exif_data \<times> u32 \<times> u32 \<Rightarrow> ('m exif_data \<times> u32 \<times> u32) option" where
  "load_one al sub ifd d ds p st = (case st of (data, tn) \<Rightarrow> do {
     tag \<leftarrow> get16 (ed_order data) d (unat p);
     let t = unat tag;
     if t \<in> {EXIF_TAG_EXIF_IFD_POINTER, EXIF_TAG_GPS_INFO_IFD_POINTER, EXIF_TAG_INTEROPERABILITY_IFD_POINTER,
             EXIF_TAG_JPEG_INTERCHANGE_FORMAT_LENGTH, EXIF_TAG_JPEG_INTERCHANGE_FORMAT} then do {
       o' \<leftarrow> get32 (ed_order data) d (unat p + 8);
       if t = EXIF_TAG_EXIF_IFD_POINTER then map_option (\<lambda>x. (x, tn)) (load_pointer sub ifd EXIF_IFD_EXIF o' data)
       else if t = EXIF_TAG_GPS_INFO_IFD_POINTER then map_option (\<lambda>x. (x, tn)) (load_pointer sub ifd EXIF_IFD_GPS o' data)
       else if t = EXIF_TAG_INTEROPERABILITY_IFD_POINTER
         then map_option (\<lambda>x. (x, tn)) (load_pointer sub ifd EXIF_IFD_INTEROPERABILITY o' data)
       else if t = EXIF_TAG_JPEG_INTERCHANGE_FORMAT then load_thumb al d ds (o', snd tn) data
       else load_thumb al d ds (fst tn, o') data }
     else map_option (\<lambda>x. (x, tn)) (load_other al ifd d ds p tag data) })"

primrec load_entries ::
  "(nat \<Rightarrow> bool) \<Rightarrow> ('m exif_data \<Rightarrow> exif_ifd \<Rightarrow> u32 \<Rightarrow> 'm exif_data option) \<Rightarrow> exif_ifd \<Rightarrow> u8 list \<Rightarrow> u32 \<Rightarrow> u32 \<Rightarrow> nat \<Rightarrow>
   'm exif_data \<times> u32 \<times> u32 \<Rightarrow> ('m exif_data \<times> u32 \<times> u32) option" where
  "load_entries al sub ifd d ds p 0 st = Some st"
| "load_entries al sub ifd d ds p (Suc n) st = do {
     st' \<leftarrow> load_one al sub ifd d ds p st;
     load_entries al sub ifd d ds (p + 12) n st' }"

text \<open>
  \<open>exif_data_load_data_content\<close>: the argument \<open>k\<close> counts the calls that are still allowed, 31 less the
  recursion depth of the code.
\<close>

primrec exif_data_load_data_content ::
  "(nat \<Rightarrow> bool) \<Rightarrow> u8 list \<Rightarrow> u32 \<Rightarrow> nat \<Rightarrow> 'm exif_data \<Rightarrow> exif_ifd \<Rightarrow> u32 \<Rightarrow> 'm exif_data option" where
  "exif_data_load_data_content al d ds 0 data ifd offset = Some data"
| "exif_data_load_data_content al d ds (Suc k) data ifd offset =
     (if EXIF_IFD_COUNT \<le> ifd then Some data
      else if offset + 2 < offset \<or> offset + 2 < 2 \<or> ds < offset + 2 then Some data
      else do {
        n \<leftarrow> get16 (ed_order data) d (unat offset);
        let off = offset + 2;
        let n' = (if ds < off + 12 * ucast n then ucast ((ds - off) div 12) else n);
        (data', tn) \<leftarrow> load_entries al (exif_data_load_data_content al d ds k) ifd d ds off (unat n') (data, 0, 0);
        Some data' })"

text \<open>
  The search for the EXIF marker in a JPEG header: the bytes after the length field of the first
  \<open>APP1\<close> marker, or nothing.
\<close>

function find_app1 :: "u8 list \<Rightarrow> u8 list option" where
  "find_app1 d =
     (if length d < 3 then None
      else let d1 = dropWhile (\<lambda>b. b = 0xff) d
           in if d1 \<noteq> [] \<and> d1 ! 0 = 0xd8 then find_app1 (tl d1)
              else if 3 \<le> length d1 \<and> d1 ! 0 = 0xe0 then
                let d2 = tl d1; l = unat (d2 ! 0) * 256 + unat (d2 ! 1)
                in if length d2 < l then None else find_app1 (drop l d2)
              else if d1 \<noteq> [] \<and> d1 ! 0 = 0xe1 then (if length d1 < 3 then None else Some (drop 3 d1))
              else None)"
  by pat_completeness auto
termination
proof (relation "measure length")
  fix d d1 :: "u8 list"
  assume d1: "d1 = dropWhile (\<lambda>b. b = 0xff) d"
  have len: "length d1 \<le> length d" by (simp add: d1 length_dropWhile_le)
  show "(tl d1, d) \<in> measure length" if "d1 \<noteq> [] \<and> d1 ! 0 = 0xd8" using len that by (cases d1) auto
  fix d2 l assume "3 \<le> length d1 \<and> d1 ! 0 = 0xe0" "d2 = tl d1"
  then show "(drop l d2, d) \<in> measure length" using len by auto
qed simp

declare find_app1.simps [simp del]

subsection \<open>Correction and the reader\<close>

primrec clear_content :: "nat \<Rightarrow> (nat \<Rightarrow> bool) \<Rightarrow> exif_content \<Rightarrow> exif_content" where
  "clear_content 0 al c = c"
| "clear_content (Suc k) al c =
     (if c = [] then c
      else let c' = exif_content_remove_entry al c (length c - 1)
           in if length c = length c' then clear_content k al (butlast c') else clear_content k al c')"

definition data_fix_content ::
  "(nat \<Rightarrow> bool) \<Rightarrow> tm \<Rightarrow> exif_ifd \<Rightarrow> 'm exif_data \<Rightarrow> 'm exif_data option" where
  "data_fix_content al now ifd d =
     (if ifd = EXIF_IFD_1 \<and> ed_data d = None
      then Some (ifd_upd ifd (clear_content (length (ed_ifd d ifd)) al (ed_ifd d ifd)) d)
      else map_option (\<lambda>c. ifd_upd ifd c d)
             (exif_content_fix al now (ed_order d) ifd (ed_data_type d) (ed_ifd d ifd)))"

primrec foreach_content :: "('m exif_data \<Rightarrow> exif_ifd \<Rightarrow> 'm exif_data option) \<Rightarrow> 'm exif_data \<Rightarrow> exif_ifd list \<Rightarrow> 'm exif_data option" where
  "foreach_content func d [] = Some d"
| "foreach_content func d (i # ifds) = do { d' \<leftarrow> func d i; foreach_content func d' ifds }"

definition exif_data_foreach_content ::
  "'m exif_data \<Rightarrow> ('m exif_data \<Rightarrow> exif_ifd \<Rightarrow> 'm exif_data option) \<Rightarrow> 'm exif_data option" where
  "exif_data_foreach_content d func =
     foreach_content func d [EXIF_IFD_0, EXIF_IFD_1, EXIF_IFD_EXIF, EXIF_IFD_GPS, EXIF_IFD_INTEROPERABILITY]"

definition exif_data_fix :: "(nat \<Rightarrow> bool) \<Rightarrow> tm \<Rightarrow> 'm exif_data \<Rightarrow> 'm exif_data option" where
  "exif_data_fix al now d = exif_data_foreach_content d (\<lambda>d i. data_fix_content al now i d)"

definition interpret_maker_note ::
  "('m exif_data \<Rightarrow> exif_entry \<Rightarrow> u8 list \<Rightarrow> 'm option) \<Rightarrow> 'm exif_data \<Rightarrow> u8 list \<Rightarrow> 'm exif_data" where
  "interpret_maker_note mn data d =
     (case exif_data_get_entry data (of_nat EXIF_TAG_MAKER_NOTE) of
        None \<Rightarrow> data
      | Some e \<Rightarrow> data\<lparr>ed_md := mn data e d\<rparr>)"

text \<open>The part of \<open>exif_data_load_data\<close> after the EXIF header has been located at the start of \<open>d\<close>.\<close>

definition load_tiff ::
  "(nat \<Rightarrow> bool) \<Rightarrow> tm \<Rightarrow> ('m exif_data \<Rightarrow> exif_entry \<Rightarrow> u8 list \<Rightarrow> 'm option) \<Rightarrow> 'm exif_data \<Rightarrow> u8 list \<Rightarrow>
   'm exif_data option" where
  "load_tiff al now mn data d =
     (if length d < 14 then Some data
      else let ds = (if 0xfffe < length d then 0xfffe else of_nat (length d)) :: u32;
               mark = slice 6 2 d
           in if mark \<noteq> [0x49, 0x49] \<and> mark \<noteq> [0x4d, 0x4d] then Some data
              else let data1 = data\<lparr>ed_order :=
                         (if mark = [0x49, 0x49] then EXIF_BYTE_ORDER_INTEL else EXIF_BYTE_ORDER_MOTOROLA)\<rparr>
                   in do {
                     fixed \<leftarrow> get16 (ed_order data1) d 8;
                     if fixed \<noteq> 0x2a then Some data1
                     else do {
                       offset \<leftarrow> get32 (ed_order data1) d 10;
                       if ds < offset \<or> ds < offset + 6 + 2 then Some data1
                       else do {
                         data2 \<leftarrow> exif_data_load_data_content al (drop 6 d) (ds - 6) 31 data1 EXIF_IFD_0 offset;
                         n \<leftarrow> get16 (ed_order data2) d (6 + unat offset);
                         if ds < offset + 6 + 2 + 12 * ucast n + 4 then Some data2
                         else do {
                           offset1 \<leftarrow> get32 (ed_order data2) d (6 + unat offset + 2 + 12 * unat n);
                           data3 \<leftarrow> (if offset1 = 0 \<or> ds < offset1 \<or> ds < offset1 + 6 then Some data2
                              else exif_data_load_data_content al (drop 6 d) (ds - 6) 31 data2 EXIF_IFD_1 offset1);
                           let data4 = interpret_maker_note mn data3 d;
                           if ed_options data4 AND EXIF_DATA_OPTION_FOLLOW_SPECIFICATION \<noteq> 0
                           then exif_data_fix al now data4 else Some data4 } } } })"

definition exif_data_load_data ::
  "(nat \<Rightarrow> bool) \<Rightarrow> tm \<Rightarrow> ('m exif_data \<Rightarrow> exif_entry \<Rightarrow> u8 list \<Rightarrow> 'm option) \<Rightarrow> 'm exif_data \<Rightarrow> u8 list \<Rightarrow>
   'm exif_data option" where
  "exif_data_load_data al now mn data d_orig =
     (if length d_orig < 6 then Some data
      else case (if take 6 d_orig = ExifHeader then Some d_orig else find_app1 d_orig) of
             None \<Rightarrow> Some data
           | Some d \<Rightarrow> if length d < 6 \<or> take 6 d \<noteq> ExifHeader then Some data
                       else load_tiff al now mn data d)"

subsection \<open>Changing the byte order\<close>

text \<open>The byte order of the maker note is changed by the argument \<open>mo\<close>.\<close>

definition entry_set_byte_order :: "exif_byte_order \<Rightarrow> exif_byte_order \<Rightarrow> exif_entry \<Rightarrow> exif_entry" where
  "entry_set_byte_order old new e =
     e\<lparr>en_data := map_option (\<lambda>b. exif_array_set_byte_order (en_format e) b (unat (en_components e)) old new) (en_data e)\<rparr>"

definition exif_data_get_byte_order :: "'m exif_data \<Rightarrow> exif_byte_order" where
  "exif_data_get_byte_order d = ed_order d"

definition exif_data_set_byte_order ::
  "('m \<Rightarrow> exif_byte_order \<Rightarrow> 'm) \<Rightarrow> 'm exif_data \<Rightarrow> exif_byte_order \<Rightarrow> 'm exif_data" where
  "exif_data_set_byte_order mo data order =
     (if order = ed_order data then data
      else data\<lparr>ed_ifd := (\<lambda>ifd. map (entry_set_byte_order (ed_order data) order) (ed_ifd data ifd)),
                ed_order := order, ed_md := map_option (\<lambda>m. mo m order) (ed_md data)\<rparr>)"

text \<open>The camera's copy of the library adds an operation that drops the thumbnail and its directory
  (\<open>seccamera/external/libexifa/exif-data.c\<close>).\<close>

definition exif_data_remove_thumbnail :: "'m exif_data \<Rightarrow> 'm exif_data" where
  "exif_data_remove_thumbnail data = ifd_upd EXIF_IFD_1 [] (data\<lparr>ed_data := None, ed_size := 0\<rparr>)"

subsection \<open>The invariant of a data object\<close>

text \<open>
  Every directory has sound entries with distinct tags, and the size of the
  thumbnail is the length of its block.
\<close>

definition thumb_ok :: "'m exif_data \<Rightarrow> bool" where
  "thumb_ok d \<longleftrightarrow> (case ed_data d of None \<Rightarrow> ed_size d = 0 | Some b \<Rightarrow> length b = unat (ed_size d))"

lemma thumb_ok_update [simp]:
  "thumb_ok (data\<lparr>ed_ifd := f\<rparr>) = thumb_ok data" "thumb_ok (data\<lparr>ed_offset_mnote := m\<rparr>) = thumb_ok data"
  "thumb_ok (data\<lparr>ed_order := order\<rparr>) = thumb_ok data" "thumb_ok (data\<lparr>ed_md := md\<rparr>) = thumb_ok data"
  by (simp_all add: thumb_ok_def split: option.split)

definition data_ok :: "'m exif_data \<Rightarrow> bool" where
  "data_ok d \<longleftrightarrow> (\<forall>ifd. content_ok (ed_ifd d ifd)) \<and> thumb_ok d"

definition small_entries :: "'m exif_data \<Rightarrow> bool" where
  "small_entries d \<longleftrightarrow> (\<forall>ifd. \<forall>e \<in> set (ed_ifd d ifd). unat (en_size e) < 2 ^ 31)"

lemma data_ok_new: "data_ok exif_data_new" "small_entries exif_data_new"
  by (simp_all add: exif_data_new_def exif_data_set_data_type_def exif_data_set_option_def data_ok_def content_ok_def
      thumb_ok_def small_entries_def)

text \<open>Sums of 32-bit offsets that passed the overflow checks.\<close>

lemma no_wrap: "\<not> a + b < a \<Longrightarrow> unat (a + b :: u32) = unat a + unat b"
  by (metis add.commute linorder_not_less unat_plus_simple)

lemma no_wrap_small: "unat a + unat b < 2 ^ 32 \<Longrightarrow> unat (a + b :: u32) = unat a + unat b"
  by (intro unat_add_small) simp

lemma get16_in [simp]: "p + 2 \<le> length d \<Longrightarrow> get16 order d p = Some (exif_get_short order (drop p d))"
  by (simp add: get16_def)

lemma get32_in [simp]: "p + 4 \<le> length d \<Longrightarrow> get32 order d p = Some (exif_get_long order (drop p d))"
  by (simp add: get32_def)

lemma get_bytes_in [simp]: "p + n \<le> length d \<Longrightarrow> get_bytes d p n = Some (slice p n d)"
  by (simp add: get_bytes_def)

lemma data_alloc_granted: "granted al \<Longrightarrow> s \<noteq> 0 \<Longrightarrow> \<exists>b. exif_data_alloc al s = Some b"
  by (simp add: exif_data_alloc_def exif_mem_alloc_def granted_def)

lemma format_size_le: "exif_format_get_size f \<le> 8"
  by (auto simp: exif_format_get_size_def ExifFormatTable_def)

text \<open>
  The product of the format size and the number of components is computed in 32 bits; together with
  the check against the 64 KiB block it has not wrapped.
\<close>

lemma product_exact:
  assumes "s = fsize f * c" "\<not> s < c" "unat s < 2 ^ 16"
  shows "unat s = exif_format_get_size f * unat c" "unat c \<le> unat s"
proof -
  show c: "unat c \<le> unat s" using assms(2) by (simp add: word_le_nat_alt not_less)
  have f: "unat (fsize f) = exif_format_get_size f"
    unfolding fsize_def using format_size_le [of f] by (intro unat_of_nat_small) simp
  have "exif_format_get_size f * unat c \<le> 8 * unat s" using format_size_le c by (rule mult_le_mono)
  also have "\<dots> < 2 ^ 32" using assms(3) by simp
  finally show "unat s = exif_format_get_size f * unat c"
    unfolding assms(1) by (subst unat_word_ariths(2)) (simp add: f)
qed

lemma load_entry_ok:
  assumes "granted al" "unat p + 12 \<le> unat ds" "unat ds \<le> length d" "unat ds < 2 ^ 16"
  shows "\<exists>m en. exif_data_load_data_entry al data d ds p = Some (data\<lparr>ed_offset_mnote := m\<rparr>, en) \<and>
    (\<forall>e. en = Some e \<longrightarrow> entry_ok e \<and> unat (en_size e) < 2 ^ 16)"
proof -
  define c where "c = exif_get_long (ed_order data) (drop (unat p + 4) d)"
  define f where "f = unat (exif_get_short (ed_order data) (drop (unat p + 2) d))"
  define t where "t = exif_get_short (ed_order data) (drop (unat p) d)"
  define s where "s = fsize f * c"
  define doff where "doff = (if 4 < s then exif_get_long (ed_order data) (drop (unat p + 8) d) else p + 8)"
  have keep: "data\<lparr>ed_offset_mnote := ed_offset_mnote data\<rparr> = data" by simp
  have g: "get16 (ed_order data) d (unat p + 0) = Some t"
    "get16 (ed_order data) d (unat p + 2) = Some (exif_get_short (ed_order data) (drop (unat p + 2) d))"
    "get32 (ed_order data) d (unat p + 4) = Some c"
    and g4: "(if 4 < s then get32 (ed_order data) d (unat p + 8) else Some (p + 8)) = Some doff"
    using assms(2, 3) by (simp_all add: t_def c_def doff_def)
  have eq: "exif_data_load_data_entry al data d ds p =
    (if s < c \<or> s = 0 then Some (data, None)
     else if doff + s < doff \<or> doff + s < s \<or> ds < doff + s then Some (data, None)
     else do {
       entry' \<leftarrow> (case exif_data_alloc al s of
                    None \<Rightarrow> Some (exif_entry_new\<lparr>en_tag := t, en_format := f, en_components := c\<rparr>)
                  | Some _ \<Rightarrow> do {
                      bytes \<leftarrow> get_bytes d (unat doff) (unat s);
                      Some (exif_entry_new\<lparr>en_tag := t, en_format := f, en_components := c,
                        en_size := s, en_data := Some bytes\<rparr>) });
       Some (if unat t = EXIF_TAG_MAKER_NOTE then data\<lparr>ed_offset_mnote := doff\<rparr> else data, Some entry') })"
    unfolding exif_data_load_data_entry_def Let_def g Option.bind.simps f_def [symmetric] s_def [symmetric] g4 ..
  show ?thesis
  proof (cases "s < c \<or> s = 0 \<or> doff + s < doff \<or> doff + s < s \<or> ds < doff + s")
    case True
    then have "exif_data_load_data_entry al data d ds p = Some (data, None)" by (auto simp: eq)
    then show ?thesis by (intro exI [of _ "ed_offset_mnote data"] exI [of _ None]) (simp add: keep)
  next
    case False
    then have end': "unat doff + unat s \<le> unat ds"
      using no_wrap [of doff s] by (simp add: word_le_nat_alt not_less)
    then have sm: "unat s < 2 ^ 16" using assms(4) by simp
    obtain b where "exif_data_alloc al s = Some b" using data_alloc_granted [OF assms(1)] False by blast
    moreover define e where "e = exif_entry_new\<lparr>en_tag := t, en_format := f, en_components := c,
        en_size := s, en_data := Some (slice (unat doff) (unat s) d)\<rparr>"
    ultimately have r: "exif_data_load_data_entry al data d ds p =
        Some (if unat t = EXIF_TAG_MAKER_NOTE then data\<lparr>ed_offset_mnote := doff\<rparr> else data, Some e)"
      using False end' assms(3) by (simp add: eq)
    have "entry_ok e"
      using product_exact [OF s_def _ sm] False end' assms(3) by (simp add: entry_ok_def e_def en_block_def)
    moreover have "en_size e = s" by (simp add: e_def)
    ultimately show ?thesis
      unfolding r using sm keep
      by (intro exI [of _ "if unat t = EXIF_TAG_MAKER_NOTE then doff else ed_offset_mnote data"] exI [of _ "Some e"]) simp
  qed
qed

text \<open>What every step of the reader keeps.\<close>

definition load_inv :: "'m exif_data \<Rightarrow> bool" where
  "load_inv d \<longleftrightarrow> data_ok d \<and> small_entries d"

lemma load_inv_update [simp]:
  "load_inv (data\<lparr>ed_offset_mnote := m\<rparr>) = load_inv data"
  "load_inv (data\<lparr>ed_order := order\<rparr>) = load_inv data"
  "load_inv (data\<lparr>ed_md := md\<rparr>) = load_inv data"
  by (simp_all add: load_inv_def data_ok_def small_entries_def)

lemma load_inv_add:
  "load_inv data \<Longrightarrow> entry_ok e \<Longrightarrow> unat (en_size e) < 2 ^ 16 \<Longrightarrow>
   load_inv (ifd_upd ifd (fst (exif_content_add_entry al (ed_ifd data ifd) e)) data)"
  using content_ok_add [of "ed_ifd data ifd" e al]
  by (auto simp: load_inv_def data_ok_def small_entries_def ifd_upd_def exif_content_add_entry_def)

lemma load_thumbnail_ok:
  assumes "load_inv data" "unat ds \<le> length d" "granted al"
  shows "\<exists>data'. exif_data_load_data_thumbnail al data d ds o' s = Some data' \<and> load_inv data'"
proof (cases "o' + s < o' \<or> o' + s < s \<or> ds < o' + s \<or> ds < o'")
  case True
  then show ?thesis using assms(1) by (auto simp: exif_data_load_data_thumbnail_def)
next
  case False
  then have "unat o' + unat s \<le> length d"
    using no_wrap [of o' s] assms(2) by (simp add: word_le_nat_alt not_less)
  then show ?thesis
    using False assms(1)
    by (auto simp: exif_data_load_data_thumbnail_def load_inv_def data_ok_def small_entries_def thumb_ok_def
        split: option.splits)
qed

text \<open>The contract of the recursive call.\<close>

definition sub_ok :: "('m exif_data \<Rightarrow> exif_ifd \<Rightarrow> u32 \<Rightarrow> 'm exif_data option) \<Rightarrow> bool" where
  "sub_ok sub \<longleftrightarrow> (\<forall>data ifd o'. load_inv data \<longrightarrow> (\<exists>data'. sub data ifd o' = Some data' \<and> load_inv data'))"

lemma load_one_ok:
  assumes "granted al" "sub_ok sub" "unat p + 12 \<le> unat ds" "unat ds \<le> length d" "unat ds < 2 ^ 16"
    "load_inv (fst st)"
  shows "\<exists>st'. load_one al sub ifd d ds p st = Some st' \<and> load_inv (fst st')"
proof -
  obtain data tn where st: "st = (data, tn)" by (cases st)
  have inv: "load_inv data" using assms(6) by (simp add: st)
  have rd: "unat p + 2 \<le> length d" "unat p + 8 + 4 \<le> length d" "unat p + 4 \<le> length d" using assms(3, 4) by linarith+
  have ptr: "\<exists>x. load_pointer sub ifd i o' data = Some x \<and> load_inv x" for i o'
    using assms(2) inv by (auto simp: load_pointer_def sub_ok_def)
  have thumb: "\<exists>x. load_thumb al d ds tn' data = Some x \<and> load_inv (fst x)" for tn'
  proof -
    obtain y where "exif_data_load_data_thumbnail al data d ds (fst tn') (snd tn') = Some y" "load_inv y"
      using load_thumbnail_ok [OF inv assms(4, 1), of "fst tn'" "snd tn'"] by blast
    then show ?thesis using inv by (simp add: load_thumb_def)
  qed
  have other: "\<exists>x. load_other al ifd d ds p tag data = Some x \<and> load_inv x" for tag
  proof -
    obtain m en where en: "exif_data_load_data_entry al data d ds p = Some (data\<lparr>ed_offset_mnote := m\<rparr>, en)"
      "\<forall>e. en = Some e \<longrightarrow> entry_ok e \<and> unat (en_size e) < 2 ^ 16"
      using load_entry_ok [OF assms(1, 3, 4, 5)] by blast
    then show ?thesis
      using inv load_inv_add [of "data\<lparr>ed_offset_mnote := m\<rparr>"] rd(3)
      by (cases en) (auto simp: load_other_def Let_def)
  qed
  define t where "t = exif_get_short (ed_order data) (drop (unat p) d)"
  define o' where "o' = exif_get_long (ed_order data) (drop (unat p + 8) d)"
  have g: "get16 (ed_order data) d (unat p) = Some t" "get32 (ed_order data) d (unat p + 8) = Some o'"
    using rd by (simp_all add: t_def o'_def)
  obtain xe where xe: "load_pointer sub ifd EXIF_IFD_EXIF o' data = Some xe" "load_inv xe" using ptr by blast
  obtain xg where xg: "load_pointer sub ifd EXIF_IFD_GPS o' data = Some xg" "load_inv xg" using ptr by blast
  obtain xi where xi: "load_pointer sub ifd EXIF_IFD_INTEROPERABILITY o' data = Some xi" "load_inv xi" using ptr by blast
  obtain t1 where t1: "load_thumb al d ds (o', snd tn) data = Some t1" "load_inv (fst t1)" using thumb by blast
  obtain t2 where t2: "load_thumb al d ds (fst tn, o') data = Some t2" "load_inv (fst t2)" using thumb by blast
  obtain xo where xo: "load_other al ifd d ds p t data = Some xo" "load_inv xo" using other by blast
  show ?thesis
    unfolding load_one_def st prod.case g Option.bind.simps Let_def xe(1) xg(1) xi(1) t1(1) t2(1) xo(1) option.map
    using xe(2) xg(2) xi(2) t1(2) t2(2) xo(2) by (cases t1; cases t2) (auto split: if_split)
qed

lemma load_entries_ok:
  assumes "granted al" "sub_ok sub" "unat ds \<le> length d" "unat ds < 2 ^ 16"
  shows "unat p + 12 * n \<le> unat ds \<Longrightarrow> load_inv (fst st) \<Longrightarrow>
    \<exists>st'. load_entries al sub ifd d ds p n st = Some st' \<and> load_inv (fst st')"
proof (induction n arbitrary: p st)
  case (Suc n)
  obtain st1 where st1: "load_one al sub ifd d ds p st = Some st1" "load_inv (fst st1)"
    using load_one_ok [OF assms(1, 2) _ assms(3, 4), of p st ifd] Suc.prems by auto
  have "unat (p + 12) = unat p + 12"
    using Suc.prems(1) assms(4) by (subst no_wrap_small) simp_all
  then show ?case using Suc.IH [of "p + 12" st1] Suc.prems(1) st1 by simp
qed simp

lemma twelve: "unat (12 * ucast (n :: u16) :: u32) = 12 * unat n"
proof -
  have "12 * unat n < 4294967296" using unat_u16_less [of n] by linarith
  then show ?thesis by (subst unat_word_ariths) simp
qed

lemma entries_fit:
  fixes off ds :: u32
  assumes "unat off \<le> unat ds" "unat ds < 2 ^ 16"
  shows "unat off + 12 * unat (if ds < off + 12 * ucast n then ucast ((ds - off) div 12) else (n :: u16)) \<le> unat ds"
proof (cases "ds < off + 12 * ucast n")
  case True
  have "unat (ds - off) = unat ds - unat off" using assms(1) by (simp add: unat_sub word_le_nat_alt)
  then have q: "unat ((ds - off) div 12) = (unat ds - unat off) div 12" by (simp add: unat_div)
  then have "unat (ucast ((ds - off) div 12) :: u16) = (unat ds - unat off) div 12"
    using assms(2) by (simp add: unsigned_ucast_eq take_bit_nat_eq_self_iff)
  then show ?thesis using True assms(1) by simp
next
  case False
  note n = twelve [of n]
  have "unat off < 65536" using assms by simp
  then have less: "unat off + 12 * unat n < 4294967296" using unat_u16_less [of n] by linarith
  have "unat (off + 12 * ucast n) = unat off + 12 * unat n"
    using assms unat_u16_less [of n] less by (subst no_wrap_small) (simp_all add: n)
  then show ?thesis unfolding if_not_P [OF False] using False by (simp add: word_le_nat_alt not_less)
qed

lemma load_content_ok:
  fixes data :: "'m exif_data"
  assumes "granted al" "unat ds \<le> length d" "unat ds < 2 ^ 16"
  shows "load_inv data \<Longrightarrow> \<exists>data'. exif_data_load_data_content al d ds k data ifd offset = Some data' \<and> load_inv data'"
proof (induction k arbitrary: data ifd offset)
  case (Suc k)
  have sub: "sub_ok (exif_data_load_data_content al d ds k :: 'm exif_data \<Rightarrow> _)"
    unfolding sub_ok_def by (intro allI impI) (rule Suc.IH)
  show ?case
  proof (cases "EXIF_IFD_COUNT \<le> ifd \<or> offset + 2 < offset \<or> offset + 2 < 2 \<or> ds < offset + 2")
    case True
    then show ?thesis using Suc.prems by auto
  next
    case False
    then have off: "unat (offset + 2) = unat offset + 2" "unat offset + 2 \<le> unat ds"
      using no_wrap [of offset 2] by (simp_all add: word_le_nat_alt not_less)
    define n where "n = exif_get_short (ed_order data) (drop (unat offset) d)"
    define n' where "n' = (if ds < (offset + 2) + 12 * ucast n then ucast ((ds - (offset + 2)) div 12) else n)"
    have g: "get16 (ed_order data) d (unat offset) = Some n" using off assms(2) by (simp add: n_def)
    have "unat (offset + 2) + 12 * unat n' \<le> unat ds"
      unfolding n'_def using entries_fit [of "offset + 2" ds n] off assms(3) by simp
    then obtain st' where st': "load_entries al (exif_data_load_data_content al d ds k) ifd d ds (offset + 2)
        (unat n') (data, 0, 0) = Some st'" "load_inv (fst st')"
      using load_entries_ok [OF assms(1) sub assms(2, 3), of "offset + 2" "unat n'" "(data, 0, 0)" ifd] Suc.prems by auto
    have "exif_data_load_data_content al d ds (Suc k) data ifd offset = Some (fst st')"
      using False g st'(1) by (cases st') (auto simp: Let_def n'_def)
    then show ?thesis using st'(2) by blast
  qed
qed simp

lemma clear_content_nil: "length c \<le> k \<Longrightarrow> clear_content k al c = []"
proof (induction k arbitrary: c)
  case (Suc k)
  then show ?case
    using length_remove [of al c "length c - 1"] by (auto simp: Let_def)
qed simp

lemma data_fix_content_ok:
  assumes "granted al" "data_ok d" "\<forall>e \<in> set (ed_ifd d ifd). unat (en_size e) < 2 ^ 31"
  shows "\<exists>c. data_fix_content al now ifd d = Some (ifd_upd ifd c d) \<and> content_ok c"
proof (cases "ifd = EXIF_IFD_1 \<and> ed_data d = None")
  case True
  then show ?thesis by (auto simp: data_fix_content_def clear_content_nil content_ok_def)
next
  case False
  then show ?thesis
    using content_fix_ok [OF assms(1) _ assms(3), of now "ed_order d" ifd "ed_data_type d"] assms(2)
    by (auto simp: data_fix_content_def data_ok_def)
qed

lemma foreach_fix_ok:
  assumes "granted al"
  shows "distinct ifds \<Longrightarrow> data_ok d \<Longrightarrow> \<forall>i \<in> set ifds. \<forall>e \<in> set (ed_ifd d i). unat (en_size e) < 2 ^ 31 \<Longrightarrow>
    \<exists>d'. foreach_content (\<lambda>d i. data_fix_content al now i d) d ifds = Some d' \<and> data_ok d'"
proof (induction ifds arbitrary: d)
  case (Cons i ifds)
  obtain c where c: "data_fix_content al now i d = Some (ifd_upd i c d)" "content_ok c"
    using data_fix_content_ok [OF assms, of d i now] Cons.prems by auto
  have "data_ok (ifd_upd i c d)" using c(2) Cons.prems(2) by (simp add: data_ok_def ifd_upd_def)
  moreover have "\<forall>j \<in> set ifds. \<forall>e \<in> set (ed_ifd (ifd_upd i c d) j). unat (en_size e) < 2 ^ 31"
    using Cons.prems(1, 3) by (auto simp: ifd_upd_def)
  ultimately show ?case using Cons.IH [of "ifd_upd i c d"] Cons.prems(1) c(1) by simp
qed simp

lemma data_fix_ok:
  assumes "granted al" "data_ok d" "\<forall>i. \<forall>e \<in> set (ed_ifd d i). unat (en_size e) < 2 ^ 31"
  shows "\<exists>d'. exif_data_fix al now d = Some d' \<and> data_ok d'"
  unfolding exif_data_fix_def exif_data_foreach_content_def
  by (rule foreach_fix_ok [OF assms(1) _ assms(2)]) (use assms(3) in simp_all)

lemma interpret_inv: "load_inv data \<Longrightarrow> load_inv (interpret_maker_note mn data d)"
  by (auto simp: interpret_maker_note_def split: option.split)

lemma load_tiff_ok:
  fixes data :: "'m exif_data"
  assumes "granted al" "load_inv data"
  shows "\<exists>data'. load_tiff al now mn data d = Some data' \<and> data_ok data'"
proof -
  have ok: "data_ok x" if "load_inv x" for x :: "'m exif_data" using that by (simp add: load_inv_def)
  define ds :: u32 where "ds = (if 0xfffe < length d then 0xfffe else of_nat (length d))"
  define mark where "mark = slice 6 2 d"
  define data1 where "data1 = data\<lparr>ed_order :=
      (if mark = [0x49, 0x49] then EXIF_BYTE_ORDER_INTEL else EXIF_BYTE_ORDER_MOTOROLA)\<rparr>"
  have inv1: "load_inv data1" using assms(2) by (simp add: data1_def)
  show ?thesis
  proof (cases "length d < 14 \<or> mark \<noteq> [0x49, 0x49] \<and> mark \<noteq> [0x4d, 0x4d]")
    case True
    then show ?thesis using ok [OF assms(2)] by (auto simp: load_tiff_def mark_def Let_def)
  next
    case False
    then have len: "14 \<le> length d" by simp
    have ds: "14 \<le> unat ds" "unat ds \<le> length d" "unat ds < 2 ^ 16"
      using len unat_of_nat_small [of "length d", where ?'a = 32] by (auto simp: ds_def)
    have ds6: "unat (ds - 6) = unat ds - 6" using ds(1) by (simp add: unat_sub word_le_nat_alt)
    define offset where "offset = exif_get_long (ed_order data1) (drop 10 d)"
    define fixed where "fixed = exif_get_short (ed_order data1) (drop 8 d)"
    define rest where "rest = (\<lambda>data2 :: 'm exif_data. do {
        n \<leftarrow> get16 (ed_order data2) d (6 + unat offset);
        if ds < offset + 6 + 2 + 12 * ucast n + 4 then Some data2
        else do {
          offset1 \<leftarrow> get32 (ed_order data2) d (6 + unat offset + 2 + 12 * unat n);
          data3 \<leftarrow> (if offset1 = 0 \<or> ds < offset1 \<or> ds < offset1 + 6 then Some data2
             else exif_data_load_data_content al (drop 6 d) (ds - 6) 31 data2 EXIF_IFD_1 offset1);
          let data4 = interpret_maker_note mn data3 d;
          if ed_options data4 AND EXIF_DATA_OPTION_FOLLOW_SPECIFICATION \<noteq> 0
          then exif_data_fix al now data4 else Some data4 } })"
    have eq: "load_tiff al now mn data d =
      (if fixed \<noteq> 0x2a then Some data1
       else if ds < offset \<or> ds < offset + 6 + 2 then Some data1
       else Option.bind (exif_data_load_data_content al (drop 6 d) (ds - 6) 31 data1 EXIF_IFD_0 offset) rest)"
    proof -
      have g: "get16 (ed_order data1) d 8 = Some fixed" "get32 (ed_order data1) d 10 = Some offset"
        using len by (simp_all add: fixed_def offset_def)
      have nb: "(length d < 14) = False" "(mark \<noteq> [0x49, 0x49] \<and> mark \<noteq> [0x4d, 0x4d]) = False" using False by blast+
      show ?thesis
        unfolding load_tiff_def Let_def
        unfolding mark_def [symmetric] data1_def [symmetric] ds_def [symmetric] nb if_False g Option.bind.simps
        unfolding rest_def Let_def ..
    qed
    show ?thesis
    proof (cases "fixed \<noteq> 0x2a \<or> ds < offset \<or> ds < offset + 6 + 2")
      case True
      then show ?thesis using ok [OF inv1] by (auto simp: eq)
    next
      case off: False
      have sub: "\<exists>y. exif_data_load_data_content al (drop 6 d) (ds - 6) 31 x ifd o' = Some y \<and> load_inv y"
        if "load_inv x" for x :: "'m exif_data" and ifd o'
        using load_content_ok [OF assms(1) _ _ that, of "ds - 6" "drop 6 d"] ds ds6 by auto
      obtain data2 where d2: "exif_data_load_data_content al (drop 6 d) (ds - 6) 31 data1 EXIF_IFD_0 offset = Some data2"
        "load_inv data2" using sub [OF inv1] by blast
      have ofs: "unat offset + 8 \<le> unat ds"
      proof -
        have "unat offset + unat (8 :: u32) < 2 ^ 32"
          using off ds(3) by (simp add: word_le_nat_alt not_less)
        then have "unat (offset + 8) = unat offset + 8" using no_wrap_small [of offset 8] by simp
        moreover have "offset + 6 + 2 = offset + 8" by simp
        ultimately have "unat (offset + 6 + 2) = unat offset + 8" by (simp only:)
        then show ?thesis using off by (simp add: word_le_nat_alt not_less)
      qed
      define n where "n = exif_get_short (ed_order data2) (drop (6 + unat offset) d)"
      have gn: "get16 (ed_order data2) d (6 + unat offset) = Some n" using ofs ds(2) by (simp add: n_def)
      have r: "\<exists>x. rest data2 = Some x \<and> data_ok x"
      proof (cases "ds < offset + 6 + 2 + 12 * ucast n + 4")
        case True
        then show ?thesis using ok [OF d2(2)] by (simp add: rest_def gn)
      next
        case False
        have "unat (12 * ucast n :: u32) = 12 * unat n" by (rule twelve)
        moreover have "unat offset < 65536" "3 * unat n < 1073741821"
          using ofs ds(3) unat_u16_less [of n] by (simp, linarith)
        moreover from this have "unat offset + 12 * unat n < 4294967284" using unat_u16_less [of n] by linarith
        ultimately have "unat (12 + 12 * ucast n :: u32) = 12 + 12 * unat n"
          using no_wrap_small [of 12 "12 * ucast n"] by simp
        then have "unat (offset + (12 + 12 * ucast n)) = unat offset + (12 + 12 * unat n)"
          using \<open>unat offset + 12 * unat n < 4294967284\<close> by (subst no_wrap_small) simp_all
        moreover have "offset + 6 + 2 + 12 * ucast n + 4 = offset + (12 + 12 * ucast n)" by simp
        ultimately have "\<not> unat ds < unat offset + (12 + 12 * unat n)"
          using False by (simp only: word_less_nat_alt simp_thms)
        then have fit: "unat offset + 12 + 12 * unat n \<le> unat ds" by simp
        define offset1 where "offset1 = exif_get_long (ed_order data2) (drop (6 + unat offset + 2 + 12 * unat n) d)"
        have g1: "get32 (ed_order data2) d (6 + unat offset + 2 + 12 * unat n) = Some offset1"
          using fit ds(2) by (simp add: offset1_def)
        obtain y where y: "exif_data_load_data_content al (drop 6 d) (ds - 6) 31 data2 EXIF_IFD_1 offset1 = Some y"
          "load_inv y" using sub [OF d2(2)] by blast
        define data3 where "data3 = (if offset1 = 0 \<or> ds < offset1 \<or> ds < offset1 + 6 then data2 else y)"
        have d3: "(if offset1 = 0 \<or> ds < offset1 \<or> ds < offset1 + 6 then Some data2
             else exif_data_load_data_content al (drop 6 d) (ds - 6) 31 data2 EXIF_IFD_1 offset1) = Some data3"
          "load_inv data3" using d2(2) y by (simp_all add: data3_def)
        define data4 where "data4 = interpret_maker_note mn data3 d"
        have inv4: "load_inv data4" unfolding data4_def by (rule interpret_inv [OF d3(2)])
        have "\<forall>i. \<forall>e \<in> set (ed_ifd data4 i). unat (en_size e) < 2 ^ 31"
          using inv4 by (fastforce simp: load_inv_def small_entries_def)
        then obtain x where "exif_data_fix al now data4 = Some x" "data_ok x"
          using data_fix_ok [OF assms(1) ok [OF inv4]] by blast
        then show ?thesis
          unfolding rest_def gn Option.bind.simps g1 d3(1) Let_def data4_def [symmetric]
          using False ok [OF inv4] by auto
      qed
      show ?thesis using off r by (simp add: eq d2(1))
    qed
  qed
qed

lemma load_data_ok:
  assumes "granted al" "load_inv data"
  shows "\<exists>data'. exif_data_load_data al now mn data d = Some data' \<and> data_ok data'"
proof -
  have "data_ok data" using assms(2) by (simp add: load_inv_def)
  then show ?thesis
    using load_tiff_ok [OF assms] by (auto simp: exif_data_load_data_def split: option.split)
qed

subsection \<open>A refused allocation\<close>

text \<open>
  An entry whose block could not be allocated is added to its directory all the same, with a null
  pointer and a nonzero number of components; the correction then reads through the pointer.
\<close>

definition orientation_file :: "u8 list" where
  "orientation_file = ExifHeader @
     [0x49, 0x49, 0x2a, 0, 8, 0, 0, 0,
      1, 0, 0x12, 0x01, 4, 0, 2, 0, 0, 0, 26, 0, 0, 0,
      0, 0, 0, 0, 1, 0, 0, 0, 1, 0, 0, 0]"

lemma orientation_known: "exif_tag_get_name_in_ifd 0x0112 EXIF_IFD_0 = Some ''Orientation''"
proof -
  have f: "filter (\<lambda>e. te_tag e = 0x0112) ExifTagTable =
      [tag_row (0x0112, ''Orientation'', [ESL_OOOO, ESL_OOOO, ESL_NNNN, ESL_NNNN, ESL_NNNN])]"
    by (simp add: ExifTagTable_def tag_rows_def tag_row_def)
  show ?thesis
    unfolding tag_lookup(1) find_filter [symmetric] f
    by (simp add: RECORDED_def te_level_def tag_row_def esl_defs)
qed

lemmas read_file = get16_def get32_def orientation_file_def ExifHeader_def exif_get_sshort_def exif_get_slong_def

lemma short_loop_null: "0 < n \<Longrightarrow> 0 < exif_format_get_size f \<Longrightarrow> short_loop order f [] 0 n new = None"
  by (cases n) simp_all

text \<open>When the request for the block of an entry is refused, loading a well-formed file dereferences
  a null pointer: the entry is kept with its number of components and without data.
\<close>

lemma load_null_block:
  assumes "al 4" "\<not> al 8"
  shows "exif_data_load_data al now mn (exif_data_new :: 'm exif_data) orientation_file = None"
proof -
  let ?d = "drop 6 orientation_file"
  let ?new = "exif_data_new :: 'm exif_data"
  define data where "data = ?new\<lparr>ed_order := EXIF_BYTE_ORDER_INTEL\<rparr>"
  define e where "e = exif_entry_new\<lparr>en_tag := 0x0112, en_format := 4, en_components := 2\<rparr>"
  define data2 where "data2 = ifd_upd EXIF_IFD_0 [e] data"
  note new = exif_data_new_def exif_data_set_option_def exif_data_set_data_type_def data_def
  have dat: "ed_order data = EXIF_BYTE_ORDER_INTEL" "ed_ifd data i = []" "ed_options data = 3"
    "ed_data_type data = EXIF_DATA_TYPE_COUNT" for i
    by (simp_all add: new)
  have entry: "exif_data_load_data_entry al data ?d 34 10 = Some (data, Some e)"
    using assms
    by (simp add: exif_data_load_data_entry_def read_file Let_def fsize_def exif_data_alloc_def exif_mem_alloc_def
        e_def dat)
  have other: "load_other al EXIF_IFD_0 ?d 34 10 0x0112 data = Some data2"
    using assms orientation_known
    by (simp add: load_other_def entry exif_content_add_entry_def exif_content_get_entry_def dat data2_def)
  have tag: "get16 EXIF_BYTE_ORDER_INTEL ?d 10 = Some 0x0112" by (simp add: read_file)
  have one: "load_one al sub EXIF_IFD_0 ?d 34 10 (data, 0, 0) = Some (data2, 0, 0)" for sub
    by (simp add: load_one_def dat tag other Let_def)
  have n: "get16 EXIF_BYTE_ORDER_INTEL ?d 8 = Some 1" by (simp add: read_file)
  have content: "exif_data_load_data_content al ?d 34 (Suc k) data EXIF_IFD_0 8 = Some data2" for k
    by (simp add: dat n one Let_def)
  have deref: "exif_entry_fix al EXIF_BYTE_ORDER_INTEL e = None"
    using assms by (simp add: exif_entry_fix_def e_def fix_short_tags_def exif_entry_alloc_def exif_mem_alloc_def
        exif_entry_new_def en_block_def short_loop_null Let_def)
  have deref_fix: "exif_data_fix al now (interpret_maker_note mn data2 orientation_file) = None"
    using deref
    by (simp add: exif_data_fix_def exif_data_foreach_content_def data_fix_content_def exif_content_fix_def
        interpret_maker_note_def exif_data_get_entry_def exif_content_get_entry_def data2_def ifd_upd_def dat
        e_def exif_entry_new_def)
  have "slice 6 2 orientation_file = [0x49, 0x49]" "length orientation_file = 40" "take 6 orientation_file = ExifHeader"
    by (simp_all add: orientation_file_def ExifHeader_def slice_def)
  moreover have "get16 EXIF_BYTE_ORDER_INTEL orientation_file 8 = Some 0x2a"
    "get32 EXIF_BYTE_ORDER_INTEL orientation_file 10 = Some 8"
    "get16 EXIF_BYTE_ORDER_INTEL orientation_file 14 = Some 1"
    "get32 EXIF_BYTE_ORDER_INTEL orientation_file 28 = Some 0"
    by (simp_all add: read_file)
  moreover have "ed_order data2 = EXIF_BYTE_ORDER_INTEL"
    "ed_options (interpret_maker_note mn data2 orientation_file) = 3"
    by (auto simp: data2_def ifd_upd_def dat interpret_maker_note_def split: option.split)
  ultimately have "load_tiff al now mn ?new orientation_file = None"
    using content [of 30] deref_fix dat(1) by (simp add: load_tiff_def data_def [symmetric] Let_def)
  then show ?thesis
    by (simp add: exif_data_load_data_def \<open>take 6 orientation_file = ExifHeader\<close> \<open>length orientation_file = 40\<close>)
qed



lemma entry_order_back:
  assumes "entry_ok e"
  shows "entry_set_byte_order o2 o1 (entry_set_byte_order o1 o2 e) = e" "entry_ok (entry_set_byte_order o1 o2 e)"
proof -
  have fits: "unat (en_components e) * exif_format_get_size (en_format e) \<le> length b" if "en_data e = Some b" for b
    using assms that by (simp add: entry_ok_def en_block_def mult.commute)
  show "entry_set_byte_order o2 o1 (entry_set_byte_order o1 o2 e) = e"
    using exif_array_byte_order_roundtrip [OF fits] by (cases "en_data e") (simp_all add: entry_set_byte_order_def)
  show "entry_ok (entry_set_byte_order o1 o2 e)"
    using assms exif_array_byte_order_roundtrip [OF fits]
    by (cases "en_data e") (simp_all add: entry_set_byte_order_def entry_ok_def en_block_def)
qed

lemma entry_order_tag [simp]: "en_tag (entry_set_byte_order o1 o2 e) = en_tag e"
  by (simp add: entry_set_byte_order_def)

lemma content_order_back:
  assumes "content_ok c"
  shows "map (entry_set_byte_order o2 o1) (map (entry_set_byte_order o1 o2) c) = c"
    "content_ok (map (entry_set_byte_order o1 o2) c)"
proof -
  show "map (entry_set_byte_order o2 o1) (map (entry_set_byte_order o1 o2) c) = c"
    using assms entry_order_back(1) by (auto simp: content_ok_def intro!: map_idI)
  show "content_ok (map (entry_set_byte_order o1 o2) c)"
    using assms entry_order_back(2) by (auto simp: content_ok_def comp_def)
qed

text \<open>Changing the byte order of a whole data object converts every array of every directory in place,
  keeps the invariant, and changing it back restores the object.
\<close>

lemma data_order_back:
  assumes "data_ok data" "\<And>m. ed_md data = Some m \<Longrightarrow> mo (mo m order) (ed_order data) = m"
  shows "data_ok (exif_data_set_byte_order mo data order) \<and>
    exif_data_set_byte_order mo (exif_data_set_byte_order mo data order) (ed_order data) = data"
proof (cases "order = ed_order data")
  case True
  then show ?thesis using assms(1) by (simp add: exif_data_set_byte_order_def)
next
  case False
  have c: "content_ok (ed_ifd data ifd)" for ifd using assms(1) by (simp add: data_ok_def)
  have md: "map_option (\<lambda>m. mo m (ed_order data)) (map_option (\<lambda>m. mo m order) (ed_md data)) = ed_md data"
    using assms(2) by (cases "ed_md data") simp_all
  have ifd: "(\<lambda>ifd. map (entry_set_byte_order order (ed_order data))
      (map (entry_set_byte_order (ed_order data) order) (ed_ifd data ifd))) = ed_ifd data"
    by (rule ext) (rule content_order_back(1) [OF c])
  have "exif_data_set_byte_order mo (exif_data_set_byte_order mo data order) (ed_order data) = data"
    using False md ifd by (simp add: exif_data_set_byte_order_def del: map_map)
  moreover have "data_ok (exif_data_set_byte_order mo data order)"
    using False assms(1) content_order_back(2) [OF c] by (simp add: exif_data_set_byte_order_def data_ok_def)
  ultimately show ?thesis by blast
qed

definition oriented :: "u8 exif_data" where
  "oriented = ifd_upd EXIF_IFD_0 [long_orientation] exif_data_new"

end
