(* ===== verification/JpegData.thy ===== *)
theory JpegData
  imports NetPrelude
begin

text \<open>
  The JPEG container \<open>jpeg-data.c\<close> and its marker table \<open>jpeg-marker.c\<close> of
  \<open>vendor/samsung/common/frameworks/seccamera/external/libjpega\<close>: the list of sections of a file,
  reading it from a block of bytes, writing it back (into a block of its own, or into the caller's),
  and replacing the EXIF section. The EXIF objects are of a type \<open>'e\<close>; the EXIF library the file is
  linked with is a parameter: \<open>load\<close> for \<open>exif_data_load_data\<close> on a new object, \<open>save\<close> for
  \<open>exif_data_save_data\<close>. Blocks are shorter than \<open>2 ^ 32\<close>, memory is granted. \<open>None\<close> is an undefined
  access.
\<close>

subsection \<open>Data\<close>

text \<open>The union of the code, with the zero content of a new section.\<close>

datatype 'e jpeg_content = Content_zero | Content_app1 'e | Content_generic "u8 list"

record 'e jpeg_section =
  js_marker :: u8
  js_content :: "'e jpeg_content"

record 'e jpeg_data =
  jd_sections :: "'e jpeg_section list"
  jd_data :: "u8 list"
  jd_ref_count :: nat

definition jpeg_data_new :: "'e jpeg_data" where
  "jpeg_data_new = \<lparr>jd_sections = [], jd_data = [], jd_ref_count = 1\<rparr>"

definition jpeg_data_append_section :: "'e jpeg_data \<Rightarrow> 'e jpeg_data" where
  "jpeg_data_append_section jd = jd\<lparr>jd_sections := jd_sections jd @ [\<lparr>js_marker = 0, js_content = Content_zero\<rparr>]\<rparr>"

text \<open>The last section, through the pointer \<open>s\<close> of the code.\<close>

definition with_last :: "('e jpeg_section \<Rightarrow> 'e jpeg_section) \<Rightarrow> 'e jpeg_data \<Rightarrow> 'e jpeg_data" where
  "with_last f jd = jd\<lparr>jd_sections := butlast (jd_sections jd) @ [f (last (jd_sections jd))]\<rparr>"

definition JPEG_IS_MARKER :: "u8 \<Rightarrow> bool" where
  "JPEG_IS_MARKER m \<longleftrightarrow> 0xc0 \<le> m \<and> m \<le> 0xfe"

subsection \<open>Reading\<close>

text \<open>How many of the next bytes are \<open>0xff\<close>, at most \<open>n\<close>.\<close>

fun ff_run :: "nat \<Rightarrow> u8 list \<Rightarrow> nat" where
  "ff_run 0 xs = 0"
| "ff_run (Suc n) [] = 0"
| "ff_run (Suc n) (x # xs) = (if x = 0xff then Suc (ff_run n xs) else 0)"

text \<open>The length field of a section, less the two bytes it takes itself.\<close>

definition section_len :: "u8 \<Rightarrow> u8 \<Rightarrow> u32" where
  "section_len hi lo = (push_bit 8 (ucast hi) OR ucast lo) - 2"

text \<open>How many bytes of image data follow a start-of-scan header, given the rest of the file: all but
  a closing marker.\<close>

definition scan_size :: "u8 list \<Rightarrow> nat" where
  "scan_size r =
     (if length r \<ge> 2 then if r ! (length r - 2) \<noteq> 0xff then length r else length r - 2
      else length r)"

function load_loop :: "(u8 list \<Rightarrow> 'e) \<Rightarrow> u8 list \<Rightarrow> nat \<Rightarrow> 'e jpeg_data \<Rightarrow> 'e jpeg_data option" where
  "load_loop load d p jd =
     (if length d \<le> p then Some jd
      else
        let i = ff_run 7 (drop p d) in
        if length d - p \<le> i \<or> \<not> JPEG_IS_MARKER (d ! (p + i)) then Some jd
        else
          let marker = d ! (p + i);
              jd = with_last (\<lambda>s. s\<lparr>js_marker := marker\<rparr>) (jpeg_data_append_section jd);
              p = p + i + 1
          in
          if marker = 0xd8 \<or> marker = 0xd9 then load_loop load d p jd
          else if length d - p < 2 then Some jd
          else
            let len = section_len (d ! p) (d ! (p + 1)) in
            if unat len > length d then Some jd
            else if unat len > length d - (p + 2) then Some jd
            else
              let p = p + 2 in
              if marker = 0xe1 then
                if p < 4 then None
                else load_loop load d (p + unat len)
                  (with_last (\<lambda>s. s\<lparr>js_content := Content_app1 (load (slice (p - 4) (unat len + 4) d))\<rparr>) jd)
              else
                let jd = with_last (\<lambda>s. s\<lparr>js_content := Content_generic (slice p (unat len) d)\<rparr>) jd in
                if marker = 0xda then
                  let n = scan_size (drop (p + unat len) d) in
                  load_loop load d (p + n + unat len) (jd\<lparr>jd_data := slice (p + unat len) n d\<rparr>)
                else load_loop load d (p + unat len) jd)"
  by pat_completeness auto
termination
  by (relation "measure (\<lambda>(load, d, p, jd). length d - p)") auto

declare load_loop.simps [simp del]

definition jpeg_data_load_data :: "(u8 list \<Rightarrow> 'e) \<Rightarrow> 'e jpeg_data \<Rightarrow> u8 list \<Rightarrow> 'e jpeg_data option" where
  "jpeg_data_load_data load jd d = load_loop load d 0 jd"

definition jpeg_data_new_from_data :: "(u8 list \<Rightarrow> 'e) \<Rightarrow> u8 list \<Rightarrow> 'e jpeg_data option" where
  "jpeg_data_new_from_data load d = jpeg_data_load_data load jpeg_data_new d"

text \<open>
  \<open>file\<close> is what \<open>fopen\<close> and \<open>ftell\<close> find, and \<open>got\<close> how many bytes \<open>fread\<close> returns.
\<close>

definition jpeg_data_load_file :: "(u8 list \<Rightarrow> 'e) \<Rightarrow> 'e jpeg_data \<Rightarrow> u8 list option \<Rightarrow> nat \<Rightarrow> 'e jpeg_data option" where
  "jpeg_data_load_file load jd file got =
     (case file of
        None \<Rightarrow> Some jd
      | Some contents \<Rightarrow> if got \<noteq> length contents then Some jd else jpeg_data_load_data load jd contents)"

definition jpeg_data_new_from_file :: "(u8 list \<Rightarrow> 'e) \<Rightarrow> u8 list option \<Rightarrow> nat \<Rightarrow> 'e jpeg_data option" where
  "jpeg_data_new_from_file load file got = jpeg_data_load_file load jpeg_data_new file got"

subsection \<open>Writing\<close>

text \<open>The two bytes of the length field of a section with \<open>n\<close> bytes of content.\<close>

definition len_bytes :: "nat \<Rightarrow> u8 list" where
  "len_bytes n = [ucast (drop_bit 8 (of_nat (n + 2) :: u32)), ucast (of_nat (n + 2) :: u32)]"

text \<open>
  \<open>stale\<close> says that the local pointer \<open>ed\<close> still has the block of an earlier APP1 section, which has
  been freed: \<open>exif_data_save_data\<close> leaves the pointer alone when its object is \<open>NULL\<close>.
\<close>

fun save_sections :: "('e \<Rightarrow> u8 list) \<Rightarrow> u8 list \<Rightarrow> 'e jpeg_section list \<Rightarrow> bool \<Rightarrow> u8 list \<Rightarrow> u8 list option" where
  "save_sections save scan [] stale out = Some out"
| "save_sections save scan (s # ss) stale out =
     (let out = out @ [0xff, js_marker s] in
      if js_marker s = 0xd8 \<or> js_marker s = 0xd9 then save_sections save scan ss stale out
      else if js_marker s = 0xe1 then
        case js_content s of
          Content_app1 e \<Rightarrow> save_sections save scan ss True (out @ len_bytes (length (save e)) @ save e)
        | Content_zero \<Rightarrow> if stale then None else save_sections save scan ss stale out
        | Content_generic _ \<Rightarrow> None
      else
        case (case js_content s of Content_generic b \<Rightarrow> Some b | Content_zero \<Rightarrow> Some [] | Content_app1 _ \<Rightarrow> None) of
          None \<Rightarrow> None
        | Some b \<Rightarrow>
            let out = out @ len_bytes (length b) @ b
            in save_sections save scan ss stale (if js_marker s = 0xda then out @ scan else out))"

definition jpeg_data_save_data :: "('e \<Rightarrow> u8 list) \<Rightarrow> 'e jpeg_data \<Rightarrow> u8 list option" where
  "jpeg_data_save_data save jd = save_sections save (jd_data jd) (jd_sections jd) False []"

text \<open>A store of bytes into the caller's block.\<close>

definition store_bytes :: "nat \<Rightarrow> u8 list \<Rightarrow> u8 list \<Rightarrow> u8 list option" where
  "store_bytes p ys d = (if p + length ys \<le> length d then Some (write_at p ys d) else None)"

fun save_no_copy :: "('e \<Rightarrow> u8 list) \<Rightarrow> u8 list \<Rightarrow> 'e jpeg_section list \<Rightarrow> bool \<Rightarrow> u8 list \<Rightarrow> nat \<Rightarrow> (u8 list \<times> nat) option" where
  "save_no_copy save scan [] stale d ds = Some (d, ds)"
| "save_no_copy save scan (s # ss) stale d ds =
     Option.bind (store_bytes ds [0xff, js_marker s] d) (\<lambda>d.
      let ds = ds + 2 in
      if js_marker s = 0xd8 \<or> js_marker s = 0xd9 then save_no_copy save scan ss stale d ds
      else if js_marker s = 0xe1 then
        case js_content s of
          Content_app1 e \<Rightarrow>
            Option.bind (store_bytes ds (len_bytes (length (save e))) d) (\<lambda>d.
              let ds = ds + 2 in
              Option.bind (store_bytes ds (save e) d) (\<lambda>d. save_no_copy save scan ss True d (ds + length (save e))))
        | Content_zero \<Rightarrow> if stale then None else save_no_copy save scan ss stale d ds
        | Content_generic _ \<Rightarrow> None
      else
        case (case js_content s of Content_generic b \<Rightarrow> Some b | Content_zero \<Rightarrow> Some [] | Content_app1 _ \<Rightarrow> None) of
          None \<Rightarrow> None
        | Some b \<Rightarrow>
            Option.bind (store_bytes ds (len_bytes (length b)) d) (\<lambda>d.
              let ds = ds + 2 in
              Option.bind (store_bytes ds b d) (\<lambda>d.
                let ds = ds + length b in
                if js_marker s = 0xda then
                  Option.bind (store_bytes ds scan d) (\<lambda>d. save_no_copy save scan ss stale d (ds + length scan))
                else save_no_copy save scan ss stale d ds)))"

definition jpeg_data_save_data_no_copy :: "('e \<Rightarrow> u8 list) \<Rightarrow> 'e jpeg_data \<Rightarrow> u8 list \<Rightarrow> (u8 list \<times> nat) option" where
  "jpeg_data_save_data_no_copy save jd d = save_no_copy save (jd_data jd) (jd_sections jd) False d 0"

text \<open>
  The result of \<open>jpeg_data_save_file\<close> and the file at the path afterwards (\<open>old\<close> before): \<open>opened\<close> is
  the success of \<open>fopen\<close>, \<open>written\<close> the answer of \<open>fwrite\<close>.
\<close>

definition jpeg_data_save_file ::
  "('e \<Rightarrow> u8 list) \<Rightarrow> 'e jpeg_data \<Rightarrow> u8 list option \<Rightarrow> bool \<Rightarrow> nat \<Rightarrow> (int \<times> u8 list option) option" where
  "jpeg_data_save_file save jd old opened written =
     map_option (\<lambda>d.
       if jd_sections jd = [] then (0, old)
       else if \<not> opened then (0, None)
       else if written = length d then (1, Some d)
       else (0, None)) (jpeg_data_save_data save jd)"

subsection \<open>The EXIF section\<close>

fun get_section :: "'e jpeg_section list \<Rightarrow> u8 \<Rightarrow> nat \<Rightarrow> nat option" where
  "get_section [] marker i = None"
| "get_section (s # ss) marker i = (if js_marker s = marker then Some i else get_section ss marker (i + 1))"

definition jpeg_data_get_section :: "'e jpeg_data \<Rightarrow> u8 \<Rightarrow> nat option" where
  "jpeg_data_get_section jd marker = get_section (jd_sections jd) marker 0"

text \<open>\<open>None\<close> is the \<open>NULL\<close> of the code, for a missing section and for an empty one.\<close>

definition jpeg_data_get_exif_data :: "'e jpeg_data \<Rightarrow> 'e option" where
  "jpeg_data_get_exif_data jd =
     (case jpeg_data_get_section jd 0xe1 of
        None \<Rightarrow> None
      | Some i \<Rightarrow> (case js_content (jd_sections jd ! i) of Content_app1 e \<Rightarrow> Some e | _ \<Rightarrow> None))"

definition jpeg_data_set_exif_data :: "'e jpeg_data \<Rightarrow> 'e \<Rightarrow> 'e jpeg_data" where
  "jpeg_data_set_exif_data jd e =
     (let app1 = \<lparr>js_marker = 0xe1, js_content = Content_app1 e\<rparr> in
      case jpeg_data_get_section jd 0xe1 of
        None \<Rightarrow>
          let jd = jpeg_data_append_section jd in
          if length (jd_sections jd) < 2 then jd
          else
            let ss = jd_sections jd;
                ss = write_at 2 (slice 1 (length ss - 2) ss) ss
            in jd\<lparr>jd_sections := ss[1 := app1]\<rparr>
      | Some i \<Rightarrow> jd\<lparr>jd_sections := (jd_sections jd)[i := app1]\<rparr>)"

subsection \<open>Reference counting\<close>

definition jpeg_data_ref :: "'e jpeg_data \<Rightarrow> 'e jpeg_data" where
  "jpeg_data_ref jd = jd\<lparr>jd_ref_count := jd_ref_count jd + 1\<rparr>"

text \<open>The EXIF objects and blocks released by \<open>jpeg_data_free\<close>.\<close>

definition section_free :: "'e jpeg_section \<Rightarrow> 'e list" where
  "section_free s =
     (if js_marker s = 0xe1 then case js_content s of Content_app1 e \<Rightarrow> [e] | _ \<Rightarrow> [] else [])"

definition jpeg_data_free :: "'e jpeg_data \<Rightarrow> 'e list" where
  "jpeg_data_free jd = concat (map section_free (jd_sections jd))"

text \<open>What is left of the object, and the EXIF objects unreferenced.\<close>

definition jpeg_data_unref :: "'e jpeg_data \<Rightarrow> 'e jpeg_data option \<times> 'e list" where
  "jpeg_data_unref jd =
     (let jd = jd\<lparr>jd_ref_count := jd_ref_count jd - 1\<rparr>
      in if jd_ref_count jd = 0 then (None, jpeg_data_free jd) else (Some jd, []))"

subsection \<open>Both ways of writing\<close>

text \<open>The pieces a section is written in; \<open>None\<close> where the code is undefined.\<close>

definition sect_chunks :: "('e \<Rightarrow> u8 list) \<Rightarrow> u8 list \<Rightarrow> bool \<Rightarrow> 'e jpeg_section \<Rightarrow> (u8 list list \<times> bool) option" where
  "sect_chunks save scan stale s =
     (let m = [0xff, js_marker s] in
      if js_marker s = 0xd8 \<or> js_marker s = 0xd9 then Some ([m], stale)
      else if js_marker s = 0xe1 then
        case js_content s of
          Content_app1 e \<Rightarrow> Some ([m, len_bytes (length (save e)), save e], True)
        | Content_zero \<Rightarrow> if stale then None else Some ([m], stale)
        | Content_generic _ \<Rightarrow> None
      else
        case js_content s of
          Content_app1 _ \<Rightarrow> None
        | Content_zero \<Rightarrow> Some ([m, len_bytes 0, []] @ (if js_marker s = 0xda then [scan] else []), stale)
        | Content_generic b \<Rightarrow> Some ([m, len_bytes (length b), b] @ (if js_marker s = 0xda then [scan] else []), stale))"

fun put_all :: "u8 list list \<Rightarrow> u8 list \<Rightarrow> nat \<Rightarrow> (u8 list \<times> nat) option" where
  "put_all [] d ds = Some (d, ds)"
| "put_all (c # cs) d ds = Option.bind (store_bytes ds c d) (\<lambda>d. put_all cs d (ds + length c))"

lemma save_step:
  "save_sections save scan (s # ss) stale out =
    Option.bind (sect_chunks save scan stale s) (\<lambda>(cs, st). save_sections save scan ss st (out @ concat cs))"
  by (auto simp: sect_chunks_def Let_def split: jpeg_content.split)

lemma length_len_bytes [simp]: "length (len_bytes n) = 2"
  by (simp add: len_bytes_def)

lemma no_copy_step:
  "save_no_copy save scan (s # ss) stale d ds =
    Option.bind (sect_chunks save scan stale s) (\<lambda>(cs, st).
      Option.bind (put_all cs d ds) (\<lambda>(d, ds). save_no_copy save scan ss st d ds))"
  by (cases "js_content s") (auto simp: sect_chunks_def Let_def split: Option.bind_splits)

lemma put_all_out:
  "length out \<le> length d0 \<Longrightarrow> put_all cs (write_at 0 out d0) (length out) =
    (if length (out @ concat cs) \<le> length d0 then Some (write_at 0 (out @ concat cs) d0, length (out @ concat cs)) else None)"
proof (induction cs arbitrary: out)
  case (Cons c cs)
  show ?case
    using Cons.IH [of "out @ c"] Cons.prems write_at_append [of 0 out d0 c] by (auto simp: store_bytes_def)
qed simp

lemma save_sections_out:
  "save_sections save scan ss stale (out @ r) = map_option (\<lambda>r. out @ r) (save_sections save scan ss stale r)"
proof (induction ss arbitrary: stale r)
  case (Cons s ss)
  show ?case by (simp only: save_step append_assoc) (auto simp: Cons split: Option.bind_splits)
qed simp

lemma save_sections_longer:
  "save_sections save scan ss stale out = Some r \<Longrightarrow> length out \<le> length r"
  using save_sections_out [of save scan ss stale out "[]"] by (cases "save_sections save scan ss stale []") auto

definition fitted :: "u8 list \<Rightarrow> u8 list option \<Rightarrow> (u8 list \<times> nat) option" where
  "fitted d0 r = (case r of None \<Rightarrow> None | Some out \<Rightarrow> if length out \<le> length d0 then Some (write_at 0 out d0, length out) else None)"

lemma save_no_copy_fitted:
  "length out \<le> length d0 \<Longrightarrow>
    save_no_copy save scan ss stale (write_at 0 out d0) (length out) = fitted d0 (save_sections save scan ss stale out)"
proof (induction ss arbitrary: stale out)
  case (Cons s ss)
  show ?case
  proof (cases "sect_chunks save scan stale s")
    case (Some c)
    obtain cs st where c: "c = (cs, st)" by (metis surj_pair)
    have l: "fitted d0 (save_sections save scan ss st (out @ concat cs)) = None" if "length d0 < length (out @ concat cs)"
      using that save_sections_longer [of save scan ss st "out @ concat cs"] by (auto simp: fitted_def split: option.split)
    show ?thesis
      using Cons.IH [of "out @ concat cs" st] l Cons.prems
      by (auto simp del: save_sections.simps save_no_copy.simps simp: save_step no_copy_step Some c put_all_out)
  qed (simp add: save_step no_copy_step fitted_def del: save_sections.simps save_no_copy.simps)
qed (simp add: fitted_def)

subsection \<open>Reading back\<close>

text \<open>A section as it stands in a file, with what the EXIF library must give back for it.\<close>

definition js_ok :: "(u8 list \<Rightarrow> 'e) \<Rightarrow> ('e \<Rightarrow> u8 list) \<Rightarrow> 'e jpeg_section \<Rightarrow> bool" where
  "js_ok load save s \<longleftrightarrow> JPEG_IS_MARKER (js_marker s) \<and>
     (if js_marker s = 0xd8 \<or> js_marker s = 0xd9 then js_content s = Content_zero
      else if js_marker s = 0xe1 then
        case js_content s of
          Content_app1 e \<Rightarrow> length (save e) \<le> 65533 \<and> load ([0xff, 0xe1] @ len_bytes (length (save e)) @ save e) = e
        | _ \<Rightarrow> False
      else case js_content s of Content_generic b \<Rightarrow> length b \<le> 65533 | _ \<Rightarrow> False)"

definition sect_bytes :: "('e \<Rightarrow> u8 list) \<Rightarrow> 'e jpeg_section \<Rightarrow> u8 list" where
  "sect_bytes save s = [0xff, js_marker s] @
     (case js_content s of
        Content_zero \<Rightarrow> []
      | Content_app1 e \<Rightarrow> len_bytes (length (save e)) @ save e
      | Content_generic b \<Rightarrow> len_bytes (length b) @ b)"

lemma join16:
  "push_bit 8 (ucast (ucast (drop_bit 8 (x :: u32)) :: u8)) OR ucast (ucast x :: u8) = (take_bit 16 x :: u32)"
proof (rule bit_word_eqI)
  fix n
  show "bit (push_bit 8 (ucast (ucast (drop_bit 8 x) :: u8)) OR ucast (ucast x :: u8) :: u32) n \<longleftrightarrow> bit (take_bit 16 x :: u32) n"
    by (cases "n < 8") (auto simp: bit_simps)
qed

lemma section_len_bytes:
  assumes "n \<le> 65533" "len_bytes n = [hi, lo]"
  shows "section_len hi lo = of_nat n" "unat (section_len hi lo) = n"
proof -
  have "take_bit 16 (of_nat (n + 2) :: u32) = of_nat (take_bit 16 (n + 2))"
    by (simp only: of_nat_take_bit)
  also have "\<dots> = of_nat (n + 2)" using assms(1) take_bit_nat_eq_self [of "n + 2" 16] by simp
  finally show e: "section_len hi lo = of_nat n"
    using assms(2) by (simp only: len_bytes_def list.inject section_len_def) (auto simp: join16)
  show "unat (section_len hi lo) = n"
    unfolding e using assms(1) by (intro unat_of_nat_small) simp
qed

lemma len_bytes_pair: "len_bytes n = [len_bytes n ! 0, len_bytes n ! 1]"
  by (simp add: len_bytes_def)

lemma with_last_append [simp]:
  "with_last f (jpeg_data_append_section jd) = jd\<lparr>jd_sections := jd_sections jd @ [f \<lparr>js_marker = 0, js_content = Content_zero\<rparr>]\<rparr>"
  "with_last f (jd\<lparr>jd_sections := ss @ [s]\<rparr>) = jd\<lparr>jd_sections := ss @ [f s]\<rparr>"
  by (simp_all add: with_last_def jpeg_data_append_section_def)

lemma ff_one: "m \<noteq> 0xff \<Longrightarrow> ff_run 7 (0xff # m # r) = 1"
  by (simp add: numeral_eq_Suc)

lemma marker_not_ff: "JPEG_IS_MARKER m \<Longrightarrow> m \<noteq> 0xff"
  by (auto simp: JPEG_IS_MARKER_def)

text \<open>One round of the reader at a section that starts with one \<open>0xff\<close>.\<close>

lemma load_round:
  assumes "JPEG_IS_MARKER m"
  shows "load_loop load (l @ [0xff, m] @ r) (length l) jd =
    (let d = l @ [0xff, m] @ r; p = length l + 2;
         jd = jd\<lparr>jd_sections := jd_sections jd @ [\<lparr>js_marker = m, js_content = Content_zero\<rparr>]\<rparr>
     in if m = 0xd8 \<or> m = 0xd9 then load_loop load d p jd
        else if length r < 2 then Some jd
        else
          let len = unat (section_len (r ! 0) (r ! 1)) in
          if len > length d \<or> len > length r - 2 then Some jd
          else
            let p = p + 2 in
            if m = 0xe1 then
              load_loop load d (p + len) (with_last (\<lambda>s. s\<lparr>js_content := Content_app1 (load (slice (length l) (len + 4) d))\<rparr>) jd)
            else
              let jd = with_last (\<lambda>s. s\<lparr>js_content := Content_generic (slice 2 len r)\<rparr>) jd in
              if m = 0xda then
                let n = scan_size (drop (2 + len) r) in
                load_loop load d (p + n + len) (jd\<lparr>jd_data := slice (2 + len) n r\<rparr>)
              else load_loop load d (p + len) jd)"
proof -
  define d where "d = l @ [0xff, m] @ r"
  define q where "q = length l + 2"
  have len: "length d = q + length r" by (simp add: d_def q_def)
  have f: "ff_run 7 (drop (length l) d) = 1" using ff_one marker_not_ff [OF assms] by (simp add: d_def)
  have e: "d ! (length l + 1) = m" by (simp add: d_def nth_append)
  have a: "length l + 1 + 1 = q" "q + 2 - 4 = length l" "\<not> q + 2 < 4" "\<not> length d \<le> length l" "\<not> length d - length l \<le> 1"
    "length d - q = length r" "length d - (q + 2) = length r - 2"
    by (simp_all add: len q_def)
  have d2: "d = (l @ [0xff, m]) @ r" and q2: "length (l @ [0xff, m]) = q" by (simp_all add: d_def q_def)
  have "drop (q + j) d = drop j r" for j unfolding d2 drop_append q2 using q2 by simp
  then have dj: "drop (q + j) d = drop j r" "slice (q + j) n d = slice j n r" for j n by (simp_all add: slice_def)
  have sl: "slice (q + 2) n d = slice 2 n r" "slice (q + 2 + k) n d = slice (2 + k) n r" "drop (q + 2 + k) d = drop (2 + k) r" for n k
    using dj [of 2] dj [of "2 + k"] by (simp_all only: add.assoc)
  have n0: "d ! q = r ! 0" "d ! (q + 1) = r ! 1" by (simp_all add: d_def q_def nth_append)
  show ?thesis
    unfolding d_def [symmetric] q_def [symmetric]
    by (subst load_loop.simps)
      (simp only: Let_def f e a sl n0 assms if_False if_True not_True_eq_False simp_thms with_last_append jpeg_section.simps, auto)
qed

lemma take_len_bytes:
  "len_bytes n @ b @ r = len_bytes n ! 0 # len_bytes n ! 1 # b @ r"
  by (simp add: len_bytes_def)

lemma slice_body: "slice 2 (length b) (len_bytes n @ b @ r) = b" "drop (2 + length b) (len_bytes n @ b @ r) = r"
  by (simp_all add: slice_def)

lemma load_generic:
  assumes m: "JPEG_IS_MARKER m" "m \<noteq> 0xd8" "m \<noteq> 0xd9" "m \<noteq> 0xe1" and b: "length b \<le> 65533"
  shows "load_loop load (l @ [0xff, m] @ len_bytes (length b) @ b @ r) (length l) jd =
    (let d = l @ [0xff, m] @ len_bytes (length b) @ b @ r;
         p = length l + 4 + length b;
         n = scan_size r;
         jd = jd\<lparr>jd_sections := jd_sections jd @ [\<lparr>js_marker = m, js_content = Content_generic b\<rparr>]\<rparr>
     in if m = 0xda then load_loop load d (p + n) (jd\<lparr>jd_data := take n r\<rparr>) else load_loop load d p jd)"
proof -
  let ?r = "len_bytes (length b) @ b @ r"
  have u: "unat (section_len (?r ! 0) (?r ! 1)) = length b"
    using section_len_bytes(2) [OF b len_bytes_pair] by (simp add: nth_append)
  have sl: "slice (2 + length b) k ?r = take k r" for k by (simp add: slice_def)
  have len: "length ?r = 2 + length b + length r" by simp
  have p: "length l + 2 + 2 + length b = length l + 4 + length b" "length l + 2 + 2 + k + length b = length l + 4 + length b + k" for k
    by simp_all
  show ?thesis
    unfolding load_round [OF m(1)] using m
    by (simp only: Let_def u slice_body sl p len if_False if_True) (simp add: with_last_append)
qed

lemma load_app1:
  assumes b: "length b \<le> 65533"
  shows "load_loop load (l @ [0xff, 0xe1] @ len_bytes (length b) @ b @ r) (length l) jd =
    load_loop load (l @ [0xff, 0xe1] @ len_bytes (length b) @ b @ r) (length l + 4 + length b)
      (jd\<lparr>jd_sections := jd_sections jd @
         [\<lparr>js_marker = 0xe1, js_content = Content_app1 (load ([0xff, 0xe1] @ len_bytes (length b) @ b))\<rparr>]\<rparr>)"
proof -
  let ?r = "len_bytes (length b) @ b @ r"
  have u: "unat (section_len (?r ! 0) (?r ! 1)) = length b"
    using section_len_bytes(2) [OF b len_bytes_pair] by (simp add: nth_append)
  have sl: "slice (length l) (length b + 4) (l @ [0xff, 0xe1] @ ?r) = [0xff, 0xe1] @ len_bytes (length b) @ b"
  proof -
    have "length b + 4 = Suc (Suc (length b + 2))" by simp
    show ?thesis unfolding slice_def \<open>length b + 4 = Suc (Suc (length b + 2))\<close> by simp
  qed
  have len: "length ?r = 2 + length b + length r" by simp
  have p: "length l + 2 + 2 + length b = length l + 4 + length b" by simp
  have m: "JPEG_IS_MARKER 0xe1" by (simp add: JPEG_IS_MARKER_def)
  show ?thesis
    unfolding load_round [OF m]
    by (simp only: Let_def u sl p len if_True) (simp add: with_last_append)
qed

lemma load_marker:
  assumes "m = 0xd8 \<or> m = 0xd9"
  shows "load_loop load (l @ [0xff, m] @ r) (length l) jd =
    load_loop load (l @ [0xff, m] @ r) (length l + 2)
      (jd\<lparr>jd_sections := jd_sections jd @ [\<lparr>js_marker = m, js_content = Content_zero\<rparr>]\<rparr>)"
proof -
  have "JPEG_IS_MARKER m" using assms by (auto simp: JPEG_IS_MARKER_def)
  then show ?thesis using assms by (subst load_round) (simp_all add: Let_def)
qed

text \<open>A whole section that is not the start of a scan is read, and nothing more.\<close>

lemma load_section:
  assumes ok: "js_ok load save s" and m: "js_marker s \<noteq> 0xda"
  shows "load_loop load (l @ sect_bytes save s @ r) (length l) jd =
    load_loop load (l @ sect_bytes save s @ r) (length (l @ sect_bytes save s)) (jd\<lparr>jd_sections := jd_sections jd @ [s]\<rparr>)"
proof (cases "js_content s")
  case Content_zero
  then have "js_marker s = 0xd8 \<or> js_marker s = 0xd9" using ok by (auto simp: js_ok_def split: if_splits)
  then show ?thesis
    using load_marker [of "js_marker s" load l r jd] Content_zero by (simp add: sect_bytes_def) (metis old.unit.exhaust jpeg_section.surjective)
next
  case (Content_app1 e)
  then have "js_marker s = 0xe1" and le: "length (save e) \<le> 65533"
    and ld: "load ([0xff, 0xe1] @ len_bytes (length (save e)) @ save e) = e"
    using ok by (auto simp: js_ok_def split: if_splits)
  then have s: "s = \<lparr>js_marker = 0xe1, js_content = Content_app1 e\<rparr>" using Content_app1 by simp
  have n: "length (l @ sect_bytes save s) = length l + 4 + length (save e)" by (simp add: s sect_bytes_def)
  show ?thesis
    using load_app1 [OF le, of load l r jd] ld unfolding n by (simp add: s sect_bytes_def)
next
  case (Content_generic b)
  then have k: "JPEG_IS_MARKER (js_marker s)" "js_marker s \<noteq> 0xd8" "js_marker s \<noteq> 0xd9" "js_marker s \<noteq> 0xe1"
    and le: "length b \<le> 65533" using ok by (auto simp: js_ok_def split: if_splits)
  have s: "s = \<lparr>js_marker = js_marker s, js_content = Content_generic b\<rparr>" using Content_generic by simp
  have n: "length (l @ sect_bytes save s) = length l + 4 + length b" using Content_generic by (simp add: sect_bytes_def)
  show ?thesis
    using load_generic [OF k le, of load l r jd] m Content_generic unfolding n by (subst s) (simp add: sect_bytes_def Let_def)
qed

lemma load_sections:
  assumes "\<forall>s \<in> set ss. js_ok load save s \<and> js_marker s \<noteq> 0xda"
  shows "load_loop load (l @ concat (map (sect_bytes save) ss) @ r) (length l) jd =
    load_loop load (l @ concat (map (sect_bytes save) ss) @ r) (length (l @ concat (map (sect_bytes save) ss)))
      (jd\<lparr>jd_sections := jd_sections jd @ ss\<rparr>)"
  using assms
proof (induction ss arbitrary: l jd)
  case (Cons s ss)
  then have s: "js_ok load save s" "js_marker s \<noteq> 0xda" and ss: "\<forall>s \<in> set ss. js_ok load save s \<and> js_marker s \<noteq> 0xda" by auto
  let ?b = "sect_bytes save s" and ?c = "concat (map (sect_bytes save) ss)"
  have "load_loop load (l @ ?b @ ?c @ r) (length l) jd =
      load_loop load (l @ ?b @ ?c @ r) (length (l @ ?b)) (jd\<lparr>jd_sections := jd_sections jd @ [s]\<rparr>)"
    by (rule load_section [OF s])
  also have "\<dots> = load_loop load (l @ ?b @ ?c @ r) (length ((l @ ?b) @ ?c)) (jd\<lparr>jd_sections := jd_sections jd @ s # ss\<rparr>)"
    using Cons.IH [OF ss, of "l @ ?b" "jd\<lparr>jd_sections := jd_sections jd @ [s]\<rparr>"] by simp
  finally show ?case by simp
qed simp

text \<open>
  The sections of a file: before the image data, and with it in the next to last place. Image data
  is only kept with a scan.
\<close>

definition jd_sections_ok :: "(u8 list \<Rightarrow> 'e) \<Rightarrow> ('e \<Rightarrow> u8 list) \<Rightarrow> 'e jpeg_section list \<Rightarrow> bool" where
  "jd_sections_ok load save ss \<longleftrightarrow> (\<forall>s \<in> set ss. js_ok load save s \<and> js_marker s \<noteq> 0xda)"

definition scan_tail :: "u8 list \<Rightarrow> 'e jpeg_section list" where
  "scan_tail b = [\<lparr>js_marker = 0xda, js_content = Content_generic b\<rparr>, \<lparr>js_marker = 0xd9, js_content = Content_zero\<rparr>]"

lemma load_end: "load_loop load d (length d) jd = Some jd"
  by (subst load_loop.simps) simp

lemma save_ok_sections:
  assumes "\<forall>s \<in> set ss. js_ok load save s \<and> js_marker s \<noteq> 0xda"
  shows "save_sections save scan (ss @ ts) stale out =
    save_sections save scan ts (stale \<or> (\<exists>s \<in> set ss. js_marker s = 0xe1)) (out @ concat (map (sect_bytes save) ss))"
  using assms
proof (induction ss arbitrary: stale out)
  case (Cons s ss)
  then have s: "js_ok load save s" "js_marker s \<noteq> 0xda" by auto
  have "sect_chunks save scan stale s = Some (case js_content s of
      Content_zero \<Rightarrow> [[0xff, js_marker s]] | Content_app1 e \<Rightarrow> [[0xff, js_marker s], len_bytes (length (save e)), save e]
    | Content_generic b \<Rightarrow> [[0xff, js_marker s], len_bytes (length b), b], stale \<or> js_marker s = 0xe1)"
    using s by (auto simp: sect_chunks_def js_ok_def split: jpeg_content.splits if_splits)
  then have "save_sections save scan ((s # ss) @ ts) stale out =
      save_sections save scan (ss @ ts) (stale \<or> js_marker s = 0xe1) (out @ sect_bytes save s)"
    by (auto simp del: save_sections.simps simp: save_step sect_bytes_def split: jpeg_content.split)
  then show ?case using Cons by (simp add: disj_assoc del: save_sections.simps)
qed simp

text \<open>The image of a file with a scan.\<close>

definition scan_image :: "('e \<Rightarrow> u8 list) \<Rightarrow> 'e jpeg_section list \<Rightarrow> u8 list \<Rightarrow> u8 list \<Rightarrow> u8 list" where
  "scan_image save ss b scan =
     concat (map (sect_bytes save) ss) @ [0xff, 0xda] @ len_bytes (length b) @ b @ scan @ [0xff, 0xd9]"

lemma save_scan:
  assumes "jd_sections_ok load save ss" "jd_sections jd = ss @ scan_tail b"
  shows "jpeg_data_save_data save jd = Some (scan_image save ss b (jd_data jd))"
  using save_ok_sections [of ss load save "jd_data jd" "scan_tail b" False "[]"] assms
  by (simp add: jpeg_data_save_data_def jd_sections_ok_def scan_image_def scan_tail_def Let_def)

lemma load_scan:
  assumes ss: "jd_sections_ok load save ss" and b: "length b \<le> 65533"
  shows "load_loop load (scan_image save ss b scan) 0 jd =
    Some (jd\<lparr>jd_sections := jd_sections jd @ ss @ scan_tail b, jd_data := scan\<rparr>)"
proof -
  let ?l = "concat (map (sect_bytes save) ss)" and ?e = "[0xff, 0xd9] :: u8 list"
  let ?d = "scan_image save ss b scan" and ?jd = "jd\<lparr>jd_sections := jd_sections jd @ ss\<rparr>"
  let ?jd2 = "?jd\<lparr>jd_sections := jd_sections ?jd @ [\<lparr>js_marker = 0xda, js_content = Content_generic b\<rparr>], jd_data := scan\<rparr>"
  have d: "?d = ?l @ [0xff, 0xda] @ len_bytes (length b) @ b @ scan @ ?e"
    and d2: "?d = (?l @ [0xff, 0xda] @ len_bytes (length b) @ b @ scan) @ ?e" by (simp_all add: scan_image_def)
  have n: "scan_size (scan @ ?e) = length scan" by (simp add: scan_size_def nth_append)
  have m: "JPEG_IS_MARKER 0xda" by (simp add: JPEG_IS_MARKER_def)
  have p: "length ?l + 4 + length b + length scan = length (?l @ [0xff, 0xda] @ len_bytes (length b) @ b @ scan)" by simp
  have "load_loop load ?d 0 jd = load_loop load ?d (length ?l) ?jd"
    using load_sections [of ss load save "[]" "[0xff, 0xda] @ len_bytes (length b) @ b @ scan @ ?e" jd] ss
    by (simp add: d jd_sections_ok_def)
  also have "\<dots> = load_loop load ?d (length ?l + 4 + length b + length scan) ?jd2"
    unfolding d by (subst load_generic [OF m _ _ _ b]) (simp_all add: Let_def n)
  also have "\<dots> = load_loop load ?d (length ?d) (?jd2\<lparr>jd_sections := jd_sections ?jd2 @ [\<lparr>js_marker = 0xd9, js_content = Content_zero\<rparr>]\<rparr>)"
    unfolding p d2 using load_marker [of "0xd9" load "?l @ [0xff, 0xda] @ len_bytes (length b) @ b @ scan" "[]" ?jd2]
    by (simp only: append_Nil2 length_append list.size simp_thms) simp
  also have "\<dots> = Some (jd\<lparr>jd_sections := jd_sections jd @ ss @ scan_tail b, jd_data := scan\<rparr>)"
    by (simp add: load_end scan_tail_def)
  finally show ?thesis .
qed

subsection \<open>Where the reader is undefined\<close>

lemma load_defined: "0 < p \<Longrightarrow> load_loop load d p jd \<noteq> None"
proof (induction "length d - p" arbitrary: p jd rule: less_induct)
  case less
  show ?case
  proof (cases "length d \<le> p")
    case False
    then have ih: "load_loop load d q jd' \<noteq> None" if "p < q" for q jd'
      using that less.prems by (intro less.hyps) auto
    show ?thesis
      apply (subst load_loop.simps)
      using less.prems by (simp add: Let_def ih del: not_None_eq)
  qed (subst load_loop.simps, simp)
qed

lemma ff_none: "x \<noteq> 0xff \<Longrightarrow> ff_run 7 (x # r) = 0"
  by (simp add: numeral_eq_Suc)

text \<open>reading is defined for every block of bytes but those that start with a complete APP1 section
  without its \<open>0xff\<close>: there the EXIF library is handed a pointer before the block.\<close>

lemma load_undefined_iff:
  "load_loop load d 0 jd = None \<longleftrightarrow>
    (\<exists>hi lo r. d = 0xe1 # hi # lo # r \<and> unat (section_len hi lo) \<le> length r)"
proof (cases d)
  case Nil
  then show ?thesis by (subst load_loop.simps) simp
next
  case (Cons m d')
  show ?thesis
  proof (cases "m = 0xe1")
    case False
    then have "load_loop load d 0 jd \<noteq> None"
      apply (subst load_loop.simps)
      using Cons by (simp add: Let_def load_defined del: not_None_eq)
    then show ?thesis using Cons False by auto
  next
    case True
    have i: "ff_run 7 (drop 0 d) = 0" using Cons True by (simp add: ff_none)
    have m: "JPEG_IS_MARKER (d ! 0)" using Cons True by (simp add: JPEG_IS_MARKER_def)
    show ?thesis
      apply (subst load_loop.simps)
      using i m Cons True by (cases d'; cases "tl d'") (auto simp: Let_def)
  qed
qed

subsection \<open>Replacing the EXIF section\<close>

lemma get_section_shift: "get_section ss m (i + 1) = map_option Suc (get_section ss m i)"
  by (induction ss arbitrary: i) auto

lemma get_section_none: "\<forall>s \<in> set ss. js_marker s \<noteq> m \<Longrightarrow> get_section ss m i = None"
  by (induction ss arbitrary: i) auto

lemma get_section_some:
  "\<forall>s \<in> set pre. js_marker s \<noteq> m \<Longrightarrow> js_marker s = m \<Longrightarrow> get_section (pre @ s # post) m i = Some (i + length pre)"
  by (induction pre arbitrary: i) auto

definition app1_section :: "'e \<Rightarrow> 'e jpeg_section" where
  "app1_section e = \<lparr>js_marker = 0xe1, js_content = Content_app1 e\<rparr>"

lemma set_exif_replace:
  assumes "\<forall>s \<in> set pre. js_marker s \<noteq> 0xe1" "js_marker s = 0xe1" "jd_sections jd = pre @ s # post"
  shows "jpeg_data_set_exif_data jd e = jd\<lparr>jd_sections := pre @ app1_section e # post\<rparr>"
  using get_section_some [OF assms(1,2), of post 0] assms(3)
  by (simp add: jpeg_data_set_exif_data_def jpeg_data_get_section_def app1_section_def Let_def)

lemma set_exif_insert:
  assumes "\<forall>s \<in> set (s0 # ss). js_marker s \<noteq> 0xe1" "jd_sections jd = s0 # ss"
  shows "jpeg_data_set_exif_data jd e = jd\<lparr>jd_sections := s0 # app1_section e # ss\<rparr>"
proof -
  have n: "get_section (s0 # ss) 0xe1 0 = None" by (rule get_section_none [OF assms(1)])
  have "write_at 2 (slice 1 (length ss) (s0 # ss @ [z])) (s0 # ss @ [z]) = s0 # hd (ss @ [z]) # ss" for z
    by (cases ss) (simp_all add: write_at_def slice_def)
  then show ?thesis
    using n assms(2)
    by (simp add: jpeg_data_set_exif_data_def jpeg_data_get_section_def app1_section_def Let_def jpeg_data_append_section_def)
qed

lemma set_exif_empty:
  "jd_sections jd = [] \<Longrightarrow> jpeg_data_set_exif_data jd e = jpeg_data_append_section jd"
  by (simp add: jpeg_data_set_exif_data_def jpeg_data_get_section_def jpeg_data_append_section_def Let_def)

lemma get_exif:
  assumes "\<forall>s \<in> set pre. js_marker s \<noteq> 0xe1" "jd_sections jd = pre @ app1_section e # post"
  shows "jpeg_data_get_exif_data jd = Some e"
  using get_section_some [OF assms(1), of "app1_section e" post 0] assms(2)
  by (simp add: jpeg_data_get_exif_data_def jpeg_data_get_section_def app1_section_def)

lemma get_set_exif:
  assumes "jd_sections jd \<noteq> []"
  shows "jpeg_data_get_exif_data (jpeg_data_set_exif_data jd e) = Some e"
proof (cases "\<exists>s \<in> set (jd_sections jd). js_marker s = 0xe1")
  case True
  then obtain pre s post where "jd_sections jd = pre @ s # post" "js_marker s = 0xe1" "\<forall>s \<in> set pre. js_marker s \<noteq> 0xe1"
    using split_list_first_prop [of "jd_sections jd" "\<lambda>s. js_marker s = 0xe1"] by blast
  then show ?thesis using set_exif_replace [of pre s jd post e] get_exif [of pre "jd\<lparr>jd_sections := pre @ app1_section e # post\<rparr>" e post] by simp
next
  case False
  obtain s0 ss where s: "jd_sections jd = s0 # ss" using assms by (cases "jd_sections jd") auto
  have n: "\<forall>s \<in> set (s0 # ss). js_marker s \<noteq> 0xe1" using False s by auto
  show ?thesis
    using set_exif_insert [OF n s, of e] get_exif [of "[s0]" "jd\<lparr>jd_sections := s0 # app1_section e # ss\<rparr>" e ss] n by simp
qed

lemma new_from_scan:
  assumes "jd_sections_ok load save ss" "length b \<le> 65533"
  shows "jpeg_data_new_from_data load (scan_image save ss b scan) =
    Some \<lparr>jd_sections = ss @ scan_tail b, jd_data = scan, jd_ref_count = 1\<rparr>"
  using load_scan [OF assms, of scan jpeg_data_new]
  by (simp add: jpeg_data_new_from_data_def jpeg_data_load_data_def jpeg_data_new_def)

lemma replace_exif_bytes:
  assumes ok: "jd_sections_ok load save (pre @ app1_section e # post)" and pre: "\<forall>s \<in> set pre. js_marker s \<noteq> 0xe1"
    and e': "js_ok load save (app1_section e')" and b: "length b \<le> 65533"
  shows "\<exists>jd. jpeg_data_new_from_data load (scan_image save (pre @ app1_section e # post) b scan) = Some jd
    \<and> jpeg_data_get_exif_data jd = Some e
    \<and> jpeg_data_save_data save (jpeg_data_set_exif_data jd e') = Some (scan_image save (pre @ app1_section e' # post) b scan)"
proof -
  let ?jd = "\<lparr>jd_sections = (pre @ app1_section e # post) @ scan_tail b, jd_data = scan, jd_ref_count = 1\<rparr>"
  have m: "js_marker (app1_section e) = 0xe1" "js_marker (app1_section e') = 0xe1" by (simp_all add: app1_section_def)
  have s: "jpeg_data_set_exif_data ?jd e' = ?jd\<lparr>jd_sections := pre @ app1_section e' # post @ scan_tail b\<rparr>"
    using set_exif_replace [OF pre m(1), of ?jd "post @ scan_tail b" e'] by simp
  have ok': "jd_sections_ok load save (pre @ app1_section e' # post)" using ok e' m by (auto simp: jd_sections_ok_def)
  have "jpeg_data_save_data save (jpeg_data_set_exif_data ?jd e') = Some (scan_image save (pre @ app1_section e' # post) b scan)"
    unfolding s by (subst save_scan [OF ok']) simp_all
  moreover have "jpeg_data_get_exif_data ?jd = Some e" by (rule get_exif [OF pre]) simp
  ultimately show ?thesis using new_from_scan [OF ok b, of scan] by blast
qed

subsection \<open>The marker table\<close>

definition JPEGMarkerTable :: "(u8 \<times> string \<times> string) list" where
  "JPEGMarkerTable = [
     (0xc0, ''SOF0'', ''Encoding (baseline)''),
     (0xc1, ''SOF1'', ''Encoding (extended sequential)''),
     (0xc2, ''SOF2'', ''Encoding (progressive)''),
     (0xc3, ''SOF3'', ''Encoding (lossless)''),
     (0xc5, ''SOF5'', ''Encoding (differential sequential)''),
     (0xc6, ''SOF6'', ''Encoding (differential progressive)''),
     (0xc7, ''SOF7'', ''Encoding (differential lossless)''),
     (0xc9, ''SOF9'', ''Encoding (extended sequential, arithmetic)''),
     (0xca, ''SOF10'', ''Encoding (progressive, arithmetic)''),
     (0xcb, ''SOF11'', ''Encoding (lossless, arithmetic)''),
     (0xcd, ''SOF13'', ''Encoding (differential sequential, arithmetic)''),
     (0xce, ''SOF14'', ''Encoding (differential progressive, arithmetic)''),
     (0xcf, ''SOF15'', ''Encoding (differential lossless, arithmetic)''),
     (0xd8, ''SOI'', ''Start of image''),
     (0xd9, ''EOI'', ''End of image''),
     (0xda, ''SOS'', ''Start of scan''),
     (0xfe, ''COM'', ''Comment''),
     (0xc4, ''DHT'', ''Define Huffman table''),
     (0xc8, ''JPG'', ''Extension''),
     (0xcc, ''DAC'', ''Define arithmetic coding conditioning''),
     (0xd1, ''RST1'', ''Restart 1''),
     (0xd2, ''RST2'', ''Restart 2''),
     (0xd3, ''RST3'', ''Restart 3''),
     (0xd4, ''RST4'', ''Restart 4''),
     (0xd5, ''RST5'', ''Restart 5''),
     (0xd6, ''RST6'', ''Restart 6''),
     (0xd7, ''RST7'', ''Restart 7''),
     (0xdb, ''DQT'', ''Define quantization table''),
     (0xdc, ''DNL'', ''Define number of lines''),
     (0xdd, ''DRI'', ''Define restart interval''),
     (0xde, ''DHP'', ''Define hierarchical progression''),
     (0xdf, ''EXP'', ''Expand reference component''),
     (0xe0, ''APP0'', ''Application segment 0''),
     (0xe1, ''APP1'', ''Application segment 1''),
     (0xe2, ''APP2'', ''Application segment 2''),
     (0xe3, ''APP3'', ''Application segment 3''),
     (0xe4, ''APP4'', ''Application segment 4''),
     (0xe5, ''APP5'', ''Application segment 5''),
     (0xe6, ''APP6'', ''Application segment 6''),
     (0xe7, ''APP7'', ''Application segment 7''),
     (0xe8, ''APP8'', ''Application segment 8''),
     (0xe9, ''APP9'', ''Application segment 9''),
     (0xea, ''APP10'', ''Application segment 10''),
     (0xeb, ''APP11'', ''Application segment 11''),
     (0xec, ''APP12'', ''Application segment 12''),
     (0xed, ''APP13'', ''Application segment 13''),
     (0xee, ''APP14'', ''Application segment 14''),
     (0xef, ''APP15'', ''Application segment 15''),
     (0xf0, ''JPG0'', ''Extension 0''),
     (0xf1, ''JPG1'', ''Extension 1''),
     (0xf2, ''JPG2'', ''Extension 2''),
     (0xf3, ''JPG3'', ''Extension 3''),
     (0xf4, ''JPG4'', ''Extension 4''),
     (0xf5, ''JPG5'', ''Extension 5''),
     (0xf6, ''JPG6'', ''Extension 6''),
     (0xf7, ''JPG7'', ''Extension 7''),
     (0xf8, ''JPG8'', ''Extension 8''),
     (0xf9, ''JPG9'', ''Extension 9''),
     (0xfa, ''JPG10'', ''Extension 10''),
     (0xfb, ''JPG11'', ''Extension 11''),
     (0xfc, ''JPG12'', ''Extension 12''),
     (0xfd, ''JPG13'', ''Extension 13'')]"

fun marker_find :: "u8 \<Rightarrow> (u8 \<times> string \<times> string) list \<Rightarrow> (string \<times> string) option" where
  "marker_find m [] = None"
| "marker_find m ((k, v) # r) = (if k = m then Some v else marker_find m r)"

text \<open>\<open>None\<close> is the \<open>NULL\<close> of the closing entry.\<close>

definition jpeg_marker_get_name :: "u8 \<Rightarrow> string option" where
  "jpeg_marker_get_name m = map_option fst (marker_find m JPEGMarkerTable)"

definition jpeg_marker_get_description :: "u8 \<Rightarrow> string option" where
  "jpeg_marker_get_description m = map_option snd (marker_find m JPEGMarkerTable)"

lemma marker_find_None: "marker_find m t = None \<longleftrightarrow> m \<notin> set (map fst t)"
  by (induction t) (auto split: if_splits)

definition marker_keys :: "nat list" where
  "marker_keys = map (\<lambda>e. unat (fst e)) JPEGMarkerTable"

lemma marker_keys_sorted: "sort marker_keys = filter (\<lambda>k. k \<noteq> 208) [192..<255]"
  by (simp add: marker_keys_def JPEGMarkerTable_def upt_rec)

lemma marker_named_iff: "jpeg_marker_get_name m \<noteq> None \<longleftrightarrow> JPEG_IS_MARKER m \<and> m \<noteq> 0xd0"
proof -
  have "jpeg_marker_get_name m \<noteq> None \<longleftrightarrow> m \<in> set (map fst JPEGMarkerTable)"
    using marker_find_None [of m JPEGMarkerTable] by (simp add: jpeg_marker_get_name_def)
  also have "\<dots> \<longleftrightarrow> unat m \<in> set marker_keys" unfolding marker_keys_def by (force simp: image_iff word_unat_eq_iff)
  also have "set marker_keys = set (sort marker_keys)" by simp
  also have "unat m \<in> set (sort marker_keys) \<longleftrightarrow> unat m \<in> {192..<255} \<and> unat m \<noteq> 208"
    unfolding marker_keys_sorted set_filter set_upt by blast
  also have "\<dots> \<longleftrightarrow> JPEG_IS_MARKER m \<and> m \<noteq> 0xd0"
    by (auto simp: JPEG_IS_MARKER_def word_le_nat_alt word_unat_eq_iff)
  finally show ?thesis .
qed

subsection \<open>The dump\<close>

fun show_hex_digits :: "nat \<Rightarrow> string" where
  "show_hex_digits n =
     (if n < 16 then [''0123456789abcdef'' ! n] else show_hex_digits (n div 16) @ [''0123456789abcdef'' ! (n mod 16)])"

declare show_hex_digits.simps [simp del]

text \<open>\<open>%s\<close> of a string that may be missing, and \<open>%i\<close> of an unsigned size.\<close>

definition show_name :: "string option \<Rightarrow> string" where
  "show_name n = (case n of None \<Rightarrow> ''(null)'' | Some s \<Rightarrow> s)"

definition show_size :: "nat \<Rightarrow> string" where
  "show_size n = show_int (sint (of_nat n :: u32))"

text \<open>\<open>dump\<close> is \<open>exif_data_dump\<close>, as the lines it prints for the object, if there is one.\<close>

fun dump_sections :: "('e option \<Rightarrow> string list) \<Rightarrow> nat \<Rightarrow> 'e jpeg_section list \<Rightarrow> string list" where
  "dump_sections dump i [] = []"
| "dump_sections dump i (s # ss) =
     (''Section '' @ show_nat i @ '' (marker 0x'' @ show_hex_digits (unat (js_marker s)) @ '' - ''
        @ show_name (jpeg_marker_get_name (js_marker s)) @ ''):'')
     # (''  Description: '' @ show_name (jpeg_marker_get_description (js_marker s)))
     # (if js_marker s = 0xd8 \<or> js_marker s = 0xd9 then []
        else if js_marker s = 0xe1 then dump (case js_content s of Content_app1 e \<Rightarrow> Some e | _ \<Rightarrow> None)
        else [''  Size: '' @ show_size (case js_content s of Content_generic b \<Rightarrow> length b | _ \<Rightarrow> 0), ''  Unknown content.''])
     @ dump_sections dump (i + 1) ss"

definition jpeg_data_dump :: "('e option \<Rightarrow> string list) \<Rightarrow> 'e jpeg_data \<Rightarrow> string list" where
  "jpeg_data_dump dump jd =
     (''Dumping JPEG data ('' @ show_size (length (jd_data jd)) @ '' bytes of data)...'') # dump_sections dump 0 (jd_sections jd)"

subsection \<open>Sections the writer gets wrong\<close>

lemma len_bytes_wrap: "len_bytes 65534 = [0, 0]"
  by (simp add: len_bytes_def)

text \<open>An EXIF block of 65534 bytes is written with a length field of zero; reading the file back
  stops at that section, and the EXIF data and the image are lost.\<close>

lemma exif_too_long:
  assumes n: "length (save e) = 65534" and r: "length r < 2 ^ 31"
  shows "jpeg_data_new_from_data load ([0xff, 0xd8] @ sect_bytes save (app1_section e) @ r) =
    Some \<lparr>jd_sections = [\<lparr>js_marker = 0xd8, js_content = Content_zero\<rparr>, \<lparr>js_marker = 0xe1, js_content = Content_zero\<rparr>],
      jd_data = [], jd_ref_count = 1\<rparr>"
proof -
  have s: "sect_bytes save (app1_section e) = [0xff, 0xe1] @ [0, 0] @ save e" by (simp add: sect_bytes_def app1_section_def n len_bytes_wrap)
  let ?d = "[0xff, 0xd8] @ [0xff, 0xe1] @ [0, 0] @ save e @ r"
  let ?jd = "jpeg_data_new\<lparr>jd_sections := [\<lparr>js_marker = 0xd8, js_content = Content_zero\<rparr>]\<rparr>"
  have "load_loop load ?d 0 jpeg_data_new = load_loop load ?d (length [0xff :: u8, 0xd8]) ?jd"
    using load_marker [of "0xd8" load "[]" "[0xff, 0xe1] @ [0, 0] @ save e @ r" jpeg_data_new] by (simp add: jpeg_data_new_def)
  also have "\<dots> = Some (?jd\<lparr>jd_sections := jd_sections ?jd @ [\<lparr>js_marker = 0xe1, js_content = Content_zero\<rparr>]\<rparr>)"
  proof -
    have "unat (section_len 0 0) = 2 ^ 32 - 2" by (simp add: section_len_def)
    then show ?thesis
      using load_round [of "0xe1" load "[0xff, 0xd8]" "[0, 0] @ save e @ r" ?jd] n r by (simp add: JPEG_IS_MARKER_def Let_def)
  qed
  finally show ?thesis
    unfolding s jpeg_data_new_from_data_def jpeg_data_load_data_def by (simp add: jpeg_data_new_def)
qed

text \<open>a file with a second, truncated APP1 section is read without complaint, and writing it uses
  and frees the block of the first one again.\<close>

lemma stale_save:
  assumes x: "length x \<le> 65533"
  shows "map_option (jpeg_data_save_data save)
    (jpeg_data_new_from_data load ([0xff, 0xd8] @ [0xff, 0xe1] @ len_bytes (length x) @ x @ [0xff, 0xe1, 0xff, 0xff])) = Some None"
proof -
  let ?d = "[0xff, 0xd8] @ [0xff, 0xe1] @ len_bytes (length x) @ x @ [0xff, 0xe1, 0xff, 0xff]"
  let ?l = "[0xff, 0xd8] @ [0xff, 0xe1] @ len_bytes (length x) @ x"
  let ?z = "\<lparr>js_marker = 0xd8, js_content = Content_zero\<rparr>"
  let ?a = "app1_section (load ([0xff, 0xe1] @ len_bytes (length x) @ x))"
  let ?j = "\<lambda>ss. \<lparr>jd_sections = ss, jd_data = [], jd_ref_count = 1\<rparr>"
  have d: "?d = ?l @ [0xff, 0xe1] @ [0xff, 0xff]" and n: "length ?l = 6 + length x" by simp_all
  have "load_loop load ?d 0 jpeg_data_new = load_loop load ?d (length [0xff :: u8, 0xd8]) (?j [?z])"
    using load_marker [of "0xd8" load "[]" _ jpeg_data_new] by (simp add: jpeg_data_new_def)
  also have "\<dots> = load_loop load ?d (length ?l) (?j [?z, ?a])"
    unfolding n using load_app1 [OF x, of load "[0xff, 0xd8]" "[0xff, 0xe1, 0xff, 0xff]" "?j [?z]"] by (simp add: app1_section_def)
  also have "\<dots> = Some (?j [?z, ?a, \<lparr>js_marker = 0xe1, js_content = Content_zero\<rparr>])"
  proof -
    have "unat (section_len 0xff 0xff) = 65533" by (simp add: section_len_def)
    then show ?thesis
      unfolding d using load_round [of "0xe1" load ?l "[0xff, 0xff]" "?j [?z, ?a]"]
      by (simp add: JPEG_IS_MARKER_def Let_def del: append_assoc append.simps)
  qed
  finally show ?thesis
    by (simp add: jpeg_data_new_from_data_def jpeg_data_load_data_def jpeg_data_save_data_def app1_section_def)
qed

subsection \<open>Properties\<close>



text \<open>writing into the caller's block gives the bytes and the size of the allocating version when the
  block is large enough, and runs past its end otherwise: nothing is checked against its size.\<close>

lemma jpeg_save_no_copy:
  "jpeg_data_save_data_no_copy save jd d =
    (case jpeg_data_save_data save jd of
       None \<Rightarrow> None
     | Some out \<Rightarrow> if length out \<le> length d then Some (write_at 0 out d, length out) else None)"
  using save_no_copy_fitted [of "[]" d save "jd_data jd" "jd_sections jd" False]
  by (simp add: jpeg_data_save_data_no_copy_def jpeg_data_save_data_def fitted_def write_at_def)

text \<open>The EXIF object set last is the one found, whatever the sections, unless there is none: then
  an empty section is added and the object is dropped.\<close>

lemma jpeg_set_get_exif_data:
  "jpeg_data_get_exif_data (jpeg_data_set_exif_data jd e) = (if jd_sections jd = [] then None else Some e)"
  using get_set_exif [of jd e] set_exif_empty [of jd e]
  by (simp add: jpeg_data_get_exif_data_def jpeg_data_get_section_def jpeg_data_append_section_def)

text \<open>The marker table names exactly the markers the reader accepts, but for RST0.\<close>

lemma jpeg_marker_named:
  "jpeg_marker_get_name m \<noteq> None \<longleftrightarrow> JPEG_IS_MARKER m \<and> m \<noteq> 0xd0"
  by (rule marker_named_iff)

end
