(* ===== verification/MediaCtl.thy ===== *)
theory MediaCtl
  imports NetPrelude
begin

text \<open>
  The media controller library \<open>mediactl.c\<close> of the camera engine
  (\<open>vendor/marvell/generic/cameraengine/.../media-lib/src\<close>): the graph of entities, pads and links of
  a media device, its enumeration from the kernel, the configuration of links, and the parser of link
  descriptions. A pad or link pointer is the pair of the entity's position and the position in the
  entity's array. The kernel's answers are parameters; the flag values are those of the kernel
  interface \<open>linux/media.h\<close>. Debug messages are left out. \<open>None\<close> is an undefined access.
\<close>

subsection \<open>The graph\<close>

type_synonym ptr = "nat \<times> nat"

record media_pad =
  mp_index :: u32
  mp_flags :: u32

record media_link =
  ml_source :: ptr
  ml_sink :: ptr
  ml_twin :: "ptr option"
  ml_flags :: u32

text \<open>\<open>me_pads_n\<close> and \<open>me_links_n\<close> are \<open>info.pads\<close> and \<open>info.links\<close>; the length of \<open>me_links\<close> is
  \<open>num_links\<close>. A twin of \<open>None\<close> is one that is not written yet.\<close>

record media_entity =
  me_id :: u32
  me_name :: string
  me_type :: u32
  me_pads_n :: nat
  me_links_n :: nat
  me_major :: u32
  me_minor :: u32
  me_pads :: "media_pad list"
  me_links :: "media_link list"
  me_max_links :: nat
  me_devname :: string
  me_fd :: int

type_synonym media = "media_entity list"

definition MEDIA_ENT_ID_FLAG_NEXT :: u32 where "MEDIA_ENT_ID_FLAG_NEXT = 0x80000000"
definition MEDIA_PAD_FL_SINK :: u32 where "MEDIA_PAD_FL_SINK = 1"
definition MEDIA_PAD_FL_SOURCE :: u32 where "MEDIA_PAD_FL_SOURCE = 2"
definition MEDIA_LNK_FL_ENABLED :: u32 where "MEDIA_LNK_FL_ENABLED = 1"
definition MEDIA_LNK_FL_IMMUTABLE :: u32 where "MEDIA_LNK_FL_IMMUTABLE = 2"

definition EINVAL :: int where "EINVAL = 22"
definition ENOENT :: int where "ENOENT = 2"
definition ENOMEM :: int where "ENOMEM = 12"

definition get_pad :: "media \<Rightarrow> ptr \<Rightarrow> media_pad option" where
  "get_pad m p = Option.bind (rd m (fst p)) (\<lambda>e. rd (me_pads e) (snd p))"

definition get_link :: "media \<Rightarrow> ptr \<Rightarrow> media_link option" where
  "get_link m p = Option.bind (rd m (fst p)) (\<lambda>e. rd (me_links e) (snd p))"

definition upd_entity :: "nat \<Rightarrow> (media_entity \<Rightarrow> media_entity) \<Rightarrow> media \<Rightarrow> media" where
  "upd_entity e f m = m[e := f (m ! e)]"

definition upd_link :: "ptr \<Rightarrow> (media_link \<Rightarrow> media_link) \<Rightarrow> media \<Rightarrow> media" where
  "upd_link p f m = upd_entity (fst p) (\<lambda>e. e\<lparr>me_links := (me_links e)[snd p := f (me_links e ! snd p)]\<rparr>) m"

subsection \<open>Looking up\<close>

fun remote_source :: "ptr \<Rightarrow> media_link list \<Rightarrow> ptr option" where
  "remote_source pad [] = None"
| "remote_source pad (l # ls) =
     (if ml_flags l AND MEDIA_LNK_FL_ENABLED = 0 then remote_source pad ls
      else if ml_sink l = pad then Some (ml_source l)
      else remote_source pad ls)"

definition media_entity_remote_source :: "media \<Rightarrow> ptr \<Rightarrow> ptr option" where
  "media_entity_remote_source m pad =
     (if mp_flags (me_pads (m ! fst pad) ! snd pad) AND MEDIA_PAD_FL_SINK = 0 then None
      else remote_source pad (me_links (m ! fst pad)))"

fun find_entity :: "(media_entity \<Rightarrow> bool) \<Rightarrow> media \<Rightarrow> nat \<Rightarrow> nat option" where
  "find_entity P [] i = None"
| "find_entity P (e # es) i = (if P e then Some i else find_entity P es (i + 1))"

text \<open>The name is given by a text and a length: the entity's name has exactly these characters.\<close>

definition media_get_entity_by_name :: "media \<Rightarrow> string \<Rightarrow> nat \<Rightarrow> nat option" where
  "media_get_entity_by_name m name n =
     (if n \<ge> 32 then None
      else find_entity (\<lambda>e. take n (me_name e) = take n name \<and> length (me_name e) = n) m 0)"

definition media_get_entity_by_id :: "media \<Rightarrow> u32 \<Rightarrow> nat option" where
  "media_get_entity_by_id m eid =
     (let nxt = eid AND MEDIA_ENT_ID_FLAG_NEXT \<noteq> 0;
          eid = eid AND NOT MEDIA_ENT_ID_FLAG_NEXT
      in find_entity (\<lambda>e. me_id e = eid \<and> \<not> nxt \<or> me_id e > eid \<and> nxt) m 0)"

subsection \<open>Configuring links\<close>

record media_link_desc =
  ld_source_entity :: u32
  ld_source_index :: u32
  ld_source_flags :: u32
  ld_sink_entity :: u32
  ld_sink_index :: u32
  ld_sink_flags :: u32
  ld_flags :: u32

text \<open>
  The answer of the kernel to a setup request, 0 or the value of \<open>errno\<close>, may depend on the requests
  before it.
\<close>

type_synonym kernel = "media_link_desc list \<Rightarrow> media_link_desc \<Rightarrow> nat"

text \<open>The search compares entities and pad indices; reading a link's pads may be undefined.\<close>

fun search_link :: "media \<Rightarrow> ptr \<Rightarrow> ptr \<Rightarrow> media_link list \<Rightarrow> nat \<Rightarrow> nat option option" where
  "search_link m source sink [] i = Some None"
| "search_link m source sink (l # ls) i =
     Option.bind (get_pad m (ml_source l)) (\<lambda>ps. Option.bind (get_pad m (ml_sink l)) (\<lambda>pk.
     Option.bind (get_pad m source) (\<lambda>qs. Option.bind (get_pad m sink) (\<lambda>qk.
       if fst (ml_source l) = fst source \<and> mp_index ps = mp_index qs
         \<and> fst (ml_sink l) = fst sink \<and> mp_index pk = mp_index qk
       then Some (Some i) else search_link m source sink ls (i + 1)))))"

definition link_request :: "media \<Rightarrow> ptr \<Rightarrow> ptr \<Rightarrow> u32 \<Rightarrow> media_link_desc" where
  "link_request m source sink flags =
     \<lparr>ld_source_entity = me_id (m ! fst source), ld_source_index = mp_index (me_pads (m ! fst source) ! snd source),
      ld_source_flags = MEDIA_PAD_FL_SOURCE,
      ld_sink_entity = me_id (m ! fst sink), ld_sink_index = mp_index (me_pads (m ! fst sink) ! snd sink),
      ld_sink_flags = MEDIA_PAD_FL_SINK, ld_flags = flags\<rparr>"

text \<open>The state is the graph and the requests made so far.\<close>

definition media_setup_link ::
  "kernel \<Rightarrow> media \<times> media_link_desc list \<Rightarrow> ptr \<Rightarrow> ptr \<Rightarrow> u32 \<Rightarrow> ((media \<times> media_link_desc list) \<times> int) option" where
  "media_setup_link k st source sink flags =
     (case st of (m, t) \<Rightarrow>
      Option.bind (rd m (fst source)) (\<lambda>e.
      Option.bind (search_link m source sink (me_links e) 0) (\<lambda>found.
        case found of
          None \<Rightarrow> Some ((m, t), - ENOENT)
        | Some i \<Rightarrow>
            let link = me_links e ! i;
                fl = flags OR (ml_flags link AND MEDIA_LNK_FL_IMMUTABLE);
                ulink = link_request m source sink fl;
                r = k t ulink
            in if r \<noteq> 0 then Some ((m, t @ [ulink]), - int r)
               else
                 Option.bind (ml_twin link) (\<lambda>tw.
                 Option.bind (get_link m tw) (\<lambda>_.
                   Some ((upd_link tw (\<lambda>l. l\<lparr>ml_flags := fl\<rparr>) (upd_link (fst source, i) (\<lambda>l. l\<lparr>ml_flags := fl\<rparr>) m),
                          t @ [ulink]), 0))))))"

text \<open>The two loops of the reset: \<open>n\<close> links of entity \<open>e\<close> are left.\<close>

fun reset_entity :: "kernel \<Rightarrow> nat \<Rightarrow> nat \<Rightarrow> media \<times> media_link_desc list \<Rightarrow> ((media \<times> media_link_desc list) \<times> int) option" where
  "reset_entity k e 0 st = Some (st, 0)"
| "reset_entity k e (Suc n) st =
     (let link = me_links (fst st ! e) ! (length (me_links (fst st ! e)) - Suc n) in
      if ml_flags link AND MEDIA_LNK_FL_IMMUTABLE \<noteq> 0 \<or> fst (ml_source link) \<noteq> e then reset_entity k e n st
      else
        Option.bind (media_setup_link k st (ml_source link) (ml_sink link) (ml_flags link AND NOT MEDIA_LNK_FL_ENABLED))
          (\<lambda>(st, r). if r < 0 then Some (st, r) else reset_entity k e n st))"

fun reset_entities :: "kernel \<Rightarrow> nat \<Rightarrow> media \<times> media_link_desc list \<Rightarrow> ((media \<times> media_link_desc list) \<times> int) option" where
  "reset_entities k 0 st = Some (st, 0)"
| "reset_entities k (Suc n) st =
     (let e = length (fst st) - Suc n in
      Option.bind (reset_entity k e (length (me_links (fst st ! e))) st)
        (\<lambda>(st, r). if r < 0 then Some (st, r) else reset_entities k n st))"

definition media_reset_links :: "kernel \<Rightarrow> media \<times> media_link_desc list \<Rightarrow> ((media \<times> media_link_desc list) \<times> int) option" where
  "media_reset_links k st = reset_entities k (length (fst st)) st"

subsection \<open>Enumeration\<close>

text \<open>
  A new slot at the end of the links of entity \<open>e\<close>. When the array is full it is reallocated: the twins
  of its links are then followed, which is undefined for a twin that is not written yet or that was in
  the old array, and a request for no memory at all has no result to rely on.
\<close>

definition blank_link :: media_link where
  "blank_link = \<lparr>ml_source = (0, 0), ml_sink = (0, 0), ml_twin = None, ml_flags = 0\<rparr>"

definition media_entity_add_link :: "nat \<Rightarrow> media \<Rightarrow> (media \<times> ptr) option" where
  "media_entity_add_link e m =
     (let ent = m ! e; n = length (me_links ent) in
      if n \<ge> me_max_links ent then
        if me_max_links ent = 0
          \<or> list_ex (\<lambda>l. case ml_twin l of None \<Rightarrow> True | Some tw \<Rightarrow> fst tw = e) (me_links ent) then None
        else Some (upd_entity e (\<lambda>ent. ent\<lparr>me_max_links := me_max_links ent * 2, me_links := me_links ent @ [blank_link]\<rparr>) m, (e, n))
      else Some (upd_entity e (\<lambda>ent. ent\<lparr>me_links := me_links ent @ [blank_link]\<rparr>) m, (e, n)))"

text \<open>The two halves of a link, when both entities are known.\<close>

definition enum_link :: "media_link_desc \<Rightarrow> nat \<Rightarrow> nat \<Rightarrow> media \<Rightarrow> media option" where
  "enum_link d source sink m =
     (let ps = (source, unat (ld_source_index d)); pk = (sink, unat (ld_sink_index d));
          put = (\<lambda>l. l\<lparr>ml_source := ps, ml_sink := pk, ml_flags := ld_flags d\<rparr>)
      in Option.bind (media_entity_add_link source m) (\<lambda>(m, fwdlink).
           let m = upd_link fwdlink put m in
           Option.bind (media_entity_add_link sink m) (\<lambda>(m, backlink).
             let m = upd_link backlink put m;
                 m = upd_link fwdlink (\<lambda>l. l\<lparr>ml_twin := Some backlink\<rparr>) m;
                 m = upd_link backlink (\<lambda>l. l\<lparr>ml_twin := Some fwdlink\<rparr>) m
             in Some m)))"

fun enum_entity_links :: "media_link_desc list \<Rightarrow> media \<times> int \<Rightarrow> (media \<times> int) option" where
  "enum_entity_links [] st = Some st"
| "enum_entity_links (d # ds) (m, ret) =
     (case (media_get_entity_by_id m (ld_source_entity d), media_get_entity_by_id m (ld_sink_entity d)) of
        (Some source, Some sink) \<Rightarrow> Option.bind (enum_link d source sink m) (\<lambda>m. enum_entity_links ds (m, ret))
      | _ \<Rightarrow> enum_entity_links ds (m, - EINVAL))"

text \<open>What the kernel writes into the zeroed arrays of \<open>n\<close> elements.\<close>

definition filled :: "nat \<Rightarrow> 'a \<Rightarrow> 'a list \<Rightarrow> 'a list" where
  "filled n z xs = take n xs @ replicate (n - length xs) z"

definition zero_desc :: media_link_desc where
  "zero_desc = \<lparr>ld_source_entity = 0, ld_source_index = 0, ld_source_flags = 0, ld_sink_entity = 0, ld_sink_index = 0,
     ld_sink_flags = 0, ld_flags = 0\<rparr>"

text \<open>The answer to \<open>MEDIA_IOC_ENUM_LINKS\<close> for an entity id: an error, or its pads and links.\<close>

type_synonym links_answer = "u32 \<Rightarrow> nat + (media_pad list \<times> media_link_desc list)"

fun enum_links_loop :: "links_answer \<Rightarrow> nat \<Rightarrow> media \<times> int \<Rightarrow> (media \<times> int) option" where
  "enum_links_loop ans 0 st = Some st"
| "enum_links_loop ans (Suc n) (m, ret) =
     (let e = length m - Suc n; ent = m ! e in
      case ans (me_id ent) of
        Inl err \<Rightarrow> Some (m, - int err)
      | Inr (pads, links) \<Rightarrow>
          let m = upd_entity e (\<lambda>ent. ent\<lparr>me_pads := filled (me_pads_n ent) \<lparr>mp_index = 0, mp_flags = 0\<rparr> pads\<rparr>) m
          in Option.bind (enum_entity_links (filled (me_links_n ent) zero_desc links) (m, ret)) (enum_links_loop ans n))"

definition media_enum_links :: "links_answer \<Rightarrow> media \<Rightarrow> (media \<times> int) option" where
  "media_enum_links ans m = enum_links_loop ans (length m) (m, 0)"

text \<open>
  The name of the device node. \<open>link_of\<close> is \<open>readlink\<close> (\<open>None\<close> on failure), \<open>stat_of\<close> the device
  numbers \<open>stat\<close> finds. The two formatted names go into arrays of 32 characters.
\<close>

definition media_get_devname_sysfs ::
  "(string \<Rightarrow> string option) \<Rightarrow> (string \<Rightarrow> (u32 \<times> u32) option) \<Rightarrow> media_entity \<Rightarrow> media_entity option" where
  "media_get_devname_sysfs link_of stat_of ent =
     (let sysname = ''/sys/dev/char/'' @ show_nat (unat (me_major ent)) @ '':'' @ show_nat (unat (me_minor ent)) in
      if length sysname \<ge> 32 then None
      else
        case link_of sysname of
          None \<Rightarrow> Some ent
        | Some target \<Rightarrow>
            if length target \<ge> 1024 then Some ent
            else if CHR ''/'' \<notin> set target then Some ent
            else
              let devname = ''/dev/'' @ rev (takeWhile (\<lambda>c. c \<noteq> CHR ''/'') (rev target)) in
              if length devname \<ge> 32 then None
              else
                case stat_of devname of
                  None \<Rightarrow> Some ent
                | Some (mj, mn) \<Rightarrow> Some (if mj = me_major ent \<and> mn = me_minor ent then ent\<lparr>me_devname := devname\<rparr> else ent))"

text \<open>What \<open>MEDIA_IOC_ENUM_ENTITIES\<close> says of an entity; the pads are allocated, not yet written.\<close>

record entity_info =
  ei_id :: u32
  ei_name :: string
  ei_type :: u32
  ei_pads :: u16
  ei_links :: u16
  ei_major :: u32
  ei_minor :: u32

definition entity_of :: "entity_info \<Rightarrow> media_entity" where
  "entity_of i = \<lparr>me_id = ei_id i, me_name = ei_name i, me_type = ei_type i, me_pads_n = unat (ei_pads i),
     me_links_n = unat (ei_links i), me_major = ei_major i, me_minor = ei_minor i,
     me_pads = replicate (unat (ei_pads i)) \<lparr>mp_index = 0, mp_flags = 0\<rparr>, me_links = [],
     me_max_links = unat (ei_pads i) + unat (ei_links i), me_devname = [], me_fd = - 1\<rparr>"

definition media_entity_type :: "media_entity \<Rightarrow> u32" where
  "media_entity_type e = me_type e AND 0x00ff0000"

text \<open>The kernel describes the entities \<open>infos\<close> one after the other and then fails with \<open>err\<close>.\<close>

fun media_enum_entities ::
  "(string \<Rightarrow> string option) \<Rightarrow> (string \<Rightarrow> (u32 \<times> u32) option) \<Rightarrow> nat \<Rightarrow> entity_info list \<Rightarrow> media \<Rightarrow> (media \<times> int) option" where
  "media_enum_entities link_of stat_of err [] m = Some (m, if int err \<noteq> EINVAL then - int err else 0)"
| "media_enum_entities link_of stat_of err (i # infos) m =
     (let ent = entity_of i in
      if media_entity_type ent \<noteq> 0x00010000 \<and> media_entity_type ent \<noteq> 0x00020000
      then media_enum_entities link_of stat_of err infos (m @ [ent])
      else Option.bind (media_get_devname_sysfs link_of stat_of ent)
             (\<lambda>ent. media_enum_entities link_of stat_of err infos (m @ [ent])))"

text \<open>
  Opening: \<open>fd\<close> is the answer of \<open>open\<close>, \<open>info\<close> whether the device tells its information. The result is
  the graph, if any, and the descriptors closed again.
\<close>

definition media_close :: "int \<Rightarrow> media \<Rightarrow> int list" where
  "media_close fd m = (if fd \<noteq> - 1 then [fd] else []) @ filter (\<lambda>d. d \<noteq> - 1) (map me_fd m)"

definition media_open ::
  "int \<Rightarrow> bool \<Rightarrow> (string \<Rightarrow> string option) \<Rightarrow> (string \<Rightarrow> (u32 \<times> u32) option) \<Rightarrow> nat \<Rightarrow> entity_info list \<Rightarrow> links_answer
    \<Rightarrow> (media option \<times> int list) option" where
  "media_open fd info link_of stat_of err infos ans =
     (if fd < 0 then Some (None, media_close fd [])
      else if \<not> info then Some (None, media_close fd [])
      else
        Option.bind (media_enum_entities link_of stat_of err infos []) (\<lambda>(m, r).
          if r < 0 then Some (None, media_close fd m)
          else
            Option.bind (media_enum_links ans m) (\<lambda>(m, r).
              if r < 0 then Some (None, media_close fd m) else Some (Some m, []))))"

subsection \<open>Parsing link descriptions\<close>

text \<open>\<open>strtoul\<close> in base ten on the 32-bit target: the value and the rest of the text.\<close>

definition strtoul :: "string \<Rightarrow> u32 \<times> string" where
  "strtoul str =
     (let t = dropWhile is_blank str;
          neg = (t \<noteq> [] \<and> hd t = CHR ''-'');
          t = (if t \<noteq> [] \<and> (hd t = CHR ''-'' \<or> hd t = CHR ''+'') then tl t else t);
          ds = takeWhile is_digit t;
          n = the (digits_val 10 0 ds)
      in if ds = [] then (0, str)
         else (if n \<ge> 2 ^ 32 then - 1 else if neg then - of_nat n else of_nat n, dropWhile is_digit t))"

definition is_quote :: "char \<Rightarrow> bool" where
  "is_quote c \<longleftrightarrow> c = CHR 0x22 \<or> c = CHR 0x27"

text \<open>The end of the text is the empty list. The result is the pad and where parsing ended.\<close>

definition parse_pad_number :: "media \<Rightarrow> nat \<Rightarrow> string \<Rightarrow> ptr option \<times> string" where
  "parse_pad_number m e end =
     (let end = dropWhile is_blank end in
      if end = [] \<or> hd end \<noteq> CHR '':'' then (None, end)
      else
        let p = dropWhile is_blank (tl end);
            (pad, end) = strtoul p
        in if unat pad \<ge> me_pads_n (m ! e) then (None, p)
           else (Some (e, unat pad), dropWhile is_blank end))"

definition media_parse_pad :: "media \<Rightarrow> string \<Rightarrow> ptr option \<times> string" where
  "media_parse_pad m p =
     (let p = dropWhile is_blank p in
      if p \<noteq> [] \<and> is_quote (hd p) then
        let nm = takeWhile (\<lambda>c. \<not> is_quote c) (tl p);
            end = dropWhile (\<lambda>c. \<not> is_quote c) (tl p)
        in if end = [] then (None, end)
           else
             case media_get_entity_by_name m (tl p) (length nm) of
               None \<Rightarrow> (None, tl p)
             | Some e \<Rightarrow> parse_pad_number m e (tl end)
      else
        let (entity_id, end) = strtoul p in
        case media_get_entity_by_id m entity_id of
          None \<Rightarrow> (None, p)
        | Some e \<Rightarrow> parse_pad_number m e end)"

fun find_link :: "ptr \<Rightarrow> ptr \<Rightarrow> media_link list \<Rightarrow> nat \<Rightarrow> nat option" where
  "find_link source sink [] i = None"
| "find_link source sink (l # ls) i =
     (if ml_source l = source \<and> ml_sink l = sink then Some i else find_link source sink ls (i + 1))"

definition media_parse_link :: "media \<Rightarrow> string \<Rightarrow> ptr option \<times> string" where
  "media_parse_link m p =
     (case media_parse_pad m p of
        (None, end) \<Rightarrow> (None, end)
      | (Some source, end) \<Rightarrow>
          if take 2 end \<noteq> ''->'' then (None, end)
          else
            case media_parse_pad m (drop 2 end) of
              (None, end) \<Rightarrow> (None, end)
            | (Some sink, end) \<Rightarrow>
                (map_option (\<lambda>i. (fst source, i)) (find_link source sink (me_links (m ! fst source)) 0), end))"

definition media_parse_setup_link ::
  "kernel \<Rightarrow> media \<times> media_link_desc list \<Rightarrow> string \<Rightarrow> (((media \<times> media_link_desc list) \<times> int) \<times> string) option" where
  "media_parse_setup_link k st p =
     (case media_parse_link (fst st) p of
        (None, end) \<Rightarrow> Some ((st, - EINVAL), end)
      | (Some l, end) \<Rightarrow>
          if end = [] \<or> hd end \<noteq> CHR ''['' then Some ((st, - EINVAL), end)
          else
            let (flags, end) = strtoul (tl end);
                p = dropWhile is_blank end
            in if p = [] \<or> hd p \<noteq> CHR '']'' then Some ((st, - EINVAL), p)
               else
                 let end = dropWhile is_blank (tl p);
                     link = me_links (fst st ! fst l) ! snd l
                 in map_option (\<lambda>r. (r, end)) (media_setup_link k st (ml_source link) (ml_sink link) flags))"

text \<open>Every step of the parser leaves a text that is no longer.\<close>

lemma skip_le: "length p \<le> n \<Longrightarrow> length (dropWhile P p) \<le> n"
  using length_dropWhile_le [of P p] by linarith

lemma tl_le: "length p \<le> n \<Longrightarrow> length (tl p) \<le> n"
  by simp

lemma drop_le: "length p \<le> n \<Longrightarrow> length (drop k p) \<le> n"
  by simp

lemma strtoul_le: "length p \<le> n \<Longrightarrow> length (snd (strtoul p)) \<le> n"
  by (simp add: strtoul_def Let_def skip_le tl_le del: length_tl)

lemmas parse_le = skip_le tl_le drop_le strtoul_le

lemma parse_pad_number_le: "length p \<le> n \<Longrightarrow> length (snd (parse_pad_number m e p)) \<le> n"
  by (simp add: parse_pad_number_def Let_def case_prod_unfold parse_le del: length_tl)

lemma parse_pad_le: "length p \<le> n \<Longrightarrow> length (snd (media_parse_pad m p)) \<le> n"
  by (simp add: media_parse_pad_def Let_def case_prod_unfold parse_le parse_pad_number_le del: length_tl split: option.split)

lemma parse_link_le: "length p \<le> n \<Longrightarrow> length (snd (media_parse_link m p)) \<le> n"
  using parse_pad_le [of p n m]
  by (simp add: media_parse_link_def case_prod_unfold parse_le parse_pad_le del: length_drop split: option.split)

lemma length_parse_setup_link:
  assumes "media_parse_setup_link k st p = Some (r, end)"
  shows "length end \<le> length p"
proof -
  obtain a q where a: "media_parse_link (fst st) p = (a, q)" by (metis surj_pair)
  have "length q \<le> length p" using parse_link_le [of p "length p" "fst st"] a by simp
  then show ?thesis
    using assms
    by (auto simp: media_parse_setup_link_def a Let_def case_prod_unfold parse_le simp del: length_tl split: option.splits if_splits)
qed

function media_parse_setup_links ::
  "kernel \<Rightarrow> media \<times> media_link_desc list \<Rightarrow> string \<Rightarrow> ((media \<times> media_link_desc list) \<times> int) option" where
  "media_parse_setup_links k st p =
     (case media_parse_setup_link k st p of
        None \<Rightarrow> None
      | Some ((st, ret), end) \<Rightarrow>
          if ret < 0 then Some (st, ret)
          else if end \<noteq> [] \<and> hd end = CHR '','' then media_parse_setup_links k st (tl end)
          else Some (st, if end \<noteq> [] then - EINVAL else 0))"
  by pat_completeness auto
termination
proof (relation "measure (\<lambda>(k, st, p). length p)")
  fix k :: kernel and st st' :: "media \<times> media_link_desc list" and p q :: string and ret :: int and x y
  assume "media_parse_setup_link k st p = Some x" "(y, q) = x" and e: "q \<noteq> [] \<and> hd q = CHR '',''"
  then have "length q \<le> length p" using length_parse_setup_link [of k st p y q] by simp
  then show "((k, st', tl q), k, st, p) \<in> measure (\<lambda>(k, st, p). length p)"
    using e by (cases q) auto
qed simp

declare media_parse_setup_links.simps [simp del]

subsection \<open>Stores into the graph\<close>

lemma length_upd [simp]: "length (upd_entity e f m) = length m" "length (upd_link p g m) = length m"
  by (simp_all add: upd_entity_def upd_link_def)

lemma get_pad_upd_link [simp]: "get_pad (upd_link p f m) q = get_pad m q"
  by (cases "fst p = fst q") (auto simp: get_pad_def upd_link_def upd_entity_def rd_def)

lemma get_link_upd_link:
  "get_link m p \<noteq> None \<Longrightarrow> get_link (upd_link p f m) q = (if q = p then map_option f (get_link m p) else get_link m q)"
  by (cases p; cases q; cases "fst q < length m")
    (auto simp: get_link_def upd_link_def upd_entity_def nth_list_update rd_def split: if_splits)

lemma get_link_add:
  assumes "e < length m" "me_links (f (m ! e)) = me_links (m ! e) @ [l]"
  shows "get_link (upd_entity e f m) q = (if q = (e, length (me_links (m ! e))) then Some l else get_link m q)"
  using assms
  by (cases q; cases "fst q < length m") (auto simp: get_link_def upd_entity_def nth_list_update rd_def nth_append)

text \<open>An entity without its links.\<close>

definition strip :: "media_entity \<Rightarrow> media_entity" where
  "strip e = e\<lparr>me_links := [], me_max_links := 0\<rparr>"

definition same_entities :: "media \<Rightarrow> media \<Rightarrow> bool" where
  "same_entities m m' \<longleftrightarrow> map strip m' = map strip m"

lemma same_entities_refl [simp]: "same_entities m m"
  by (simp add: same_entities_def)

lemma same_entities_trans: "same_entities a b \<Longrightarrow> same_entities b c \<Longrightarrow> same_entities a c"
  by (simp add: same_entities_def)

lemma same_upd:
  assumes "\<And>e. strip (f e) = strip e"
  shows "same_entities m (upd_entity e f m)"
proof (cases "e < length m")
  case True
  then have "(map strip m)[e := strip (m ! e)] = map strip m" using list_update_id [of "map strip m" e] by simp
  then show ?thesis by (simp add: same_entities_def upd_entity_def map_update assms)
qed (simp add: same_entities_def upd_entity_def list_update_beyond)

lemma same_upd_link [simp]: "same_entities m (upd_link p f m)"
  unfolding upd_link_def by (rule same_upd) (simp add: strip_def)

lemma same_length: "same_entities m m' \<Longrightarrow> length m' = length m"
  by (metis length_map same_entities_def)

lemma same_nth: "same_entities m m' \<Longrightarrow> e < length m \<Longrightarrow> strip (m' ! e) = strip (m ! e)"
  by (metis length_map nth_map same_entities_def)

lemma strip_fields:
  "strip a = strip b \<Longrightarrow> me_id a = me_id b \<and> me_pads a = me_pads b \<and> me_pads_n a = me_pads_n b \<and> me_name a = me_name b"
  by (cases a; cases b) (simp add: strip_def)

lemma same_fields:
  assumes "same_entities m m'" "e < length m"
  shows "me_id (m' ! e) = me_id (m ! e)" "me_pads (m' ! e) = me_pads (m ! e)" "me_pads_n (m' ! e) = me_pads_n (m ! e)"
    "me_name (m' ! e) = me_name (m ! e)"
  using strip_fields [OF same_nth [OF assms]] by auto

lemma same_get_pad: "same_entities m m' \<Longrightarrow> get_pad m' p = get_pad m p"
  by (cases "fst p < length m") (auto simp: get_pad_def rd_def same_length same_fields)

lemma find_entity_same:
  "length m' = length m \<Longrightarrow> (\<And>e. e < length m \<Longrightarrow> P (m' ! e) = P (m ! e)) \<Longrightarrow> find_entity P m' i = find_entity P m i"
proof (induction m arbitrary: m' i)
  case (Cons a m)
  then obtain b m2 where m': "m' = b # m2" by (cases m') auto
  have "P b = P a" using Cons.prems(2) [of 0] m' by simp
  moreover have "P (m2 ! e) = P (m ! e)" if "e < length m" for e using Cons.prems(2) [of "Suc e"] m' that by simp
  ultimately show ?case using Cons.IH [of m2 "i + 1"] Cons.prems(1) m' by simp
qed simp

lemma same_by_id: "same_entities m m' \<Longrightarrow> media_get_entity_by_id m' i = media_get_entity_by_id m i"
  unfolding media_get_entity_by_id_def Let_def
  by (rule find_entity_same) (auto simp: same_length same_fields)

lemma same_by_name: "same_entities m m' \<Longrightarrow> media_get_entity_by_name m' a n = media_get_entity_by_name m a n"
  unfolding media_get_entity_by_name_def
  by (auto intro!: find_entity_same simp: same_length same_fields)

lemma find_entity_less: "find_entity P m i = Some e \<Longrightarrow> i \<le> e \<and> e < i + length m \<and> P (m ! (e - i))"
  by (induction m arbitrary: i) (fastforce simp: nth_Cons' split: if_splits)+

subsection \<open>The links of the graph\<close>

text \<open>
  Every link has its two ends in the arrays of their entities, which are different; its twin is at the
  other end, is its twin in turn, and has the same ends and flags.
\<close>

definition twin_ok :: "media \<Rightarrow> ptr \<Rightarrow> media_link \<Rightarrow> bool" where
  "twin_ok m p l \<longleftrightarrow>
     (\<exists>tw l'. ml_twin l = Some tw \<and> get_link m tw = Some l' \<and> ml_twin l' = Some p
       \<and> ml_source l' = ml_source l \<and> ml_sink l' = ml_sink l \<and> ml_flags l' = ml_flags l
       \<and> fst tw \<noteq> fst p \<and> {fst p, fst tw} = {fst (ml_source l), fst (ml_sink l)})
     \<and> get_pad m (ml_source l) \<noteq> None \<and> get_pad m (ml_sink l) \<noteq> None"

definition links_ok :: "media \<Rightarrow> bool" where
  "links_ok m \<longleftrightarrow> (\<forall>p l. get_link m p = Some l \<longrightarrow> twin_ok m p l)"

lemma links_okD: "links_ok m \<Longrightarrow> get_link m p = Some l \<Longrightarrow> twin_ok m p l"
  unfolding links_ok_def by blast

text \<open>Room for links where there are pads, and as many pads as announced.\<close>

definition room_ok :: "media \<Rightarrow> bool" where
  "room_ok m \<longleftrightarrow> (\<forall>e \<in> set m. length (me_pads e) = me_pads_n e \<and> me_pads_n e < 65536 \<and> (me_pads_n e \<noteq> 0 \<longrightarrow> me_max_links e \<noteq> 0))"

lemma room_okD: "room_ok m \<Longrightarrow> e < length m \<Longrightarrow> length (me_pads (m ! e)) = me_pads_n (m ! e) \<and> me_pads_n (m ! e) < 65536 \<and> (me_pads_n (m ! e) \<noteq> 0 \<longrightarrow> me_max_links (m ! e) \<noteq> 0)"
  by (simp add: room_ok_def)

lemma room_upd:
  "room_ok m \<Longrightarrow> (e < length m \<Longrightarrow> length (me_pads (f (m ! e))) = me_pads_n (f (m ! e)) \<and> me_pads_n (f (m ! e)) < 65536 \<and> (me_pads_n (f (m ! e)) \<noteq> 0 \<longrightarrow> me_max_links (f (m ! e)) \<noteq> 0))
    \<Longrightarrow> room_ok (upd_entity e f m)"
  unfolding room_ok_def upd_entity_def
  by (cases "e < length m") (auto simp: list_update_beyond dest!: subsetD [OF set_update_subset_insert])

lemma room_upd_link: "room_ok m \<Longrightarrow> room_ok (upd_link p f m)"
  unfolding upd_link_def by (rule room_upd) (auto dest: room_okD)

text \<open>A new slot, when the room is there and no link of the entity has an unwritten twin or one in the entity.\<close>

lemma add_link_defined:
  assumes e: "e < length m" and r: "room_ok m" "me_pads_n (m ! e) \<noteq> 0"
    and t: "\<forall>l \<in> set (me_links (m ! e)). \<exists>tw. ml_twin l = Some tw \<and> fst tw \<noteq> e"
  obtains m' where "media_entity_add_link e m = Some (m', (e, length (me_links (m ! e))))"
    "length m' = length m" "same_entities m m'" "room_ok m'"
    "\<And>q. get_link m' q = (if q = (e, length (me_links (m ! e))) then Some blank_link else get_link m q)"
    "\<And>i. i \<noteq> e \<Longrightarrow> m' ! i = m ! i"
proof -
  let ?f = "\<lambda>ent :: media_entity. ent\<lparr>me_max_links := me_max_links ent * 2, me_links := me_links ent @ [blank_link]\<rparr>"
  let ?g = "\<lambda>ent :: media_entity. ent\<lparr>me_links := me_links ent @ [blank_link]\<rparr>"
  define h where "h = (if length (me_links (m ! e)) \<ge> me_max_links (m ! e) then ?f else ?g)"
  have le: "list_ex (\<lambda>l. case ml_twin l of None \<Rightarrow> True | Some tw \<Rightarrow> fst tw = e) (me_links (m ! e)) = False"
    using t by (auto simp: list_ex_iff split: option.splits)
  have a: "media_entity_add_link e m = Some (upd_entity e h m, (e, length (me_links (m ! e))))"
    using room_okD [OF r(1) e] r(2) by (simp add: media_entity_add_link_def Let_def le h_def)
  have st: "strip (h x) = strip x" for x by (simp add: h_def strip_def)
  have ln: "me_links (h (m ! e)) = me_links (m ! e) @ [blank_link]" by (simp add: h_def)
  have rm: "room_ok (upd_entity e h m)"
    by (rule room_upd [OF r(1)]) (use room_okD [OF r(1) e] in \<open>auto simp: h_def\<close>)
  show ?thesis
    by (rule that [OF a _ same_upd [OF st] rm get_link_add [of e m h blank_link, OF e ln]]) (simp_all add: upd_entity_def)
qed

lemma get_link_entity: "e < length m \<Longrightarrow> l \<in> set (me_links (m ! e)) \<Longrightarrow> \<exists>i. get_link m (e, i) = Some l"
  by (auto simp: in_set_conv_nth get_link_def) (metis rd_in)

lemma get_link_None_end: "e < length m \<Longrightarrow> get_link m (e, length (me_links (m ! e))) = None"
  by (simp add: get_link_def)

text \<open>One link of the kernel between different entities, at pads that exist.\<close>

lemma enum_link_ok:
  assumes ok: "links_ok m" "room_ok m" and e: "s < length m" "t < length m" "s \<noteq> t"
    and ps: "unat (ld_source_index d) < me_pads_n (m ! s)" and pk: "unat (ld_sink_index d) < me_pads_n (m ! t)"
  shows "\<exists>m'. enum_link d s t m = Some m' \<and> links_ok m' \<and> room_ok m' \<and> same_entities m m'"
proof -
  have tw: "\<forall>l \<in> set (me_links (m ! i)). \<exists>tw. ml_twin l = Some tw \<and> fst tw \<noteq> i" if "i < length m" for i
    using get_link_entity [OF that] links_okD [OF ok(1)] by (force simp: twin_ok_def)
  let ?p = "(s, length (me_links (m ! s)))" and ?q = "(t, length (me_links (m ! t)))"
  let ?put = "\<lambda>l. l\<lparr>ml_source := (s, unat (ld_source_index d)), ml_sink := (t, unat (ld_sink_index d)), ml_flags := ld_flags d\<rparr>"
  have n: "me_pads_n (m ! s) \<noteq> 0" "me_pads_n (m ! t) \<noteq> 0" using ps pk by auto
  obtain m1 where a1: "media_entity_add_link s m = Some (m1, ?p)" and m1: "length m1 = length m" "same_entities m m1" "room_ok m1"
    and g1: "\<And>q. get_link m1 q = (if q = ?p then Some blank_link else get_link m q)" and o1: "\<And>i. i \<noteq> s \<Longrightarrow> m1 ! i = m ! i"
    by (rule add_link_defined [OF e(1) ok(2) n(1) tw [OF e(1)]]) blast
  let ?m2 = "upd_link ?p ?put m1"
  have t2: "?m2 ! t = m ! t" using o1 [of t] e(3) by (simp add: upd_link_def upd_entity_def)
  have g2: "get_link ?m2 q = (if q = ?p then Some (?put blank_link) else get_link m q)" for q
    using get_link_upd_link [of m1 ?p ?put q] by (simp add: g1)
  obtain m3 where a3: "media_entity_add_link t ?m2 = Some (m3, ?q)" and m3: "length m3 = length m" "same_entities ?m2 m3" "room_ok m3"
    and g3: "\<And>x. get_link m3 x = (if x = ?q then Some blank_link else get_link ?m2 x)"
  proof -
    have "t < length ?m2" "room_ok ?m2" "me_pads_n (?m2 ! t) \<noteq> 0"
      "\<forall>l \<in> set (me_links (?m2 ! t)). \<exists>tw. ml_twin l = Some tw \<and> fst tw \<noteq> t"
      using m1(1) e(2) room_upd_link [OF m1(3)] n(2) tw [OF e(2)] by (simp_all only: t2 length_upd simp_thms)
    note d = this
    show ?thesis by (rule add_link_defined [OF d], rule that) (simp_all only: t2 length_upd m1(1))
  qed
  have pq: "?p \<noteq> ?q" using e(3) by simp
  let ?m4 = "upd_link ?q ?put m3"
  let ?m5 = "upd_link ?p (\<lambda>l. l\<lparr>ml_twin := Some ?q\<rparr>) ?m4"
  let ?m6 = "upd_link ?q (\<lambda>l. l\<lparr>ml_twin := Some ?p\<rparr>) ?m5"
  let ?L = "\<lambda>tw. (?put blank_link)\<lparr>ml_twin := Some tw\<rparr>"
  have g4: "get_link ?m4 x = (if x = ?q then Some (?put blank_link) else get_link ?m2 x)" for x
    using get_link_upd_link [of m3 ?q ?put x] by (simp add: g3)
  have g5: "get_link ?m5 x = (if x = ?p then Some (?L ?q) else get_link ?m4 x)" for x
    using get_link_upd_link [of ?m4 ?p "\<lambda>l. l\<lparr>ml_twin := Some ?q\<rparr>" x] pq by (simp add: g4 g2)
  have g6: "get_link ?m6 x = (if x = ?q then Some (?L ?p) else if x = ?p then Some (?L ?q) else get_link m x)" for x
    using get_link_upd_link [of ?m5 ?q "\<lambda>l. l\<lparr>ml_twin := Some ?p\<rparr>" x] pq by (simp add: g5 g4 g2)
  have same: "same_entities m ?m6"
    by (intro same_entities_trans [OF m1(2)] same_entities_trans [OF same_upd_link [of m1 ?p ?put]] same_entities_trans [OF m3(2)]
      same_entities_trans [OF same_upd_link [of m3 ?q ?put]]
      same_entities_trans [OF same_upd_link [of ?m4 ?p "\<lambda>l. l\<lparr>ml_twin := Some ?q\<rparr>"]] same_upd_link)
  have pads: "get_pad ?m6 x = get_pad m x" for x by (rule same_get_pad [OF same])
  have "get_pad m (s, unat (ld_source_index d)) \<noteq> None" "get_pad m (t, unat (ld_sink_index d)) \<noteq> None"
    using ps pk e room_okD [OF ok(2)] by (simp_all add: get_pad_def)
  then have new: "twin_ok ?m6 ?p (?L ?q)" "twin_ok ?m6 ?q (?L ?p)"
    using pq e(3) unfolding twin_ok_def g6 pads by auto
  have old: "twin_ok ?m6 x l" if x: "get_link m x = Some l" for x l
  proof -
    obtain tw l' where "ml_twin l = Some tw" "get_link m tw = Some l'" "ml_twin l' = Some x"
      using links_okD [OF ok(1) x] by (auto simp: twin_ok_def)
    moreover have "tw \<noteq> ?p" "tw \<noteq> ?q"
      using calculation(2) get_link_None_end [OF e(1)] get_link_None_end [OF e(2)] by auto
    ultimately show ?thesis
      using links_okD [OF ok(1) x] unfolding twin_ok_def g6 pads by auto
  qed
  have "links_ok ?m6" unfolding links_ok_def g6 using new old by auto
  moreover have "enum_link d s t m = Some ?m6" by (simp add: enum_link_def Let_def a1 a3)
  ultimately show ?thesis using room_upd_link m3(3) same by blast
qed

subsection \<open>What enumeration builds\<close>

definition same_keys :: "media \<Rightarrow> media \<Rightarrow> bool" where
  "same_keys m m' \<longleftrightarrow> map (\<lambda>e. (me_id e, me_pads_n e, me_links_n e)) m' = map (\<lambda>e. (me_id e, me_pads_n e, me_links_n e)) m"

lemma same_keys_refl [simp]: "same_keys m m"
  by (simp add: same_keys_def)

lemma same_keys_trans: "same_keys a b \<Longrightarrow> same_keys b c \<Longrightarrow> same_keys a c"
  by (simp add: same_keys_def)

lemma same_keys_length: "same_keys m m' \<Longrightarrow> length m' = length m"
  by (auto simp: same_keys_def dest: map_eq_imp_length_eq)

lemma same_keys_nth:
  assumes "same_keys m m'" "e < length m"
  shows "me_id (m' ! e) = me_id (m ! e)" "me_pads_n (m' ! e) = me_pads_n (m ! e)" "me_links_n (m' ! e) = me_links_n (m ! e)"
proof -
  have "map (\<lambda>e. (me_id e, me_pads_n e, me_links_n e)) m' ! e = map (\<lambda>e. (me_id e, me_pads_n e, me_links_n e)) m ! e"
    using assms(1) by (simp only: same_keys_def)
  then have "(me_id (m' ! e), me_pads_n (m' ! e), me_links_n (m' ! e)) = (me_id (m ! e), me_pads_n (m ! e), me_links_n (m ! e))"
    using assms(2) same_keys_length [OF assms(1)] by (simp only: nth_map)
  then show "me_id (m' ! e) = me_id (m ! e)" "me_pads_n (m' ! e) = me_pads_n (m ! e)" "me_links_n (m' ! e) = me_links_n (m ! e)"
    by simp_all
qed

lemma same_entities_keys: "same_entities m m' \<Longrightarrow> same_keys m m'"
proof -
  assume "same_entities m m'"
  then have "map (\<lambda>e. (me_id e, me_pads_n e, me_links_n e)) (map strip m') = map (\<lambda>e. (me_id e, me_pads_n e, me_links_n e)) (map strip m)"
    by (simp add: same_entities_def)
  then show ?thesis by (simp add: same_keys_def strip_def comp_def)
qed

lemma same_keys_by_id: "same_keys m m' \<Longrightarrow> media_get_entity_by_id m' i = media_get_entity_by_id m i"
  unfolding media_get_entity_by_id_def Let_def
  by (rule find_entity_same) (auto simp: same_keys_length same_keys_nth)

text \<open>A link description of the kernel: between different entities, at pads they have; or not between known ones.\<close>

definition desc_ok :: "media \<Rightarrow> media_link_desc \<Rightarrow> bool" where
  "desc_ok m d \<longleftrightarrow>
     (\<forall>s t. media_get_entity_by_id m (ld_source_entity d) = Some s \<and> media_get_entity_by_id m (ld_sink_entity d) = Some t \<longrightarrow>
        s \<noteq> t \<and> unat (ld_source_index d) < me_pads_n (m ! s) \<and> unat (ld_sink_index d) < me_pads_n (m ! t))"

lemma by_id_less: "media_get_entity_by_id m i = Some e \<Longrightarrow> e < length m"
  unfolding media_get_entity_by_id_def Let_def by (drule find_entity_less) simp

lemma desc_ok_same: "same_keys m m' \<Longrightarrow> desc_ok m d \<Longrightarrow> desc_ok m' d"
  unfolding desc_ok_def same_keys_by_id by (metis by_id_less same_keys_nth(2))

lemma enum_entity_links_ok:
  "links_ok m \<Longrightarrow> room_ok m \<Longrightarrow> \<forall>d \<in> set ds. desc_ok m d \<Longrightarrow> r \<le> 0 \<Longrightarrow>
    \<exists>m' r'. enum_entity_links ds (m, r) = Some (m', r') \<and> links_ok m' \<and> room_ok m' \<and> same_entities m m' \<and> r' \<le> 0"
proof (induction ds arbitrary: m r)
  case (Cons d ds)
  have neg: "- EINVAL \<le> 0" by (simp add: EINVAL_def)
  show ?case
  proof (cases "media_get_entity_by_id m (ld_source_entity d) \<noteq> None \<and> media_get_entity_by_id m (ld_sink_entity d) \<noteq> None")
    case True
    then obtain s t where st: "media_get_entity_by_id m (ld_source_entity d) = Some s" "media_get_entity_by_id m (ld_sink_entity d) = Some t" by auto
    have "s \<noteq> t" "unat (ld_source_index d) < me_pads_n (m ! s)" "unat (ld_sink_index d) < me_pads_n (m ! t)"
      using Cons.prems(3) st by (auto simp: desc_ok_def)
    from enum_link_ok [OF Cons.prems(1,2) by_id_less [OF st(1)] by_id_less [OF st(2)] this]
    obtain m1 where m1: "enum_link d s t m = Some m1" "links_ok m1" "room_ok m1" "same_entities m m1" by blast
    have "\<forall>d \<in> set ds. desc_ok m1 d" using Cons.prems(3) desc_ok_same [OF same_entities_keys [OF m1(4)]] by simp
    from Cons.IH [OF m1(2,3) this Cons.prems(4)] show ?thesis using st m1 same_entities_trans [OF m1(4)] by auto
  next
    case False
    have ds: "\<forall>d \<in> set ds. desc_ok m d" using Cons.prems(3) by simp
    have "enum_entity_links (d # ds) (m, r) = enum_entity_links ds (m, - EINVAL)" using False by (auto split: option.split)
    then show ?thesis using Cons.IH [OF Cons.prems(1,2) ds neg] by simp
  qed
qed simp

text \<open>The pads of an entity, written with as many elements.\<close>

lemma length_filled [simp]: "length (filled n z xs) = n"
  by (simp add: filled_def)

lemma put_pads_ok:
  assumes "links_ok m" "room_ok m" "e < length m" "length ps = me_pads_n (m ! e)"
  defines "m' \<equiv> upd_entity e (\<lambda>ent. ent\<lparr>me_pads := ps\<rparr>) m"
  shows "links_ok m'" "room_ok m'" "same_keys m m'"
proof -
  have l: "get_link m' p = get_link m p" for p
    by (cases "fst p = e") (auto simp: get_link_def m'_def upd_entity_def rd_def)
  have q: "get_pad m' p = None \<longleftrightarrow> get_pad m p = None" for p
    using room_okD [OF assms(2,3)] assms(3,4) by (cases "fst p = e") (auto simp: get_pad_def m'_def upd_entity_def rd_def)
  show "links_ok m'" using assms(1) unfolding links_ok_def twin_ok_def l q .
  show "room_ok m'" unfolding m'_def by (rule room_upd [OF assms(2)]) (use room_okD [OF assms(2,3)] assms(4) in simp)
  show "same_keys m m'"
    using assms(3) list_update_id [of "map (\<lambda>e. (me_id e, me_pads_n e, me_links_n e)) m" e]
    by (simp add: same_keys_def m'_def upd_entity_def map_update)
qed

text \<open>The pads of an entity are numbered by their positions.\<close>

definition numbered :: "media_pad list \<Rightarrow> bool" where
  "numbered ps \<longleftrightarrow> (\<forall>i < length ps. mp_index (ps ! i) = of_nat i)"

text \<open>What the code relies on in the answers of the kernel for the entities it has described.\<close>

definition answer_ok :: "media \<Rightarrow> media_entity \<Rightarrow> nat + (media_pad list \<times> media_link_desc list) \<Rightarrow> bool" where
  "answer_ok m ent a \<longleftrightarrow>
     (case a of
        Inl err \<Rightarrow> 0 < err
      | Inr (pads, links) \<Rightarrow>
          numbered (filled (me_pads_n ent) \<lparr>mp_index = 0, mp_flags = 0\<rparr> pads)
          \<and> (\<forall>d \<in> set (filled (me_links_n ent) zero_desc links). desc_ok m d))"

definition answers_ok :: "links_answer \<Rightarrow> media \<Rightarrow> bool" where
  "answers_ok ans m \<longleftrightarrow> (\<forall>ent \<in> set m. answer_ok m ent (ans (me_id ent)))"

lemma answers_ok_same: "same_keys m m' \<Longrightarrow> answers_ok ans m \<Longrightarrow> answers_ok ans m'"
proof -
  assume k: "same_keys m m'" and a: "answers_ok ans m"
  show ?thesis unfolding answers_ok_def
  proof
    fix ent assume "ent \<in> set m'"
    then obtain e where e: "e < length m" "ent = m' ! e" using same_keys_length [OF k] by (metis in_set_conv_nth)
    have "answer_ok m (m ! e) (ans (me_id (m ! e)))" using a e(1) by (simp add: answers_ok_def)
    then show "answer_ok m' ent (ans (me_id ent))"
      using same_keys_nth [OF k e(1)] desc_ok_same [OF k] e(2)
      by (auto simp: answer_ok_def split: sum.splits)
  qed
qed

definition graph_ok :: "media \<Rightarrow> bool" where
  "graph_ok m \<longleftrightarrow> links_ok m \<and> room_ok m \<and> (\<forall>ent \<in> set m. numbered (me_pads ent))"

lemma enum_links_loop_ok:
  "links_ok m \<Longrightarrow> room_ok m \<Longrightarrow> answers_ok ans m \<Longrightarrow> r \<le> 0 \<Longrightarrow> n \<le> length m \<Longrightarrow>
   \<forall>e < length m - n. numbered (me_pads (m ! e)) \<Longrightarrow>
    \<exists>m' r'. enum_links_loop ans n (m, r) = Some (m', r') \<and> links_ok m' \<and> room_ok m' \<and> same_keys m m' \<and> r' \<le> 0
      \<and> (r' = 0 \<longrightarrow> (\<forall>e < length m. numbered (me_pads (m' ! e))))"
proof (induction n arbitrary: m r)
  case (Suc n)
  let ?e = "length m - Suc n"
  have e: "?e < length m" using Suc.prems(5) by simp
  have a: "answer_ok m (m ! ?e) (ans (me_id (m ! ?e)))" using Suc.prems(3) e by (simp add: answers_ok_def)
  show ?case
  proof (cases "ans (me_id (m ! ?e))")
    case (Inl err)
    then show ?thesis using Suc.prems(1,2) a by (simp add: Let_def answer_ok_def)
  next
    case (Inr b)
    obtain pads links where b: "b = (pads, links)" by (metis surj_pair)
    let ?ps = "filled (me_pads_n (m ! ?e)) \<lparr>mp_index = 0, mp_flags = 0\<rparr> pads"
    let ?ds = "filled (me_links_n (m ! ?e)) zero_desc links"
    define m1 where "m1 = upd_entity ?e (\<lambda>ent. ent\<lparr>me_pads := ?ps\<rparr>) m"
    have m1: "links_ok m1" "room_ok m1" "same_keys m m1"
      unfolding m1_def by (rule put_pads_ok [OF Suc.prems(1,2) e], simp)+
    have n: "numbered ?ps" and d: "\<forall>d \<in> set ?ds. desc_ok m1 d"
      using a desc_ok_same [OF m1(3)] by (simp_all add: answer_ok_def Inr b)
    obtain m2 r2 where m2: "enum_entity_links ?ds (m1, r) = Some (m2, r2)" "links_ok m2" "room_ok m2" "same_entities m1 m2" "r2 \<le> 0"
      using enum_entity_links_ok [OF m1(1,2) d Suc.prems(4)] by blast
    have k: "same_keys m m2" using same_keys_trans [OF m1(3) same_entities_keys [OF m2(4)]] .
    have l: "length m2 = length m" by (rule same_keys_length [OF k])
    have pads: "me_pads (m2 ! i) = me_pads (m1 ! i)" if "i < length m" for i
      using same_fields(2) [OF m2(4), of i] that by (simp add: m1_def)
    have num: "\<forall>i < length m2 - n. numbered (me_pads (m2 ! i))"
    proof (intro allI impI)
      fix i assume "i < length m2 - n"
      then have i: "i < length m" "i \<noteq> ?e \<longrightarrow> i < length m - Suc n" using l by auto
      show "numbered (me_pads (m2 ! i))"
        unfolding pads [OF i(1)] using Suc.prems(6) i n e by (cases "i = ?e") (simp_all add: m1_def upd_entity_def)
    qed
    have ln: "n \<le> length m2" using Suc.prems(5) l by simp
    obtain m3 r3 where m3: "enum_links_loop ans n (m2, r2) = Some (m3, r3)" "links_ok m3" "room_ok m3" "same_keys m2 m3" "r3 \<le> 0"
      "r3 = 0 \<longrightarrow> (\<forall>e < length m2. numbered (me_pads (m3 ! e)))"
      using Suc.IH [OF m2(2,3) answers_ok_same [OF k Suc.prems(3)] m2(5) ln num] by blast
    have "enum_links_loop ans (Suc n) (m, r) = Some (m3, r3)"
    proof -
      have "upd_entity ?e (\<lambda>ent. ent\<lparr>me_pads := filled (me_pads_n ent) \<lparr>mp_index = 0, mp_flags = 0\<rparr> pads\<rparr>) m = m1"
        by (simp add: m1_def upd_entity_def)
      then show ?thesis by (simp add: Let_def Inr b m2(1) m3(1))
    qed
    then show ?thesis using m3 same_keys_trans [OF k m3(4)] l by simp
  qed
qed simp

lemma enum_links_ok:
  assumes "\<forall>ent \<in> set m. me_links ent = []" "room_ok m" "answers_ok ans m"
  shows "\<exists>m' r. media_enum_links ans m = Some (m', r) \<and> r \<le> 0 \<and> same_keys m m' \<and> (r = 0 \<longrightarrow> graph_ok m')"
proof -
  have "links_ok m" using assms(1) by (auto simp: links_ok_def get_link_def rd_def split: if_splits)
  from enum_links_loop_ok [OF this assms(2,3), of 0 "length m"]
  obtain m' r where "media_enum_links ans m = Some (m', r)" "links_ok m'" "room_ok m'" "same_keys m m'" "r \<le> 0"
    "r = 0 \<longrightarrow> (\<forall>e < length m. numbered (me_pads (m' ! e)))"
    unfolding media_enum_links_def by auto
  moreover have "length m' = length m" using same_keys_length calculation(4) by blast
  ultimately show ?thesis by (auto simp: graph_ok_def in_set_conv_nth)
qed

text \<open>The entities as enumerated.\<close>

lemma entity_of_fresh: "me_links (entity_of i) = []" "length (me_pads (entity_of i)) = me_pads_n (entity_of i)"
  "me_pads_n (entity_of i) < 65536" "me_pads_n (entity_of i) \<noteq> 0 \<longrightarrow> me_max_links (entity_of i) \<noteq> 0"
  by (simp_all add: entity_of_def)

lemma devname_same:
  "media_get_devname_sysfs lk st ent = Some ent' \<Longrightarrow> \<exists>d. ent' = ent\<lparr>me_devname := d\<rparr>"
proof -
  assume a: "media_get_devname_sysfs lk st ent = Some ent'"
  have "ent' = ent \<or> (\<exists>d. ent' = ent\<lparr>me_devname := d\<rparr>)"
    using a unfolding media_get_devname_sysfs_def Let_def by (auto split: if_splits option.splits prod.splits)
  moreover have "ent = ent\<lparr>me_devname := me_devname ent\<rparr>" by simp
  ultimately show ?thesis by metis
qed

definition fresh :: "media \<Rightarrow> bool" where
  "fresh m \<longleftrightarrow> room_ok m \<and> (\<forall>ent \<in> set m. me_links ent = [])"

lemma enum_entities_fresh:
  "media_enum_entities lk st err infos m = Some (m', r) \<Longrightarrow> fresh m \<Longrightarrow>
    fresh m' \<and> length m' = length m + length infos \<and> r \<le> 0"
proof (induction infos arbitrary: m)
  case (Cons i infos)
  have f: "fresh (m @ [entity_of i\<lparr>me_devname := d\<rparr>])" for d
    using Cons.prems(2) entity_of_fresh [of i] by (auto simp: fresh_def room_ok_def)
  have "\<exists>d. media_enum_entities lk st err infos (m @ [entity_of i\<lparr>me_devname := d\<rparr>]) = Some (m', r)"
  proof (cases "media_entity_type (entity_of i) \<noteq> 0x00010000 \<and> media_entity_type (entity_of i) \<noteq> 0x00020000")
    case True
    then show ?thesis using Cons.prems(1) by (intro exI [of _ "me_devname (entity_of i)"]) (simp add: Let_def)
  next
    case False
    then obtain x where x: "media_get_devname_sysfs lk st (entity_of i) = Some x"
      "media_enum_entities lk st err infos (m @ [x]) = Some (m', r)"
      using Cons.prems(1) by (auto simp: Let_def split: Option.bind_splits if_splits)
    then show ?thesis using devname_same [OF x(1)] by blast
  qed
  then obtain d where "media_enum_entities lk st err infos (m @ [entity_of i\<lparr>me_devname := d\<rparr>]) = Some (m', r)" ..
  from Cons.IH [OF this f] show ?case by simp
qed (auto split: if_splits)

lemma open_graph:
  assumes o: "media_open fd info lk st err infos ans = Some (Some m, closed_fds)"
    and a: "\<And>m0. fresh m0 \<Longrightarrow> media_enum_entities lk st err infos [] = Some (m0, 0) \<Longrightarrow> answers_ok ans m0"
  shows "graph_ok m \<and> length m = length infos \<and> closed_fds = []"
proof -
  obtain m0 r0 where e: "media_enum_entities lk st err infos [] = Some (m0, r0)" "\<not> r0 < 0"
    and l: "Option.bind (media_enum_links ans m0) (\<lambda>(m, r). if r < 0 then Some (None, media_close fd m) else Some (Some m, [])) = Some (Some m, closed_fds)"
    using o by (auto simp: media_open_def split: if_splits Option.bind_splits prod.splits)
  have f: "fresh m0" "length m0 = length infos" "r0 = 0"
    using enum_entities_fresh [OF e(1)] e(2) by (auto simp: fresh_def room_ok_def)
  obtain m' r where m': "media_enum_links ans m0 = Some (m', r)" "r \<le> 0" "same_keys m0 m'" "r = 0 \<longrightarrow> graph_ok m'"
    using enum_links_ok [of m0 ans] f a [OF f(1)] e(1) by (auto simp: fresh_def)
  then show ?thesis using l f(2) same_keys_length [OF m'(3)] by (auto split: if_splits)
qed

subsection \<open>Configuring a link\<close>

definition valid_pad :: "media \<Rightarrow> ptr \<Rightarrow> bool" where
  "valid_pad m p \<longleftrightarrow> get_pad m p \<noteq> None"

lemma graph_pad_index:
  assumes "graph_ok m" "get_pad m p = Some a"
  shows "mp_index a = of_nat (snd p)" "snd p < 65536" "fst p < length m"
proof -
  have e: "fst p < length m" "snd p < length (me_pads (m ! fst p))" "a = me_pads (m ! fst p) ! snd p"
    using assms(2) by (auto simp: get_pad_def rd_def split: if_splits)
  have "numbered (me_pads (m ! fst p))" "room_ok m" using assms(1) e(1) by (auto simp: graph_ok_def)
  then show "mp_index a = of_nat (snd p)" "snd p < 65536" "fst p < length m"
    using e room_okD [of m "fst p"] by (auto simp: numbered_def)
qed

lemma pad_index_eq:
  assumes "graph_ok m" "get_pad m p = Some a" "get_pad m q = Some b"
  shows "fst p = fst q \<and> mp_index a = mp_index b \<longleftrightarrow> p = q"
proof -
  have u: "unat (of_nat (snd p) :: u32) = snd p" "unat (of_nat (snd q) :: u32) = snd q"
    using graph_pad_index(2) [OF assms(1,2)] graph_pad_index(2) [OF assms(1,3)] by (intro unat_of_nat_small; simp)+
  have "(of_nat (snd p) :: u32) = of_nat (snd q) \<longleftrightarrow> snd p = snd q" using u by metis
  then have "mp_index a = mp_index b \<longleftrightarrow> snd p = snd q"
    by (simp only: graph_pad_index(1) [OF assms(1,2)] graph_pad_index(1) [OF assms(1,3)])
  then show ?thesis by (auto simp: prod_eq_iff)
qed

text \<open>In a well-formed graph the search by indices is the search by pads.\<close>

lemma search_link_find:
  assumes g: "graph_ok m" and v: "valid_pad m source" "valid_pad m sink"
  shows "\<forall>l \<in> set ls. valid_pad m (ml_source l) \<and> valid_pad m (ml_sink l) \<Longrightarrow>
    search_link m source sink ls i = Some (find_link source sink ls i)"
proof (induction ls arbitrary: i)
  case (Cons l ls)
  obtain a b c d where p: "get_pad m (ml_source l) = Some a" "get_pad m (ml_sink l) = Some b" "get_pad m source = Some c" "get_pad m sink = Some d"
    using Cons.prems v by (auto simp: valid_pad_def)
  have "fst (ml_source l) = fst source \<and> mp_index a = mp_index c \<and> fst (ml_sink l) = fst sink \<and> mp_index b = mp_index d
      \<longleftrightarrow> ml_source l = source \<and> ml_sink l = sink"
    using pad_index_eq [OF g p(1,3)] pad_index_eq [OF g p(2,4)] by blast
  then show ?case using Cons by (simp add: p)
qed simp

lemma graph_link_valid:
  "graph_ok m \<Longrightarrow> get_link m p = Some l \<Longrightarrow> valid_pad m (ml_source l) \<and> valid_pad m (ml_sink l)"
  unfolding valid_pad_def graph_ok_def using links_okD [of m p l] by (auto simp: twin_ok_def)

lemma graph_entity_links_valid:
  "graph_ok m \<Longrightarrow> e < length m \<Longrightarrow> \<forall>l \<in> set (me_links (m ! e)). valid_pad m (ml_source l) \<and> valid_pad m (ml_sink l)"
  using get_link_entity graph_link_valid by metis

lemma find_link_Some:
  "find_link s t ls i = Some j \<Longrightarrow> i \<le> j \<and> j < i + length ls \<and> ml_source (ls ! (j - i)) = s \<and> ml_sink (ls ! (j - i)) = t"
  by (induction ls arbitrary: i) (fastforce simp: nth_Cons' split: if_splits)+

text \<open>The flags of a link and of its twin.\<close>

definition set_flags :: "ptr \<Rightarrow> ptr \<Rightarrow> u32 \<Rightarrow> media \<Rightarrow> media" where
  "set_flags p tw fl m = upd_link tw (\<lambda>l. l\<lparr>ml_flags := fl\<rparr>) (upd_link p (\<lambda>l. l\<lparr>ml_flags := fl\<rparr>) m)"

lemma get_set_flags:
  assumes "get_link m p = Some l" "get_link m tw = Some l'" "p \<noteq> tw"
  shows "get_link (set_flags p tw fl m) q =
    (if q = p \<or> q = tw then map_option (\<lambda>l. l\<lparr>ml_flags := fl\<rparr>) (get_link m q) else get_link m q)"
  using assms get_link_upd_link [of m p "\<lambda>l. l\<lparr>ml_flags := fl\<rparr>"]
    get_link_upd_link [of "upd_link p (\<lambda>l. l\<lparr>ml_flags := fl\<rparr>) m" tw "\<lambda>l. l\<lparr>ml_flags := fl\<rparr>" q]
  by (auto simp: set_flags_def)

lemma set_flags_same [simp]: "same_entities m (set_flags p tw fl m)"
  unfolding set_flags_def by (rule same_entities_trans [OF same_upd_link same_upd_link])

lemma set_flags_graph:
  assumes g: "graph_ok m" and l: "get_link m p = Some l" "ml_twin l = Some tw"
  shows "graph_ok (set_flags p tw fl m)"
proof -
  have ok: "links_ok m" using g by (simp add: graph_ok_def)
  obtain l' where l': "get_link m tw = Some l'" "ml_twin l' = Some p" "p \<noteq> tw"
    using links_okD [OF ok l(1)] l(2) by (auto simp: twin_ok_def)
  note gs = get_set_flags [OF l(1) l'(1) l'(3)]
  have pd: "get_pad (set_flags p tw fl m) x = get_pad m x" for x by (rule same_get_pad [OF set_flags_same])
  have "twin_ok (set_flags p tw fl m) x k" if kk: "get_link (set_flags p tw fl m) x = Some k" for x k
  proof -
    obtain k0 where k0: "get_link m x = Some k0" "k = (if x = p \<or> x = tw then k0\<lparr>ml_flags := fl\<rparr> else k0)"
      using kk unfolding gs by (cases "x = p \<or> x = tw") auto
    obtain y k1 where y: "ml_twin k0 = Some y" "get_link m y = Some k1" "ml_twin k1 = Some x"
      "ml_source k1 = ml_source k0" "ml_sink k1 = ml_sink k0" "ml_flags k1 = ml_flags k0" "fst y \<noteq> fst x"
      "{fst x, fst y} = {fst (ml_source k0), fst (ml_sink k0)}" "get_pad m (ml_source k0) \<noteq> None" "get_pad m (ml_sink k0) \<noteq> None"
      using links_okD [OF ok k0(1)] by (auto simp: twin_ok_def)
    have "x = p \<or> x = tw \<longleftrightarrow> y = p \<or> y = tw" using k0(1) y l l' by auto
    then show ?thesis
      unfolding twin_ok_def pd
      by (intro conjI exI [of _ y] exI [of _ "if y = p \<or> y = tw then k1\<lparr>ml_flags := fl\<rparr> else k1"])
        (use y k0(2) in \<open>simp_all add: gs\<close>)
  qed
  then have "links_ok (set_flags p tw fl m)" unfolding links_ok_def by blast
  moreover have "room_ok (set_flags p tw fl m)" using g unfolding set_flags_def graph_ok_def by (intro room_upd_link) simp
  moreover have "\<forall>ent \<in> set (set_flags p tw fl m). numbered (me_pads ent)"
    using g same_length [OF set_flags_same] same_fields(2) [OF set_flags_same] unfolding graph_ok_def by (metis in_set_conv_nth)
  ultimately show ?thesis by (simp add: graph_ok_def)
qed

lemma setup_link_eq:
  assumes g: "graph_ok m" and v: "valid_pad m source" "valid_pad m sink"
  shows "media_setup_link k (m, t) source sink flags =
    (case find_link source sink (me_links (m ! fst source)) 0 of
       None \<Rightarrow> Some ((m, t), - ENOENT)
     | Some i \<Rightarrow>
         let link = me_links (m ! fst source) ! i;
             fl = flags OR (ml_flags link AND MEDIA_LNK_FL_IMMUTABLE);
             ulink = link_request m source sink fl
         in if k t ulink \<noteq> 0 then Some ((m, t @ [ulink]), - int (k t ulink))
            else Some ((set_flags (fst source, i) (the (ml_twin link)) fl m, t @ [ulink]), 0))"
proof -
  have e: "fst source < length m" using v(1) by (auto simp: valid_pad_def get_pad_def rd_def split: if_splits)
  have s: "search_link m source sink (me_links (m ! fst source)) 0 = Some (find_link source sink (me_links (m ! fst source)) 0)"
    by (rule search_link_find [OF g v graph_entity_links_valid [OF g e]])
  show ?thesis
  proof (cases "find_link source sink (me_links (m ! fst source)) 0")
    case (Some i)
    have "get_link m (fst source, i) = Some (me_links (m ! fst source) ! i)"
      using find_link_Some [OF Some] e by (simp add: get_link_def)
    then have "twin_ok m (fst source, i) (me_links (m ! fst source) ! i)" using g links_okD by (simp add: graph_ok_def)
    then obtain tw l' where "ml_twin (me_links (m ! fst source) ! i) = Some tw" "get_link m tw = Some l'"
      unfolding twin_ok_def by blast
    then show ?thesis by (simp add: media_setup_link_def e s Some Let_def set_flags_def)
  qed (simp add: media_setup_link_def e s)
qed

subsection \<open>Resetting the links\<close>

definition unique_links :: "media \<Rightarrow> bool" where
  "unique_links m \<longleftrightarrow>
     (\<forall>e i j k l. get_link m (e, i) = Some k \<and> get_link m (e, j) = Some l
        \<and> ml_source k = ml_source l \<and> ml_sink k = ml_sink l \<longrightarrow> i = j)"

text \<open>A link that is disabled or may not be changed.\<close>

definition at_rest :: "media_link \<Rightarrow> bool" where
  "at_rest l \<longleftrightarrow> ml_flags l AND MEDIA_LNK_FL_IMMUTABLE \<noteq> 0 \<or> ml_flags l AND MEDIA_LNK_FL_ENABLED = 0"

lemma reset_flags: "((x AND NOT MEDIA_LNK_FL_ENABLED) OR (x AND MEDIA_LNK_FL_IMMUTABLE)) AND MEDIA_LNK_FL_ENABLED = 0"
  unfolding MEDIA_LNK_FL_ENABLED_def MEDIA_LNK_FL_IMMUTABLE_def
  by (rule bit_word_eqI) (auto simp: bit_simps bit_1_iff)

text \<open>Links keep their ends, and what is at rest stays so.\<close>

definition quieter :: "media \<Rightarrow> media \<Rightarrow> bool" where
  "quieter m m' \<longleftrightarrow> graph_ok m' \<and> same_entities m m' \<and>
     (\<forall>p. case get_link m p of
        None \<Rightarrow> get_link m' p = None
      | Some l \<Rightarrow> \<exists>l'. get_link m' p = Some l' \<and> ml_source l' = ml_source l \<and> ml_sink l' = ml_sink l \<and> (at_rest l \<longrightarrow> at_rest l'))"

lemma quieter_refl: "graph_ok m \<Longrightarrow> quieter m m"
  by (auto simp: quieter_def split: option.split)

lemma quieterD:
  assumes "quieter m m'"
  shows "graph_ok m'" "same_entities m m'" "get_link m p = None \<Longrightarrow> get_link m' p = None"
    "get_link m p = Some l \<Longrightarrow> \<exists>l'. get_link m' p = Some l' \<and> ml_source l' = ml_source l \<and> ml_sink l' = ml_sink l \<and> (at_rest l \<longrightarrow> at_rest l')"
proof -
  have c: "case get_link m p of None \<Rightarrow> get_link m' p = None
      | Some l \<Rightarrow> \<exists>l'. get_link m' p = Some l' \<and> ml_source l' = ml_source l \<and> ml_sink l' = ml_sink l \<and> (at_rest l \<longrightarrow> at_rest l')"
    using assms unfolding quieter_def by blast
  show "graph_ok m'" "same_entities m m'" using assms by (simp_all add: quieter_def)
  show "get_link m p = None \<Longrightarrow> get_link m' p = None" using c by simp
  show "get_link m p = Some l \<Longrightarrow> \<exists>l'. get_link m' p = Some l' \<and> ml_source l' = ml_source l \<and> ml_sink l' = ml_sink l \<and> (at_rest l \<longrightarrow> at_rest l')"
    using c by simp
qed

lemma quieter_trans:
  assumes "quieter a b" "quieter b c"
  shows "quieter a c"
proof -
  have "case get_link a p of None \<Rightarrow> get_link c p = None
      | Some l \<Rightarrow> \<exists>l'. get_link c p = Some l' \<and> ml_source l' = ml_source l \<and> ml_sink l' = ml_sink l \<and> (at_rest l \<longrightarrow> at_rest l')" for p
  proof (cases "get_link a p")
    case None
    then show ?thesis using quieterD(3) [OF assms(1), of p] quieterD(3) [OF assms(2), of p] by simp
  next
    case (Some l)
    then obtain l1 where "get_link b p = Some l1" "ml_source l1 = ml_source l \<and> ml_sink l1 = ml_sink l \<and> (at_rest l \<longrightarrow> at_rest l1)"
      using quieterD(4) [OF assms(1)] by blast
    then show ?thesis using quieterD(4) [OF assms(2), of p l1] Some by auto
  qed
  then show ?thesis
    using quieterD(1,2) [OF assms(2)] same_entities_trans [OF quieterD(2) [OF assms(1)]] by (simp add: quieter_def)
qed

lemma quieter_unique:
  assumes q: "quieter m m'" and u: "unique_links m"
  shows "unique_links m'"
  unfolding unique_links_def
proof (intro allI impI)
  fix e i j k l
  assume a: "get_link m' (e, i) = Some k \<and> get_link m' (e, j) = Some l \<and> ml_source k = ml_source l \<and> ml_sink k = ml_sink l"
  obtain k0 l0 where "get_link m (e, i) = Some k0" "get_link m (e, j) = Some l0"
    using a quieterD(3) [OF q] by (metis not_Some_eq option.distinct(1))
  moreover from this have "ml_source k0 = ml_source l0" "ml_sink k0 = ml_sink l0"
    using a quieterD(4) [OF q] by (metis option.inject)+
  ultimately show "i = j" using u unfolding unique_links_def by blast
qed

lemma set_flags_quieter:
  assumes g: "graph_ok m" and l: "get_link m p = Some l" "ml_twin l = Some tw" and fl: "fl AND MEDIA_LNK_FL_ENABLED = 0"
  shows "quieter m (set_flags p tw fl m)"
proof -
  obtain l' where l': "get_link m tw = Some l'" "p \<noteq> tw"
    using g links_okD [OF _ l(1)] l(2) by (auto simp: twin_ok_def graph_ok_def)
  note gs = get_set_flags [OF l(1) l']
  have "at_rest (k\<lparr>ml_flags := fl\<rparr>)" for k using fl by (simp add: at_rest_def)
  then show ?thesis
    unfolding quieter_def gs using set_flags_graph [OF g l] by (auto split: option.split)
qed

text \<open>The search finds the link itself.\<close>

lemma find_link_itself:
  assumes u: "unique_links m" and l: "get_link m (e, j) = Some l" and e: "e < length m"
  shows "find_link (ml_source l) (ml_sink l) (me_links (m ! e)) 0 = Some j"
proof (cases "find_link (ml_source l) (ml_sink l) (me_links (m ! e)) 0")
  case None
  have "find_link s t ls i = None \<Longrightarrow> k \<in> set ls \<Longrightarrow> \<not> (ml_source k = s \<and> ml_sink k = t)" for s t ls i k
    by (induction ls arbitrary: i) (auto split: if_splits)
  moreover have "l \<in> set (me_links (m ! e))" using l e by (auto simp: get_link_def rd_def split: if_splits)
  ultimately show ?thesis using None by blast
next
  case (Some i)
  then have "get_link m (e, i) = Some (me_links (m ! e) ! i)" "ml_source (me_links (m ! e) ! i) = ml_source l"
    "ml_sink (me_links (m ! e) ! i) = ml_sink l"
    using find_link_Some [OF Some] e by (simp_all add: get_link_def)
  then have "i = j" using u l unfolding unique_links_def by metis
  then show ?thesis using Some by simp
qed

lemma reset_link:
  assumes g: "graph_ok m" and u: "unique_links m" and l: "get_link m (e, j) = Some l" and s: "fst (ml_source l) = e"
  shows "\<exists>m' t' r. media_setup_link k (m, t) (ml_source l) (ml_sink l) (ml_flags l AND NOT MEDIA_LNK_FL_ENABLED) = Some ((m', t'), r)
    \<and> r \<le> 0 \<and> quieter m m' \<and> (r = 0 \<longrightarrow> (\<exists>l'. get_link m' (e, j) = Some l' \<and> at_rest l'))"
proof -
  have e: "e < length m" using l by (auto simp: get_link_def rd_def split: if_splits)
  have v: "valid_pad m (ml_source l)" "valid_pad m (ml_sink l)" using graph_link_valid [OF g l] by auto
  have j: "me_links (m ! e) ! j = l" using l e by (auto simp: get_link_def rd_def split: if_splits)
  obtain tw l' where tw: "ml_twin l = Some tw" "get_link m tw = Some l'" "(e, j) \<noteq> tw"
    using g links_okD [OF _ l] by (auto simp: graph_ok_def twin_ok_def)
  let ?fl = "(ml_flags l AND NOT MEDIA_LNK_FL_ENABLED) OR (ml_flags l AND MEDIA_LNK_FL_IMMUTABLE)"
  let ?u = "link_request m (ml_source l) (ml_sink l) ?fl"
  have eq: "media_setup_link k (m, t) (ml_source l) (ml_sink l) (ml_flags l AND NOT MEDIA_LNK_FL_ENABLED) =
      (if k t ?u \<noteq> 0 then Some ((m, t @ [?u]), - int (k t ?u)) else Some ((set_flags (e, j) tw ?fl m, t @ [?u]), 0))"
    using setup_link_eq [OF g v] find_link_itself [OF u l e] by (simp add: s j tw(1) Let_def)
  have "quieter m (set_flags (e, j) tw ?fl m)" by (rule set_flags_quieter [OF g l tw(1) reset_flags])
  moreover have "\<exists>l'. get_link (set_flags (e, j) tw ?fl m) (e, j) = Some l' \<and> at_rest l'"
    using l reset_flags [of "ml_flags l"] by (simp add: get_set_flags [OF l tw(2,3)] at_rest_def)
  ultimately show ?thesis using quieter_refl [OF g] unfolding eq by (cases "k t ?u = 0") auto
qed

lemma quieter_length:
  assumes q: "quieter m m'" and e: "e < length m"
  shows "length (me_links (m' ! e)) = length (me_links (m ! e))" "length m' = length m"
proof -
  show l: "length m' = length m" by (rule same_length [OF quieterD(2) [OF q]])
  have "i < length (me_links (m' ! e)) \<longleftrightarrow> i < length (me_links (m ! e))" for i
    using quieterD(3) [OF q, of "(e, i)"] quieterD(4) [OF q, of "(e, i)"] e l
    by (cases "i < length (me_links (m ! e))") (auto simp: get_link_def rd_def split: if_splits)
  then show "length (me_links (m' ! e)) = length (me_links (m ! e))"
    by (metis less_irrefl linorder_neqE_nat)
qed

lemma reset_entity_ok:
  "graph_ok m \<Longrightarrow> unique_links m \<Longrightarrow> e < length m \<Longrightarrow> n \<le> length (me_links (m ! e)) \<Longrightarrow>
    \<exists>m' t' r. reset_entity k e n (m, t) = Some ((m', t'), r) \<and> r \<le> 0 \<and> quieter m m' \<and>
      (r = 0 \<longrightarrow> (\<forall>j l. length (me_links (m ! e)) - n \<le> j \<and> get_link m' (e, j) = Some l \<and> fst (ml_source l) = e \<longrightarrow> at_rest l))"
proof (induction n arbitrary: m t)
  case 0
  then show ?case by (auto simp: quieter_refl get_link_def rd_def split: if_splits)
next
  case (Suc n)
  let ?j = "length (me_links (m ! e)) - Suc n"
  let ?l = "me_links (m ! e) ! ?j"
  have l: "get_link m (e, ?j) = Some ?l" using Suc.prems by (simp add: get_link_def)
  have step: "?case" if q: "quieter m m1" and r: "\<exists>l'. get_link m1 (e, ?j) = Some l' \<and> (fst (ml_source l') = e \<longrightarrow> at_rest l')"
    and c: "reset_entity k e (Suc n) (m, t) = reset_entity k e n (m1, t1)" for m1 t1
  proof -
    note len = quieter_length [OF q Suc.prems(3)]
    have n1: "e < length m1" "n \<le> length (me_links (m1 ! e))" using Suc.prems len by auto
    obtain m2 t2 r2 where h: "reset_entity k e n (m1, t1) = Some ((m2, t2), r2)" "r2 \<le> 0" "quieter m1 m2"
      and d: "r2 = 0 \<longrightarrow> (\<forall>j l. length (me_links (m1 ! e)) - n \<le> j \<and> get_link m2 (e, j) = Some l \<and> fst (ml_source l) = e \<longrightarrow> at_rest l)"
      using Suc.IH [OF quieterD(1) [OF q] quieter_unique [OF q Suc.prems(2)] n1, of t1] by blast
    have "at_rest k2" if "r2 = 0" "?j \<le> j" "get_link m2 (e, j) = Some k2" "fst (ml_source k2) = e" for j k2
    proof (cases "j = ?j")
      case True
      obtain k1 where "get_link m1 (e, ?j) = Some k1" "fst (ml_source k1) = e \<longrightarrow> at_rest k1" using r by blast
      then show ?thesis using quieterD(4) [OF h(3), of "(e, ?j)" k1] that True by auto
    next
      case False
      then have "length (me_links (m1 ! e)) - n \<le> j" using that(2) len by simp
      then show ?thesis using d that by blast
    qed
    then show ?thesis using c h(1,2) quieter_trans [OF q h(3)] by auto
  qed
  show ?case
  proof (cases "ml_flags ?l AND MEDIA_LNK_FL_IMMUTABLE \<noteq> 0 \<or> fst (ml_source ?l) \<noteq> e")
    case True
    show ?thesis
      by (rule step [OF quieter_refl [OF Suc.prems(1)], of t]) (use True l in \<open>auto simp: at_rest_def Let_def\<close>)
  next
    case False
    obtain m1 t1 r1 where a: "media_setup_link k (m, t) (ml_source ?l) (ml_sink ?l) (ml_flags ?l AND NOT MEDIA_LNK_FL_ENABLED) = Some ((m1, t1), r1)"
      "r1 \<le> 0" "quieter m m1" "r1 = 0 \<longrightarrow> (\<exists>l'. get_link m1 (e, ?j) = Some l' \<and> at_rest l')"
      using reset_link [OF Suc.prems(1,2) l, of k t] False by blast
    show ?thesis
    proof (cases "r1 = 0")
      case True
      show ?thesis
        by (rule step [OF a(3), of t1]) (use True a False in \<open>auto simp: Let_def\<close>)
    next
      case r1: False
      then have "reset_entity k e (Suc n) (m, t) = Some ((m1, t1), r1)" using a False by (simp add: Let_def)
      then show ?thesis using a r1 by auto
    qed
  qed
qed

lemma reset_entities_ok:
  "graph_ok m \<Longrightarrow> unique_links m \<Longrightarrow> n \<le> length m \<Longrightarrow>
    \<exists>m' t' r. reset_entities k n (m, t) = Some ((m', t'), r) \<and> r \<le> 0 \<and> quieter m m' \<and>
      (r = 0 \<longrightarrow> (\<forall>e j l. length m - n \<le> e \<and> get_link m' (e, j) = Some l \<and> fst (ml_source l) = e \<longrightarrow> at_rest l))"
proof (induction n arbitrary: m t)
  case 0
  then show ?case by (auto simp: quieter_refl get_link_def rd_def split: if_splits)
next
  case (Suc n)
  let ?e = "length m - Suc n"
  have e: "?e < length m" using Suc.prems by simp
  obtain m1 t1 r1 where a: "reset_entity k ?e (length (me_links (m ! ?e))) (m, t) = Some ((m1, t1), r1)" "r1 \<le> 0" "quieter m m1"
    and d1: "r1 = 0 \<longrightarrow> (\<forall>j l. get_link m1 (?e, j) = Some l \<and> fst (ml_source l) = ?e \<longrightarrow> at_rest l)"
    using reset_entity_ok [OF Suc.prems(1,2) e le_refl, of k t] by auto
  show ?case
  proof (cases "r1 = 0")
    case False
    then have "reset_entities k (Suc n) (m, t) = Some ((m1, t1), r1)" using a by (simp add: Let_def)
    then show ?thesis using a False by auto
  next
    case True
    have len: "length m1 = length m" by (rule quieter_length(2) [OF a(3) e])
    have n1: "n \<le> length m1" using Suc.prems(3) len by simp
    obtain m2 t2 r2 where h: "reset_entities k n (m1, t1) = Some ((m2, t2), r2)" "r2 \<le> 0" "quieter m1 m2"
      and d2: "r2 = 0 \<longrightarrow> (\<forall>e j l. length m1 - n \<le> e \<and> get_link m2 (e, j) = Some l \<and> fst (ml_source l) = e \<longrightarrow> at_rest l)"
      using Suc.IH [OF quieterD(1) [OF a(3)] quieter_unique [OF a(3) Suc.prems(2)] n1, of t1] by blast
    have "at_rest l" if A: "r2 = 0" "?e \<le> i" "get_link m2 (i, j) = Some l" "fst (ml_source l) = i" for i j l
    proof (cases "i = ?e")
      case False
      then have "length m1 - n \<le> i" using A(2) len by linarith
      then show ?thesis using d2 A by blast
    next
      case ie: True
      obtain l1 where l1: "get_link m1 (?e, j) = Some l1" using quieterD(3) [OF h(3), of "(?e, j)"] A ie by fastforce
      then show ?thesis using quieterD(4) [OF h(3) l1] d1 True A ie by auto
    qed
    moreover have "reset_entities k (Suc n) (m, t) = Some ((m2, t2), r2)" using a h True by (simp add: Let_def)
    ultimately show ?thesis using h quieter_trans [OF a(3) h(3)] by blast
  qed
qed

text \<open>Every link, the halves at the sinks included.\<close>

lemma reset_links_ok:
  assumes g: "graph_ok m" and u: "unique_links m"
  shows "\<exists>m' t' r. media_reset_links k (m, t) = Some ((m', t'), r) \<and> r \<le> 0 \<and> graph_ok m' \<and> same_entities m m'
    \<and> (r = 0 \<longrightarrow> (\<forall>p l. get_link m' p = Some l \<longrightarrow> at_rest l))"
proof -
  obtain m' t' r where a: "media_reset_links k (m, t) = Some ((m', t'), r)" "r \<le> 0" "quieter m m'"
    and d: "r = 0 \<longrightarrow> (\<forall>e j l. get_link m' (e, j) = Some l \<and> fst (ml_source l) = e \<longrightarrow> at_rest l)"
    using reset_entities_ok [OF g u le_refl, of k t] by (auto simp: media_reset_links_def)
  have "at_rest l" if r: "r = 0" and l: "get_link m' p = Some l" for p l
  proof -
    obtain tw l' where tw: "get_link m' tw = Some l'" "ml_source l' = ml_source l" "ml_flags l' = ml_flags l"
      "{fst p, fst tw} = {fst (ml_source l), fst (ml_sink l)}"
      using quieterD(1) [OF a(3)] links_okD [OF _ l] by (auto simp: graph_ok_def twin_ok_def)
    have "fst (ml_source l) = fst p \<or> fst (ml_source l') = fst tw" using tw(2,4) by auto
    moreover have "fst (ml_source l) = fst p \<Longrightarrow> at_rest l" using d r l by (metis prod.collapse)
    moreover have "fst (ml_source l') = fst tw \<Longrightarrow> at_rest l'" using d r tw(1) by (metis prod.collapse)
    ultimately show ?thesis using tw(3) by (auto simp: at_rest_def)
  qed
  then show ?thesis using a quieterD(1,2) [OF a(3)] by blast
qed

subsection \<open>Link descriptions\<close>

definition print_pad :: "media \<Rightarrow> ptr \<Rightarrow> string" where
  "print_pad m p = CHR 0x22 # me_name (m ! fst p) @ CHR 0x22 # CHR '':'' # show_nat (snd p)"

definition print_link :: "media \<Rightarrow> ptr \<times> ptr \<times> u32 \<Rightarrow> string" where
  "print_link m c = (case c of (s, t, fl) \<Rightarrow>
     print_pad m s @ ''->'' @ print_pad m t @ ''['' @ show_nat (unat fl) @ '']'')"

fun print_links :: "media \<Rightarrow> (ptr \<times> ptr \<times> u32) list \<Rightarrow> string" where
  "print_links m [] = []"
| "print_links m [c] = print_link m c"
| "print_links m (c # cs) = print_link m c @ '','' @ print_links m cs"

text \<open>The links set up one after the other, up to the first that fails.\<close>

fun setup_all :: "kernel \<Rightarrow> media \<times> media_link_desc list \<Rightarrow> (ptr \<times> ptr \<times> u32) list \<Rightarrow> ((media \<times> media_link_desc list) \<times> int) option" where
  "setup_all k st [] = Some (st, 0)"
| "setup_all k st ((s, t, fl) # cs) =
     (case media_setup_link k st s t fl of
        None \<Rightarrow> None
      | Some (st, r) \<Rightarrow> if r < 0 then Some (st, r) else setup_all k st cs)"

text \<open>A name that the parser reads back: short, without quotes, and of one entity only.\<close>

definition name_ok :: "media \<Rightarrow> nat \<Rightarrow> bool" where
  "name_ok m e \<longleftrightarrow> length (me_name (m ! e)) < 32 \<and> (\<forall>c \<in> set (me_name (m ! e)). \<not> is_quote c)
     \<and> (\<forall>i < length m. me_name (m ! i) = me_name (m ! e) \<longrightarrow> i = e)"

definition ends :: "media \<Rightarrow> (ptr \<times> ptr) list list" where
  "ends m = map (\<lambda>e. map (\<lambda>l. (ml_source l, ml_sink l)) (me_links e)) m"

definition link_ok :: "media \<Rightarrow> ptr \<times> ptr \<times> u32 \<Rightarrow> bool" where
  "link_ok m c \<longleftrightarrow> (case c of (s, t, fl) \<Rightarrow>
     valid_pad m s \<and> valid_pad m t \<and> name_ok m (fst s) \<and> name_ok m (fst t) \<and> (s, t) \<in> set (ends m ! fst s))"

lemma digits_not: "is_digit c \<Longrightarrow> \<not> is_blank c \<and> c \<noteq> CHR ''-'' \<and> c \<noteq> CHR ''+''"
  by (auto simp: is_digit_def is_blank_def)

lemma strtoul_show:
  assumes n: "n < 2 ^ 32" and r: "r = [] \<or> \<not> is_digit (hd r)"
  shows "strtoul (show_nat n @ r) = (of_nat n, r)"
proof -
  have d: "\<forall>c \<in> set (show_nat n). is_digit c" using show_digits by (auto simp: is_digit_def)
  obtain c cs where c: "show_nat n = c # cs" using show_nat_nonempty [of n] by (cases "show_nat n") auto
  have "takeWhile is_digit r = []" "dropWhile is_digit r = r" using r by (cases r; simp)+
  then have t: "takeWhile is_digit (show_nat n @ r) = show_nat n" "dropWhile is_digit (show_nat n @ r) = r"
    using d by (simp_all add: takeWhile_append2 dropWhile_append2)
  have b: "dropWhile is_blank (show_nat n @ r) = show_nat n @ r" "hd (show_nat n @ r) \<noteq> CHR ''-''" "hd (show_nat n @ r) \<noteq> CHR ''+''"
    using digits_not [of c] d c by auto
  show ?thesis unfolding strtoul_def Let_def b(1) using b t n digits_show [of n] show_nat_nonempty [of n] by auto
qed

lemma find_entity_unique:
  assumes "e < length m" "P (m ! e)" "\<forall>i < length m. P (m ! i) \<longrightarrow> i = e"
  shows "find_entity P m k = Some (k + e)"
  using assms
proof (induction m arbitrary: e k)
  case (Cons a m)
  show ?case
  proof (cases e)
    case (Suc f)
    have "\<not> P a" using spec [OF Cons.prems(3), of 0] Suc by simp
    have u: "\<forall>i < length m. P (m ! i) \<longrightarrow> i = f"
    proof (intro allI impI)
      fix i assume "i < length m" "P (m ! i)"
      then show "i = f" using spec [OF Cons.prems(3), of "Suc i"] Suc by simp
    qed
    have "find_entity P m (k + 1) = Some (k + 1 + f)"
      by (rule Cons.IH [OF _ _ u]) (use Cons.prems(1,2) Suc in simp_all)
    then show ?thesis using \<open>\<not> P a\<close> Suc by simp
  qed (use Cons.prems(2) in simp)
qed simp

lemma by_name_ok:
  assumes "name_ok m e" "e < length m"
  shows "media_get_entity_by_name m (me_name (m ! e) @ r) (length (me_name (m ! e))) = Some e"
proof -
  have "take (length (me_name (m ! e))) n = take (length (me_name (m ! e))) (me_name (m ! e) @ r) \<and> length n = length (me_name (m ! e))
      \<longleftrightarrow> n = me_name (m ! e)" for n by auto
  then show ?thesis
    using assms find_entity_unique [of e m "\<lambda>x. me_name x = me_name (m ! e)" 0]
    by (simp add: media_get_entity_by_name_def name_ok_def)
qed

lemma parse_print_pad:
  assumes g: "graph_ok m" and v: "valid_pad m p" and n: "name_ok m (fst p)"
    and r: "r = [] \<or> \<not> is_digit (hd r) \<and> \<not> is_blank (hd r)"
  shows "media_parse_pad m (print_pad m p @ r) = (Some p, r)"
proof -
  have e: "fst p < length m" "snd p < length (me_pads (m ! fst p))"
    using v by (auto simp: valid_pad_def get_pad_def rd_def split: if_splits)
  have pn: "snd p < me_pads_n (m ! fst p)" "snd p < 65536"
    using e room_okD [of m "fst p"] g by (auto simp: graph_ok_def)
  let ?r = "CHR 0x22 # CHR '':'' # show_nat (snd p) @ r"
  have q: "is_quote (CHR 0x22)" "\<not> is_blank (CHR 0x22)" "\<not> is_blank (CHR '':'')"
    by (simp_all add: is_quote_def is_blank_def)
  have tw: "takeWhile (\<lambda>c. \<not> is_quote c) (me_name (m ! fst p) @ ?r) = me_name (m ! fst p)"
    "dropWhile (\<lambda>c. \<not> is_quote c) (me_name (m ! fst p) @ ?r) = ?r"
    using n q by (simp_all add: name_ok_def takeWhile_append2 dropWhile_append2)
  obtain c cs where c: "show_nat (snd p) = c # cs" using show_nat_nonempty [of "snd p"] by (cases "show_nat (snd p)") auto
  then have b: "dropWhile is_blank (show_nat (snd p) @ r) = show_nat (snd p) @ r"
    using digits_not [of c] show_digits [of c "snd p"] by (simp add: is_digit_def)
  have rb: "dropWhile is_blank r = r" using r by (cases r) auto
  have st: "strtoul (show_nat (snd p) @ r) = (of_nat (snd p), r)" using r pn(2) by (intro strtoul_show) auto
  have u: "unat (of_nat (snd p) :: u32) = snd p" using pn(2) by (intro unat_of_nat_small) simp
  have num: "parse_pad_number m (fst p) (CHR '':'' # show_nat (snd p) @ r) = (Some p, r)"
    using pn(1) by (simp add: parse_pad_number_def Let_def q b st u rb)
  show ?thesis
    using by_name_ok [OF n e(1), of ?r]
    by (simp add: media_parse_pad_def print_pad_def Let_def q tw num)
qed

lemma find_link_ends:
  assumes "(s, t) \<in> set (map (\<lambda>l. (ml_source l, ml_sink l)) ls)"
  obtains i where "find_link s t ls 0 = Some i" "ml_source (ls ! i) = s" "ml_sink (ls ! i) = t"
proof -
  have "(s, t) \<in> set (map (\<lambda>l. (ml_source l, ml_sink l)) ls) \<Longrightarrow> find_link s t ls k \<noteq> None" for k
    by (induction ls arbitrary: k) auto
  then obtain i where "find_link s t ls 0 = Some i" using assms by auto
  with find_link_Some [OF this] that show ?thesis by simp
qed

lemma parse_print_link:
  assumes g: "graph_ok (fst st)" and ok: "link_ok (fst st) (s, t, fl)" and r: "r = [] \<or> \<not> is_blank (hd r)"
  shows "media_parse_setup_link k st (print_link (fst st) (s, t, fl) @ r) = map_option (\<lambda>x. (x, r)) (media_setup_link k st s t fl)"
proof -
  let ?m = "fst st"
  have v: "valid_pad ?m s" "valid_pad ?m t" "name_ok ?m (fst s)" "name_ok ?m (fst t)" "(s, t) \<in> set (ends ?m ! fst s)"
    using ok by (simp_all add: link_ok_def)
  have e: "fst s < length ?m" using v(1) by (auto simp: valid_pad_def get_pad_def rd_def split: if_splits)
  obtain i where i: "find_link s t (me_links (?m ! fst s)) 0 = Some i" "ml_source (me_links (?m ! fst s) ! i) = s"
    "ml_sink (me_links (?m ! fst s) ! i) = t"
    using find_link_ends [of s t "me_links (?m ! fst s)"] v(5) e by (auto simp: ends_def)
  let ?r = "''['' @ show_nat (unat fl) @ '']'' @ r"
  have nd: "\<not> is_digit (CHR ''-'')" "\<not> is_blank (CHR ''-'')" "\<not> is_digit (CHR ''['')" "\<not> is_blank (CHR ''['')"
    "\<not> is_digit (CHR '']'')" "\<not> is_blank (CHR '']'')" by (simp_all add: is_digit_def is_blank_def)
  have p: "print_link ?m (s, t, fl) @ r = print_pad ?m s @ ''->'' @ print_pad ?m t @ ?r" by (simp add: print_link_def)
  have a: "media_parse_pad ?m (print_pad ?m s @ ''->'' @ print_pad ?m t @ ?r) = (Some s, ''->'' @ print_pad ?m t @ ?r)"
    by (rule parse_print_pad [OF g v(1,3)]) (simp add: nd)
  have b: "media_parse_pad ?m (print_pad ?m t @ ?r) = (Some t, ?r)"
    by (rule parse_print_pad [OF g v(2,4)]) (simp add: nd)
  have l: "media_parse_link ?m (print_link ?m (s, t, fl) @ r) = (Some (fst s, i), ?r)"
    using a b by (simp add: media_parse_link_def p i(1))
  have f: "strtoul (show_nat (unat fl) @ '']'' @ r) = (fl, '']'' @ r)"
    using strtoul_show [of "unat fl" "'']'' @ r"] by (simp add: nd)
  have rb: "dropWhile is_blank r = r" using r by (cases r) auto
  show ?thesis using f by (simp add: media_parse_setup_link_def l Let_def nd rb i)
qed

lemma ends_upd:
  assumes "\<And>l. ml_source (f l) = ml_source l \<and> ml_sink (f l) = ml_sink l"
  shows "ends (upd_link p f m) = ends m"
proof (cases "fst p < length m")
  case True
  let ?g = "\<lambda>l. (ml_source l, ml_sink l)"
  have "map ?g ((me_links (m ! fst p))[snd p := f (me_links (m ! fst p) ! snd p)]) = map ?g (me_links (m ! fst p))"
  proof (cases "snd p < length (me_links (m ! fst p))")
    case True
    then show ?thesis using list_update_id [of "map ?g (me_links (m ! fst p))" "snd p"] by (simp add: map_update assms)
  qed (simp add: list_update_beyond)
  then show ?thesis
    using True list_update_id [of "ends m" "fst p"] by (simp add: ends_def upd_link_def upd_entity_def map_update)
qed (simp add: ends_def upd_link_def upd_entity_def list_update_beyond)

lemma setup_link_keeps:
  assumes g: "graph_ok m" and v: "valid_pad m s" "valid_pad m t" and r: "media_setup_link k (m, tr) s t fl = Some ((m', tr'), r)"
  shows "graph_ok m' \<and> same_entities m m' \<and> ends m' = ends m"
proof (cases "find_link s t (me_links (m ! fst s)) 0")
  case None
  then show ?thesis using r g by (simp add: setup_link_eq [OF g v])
next
  case (Some i)
  let ?l = "me_links (m ! fst s) ! i"
  have e: "fst s < length m" using v(1) by (auto simp: valid_pad_def get_pad_def rd_def split: if_splits)
  have l: "get_link m (fst s, i) = Some ?l" using find_link_Some [OF Some] e by (simp add: get_link_def)
  obtain tw where tw: "ml_twin ?l = Some tw" using g links_okD [OF _ l] by (auto simp: graph_ok_def twin_ok_def)
  have "ends (set_flags (fst s, i) tw x m) = ends m" for x by (simp add: set_flags_def ends_upd)
  then show ?thesis
    using r Some g set_flags_graph [OF g l tw] by (auto simp: setup_link_eq [OF g v] Let_def tw split: if_splits)
qed

lemma link_ok_same:
  assumes "same_entities m m'" "ends m' = ends m" "link_ok m c"
  shows "link_ok m' c" "print_link m' c = print_link m c"
proof -
  obtain s t fl where c: "c = (s, t, fl)" by (metis surj_pair)
  have e: "fst s < length m" "fst t < length m"
    using assms(3) c by (auto simp: link_ok_def valid_pad_def get_pad_def rd_def split: if_splits)
  have "name_ok m' x = name_ok m x" if "x < length m" for x
    using that same_fields(4) [OF assms(1)] same_length [OF assms(1)] by (auto simp: name_ok_def)
  then show "link_ok m' c" using assms e by (simp add: c link_ok_def valid_pad_def same_get_pad)
  show "print_link m' c = print_link m c" using e same_fields(4) [OF assms(1)] by (simp add: c print_link_def print_pad_def)
qed

lemma parse_print_links:
  "cs \<noteq> [] \<Longrightarrow> graph_ok m \<Longrightarrow> \<forall>c \<in> set cs. link_ok m c \<Longrightarrow>
    media_parse_setup_links k (m, tr) (print_links m cs) = setup_all k (m, tr) cs"
proof (induction cs arbitrary: m tr)
  case (Cons c cs)
  obtain s t fl where c: "c = (s, t, fl)" by (metis surj_pair)
  have ok: "link_ok m (s, t, fl)" using Cons.prems(3) c by simp
  have v: "valid_pad m s" "valid_pad m t" using ok by (simp_all add: link_ok_def)
  let ?r = "if cs = [] then [] else '','' @ print_links m cs"
  have p: "print_links m (c # cs) = print_link m (s, t, fl) @ ?r" by (cases cs) (simp_all add: c)
  have one: "media_parse_setup_link k (m, tr) (print_link m (s, t, fl) @ ?r) = map_option (\<lambda>x. (x, ?r)) (media_setup_link k (m, tr) s t fl)"
    using parse_print_link [of "(m, tr)" s t fl ?r k] Cons.prems(2) ok by (simp add: is_blank_def)
  show ?case
  proof (cases "media_setup_link k (m, tr) s t fl")
    case None
    then show ?thesis unfolding p by (subst media_parse_setup_links.simps) (simp add: one c)
  next
    case (Some x)
    obtain m1 t1 r1 where x: "x = ((m1, t1), r1)" by (metis surj_pair)
    have k: "graph_ok m1" "same_entities m m1" "ends m1 = ends m"
      using setup_link_keeps [OF Cons.prems(2) v, of k tr fl m1 t1 r1] Some x by simp_all
    have ok1: "\<forall>c \<in> set cs. link_ok m1 c" using Cons.prems(3) link_ok_same(1) [OF k(2,3)] by simp
    have "print_link m1 d = print_link m d" if "d \<in> set cs" for d
      using link_ok_same(2) [OF k(2,3), of d] Cons.prems(3) that by simp
    then have pr: "print_links m1 cs = print_links m cs" by (induction m cs rule: print_links.induct) auto
    show ?thesis
      unfolding p using Some x Cons.IH [OF _ k(1) ok1, of t1] pr
      by (subst media_parse_setup_links.simps) (simp add: one c)
  qed
qed simp

lemma devname_undefined_iff:
  "media_get_devname_sysfs link_of stat_of ent = None \<longleftrightarrow>
    17 \<le> length (show_nat (unat (me_major ent))) + length (show_nat (unat (me_minor ent))) \<or>
    (\<exists>target. link_of (''/sys/dev/char/'' @ show_nat (unat (me_major ent)) @ '':'' @ show_nat (unat (me_minor ent))) = Some target
       \<and> length target < 1024 \<and> CHR ''/'' \<in> set target \<and> 27 \<le> length (takeWhile (\<lambda>c. c \<noteq> CHR ''/'') (rev target)))"
  by (auto simp: media_get_devname_sysfs_def Let_def split: option.split)

subsection \<open>An example\<close>

definition example_infos :: "entity_info list" where
  "example_infos =
     [\<lparr>ei_id = 1, ei_name = ''a'', ei_type = 0, ei_pads = 1, ei_links = 1, ei_major = 0, ei_minor = 0\<rparr>,
      \<lparr>ei_id = 2, ei_name = ''b'', ei_type = 0, ei_pads = 1, ei_links = 0, ei_major = 0, ei_minor = 0\<rparr>]"

definition example_ans :: links_answer where
  "example_ans i =
     (if i = 1 then
        Inr ([\<lparr>mp_index = 0, mp_flags = 2\<rparr>],
          [\<lparr>ld_source_entity = 1, ld_source_index = 0, ld_source_flags = 2, ld_sink_entity = 2, ld_sink_index = 0,
            ld_sink_flags = 1, ld_flags = 1\<rparr>])
      else Inr ([\<lparr>mp_index = 0, mp_flags = 1\<rparr>], []))"

definition example_graph :: media where
  "example_graph =
     [\<lparr>me_id = 1, me_name = ''a'', me_type = 0, me_pads_n = 1, me_links_n = 1, me_major = 0, me_minor = 0,
       me_pads = [\<lparr>mp_index = 0, mp_flags = 2\<rparr>],
       me_links = [\<lparr>ml_source = (0, 0), ml_sink = (1, 0), ml_twin = Some (1, 0), ml_flags = 1\<rparr>], me_max_links = 2, me_devname = [], me_fd = - 1\<rparr>,
      \<lparr>me_id = 2, me_name = ''b'', me_type = 0, me_pads_n = 1, me_links_n = 0, me_major = 0, me_minor = 0,
       me_pads = [\<lparr>mp_index = 0, mp_flags = 1\<rparr>],
       me_links = [\<lparr>ml_source = (0, 0), ml_sink = (1, 0), ml_twin = Some (0, 0), ml_flags = 1\<rparr>], me_max_links = 1, me_devname = [], me_fd = - 1\<rparr>]"

lemma example_entities:
  "media_enum_entities lk st 22 example_infos [] = Some (map entity_of example_infos, 0)"
  by (simp add: example_infos_def media_entity_type_def EINVAL_def entity_of_def)

lemma example_by_id:
  "map me_id m = [1, 2] \<Longrightarrow> media_get_entity_by_id m 1 = Some 0 \<and> media_get_entity_by_id m 2 = Some 1"
  by (auto simp: media_get_entity_by_id_def MEDIA_ENT_ID_FLAG_NEXT_def map_eq_Cons_conv)

lemma example_answers: "answers_ok example_ans (map entity_of example_infos)"
proof -
  have "map me_id (map entity_of example_infos) = [1, 2]" by (simp add: example_infos_def entity_of_def)
  note example_by_id [OF this]
  then show ?thesis
    by (auto simp: answers_ok_def answer_ok_def example_infos_def entity_of_def example_ans_def numbered_def filled_def desc_ok_def)
qed

lemma example_open: "media_open 3 True lk st 22 example_infos example_ans = Some (Some example_graph, [])"
  unfolding media_open_def example_entities
  by (simp add: media_enum_links_def example_infos_def entity_of_def example_ans_def filled_def media_get_entity_by_id_def
    MEDIA_ENT_ID_FLAG_NEXT_def enum_link_def media_entity_add_link_def upd_link_def upd_entity_def blank_link_def
    example_graph_def Let_def)

lemma example_graph_ok: "graph_ok example_graph"
proof -
  have "graph_ok example_graph \<and> length example_graph = length example_infos \<and> ([] :: int list) = []"
  proof (rule open_graph [OF example_open [of "\<lambda>_. None" "\<lambda>_. None"]])
    fix m0 assume "media_enum_entities (\<lambda>_. None) (\<lambda>_. None) 22 example_infos [] = Some (m0, 0)"
    then show "answers_ok example_ans m0" using example_answers by (simp add: example_entities)
  qed
  then show ?thesis by simp
qed

lemma example_valid: "valid_pad example_graph (0, 0)" "valid_pad example_graph (1, 0)"
  by (simp_all add: valid_pad_def get_pad_def example_graph_def)

lemma example_unique: "unique_links example_graph"
  by (auto simp: unique_links_def get_link_def example_graph_def rd_def nth_Cons' split: if_splits)

lemma example_link_ok: "link_ok example_graph ((0, 0), (1, 0), 0)"
  using example_valid
  by (auto simp: link_ok_def name_ok_def ends_def example_graph_def is_quote_def nth_Cons' split: if_splits)

subsection \<open>Properties\<close>



text \<open>C19: configuring a link between two pads of a well-formed graph: without such a link the answer is
  \<open>-ENOENT\<close> and no request is made; otherwise one request with the new flags, the immutable flag kept; a
  refusal is returned and changes nothing, and acceptance stores the flags in both halves. The graph
  stays well-formed and its entities, pads and link ends stay as they are.\<close>

theorem media_setup_link_outcome:
  assumes "graph_ok m" "valid_pad m s" "valid_pad m t"
  shows "media_setup_link k (m, tr) s t fl =
    (case find_link s t (me_links (m ! fst s)) 0 of
       None \<Rightarrow> Some ((m, tr), - ENOENT)
     | Some i \<Rightarrow>
         let link = me_links (m ! fst s) ! i;
             fl = fl OR (ml_flags link AND MEDIA_LNK_FL_IMMUTABLE);
             ulink = link_request m s t fl
         in if k tr ulink \<noteq> 0 then Some ((m, tr @ [ulink]), - int (k tr ulink))
            else Some ((set_flags (fst s, i) (the (ml_twin link)) fl m, tr @ [ulink]), 0))
    \<and> (\<forall>m' tr' r. media_setup_link k (m, tr) s t fl = Some ((m', tr'), r) \<longrightarrow> graph_ok m' \<and> same_entities m m' \<and> ends m' = ends m)"
  using setup_link_eq [OF assms] setup_link_keeps [OF assms] by blast

lemma media_setup_link_outcome_witness:
  "media_setup_link (\<lambda>_ _. 16) (example_graph, []) (0, 0) (1, 0) 0 =
    Some ((example_graph, [link_request example_graph (0, 0) (1, 0) 0]), - 16)"
  using media_setup_link_outcome [OF example_graph_ok example_valid, of "\<lambda>_ _. 16" "[]" 0]
  by (simp add: example_graph_def MEDIA_LNK_FL_IMMUTABLE_def)

text \<open>C20: resetting all links of a well-formed graph in which no two links of an entity have the same ends:
  it is always defined, its answer is 0 or the error of the first refused request, and with 0 every link
  that is not immutable is disabled, at both its ends.\<close>

theorem media_reset_links_disables:
  assumes "graph_ok m" "unique_links m"
  shows "\<exists>m' tr' r. media_reset_links k (m, tr) = Some ((m', tr'), r) \<and> r \<le> 0 \<and> graph_ok m' \<and> same_entities m m'
    \<and> (r = 0 \<longrightarrow> (\<forall>p l. get_link m' p = Some l \<longrightarrow> at_rest l))"
  using assms by (rule reset_links_ok)

lemma media_reset_links_disables_witness:
  "\<exists>m' tr' r. media_reset_links (\<lambda>_ _. 0) (example_graph, []) = Some ((m', tr'), r) \<and> r \<le> 0 \<and> graph_ok m' \<and> same_entities example_graph m'
    \<and> (r = 0 \<longrightarrow> (\<forall>p l. get_link m' p = Some l \<longrightarrow> at_rest l))"
  by (rule media_reset_links_disables [OF example_graph_ok example_unique])

text \<open>C21: the textual description of any list of existing links, with names in quotes and numbers in decimal,
  is parsed back: the links are set up one after the other with the flags written, up to the first that
  is refused.\<close>

theorem media_parse_setup_links_printed:
  assumes "cs \<noteq> []" "graph_ok m" "\<forall>c \<in> set cs. link_ok m c"
  shows "media_parse_setup_links k (m, tr) (print_links m cs) = setup_all k (m, tr) cs"
  using assms by (rule parse_print_links)

lemma media_parse_setup_links_printed_witness:
  "media_parse_setup_links (\<lambda>_ _. 1) (example_graph, []) [CHR 0x22, CHR ''a'', CHR 0x22, CHR '':'', CHR ''0'', CHR ''-'', CHR ''>'',
      CHR 0x22, CHR ''b'', CHR 0x22, CHR '':'', CHR ''0'', CHR ''['', CHR ''0'', CHR '']'']
    = setup_all (\<lambda>_ _. 1) (example_graph, []) [((0, 0), (1, 0), 0)]"
proof -
  have "print_links example_graph [((0, 0), (1, 0), 0)] = [CHR 0x22, CHR ''a'', CHR 0x22, CHR '':'', CHR ''0'', CHR ''-'', CHR ''>'',
      CHR 0x22, CHR ''b'', CHR 0x22, CHR '':'', CHR ''0'', CHR ''['', CHR ''0'', CHR '']'']"
    by (simp add: print_link_def print_pad_def example_graph_def show_nat.simps char_of_def bit_0)
  then show ?thesis
    using media_parse_setup_links_printed [OF _ example_graph_ok, of "[((0, 0), (1, 0), 0)]" "\<lambda>_ _. 1" "[]"] example_link_ok by simp
qed

text \<open>The two arrays of 32 characters of \<open>media_get_devname_sysfs\<close> overflow exactly for device numbers
  of seventeen or more digits together, and for link targets whose last component has 27 characters or
  more.\<close>

lemma media_devname_overflow_iff:
  "media_get_devname_sysfs link_of stat_of ent = None \<longleftrightarrow>
    17 \<le> length (show_nat (unat (me_major ent))) + length (show_nat (unat (me_minor ent))) \<or>
    (\<exists>target. link_of (''/sys/dev/char/'' @ show_nat (unat (me_major ent)) @ '':'' @ show_nat (unat (me_minor ent))) = Some target
       \<and> length target < 1024 \<and> CHR ''/'' \<in> set target \<and> 27 \<le> length (takeWhile (\<lambda>c. c \<noteq> CHR ''/'') (rev target)))"
  by (rule devname_undefined_iff)

end
