(* ===== verification/ExifSave.thy ===== *)
theory ExifSave
  imports ExifData
begin

text \<open>
  The writer of EXIF data objects (\<open>exif_data_save_data\<close> of \<open>exif-data.c\<close>). The code builds the block in
  place: it grows it with \<open>realloc\<close>, writes the records of a directory into the space it has made, lets
  the values and further directories follow, and sorts the records at the end. Here the block is
  the list \<open>d\<close>, whose length is \<open>*ds\<close>; fresh memory holds \<open>g\<close>; a write outside the block, or a read
  outside the value of an entry, is \<open>None\<close>. A maker note is written by the argument \<open>ms\<close>: from the
  note and the offset it will have, the note and its block.
\<close>

subsection \<open>Writing into the block\<close>

definition exif_mem_realloc :: "(nat \<Rightarrow> bool) \<Rightarrow> (nat \<Rightarrow> u8) \<Rightarrow> u8 list \<Rightarrow> u32 \<Rightarrow> u8 list option" where
  "exif_mem_realloc al g d ts =
     (if al (unat ts) then Some (take (unat ts) d @ map g [length d ..< unat ts]) else None)"

definition put :: "nat \<Rightarrow> u8 list \<Rightarrow> u8 list \<Rightarrow> u8 list option" where
  "put p bs d = (if p + length bs \<le> length d then Some (write_at p bs d) else None)"

definition dlen :: "u8 list \<Rightarrow> u32" where
  "dlen d = of_nat (length d)"

subsection \<open>An entry\<close>

text \<open>A maker note that has been interpreted is written afresh into its entry.\<close>

definition save_maker_note ::
  "('m \<Rightarrow> u32 \<Rightarrow> 'm \<times> u8 list option) \<Rightarrow> 'm exif_data \<Rightarrow> exif_entry \<Rightarrow> u32 \<Rightarrow> 'm exif_data \<times> exif_entry" where
  "save_maker_note ms data e o' =
     (if ed_options data AND EXIF_DATA_OPTION_DONT_CHANGE_MAKER_NOTE = 0
      then case ed_md data of
             None \<Rightarrow> (data, e)
           | Some m \<Rightarrow>
               if unat (en_tag e) = EXIF_TAG_MAKER_NOTE
               then case ms m o' of (m', b) \<Rightarrow>
                 (data\<lparr>ed_md := Some m'\<rparr>,
                  let n = (case b of None \<Rightarrow> 0 | Some b' \<Rightarrow> of_nat (length b'))
                  in e\<lparr>en_data := b, en_size := n, en_components := n\<rparr>)
               else (data, e)
      else (data, e))"

text \<open>The value, of \<open>s\<close> bytes at offset \<open>doff\<close>; a value of less than four bytes is filled up.\<close>

definition save_value :: "exif_entry \<Rightarrow> u32 \<Rightarrow> u32 \<Rightarrow> u8 list \<Rightarrow> u8 list option" where
  "save_value e s doff d = do {
     bytes \<leftarrow> (case en_data e of None \<Rightarrow> Some (replicate (unat s) 0) | Some b \<Rightarrow> get_bytes b 0 (unat s));
     d' \<leftarrow> put (6 + unat doff) bytes d;
     if s < 4 then put (6 + unat doff + unat s) (replicate (4 - unat s) 0) d' else Some d' }"

definition exif_data_save_data_entry ::
  "(nat \<Rightarrow> bool) \<Rightarrow> (nat \<Rightarrow> u8) \<Rightarrow> ('m \<Rightarrow> u32 \<Rightarrow> 'm \<times> u8 list option) \<Rightarrow> 'm exif_data \<Rightarrow> exif_entry \<Rightarrow> u8 list \<Rightarrow> u32 \<Rightarrow>
   ('m exif_data \<times> exif_entry \<times> u8 list) option" where
  "exif_data_save_data_entry al g ms data e0 d0 offset = do {
     let p = 6 + unat offset;
     d1 \<leftarrow> put p (exif_set_short (ed_order data) (en_tag e0)) d0;
     d2 \<leftarrow> put (p + 2) (exif_set_short (ed_order data) (of_nat (en_format e0))) d1;
     let (data', e) = save_maker_note ms data e0 (dlen d2 - 6);
     d3 \<leftarrow> put (p + 4) (exif_set_long (ed_order data) (en_components e)) d2;
     let s = fsize (en_format e) * en_components e;
     if 4 < s then
       (let doff = dlen d3 - 6; pad = s AND 1 \<noteq> 0; ts = dlen d3 + s + (if pad then 1 else 0)
        in case exif_mem_realloc al g d3 ts of
             None \<Rightarrow> Some (data', e, d3)
           | Some d4 \<Rightarrow> do {
               d5 \<leftarrow> put (p + 8) (exif_set_long (ed_order data) doff) d4;
               d6 \<leftarrow> (if pad then put (length d5 - 1) [0] d5 else Some d5);
               d7 \<leftarrow> save_value e s doff d6;
               Some (data', e, d7) })
     else do {
       d7 \<leftarrow> save_value e s (offset + 8) d3;
       Some (data', e, d7) }
   }"

primrec save_entries ::
  "(nat \<Rightarrow> bool) \<Rightarrow> (nat \<Rightarrow> u8) \<Rightarrow> ('m \<Rightarrow> u32 \<Rightarrow> 'm \<times> u8 list option) \<Rightarrow> exif_ifd \<Rightarrow> u32 \<Rightarrow> nat \<Rightarrow> nat \<Rightarrow>
   'm exif_data \<Rightarrow> u8 list \<Rightarrow> ('m exif_data \<times> u8 list) option" where
  "save_entries al g ms ifd offset j 0 data d = Some (data, d)"
| "save_entries al g ms ifd offset j (Suc n) data d = do {
     (data', e, d') \<leftarrow> exif_data_save_data_entry al g ms data (ed_ifd data ifd ! j) d (offset + 12 * of_nat j);
     save_entries al g ms ifd offset (j + 1) n (ifd_upd ifd ((ed_ifd data' ifd)[j := e]) data') d' }"

subsection \<open>A directory\<close>

definition cmp_func :: "u8 list \<Rightarrow> u8 list \<Rightarrow> exif_byte_order \<Rightarrow> int" where
  "cmp_func p1 p2 o' =
     (let tag1 = exif_get_short o' p1; tag2 = exif_get_short o' p2
      in if tag1 < tag2 then -1 else if tag2 < tag1 then 1 else 0)"

text \<open>The sort by \<open>cmp_func\<close> of \<open>n\<close> records of twelve bytes that end before \<open>p\<close>; equal tags keep their order.\<close>

definition sort_records :: "exif_byte_order \<Rightarrow> nat \<Rightarrow> nat \<Rightarrow> u8 list \<Rightarrow> u8 list option" where
  "sort_records order p n d =
     (if p < 12 * n \<or> length d < p then None
      else Some (write_at (p - 12 * n)
             (concat (sort_key (exif_get_short order) (map (\<lambda>k. slice (p - 12 * n + 12 * k) 12 d) [0..<n]))) d))"

definition n_pointers :: "'m exif_data \<Rightarrow> exif_ifd \<Rightarrow> nat" where
  "n_pointers data ifd =
     (if ifd = EXIF_IFD_0 then
        (if ed_ifd data EXIF_IFD_EXIF \<noteq> [] \<or> ed_ifd data EXIF_IFD_INTEROPERABILITY \<noteq> [] then 1 else 0) +
        (if ed_ifd data EXIF_IFD_GPS \<noteq> [] then 1 else 0)
      else if ifd = EXIF_IFD_EXIF then (if ed_ifd data EXIF_IFD_INTEROPERABILITY \<noteq> [] then 1 else 0)
      else 0)"

definition n_thumbnail :: "'m exif_data \<Rightarrow> exif_ifd \<Rightarrow> nat" where
  "n_thumbnail data ifd = (if ifd = EXIF_IFD_1 \<and> ed_size data \<noteq> 0 then 2 else 0)"

text \<open>A record with a single long value.\<close>

definition put_long_record :: "exif_byte_order \<Rightarrow> nat \<Rightarrow> u32 \<Rightarrow> u32 \<Rightarrow> u8 list \<Rightarrow> u8 list option" where
  "put_long_record order tag v offset d = do {
     let p = 6 + unat offset;
     d1 \<leftarrow> put p (exif_set_short order (of_nat tag)) d;
     d2 \<leftarrow> put (p + 2) (exif_set_short order (of_nat EXIF_FORMAT_LONG)) d1;
     d3 \<leftarrow> put (p + 4) (exif_set_long order 1) d2;
     put (p + 8) (exif_set_long order v) d3 }"

text \<open>A pointer to a directory, with the directory it points to; \<open>sub\<close> is the recursive call.\<close>

definition save_pointer ::
  "('m exif_data \<Rightarrow> exif_ifd \<Rightarrow> u8 list \<Rightarrow> u32 \<Rightarrow> ('m exif_data \<times> u8 list) option) \<Rightarrow> nat \<Rightarrow> exif_ifd \<Rightarrow>
   'm exif_data \<times> u8 list \<times> u32 \<Rightarrow> ('m exif_data \<times> u8 list \<times> u32) option" where
  "save_pointer sub tag i st = (case st of (data, d, offset) \<Rightarrow> do {
     d1 \<leftarrow> put_long_record (ed_order data) tag (dlen d - 6) offset d;
     (data', d') \<leftarrow> sub data i d1 (dlen d1 - 6);
     Some (data', d', offset + 12) })"

text \<open>The thumbnail; the result has no offset when memory is refused and the code returns.\<close>

definition save_thumbnail ::
  "(nat \<Rightarrow> bool) \<Rightarrow> (nat \<Rightarrow> u8) \<Rightarrow> 'm exif_data \<Rightarrow> u8 list \<Rightarrow> u32 \<Rightarrow> (u8 list \<times> u32 option) option" where
  "save_thumbnail al g data d offset = do {
     d1 \<leftarrow> put_long_record (ed_order data) EXIF_TAG_JPEG_INTERCHANGE_FORMAT (dlen d - 6) offset d;
     let ts = dlen d1 + ed_size data;
     case exif_mem_realloc al g d1 ts of
       None \<Rightarrow> Some (d1, None)
     | Some d2 \<Rightarrow> do {
         bytes \<leftarrow> get_bytes (case ed_data data of None \<Rightarrow> [] | Some b \<Rightarrow> b) 0 (unat (ed_size data));
         d3 \<leftarrow> (if length d2 < unat (ed_size data) then None else put (length d2 - unat (ed_size data)) bytes d2);
         d4 \<leftarrow> put_long_record (ed_order data) EXIF_TAG_JPEG_INTERCHANGE_FORMAT_LENGTH (ed_size data) (offset + 12) d3;
         Some (d4, Some (offset + 24)) }
   }"

definition save_special ::
  "(nat \<Rightarrow> bool) \<Rightarrow> (nat \<Rightarrow> u8) \<Rightarrow> ('m exif_data \<Rightarrow> exif_ifd \<Rightarrow> u8 list \<Rightarrow> u32 \<Rightarrow> ('m exif_data \<times> u8 list) option) \<Rightarrow>
   exif_ifd \<Rightarrow> 'm exif_data \<Rightarrow> u8 list \<Rightarrow> u32 \<Rightarrow> ('m exif_data \<times> u8 list \<times> u32 option) option" where
  "save_special al g sub ifd data d offset =
     (if ifd = EXIF_IFD_0 then do {
        st \<leftarrow> (if ed_ifd data EXIF_IFD_EXIF \<noteq> [] \<or> ed_ifd data EXIF_IFD_INTEROPERABILITY \<noteq> []
               then save_pointer sub EXIF_TAG_EXIF_IFD_POINTER EXIF_IFD_EXIF (data, d, offset)
               else Some (data, d, offset));
        (data', d', offset') \<leftarrow> (if ed_ifd (fst st) EXIF_IFD_GPS \<noteq> []
               then save_pointer sub EXIF_TAG_GPS_INFO_IFD_POINTER EXIF_IFD_GPS st else Some st);
        Some (data', d', Some offset') }
      else if ifd = EXIF_IFD_EXIF then do {
        (data', d', offset') \<leftarrow> (if ed_ifd data EXIF_IFD_INTEROPERABILITY \<noteq> []
               then save_pointer sub EXIF_TAG_INTEROPERABILITY_IFD_POINTER EXIF_IFD_INTEROPERABILITY (data, d, offset)
               else Some (data, d, offset));
        Some (data', d', Some offset') }
      else if ifd = EXIF_IFD_1 \<and> ed_size data \<noteq> 0 then do {
        (d', o') \<leftarrow> save_thumbnail al g data d offset;
        Some (data, d', o') }
      else Some (data, d, Some offset))"

text \<open>The end of the directory: the offset of the next one, and for directory 0 the next one itself.\<close>

definition save_next ::
  "('m exif_data \<Rightarrow> exif_ifd \<Rightarrow> u8 list \<Rightarrow> u32 \<Rightarrow> ('m exif_data \<times> u8 list) option) \<Rightarrow>
   exif_ifd \<Rightarrow> 'm exif_data \<Rightarrow> u8 list \<Rightarrow> u32 \<Rightarrow> ('m exif_data \<times> u8 list) option" where
  "save_next sub ifd data d offset =
     (if ifd = EXIF_IFD_0 \<and> (ed_ifd data EXIF_IFD_1 \<noteq> [] \<or> ed_size data \<noteq> 0) then do {
        d1 \<leftarrow> put (6 + unat offset) (exif_set_long (ed_order data) (dlen d - 6)) d;
        sub data EXIF_IFD_1 d1 (dlen d1 - 6) }
      else do {
        d1 \<leftarrow> put (6 + unat offset) (exif_set_long (ed_order data) 0) d;
        Some (data, d1) })"

text \<open>
  \<open>exif_data_save_data_content\<close>: the directories nest at most three deep (0, EXIF, interoperability), and
  \<open>k\<close> is the depth that is left.
\<close>

primrec exif_data_save_data_content ::
  "(nat \<Rightarrow> bool) \<Rightarrow> (nat \<Rightarrow> u8) \<Rightarrow> ('m \<Rightarrow> u32 \<Rightarrow> 'm \<times> u8 list option) \<Rightarrow> nat \<Rightarrow>
   'm exif_data \<Rightarrow> exif_ifd \<Rightarrow> u8 list \<Rightarrow> u32 \<Rightarrow> ('m exif_data \<times> u8 list) option" where
  "exif_data_save_data_content al g ms 0 data ifd d offset = None"
| "exif_data_save_data_content al g ms (Suc k) data ifd d offset =
     (if ifd = EXIF_IFD_COUNT then Some (data, d)
      else
        let count = length (ed_ifd data ifd);
            n = count + n_pointers data ifd + n_thumbnail data ifd;
            ts = dlen d + (2 + of_nat n * 12 + 4)
        in case exif_mem_realloc al g d ts of
             None \<Rightarrow> Some (data, d)
           | Some d1 \<Rightarrow> do {
               d2 \<leftarrow> put (6 + unat offset) (exif_set_short (ed_order data) (of_nat n)) d1;
               (data3, d3) \<leftarrow> save_entries al g ms ifd (offset + 2) 0 count data d2;
               (data4, d4, o4) \<leftarrow> save_special al g (exif_data_save_data_content al g ms k) ifd data3 d3
                                    (offset + 2 + 12 * of_nat count);
               case o4 of
                 None \<Rightarrow> Some (data4, d4)
               | Some o' \<Rightarrow> do {
                   d5 \<leftarrow> sort_records (ed_order data4) (6 + unat o') n d4;
                   save_next (exif_data_save_data_content al g ms k) ifd data4 d5 o' } })"

definition exif_data_save_data ::
  "(nat \<Rightarrow> bool) \<Rightarrow> (nat \<Rightarrow> u8) \<Rightarrow> ('m \<Rightarrow> u32 \<Rightarrow> 'm \<times> u8 list option) \<Rightarrow> 'm exif_data \<Rightarrow>
   ('m exif_data \<times> u8 list option) option" where
  "exif_data_save_data al g ms data =
     (case exif_data_alloc al 14 of
        None \<Rightarrow> Some (data, None)
      | Some d \<Rightarrow> do {
          d1 \<leftarrow> put 0 ExifHeader d;
          d2 \<leftarrow> put 6 (if ed_order data = EXIF_BYTE_ORDER_INTEL then [0x49, 0x49] else [0x4d, 0x4d]) d1;
          d3 \<leftarrow> put 8 (exif_set_short (ed_order data) 0x2a) d2;
          d4 \<leftarrow> put 10 (exif_set_long (ed_order data) 8) d3;
          (data', d') \<leftarrow> exif_data_save_data_content al g ms 3 data EXIF_IFD_0 d4 (dlen d4 - 6);
          Some (data', Some d') })"

subsection \<open>The image of a data object\<close>

text \<open>
  What the code is to write, without the buffer: a directory at offset \<open>q\<close> is the number of its
  records, the sorted records, the offset of the next directory, then the values that do not fit into
  their records, then the directories it points to.
\<close>

definition entry_value :: "exif_entry \<Rightarrow> u8 list" where
  "entry_value e = take (exif_format_get_size (en_format e) * unat (en_components e)) (en_block e)"

definition entry_image :: "exif_byte_order \<Rightarrow> nat \<Rightarrow> exif_entry \<Rightarrow> u8 list \<times> u8 list" where
  "entry_image order q e =
     (let v = entry_value e;
          head = exif_set_short order (en_tag e) @ exif_set_short order (of_nat (en_format e)) @
                 exif_set_long order (en_components e)
      in if 4 < length v then (head @ exif_set_long order (of_nat q), v @ (if odd (length v) then [0] else []))
         else (head @ v @ replicate (4 - length v) 0, []))"

primrec entries_image :: "exif_byte_order \<Rightarrow> nat \<Rightarrow> exif_entry list \<Rightarrow> u8 list list \<times> u8 list" where
  "entries_image order q [] = ([], [])"
| "entries_image order q (e # es) =
     (let (r, t) = entry_image order q e; (rs, ts) = entries_image order (q + length t) es in (r # rs, t @ ts))"

definition long_record :: "exif_byte_order \<Rightarrow> nat \<Rightarrow> u32 \<Rightarrow> u8 list" where
  "long_record order tag v = exif_set_short order (of_nat tag) @ exif_set_short order (of_nat EXIF_FORMAT_LONG) @
     exif_set_long order 1 @ exif_set_long order v"

definition dir_image ::
  "exif_byte_order \<Rightarrow> nat \<Rightarrow> exif_entry list \<Rightarrow> (nat \<Rightarrow> u8 list list \<times> u8 list) \<Rightarrow> (nat \<Rightarrow> u32 \<times> u8 list) \<Rightarrow> nat \<Rightarrow> u8 list" where
  "dir_image order m es sp nx q =
     (let n = length es + m; b = q + 6 + 12 * n;
          (rs, ts) = entries_image order b es;
          (ps, pts) = sp (b + length ts);
          (w, nts) = nx (b + length ts + length pts)
      in exif_set_short order (of_nat n) @ concat (sort_key (exif_get_short order) (rs @ ps)) @
         exif_set_long order w @ ts @ pts @ nts)"

definition no_special :: "nat \<Rightarrow> u8 list list \<times> u8 list" where
  "no_special q = ([], [])"

definition no_next :: "nat \<Rightarrow> u32 \<times> u8 list" where
  "no_next q = (0, [])"

definition pointer_image :: "exif_byte_order \<Rightarrow> bool \<Rightarrow> nat \<Rightarrow> (nat \<Rightarrow> u8 list) \<Rightarrow> nat \<Rightarrow> u8 list list \<times> u8 list" where
  "pointer_image order c tag img q = (if c then ([long_record order tag (of_nat q)], img q) else ([], []))"

definition leaf_image :: "'m exif_data \<Rightarrow> exif_ifd \<Rightarrow> nat \<Rightarrow> u8 list" where
  "leaf_image data ifd = dir_image (ed_order data) 0 (ed_ifd data ifd) no_special no_next"

definition exif_special :: "'m exif_data \<Rightarrow> nat \<Rightarrow> u8 list list \<times> u8 list" where
  "exif_special data = pointer_image (ed_order data) (ed_ifd data EXIF_IFD_INTEROPERABILITY \<noteq> [])
     EXIF_TAG_INTEROPERABILITY_IFD_POINTER (leaf_image data EXIF_IFD_INTEROPERABILITY)"

definition exif_image :: "'m exif_data \<Rightarrow> nat \<Rightarrow> u8 list" where
  "exif_image data = dir_image (ed_order data) (n_pointers data EXIF_IFD_EXIF) (ed_ifd data EXIF_IFD_EXIF)
     (exif_special data) no_next"

definition ifd1_special :: "'m exif_data \<Rightarrow> nat \<Rightarrow> u8 list list \<times> u8 list" where
  "ifd1_special data q =
     (if ed_size data \<noteq> 0
      then ([long_record (ed_order data) EXIF_TAG_JPEG_INTERCHANGE_FORMAT (of_nat q),
             long_record (ed_order data) EXIF_TAG_JPEG_INTERCHANGE_FORMAT_LENGTH (ed_size data)],
            case ed_data data of None \<Rightarrow> [] | Some b \<Rightarrow> b)
      else ([], []))"

definition ifd1_image :: "'m exif_data \<Rightarrow> nat \<Rightarrow> u8 list" where
  "ifd1_image data = dir_image (ed_order data) (n_thumbnail data EXIF_IFD_1) (ed_ifd data EXIF_IFD_1)
     (ifd1_special data) no_next"

definition ifd0_special :: "'m exif_data \<Rightarrow> nat \<Rightarrow> u8 list list \<times> u8 list" where
  "ifd0_special data q =
     (let (p1, t1) = pointer_image (ed_order data)
                (ed_ifd data EXIF_IFD_EXIF \<noteq> [] \<or> ed_ifd data EXIF_IFD_INTEROPERABILITY \<noteq> [])
                EXIF_TAG_EXIF_IFD_POINTER (exif_image data) q;
          (p2, t2) = pointer_image (ed_order data) (ed_ifd data EXIF_IFD_GPS \<noteq> [])
                EXIF_TAG_GPS_INFO_IFD_POINTER (leaf_image data EXIF_IFD_GPS) (q + length t1)
      in (p1 @ p2, t1 @ t2))"

definition ifd0_next :: "'m exif_data \<Rightarrow> nat \<Rightarrow> u32 \<times> u8 list" where
  "ifd0_next data q =
     (if ed_ifd data EXIF_IFD_1 \<noteq> [] \<or> ed_size data \<noteq> 0 then (of_nat q, ifd1_image data q) else (0, []))"

definition ifd0_image :: "'m exif_data \<Rightarrow> nat \<Rightarrow> u8 list" where
  "ifd0_image data = dir_image (ed_order data) (n_pointers data EXIF_IFD_0) (ed_ifd data EXIF_IFD_0)
     (ifd0_special data) (ifd0_next data)"

definition exif_header :: "exif_byte_order \<Rightarrow> u8 list" where
  "exif_header order = ExifHeader @ (if order = EXIF_BYTE_ORDER_INTEL then [0x49, 0x49] else [0x4d, 0x4d]) @
     exif_set_short order 0x2a @ exif_set_long order 8"

definition exif_data_image :: "'m exif_data \<Rightarrow> u8 list" where
  "exif_data_image data = exif_header (ed_order data) @ ifd0_image data 8"

subsection \<open>The code writes the image\<close>

lemma length_set [simp]: "length (exif_set_short order v) = 2" "length (exif_set_long order w) = 4"
  "length (exif_set_sshort order v) = 2" "length (exif_set_slong order w) = 4"
  by (simp_all add: exif_set_short_def exif_set_sshort_def exif_set_long_def exif_set_slong_def split: exif_byte_order.split)

lemma put_in: "p + length bs \<le> length d \<Longrightarrow> put p bs d = Some (write_at p bs d)"
  by (simp add: put_def)

lemma write_at_then: "p + length a + length b \<le> length d \<Longrightarrow> q = p + length a \<Longrightarrow>
    write_at q b (write_at p a d) = write_at p (a @ b) d"
  by (subst write_at_append) simp_all

lemma write_at_ext: "p + length a \<le> length d \<Longrightarrow> write_at p a (d @ t) = write_at p a d @ t"
  by (simp add: write_at_def)

lemma write_at_end: "length a = length t \<Longrightarrow> write_at (length d) a (d @ t) = d @ a"
  by (simp add: write_at_def)

lemma put_last: "put (length xs) [y] (xs @ [x]) = Some (xs @ [y])"
  by (simp add: put_def write_at_def)

lemma realloc_grow:
  "granted al \<Longrightarrow> length d \<le> unat ts \<Longrightarrow>
   exif_mem_realloc al g d ts = Some (d @ map g [length d ..< unat ts])"
  by (simp add: exif_mem_realloc_def granted_def)

lemma dlen_unat: "length d < 2 ^ 32 \<Longrightarrow> unat (dlen d) = length d"
  by (simp add: dlen_def unat_of_nat_small)

lemma dlen_minus: "length d < 2 ^ 32 \<Longrightarrow> 6 \<le> length d \<Longrightarrow> dlen d - 6 = of_nat (length d - 6)"
  by (simp add: dlen_def of_nat_diff)

text \<open>The maker note is not rewritten.\<close>

definition note_kept :: "'m exif_data \<Rightarrow> bool" where
  "note_kept data \<longleftrightarrow> ed_md data = None \<or> ed_options data AND EXIF_DATA_OPTION_DONT_CHANGE_MAKER_NOTE \<noteq> 0"

lemma note_keptD: "note_kept data \<Longrightarrow> save_maker_note ms data e o' = (data, e)"
  by (auto simp: note_kept_def save_maker_note_def)

lemma entry_value_length:
  assumes "entry_ok e"
  shows "length (entry_value e) = exif_format_get_size (en_format e) * unat (en_components e)"
    "unat (fsize (en_format e) * en_components e) = length (entry_value e)"
    "length (entry_value e) \<le> length (en_block e)"
proof -
  let ?n = "exif_format_get_size (en_format e) * unat (en_components e)"
  have n: "?n \<le> length (en_block e)" using assms by (simp add: entry_ok_def)
  then show l: "length (entry_value e) = ?n" by (simp add: entry_value_def)
  then show "length (entry_value e) \<le> length (en_block e)" using n by simp
  have "?n < 2 ^ 32" using assms unat_u32_less [of "en_size e"] unfolding entry_ok_def
    by (simp add: le_less_trans del: unat_u32_less)
  moreover have "unat (fsize (en_format e)) = exif_format_get_size (en_format e)"
    unfolding fsize_def using format_size_le [of "en_format e"] by (intro unat_of_nat_small) simp
  ultimately show "unat (fsize (en_format e) * en_components e) = length (entry_value e)"
    unfolding l by (subst unat_word_ariths(2)) simp
qed

lemma save_value_image:
  assumes ok: "entry_ok e" and s: "s = fsize (en_format e) * en_components e"
    and room: "6 + unat doff + max 4 (length (entry_value e)) \<le> length d"
  shows "save_value e s doff d =
    Some (write_at (6 + unat doff) (entry_value e @ replicate (4 - length (entry_value e)) 0) d)"
proof -
  note v = entry_value_length [OF ok]
  have us: "unat s = length (entry_value e)" using v(2) s by simp
  have bytes: "(case en_data e of None \<Rightarrow> Some (replicate (unat s) 0) | Some b \<Rightarrow> get_bytes b 0 (unat s)) = Some (entry_value e)"
  proof (cases "en_data e")
    case None
    then have "length (entry_value e) = 0" using v(3) by (simp add: en_block_def)
    then show ?thesis using None us by simp
  next
    case (Some b)
    then have "en_block e = b" by (simp add: en_block_def)
    then show ?thesis using Some v us by (simp add: get_bytes_def slice_def entry_value_def)
  qed
  have p: "put (6 + unat doff) (entry_value e) d = Some (write_at (6 + unat doff) (entry_value e) d)"
    using room by (intro put_in) simp
  show ?thesis
  proof (cases "s < 4")
    case True
    then have l: "length (entry_value e) < 4" using us by (simp add: word_less_nat_alt)
    then have "put (6 + unat doff + unat s) (replicate (4 - unat s) 0) (write_at (6 + unat doff) (entry_value e) d) =
        Some (write_at (6 + unat doff) (entry_value e @ replicate (4 - length (entry_value e)) 0) d)"
      using room us by (subst put_in) (simp_all add: write_at_then)
    then show ?thesis using True bytes p by (simp add: save_value_def)
  next
    case False
    then have "4 \<le> length (entry_value e)" using us by (simp add: word_less_nat_alt)
    then show ?thesis using False bytes p by (simp add: save_value_def)
  qed
qed

lemma save_entry_image:
  fixes data :: "'m exif_data"
  assumes ok: "entry_ok e" and al: "granted al" and kept: "note_kept data"
    and room: "6 + unat off + 12 \<le> length d"
    and small: "length d + length (snd (entry_image (ed_order data) (length d - 6) e)) < 2 ^ 32"
  shows "exif_data_save_data_entry al g ms data e d off =
    Some (data, e, write_at (6 + unat off) (fst (entry_image (ed_order data) (length d - 6) e)) d @
      snd (entry_image (ed_order data) (length d - 6) e))"
proof -
  let ?o = "ed_order data" and ?p = "6 + unat off" and ?v = "entry_value e" and ?f = "fsize (en_format e)"
  define h1 where "h1 = exif_set_short ?o (en_tag e)"
  define h2 where "h2 = exif_set_short ?o (of_nat (en_format e))"
  define h3 where "h3 = exif_set_long ?o (en_components e)"
  define d3 where "d3 = write_at ?p (h1 @ h2 @ h3) d"
  define s where "s = ?f * en_components e"
  have hl: "length h1 = 2" "length h2 = 2" "length h3 = 4" by (simp_all add: h1_def h2_def h3_def)
  have us: "unat s = length ?v" using entry_value_length(2) [OF ok] by (simp add: s_def)
  have p1: "put ?p h1 d = Some (write_at ?p h1 d)" using room hl by (intro put_in) simp
  have p2: "put (?p + 2) h2 (write_at ?p h1 d) = Some (write_at ?p (h1 @ h2) d)"
    using room hl by (subst put_in) (simp_all add: write_at_then)
  have p3: "put (?p + 4) h3 (write_at ?p (h1 @ h2) d) = Some d3"
    using room hl unfolding d3_def by (subst put_in) (simp_all add: write_at_then)
  have ld: "length d3 = length d" using room hl by (simp add: d3_def)
  have sv: "exif_data_save_data_entry al g ms data e d off =
    (if 4 < s then
       (let doff = dlen d3 - 6; pad = s AND 1 \<noteq> 0; ts = dlen d3 + s + (if pad then 1 else 0)
        in case exif_mem_realloc al g d3 ts of
             None \<Rightarrow> Some (data, e, d3)
           | Some d4 \<Rightarrow> do {
               d5 \<leftarrow> put (?p + 8) (exif_set_long ?o doff) d4;
               d6 \<leftarrow> (if pad then put (length d5 - 1) [0] d5 else Some d5);
               d7 \<leftarrow> save_value e s doff d6;
               Some (data, e, d7) })
     else do { d7 \<leftarrow> save_value e s (off + 8) d3; Some (data, e, d7) })"
    unfolding exif_data_save_data_entry_def Let_def note_keptD [OF kept] h1_def [symmetric] h2_def [symmetric]
      h3_def [symmetric] p1 p2 p3 Option.bind.simps prod.case s_def [symmetric] ..
  have odd: "s AND 1 \<noteq> 0 \<longleftrightarrow> odd (length ?v)"
  proof -
    have "s AND 1 = 0 \<longleftrightarrow> unat (s AND 1) = 0" by (simp add: unat_eq_zero)
    also have "unat (s AND 1) = length ?v mod 2" unfolding unsigned_and_eq us by (simp add: and_one_eq)
    finally show ?thesis by (simp add: even_iff_mod_2_eq_zero)
  qed
  show ?thesis
  proof (cases "4 < s")
    case False
    then have l: "length ?v \<le> 4" using us by (simp add: word_less_nat_alt)
    have "unat off + 8 < 2 ^ 32" using room small by simp
    then have "unat (off + 8) = unat off + 8" by (intro trans [OF unat_add_small]) simp_all
    then have "save_value e s (off + 8) d3 = Some (write_at (?p + 8) (?v @ replicate (4 - length ?v) 0) d3)"
      using room l ld by (subst save_value_image [OF ok s_def]) (simp_all add: add.commute add.left_commute)
    also have "write_at (?p + 8) (?v @ replicate (4 - length ?v) 0) d3 =
        write_at ?p ((h1 @ h2 @ h3) @ (?v @ replicate (4 - length ?v) 0)) d"
      using room l hl unfolding d3_def by (intro write_at_then) simp_all
    finally show ?thesis
      using False l unfolding sv by (simp add: entry_image_def h1_def h2_def h3_def Let_def)
  next
    case True
    then have l: "4 < length ?v" using us by (simp add: word_less_nat_alt)
    define pad where "pad = (if odd (length ?v) then [0 :: u8] else [])"
    have im: "fst (entry_image ?o (length d - 6) e) = (h1 @ h2 @ h3) @ exif_set_long ?o (of_nat (length d - 6))"
        "snd (entry_image ?o (length d - 6) e) = ?v @ pad"
      using l by (simp_all add: entry_image_def h1_def h2_def h3_def Let_def pad_def)
    have sm: "length d + length ?v + length pad < 2 ^ 32" using small im by simp
    define ts where "ts = dlen d3 + s + (if s AND 1 \<noteq> 0 then 1 else 0)"
    have ts: "unat ts = length d + length ?v + length pad"
    proof -
      have ts': "ts = of_nat (length d + length ?v + length pad)"
        unfolding ts_def dlen_def ld odd pad_def by (simp add: us [symmetric])
      show ?thesis unfolding ts' using sm by (intro unat_of_nat_small) simp
    qed
    define fresh where "fresh = map g [length d ..< unat ts]"
    have fresh: "length fresh = length ?v + length pad" by (simp add: fresh_def ts)
    have r: "exif_mem_realloc al g d3 ts = Some (d3 @ fresh)"
      using realloc_grow [OF al, of d3 ts g] by (simp add: ts ld fresh_def)
    have dl: "dlen d3 - 6 = of_nat (length d - 6)" using dlen_minus [of d3] sm room ld by simp
    have ud: "unat (dlen d3 - 6) = length d - 6" unfolding dl using sm by (simp add: unat_of_nat_small)
    let ?rec = "fst (entry_image ?o (length d - 6) e)"
    have d5: "put (?p + 8) (exif_set_long ?o (dlen d3 - 6)) (d3 @ fresh) = Some (write_at ?p ?rec d @ fresh)"
    proof -
      have "write_at (?p + 8) (exif_set_long ?o (dlen d3 - 6)) (d3 @ fresh) =
          write_at (?p + 8) (exif_set_long ?o (of_nat (length d - 6))) d3 @ fresh"
        unfolding dl using room ld by (intro write_at_ext) simp
      also have "write_at (?p + 8) (exif_set_long ?o (of_nat (length d - 6))) d3 = write_at ?p ?rec d"
        unfolding im d3_def using room hl by (intro write_at_then) simp_all
      finally show ?thesis using room ld by (subst put_in) simp_all
    qed
    let ?d5 = "write_at ?p ?rec d"
    have l5: "length ?d5 = length d" using room hl im by simp
    obtain fv fp where f: "fresh = fv @ fp" "length fv = length ?v" "length fp = length pad"
      using fresh by (metis append_take_drop_id length_append add_diff_cancel_left' length_drop length_take min_absorb2 le_add1)
    have d6: "(if s AND 1 \<noteq> 0 then put (length (?d5 @ fresh) - 1) [0] (?d5 @ fresh) else Some (?d5 @ fresh)) =
        Some ((?d5 @ fv) @ pad)"
    proof (cases "odd (length ?v)")
      case True
      then obtain x where x: "fp = [x]" using f(3) by (cases fp) (auto simp: pad_def)
      have "length (?d5 @ fresh) - 1 = length (?d5 @ fv)" using f x by simp
      moreover have "put (length (?d5 @ fv)) [0] ((?d5 @ fv) @ [x]) = Some ((?d5 @ fv) @ [0])"
        by (rule put_last)
      ultimately show ?thesis using True odd f x by (simp add: pad_def)
    qed (use f odd in \<open>simp add: pad_def\<close>)
    have "save_value e s (dlen d3 - 6) ((?d5 @ fv) @ pad) =
        Some (write_at (length ?d5) ?v ((?d5 @ fv) @ pad))"
      using l room l5 f(2) by (subst save_value_image [OF ok s_def]) (simp_all add: ud)
    also have "write_at (length ?d5) ?v ((?d5 @ fv) @ pad) = ?d5 @ ?v @ pad"
      using write_at_ext [of "length ?d5" ?v "?d5 @ fv" pad] write_at_end [of ?v fv ?d5] f(2) by simp
    finally have fin: "save_value e s (dlen d3 - 6) ((?d5 @ fv) @ pad) = Some (?d5 @ ?v @ pad)" .
    show ?thesis
      unfolding sv Let_def ts_def [symmetric] if_P [OF True] r option.case d5 Option.bind.simps d6 fin
      by (simp only: im)
  qed
qed

lemma length_entry_record: "length (fst (entry_image order q e)) = 12"
  by (simp add: entry_image_def Let_def)

lemma length_entries_image:
  "length (fst (entries_image order q es)) = length es"
  "\<forall>r \<in> set (fst (entries_image order q es)). length r = 12"
  by (induction es arbitrary: q) (auto simp: length_entry_record split_beta)

lemma length_concat_records: "\<forall>r \<in> set rs. length r = 12 \<Longrightarrow> length (concat rs) = 12 * length rs"
  by (induction rs) auto

lemma ifd_upd_same: "ifd_upd ifd (ed_ifd data ifd) data = data"
  by (simp add: ifd_upd_def)

lemma save_entries_image:
  fixes data :: "'m exif_data"
  assumes al: "granted al" and kept: "note_kept data" and ok: "\<forall>e \<in> set (ed_ifd data ifd). entry_ok e"
  shows "drop j (ed_ifd data ifd) = es \<Longrightarrow> 6 + unat off + 12 * (j + length es) \<le> length d \<Longrightarrow>
    length d + length (snd (entries_image (ed_order data) (length d - 6) es)) < 2 ^ 32 \<Longrightarrow>
    save_entries al g ms ifd off j (length es) data d =
      Some (data, write_at (6 + unat off + 12 * j) (concat (fst (entries_image (ed_order data) (length d - 6) es))) d @
        snd (entries_image (ed_order data) (length d - 6) es))"
proof (induction es arbitrary: j d)
  case Nil
  then show ?case by (simp add: write_at_def)
next
  case (Cons e es)
  let ?o = "ed_order data" and ?q = "length d - 6"
  define r where "r = fst (entry_image ?o ?q e)"
  define t where "t = snd (entry_image ?o ?q e)"
  let ?R = "entries_image ?o (?q + length t) es"
  have im: "fst (entries_image ?o ?q (e # es)) = r # fst ?R" "snd (entries_image ?o ?q (e # es)) = t @ snd ?R"
    by (simp_all add: r_def t_def split_beta)
  have j1: "j < length (ed_ifd data ifd)" using Cons.prems(1) by (cases "j < length (ed_ifd data ifd)") simp_all
  have j2: "ed_ifd data ifd ! j = e" by (rule nth_via_drop [OF Cons.prems(1)])
  have j3: "drop (j + 1) (ed_ifd data ifd) = es" using Cons.prems(1) by (metis Suc_eq_plus1 drop_Suc list.sel(3) tl_drop)
  note j = j1 j2 j3
  have e: "entry_ok e" using ok j by auto
  let ?off = "off + 12 * of_nat j"
  have "unat off + 12 * j < 2 ^ 32" using Cons.prems(2, 3) by simp
  moreover from this have "unat (12 * of_nat j :: u32) = 12 * j"
    using unat_of_nat_small [of "12 * j", where 'a = 32] by simp
  ultimately have off: "unat ?off = unat off + 12 * j" by (subst unat_add_small) simp_all
  define d1 where "d1 = write_at (6 + unat off + 12 * j) r d @ t"
  have lr: "length r = 12" by (simp add: r_def length_entry_record)
  have l1: "length (write_at (6 + unat off + 12 * j) r d) = length d" using Cons.prems(2) lr by simp
  have room: "6 + unat ?off + 12 \<le> length d" using Cons.prems(2) unfolding off by simp
  have small: "length d + length t < 2 ^ 32" using Cons.prems(3) unfolding im by simp
  have one: "exif_data_save_data_entry al g ms data e d ?off = Some (data, e, d1)"
    using save_entry_image [OF e al kept room] small unfolding off d1_def r_def t_def add.assoc by blast
  have "(ed_ifd data ifd)[j := e] = ed_ifd data ifd" using j(2) list_update_id by metis
  then have step: "save_entries al g ms ifd off j (length (e # es)) data d =
      save_entries al g ms ifd off (j + 1) (length es) data d1"
    unfolding list.size(4) add_Suc_right add_0_right save_entries.simps(2) j(2) one
    by (simp add: ifd_upd_same)
  have q1: "length d1 - 6 = ?q + length t" using l1 Cons.prems(2) by (simp add: d1_def)
  have rest: "save_entries al g ms ifd off (j + 1) (length es) data d1 =
      Some (data, write_at (6 + unat off + 12 * (j + 1)) (concat (fst ?R)) d1 @ snd ?R)"
  proof -
    have "6 + unat off + 12 * (j + 1 + length es) \<le> length d1" using Cons.prems(2) l1 unfolding d1_def by simp
    moreover have "length d1 + length (snd ?R) < 2 ^ 32" using Cons.prems(3) l1 unfolding im d1_def by simp
    ultimately show ?thesis using Cons.IH [OF j(3), of d1] unfolding q1 by blast
  qed
  have lc: "length (concat (fst ?R)) = 12 * length es"
    unfolding length_concat_records [OF length_entries_image(2)] length_entries_image(1) ..
  have "write_at (6 + unat off + 12 * (j + 1)) (concat (fst ?R)) d1 =
      write_at (6 + unat off + 12 * (j + 1)) (concat (fst ?R)) (write_at (6 + unat off + 12 * j) r d) @ t"
    unfolding d1_def using Cons.prems(2) lc l1 by (intro write_at_ext) simp
  also have "write_at (6 + unat off + 12 * (j + 1)) (concat (fst ?R)) (write_at (6 + unat off + 12 * j) r d) =
      write_at (6 + unat off + 12 * j) (r @ concat (fst ?R)) d"
    using Cons.prems(2) lc lr by (intro write_at_then) simp_all
  finally have "write_at (6 + unat off + 12 * (j + 1)) (concat (fst ?R)) d1 =
      write_at (6 + unat off + 12 * j) (r @ concat (fst ?R)) d @ t" .
  then show ?case unfolding step rest im by (simp only: concat.simps append_assoc)
qed

lemma put_long_record_image:
  assumes "6 + unat off + 12 \<le> length d"
  shows "put_long_record order tag v off d = Some (write_at (6 + unat off) (long_record order tag v) d)"
  using assms by (simp add: put_long_record_def long_record_def put_in write_at_then Let_def)

lemma length_long_record [simp]: "length (long_record order tag v) = 12"
  by (simp add: long_record_def)

lemma slice_concat:
  assumes "\<forall>r \<in> set rs. length r = 12" "k < length rs"
  shows "slice (length a + 12 * k) 12 (a @ concat rs @ z) = rs ! k"
  using assms
proof (induction k arbitrary: rs a)
  case 0
  then show ?case by (cases rs) (simp_all add: slice_def)
next
  case (Suc k)
  then obtain r rs' where rs: "rs = r # rs'" by (cases rs) auto
  then show ?case using Suc.IH [of rs' "a @ r"] Suc.prems by (simp add: ac_simps)
qed

lemma sort_records_image:
  assumes "\<forall>r \<in> set rs. length r = 12"
  shows "sort_records order (length a + 12 * length rs) (length rs) (a @ concat rs @ z) =
    Some (a @ concat (sort_key (exif_get_short order) rs) @ z)"
proof -
  have "map (\<lambda>k. slice (length a + 12 * k) 12 (a @ concat rs @ z)) [0..<length rs] = rs"
    by (rule nth_equalityI) (simp_all add: slice_concat [OF assms])
  moreover have "length (concat (sort_key (exif_get_short order) rs)) = length (concat rs)"
    using assms by (simp add: length_concat_records)
  ultimately show ?thesis
    using length_concat_records [OF assms] by (simp add: sort_records_def write_at_def)
qed

text \<open>What the parts of a directory owe: they append their image to the buffer and fill in their records.\<close>

definition content_writes ::
  "('m exif_data \<Rightarrow> exif_ifd \<Rightarrow> u8 list \<Rightarrow> u32 \<Rightarrow> ('m exif_data \<times> u8 list) option) \<Rightarrow> 'm exif_data \<Rightarrow> exif_ifd \<Rightarrow>
   (nat \<Rightarrow> u8 list) \<Rightarrow> bool" where
  "content_writes sub data ifd img \<longleftrightarrow>
     (\<forall>d. 6 \<le> length d \<longrightarrow> length d + length (img (length d - 6)) < 2 ^ 32 \<longrightarrow>
        sub data ifd d (dlen d - 6) = Some (data, d @ img (length d - 6)))"

definition special_writes ::
  "(nat \<Rightarrow> bool) \<Rightarrow> (nat \<Rightarrow> u8) \<Rightarrow> ('m exif_data \<Rightarrow> exif_ifd \<Rightarrow> u8 list \<Rightarrow> u32 \<Rightarrow> ('m exif_data \<times> u8 list) option) \<Rightarrow>
   exif_ifd \<Rightarrow> 'm exif_data \<Rightarrow> nat \<Rightarrow> (nat \<Rightarrow> u8 list list \<times> u8 list) \<Rightarrow> bool" where
  "special_writes al g sub ifd data m sp \<longleftrightarrow>
     (\<forall>q. length (fst (sp q)) = m \<and> (\<forall>r \<in> set (fst (sp q)). length r = 12)) \<and>
     (\<forall>d off. 6 + unat off + 12 * m \<le> length d \<longrightarrow> length d + length (snd (sp (length d - 6))) < 2 ^ 32 \<longrightarrow>
        save_special al g sub ifd data d off =
          Some (data, write_at (6 + unat off) (concat (fst (sp (length d - 6)))) d @ snd (sp (length d - 6)),
            Some (off + 12 * of_nat m)))"

definition next_writes ::
  "('m exif_data \<Rightarrow> exif_ifd \<Rightarrow> u8 list \<Rightarrow> u32 \<Rightarrow> ('m exif_data \<times> u8 list) option) \<Rightarrow> exif_ifd \<Rightarrow> 'm exif_data \<Rightarrow>
   (nat \<Rightarrow> u32 \<times> u8 list) \<Rightarrow> bool" where
  "next_writes sub ifd data nx \<longleftrightarrow>
     (\<forall>d off. 6 + unat off + 4 \<le> length d \<longrightarrow> length d + length (snd (nx (length d - 6))) < 2 ^ 32 \<longrightarrow>
        save_next sub ifd data d off =
          Some (data, write_at (6 + unat off) (exif_set_long (ed_order data) (fst (nx (length d - 6)))) d @
            snd (nx (length d - 6))))"

lemma put_end_here: "length x = length y \<Longrightarrow> n = length a \<Longrightarrow> write_at n x (a @ y @ z) = a @ x @ z"
  by (simp add: write_at_def)

lemma unat_of_nat32: "n < 2 ^ 32 \<Longrightarrow> unat (of_nat n :: u32) = n"
  by (rule unat_of_nat_small) simp

lemma content_image:
  fixes data :: "'m exif_data"
  assumes al: "granted al" and kept: "note_kept data" and ok: "\<forall>e \<in> set (ed_ifd data ifd). entry_ok e"
    and ifd: "ifd \<noteq> EXIF_IFD_COUNT" and m: "m = n_pointers data ifd + n_thumbnail data ifd"
    and sp: "special_writes al g (exif_data_save_data_content al g ms k) ifd data m sp"
    and nx: "next_writes (exif_data_save_data_content al g ms k) ifd data nx"
  shows "content_writes (exif_data_save_data_content al g ms (Suc k)) data ifd
    (dir_image (ed_order data) m (ed_ifd data ifd) sp nx)"
  unfolding content_writes_def
proof (intro allI impI)
  fix d :: "u8 list"
  let ?o = "ed_order data" and ?es = "ed_ifd data ifd" and ?sub = "exif_data_save_data_content al g ms k"
  define q where "q = length d - 6"
  define c where "c = length ?es"
  define n where "n = c + m"
  define b where "b = q + 6 + 12 * n"
  define rs where "rs = fst (entries_image ?o b ?es)"
  define ts where "ts = snd (entries_image ?o b ?es)"
  define ps where "ps = fst (sp (b + length ts))"
  define pts where "pts = snd (sp (b + length ts))"
  define w where "w = fst (nx (b + length ts + length pts))"
  define nts where "nts = snd (nx (b + length ts + length pts))"
  define h where "h = exif_set_short ?o (of_nat n)"
  let ?img = "dir_image ?o m ?es sp nx q"
  have img: "?img = h @ concat (sort_key (exif_get_short ?o) (rs @ ps)) @ exif_set_long ?o w @ ts @ pts @ nts"
    by (simp add: dir_image_def Let_def split_beta h_def rs_def ts_def ps_def pts_def w_def nts_def b_def n_def c_def)
  have rl: "length rs = c" "\<forall>r \<in> set rs. length r = 12"
    using length_entries_image [of ?o b ?es] by (simp_all add: rs_def c_def)
  have pl: "length ps = m" "\<forall>r \<in> set ps. length r = 12" using sp by (simp_all add: special_writes_def ps_def)
  have all: "\<forall>r \<in> set (rs @ ps). length r = 12" using rl pl by auto
  have crs: "length (concat rs) = 12 * c" and cps: "length (concat ps) = 12 * m"
    using length_concat_records rl pl by metis+
  have csort: "length (concat (sort_key (exif_get_short ?o) (rs @ ps))) = 12 * n"
  proof -
    have "\<forall>r \<in> set (sort_key (exif_get_short ?o) (rs @ ps)). length r = 12" using all by simp
    from length_concat_records [OF this] show ?thesis using rl(1) pl(1) by (simp add: n_def)
  qed
  have hl: "length h = 2" by (simp add: h_def)
  assume d: "6 \<le> length d" and "length d + length (dir_image ?o m ?es sp nx (length d - 6)) < 2 ^ 32"
  then have small: "length d + 6 + 12 * n + length ts + length pts + length nts < 2 ^ 32"
    unfolding q_def [symmetric] img length_append csort hl length_set by simp
  have L: "length d = q + 6" using d by (simp add: q_def)
  define F where "F = map g [length d ..< length d + (6 + 12 * n)]"
  have Fl: "length F = 6 + 12 * n" by (simp add: F_def)
  have dl: "dlen d = of_nat (q + 6)" by (simp only: dlen_def L)
  have ts: "dlen d + (2 + of_nat n * 12 + 4) = of_nat (length d + (6 + 12 * n))" by (simp add: dlen_def)
  have uts: "unat (of_nat (length d + (6 + 12 * n)) :: u32) = length d + (6 + 12 * n)"
    using small by (intro unat_of_nat32) simp
  have r: "exif_mem_realloc al g d (dlen d + (2 + of_nat n * 12 + 4)) = Some (d @ F)"
    unfolding ts using realloc_grow [OF al, of d "of_nat (length d + (6 + 12 * n))" g] unfolding uts F_def by simp
  define off where "off = dlen d - 6"
  have offq: "off = of_nat q" unfolding off_def dl by simp
  have u0: "unat off = q" unfolding offq using small L by (intro unat_of_nat32) simp
  have o2: "off + 2 = of_nat (q + 2)" and o3: "off + 2 + 12 * of_nat c = of_nat (q + 2 + 12 * c)"
    unfolding offq by (simp_all add: algebra_simps)
  have lens: "q + 2 + 12 * n < 2 ^ 32" using small L by simp
  have u2: "unat (off + 2) = q + 2"
    unfolding o2 using small L by (intro unat_of_nat32) simp
  have u3: "unat (off + 2 + 12 * of_nat c) = q + 2 + 12 * c"
    unfolding o3 using small L unfolding n_def by (intro unat_of_nat32) simp
  have u4: "unat (off + 2 + 12 * of_nat c + 12 * of_nat m) = q + 2 + 12 * n"
  proof -
    have "off + 2 + 12 * of_nat c + 12 * of_nat m = (of_nat (q + 2 + 12 * n) :: u32)"
      unfolding offq n_def by (simp add: algebra_simps)
    then show ?thesis using small L by (metis (no_types) unat_of_nat32 lens)
  qed
  define d2 where "d2 = write_at (length d) h (d @ F)"
  have p2: "put (6 + unat off) h (d @ F) = Some d2"
    unfolding d2_def L u0 using Fl hl L by (subst put_in) (simp_all add: add.commute)
  have l2: "length d2 = length d + (6 + 12 * n)" unfolding d2_def using Fl hl by simp
  have b2: "length d2 - 6 = b" using L unfolding l2 b_def by simp
  define d3 where "d3 = write_at (q + 8) (concat rs) d2 @ ts"
  have e: "save_entries al g ms ifd (off + 2) 0 c data d2 = Some (data, d3)"
    using save_entries_image [OF al kept ok, of 0 ?es "off + 2" d2 g ms] small L l2
    unfolding b2 u2 rs_def [symmetric] ts_def [symmetric] c_def [symmetric] n_def d3_def by (simp add: add.commute)
  have l3: "length d3 = length d2 + length ts" unfolding d3_def using crs l2 L by (simp add: n_def)
  have b3: "length d3 - 6 = b + length ts" using b2 l2 unfolding l3 by simp
  define d4 where "d4 = write_at (q + 8 + 12 * c) (concat ps) d3 @ pts"
  have s: "save_special al g ?sub ifd data d3 (off + 2 + 12 * of_nat c) =
      Some (data, d4, Some (off + 2 + 12 * of_nat c + 12 * of_nat m))"
  proof -
    have "6 + unat (off + 2 + 12 * of_nat c) + 12 * m \<le> length d3" unfolding u3 l3 l2 L n_def by simp
    moreover have "length d3 + length (snd (sp (length d3 - 6))) < 2 ^ 32"
      unfolding b3 pts_def [symmetric] using small unfolding l3 l2 by simp
    ultimately have "save_special al g ?sub ifd data d3 (off + 2 + 12 * of_nat c) =
        Some (data, write_at (6 + unat (off + 2 + 12 * of_nat c)) (concat (fst (sp (length d3 - 6)))) d3 @
          snd (sp (length d3 - 6)), Some (off + 2 + 12 * of_nat c + 12 * of_nat m))"
      using sp unfolding special_writes_def by blast
    moreover have "6 + (q + 2 + 12 * c) = q + 8 + 12 * c" by simp
    ultimately show ?thesis unfolding b3 ps_def [symmetric] pts_def [symmetric] u3 d4_def by metis
  qed
  obtain F1 F2 where F: "F = F1 @ F2" "length F1 = 2 + 12 * n" "length F2 = 4"
    using that [of "take (2 + 12 * n) F" "drop (2 + 12 * n) F"] Fl by simp
  have d4: "d4 = (d @ h) @ concat (rs @ ps) @ F2 @ ts @ pts"
  proof -
    have "d3 = write_at (length d) (h @ concat rs) (d @ F) @ ts"
      unfolding d3_def d2_def using hl crs Fl L by (subst write_at_then) (simp_all add: n_def)
    moreover have "write_at (q + 8 + 12 * c) (concat ps) (write_at (length d) (h @ concat rs) (d @ F) @ ts) =
        write_at (q + 8 + 12 * c) (concat ps) (write_at (length d) (h @ concat rs) (d @ F)) @ ts"
      using hl crs cps Fl L by (intro write_at_ext) (simp add: n_def)
    moreover have "write_at (q + 8 + 12 * c) (concat ps) (write_at (length d) (h @ concat rs) (d @ F)) =
        write_at (length d) ((h @ concat rs) @ concat ps) (d @ F)"
      using hl crs cps Fl L by (intro write_at_then) (simp_all add: n_def)
    moreover have "write_at (length d) ((h @ concat rs) @ concat ps) (d @ F1 @ F2) = d @ ((h @ concat rs) @ concat ps) @ F2"
      using hl crs cps F by (intro put_end_here) (simp_all add: n_def)
    ultimately show ?thesis unfolding d4_def F(1) by simp
  qed
  define d5 where "d5 = ((d @ h) @ concat (sort_key (exif_get_short ?o) (rs @ ps))) @ F2 @ ts @ pts"
  have so: "sort_records ?o (6 + unat (off + 2 + 12 * of_nat c + 12 * of_nat m)) n d4 = Some d5"
  proof -
    have "6 + (q + 2 + 12 * n) = length (d @ h) + 12 * length (rs @ ps)" "n = length (rs @ ps)"
      using hl rl(1) pl(1) L by (simp_all add: n_def)
    then show ?thesis
      unfolding u4 d4 d5_def append_assoc
      using sort_records_image [OF all, of ?o "d @ h" "F2 @ ts @ pts"] unfolding append_assoc by metis
  qed
  have l5: "length d5 = length d + 6 + 12 * n + length ts + length pts"
    unfolding d5_def length_append csort hl F(3) by simp
  have b5: "length d5 - 6 = b + length ts + length pts" using L unfolding l5 b_def by simp
  have nxt: "save_next ?sub ifd data d5 (off + 2 + 12 * of_nat c + 12 * of_nat m) = Some (data, d @ ?img)"
  proof -
    have "6 + unat (off + 2 + 12 * of_nat c + 12 * of_nat m) + 4 \<le> length d5" unfolding u4 l5 L by simp
    moreover have "length d5 + length (snd (nx (length d5 - 6))) < 2 ^ 32"
      unfolding b5 nts_def [symmetric] using small unfolding l5 by simp
    ultimately have "save_next ?sub ifd data d5 (off + 2 + 12 * of_nat c + 12 * of_nat m) =
        Some (data, write_at (6 + unat (off + 2 + 12 * of_nat c + 12 * of_nat m))
          (exif_set_long ?o (fst (nx (length d5 - 6)))) d5 @ snd (nx (length d5 - 6)))"
      using nx unfolding next_writes_def by blast
    then have "save_next ?sub ifd data d5 (off + 2 + 12 * of_nat c + 12 * of_nat m) =
        Some (data, write_at (6 + (q + 2 + 12 * n)) (exif_set_long ?o w) d5 @ nts)"
      unfolding b5 nts_def [symmetric] w_def [symmetric] u4 .
    also have "write_at (6 + (q + 2 + 12 * n)) (exif_set_long ?o w) d5 =
        ((d @ h) @ concat (sort_key (exif_get_short ?o) (rs @ ps))) @ exif_set_long ?o w @ ts @ pts"
      unfolding d5_def using L hl F(3) csort by (intro put_end_here) simp_all
    finally show ?thesis by (simp add: img)
  qed
  show "exif_data_save_data_content al g ms (Suc k) data ifd d (dlen d - 6) = Some (data, d @ dir_image ?o m ?es sp nx (length d - 6))"
    using ifd unfolding exif_data_save_data_content.simps(2) Let_def m [symmetric] add.assoc [of "length ?es"]
      q_def [symmetric] off_def [symmetric]
    by (simp only: if_False m [symmetric] c_def [symmetric] n_def [symmetric] r option.case h_def [symmetric] p2
        Option.bind.simps e prod.case s so nxt)
qed

lemma write_at_Nil [simp]: "write_at p [] d = d"
  by (simp add: write_at_def)

lemma save_pointer_image:
  assumes sub: "content_writes sub data i img" and room: "6 + unat off + 12 \<le> length d"
    and small: "length d + length (img (length d - 6)) < 2 ^ 32"
  shows "save_pointer sub tag i (data, d, off) =
    Some (data, write_at (6 + unat off) (long_record (ed_order data) tag (of_nat (length d - 6))) d @ img (length d - 6),
      off + 12)"
proof -
  let ?d = "write_at (6 + unat off) (long_record (ed_order data) tag (of_nat (length d - 6))) d"
  have l: "length ?d = length d" using room by simp
  have "6 \<le> length ?d" "length ?d + length (img (length ?d - 6)) < 2 ^ 32" using room small l by simp_all
  then have "sub data i ?d (dlen ?d - 6) = Some (data, ?d @ img (length d - 6))"
    using sub l unfolding content_writes_def by metis
  moreover have "dlen d - 6 = of_nat (length d - 6)" using room small by (intro dlen_minus) simp_all
  ultimately show ?thesis using put_long_record_image [OF room] by (simp add: save_pointer_def)
qed

text \<open>The number of pointers and their space in directory 0 and in the EXIF directory.\<close>

lemma pointer_image_simps:
  "length (fst (pointer_image order c tag img q)) = (if c then 1 else 0)"
  "\<forall>r \<in> set (fst (pointer_image order c tag img q)). length r = 12"
  by (simp_all add: pointer_image_def)

lemma pointer_step:
  assumes sub: "content_writes sub data i img"
    and room: "6 + unat off + 12 * length (fst (pointer_image (ed_order data) c tag img (length d - 6))) \<le> length d"
    and small: "length d + length (snd (pointer_image (ed_order data) c tag img (length d - 6))) < 2 ^ 32"
  shows "(if c then save_pointer sub tag i (data, d, off) else Some (data, d, off)) =
    Some (data, write_at (6 + unat off) (concat (fst (pointer_image (ed_order data) c tag img (length d - 6)))) d @
      snd (pointer_image (ed_order data) c tag img (length d - 6)),
      off + 12 * of_nat (length (fst (pointer_image (ed_order data) c tag img (length d - 6)))))"
proof (cases c)
  case True
  then show ?thesis using save_pointer_image [OF sub, of off d tag] room small by (simp add: pointer_image_def)
qed (simp add: pointer_image_def)

lemma special_none:
  assumes "ifd \<notin> {EXIF_IFD_0, EXIF_IFD_EXIF}" "ifd = EXIF_IFD_1 \<longrightarrow> ed_size data = 0"
  shows "special_writes al g sub ifd data 0 no_special"
  using assms by (auto simp: special_writes_def save_special_def no_special_def)

lemma next_none:
  assumes "ifd \<noteq> EXIF_IFD_0"
  shows "next_writes sub ifd data no_next"
  using assms by (simp add: next_writes_def save_next_def no_next_def put_in)

lemma special_exif:
  assumes "content_writes sub data EXIF_IFD_INTEROPERABILITY (leaf_image data EXIF_IFD_INTEROPERABILITY)"
  shows "special_writes al g sub EXIF_IFD_EXIF data (n_pointers data EXIF_IFD_EXIF) (exif_special data)"
  unfolding special_writes_def
proof (intro conjI allI impI)
  fix q
  show "length (fst (exif_special data q)) = n_pointers data EXIF_IFD_EXIF"
    "\<forall>r \<in> set (fst (exif_special data q)). length r = 12"
    using pointer_image_simps by (simp_all add: exif_special_def n_pointers_def)
next
  fix d :: "u8 list" and off :: u32
  assume *: "6 + unat off + 12 * n_pointers data EXIF_IFD_EXIF \<le> length d"
    "length d + length (snd (exif_special data (length d - 6))) < 2 ^ 32"
  have n: "n_pointers data EXIF_IFD_EXIF = length (fst (exif_special data (length d - 6)))"
    using pointer_image_simps by (simp add: exif_special_def n_pointers_def)
  show "save_special al g sub EXIF_IFD_EXIF data d off =
      Some (data, write_at (6 + unat off) (concat (fst (exif_special data (length d - 6)))) d @
        snd (exif_special data (length d - 6)), Some (off + 12 * of_nat (n_pointers data EXIF_IFD_EXIF)))"
    using pointer_step [OF assms, of off "ed_ifd data EXIF_IFD_INTEROPERABILITY \<noteq> []"
        EXIF_TAG_INTEROPERABILITY_IFD_POINTER d] * unfolding n exif_special_def
    by (simp add: save_special_def split: if_splits)
qed

lemma special_ifd1:
  assumes "thumb_ok data" and al: "granted al"
  shows "special_writes al g sub EXIF_IFD_1 data (n_thumbnail data EXIF_IFD_1) (ifd1_special data)"
proof (cases "ed_size data = 0")
  case True
  then have "ifd1_special data = no_special" by (simp add: ifd1_special_def no_special_def fun_eq_iff)
  then show ?thesis using True special_none [of EXIF_IFD_1 data al g sub] by (simp add: n_thumbnail_def)
next
  case False
  let ?o = "ed_order data"
  obtain b where b: "ed_data data = Some b" "length b = unat (ed_size data)"
    using assms(1) False by (cases "ed_data data") (simp_all add: thumb_ok_def)
  show ?thesis unfolding special_writes_def
  proof (intro conjI allI impI)
    fix q
    show "length (fst (ifd1_special data q)) = n_thumbnail data EXIF_IFD_1"
      "\<forall>r \<in> set (fst (ifd1_special data q)). length r = 12"
      using False by (simp_all add: ifd1_special_def n_thumbnail_def)
  next
    fix d :: "u8 list" and off :: u32
    let ?r1 = "long_record ?o EXIF_TAG_JPEG_INTERCHANGE_FORMAT (of_nat (length d - 6))"
    let ?r2 = "long_record ?o EXIF_TAG_JPEG_INTERCHANGE_FORMAT_LENGTH (ed_size data)"
    let ?d1 = "write_at (6 + unat off) ?r1 d" and ?ts = "dlen d + ed_size data"
    assume *: "6 + unat off + 12 * n_thumbnail data EXIF_IFD_1 \<le> length d"
      "length d + length (snd (ifd1_special data (length d - 6))) < 2 ^ 32"
    have room: "6 + unat off + 24 \<le> length d" using *(1) False by (simp add: n_thumbnail_def)
    have small: "length d + length b < 2 ^ 32" using *(2) False b by (simp add: ifd1_special_def)
    have l1: "length ?d1 = length d" "dlen ?d1 = dlen d" using room by (simp_all add: dlen_def)
    have p1: "put_long_record ?o EXIF_TAG_JPEG_INTERCHANGE_FORMAT (dlen d - 6) off d = Some ?d1"
      using room small dlen_minus [of d] by (subst put_long_record_image) simp_all
    define F where "F = map g [length d ..< length d + length b]"
    have lF: "length F = length b" by (simp add: F_def)
    have "?ts = of_nat (length d + length b)" using b(2) by (simp add: dlen_def)
    then have ts: "unat ?ts = length d + length b" using small by (metis unat_of_nat32)
    have r: "exif_mem_realloc al g ?d1 ?ts = Some (?d1 @ F)"
      using realloc_grow [OF al, of ?d1 ?ts g] unfolding ts l1 F_def by simp
    have p2: "(if length (?d1 @ F) < unat (ed_size data) then None
        else put (length (?d1 @ F) - unat (ed_size data)) b (?d1 @ F)) = Some (?d1 @ b)"
      using write_at_end [of b F ?d1] lF b(2) l1 by (simp add: put_in)
    have off: "unat (off + 12) = unat off + 12" using room small by (subst unat_add_small) simp_all
    have "write_at (6 + unat off + 12) ?r2 (?d1 @ b) = write_at (6 + unat off + 12) ?r2 ?d1 @ b"
      using room l1 by (intro write_at_ext) simp
    also have "write_at (6 + unat off + 12) ?r2 ?d1 = write_at (6 + unat off) (?r1 @ ?r2) d"
      using room by (intro write_at_then) simp_all
    finally have p3: "put_long_record ?o EXIF_TAG_JPEG_INTERCHANGE_FORMAT_LENGTH (ed_size data) (off + 12) (?d1 @ b) =
        Some (write_at (6 + unat off) (?r1 @ ?r2) d @ b)"
      using put_long_record_image [of "off + 12" "?d1 @ b"] room l1 unfolding off by (simp add: add.assoc)
    have g: "get_bytes b 0 (unat (ed_size data)) = Some b" using b(2) by (simp add: get_bytes_def slice_def)
    have "save_thumbnail al g data d off = Some (write_at (6 + unat off) (?r1 @ ?r2) d @ b, Some (off + 24))"
      unfolding save_thumbnail_def Let_def p1 Option.bind.simps l1(2) r option.case b(1) g p2 p3 ..
    then show "save_special al g sub EXIF_IFD_1 data d off =
      Some (data, write_at (6 + unat off) (concat (fst (ifd1_special data (length d - 6)))) d @
        snd (ifd1_special data (length d - 6)), Some (off + 12 * of_nat (n_thumbnail data EXIF_IFD_1)))"
      using False b(1) by (simp add: save_special_def ifd1_special_def n_thumbnail_def)
  qed
qed

lemma special_ifd0:
  assumes ex: "content_writes sub data EXIF_IFD_EXIF (exif_image data)"
    and gps: "content_writes sub data EXIF_IFD_GPS (leaf_image data EXIF_IFD_GPS)"
  shows "special_writes al g sub EXIF_IFD_0 data (n_pointers data EXIF_IFD_0) (ifd0_special data)"
proof -
  let ?o = "ed_order data"
  let ?c1 = "ed_ifd data EXIF_IFD_EXIF \<noteq> [] \<or> ed_ifd data EXIF_IFD_INTEROPERABILITY \<noteq> []"
  let ?c2 = "ed_ifd data EXIF_IFD_GPS \<noteq> []"
  let ?P1 = "\<lambda>q. pointer_image ?o ?c1 EXIF_TAG_EXIF_IFD_POINTER (exif_image data) q"
  let ?P2 = "\<lambda>q. pointer_image ?o ?c2 EXIF_TAG_GPS_INFO_IFD_POINTER (leaf_image data EXIF_IFD_GPS) q"
  have sp: "fst (ifd0_special data q) = fst (?P1 q) @ fst (?P2 (q + length (snd (?P1 q))))"
    "snd (ifd0_special data q) = snd (?P1 q) @ snd (?P2 (q + length (snd (?P1 q))))" for q
    by (simp_all add: ifd0_special_def split_beta)
  have n: "n_pointers data EXIF_IFD_0 = length (fst (?P1 q)) + length (fst (?P2 q'))" for q q'
    by (simp only: pointer_image_simps(1) n_pointers_def) simp
  show ?thesis unfolding special_writes_def
  proof (intro conjI allI impI)
    fix q
    show "length (fst (ifd0_special data q)) = n_pointers data EXIF_IFD_0"
      by (simp only: sp length_append n [of q "q + length (snd (?P1 q))"])
    show "\<forall>r \<in> set (fst (ifd0_special data q)). length r = 12"
      unfolding sp set_append using pointer_image_simps(2) by blast
  next
    fix d :: "u8 list" and off :: u32
    define q where "q = length d - 6"
    define p1 where "p1 = fst (?P1 q)"
    define t1 where "t1 = snd (?P1 q)"
    define p2 where "p2 = fst (?P2 (q + length t1))"
    define t2 where "t2 = snd (?P2 (q + length t1))"
    define off2 where "off2 = off + 12 * of_nat (length p1)"
    assume *: "6 + unat off + 12 * n_pointers data EXIF_IFD_0 \<le> length d"
      "length d + length (snd (ifd0_special data (length d - 6))) < 2 ^ 32"
    have np: "n_pointers data EXIF_IFD_0 = length p1 + length p2" unfolding p1_def p2_def by (rule n)
    have room: "6 + unat off + 12 * (length p1 + length p2) \<le> length d" using *(1) unfolding np .
    have small: "length d + length t1 + length t2 < 2 ^ 32"
      using *(2) unfolding sp q_def [symmetric] t1_def [symmetric] t2_def [symmetric] by simp
    have c1: "length (concat p1) = 12 * length p1" and c2: "length (concat p2) = 12 * length p2"
      unfolding p1_def p2_def by (rule length_concat_records [OF pointer_image_simps(2)])+
    define d1 where "d1 = write_at (6 + unat off) (concat p1) d @ t1"
    have l1: "length d1 = length d + length t1" using room c1 by (simp add: d1_def)
    have q1: "length d1 - 6 = q + length t1" using l1 room by (simp add: q_def)
    have s1: "(if ?c1 then save_pointer sub EXIF_TAG_EXIF_IFD_POINTER EXIF_IFD_EXIF (data, d, off) else Some (data, d, off)) =
        Some (data, d1, off2)"
    proof -
      have "6 + unat off + 12 * length (fst (?P1 (length d - 6))) \<le> length d"
        using room unfolding q_def [symmetric] p1_def [symmetric] by simp
      moreover have "length d + length (snd (?P1 (length d - 6))) < 2 ^ 32"
        using small unfolding q_def [symmetric] t1_def [symmetric] by simp
      ultimately show ?thesis
        using pointer_step [OF ex] unfolding d1_def off2_def p1_def t1_def q_def by blast
    qed
    have o2: "unat off2 = unat off + 12 * length p1"
    proof -
      have "unat (12 * of_nat (length p1) :: u32) = 12 * length p1"
        using unat_of_nat32 [of "12 * length p1"] room small by simp
      then show ?thesis unfolding off2_def using room small by (subst unat_add_small) simp_all
    qed
    have s2: "(if ?c2 then save_pointer sub EXIF_TAG_GPS_INFO_IFD_POINTER EXIF_IFD_GPS (data, d1, off2) else Some (data, d1, off2)) =
        Some (data, write_at (6 + unat off2) (concat p2) d1 @ t2, off2 + 12 * of_nat (length p2))"
    proof -
      have "6 + unat off2 + 12 * length (fst (?P2 (length d1 - 6))) \<le> length d1"
        unfolding q1 p2_def [symmetric] using room unfolding o2 l1 by simp
      moreover have "length d1 + length (snd (?P2 (length d1 - 6))) < 2 ^ 32"
        unfolding q1 t2_def [symmetric] using small unfolding l1 by simp
      ultimately show ?thesis using pointer_step [OF gps] unfolding p2_def t2_def q1 [symmetric] by blast
    qed
    have "write_at (6 + unat off2) (concat p2) d1 =
        write_at (6 + unat off + 12 * length p1) (concat p2) (write_at (6 + unat off) (concat p1) d) @ t1"
      unfolding d1_def o2 add.assoc [symmetric] using room c1 c2 by (intro write_at_ext) simp
    also have "write_at (6 + unat off + 12 * length p1) (concat p2) (write_at (6 + unat off) (concat p1) d) =
        write_at (6 + unat off) (concat (p1 @ p2)) d"
      unfolding concat_append using room c1 c2 by (intro write_at_then) simp_all
    finally have w: "write_at (6 + unat off2) (concat p2) d1 = write_at (6 + unat off) (concat (p1 @ p2)) d @ t1" .
    have "save_special al g sub EXIF_IFD_0 data d off =
        Some (data, write_at (6 + unat off) (concat (p1 @ p2)) d @ t1 @ t2, Some (off2 + 12 * of_nat (length p2)))"
      unfolding save_special_def if_P [OF refl] s1 Option.bind.simps fst_conv s2 w by simp
    moreover have "off2 + 12 * of_nat (length p2) = off + 12 * of_nat (n_pointers data EXIF_IFD_0)"
      unfolding off2_def np by (simp add: algebra_simps)
    ultimately show "save_special al g sub EXIF_IFD_0 data d off =
      Some (data, write_at (6 + unat off) (concat (fst (ifd0_special data (length d - 6)))) d @
        snd (ifd0_special data (length d - 6)), Some (off + 12 * of_nat (n_pointers data EXIF_IFD_0)))"
      unfolding sp q_def [symmetric] p1_def [symmetric] t1_def [symmetric] p2_def [symmetric] t2_def [symmetric] by simp
  qed
qed

lemma leaf_writes:
  assumes "granted al" "note_kept data" "\<forall>e \<in> set (ed_ifd data ifd). entry_ok e"
    "ifd = EXIF_IFD_INTEROPERABILITY \<or> ifd = EXIF_IFD_GPS"
  shows "content_writes (exif_data_save_data_content al g ms (Suc k)) data ifd (leaf_image data ifd)"
  unfolding leaf_image_def using assms
  by (intro content_image special_none next_none) (auto simp: n_pointers_def n_thumbnail_def)

lemma exif_writes:
  assumes "granted al" "note_kept data" "\<forall>ifd. \<forall>e \<in> set (ed_ifd data ifd). entry_ok e"
  shows "content_writes (exif_data_save_data_content al g ms (Suc (Suc k))) data EXIF_IFD_EXIF (exif_image data)"
  unfolding exif_image_def using assms
  by (intro content_image special_exif next_none leaf_writes) (auto simp: n_thumbnail_def)

lemma ifd1_writes:
  assumes "granted al" "note_kept data" "\<forall>ifd. \<forall>e \<in> set (ed_ifd data ifd). entry_ok e" "thumb_ok data"
  shows "content_writes (exif_data_save_data_content al g ms (Suc k)) data EXIF_IFD_1 (ifd1_image data)"
  unfolding ifd1_image_def using assms
  by (intro content_image special_ifd1 next_none) (auto simp: n_pointers_def)

lemma next_ifd0:
  assumes "content_writes sub data EXIF_IFD_1 (ifd1_image data)"
  shows "next_writes sub EXIF_IFD_0 data (ifd0_next data)"
  unfolding next_writes_def
proof (intro allI impI)
  fix d :: "u8 list" and off :: u32
  let ?o = "ed_order data" and ?q = "length d - 6"
  assume room: "6 + unat off + 4 \<le> length d" and small: "length d + length (snd (ifd0_next data ?q)) < 2 ^ 32"
  show "save_next sub EXIF_IFD_0 data d off =
    Some (data, write_at (6 + unat off) (exif_set_long ?o (fst (ifd0_next data ?q))) d @ snd (ifd0_next data ?q))"
  proof (cases "ed_ifd data EXIF_IFD_1 \<noteq> [] \<or> ed_size data \<noteq> 0")
    case True
    let ?d = "write_at (6 + unat off) (exif_set_long ?o (of_nat ?q)) d"
    have l: "length ?d = length d" using room by simp
    have dl: "dlen d - 6 = of_nat ?q" using room small by (intro dlen_minus) simp_all
    have "6 \<le> length ?d" "length ?d + length (ifd1_image data (length ?d - 6)) < 2 ^ 32"
      using room small True l by (simp_all add: ifd0_next_def)
    then have "sub data EXIF_IFD_1 ?d (dlen ?d - 6) = Some (data, ?d @ ifd1_image data ?q)"
      using assms l unfolding content_writes_def by metis
    then show ?thesis
      unfolding save_next_def dl using True room by (simp add: put_in ifd0_next_def)
  next
    case False
    then show ?thesis using room by (simp add: save_next_def put_in ifd0_next_def)
  qed
qed

lemma ifd0_writes:
  assumes "granted al" "note_kept data" "\<forall>ifd. \<forall>e \<in> set (ed_ifd data ifd). entry_ok e" "thumb_ok data"
  shows "content_writes (exif_data_save_data_content al g ms (Suc (Suc (Suc k)))) data EXIF_IFD_0 (ifd0_image data)"
  unfolding ifd0_image_def using assms
  by (intro content_image special_ifd0 next_ifd0 exif_writes leaf_writes ifd1_writes) (auto simp: n_thumbnail_def)

lemma length_exif_header [simp]: "length (exif_header order) = 14"
  by (simp add: exif_header_def ExifHeader_def)

lemma save_data_image:
  fixes data :: "'m exif_data"
  assumes al: "granted al" and kept: "note_kept data" and ok: "data_ok data"
    and small: "length (exif_data_image data) < 2 ^ 32"
  shows "exif_data_save_data al g ms data = Some (data, Some (exif_data_image data))"
proof -
  let ?o = "ed_order data"
  define mark where "mark = (if ?o = EXIF_BYTE_ORDER_INTEL then [0x49, 0x49] else [0x4d, 0x4d :: u8])"
  have ml: "length mark = 2" by (simp add: mark_def)
  have a: "exif_data_alloc al 14 = Some (replicate 14 0)"
    using al by (simp add: exif_data_alloc_def exif_mem_alloc_def granted_def)
  have hl: "length ExifHeader = 6" by (simp add: ExifHeader_def)
  have p1: "put 0 ExifHeader (replicate 14 0) = Some (write_at 0 ExifHeader (replicate 14 0))"
    using hl by (intro put_in) simp
  have p2: "put 6 mark (write_at 0 ExifHeader (replicate 14 0)) = Some (write_at 0 (ExifHeader @ mark) (replicate 14 0))"
    using hl ml by (subst put_in) (simp_all add: write_at_then)
  have p3: "put 8 (exif_set_short ?o 0x2a) (write_at 0 (ExifHeader @ mark) (replicate 14 0)) =
      Some (write_at 0 ((ExifHeader @ mark) @ exif_set_short ?o 0x2a) (replicate 14 0))"
    using hl ml by (subst put_in) (simp_all add: write_at_then)
  have p4: "put 10 (exif_set_long ?o 8) (write_at 0 ((ExifHeader @ mark) @ exif_set_short ?o 0x2a) (replicate 14 0)) =
      Some (write_at 0 (((ExifHeader @ mark) @ exif_set_short ?o 0x2a) @ exif_set_long ?o 8) (replicate 14 0))"
    using hl ml by (subst put_in) (simp_all add: write_at_then)
  have h: "write_at 0 (((ExifHeader @ mark) @ exif_set_short ?o 0x2a) @ exif_set_long ?o 8) (replicate 14 0) = exif_header ?o"
    using hl ml by (simp add: write_at_def exif_header_def mark_def)
  have e: "\<forall>ifd. \<forall>e \<in> set (ed_ifd data ifd). entry_ok e" and t: "thumb_ok data"
    using ok by (simp_all add: data_ok_def content_ok_def)
  have "length (exif_header ?o) + length (ifd0_image data (length (exif_header ?o) - 6)) < 2 ^ 32"
    using small by (simp add: exif_data_image_def)
  then have "exif_data_save_data_content al g ms 3 data EXIF_IFD_0 (exif_header ?o) (dlen (exif_header ?o) - 6) =
      Some (data, exif_header ?o @ ifd0_image data 8)"
    using ifd0_writes [OF al kept e t, of g ms 0] unfolding content_writes_def by (simp add: numeral_3_eq_3)
  then show ?thesis
    unfolding exif_data_save_data_def a option.case mark_def [symmetric] p1 p2 p3 p4 Option.bind.simps h
    by (simp add: exif_data_image_def)
qed

text \<open>
  A maker note is recognised by the maker and by its first bytes, not by its format. When the entry announces components of
  more than one byte, the writer takes the number of bytes of the new note as the number of components and copies
  that many components from a block of that many bytes.
\<close>

lemma save_note_overrun:
  fixes d :: "u8 list"
  assumes al: "granted al" and md: "ed_md data = Some m" "ed_options data AND EXIF_DATA_OPTION_DONT_CHANGE_MAKER_NOTE = 0"
    and e: "unat (en_tag e) = EXIF_TAG_MAKER_NOTE" "en_format e = EXIF_FORMAT_SHORT"
    and note_at: "unat offset + 18 \<le> length d" and small: "length d + 2 * length b < 2 ^ 32"
    and b: "\<And>o'. ms m o' = (m', Some b)" "3 \<le> length b"
  shows "exif_data_save_data_entry al g ms data e d offset = None"
proof -
  let ?o = "ed_order data" and ?p = "6 + unat offset"
  obtain d1 where d1: "put ?p (exif_set_short ?o (en_tag e)) d = Some d1" "length d1 = length d"
    using note_at by (auto simp: put_def)
  obtain d2 where d2: "put (?p + 2) (exif_set_short ?o (of_nat (en_format e))) d1 = Some d2" "length d2 = length d"
    using note_at d1(2) by (auto simp: put_def)
  let ?n = "of_nat (length b) :: u32"
  define e' where "e' = e\<lparr>en_data := Some b, en_size := ?n, en_components := ?n\<rparr>"
  have sn: "save_maker_note ms data e (dlen d2 - 6) = (data\<lparr>ed_md := Some m'\<rparr>, e')"
    using md e b(1) by (simp add: save_maker_note_def e'_def Let_def)
  obtain d3 where d3: "put (?p + 4) (exif_set_long ?o (en_components e')) d2 = Some d3" "length d3 = length d"
    using note_at d2(2) by (auto simp: put_def)
  define s where "s = fsize (en_format e') * en_components e'"
  have s: "s = of_nat (2 * length b)" using e(2) by (simp add: s_def e'_def)
  have us: "unat s = 2 * length b" unfolding s using small by (intro unat_of_nat32) simp
  have big: "4 < s" using b(2) by (simp add: word_less_nat_alt us)
  have "get_bytes b 0 (unat s) = None" using b(2) by (auto simp: get_bytes_def us)
  then have none: "save_value e' s doff x = None" for doff x by (simp add: save_value_def e'_def)
  show ?thesis
    unfolding exif_data_save_data_entry_def Let_def d1(1) d2(1) Option.bind.simps sn prod.case d3(1) s_def [symmetric]
      if_P [OF big] none
    using al by (simp add: exif_mem_realloc_def granted_def split: bind_splits)
qed



end
