(* ===== verification/ExifRoundtrip.thy ===== *)
theory ExifRoundtrip
  imports ExifSave
begin

text \<open>
  Reading back what the writer wrote: the reader of \<open>exif-data.c\<close> applied to the image of a data
  object gives the object again, with the entries of each directory in the order of their tags.
\<close>

subsection \<open>Records as items\<close>

text \<open>The records of a directory: an entry, whose value follows at \<open>q\<close> when it does not fit, a pointer, the thumbnail.\<close>

datatype item = Entry exif_entry nat | Pointer nat exif_ifd nat | Thumb_at u32 | Thumb_len u32

primrec item_bytes :: "exif_byte_order \<Rightarrow> item \<Rightarrow> u8 list" where
  "item_bytes order (Entry e q) = fst (entry_image order q e)"
| "item_bytes order (Pointer tag i q) = long_record order tag (of_nat q)"
| "item_bytes order (Thumb_at v) = long_record order EXIF_TAG_JPEG_INTERCHANGE_FORMAT v"
| "item_bytes order (Thumb_len v) = long_record order EXIF_TAG_JPEG_INTERCHANGE_FORMAT_LENGTH v"

primrec item_tag :: "item \<Rightarrow> u16" where
  "item_tag (Entry e q) = en_tag e"
| "item_tag (Pointer tag i q) = of_nat tag"
| "item_tag (Thumb_at v) = of_nat EXIF_TAG_JPEG_INTERCHANGE_FORMAT"
| "item_tag (Thumb_len v) = of_nat EXIF_TAG_JPEG_INTERCHANGE_FORMAT_LENGTH"

lemma length_item [simp]: "length (item_bytes order it) = 12"
  by (cases it) (simp_all add: length_entry_record)

lemma short_first: "exif_get_sshort order (exif_set_sshort order v @ r) = v"
  by (simp add: exif_s.dec_enc)

lemma long_first: "exif_get_slong order (exif_set_slong order v @ r) = v"
  by (simp add: exif_l.dec_enc)

lemma entry_record_head:
  "\<exists>v. length v = 4 \<and> fst (entry_image order q e) = exif_set_sshort order (en_tag e) @
     exif_set_sshort order (of_nat (en_format e)) @ exif_set_slong order (en_components e) @ v \<and>
     (if 4 < length (entry_value e) then v = exif_set_slong order (of_nat q)
      else v = entry_value e @ replicate (4 - length (entry_value e)) 0)"
  by (simp add: entry_image_def Let_def)

lemma item_tag_read: "exif_get_short order (item_bytes order it) = item_tag it"
proof (cases it)
  case (Entry e q)
  then show ?thesis using entry_record_head [of order q e] by (auto simp: short_first)
qed (simp_all add: long_record_def short_first)

lemma insort_key_map:
  "f (g x) = h x \<Longrightarrow> \<forall>y \<in> set ys. f (g y) = h y \<Longrightarrow> insort_key f (g x) (map g ys) = map g (insort_key h x ys)"
  by (induction ys) auto

lemma sort_key_map: "\<forall>x \<in> set xs. f (g x) = h x \<Longrightarrow> sort_key f (map g xs) = map g (sort_key h xs)"
  by (induction xs) (simp_all add: insort_key_map)

lemma sort_items:
  "sort_key (exif_get_short order) (map (item_bytes order) its) = map (item_bytes order) (sort_key item_tag its)"
  by (intro sort_key_map ballI) (rule item_tag_read)

text \<open>The items of a list of entries whose values start at \<open>q\<close>.\<close>

primrec entry_items :: "exif_byte_order \<Rightarrow> nat \<Rightarrow> exif_entry list \<Rightarrow> item list" where
  "entry_items order q [] = []"
| "entry_items order q (e # es) = Entry e q # entry_items order (q + length (snd (entry_image order q e))) es"

lemma entry_items_bytes: "map (item_bytes order) (entry_items order q es) = fst (entries_image order q es)"
  by (induction es arbitrary: q) (simp_all add: split_beta)

lemma entry_items_tags: "map item_tag (entry_items order q es) = map en_tag es"
  by (induction es arbitrary: q) simp_all

primrec is_entry :: "item \<Rightarrow> bool" where
  "is_entry (Entry e q) = True"
| "is_entry (Pointer tag i q) = False"
| "is_entry (Thumb_at v) = False"
| "is_entry (Thumb_len v) = False"

definition the_entry :: "item \<Rightarrow> exif_entry" where
  "the_entry it = (case it of Entry e q \<Rightarrow> e | _ \<Rightarrow> exif_entry_new)"

definition entries_of :: "item list \<Rightarrow> exif_entry list" where
  "entries_of its = map the_entry (filter is_entry its)"

lemma entries_of_simps [simp]:
  "entries_of [] = []" "entries_of (Entry e q # its) = e # entries_of its"
  "entries_of (Pointer tag i q # its) = entries_of its"
  "entries_of (Thumb_at v # its) = entries_of its" "entries_of (Thumb_len v # its) = entries_of its"
  "entries_of (xs @ ys) = entries_of xs @ entries_of ys"
  by (simp_all add: entries_of_def the_entry_def)

lemma entries_of_items: "entries_of (entry_items order q es) = es"
  by (induction es arbitrary: q) simp_all

lemma entry_tag: "is_entry it \<Longrightarrow> en_tag (the_entry it) = item_tag it"
  by (cases it) (simp_all add: the_entry_def)

lemma entries_of_sorted: "entries_of (sort_key item_tag its) = sort_key en_tag (entries_of its)"
proof -
  have "sort_key en_tag (map the_entry (filter is_entry its)) = map the_entry (sort_key item_tag (filter is_entry its))"
    by (intro sort_key_map) (simp add: entry_tag)
  then show ?thesis by (simp add: entries_of_def filter_sort)
qed

subsection \<open>Reading one record\<close>

text \<open>An entry that survives: a value of exactly the announced size, and a tag the reader keeps as an entry.\<close>

definition plain_tag :: "'m exif_data \<Rightarrow> exif_ifd \<Rightarrow> u16 \<Rightarrow> bool" where
  "plain_tag d ifd tag \<longleftrightarrow>
     unat tag \<notin> {EXIF_TAG_EXIF_IFD_POINTER, EXIF_TAG_GPS_INFO_IFD_POINTER, EXIF_TAG_INTEROPERABILITY_IFD_POINTER,
       EXIF_TAG_JPEG_INTERCHANGE_FORMAT_LENGTH, EXIF_TAG_JPEG_INTERCHANGE_FORMAT} \<and>
     exif_tag_get_name_in_ifd (unat tag) ifd \<noteq> None"

definition exact_entry :: "exif_entry \<Rightarrow> bool" where
  "exact_entry e \<longleftrightarrow> (case en_data e of None \<Rightarrow> False | Some b \<Rightarrow>
     length b = exif_format_get_size (en_format e) * unat (en_components e) \<and> b \<noteq> [] \<and>
     length b = unat (en_size e))"

lemma format_small: "exif_format_get_size f \<noteq> 0 \<Longrightarrow> f < 2 ^ 16"
proof (rule ccontr)
  assume "exif_format_get_size f \<noteq> 0" and big: "\<not> f < 2 ^ 16"
  then have "f \<notin> fst ` set ExifFormatTable" by (auto simp: ExifFormatTable_def)
  then have "exif_format_get_size f = 0" unfolding exif_format_get_size_def
    by (auto simp: find_Some_iff image_iff split: option.split)
  then show False using \<open>exif_format_get_size f \<noteq> 0\<close> by simp
qed

lemma get16_at: "stands_at d p (exif_set_sshort order v) \<Longrightarrow> get16 order d p = Some v"
  using stands_atD [of d p "exif_set_sshort order v"]
  by (simp add: get16_def stands_at_def short_first)

lemma get32_at: "stands_at d p (exif_set_slong order v) \<Longrightarrow> get32 order d p = Some v"
  using stands_atD [of d p "exif_set_slong order v"]
  by (simp add: get32_def stands_at_def long_first)

lemma get_bytes_at: "stands_at d p bs \<Longrightarrow> n = length bs \<Longrightarrow> get_bytes d p n = Some bs"
  by (simp add: stands_at_def)

lemma exact_entryD:
  assumes "exact_entry e"
  shows "en_data e = Some (entry_value e)" "entry_value e \<noteq> []" "length (entry_value e) = unat (en_size e)"
    "length (entry_value e) = exif_format_get_size (en_format e) * unat (en_components e)" "entry_ok e" "en_format e < 2 ^ 16"
proof -
  obtain b where b: "en_data e = Some b" "length b = exif_format_get_size (en_format e) * unat (en_components e)"
    "b \<noteq> []" "length b = unat (en_size e)"
    using assms by (auto simp: exact_entry_def split: option.splits)
  then have v: "entry_value e = b" by (simp add: entry_value_def en_block_def)
  have "length b \<noteq> 0" using b(3) by simp
  then have f: "exif_format_get_size (en_format e) \<noteq> 0" unfolding b(2) by simp
  then have "unat (en_components e) \<le> length b" unfolding b(2) by simp
  then show "entry_ok e" using b by (simp add: entry_ok_def en_block_def)
  show "en_format e < 2 ^ 16" by (rule format_small [OF f])
  show "en_data e = Some (entry_value e)" "entry_value e \<noteq> []" "length (entry_value e) = unat (en_size e)"
    "length (entry_value e) = exif_format_get_size (en_format e) * unat (en_components e)"
    using b by (simp_all add: v)
qed

lemma load_entry_at:
  fixes data :: "'m exif_data"
  assumes al: "granted al" and e: "exact_entry e" and rec: "stands_at d p (fst (entry_image (ed_order data) q e))"
    and val: "4 < length (entry_value e) \<Longrightarrow> stands_at d q (entry_value e)"
    and ds: "length d < 2 ^ 16" "unat ds = length d"
  shows "\<exists>m. exif_data_load_data_entry al data d ds (of_nat p) = Some (data\<lparr>ed_offset_mnote := m\<rparr>, Some e)"
proof -
  let ?o = "ed_order data" and ?b = "entry_value e"
  note x = exact_entryD [OF e]
  obtain v where v: "length v = 4"
    "fst (entry_image ?o q e) = exif_set_sshort ?o (en_tag e) @ exif_set_sshort ?o (of_nat (en_format e)) @
       exif_set_slong ?o (en_components e) @ v"
    "if 4 < length ?b then v = exif_set_slong ?o (of_nat q) else v = ?b @ replicate (4 - length ?b) 0"
    using entry_record_head [of ?o q e] by blast
  have parts: "stands_at d p (exif_set_sshort ?o (en_tag e))" "stands_at d (p + 2) (exif_set_sshort ?o (of_nat (en_format e)))"
    "stands_at d (p + 4) (exif_set_slong ?o (en_components e))" "stands_at d (p + 8) v"
  proof -
    have "p + 2 + 2 = p + 4" "p + 4 + 4 = p + 8" by simp_all
    then show "stands_at d p (exif_set_sshort ?o (en_tag e))" "stands_at d (p + 2) (exif_set_sshort ?o (of_nat (en_format e)))"
      "stands_at d (p + 4) (exif_set_slong ?o (en_components e))" "stands_at d (p + 8) v"
      using rec unfolding v(2) stands_at_append length_set by metis+
  qed
  have room: "p + 12 \<le> length d" using parts(4) v(1) by (simp add: stands_at_def)
  then have up: "unat (of_nat p :: u32) = p" using ds(1) by (intro unat_of_nat32) simp
  have fmt: "unat (of_nat (en_format e) :: u16) = en_format e" using x(6) by (intro unat_of_nat_small) simp
  define s where "s = fsize (en_format e) * en_components e"
  have us: "unat s = length ?b" using entry_value_length(2) [OF x(5)] by (simp add: s_def)
  define doff :: nat where "doff = (if 4 < s then q else p + 8)"
  have len4: "4 < s \<longleftrightarrow> 4 < length ?b" by (simp add: word_less_nat_alt us)
  have at: "stands_at d doff ?b"
  proof (cases "4 < s")
    case True
    then show ?thesis using val len4 by (simp add: doff_def)
  next
    case False
    then have "v = ?b @ replicate (4 - length ?b) 0" using v(3) len4 by simp
    then show ?thesis using parts(4) False by (simp add: doff_def stands_at_append)
  qed
  then have fit: "doff + length ?b \<le> length d" by (simp add: stands_at_def)
  have ud: "unat (of_nat doff :: u32) = doff" using fit ds(1) by (intro unat_of_nat32) simp
  have sum: "unat (of_nat doff + s) = doff + length ?b"
    using fit ds(1) by (subst unat_add_small) (simp_all add: ud us)
  have doff: "(if 4 < s then get32 ?o d (unat (of_nat p :: u32) + 8) else Some (of_nat p + 8)) = Some (of_nat doff)"
  proof (cases "4 < s")
    case True
    then have "v = exif_set_slong ?o (of_nat q)" using v(3) len4 by simp
    then show ?thesis using True parts(4) get32_at [of d "p + 8" ?o "of_nat q"] unfolding up doff_def by simp
  next
    case False
    then show ?thesis by (simp add: doff_def)
  qed
  have c: "\<not> (s < en_components e \<or> s = 0)"
  proof -
    have "unat (en_components e) \<le> unat s" using x(3, 5) by (simp add: us entry_ok_def)
    moreover have "unat s \<noteq> 0" using x(2) by (simp add: us)
    ultimately show ?thesis by (auto simp: word_less_nat_alt)
  qed
  have ok: "\<not> (of_nat doff + s < of_nat doff \<or> of_nat doff + s < s \<or> ds < of_nat doff + s)"
    using fit by (simp add: word_less_nat_alt sum ud us ds(2))
  obtain blk where blk: "exif_data_alloc al s = Some blk" using data_alloc_granted [OF al] c by blast
  define e' where "e' = exif_entry_new\<lparr>en_tag := en_tag e, en_format := en_format e, en_components := en_components e\<rparr>"
  have "s = en_size e" using us x(3) by (metis word_unat_eq_iff)
  then have e': "e'\<lparr>en_size := s, en_data := Some ?b\<rparr> = e"
    using x(1) by (cases e) (simp add: e'_def exif_entry_new_def)
  have bytes: "get_bytes d (unat (of_nat doff :: u32)) (unat s) = Some ?b"
    unfolding ud us by (rule get_bytes_at [OF at refl])
  have r: "get16 ?o d (unat (of_nat p :: u32) + 0) = Some (en_tag e)"
    "get16 ?o d (unat (of_nat p :: u32) + 2) = Some (of_nat (en_format e))"
    "get32 ?o d (unat (of_nat p :: u32) + 4) = Some (en_components e)"
    unfolding up using parts by (simp_all add: get16_at get32_at)
  have "exif_data_load_data_entry al data d ds (of_nat p) =
    Some (if unat (en_tag e) = EXIF_TAG_MAKER_NOTE then data\<lparr>ed_offset_mnote := of_nat doff\<rparr> else data, Some e)"
    unfolding exif_data_load_data_entry_def Let_def r Option.bind.simps fmt s_def [symmetric] doff
      if_not_P [OF c] if_not_P [OF ok] blk option.case bytes e'_def [symmetric] e' ..
  then show ?thesis
    by (intro exI [of _ "if unat (en_tag e) = EXIF_TAG_MAKER_NOTE then of_nat doff else ed_offset_mnote data"]) simp
qed

subsection \<open>Reading the records of a directory\<close>

text \<open>The directories that are read through a pointer to \<open>i\<close>.\<close>

definition reach :: "exif_ifd \<Rightarrow> exif_ifd set" where
  "reach i = (if i = EXIF_IFD_EXIF then {EXIF_IFD_EXIF, EXIF_IFD_INTEROPERABILITY} else {i})"

definition ptr_kind :: "nat \<Rightarrow> exif_ifd \<Rightarrow> bool" where
  "ptr_kind tag i \<longleftrightarrow> (tag, i) \<in> {(EXIF_TAG_EXIF_IFD_POINTER, EXIF_IFD_EXIF), (EXIF_TAG_GPS_INFO_IFD_POINTER, EXIF_IFD_GPS),
     (EXIF_TAG_INTEROPERABILITY_IFD_POINTER, EXIF_IFD_INTEROPERABILITY)}"

text \<open>What is expected of the reader of a directory: the entries \<open>C\<close> for all it reaches, nothing else.\<close>

definition reads_dir ::
  "('m exif_data \<Rightarrow> exif_ifd \<Rightarrow> u32 \<Rightarrow> 'm exif_data option) \<Rightarrow> exif_byte_order \<Rightarrow> (exif_ifd \<Rightarrow> exif_content) \<Rightarrow> exif_ifd \<Rightarrow> nat \<Rightarrow> bool" where
  "reads_dir sub order C i q \<longleftrightarrow>
     (\<forall>D. ed_order D = order \<longrightarrow> (\<forall>j \<in> reach i. ed_ifd D j = []) \<longrightarrow>
       (\<exists>m. sub D i (of_nat q) =
          Some (D\<lparr>ed_ifd := (\<lambda>j. if j \<in> reach i then C j else ed_ifd D j), ed_offset_mnote := m\<rparr>)))"

definition ifds_after :: "(exif_ifd \<Rightarrow> exif_content) \<Rightarrow> exif_ifd \<Rightarrow> (exif_ifd \<Rightarrow> exif_content) \<Rightarrow> item list \<Rightarrow> exif_ifd \<Rightarrow> exif_content" where
  "ifds_after F ifd C its =
     (\<lambda>j. if j = ifd then entries_of its
          else if \<exists>tag i q. Pointer tag i q \<in> set its \<and> j \<in> reach i then C j else F j)"

definition thumb_step :: "u32 \<times> u32 \<Rightarrow> item \<Rightarrow> u32 \<times> u32" where
  "thumb_step tn it = (case it of Thumb_at v \<Rightarrow> (v, snd tn) | Thumb_len v \<Rightarrow> (fst tn, v) | _ \<Rightarrow> tn)"

definition thumbs :: "item list \<Rightarrow> u32 \<times> u32" where
  "thumbs its = foldl thumb_step (0, 0) its"

definition after :: "'m exif_data \<Rightarrow> exif_ifd \<Rightarrow> (exif_ifd \<Rightarrow> exif_content) \<Rightarrow> u8 list \<Rightarrow> item list \<Rightarrow> u32 \<Rightarrow> 'm exif_data" where
  "after D ifd C b its m =
     D\<lparr>ed_ifd := ifds_after (ed_ifd D) ifd C its,
       ed_data := (if fst (thumbs its) \<noteq> 0 \<and> snd (thumbs its) \<noteq> 0 then Some b else ed_data D),
       ed_size := (if fst (thumbs its) \<noteq> 0 \<and> snd (thumbs its) \<noteq> 0 then of_nat (length b) else ed_size D),
       ed_offset_mnote := m\<rparr>"

definition item_good ::
  "('m exif_data \<Rightarrow> exif_ifd \<Rightarrow> u32 \<Rightarrow> 'm exif_data option) \<Rightarrow> 'm exif_data \<Rightarrow> exif_ifd \<Rightarrow> (exif_ifd \<Rightarrow> exif_content) \<Rightarrow> u8 list \<Rightarrow>
   u8 list \<Rightarrow> item \<Rightarrow> bool" where
  "item_good sub D ifd C d b it \<longleftrightarrow>
     (case it of
        Entry e q \<Rightarrow> exact_entry e \<and> plain_tag D ifd (en_tag e) \<and> (4 < length (entry_value e) \<longrightarrow> stands_at d q (entry_value e))
      | Pointer tag i q \<Rightarrow> ptr_kind tag i \<and> ifd \<notin> reach i \<and> reads_dir sub (ed_order D) C i q \<and> (\<forall>j \<in> reach i. ed_ifd D j = [])
      | Thumb_at v \<Rightarrow> stands_at d (unat v) b
      | Thumb_len v \<Rightarrow> unat v = length b)"

lemma thumbs_append [simp]: "thumbs (its @ [it]) = thumb_step (thumbs its) it"
  by (simp add: thumbs_def)

lemma thumbs_member:
  "(fst (thumbs its) \<noteq> 0 \<longrightarrow> Thumb_at (fst (thumbs its)) \<in> set its) \<and>
   (snd (thumbs its) \<noteq> 0 \<longrightarrow> Thumb_len (snd (thumbs its)) \<in> set its)"
proof (induction its rule: rev_induct)
  case (snoc it its)
  then show ?case by (cases it) (auto simp: thumb_step_def)
qed (simp add: thumbs_def)

lemma reach_self [simp]: "i \<in> reach i"
  by (simp add: reach_def)

lemma long_record_at:
  assumes "stands_at d p (long_record order tag v)"
  shows "get16 order d p = Some (of_nat tag)" "get32 order d (p + 8) = Some v" "p + 12 \<le> length d"
proof -
  have "p + 2 + 2 = p + 4" "p + 4 + 4 = p + 8" by simp_all
  then have "stands_at d p (exif_set_sshort order (of_nat tag))" "stands_at d (p + 8) (exif_set_slong order v)"
    using assms unfolding long_record_def unsigned_views stands_at_append length_set by metis+
  then show "get16 order d p = Some (of_nat tag)" "get32 order d (p + 8) = Some v"
    by (simp_all add: get16_at get32_at)
  show "p + 12 \<le> length d" using assms by (simp add: stands_at_def)
qed

lemma load_thumb_at:
  fixes data :: "'m exif_data"
  assumes al: "granted al" and ds: "length d < 2 ^ 16" "unat ds = length d"
    and at: "fst tn \<noteq> 0 \<Longrightarrow> snd tn \<noteq> 0 \<Longrightarrow> stands_at d (unat (fst tn)) b \<and> unat (snd tn) = length b"
  shows "load_thumb al d ds tn data =
    Some (if fst tn \<noteq> 0 \<and> snd tn \<noteq> 0 then data\<lparr>ed_data := Some b, ed_size := of_nat (length b)\<rparr> else data, tn)"
proof (cases "fst tn \<noteq> 0 \<and> snd tn \<noteq> 0")
  case True
  then have a: "stands_at d (unat (fst tn)) b" "unat (snd tn) = length b" using at by simp_all
  then have fit: "unat (fst tn) + unat (snd tn) \<le> length d" by (simp add: stands_at_def)
  then have sum: "unat (fst tn + snd tn) = unat (fst tn) + unat (snd tn)" using ds(1) by (subst unat_add_small) simp_all
  have ok: "\<not> (fst tn + snd tn < fst tn \<or> fst tn + snd tn < snd tn \<or> ds < fst tn + snd tn \<or> ds < fst tn)"
    using fit by (simp add: word_less_nat_alt sum ds(2))
  obtain blk where blk: "exif_data_alloc al (snd tn) = Some blk" using data_alloc_granted [OF al] True by blast
  have sz: "snd tn = of_nat (length b)" by (simp add: a(2) [symmetric])
  have "exif_data_load_data_thumbnail al data d ds (fst tn) (snd tn) = Some (data\<lparr>ed_data := Some b, ed_size := snd tn\<rparr>)"
    unfolding exif_data_load_data_thumbnail_def if_not_P [OF ok] blk option.case get_bytes_at [OF a] by simp
  then show ?thesis using True sz by (simp add: load_thumb_def)
qed (auto simp: load_thumb_def)

lemma ptr_kindD:
  assumes "ptr_kind tag i"
  shows "unat (of_nat tag :: u16) = tag"
    "tag \<in> {EXIF_TAG_EXIF_IFD_POINTER, EXIF_TAG_GPS_INFO_IFD_POINTER, EXIF_TAG_INTEROPERABILITY_IFD_POINTER}"
    "tag = EXIF_TAG_EXIF_IFD_POINTER \<longleftrightarrow> i = EXIF_IFD_EXIF" "tag = EXIF_TAG_GPS_INFO_IFD_POINTER \<longleftrightarrow> i = EXIF_IFD_GPS"
    "tag = EXIF_TAG_INTEROPERABILITY_IFD_POINTER \<longleftrightarrow> i = EXIF_IFD_INTEROPERABILITY"
  using assms by (auto simp: ptr_kind_def)

text \<open>Two pointers of a directory reach different directories.\<close>

definition apart :: "item list \<Rightarrow> bool" where
  "apart its \<longleftrightarrow> (\<forall>t i q t' i' q'. Pointer t i q \<in> set its \<longrightarrow> Pointer t' i' q' \<in> set its \<longrightarrow> t \<noteq> t' \<longrightarrow>
     reach i \<inter> reach i' = {})"

lemma load_pointer_item:
  fixes D :: "'m exif_data"
  assumes good: "item_good sub D ifd C d b (Pointer tag i q)"
    and apart: "apart (xs @ Pointer tag i q # ys)" and new: "of_nat tag \<notin> item_tag ` set xs"
  shows "\<exists>m'. load_pointer sub ifd i (of_nat q) (after D ifd C b xs m) = Some (after D ifd C b (xs @ [Pointer tag i q]) m')"
proof -
  let ?A = "after D ifd C b xs m"
  have g: "ifd \<notin> reach i" "reads_dir sub (ed_order D) C i q" "\<forall>j \<in> reach i. ed_ifd D j = []"
    using good by (simp_all add: item_good_def)
  have old: "ed_ifd ?A j = []" if j: "j \<in> reach i" for j
  proof -
    have "\<not> (\<exists>t i' q'. Pointer t i' q' \<in> set xs \<and> j \<in> reach i')"
    proof
      assume "\<exists>t i' q'. Pointer t i' q' \<in> set xs \<and> j \<in> reach i'"
      then obtain t i' q' where x: "Pointer t i' q' \<in> set xs" "j \<in> reach i'" by blast
      have "t \<noteq> tag" using new x(1) by force
      moreover have "Pointer t i' q' \<in> set (xs @ Pointer tag i q # ys)" "Pointer tag i q \<in> set (xs @ Pointer tag i q # ys)"
        using x(1) by simp_all
      ultimately have "reach i' \<inter> reach i = {}" using apart unfolding apart_def by blast
      then show False using x(2) j by blast
    qed
    moreover have "j \<noteq> ifd" using j g(1) by blast
    ultimately show ?thesis using g(3) j by (auto simp: after_def ifds_after_def)
  qed
  then have sk: "(i = ifd \<or> ed_ifd ?A i \<noteq> []) = False" using g(1) reach_self by fastforce
  have "ed_order ?A = ed_order D" by (simp add: after_def)
  then obtain m' where m': "sub ?A i (of_nat q) =
      Some (?A\<lparr>ed_ifd := (\<lambda>j. if j \<in> reach i then C j else ed_ifd ?A j), ed_offset_mnote := m'\<rparr>)"
    using g(2) old unfolding reads_dir_def by blast
  have "(\<lambda>j. if j \<in> reach i then C j else ed_ifd ?A j) = ifds_after (ed_ifd D) ifd C (xs @ [Pointer tag i q])"
  proof (rule ext)
    fix j
    show "(if j \<in> reach i then C j else ed_ifd ?A j) = ifds_after (ed_ifd D) ifd C (xs @ [Pointer tag i q]) j"
    proof (cases "j \<in> reach i")
      case True
      then have "\<exists>t i' q'. Pointer t i' q' \<in> set (xs @ [Pointer tag i q]) \<and> j \<in> reach i'"
        by (intro exI [of _ tag] exI [of _ i] exI [of _ q]) simp
      moreover have "j \<noteq> ifd" using True g(1) by blast
      ultimately show ?thesis using True by (simp add: ifds_after_def)
    next
      case False
      then have "(\<exists>t i' q'. Pointer t i' q' \<in> set (xs @ [Pointer tag i q]) \<and> j \<in> reach i') \<longleftrightarrow>
          (\<exists>t i' q'. Pointer t i' q' \<in> set xs \<and> j \<in> reach i')" by auto
      then show ?thesis using False unfolding ifds_after_def after_def by simp
    qed
  qed
  then have "?A\<lparr>ed_ifd := (\<lambda>j. if j \<in> reach i then C j else ed_ifd ?A j), ed_offset_mnote := m'\<rparr> =
      after D ifd C b (xs @ [Pointer tag i q]) m'"
    by (simp add: after_def thumb_step_def)
  then show ?thesis using m' unfolding load_pointer_def sk by auto
qed

lemma load_entry_item:
  fixes D :: "'m exif_data"
  assumes al: "granted al" and ds: "length d < 2 ^ 16" "unat ds = length d"
    and rec: "stands_at d p (item_bytes (ed_order D) (Entry e q))" and good: "item_good sub D ifd C d b (Entry e q)"
    and new: "en_tag e \<notin> item_tag ` set xs"
  shows "\<exists>m'. load_other al ifd d ds (of_nat p) (en_tag e) (after D ifd C b xs m) = Some (after D ifd C b (xs @ [Entry e q]) m')"
proof -
  let ?A = "after D ifd C b xs m"
  have g: "exact_entry e" "plain_tag D ifd (en_tag e)" "4 < length (entry_value e) \<Longrightarrow> stands_at d q (entry_value e)"
    using good by (simp_all add: item_good_def)
  have order: "ed_order ?A = ed_order D" by (simp add: after_def)
  obtain m' where m': "exif_data_load_data_entry al ?A d ds (of_nat p) = Some (?A\<lparr>ed_offset_mnote := m'\<rparr>, Some e)"
    using load_entry_at [OF al g(1) _ g(3) ds, of p ?A] rec order by auto
  have "en_tag e \<notin> en_tag ` set (entries_of xs)"
  proof
    assume "en_tag e \<in> en_tag ` set (entries_of xs)"
    then obtain it where "it \<in> set xs" "is_entry it" "en_tag (the_entry it) = en_tag e" by (auto simp: entries_of_def)
    then show False using new entry_tag [of it] by (metis image_eqI)
  qed
  then have "exif_content_get_entry (entries_of xs) (en_tag e) = None"
    unfolding exif_content_get_entry_def find_None_iff by (metis image_eqI)
  then have add: "fst (exif_content_add_entry al (entries_of xs) e) = entries_of xs @ [e]"
    using al by (simp add: exif_content_add_entry_def granted_def)
  have "ed_ifd ?A ifd = entries_of xs" by (simp add: after_def ifds_after_def)
  moreover have "(ifds_after (ed_ifd D) ifd C xs)(ifd := entries_of xs @ [e]) = ifds_after (ed_ifd D) ifd C (xs @ [Entry e q])"
    by (auto simp: ifds_after_def fun_eq_iff)
  ultimately have "ifd_upd ifd (fst (exif_content_add_entry al (ed_ifd (?A\<lparr>ed_offset_mnote := m'\<rparr>) ifd) e)) (?A\<lparr>ed_offset_mnote := m'\<rparr>) =
      after D ifd C b (xs @ [Entry e q]) m'"
    by (simp add: add ifd_upd_def after_def thumb_step_def)
  then show ?thesis using m' g(2) by (auto simp: load_other_def plain_tag_def Let_def)
qed

lemma load_one_item:
  fixes D :: "'m exif_data"
  assumes al: "granted al" and ds: "length d < 2 ^ 16" "unat ds = length d"
    and rec: "stands_at d p (item_bytes (ed_order D) it)" and good: "\<forall>x \<in> set (xs @ it # ys). item_good sub D ifd C d b x"
    and apart: "apart (xs @ it # ys)" and new: "item_tag it \<notin> item_tag ` set xs"
  shows "\<exists>m'. load_one al sub ifd d ds (of_nat p) (after D ifd C b xs m, thumbs xs) =
    Some (after D ifd C b (xs @ [it]) m', thumbs (xs @ [it]))"
proof -
  let ?A = "after D ifd C b xs m" and ?o = "ed_order D"
  have g: "item_good sub D ifd C d b it" using good by simp
  have order: "ed_order ?A = ?o" by (simp add: after_def)
  have "p + 12 \<le> length d" using rec by (simp add: stands_at_def)
  then have up: "unat (of_nat p :: u32) = p" using ds(1) by (intro unat_of_nat32) simp
  have thumb: "\<exists>m'. load_thumb al d ds (thumbs (xs @ [it])) ?A = Some (after D ifd C b (xs @ [it]) m', thumbs (xs @ [it]))"
    if none: "\<not> is_entry it" "\<nexists>t i q. it = Pointer t i q"
  proof -
    let ?tn = "thumbs (xs @ [it])"
    have mem: "fst ?tn \<noteq> 0 \<Longrightarrow> Thumb_at (fst ?tn) \<in> set (xs @ [it])" "snd ?tn \<noteq> 0 \<Longrightarrow> Thumb_len (snd ?tn) \<in> set (xs @ [it])"
      using thumbs_member [of "xs @ [it]"] by blast+
    have "\<forall>x \<in> set (xs @ [it]). item_good sub D ifd C d b x" using good by simp
    then have "fst ?tn \<noteq> 0 \<Longrightarrow> stands_at d (unat (fst ?tn)) b" "snd ?tn \<noteq> 0 \<Longrightarrow> unat (snd ?tn) = length b"
      using mem unfolding item_good_def by fastforce+
    then have l: "load_thumb al d ds ?tn ?A =
        Some (if fst ?tn \<noteq> 0 \<and> snd ?tn \<noteq> 0 then ?A\<lparr>ed_data := Some b, ed_size := of_nat (length b)\<rparr> else ?A, ?tn)"
      by (intro load_thumb_at [OF al ds]) simp_all
    have F: "ifds_after (ed_ifd D) ifd C (xs @ [it]) = ifds_after (ed_ifd D) ifd C xs"
      using none by (cases it) (auto simp: ifds_after_def fun_eq_iff)
    have "(fst (thumbs xs) \<noteq> 0 \<longrightarrow> fst ?tn \<noteq> 0 \<or> item_tag it \<in> item_tag ` set xs) \<and>
        (snd (thumbs xs) \<noteq> 0 \<longrightarrow> snd ?tn \<noteq> 0 \<or> item_tag it \<in> item_tag ` set xs)"
      using none thumbs_member [of xs] by (cases it) (force simp: thumb_step_def image_iff)+
    then have "(if fst ?tn \<noteq> 0 \<and> snd ?tn \<noteq> 0 then ?A\<lparr>ed_data := Some b, ed_size := of_nat (length b)\<rparr> else ?A) =
        after D ifd C b (xs @ [it]) m"
      using new unfolding after_def F by auto
    then show ?thesis using l by auto
  qed
  show ?thesis
  proof (cases it)
    case (Entry e q)
    have "get16 ?o d p = Some (en_tag e)"
    proof -
      obtain v where "fst (entry_image ?o q e) = exif_set_sshort ?o (en_tag e) @ v"
        using entry_record_head [of ?o q e] by blast
      then have "stands_at d p (exif_set_sshort ?o (en_tag e))" using rec Entry by (simp add: stands_at_append)
      then show ?thesis by (rule get16_at)
    qed
    moreover have "unat (en_tag e) \<notin> {EXIF_TAG_EXIF_IFD_POINTER, EXIF_TAG_GPS_INFO_IFD_POINTER,
        EXIF_TAG_INTEROPERABILITY_IFD_POINTER, EXIF_TAG_JPEG_INTERCHANGE_FORMAT_LENGTH, EXIF_TAG_JPEG_INTERCHANGE_FORMAT}"
      using g Entry by (simp add: item_good_def plain_tag_def)
    moreover obtain m' where "load_other al ifd d ds (of_nat p) (en_tag e) ?A = Some (after D ifd C b (xs @ [it]) m')"
      using load_entry_item [OF al ds, of p D e q sub ifd C b xs m] rec g new Entry by auto
    ultimately have "load_one al sub ifd d ds (of_nat p) (?A, thumbs xs) = Some (after D ifd C b (xs @ [it]) m', thumbs xs)"
      by (simp add: load_one_def up order)
    then show ?thesis using Entry by (auto simp: thumb_step_def)
  next
    case (Pointer tag i q)
    have k: "ptr_kind tag i" using g Pointer by (simp add: item_good_def)
    note k = k ptr_kindD [OF k]
    have r: "get16 ?o d p = Some (of_nat tag)" "get32 ?o d (p + 8) = Some (of_nat q)"
      using long_record_at [of d p ?o tag "of_nat q"] rec Pointer by simp_all
    obtain m' where m': "load_pointer sub ifd i (of_nat q) ?A = Some (after D ifd C b (xs @ [it]) m')"
      using load_pointer_item [of sub D ifd C d b tag i q xs ys m] g apart new Pointer by auto
    have "load_one al sub ifd d ds (of_nat p) (?A, thumbs xs) = Some (after D ifd C b (xs @ [it]) m', thumbs xs)"
      using k(1) m' unfolding ptr_kind_def by (auto simp: load_one_def up order r)
    then show ?thesis using Pointer by (auto simp: thumb_step_def)
  next
    case (Thumb_at v)
    have r: "get16 ?o d p = Some (of_nat EXIF_TAG_JPEG_INTERCHANGE_FORMAT)" "get32 ?o d (p + 8) = Some v"
      using long_record_at [of d p ?o EXIF_TAG_JPEG_INTERCHANGE_FORMAT v] rec Thumb_at by simp_all
    have "load_one al sub ifd d ds (of_nat p) (?A, thumbs xs) = load_thumb al d ds (thumbs (xs @ [it])) ?A"
      using r Thumb_at by (simp add: load_one_def up order thumb_step_def)
    then show ?thesis using thumb Thumb_at by simp
  next
    case (Thumb_len v)
    have r: "get16 ?o d p = Some (of_nat EXIF_TAG_JPEG_INTERCHANGE_FORMAT_LENGTH)" "get32 ?o d (p + 8) = Some v"
      using long_record_at [of d p ?o EXIF_TAG_JPEG_INTERCHANGE_FORMAT_LENGTH v] rec Thumb_len by simp_all
    have "load_one al sub ifd d ds (of_nat p) (?A, thumbs xs) = load_thumb al d ds (thumbs (xs @ [it])) ?A"
      using r Thumb_len by (simp add: load_one_def up order thumb_step_def)
    then show ?thesis using thumb Thumb_len by simp
  qed
qed

lemma load_items:
  fixes D :: "'m exif_data"
  assumes al: "granted al" and ds: "length d < 2 ^ 16" "unat ds = length d"
    and good: "\<forall>x \<in> set all. item_good sub D ifd C d b x" and apart: "apart all" and dist: "distinct (map item_tag all)"
  shows "all = xs @ ys \<Longrightarrow> stands_at d p (concat (map (item_bytes (ed_order D)) ys)) \<Longrightarrow>
    \<exists>m'. load_entries al sub ifd d ds (of_nat p) (length ys) (after D ifd C b xs m, thumbs xs) =
      Some (after D ifd C b all m', thumbs all)"
proof (induction ys arbitrary: xs p m)
  case (Cons it ys)
  have s: "stands_at d p (item_bytes (ed_order D) it)"
    "stands_at d (p + 12) (concat (map (item_bytes (ed_order D)) ys))"
    using Cons.prems(2) by (simp_all add: stands_at_append)
  have new: "item_tag it \<notin> item_tag ` set xs" using dist Cons.prems(1) by auto
  obtain m1 where m1: "load_one al sub ifd d ds (of_nat p) (after D ifd C b xs m, thumbs xs) =
      Some (after D ifd C b (xs @ [it]) m1, thumbs (xs @ [it]))"
    using load_one_item [OF al ds s(1) _ _ new, of ys sub ifd C b m] good apart Cons.prems(1) by auto
  have "of_nat p + 12 = (of_nat (p + 12) :: u32)" by simp
  then show ?case
    using Cons.IH [of "xs @ [it]" "p + 12" m1] Cons.prems(1) s(2) m1 by simp
qed auto

subsection \<open>Reading a directory\<close>

lemma after_Nil: "ed_ifd D ifd = [] \<Longrightarrow> after D ifd C b [] (ed_offset_mnote D) = D"
proof -
  assume "ed_ifd D ifd = []"
  then have "ifds_after (ed_ifd D) ifd C [] = ed_ifd D" by (auto simp: ifds_after_def fun_eq_iff)
  then show ?thesis by (simp add: after_def thumbs_def)
qed

text \<open>The values of entries, found where their items say.\<close>

lemma entry_items_stand:
  assumes "stands_at d q (snd (entries_image order q es))" "Entry e q' \<in> set (entry_items order q es)"
  shows "e \<in> set es \<and> (4 < length (entry_value e) \<longrightarrow> stands_at d q' (entry_value e))"
  using assms
proof (induction es arbitrary: q)
  case (Cons a es)
  let ?t = "snd (entry_image order q a)"
  have s: "stands_at d q ?t" "stands_at d (q + length ?t) (snd (entries_image order (q + length ?t) es))"
    using Cons.prems(1) by (simp_all add: split_beta stands_at_append)
  show ?case
  proof (cases "Entry e q' \<in> set (entry_items order (q + length ?t) es)")
    case True
    then show ?thesis using Cons.IH [OF s(2)] by simp
  next
    case False
    then have "e = a" "q' = q" using Cons.prems(2) by auto
    then show ?thesis using s(1) by (auto simp: entry_image_def Let_def stands_at_append split: if_splits)
  qed
qed simp

lemma items_only_entries: "it \<in> set (entry_items order q es) \<Longrightarrow> \<exists>e q'. it = Entry e q'"
  by (induction es arbitrary: q) auto

text \<open>A directory image is read as its sorted items.\<close>

lemma read_dir:
  fixes D :: "'m exif_data" and q m :: nat and es :: exif_content and sp nx
  defines "bs \<equiv> dir_image (ed_order D) m es sp nx q"
  defines "base \<equiv> q + 6 + 12 * (length es + m)"
  assumes al: "granted al" and ds: "length d < 2 ^ 16" "unat ds = length d" and ifd: "ifd \<noteq> EXIF_IFD_COUNT"
    and at: "stands_at d q bs"
    and ps: "map (item_bytes (ed_order D)) pis = fst (sp (base + length (snd (entries_image (ed_order D) base es))))"
      "length pis = m"
    and its: "its = entry_items (ed_order D) base es @ pis"
    and good: "\<forall>x \<in> set its. item_good (exif_data_load_data_content al d ds k) D ifd C d b x"
    and apart: "apart its" and dist: "distinct (map item_tag its)" and empty: "ed_ifd D ifd = []"
  shows "\<exists>m'. exif_data_load_data_content al d ds (Suc k) D ifd (of_nat q) =
    Some (after D ifd C b (sort_key item_tag its) m')"
proof -
  let ?o = "ed_order D" and ?sub = "exif_data_load_data_content al d ds k" and ?n = "length es + m"
  let ?all = "sort_key item_tag its"
  define ts where "ts = snd (entries_image ?o base es)"
  define tail where "tail = exif_set_long ?o (fst (nx (base + length ts + length (snd (sp (base + length ts)))))) @ ts @
    snd (sp (base + length ts)) @ snd (nx (base + length ts + length (snd (sp (base + length ts)))))"
  have n: "length its = ?n" using ps(2) arg_cong [OF entry_items_tags, of length ?o base es] by (simp add: its)
  have "map (item_bytes ?o) its = fst (entries_image ?o base es) @ fst (sp (base + length ts))"
    unfolding its map_append entry_items_bytes ps(1) ts_def ..
  then have bs: "bs = exif_set_sshort ?o (of_nat ?n) @ concat (map (item_bytes ?o) ?all) @ tail"
    unfolding bs_def dir_image_def Let_def split_beta base_def [symmetric] ts_def [symmetric] tail_def
    by (simp only: sort_items [symmetric]) simp
  have s: "stands_at d q (exif_set_sshort ?o (of_nat ?n))"
    "stands_at d (q + 2) (concat (map (item_bytes ?o) ?all))"
    using at unfolding bs stands_at_append length_set by simp_all
  have "length (concat (map (item_bytes ?o) ?all)) = 12 * ?n"
    using length_concat_records [of "map (item_bytes ?o) ?all"] n by simp
  then have room: "q + 2 + 12 * ?n \<le> length d" using stands_at_length [OF s(2)] by simp
  have uq: "unat (of_nat q :: u32) = q" using room ds(1) by (intro unat_of_nat32) simp
  have q2: "of_nat q + 2 = (of_nat (q + 2) :: u32)" by simp
  have uq2: "unat (of_nat (q + 2) :: u32) = q + 2" using room ds(1) by (intro unat_of_nat32) simp
  have un: "unat (of_nat ?n :: u16) = ?n" using room ds(1) by (intro unat_of_nat_small) simp
  have end': "unat (of_nat (q + 2) + 12 * ucast (of_nat ?n :: u16) :: u32) = q + 2 + 12 * ?n"
    using room ds(1) by (subst unat_add_small) (simp_all only: twelve un uq2, simp)
  have fits: "\<not> ds < of_nat (q + 2) + 12 * ucast (of_nat ?n :: u16)"
    using room by (simp only: word_less_nat_alt end' ds(2))
  have ok: "\<not> (of_nat (q + 2) < (of_nat q :: u32) \<or> of_nat (q + 2) < (2 :: u32) \<or> ds < of_nat (q + 2))"
    using room by (auto simp only: word_less_nat_alt uq uq2 ds(2)) simp_all
  have ic: "\<not> EXIF_IFD_COUNT \<le> ifd" using ifd by simp
  have g: "get16 ?o d (unat (of_nat q :: u32)) = Some (of_nat ?n)" unfolding uq by (rule get16_at [OF s(1)])
  have good': "\<forall>x \<in> set ?all. item_good ?sub D ifd C d b x" using good by simp
  have apart': "apart ?all" using apart by (simp add: apart_def)
  have dist': "distinct (map item_tag ?all)" using dist by (simp add: distinct_map)
  obtain m' where m': "load_entries al ?sub ifd d ds (of_nat (q + 2)) (length ?all) (after D ifd C b [] (ed_offset_mnote D), thumbs []) =
      Some (after D ifd C b ?all m', thumbs ?all)"
    using load_items [OF al ds good' apart' dist' append_Nil [symmetric] s(2)] by blast
  have "length ?all = ?n" using n by simp
  then have l: "load_entries al ?sub ifd d ds (of_nat (q + 2)) ?n (D, 0, 0) = Some (after D ifd C b ?all m', thumbs ?all)"
    using m' unfolding after_Nil [OF empty] by (simp add: thumbs_def)
  have "exif_data_load_data_content al d ds (Suc k) D ifd (of_nat q) = Some (after D ifd C b ?all m')"
    unfolding exif_data_load_data_content.simps(2) if_not_P [OF ic] q2 if_not_P [OF ok] g Option.bind.simps Let_def
      if_not_P [OF fits] un l by (simp add: split_beta)
  then show ?thesis by blast
qed

text \<open>The parts of a directory image.\<close>

lemma dir_image_stands:
  assumes at: "stands_at d q (dir_image order m es sp nx q)"
    and ps: "length (fst (sp (q + 6 + 12 * (length es + m) + length (snd (entries_image order (q + 6 + 12 * (length es + m)) es))))) = m"
      "\<forall>r \<in> set (fst (sp (q + 6 + 12 * (length es + m) + length (snd (entries_image order (q + 6 + 12 * (length es + m)) es))))). length r = 12"
    and b: "b = q + 6 + 12 * (length es + m)" and t: "t = b + length (snd (entries_image order b es))"
    and u: "u = t + length (snd (sp t))"
  shows "stands_at d q (exif_set_sshort order (of_nat (length es + m)))"
    "stands_at d (q + 2 + 12 * (length es + m)) (exif_set_slong order (fst (nx u)))"
    "stands_at d b (snd (entries_image order b es))" "stands_at d t (snd (sp t))" "stands_at d u (snd (nx u))"
proof -
  let ?rs = "sort_key (exif_get_short order) (fst (entries_image order b es) @ fst (sp t))"
  have "\<forall>r \<in> set ?rs. length r = 12" using ps(2) length_entries_image(2) [of order b es] unfolding b [symmetric] t [symmetric] by auto
  then have l: "length (concat ?rs) = 12 * (length es + m)"
    using length_concat_records [of ?rs] ps(1) length_entries_image(1) [of order b es] unfolding b [symmetric] t [symmetric] by simp
  have img: "dir_image order m es sp nx q = exif_set_sshort order (of_nat (length es + m)) @ concat ?rs @
      exif_set_slong order (fst (nx u)) @ snd (entries_image order b es) @ snd (sp t) @ snd (nx u)"
    unfolding dir_image_def Let_def split_beta b t u by simp
  have eq: "q + 2 + 12 * (length es + m) + 4 = b" unfolding b by simp
  show "stands_at d q (exif_set_sshort order (of_nat (length es + m)))"
    "stands_at d (q + 2 + 12 * (length es + m)) (exif_set_slong order (fst (nx u)))"
    "stands_at d b (snd (entries_image order b es))" "stands_at d t (snd (sp t))" "stands_at d u (snd (nx u))"
    using at unfolding img stands_at_append l length_set eq t [symmetric] u [symmetric] by simp_all
qed

subsection \<open>Objects that survive\<close>

text \<open>The entries the reader leaves: those of the writer in the order of their tags.\<close>

definition kept :: "'m exif_data \<Rightarrow> exif_ifd \<Rightarrow> exif_content" where
  "kept data i = sort_key en_tag (ed_ifd data i)"

definition storable :: "'m exif_data \<Rightarrow> bool" where
  "storable data \<longleftrightarrow> data_ok data \<and> note_kept data \<and> (ed_size data = 0 \<longrightarrow> ed_data data = None) \<and>
     (\<forall>i. i \<noteq> EXIF_IFD_COUNT \<longrightarrow> (\<forall>e \<in> set (ed_ifd data i). exact_entry e \<and> plain_tag data i (en_tag e)))"

definition blank :: "'m exif_data \<Rightarrow> bool" where
  "blank D \<longleftrightarrow> (\<forall>i. ed_ifd D i = []) \<and> ed_data D = None \<and> ed_size D = 0 \<and>
     ed_options D AND EXIF_DATA_OPTION_FOLLOW_SPECIFICATION = 0"

definition reserved :: "nat set" where
  "reserved = {EXIF_TAG_EXIF_IFD_POINTER, EXIF_TAG_GPS_INFO_IFD_POINTER, EXIF_TAG_INTEROPERABILITY_IFD_POINTER,
     EXIF_TAG_JPEG_INTERCHANGE_FORMAT_LENGTH, EXIF_TAG_JPEG_INTERCHANGE_FORMAT}"

lemma plain_not_reserved: "plain_tag data i t \<Longrightarrow> unat t \<notin> reserved"
  by (auto simp: plain_tag_def reserved_def)

lemma sorted_content:
  assumes "\<forall>x \<in> set pis. \<not> is_entry x"
  shows "entries_of (sort_key item_tag (entry_items order base es @ pis)) = sort_key en_tag es"
proof -
  have "filter is_entry pis = []" using assms by (simp add: filter_empty_conv)
  then have "entries_of pis = []" by (simp add: entries_of_def)
  then show ?thesis by (simp add: entries_of_sorted entries_of_items)
qed

lemma no_entry_pointer: "Pointer t i q \<notin> set (entry_items order base es)" "Thumb_at v \<notin> set (entry_items order base es)"
  "Thumb_len v \<notin> set (entry_items order base es)"
  using items_only_entries by blast+

declare exif_data_load_data_content.simps(2) [simp del]

text \<open>Reading the image of a directory of a storable object, with the records \<open>pis\<close> after its entries.\<close>

lemma read_storable:
  fixes D data :: "'m exif_data" and q m :: nat and sp nx and b :: "u8 list"
  assumes al: "granted al" and ds: "length d < 2 ^ 16" "unat ds = length d" and ifd: "ifd \<noteq> EXIF_IFD_COUNT"
    and st: "storable data" and order: "ed_order D = ed_order data" and empty: "ed_ifd D ifd = []"
    and at: "stands_at d q (dir_image (ed_order data) m (ed_ifd data ifd) sp nx q)"
    and base: "base = q + 6 + 12 * (length (ed_ifd data ifd) + m)"
    and t: "t = base + length (snd (entries_image (ed_order data) base (ed_ifd data ifd)))"
    and ps: "map (item_bytes (ed_order data)) pis = fst (sp t)" "length pis = m"
    and pis: "\<forall>x \<in> set pis. \<not> is_entry x \<and> unat (item_tag x) \<in> reserved \<and>
        item_good (exif_data_load_data_content al d ds k) D ifd (kept data) d b x"
    and apart: "apart pis" and dist: "distinct (map item_tag pis)"
  shows "\<exists>m'. exif_data_load_data_content al d ds (Suc k) D ifd (of_nat q) =
    Some (after D ifd (kept data) b (sort_key item_tag (entry_items (ed_order data) base (ed_ifd data ifd) @ pis)) m')"
proof -
  let ?es = "ed_ifd data ifd"
  define its where "its = entry_items (ed_order data) base ?es @ pis"
  have e: "\<forall>e \<in> set ?es. exact_entry e \<and> plain_tag data ifd (en_tag e)" using st ifd by (simp add: storable_def)
  have sp: "length (fst (sp t)) = m" "\<forall>r \<in> set (fst (sp t)). length r = 12"
    unfolding ps(1) [symmetric] using ps(2) by auto
  have vals: "stands_at d base (snd (entries_image (ed_order data) base ?es))"
    using dir_image_stands(3) [OF at _ _ base t refl] sp unfolding base t by blast
  have good: "item_good (exif_data_load_data_content al d ds k) D ifd (kept data) d b x" if x: "x \<in> set its" for x
  proof (cases "x \<in> set pis")
    case False
    then have x': "x \<in> set (entry_items (ed_order data) base ?es)" using x by (simp add: its_def)
    then obtain e' q' where eq: "x = Entry e' q'" using items_only_entries by blast
    then have "e' \<in> set ?es" "4 < length (entry_value e') \<longrightarrow> stands_at d q' (entry_value e')"
      using entry_items_stand [OF vals, of e' q'] x' by simp_all
    then show ?thesis using e eq by (simp add: item_good_def plain_tag_def)
  qed (use pis in blast)
  have ap: "apart its" using apart no_entry_pointer(1) unfolding apart_def its_def by simp
  have "distinct (map en_tag ?es)" using st by (simp add: storable_def data_ok_def content_ok_def)
  moreover have "en_tag ` set ?es \<inter> item_tag ` set pis = {}"
    using e pis plain_not_reserved by fastforce
  moreover have "set (map item_tag (entry_items (ed_order data) base ?es)) = en_tag ` set ?es"
    by (simp only: entry_items_tags set_map)
  ultimately have dist': "distinct (map item_tag its)" using dist by (simp add: its_def entry_items_tags)
  have i: "its = entry_items (ed_order D) base ?es @ pis" by (simp add: its_def order)
  show ?thesis unfolding its_def [symmetric]
    by (rule read_dir [OF al ds ifd, where D = D and q = q and m = m and es = ?es and sp = sp and nx = nx and pis = pis])
      (use at order ps(2) i good ap dist' empty ps(1) base t in simp_all)
qed

subsection \<open>The directories\<close>

text \<open>A directory without a thumbnail.\<close>

lemma after_sorted:
  fixes D data :: "'m exif_data"
  assumes "\<forall>x \<in> set pis. \<not> is_entry x" "\<forall>v. Thumb_at v \<notin> set pis"
  shows "after D ifd (kept data) b (sort_key item_tag (entry_items order base (ed_ifd data ifd) @ pis)) m =
    D\<lparr>ed_ifd := (\<lambda>j. if j = ifd then kept data ifd
        else if \<exists>t i q. Pointer t i q \<in> set pis \<and> j \<in> reach i then kept data j else ed_ifd D j), ed_offset_mnote := m\<rparr>"
proof -
  let ?its = "sort_key item_tag (entry_items order base (ed_ifd data ifd) @ pis)"
  have "fst (thumbs ?its) = 0"
    using thumbs_member [of ?its] assms(2) no_entry_pointer(2) by auto
  moreover have "ifds_after (ed_ifd D) ifd (kept data) ?its =
      (\<lambda>j. if j = ifd then kept data ifd
        else if \<exists>t i q. Pointer t i q \<in> set pis \<and> j \<in> reach i then kept data j else ed_ifd D j)"
    using sorted_content [OF assms(1)] no_entry_pointer(1)
    by (auto simp: ifds_after_def kept_def fun_eq_iff)
  ultimately show ?thesis by (simp add: after_def)
qed

lemma reads_leaf:
  fixes data :: "'m exif_data"
  assumes al: "granted al" and ds: "length d < 2 ^ 16" "unat ds = length d" and st: "storable data"
    and i: "i \<in> {EXIF_IFD_INTEROPERABILITY, EXIF_IFD_GPS}" and at: "stands_at d q (leaf_image data i q)"
  shows "reads_dir (exif_data_load_data_content al d ds (Suc k) :: 'm exif_data \<Rightarrow> _) (ed_order data) (kept data) i q"
  unfolding reads_dir_def
proof (intro allI impI)
  fix D :: "'m exif_data"
  assume o: "ed_order D = ed_order data" and e: "\<forall>j \<in> reach i. ed_ifd D j = []"
  have r: "reach i = {i}" using i by (auto simp: reach_def)
  have n: "i \<noteq> EXIF_IFD_COUNT" using i by auto
  have "stands_at d q (dir_image (ed_order data) 0 (ed_ifd data i) no_special no_next q)"
    using at by (simp add: leaf_image_def)
  then obtain m' where "exif_data_load_data_content al d ds (Suc k) D i (of_nat q) =
      Some (after D i (kept data) [] (sort_key item_tag (entry_items (ed_order data) (q + 6 + 12 * (length (ed_ifd data i) + 0))
        (ed_ifd data i) @ [])) m')"
    using read_storable [OF al ds n st o _ _ refl refl, of q 0 no_special no_next "[]" k "[]"] e
    by (auto simp: no_special_def apart_def r)
  then show "\<exists>m. exif_data_load_data_content al d ds (Suc k) D i (of_nat q) =
      Some (D\<lparr>ed_ifd := (\<lambda>j. if j \<in> reach i then kept data j else ed_ifd D j), ed_offset_mnote := m\<rparr>)"
    using after_sorted [of "[]"] by (intro exI [of _ m']) (simp add: r cong: if_cong)
qed

text \<open>The EXIF directory with the interoperability directory.\<close>

lemma reads_exif:
  fixes data :: "'m exif_data"
  assumes al: "granted al" and ds: "length d < 2 ^ 16" "unat ds = length d" and st: "storable data"
    and at: "stands_at d q (exif_image data q)"
  shows "reads_dir (exif_data_load_data_content al d ds (Suc (Suc k)) :: 'm exif_data \<Rightarrow> _) (ed_order data) (kept data) EXIF_IFD_EXIF q"
  unfolding reads_dir_def
proof (intro allI impI)
  fix D :: "'m exif_data"
  let ?m = "n_pointers data EXIF_IFD_EXIF" and ?es = "ed_ifd data EXIF_IFD_EXIF" and ?o = "ed_order data"
  let ?c = "ed_ifd data EXIF_IFD_INTEROPERABILITY \<noteq> []"
  assume o: "ed_order D = ed_order data" and e: "\<forall>j \<in> reach EXIF_IFD_EXIF. ed_ifd D j = []"
  have r: "reach EXIF_IFD_EXIF = {EXIF_IFD_EXIF, EXIF_IFD_INTEROPERABILITY}" "reach EXIF_IFD_INTEROPERABILITY = {EXIF_IFD_INTEROPERABILITY}"
    by (simp_all add: reach_def)
  define base where "base = q + 6 + 12 * (length ?es + ?m)"
  define t where "t = base + length (snd (entries_image ?o base ?es))"
  define pis where "pis = (if ?c then [Pointer EXIF_TAG_INTEROPERABILITY_IFD_POINTER EXIF_IFD_INTEROPERABILITY t] else [])"
  have m: "length pis = ?m" by (simp add: pis_def n_pointers_def)
  have ps: "map (item_bytes ?o) pis = fst (exif_special data t)"
    by (simp add: pis_def exif_special_def pointer_image_def)
  have at': "stands_at d q (dir_image ?o ?m ?es (exif_special data) no_next q)"
    using at by (simp add: exif_image_def)
  have "\<forall>x \<in> set (fst (exif_special data t)). length x = 12"
    by (simp add: exif_special_def pointer_image_simps)
  moreover have "length (fst (exif_special data t)) = ?m" unfolding ps [symmetric] using m by simp
  ultimately have "stands_at d t (snd (exif_special data t))"
    using dir_image_stands(4) [OF at' _ _ base_def t_def refl] unfolding base_def t_def by blast
  then have "?c \<Longrightarrow> stands_at d t (leaf_image data EXIF_IFD_INTEROPERABILITY t)"
    by (simp add: exif_special_def pointer_image_def)
  then have sub: "?c \<Longrightarrow> reads_dir (exif_data_load_data_content al d ds (Suc k) :: 'm exif_data \<Rightarrow> _) ?o (kept data) EXIF_IFD_INTEROPERABILITY t"
    by (intro reads_leaf [OF al ds st]) simp_all
  have pis': "\<forall>x \<in> set pis. \<not> is_entry x \<and> unat (item_tag x) \<in> reserved \<and>
      item_good (exif_data_load_data_content al d ds (Suc k)) D EXIF_IFD_EXIF (kept data) d [] x"
    using sub e by (auto simp: pis_def reserved_def item_good_def ptr_kind_def r o split: if_splits)
  have "apart pis" "distinct (map item_tag pis)" by (auto simp: pis_def apart_def split: if_splits)
  then obtain m' where m': "exif_data_load_data_content al d ds (Suc (Suc k)) D EXIF_IFD_EXIF (of_nat q) =
      Some (after D EXIF_IFD_EXIF (kept data) [] (sort_key item_tag (entry_items ?o base ?es @ pis)) m')"
    using read_storable [OF al ds _ st o _ at' base_def t_def ps m pis'] e r by auto
  have "kept data EXIF_IFD_INTEROPERABILITY = []" "ed_ifd D EXIF_IFD_INTEROPERABILITY = []" if "\<not> ?c"
    using that e r by (simp_all add: kept_def)
  then have "(\<lambda>j. if j = EXIF_IFD_EXIF then kept data EXIF_IFD_EXIF
        else if \<exists>t i q. Pointer t i q \<in> set pis \<and> j \<in> reach i then kept data j else ed_ifd D j) =
      (\<lambda>j. if j \<in> reach EXIF_IFD_EXIF then kept data j else ed_ifd D j)"
    by (auto simp: fun_eq_iff r pis_def)
  then have "after D EXIF_IFD_EXIF (kept data) [] (sort_key item_tag (entry_items ?o base ?es @ pis)) m' =
      D\<lparr>ed_ifd := (\<lambda>j. if j \<in> reach EXIF_IFD_EXIF then kept data j else ed_ifd D j), ed_offset_mnote := m'\<rparr>"
    using after_sorted [of pis D EXIF_IFD_EXIF data "[]" ?o base m'] by (simp add: pis_def)
  then show "\<exists>m. exif_data_load_data_content al d ds (Suc (Suc k)) D EXIF_IFD_EXIF (of_nat q) =
      Some (D\<lparr>ed_ifd := (\<lambda>j. if j \<in> reach EXIF_IFD_EXIF then kept data j else ed_ifd D j), ed_offset_mnote := m\<rparr>)"
    using m' by auto
qed

text \<open>The thumbnail directory.\<close>

lemma thumbs_at:
  "(\<forall>w. Thumb_at w \<in> set its \<longrightarrow> w = v) \<Longrightarrow> fst (thumbs its) = (if Thumb_at v \<in> set its then v else 0)"
  "(\<forall>w. Thumb_len w \<in> set its \<longrightarrow> w = v) \<Longrightarrow> snd (thumbs its) = (if Thumb_len v \<in> set its then v else 0)"
proof (induction its rule: rev_induct)
  case (snoc it its)
  { case 1 then show ?case using snoc.IH(1) by (cases it) (auto simp: thumb_step_def) }
  { case 2 then show ?case using snoc.IH(2) by (cases it) (auto simp: thumb_step_def) }
qed (simp_all add: thumbs_def)

lemma reads_ifd1:
  fixes D data :: "'m exif_data"
  assumes al: "granted al" and ds: "length d < 2 ^ 16" "unat ds = length d" and st: "storable data"
    and o: "ed_order D = ed_order data" and e: "ed_ifd D EXIF_IFD_1 = []" "ed_data D = None" "ed_size D = 0"
    and at: "stands_at d q (ifd1_image data q)"
  shows "\<exists>m. exif_data_load_data_content al d ds (Suc k) D EXIF_IFD_1 (of_nat q) =
    Some (D\<lparr>ed_ifd := (ed_ifd D)(EXIF_IFD_1 := kept data EXIF_IFD_1), ed_data := ed_data data, ed_size := ed_size data,
      ed_offset_mnote := m\<rparr>)"
proof -
  let ?m = "n_thumbnail data EXIF_IFD_1" and ?es = "ed_ifd data EXIF_IFD_1" and ?o = "ed_order data"
  let ?b = "case ed_data data of None \<Rightarrow> [] | Some b \<Rightarrow> b" and ?c = "ed_size data \<noteq> 0"
  define base where "base = q + 6 + 12 * (length ?es + ?m)"
  define t where "t = base + length (snd (entries_image ?o base ?es))"
  define pis where "pis = (if ?c then [Thumb_at (of_nat t), Thumb_len (ed_size data)] else [])"
  have m: "length pis = ?m" by (simp add: pis_def n_thumbnail_def)
  have ps: "map (item_bytes ?o) pis = fst (ifd1_special data t)"
    by (simp add: pis_def ifd1_special_def)
  have at': "stands_at d q (dir_image ?o ?m ?es (ifd1_special data) no_next q)" using at by (simp add: ifd1_image_def)
  have "\<forall>x \<in> set (fst (ifd1_special data t)). length x = 12" by (simp add: ifd1_special_def)
  moreover have "length (fst (ifd1_special data t)) = ?m" unfolding ps [symmetric] using m by simp
  ultimately have "stands_at d t (snd (ifd1_special data t))"
    using dir_image_stands(4) [OF at' _ _ base_def t_def refl] unfolding base_def t_def by blast
  then have th: "?c \<Longrightarrow> stands_at d t ?b" by (simp add: ifd1_special_def)
  have bl: "?c \<Longrightarrow> length ?b = unat (ed_size data) \<and> ed_data data = Some ?b"
    using st by (auto simp: storable_def data_ok_def thumb_ok_def split: option.splits)
  have ut: "?c \<Longrightarrow> unat (of_nat t :: u32) = t"
    using th ds(1) by (intro unat_of_nat32) (auto simp: stands_at_def)
  have "t \<noteq> 0" by (simp add: t_def base_def)
  then have t0: "?c \<Longrightarrow> of_nat t \<noteq> (0 :: u32)" using ut by (metis unat_0)
  have pis': "\<forall>x \<in> set pis. \<not> is_entry x \<and> unat (item_tag x) \<in> reserved \<and>
      item_good (exif_data_load_data_content al d ds k) D EXIF_IFD_1 (kept data) d ?b x"
    using th bl ut by (auto simp: pis_def reserved_def item_good_def)
  have "apart pis" "distinct (map item_tag pis)" by (auto simp: pis_def apart_def split: if_splits)
  then obtain m' where m': "exif_data_load_data_content al d ds (Suc k) D EXIF_IFD_1 (of_nat q) =
      Some (after D EXIF_IFD_1 (kept data) ?b (sort_key item_tag (entry_items ?o base ?es @ pis)) m')"
    using read_storable [OF al ds _ st o _ at' base_def t_def ps m pis'] e(1) by auto
  let ?its = "sort_key item_tag (entry_items ?o base ?es @ pis)"
  have F: "ifds_after (ed_ifd D) EXIF_IFD_1 (kept data) ?its = (ed_ifd D)(EXIF_IFD_1 := kept data EXIF_IFD_1)"
    using sorted_content [of pis ?o base ?es] no_entry_pointer(1)
    by (auto simp: ifds_after_def kept_def fun_eq_iff pis_def)
  have "fst (thumbs ?its) = (if ?c then of_nat t else 0)" "snd (thumbs ?its) = (if ?c then ed_size data else 0)"
    using thumbs_at(1) [of ?its "of_nat t"] thumbs_at(2) [of ?its "ed_size data"] no_entry_pointer by (auto simp: pis_def)
  moreover have "?c \<Longrightarrow> of_nat (length ?b) = ed_size data" using bl by simp
  ultimately have "after D EXIF_IFD_1 (kept data) ?b ?its m' = D\<lparr>ed_ifd := (ed_ifd D)(EXIF_IFD_1 := kept data EXIF_IFD_1),
      ed_data := ed_data data, ed_size := ed_size data, ed_offset_mnote := m'\<rparr>"
    using bl t0 st e(2,3) by (cases ?c) (auto simp: after_def F storable_def)
  then show ?thesis using m' by auto
qed

text \<open>The first directory.\<close>

lemma reads_ifd0:
  fixes D data :: "'m exif_data"
  assumes al: "granted al" and ds: "length d < 2 ^ 16" "unat ds = length d" and st: "storable data"
    and o: "ed_order D = ed_order data" and e: "\<forall>j. ed_ifd D j = []" and at: "stands_at d q (ifd0_image data q)"
  shows "\<exists>m. exif_data_load_data_content al d ds (Suc (Suc (Suc k))) D EXIF_IFD_0 (of_nat q) =
    Some (D\<lparr>ed_ifd := (\<lambda>j. if j = EXIF_IFD_1 \<or> j = EXIF_IFD_COUNT then [] else kept data j), ed_offset_mnote := m\<rparr>)"
proof -
  let ?m = "n_pointers data EXIF_IFD_0" and ?es = "ed_ifd data EXIF_IFD_0" and ?o = "ed_order data"
  let ?c = "ed_ifd data EXIF_IFD_EXIF \<noteq> [] \<or> ed_ifd data EXIF_IFD_INTEROPERABILITY \<noteq> []" and ?g = "ed_ifd data EXIF_IFD_GPS \<noteq> []"
  let ?sub = "exif_data_load_data_content al d ds (Suc (Suc k)) :: 'm exif_data \<Rightarrow> exif_ifd \<Rightarrow> u32 \<Rightarrow> 'm exif_data option"
  have r: "reach EXIF_IFD_EXIF = {EXIF_IFD_EXIF, EXIF_IFD_INTEROPERABILITY}" "reach EXIF_IFD_GPS = {EXIF_IFD_GPS}"
    by (simp_all add: reach_def)
  define base where "base = q + 6 + 12 * (length ?es + ?m)"
  define t where "t = base + length (snd (entries_image ?o base ?es))"
  define u where "u = t + (if ?c then length (exif_image data t) else 0)"
  define pis where "pis = (if ?c then [Pointer EXIF_TAG_EXIF_IFD_POINTER EXIF_IFD_EXIF t] else []) @
    (if ?g then [Pointer EXIF_TAG_GPS_INFO_IFD_POINTER EXIF_IFD_GPS u] else [])"
  have m: "length pis = ?m" by (auto simp: pis_def n_pointers_def)
  have sp: "ifd0_special data t = (map (item_bytes ?o) pis,
      (if ?c then exif_image data t else []) @ (if ?g then leaf_image data EXIF_IFD_GPS u else []))"
    by (auto simp: pis_def ifd0_special_def pointer_image_def u_def Let_def)
  then have ps: "map (item_bytes ?o) pis = fst (ifd0_special data t)" by simp
  have at': "stands_at d q (dir_image ?o ?m ?es (ifd0_special data) (ifd0_next data) q)" using at by (simp add: ifd0_image_def)
  have "\<forall>x \<in> set (fst (ifd0_special data t)). length x = 12" by (auto simp: sp)
  moreover have "length (fst (ifd0_special data t)) = ?m" unfolding ps [symmetric] using m by simp
  ultimately have "stands_at d t (snd (ifd0_special data t))"
    using dir_image_stands(4) [OF at' _ _ base_def t_def refl] unfolding base_def t_def by blast
  then have "?c \<Longrightarrow> stands_at d t (exif_image data t)" "?g \<Longrightarrow> stands_at d u (leaf_image data EXIF_IFD_GPS u)"
    unfolding sp snd_conv stands_at_append u_def by (auto split: if_splits)
  then have sub: "?c \<Longrightarrow> reads_dir ?sub ?o (kept data) EXIF_IFD_EXIF t" "?g \<Longrightarrow> reads_dir ?sub ?o (kept data) EXIF_IFD_GPS u"
    using reads_exif [OF al ds st] reads_leaf [OF al ds st] by blast+
  have pis': "\<forall>x \<in> set pis. \<not> is_entry x \<and> unat (item_tag x) \<in> reserved \<and>
      item_good ?sub D EXIF_IFD_0 (kept data) d [] x"
    using sub e by (auto simp: pis_def reserved_def item_good_def ptr_kind_def r o split: if_splits)
  have "apart pis" "distinct (map item_tag pis)" by (auto simp: pis_def apart_def r split: if_splits)
  then obtain m' where m': "exif_data_load_data_content al d ds (Suc (Suc (Suc k))) D EXIF_IFD_0 (of_nat q) =
      Some (after D EXIF_IFD_0 (kept data) [] (sort_key item_tag (entry_items ?o base ?es @ pis)) m')"
    using read_storable [OF al ds _ st o _ at' base_def t_def ps m pis'] e by auto
  have "\<not> ?c \<Longrightarrow> kept data EXIF_IFD_EXIF = [] \<and> kept data EXIF_IFD_INTEROPERABILITY = []" "\<not> ?g \<Longrightarrow> kept data EXIF_IFD_GPS = []"
    by (simp_all add: kept_def)
  moreover have "(\<exists>t i q. Pointer t i q \<in> set pis \<and> j \<in> reach i) \<longleftrightarrow>
      ?c \<and> j \<in> {EXIF_IFD_EXIF, EXIF_IFD_INTEROPERABILITY} \<or> ?g \<and> j = EXIF_IFD_GPS" for j
    by (cases ?c; cases ?g) (simp_all add: pis_def r ex_disj_distrib conj_disj_distribR)
  moreover have no_thumb: "\<forall>v. Thumb_at v \<notin> set pis" by (simp add: pis_def)
  ultimately have "(if j = EXIF_IFD_0 then kept data EXIF_IFD_0
        else if \<exists>t i q. Pointer t i q \<in> set pis \<and> j \<in> reach i then kept data j else ed_ifd D j) =
      (if j = EXIF_IFD_1 \<or> j = EXIF_IFD_COUNT then [] else kept data j)" for j
    using e by (cases j) auto
  then have "after D EXIF_IFD_0 (kept data) [] (sort_key item_tag (entry_items ?o base ?es @ pis)) m' =
      D\<lparr>ed_ifd := (\<lambda>j. if j = EXIF_IFD_1 \<or> j = EXIF_IFD_COUNT then [] else kept data j), ed_offset_mnote := m'\<rparr>"
    using pis' after_sorted [of pis D EXIF_IFD_0 data "[]" ?o base m'] no_thumb by simp
  then show ?thesis using m' by auto
qed

subsection \<open>Reading the block\<close>

lemma interpret_md: "\<exists>md. interpret_maker_note mn D d = D\<lparr>ed_md := md\<rparr>"
proof (cases "exif_data_get_entry D (of_nat EXIF_TAG_MAKER_NOTE)")
  case None
  then have "interpret_maker_note mn D d = D\<lparr>ed_md := ed_md D\<rparr>" by (simp add: interpret_maker_note_def)
  then show ?thesis by blast
qed (auto simp: interpret_maker_note_def)

lemma load_image:
  fixes D data :: "'m exif_data"
  assumes al: "granted al" and st: "storable data" and D: "blank D" and short: "length (exif_data_image data) \<le> 0xfffe"
  shows "\<exists>D'. exif_data_load_data al now mn D (exif_data_image data) = Some D' \<and> ed_order D' = ed_order data \<and>
    ed_data D' = ed_data data \<and> ed_size D' = ed_size data \<and> (\<forall>i. i \<noteq> EXIF_IFD_COUNT \<longrightarrow> ed_ifd D' i = kept data i)"
proof -
  let ?o = "ed_order data" and ?es = "ed_ifd data EXIF_IFD_0" and ?m = "n_pointers data EXIF_IFD_0"
  define d where "d = exif_data_image data"
  define mark :: "u8 list" where "mark = (if ?o = EXIF_BYTE_ORDER_INTEL then [0x49, 0x49] else [0x4d, 0x4d])"
  define e where "e = drop 6 d"
  have d: "d = ExifHeader @ mark @ exif_set_sshort ?o 0x2a @ exif_set_slong ?o 8 @ ifd0_image data 8"
    by (simp add: d_def exif_data_image_def exif_header_def mark_def)
  have ml: "length mark = 2" "length ExifHeader = 6" by (simp_all add: mark_def ExifHeader_def)
  have e': "e = mark @ exif_set_sshort ?o 0x2a @ exif_set_slong ?o 8 @ ifd0_image data 8" by (simp add: e_def d ml)
  have el: "length e + 6 = length d" by (simp add: e_def d ml)
  have at: "stands_at e 2 (exif_set_sshort ?o 0x2a)" "stands_at e 4 (exif_set_slong ?o 8)" "stands_at e 8 (ifd0_image data 8)"
    by (simp_all add: e' stands_at_def slice_def ml)
  define t where "t = 8 + 6 + 12 * (length ?es + ?m) + length (snd (entries_image ?o (8 + 6 + 12 * (length ?es + ?m)) ?es))"
  define u where "u = t + length (snd (ifd0_special data t))"
  define n where "n = length ?es + ?m"
  have spl: "length (fst (ifd0_special data t)) = ?m" "\<forall>r \<in> set (fst (ifd0_special data t)). length r = 12"
    by (auto simp: ifd0_special_def n_pointers_def pointer_image_def Let_def split_beta)
  have ist: "stands_at e 8 (dir_image ?o ?m ?es (ifd0_special data) (ifd0_next data) 8)" using at(3) by (simp add: ifd0_image_def)
  note parts = dir_image_stands [OF ist spl [unfolded t_def] refl t_def u_def]
  have cnt: "stands_at d 14 (exif_set_sshort ?o (of_nat n))" "stands_at d (16 + 12 * n) (exif_set_slong ?o (fst (ifd0_next data u)))"
    using stands_at_drop [of 6 d] parts(1, 2) el unfolding e_def [symmetric] n_def [symmetric] by fastforce+
  have nx: "stands_at e u (snd (ifd0_next data u))" by (rule parts(5))
  have "stands_at e (10 + 12 * n) (exif_set_slong ?o (fst (ifd0_next data u)))" using parts(2) by (simp add: n_def)
  then have room: "14 + 12 * n \<le> length e" using stands_at_length by fastforce
  have el16: "length e < 2 ^ 16" using short el by (simp add: d_def)
  define ds :: u32 where "ds = of_nat (length d)"
  have uds: "unat ds = length d" using el16 el by (simp add: ds_def unat_of_nat32)
  have uds6: "unat (ds - 6) = length e" using el by (simp add: unat_sub word_le_nat_alt uds)
  have un: "unat (of_nat n :: u16) = n" using room el16 by (intro unat_of_nat_small) simp
  define D1 where "D1 = D\<lparr>ed_order := ?o\<rparr>"
  have blank1: "\<forall>j. ed_ifd D1 j = []" "ed_data D1 = None" "ed_size D1 = 0" "ed_order D1 = ?o" using D by (simp_all add: D1_def blank_def)
  obtain m where m: "exif_data_load_data_content al e (ds - 6) 31 D1 EXIF_IFD_0 8 =
      Some (D1\<lparr>ed_ifd := (\<lambda>j. if j = EXIF_IFD_1 \<or> j = EXIF_IFD_COUNT then [] else kept data j), ed_offset_mnote := m\<rparr>)"
    using reads_ifd0 [OF al el16 uds6 st blank1(4) blank1(1) at(3), of 28] by (auto simp: eval_nat_numeral)
  define D2 where "D2 = D1\<lparr>ed_ifd := (\<lambda>j. if j = EXIF_IFD_1 \<or> j = EXIF_IFD_COUNT then [] else kept data j), ed_offset_mnote := m\<rparr>"
  have D2: "ed_order D2 = ?o" "ed_ifd D2 EXIF_IFD_1 = []" "ed_data D2 = None" "ed_size D2 = 0"
    using blank1 by (simp_all add: D2_def)
  define offset1 where "offset1 = fst (ifd0_next data u)"
  let ?next = "ed_ifd data EXIF_IFD_1 \<noteq> [] \<or> ed_size data \<noteq> 0"
  obtain D3 where D3: "(if offset1 = 0 \<or> ds < offset1 \<or> ds < offset1 + 6 then Some D2
        else exif_data_load_data_content al e (ds - 6) 31 D2 EXIF_IFD_1 offset1) = Some D3"
      "ed_order D3 = ?o" "ed_data D3 = ed_data data" "ed_size D3 = ed_size data" "ed_options D3 = ed_options D"
      "\<forall>i. i \<noteq> EXIF_IFD_COUNT \<longrightarrow> ed_ifd D3 i = kept data i"
  proof (cases ?next)
    case False
    then have "offset1 = 0" "kept data EXIF_IFD_1 = []" "ed_data data = None" "ed_size data = 0"
      using st by (simp_all add: offset1_def ifd0_next_def kept_def storable_def)
    then show ?thesis using D2 by (intro that [of D2]) (auto simp: D2_def D1_def)
  next
    case True
    then have o1: "offset1 = of_nat u" and img: "stands_at e u (ifd1_image data u)"
      using nx by (simp_all add: offset1_def ifd0_next_def)
    have "stands_at e u (dir_image ?o (n_thumbnail data EXIF_IFD_1) (ed_ifd data EXIF_IFD_1) (ifd1_special data) no_next u)"
      using img by (simp add: ifd1_image_def)
    then have "stands_at e u (exif_set_sshort ?o (of_nat (length (ed_ifd data EXIF_IFD_1) + n_thumbnail data EXIF_IFD_1)))"
      unfolding dir_image_def Let_def split_beta stands_at_append unsigned_views by blast
    then have u2: "u + 2 \<le> length e" using stands_at_length by fastforce
    have uu: "unat (of_nat u :: u32) = u" using u2 el16 by (intro unat_of_nat32) simp
    have "unat (of_nat u + 6 :: u32) = u + 6" using u2 el16 by (subst unat_add_small) (simp_all add: uu)
    then have c: "\<not> (offset1 = 0 \<or> ds < offset1 \<or> ds < offset1 + 6)"
      using u2 el uu unfolding o1 by (auto simp: word_less_nat_alt uds t_def u_def)
    obtain m' where m': "exif_data_load_data_content al e (ds - 6) 31 D2 EXIF_IFD_1 (of_nat u) =
        Some (D2\<lparr>ed_ifd := (ed_ifd D2)(EXIF_IFD_1 := kept data EXIF_IFD_1), ed_data := ed_data data, ed_size := ed_size data,
          ed_offset_mnote := m'\<rparr>)"
      using reads_ifd1 [OF al el16 uds6 st D2 img, of 30] by (auto simp: eval_nat_numeral)
    show ?thesis
      by (intro that) (use c m' o1 in \<open>simp, auto simp: D2_def D1_def\<close>)
  qed
  obtain md where md: "interpret_maker_note mn D3 d = D3\<lparr>ed_md := md\<rparr>" using interpret_md by blast
  have fin: "ed_options (D3\<lparr>ed_md := md\<rparr>) AND EXIF_DATA_OPTION_FOLLOW_SPECIFICATION = 0" using D D3(5) by (simp add: blank_def)
  have mark2: "slice 6 2 d = mark" by (simp add: d slice_def ml)
  have g: "get16 ?o d 8 = Some 0x2a" "get32 ?o d 10 = Some 8"
    using get16_at [OF stands_at_drop [of 6 d 2]] get32_at [OF stands_at_drop [of 6 d 4]] at(1, 2) el
    unfolding e_def [symmetric] by simp_all
  have g2: "get16 (ed_order D2) d (6 + unat (8 :: u32)) = Some (of_nat n)"
    "get32 (ed_order D2) d (6 + unat (8 :: u32) + 2 + 12 * n) = Some offset1"
    using get16_at [OF cnt(1)] get32_at [OF cnt(2)] by (simp_all add: D2 offset1_def)
  have nat14: "unat (8 + 6 + 2 :: u32) = 16" "unat (8 + 6 + 2 + 12 * ucast (of_nat n :: u16) + 4 :: u32) = 20 + 12 * n"
  proof -
    have "unat (20 + 12 * ucast (of_nat n :: u16) :: u32) = 20 + 12 * n"
      using room el16 by (subst unat_add_small) (simp_all add: twelve un)
    moreover have "8 + 6 + 2 + 12 * ucast (of_nat n :: u16) + 4 = (20 + 12 * ucast (of_nat n :: u16) :: u32)" by simp
    ultimately show "unat (8 + 6 + 2 + 12 * ucast (of_nat n :: u16) + 4 :: u32) = 20 + 12 * n" by (simp only:)
    show "unat (8 + 6 + 2 :: u32) = 16" by simp
  qed
  have ok: "\<not> length d < 14" "\<not> (mark \<noteq> [0x49, 0x49] \<and> mark \<noteq> [0x4d, 0x4d])" "\<not> (ds < 8 \<or> ds < 8 + 6 + 2)"
    using room el by (auto simp: mark_def word_less_nat_alt uds)
  have "\<not> ds < 8 + 6 + 2 + 12 * ucast (of_nat n :: u16) + 4"
    unfolding word_less_nat_alt nat14 uds using room el by linarith
  note ok = ok this
  have ord: "(if mark = [0x49, 0x49] then EXIF_BYTE_ORDER_INTEL else EXIF_BYTE_ORDER_MOTOROLA) = ?o"
    by (cases ?o) (simp_all add: mark_def)
  have lim: "(if 0xfffe < length d then 0xfffe else of_nat (length d) :: u32) = ds" using short by (simp add: ds_def d_def)
  have "load_tiff al now mn D d = Some (D3\<lparr>ed_md := md\<rparr>)"
    unfolding load_tiff_def if_not_P [OF ok(1)] lim mark2 Let_def if_not_P [OF ok(2)] ord D1_def [symmetric] blank1(4) g
      Option.bind.simps if_False if_not_P [OF ok(3)] e_def [symmetric] m D2_def [symmetric] g2 if_not_P [OF ok(4)] un D3(1) md
    using fin by simp
  moreover have "take 6 d = ExifHeader" by (simp add: d ml)
  ultimately have "exif_data_load_data al now mn D d = Some (D3\<lparr>ed_md := md\<rparr>)"
    using ok(1) by (simp add: exif_data_load_data_def)
  then show ?thesis using D3 unfolding d_def by auto
qed

subsection \<open>The round trip\<close>

lemma save_load:
  fixes D data :: "'m exif_data"
  assumes "granted al" "storable data" "blank D" "length (exif_data_image data) \<le> 0xfffe"
  shows "\<exists>bytes D'. exif_data_save_data al g ms data = Some (data, Some bytes) \<and>
    exif_data_load_data al now mn D bytes = Some D' \<and> ed_order D' = ed_order data \<and>
    ed_data D' = ed_data data \<and> ed_size D' = ed_size data \<and>
    (\<forall>i. i \<noteq> EXIF_IFD_COUNT \<longrightarrow> ed_ifd D' i = sort_key en_tag (ed_ifd data i))"
proof -
  have "exif_data_save_data al g ms data = Some (data, Some (exif_data_image data))"
    using assms by (intro save_data_image) (simp_all add: storable_def)
  then show ?thesis using load_image [OF assms, of now mn] unfolding kept_def by blast
qed

lemma length_concat_sort: "length (concat (sort_key f xs)) = length (concat xs)"
proof -
  have "length (concat (insort_key f x ys)) = length x + length (concat ys)" for x ys
    by (induction ys) simp_all
  then show ?thesis by (induction xs) simp_all
qed

lemma length_dir_image:
  assumes "\<And>q. length (concat (fst (sp q))) = 12 * m"
  shows "length (dir_image order m es sp nx q) \<le> 6 + 12 * (length es + m) +
    (length (snd (entries_image order (q + 6 + 12 * (length es + m)) es)) +
     length (snd (sp (q + 6 + 12 * (length es + m) + length (snd (entries_image order (q + 6 + 12 * (length es + m)) es))))) +
     length (snd (nx (q + 6 + 12 * (length es + m) + length (snd (entries_image order (q + 6 + 12 * (length es + m)) es)) +
       length (snd (sp (q + 6 + 12 * (length es + m) + length (snd (entries_image order (q + 6 + 12 * (length es + m)) es)))))))))"
proof -
  let ?b = "q + 6 + 12 * (length es + m)"
  let ?t = "?b + length (snd (entries_image order ?b es))"
  have "length (concat (sort_key (exif_get_short order) (fst (entries_image order ?b es) @ fst (sp ?t)))) =
      length (concat (fst (entries_image order ?b es) @ fst (sp ?t)))"
    by (rule length_concat_sort)
  also have "\<dots> = 12 * (length es + m)"
    using assms length_concat_records [OF length_entries_image(2), of order ?b es] by (simp add: length_entries_image(1))
  finally show ?thesis by (simp add: dir_image_def Let_def split_beta)
qed

definition stored_sample :: "u8 exif_data" where
  "stored_sample =
     \<lparr>ed_ifd = (\<lambda>i. if i = EXIF_IFD_0 then
        [\<lparr>en_tag = 0x112, en_format = EXIF_FORMAT_SHORT, en_components = 1, en_data = Some [1, 0], en_size = 2\<rparr>,
         \<lparr>en_tag = 0x10f, en_format = EXIF_FORMAT_ASCII, en_components = 7, en_data = Some [65, 66, 67, 68, 69, 70, 0], en_size = 7\<rparr>]
        else if i = EXIF_IFD_EXIF then
        [\<lparr>en_tag = 0x9000, en_format = EXIF_FORMAT_UNDEFINED, en_components = 4, en_data = Some [48, 50, 50, 48], en_size = 4\<rparr>]
        else []),
      ed_data = Some [0xff, 0xd8, 0xff, 0xd9], ed_size = 4, ed_order = EXIF_BYTE_ORDER_INTEL, ed_md = None,
      ed_offset_mnote = 0, ed_options = 0, ed_data_type = EXIF_DATA_TYPE_COMPRESSED\<rparr>"

lemma sample_tags: "plain_tag stored_sample EXIF_IFD_0 0x112" "plain_tag stored_sample EXIF_IFD_0 0x10f"
  "plain_tag stored_sample EXIF_IFD_EXIF 0x9000"
proof -
  have f: "\<exists>e. find (\<lambda>e. te_tag e = 0x10f \<and> RECORDED e EXIF_IFD_0) ExifTagTable = Some e"
    "\<exists>e. find (\<lambda>e. te_tag e = 0x112 \<and> RECORDED e EXIF_IFD_0) ExifTagTable = Some e"
    "\<exists>e. find (\<lambda>e. te_tag e = 0x9000 \<and> RECORDED e EXIF_IFD_EXIF) ExifTagTable = Some e"
    by (simp_all add: ExifTagTable_def tag_rows_def tag_row_def RECORDED_def te_level_def esl_defs)
  then show "plain_tag stored_sample EXIF_IFD_0 0x112" "plain_tag stored_sample EXIF_IFD_0 0x10f"
    "plain_tag stored_sample EXIF_IFD_EXIF 0x9000"
    by (auto simp: plain_tag_def tag_lookup(1))
qed

lemma sample_storable: "storable stored_sample"
  using sample_tags
  by (auto simp: storable_def stored_sample_def data_ok_def content_ok_def entry_ok_def en_block_def thumb_ok_def note_kept_def
      exact_entry_def exif_format_get_size_def ExifFormatTable_def)

lemma sample_short: "length (exif_data_image stored_sample) \<le> 0xfffe"
  by (simp add: exif_data_image_def ifd0_image_def dir_image_def Let_def split_beta length_concat_sort stored_sample_def
      ifd0_special_def ifd0_next_def ifd1_image_def ifd1_special_def exif_image_def exif_special_def pointer_image_def
      n_pointers_def n_thumbnail_def entry_image_def entry_value_def en_block_def no_next_def exif_format_get_size_def
      ExifFormatTable_def leaf_image_def)

text \<open>C22: What \<open>exif_data_save_data\<close> writes is read back by \<open>exif_data_load_data\<close>: the byte order, the thumbnail
  and, in every directory, exactly the entries that were written, in the order of their tags. This holds for an
  object whose entries have blocks of the size their format and count announce and tags the library knows in their
  directory, which is read into an empty object that does not ask for corrections; the block may not be longer
  than the 64 KiB the reader accepts.
\<close>

theorem exif_data_save_load:
  fixes D data :: "'m exif_data"
  assumes "granted al" "storable data" "blank D" "length (exif_data_image data) \<le> 0xfffe"
  shows "\<exists>bytes D'. exif_data_save_data al g ms data = Some (data, Some bytes) \<and>
    exif_data_load_data al now mn D bytes = Some D' \<and> ed_order D' = ed_order data \<and>
    ed_data D' = ed_data data \<and> ed_size D' = ed_size data \<and>
    (\<forall>i. i \<noteq> EXIF_IFD_COUNT \<longrightarrow> ed_ifd D' i = sort_key en_tag (ed_ifd data i))"
  using assms by (rule save_load)

lemma exif_data_save_load_witness:
  "\<exists>bytes D'. exif_data_save_data (\<lambda>_. True) (\<lambda>_. 0) (\<lambda>m o'. (m, None)) stored_sample = Some (stored_sample, Some bytes) \<and>
    exif_data_load_data (\<lambda>_. True) noon (\<lambda>_ _ _. None :: u8 option)
      (exif_data_unset_option exif_data_new EXIF_DATA_OPTION_FOLLOW_SPECIFICATION) bytes = Some D' \<and>
    map en_tag (ed_ifd D' EXIF_IFD_0) = [0x10f, 0x112] \<and> ed_data D' = Some [0xff, 0xd8, 0xff, 0xd9]"
proof -
  let ?D = "exif_data_unset_option exif_data_new EXIF_DATA_OPTION_FOLLOW_SPECIFICATION :: u8 exif_data"
  have "blank ?D"
    by (simp add: blank_def exif_data_new_def exif_data_unset_option_def exif_data_set_data_type_def
        exif_data_set_option_def)
  moreover have "granted (\<lambda>_. True)" by (simp add: granted_def)
  ultimately obtain bytes D' where r:
    "exif_data_save_data (\<lambda>_. True) (\<lambda>_. 0) (\<lambda>m o'. (m, None)) stored_sample = Some (stored_sample, Some bytes)"
    "exif_data_load_data (\<lambda>_. True) noon (\<lambda>_ _ _. None) ?D bytes = Some D'" "ed_data D' = ed_data stored_sample"
    "\<forall>i. i \<noteq> EXIF_IFD_COUNT \<longrightarrow> ed_ifd D' i = sort_key en_tag (ed_ifd stored_sample i)"
    using exif_data_save_load [OF _ sample_storable _ sample_short, of "\<lambda>_. True" ?D "\<lambda>_. 0" "\<lambda>m o'. (m, None)" noon "\<lambda>_ _ _. None"]
    by blast
  have "map en_tag (sort_key en_tag (ed_ifd stored_sample EXIF_IFD_0)) = [0x10f, 0x112]"
    "ed_data stored_sample = Some [0xff, 0xd8, 0xff, 0xd9]"
    by (simp_all add: stored_sample_def)
  then have "map en_tag (ed_ifd D' EXIF_IFD_0) = [0x10f, 0x112]" "ed_data D' = Some [0xff, 0xd8, 0xff, 0xd9]"
    using r(3, 4) by simp_all
  then show ?thesis using r(1, 2) by (intro exI [of _ bytes] exI [of _ D'] conjI)
qed

end
