(* ===== verification/ExifApi.thy ===== *)
theory ExifApi
  imports ExifData
begin

text \<open>
  The operations a program applies to an EXIF object, in any order: an object is well typed in every state that
  can be reached, and no operation is undefined on a well-typed object.
\<close>

subsection \<open>Operations\<close>

text \<open>\<open>init_tag\<close> of the example \<open>write-exif.c\<close>: the documented way to create an entry.\<close>

definition init_tag :: "(nat \<Rightarrow> bool) \<Rightarrow> tm \<Rightarrow> 'm exif_data \<Rightarrow> exif_ifd \<Rightarrow> nat \<Rightarrow> 'm exif_data" where
  "init_tag al now d ifd tag =
     (let c = ed_ifd d ifd
      in if exif_content_get_entry c (of_nat tag) \<noteq> None then d
         else let (c', added) = exif_content_add_entry al c (exif_entry_new\<lparr>en_tag := of_nat tag\<rparr>)
              in if added
                 then ifd_upd ifd (c'[length c := exif_entry_initialize al now (ed_order d)
                                        (exif_entry_new\<lparr>en_tag := of_nat tag\<rparr>) tag]) d
                 else ifd_upd ifd c' d)"

datatype exif_op =
    Load_data "u8 list"
  | Fix
  | Set_byte_order exif_byte_order
  | Set_option u32
  | Unset_option u32
  | Set_data_type exif_data_type
  | Remove_thumbnail
  | Init_tag exif_ifd nat
  | Remove_entry exif_ifd nat
  | Fix_content exif_ifd
  | Fix_entry exif_ifd nat

text \<open>The correction of one entry in its directory.\<close>

definition fix_one :: "(nat \<Rightarrow> bool) \<Rightarrow> exif_byte_order \<Rightarrow> exif_content \<Rightarrow> nat \<Rightarrow> exif_content option" where
  "fix_one al order c i = (if i < length c then map_option (\<lambda>e. c[i := e]) (exif_entry_fix al order (c ! i)) else Some c)"

definition exif_run ::
  "(nat \<Rightarrow> bool) \<Rightarrow> tm \<Rightarrow> ('m exif_data \<Rightarrow> exif_entry \<Rightarrow> u8 list \<Rightarrow> 'm option) \<Rightarrow> ('m \<Rightarrow> exif_byte_order \<Rightarrow> 'm) \<Rightarrow>
   exif_op \<Rightarrow> 'm exif_data \<Rightarrow> 'm exif_data option" where
  "exif_run al now mn mo op d =
     (case op of
        Load_data b \<Rightarrow> exif_data_load_data al now mn d b
      | Fix \<Rightarrow> exif_data_fix al now d
      | Set_byte_order order \<Rightarrow> Some (exif_data_set_byte_order mo d order)
      | Set_option x \<Rightarrow> Some (exif_data_set_option d x)
      | Unset_option x \<Rightarrow> Some (exif_data_unset_option d x)
      | Set_data_type t \<Rightarrow> Some (exif_data_set_data_type d t)
      | Remove_thumbnail \<Rightarrow> Some (exif_data_remove_thumbnail d)
      | Init_tag ifd tag \<Rightarrow> Some (init_tag al now d ifd tag)
      | Remove_entry ifd i \<Rightarrow> Some (ifd_upd ifd (exif_content_remove_entry al (ed_ifd d ifd) i) d)
      | Fix_content ifd \<Rightarrow>
          map_option (\<lambda>c. ifd_upd ifd c d) (exif_content_fix al now (ed_order d) ifd (ed_data_type d) (ed_ifd d ifd))
      | Fix_entry ifd i \<Rightarrow> map_option (\<lambda>c. ifd_upd ifd c d) (fix_one al (ed_order d) (ed_ifd d ifd) i))"

text \<open>
  The states of an object. An operation is not applied to entries of 2 GiB and more, which the
  32-bit sizes of the library could not grow.
\<close>

inductive exif_reach ::
  "(nat \<Rightarrow> bool) \<Rightarrow> tm \<Rightarrow> ('m exif_data \<Rightarrow> exif_entry \<Rightarrow> u8 list \<Rightarrow> 'm option) \<Rightarrow> ('m \<Rightarrow> exif_byte_order \<Rightarrow> 'm) \<Rightarrow>
   'm exif_data \<Rightarrow> bool" for al now mn mo where
  new: "exif_reach al now mn mo exif_data_new"
| step: "exif_reach al now mn mo d \<Longrightarrow> small_entries d \<Longrightarrow> exif_run al now mn mo op d = Some d' \<Longrightarrow>
    exif_reach al now mn mo d'"

subsection \<open>Preservation and progress\<close>

lemma data_ok_ifd: "data_ok d \<Longrightarrow> content_ok c \<Longrightarrow> data_ok (ifd_upd ifd c d)"
  by (simp add: data_ok_def ifd_upd_def)

lemma content_ok_remove: "granted al \<Longrightarrow> content_ok c \<Longrightarrow> content_ok (exif_content_remove_entry al c i)"
proof (cases "i < length c")
  case True
  assume al: "granted al" and ok: "content_ok c"
  have c: "c = take i c @ c ! i # drop (i + 1) c" using id_take_nth_drop [OF True] by simp
  have "content_ok (take i c @ c ! i # drop (i + 1) c)" using ok c by simp
  then have "content_ok (take i c @ drop (i + 1) c)" by (auto simp: content_ok_def)
  then show ?thesis by (simp add: remove_entry_nth [OF al True])
next
  case False
  assume "content_ok c"
  then show ?thesis using False by (simp add: exif_content_remove_entry_def)
qed

lemma content_ok_update:
  assumes "content_ok c" "entry_ok e" "i < length c" "en_tag e = en_tag (c ! i)"
  shows "content_ok (c[i := e])"
proof -
  have "map en_tag (c[i := e]) = (map en_tag c)[i := map en_tag c ! i]" using assms(3, 4) by (simp add: map_update)
  then have "map en_tag (c[i := e]) = map en_tag c" by (simp only: list_update_id)
  moreover have "\<forall>x \<in> set (c[i := e]). entry_ok x"
    using assms(1, 2) set_update_subset_insert [of c i e] by (auto simp: content_ok_def)
  ultimately show ?thesis using assms(1) by (simp add: content_ok_def)
qed

lemma init_tag_ok:
  assumes "granted al" "data_ok d"
  shows "data_ok (init_tag al now d ifd tag)"
proof (cases "exif_content_get_entry (ed_ifd d ifd) (of_nat tag) = None")
  case True
  let ?c = "ed_ifd d ifd" and ?n = "exif_entry_new\<lparr>en_tag := of_nat tag\<rparr>"
  have n: "entry_ok ?n" "en_data ?n = None" by (simp_all add: entry_ok_def exif_entry_new_def en_block_def)
  have add: "exif_content_add_entry al ?c ?n = (?c @ [?n], True)"
    using True assms(1) by (simp add: exif_content_add_entry_def granted_def)
  have "content_ok (?c @ [?n])"
    using content_ok_add [OF _ n(1), of ?c al] assms(2) add by (simp add: data_ok_def)
  then have "content_ok ((?c @ [?n])[length ?c := exif_entry_initialize al now (ed_order d) ?n tag])"
    using initialize_ok [OF assms(1) n(2)] initialize_tag [OF n(2)] by (intro content_ok_update) simp_all
  then show ?thesis using True data_ok_ifd [OF assms(2)] by (simp add: init_tag_def Let_def add)
qed (simp add: init_tag_def assms(2) Let_def)

lemma fix_one_ok:
  assumes "granted al" "content_ok c" "\<forall>e \<in> set c. unat (en_size e) < 2 ^ 31"
  shows "\<exists>c'. fix_one al order c i = Some c' \<and> content_ok c'"
proof (cases "i < length c")
  case True
  then have "c ! i \<in> set c" by simp
  then obtain e where e: "exif_entry_fix al order (c ! i) = Some e" "entry_ok e" "en_tag e = en_tag (c ! i)"
    using fix_entry_ok [OF assms(1)] assms(2, 3) unfolding content_ok_def by metis
  show ?thesis using e True content_ok_update [OF assms(2) e(2) True e(3)] by (simp add: fix_one_def)
qed (simp add: fix_one_def assms(2))

lemma set_order_ok: "data_ok d \<Longrightarrow> data_ok (exif_data_set_byte_order mo d order)"
  using content_order_back(2) [of _ "ed_order d" order] by (simp add: exif_data_set_byte_order_def data_ok_def)

lemma options_ok:
  "data_ok (exif_data_set_option d x) = data_ok d" "data_ok (exif_data_unset_option d x) = data_ok d"
  "data_ok (exif_data_set_data_type d t) = data_ok d"
  by (simp_all add: data_ok_def thumb_ok_def exif_data_set_option_def exif_data_unset_option_def exif_data_set_data_type_def
      split: option.split)

lemma exif_run_ok:
  assumes "granted al" "data_ok d" "small_entries d"
  shows "\<exists>d'. exif_run al now mn mo op d = Some d' \<and> data_ok d'"
proof -
  have c: "content_ok (ed_ifd d ifd)" "\<forall>e \<in> set (ed_ifd d ifd). unat (en_size e) < 2 ^ 31" for ifd
    using assms(2, 3) by (auto simp: data_ok_def small_entries_def)
  show ?thesis
  proof (cases op)
    case (Load_data b)
    then show ?thesis using load_data_ok [OF assms(1), of d] assms(2, 3) by (simp add: exif_run_def load_inv_def)
  next
    case Fix
    then show ?thesis using data_fix_ok [OF assms(1, 2)] c(2) by (simp add: exif_run_def)
  next
    case (Fix_content ifd)
    then show ?thesis using content_fix_ok [OF assms(1) c] data_ok_ifd [OF assms(2)] by (fastforce simp: exif_run_def)
  next
    case (Fix_entry ifd i)
    then show ?thesis using fix_one_ok [OF assms(1) c] data_ok_ifd [OF assms(2)] by (fastforce simp: exif_run_def)
  next
    case Remove_thumbnail
    then show ?thesis using assms(2)
      by (auto simp: exif_run_def exif_data_remove_thumbnail_def data_ok_def ifd_upd_def thumb_ok_def content_ok_def)
  qed (use assms(2) content_ok_remove [OF assms(1) c(1)] in
      \<open>simp_all add: exif_run_def set_order_ok init_tag_ok [OF assms(1)] data_ok_ifd options_ok\<close>)
qed

lemma exif_reach_typed: "exif_reach al now mn mo d \<Longrightarrow> granted al \<Longrightarrow> data_ok d"
proof (induction rule: exif_reach.induct)
  case (step d op d')
  then show ?case using exif_run_ok [of al d now mn mo op] by auto
qed (rule data_ok_new(1))



end
