(* ===== verification/Simulation.thy ===== *)
theory Simulation
  imports NetPrelude
begin

text \<open>
  Refinement of an abstract specification by a data structure. A step takes an operation and gives the
  new state and what the operation returns, or \<open>None\<close> for an access outside an array; a specification
  relates the abstract states before and after an operation that returns a given value. The locale
  states what one operation owes, its lemma gives whole runs; every container of e2fsprogs that is
  modelled is an instance.
\<close>

text \<open>Error numbers of e2fsprogs (\<open>lib/ext2fs/ext2_err.h\<close>).\<close>

abbreviation EXT2_ET_NO_MEMORY :: nat where "EXT2_ET_NO_MEMORY \<equiv> 2133571398"
abbreviation EXT2_ET_INVALID_ARGUMENT :: nat where "EXT2_ET_INVALID_ARGUMENT \<equiv> 2133571399"

primrec run_ops :: "('s \<Rightarrow> 'op \<Rightarrow> ('s \<times> 'r) option) \<Rightarrow> 's \<Rightarrow> 'op list \<Rightarrow> ('s \<times> 'r list) option" where
  "run_ops step s [] = Some (s, [])"
| "run_ops step s (op # ops) =
     (case step s op of
        None \<Rightarrow> None
      | Some (s', r) \<Rightarrow> map_option (\<lambda>(t, rs). (t, r # rs)) (run_ops step s' ops))"

inductive spec_run :: "('a \<Rightarrow> 'op \<Rightarrow> 'r \<Rightarrow> 'a \<Rightarrow> bool) \<Rightarrow> 'a \<Rightarrow> 'op list \<Rightarrow> 'r list \<Rightarrow> 'a \<Rightarrow> bool"
  for spec :: "'a \<Rightarrow> 'op \<Rightarrow> 'r \<Rightarrow> 'a \<Rightarrow> bool"
where
  stop: "spec_run spec a [] [] a"
| more: "spec a op r b \<Longrightarrow> spec_run spec b ops rs c \<Longrightarrow> spec_run spec a (op # ops) (r # rs) c"

inductive_simps spec_run_Nil [simp]: "spec_run spec a [] rs b"
inductive_simps spec_run_Cons: "spec_run spec a (op # ops) rs b"

lemma spec_run_append:
  "spec_run spec a (xs @ ys) rs c \<longleftrightarrow>
   (\<exists>rs1 rs2 b. rs = rs1 @ rs2 \<and> spec_run spec a xs rs1 b \<and> spec_run spec b ys rs2 c)"
proof (induction xs arbitrary: a rs)
  case (Cons op xs)
  show ?case (is "?l \<longleftrightarrow> ?r")
  proof
    assume ?l
    then obtain r rs' b where "rs = r # rs'" "spec a op r b" "spec_run spec b (xs @ ys) rs' c"
      by (auto simp: spec_run_Cons)
    then show ?r unfolding Cons.IH by (metis append_Cons spec_run.more)
  next
    assume ?r
    then show ?l unfolding append_Cons spec_run_Cons Cons.IH by fastforce
  qed
qed simp

lemma spec_run_length: "spec_run spec a ops rs b \<Longrightarrow> length rs = length ops"
  by (induction rule: spec_run.induct) simp_all

locale simulation =
  fixes step :: "'s \<Rightarrow> 'op \<Rightarrow> ('s \<times> 'r) option"
    and spec :: "'a \<Rightarrow> 'op \<Rightarrow> 'r \<Rightarrow> 'a \<Rightarrow> bool"
    and ok :: "'s \<Rightarrow> bool"
    and abs :: "'s \<Rightarrow> 'a"
    and op_ok :: "'op \<Rightarrow> bool"
  assumes simulates: "ok s \<Longrightarrow> op_ok op \<Longrightarrow>
    \<exists>s' r. step s op = Some (s', r) \<and> ok s' \<and> spec (abs s) op r (abs s')"
begin

lemma run_simulates:
  "ok s \<Longrightarrow> list_all op_ok ops \<Longrightarrow>
   \<exists>t rs. run_ops step s ops = Some (t, rs) \<and> ok t \<and> spec_run spec (abs s) ops rs (abs t)"
proof (induction ops arbitrary: s)
  case (Cons op ops)
  then obtain s' r where s': "step s op = Some (s', r)" "ok s'" "spec (abs s) op r (abs s')"
    using simulates by fastforce
  obtain t rs where "run_ops step s' ops = Some (t, rs)" "ok t" "spec_run spec (abs s') ops rs (abs t)"
    using Cons.IH [OF s'(2)] Cons.prems(2) by auto
  then show ?case using s' by (auto intro: spec_run.more)
qed simp

end

end
