(* ===== verification/BadBlocks.thy ===== *)
theory BadBlocks
  imports Simulation
begin

text \<open>
  The sorted list of 32-bit numbers that e2fsprogs uses for bad blocks
  (\<open>external/e2fsprogs/lib/ext2fs/badblocks.c\<close>). The allocator is the argument \<open>al\<close> (whether a request
  for a number of bytes is granted), the contents of fresh memory the argument \<open>fill\<close>; an access outside
  an array is the result \<open>None\<close>. Returned numbers are kept as the code returns them.
\<close>

abbreviation EXT2_ET_MAGIC_BADBLOCKS_LIST :: nat where "EXT2_ET_MAGIC_BADBLOCKS_LIST \<equiv> 2133571330"
abbreviation EXT2_ET_MAGIC_BADBLOCKS_ITERATE :: nat where "EXT2_ET_MAGIC_BADBLOCKS_ITERATE \<equiv> 2133571331"

record u32_list =
  ul_magic :: nat
  ul_num :: nat
  ul_size :: nat
  ul_list :: "u32 list"
  ul_flags :: nat

definition make_u32_list :: "(nat \<Rightarrow> bool) \<Rightarrow> nat \<Rightarrow> nat \<Rightarrow> u32 list option \<Rightarrow> (nat + u32_list) option" where
  "make_u32_list al sz num src =
     (let size' = (if sz \<noteq> 0 then sz else 10)
      in if \<not> al 20 then Some (Inl EXT2_ET_NO_MEMORY)
         else if \<not> al (size' * 4) then Some (Inl EXT2_ET_NO_MEMORY)
         else case src of
           None \<Rightarrow> Some (Inr \<lparr>ul_magic = EXT2_ET_MAGIC_BADBLOCKS_LIST, ul_num = num, ul_size = size',
                             ul_list = replicate size' 0, ul_flags = 0\<rparr>)
         | Some l \<Rightarrow> if length l < size' then None
                     else Some (Inr \<lparr>ul_magic = EXT2_ET_MAGIC_BADBLOCKS_LIST, ul_num = num, ul_size = size',
                                     ul_list = take size' l, ul_flags = 0\<rparr>))"

definition ext2fs_u32_list_create :: "(nat \<Rightarrow> bool) \<Rightarrow> nat \<Rightarrow> (nat + u32_list) option" where
  "ext2fs_u32_list_create al sz = make_u32_list al sz 0 None"

definition ext2fs_u32_copy :: "(nat \<Rightarrow> bool) \<Rightarrow> u32_list \<Rightarrow> (nat + u32_list) option" where
  "ext2fs_u32_copy al src =
     map_option (\<lambda>r. case r of Inl e \<Rightarrow> Inl e | Inr d \<Rightarrow> Inr (d\<lparr>ul_flags := ul_flags src\<rparr>))
       (make_u32_list al (ul_size src) (ul_num src) (Some (ul_list src)))"

subsection \<open>Insertion\<close>

text \<open>
  The search for the place: \<open>Some None\<close> when the number is there, \<open>Some (Some j)\<close> when the first larger
  one is at \<open>j\<close>; \<open>n\<close> numbers are left from index \<open>i\<close> on.
\<close>

primrec add_scan :: "u32 list \<Rightarrow> u32 \<Rightarrow> nat \<Rightarrow> nat \<Rightarrow> nat option option" where
  "add_scan l blk i 0 = Some (Some i)"
| "add_scan l blk i (Suc n) =
     (case rd l i of
        None \<Rightarrow> None
      | Some x \<Rightarrow> if x = blk then Some None else if blk < x then Some (Some i) else add_scan l blk (i + 1) n)"

text \<open>The loop that makes room at \<open>j\<close>: \<open>k\<close> elements are moved, the last one to index \<open>j + k\<close>.\<close>

primrec shift_up :: "u32 list \<Rightarrow> nat \<Rightarrow> nat \<Rightarrow> u32 list option" where
  "shift_up l j 0 = Some l"
| "shift_up l j (Suc k) = (if j + Suc k < length l then shift_up (l[j + Suc k := l ! (j + k)]) j k else None)"

definition ul_grow :: "(nat \<Rightarrow> bool) \<Rightarrow> (nat \<Rightarrow> u32) \<Rightarrow> u32_list \<Rightarrow> u32_list option" where
  "ul_grow al fill bb =
     (if ul_num bb < ul_size bb then Some bb
      else if al ((ul_size bb + 100) * 4)
      then Some (bb\<lparr>ul_size := ul_size bb + 100, ul_list := ul_list bb @ map fill [ul_size bb ..< ul_size bb + 100]\<rparr>)
      else None)"

definition put_at :: "u32_list \<Rightarrow> u32 list \<Rightarrow> nat \<Rightarrow> u32 \<Rightarrow> (u32_list \<times> nat) option" where
  "put_at bb l j blk =
     (if j < length l then Some (bb\<lparr>ul_list := l[j := blk], ul_num := ul_num bb + 1\<rparr>, 0) else None)"

definition ext2fs_u32_list_add ::
  "(nat \<Rightarrow> bool) \<Rightarrow> (nat \<Rightarrow> u32) \<Rightarrow> u32_list \<Rightarrow> u32 \<Rightarrow> (u32_list \<times> nat) option" where
  "ext2fs_u32_list_add al fill bb0 blk =
     (if ul_magic bb0 \<noteq> EXT2_ET_MAGIC_BADBLOCKS_LIST then Some (bb0, EXT2_ET_MAGIC_BADBLOCKS_LIST)
      else case ul_grow al fill bb0 of
        None \<Rightarrow> Some (bb0, EXT2_ET_NO_MEMORY)
      | Some bb \<Rightarrow>
          if ul_num bb = 0 then put_at bb (ul_list bb) 0 blk
          else case rd (ul_list bb) (ul_num bb - 1) of
            None \<Rightarrow> None
          | Some x \<Rightarrow>
              if x = blk then Some (bb, 0)
              else if x < blk then put_at bb (ul_list bb) (ul_num bb) blk
              else case add_scan (ul_list bb) blk 0 (ul_num bb) of
                None \<Rightarrow> None
              | Some None \<Rightarrow> Some (bb, 0)
              | Some (Some j) \<Rightarrow>
                  (case shift_up (ul_list bb) j (ul_num bb - j) of
                     None \<Rightarrow> None
                   | Some l \<Rightarrow> put_at bb l j blk))"

subsection \<open>Search and removal\<close>

function find_bisect :: "u32 list \<Rightarrow> u32 \<Rightarrow> nat \<Rightarrow> nat \<Rightarrow> int option" where
  "find_bisect l blk low high =
     (if low < high
      then let mid = (low + high) div 2
           in if mid = low \<or> mid = high then Some (-1)
              else case rd l mid of
                None \<Rightarrow> None
              | Some x \<Rightarrow> if blk = x then Some (int mid)
                          else if blk < x then find_bisect l blk low mid
                          else find_bisect l blk mid high
      else Some (-1))"
  by pat_completeness auto
termination by (relation "measure (\<lambda>(_, _, low, high). high - low)") auto

declare find_bisect.simps [simp del]

definition ext2fs_u32_list_find :: "u32_list \<Rightarrow> u32 \<Rightarrow> int option" where
  "ext2fs_u32_list_find bb blk =
     (if ul_magic bb \<noteq> EXT2_ET_MAGIC_BADBLOCKS_LIST then Some (-1)
      else if ul_num bb = 0 then Some (-1)
      else case rd (ul_list bb) 0 of
        None \<Rightarrow> None
      | Some x \<Rightarrow>
          if blk = x then Some 0
          else case rd (ul_list bb) (ul_num bb - 1) of
            None \<Rightarrow> None
          | Some y \<Rightarrow> if blk = y then Some (int (ul_num bb - 1))
                      else find_bisect (ul_list bb) blk 0 (ul_num bb - 1))"

definition ext2fs_u32_list_test :: "u32_list \<Rightarrow> u32 \<Rightarrow> int option" where
  "ext2fs_u32_list_test bb blk = map_option (\<lambda>i. if i < 0 then 0 else 1) (ext2fs_u32_list_find bb blk)"

text \<open>The loop that closes the gap at \<open>i\<close>; \<open>k\<close> elements are moved.\<close>

primrec shift_down :: "u32 list \<Rightarrow> nat \<Rightarrow> nat \<Rightarrow> u32 list option" where
  "shift_down l i 0 = Some l"
| "shift_down l i (Suc k) = (if i + 1 < length l then shift_down (l[i := l ! (i + 1)]) (i + 1) k else None)"

definition ext2fs_u32_list_del :: "u32_list \<Rightarrow> u32 \<Rightarrow> (u32_list \<times> int) option" where
  "ext2fs_u32_list_del bb blk =
     (if ul_num bb = 0 then Some (bb, -1)
      else case ext2fs_u32_list_find bb blk of
        None \<Rightarrow> None
      | Some remloc \<Rightarrow>
          if remloc < 0 then Some (bb, -1)
          else map_option (\<lambda>l. (bb\<lparr>ul_list := l, ul_num := ul_num bb - 1\<rparr>, 0))
                 (shift_down (ul_list bb) (nat remloc) (ul_num bb - 1 - nat remloc)))"

subsection \<open>Iteration, comparison, count\<close>

text \<open>The iterator points to the list, which is given separately as it is at the time of the call.\<close>

record u32_iterate =
  it_magic :: nat
  it_ptr :: nat

definition ext2fs_u32_list_iterate_begin :: "(nat \<Rightarrow> bool) \<Rightarrow> u32_list \<Rightarrow> nat + u32_iterate" where
  "ext2fs_u32_list_iterate_begin al bb =
     (if ul_magic bb \<noteq> EXT2_ET_MAGIC_BADBLOCKS_LIST then Inl EXT2_ET_MAGIC_BADBLOCKS_LIST
      else if \<not> al 12 then Inl EXT2_ET_NO_MEMORY
      else Inr \<lparr>it_magic = EXT2_ET_MAGIC_BADBLOCKS_ITERATE, it_ptr = 0\<rparr>)"

text \<open>The result is the returned number and the block number; the block is not written for a bad iterator.\<close>

definition ext2fs_u32_list_iterate :: "u32_list \<Rightarrow> u32_iterate \<Rightarrow> (u32_iterate \<times> nat \<times> u32 option) option" where
  "ext2fs_u32_list_iterate bb iter =
     (if it_magic iter \<noteq> EXT2_ET_MAGIC_BADBLOCKS_ITERATE then Some (iter, 0, None)
      else if ul_magic bb \<noteq> EXT2_ET_MAGIC_BADBLOCKS_LIST then Some (iter, 0, None)
      else if it_ptr iter < ul_num bb
      then map_option (\<lambda>x. (iter\<lparr>it_ptr := it_ptr iter + 1\<rparr>, 1, Some x)) (rd (ul_list bb) (it_ptr iter))
      else Some (iter, 0, Some 0))"

definition ext2fs_u32_list_equal :: "u32_list \<Rightarrow> u32_list \<Rightarrow> nat option" where
  "ext2fs_u32_list_equal bb1 bb2 =
     (if ul_magic bb1 \<noteq> EXT2_ET_MAGIC_BADBLOCKS_LIST then Some EXT2_ET_MAGIC_BADBLOCKS_LIST
      else if ul_magic bb2 \<noteq> EXT2_ET_MAGIC_BADBLOCKS_LIST then Some EXT2_ET_MAGIC_BADBLOCKS_LIST
      else if ul_num bb1 \<noteq> ul_num bb2 then Some 0
      else if length (ul_list bb1) < ul_num bb1 \<or> length (ul_list bb2) < ul_num bb1 then None
      else Some (if take (ul_num bb1) (ul_list bb1) \<noteq> take (ul_num bb1) (ul_list bb2) then 0 else 1))"

definition ext2fs_u32_list_count :: "u32_list \<Rightarrow> nat" where
  "ext2fs_u32_list_count bb = ul_num bb"

subsection \<open>The set a list stands for\<close>

definition ul_elems :: "u32_list \<Rightarrow> u32 list" where
  "ul_elems bb = take (ul_num bb) (ul_list bb)"

definition ul_ok :: "u32_list \<Rightarrow> bool" where
  "ul_ok bb \<longleftrightarrow> ul_magic bb = EXT2_ET_MAGIC_BADBLOCKS_LIST \<and> ul_num bb \<le> ul_size bb \<and>
     length (ul_list bb) = ul_size bb \<and> sorted_wrt (<) (ul_elems bb)"

definition ul_abs :: "u32_list \<Rightarrow> u32 set" where
  "ul_abs bb = set (ul_elems bb)"

lemma length_elems: "ul_ok bb \<Longrightarrow> length (ul_elems bb) = ul_num bb"
  by (simp add: ul_ok_def ul_elems_def)

lemma add_scan_result:
  "i + n \<le> length l \<Longrightarrow> sorted_wrt (<) (take n (drop i l)) \<Longrightarrow>
   add_scan l blk i n = Some (if blk \<in> set (take n (drop i l)) then None
     else Some (i + length (takeWhile (\<lambda>x. x < blk) (take n (drop i l)))))"
proof (induction n arbitrary: i)
  case (Suc n)
  then have i: "i < length l" by simp
  have d: "take (Suc n) (drop i l) = l ! i # take n (drop (i + 1) l)"
    using i by (simp add: Cons_nth_drop_Suc [symmetric])
  have above: "x \<in> set (take n (drop (i + 1) l)) \<Longrightarrow> l ! i < x" for x
    using Suc.prems(2) unfolding d by simp
  show ?case
    using Suc i above [of blk] unfolding d by (auto simp: not_less)
qed simp

lemma shift_up_result:
  "j + k < length l \<Longrightarrow> shift_up l j k = Some (take (j + 1) l @ take k (drop j l) @ drop (j + k + 1) l)"
proof (induction k arbitrary: l)
  case 0
  then show ?case by simp
next
  case (Suc k)
  let ?l = "l[j + Suc k := l ! (j + k)]"
  have "shift_up l j (Suc k) = Some (take (j + 1) ?l @ take k (drop j ?l) @ drop (j + k + 1) ?l)"
    using Suc by simp
  also have "drop (j + k + 1) ?l = l ! (j + k) # drop (j + Suc k + 1) l"
    using Suc.prems by (simp add: Cons_nth_drop_Suc [symmetric])
  also have "take (j + 1) ?l = take (j + 1) l" by simp
  also have "take k (drop j ?l) = take k (drop j l)" by (simp add: drop_update_swap)
  also have "take k (drop j l) @ l ! (j + k) # drop (j + Suc k + 1) l = take (Suc k) (drop j l) @ drop (j + Suc k + 1) l"
    using Suc.prems by (simp add: take_Suc_conv_app_nth)
  finally show ?case .
qed

lemma shift_down_result:
  "i + k < length l \<Longrightarrow> shift_down l i k = Some (take i l @ take k (drop (i + 1) l) @ drop (i + k) l)"
proof (induction k arbitrary: i l)
  case 0
  then show ?case by simp
next
  case (Suc k)
  let ?l = "l[i := l ! (i + 1)]"
  have "shift_down l i (Suc k) = Some (take (i + 1) ?l @ take k (drop (i + 1 + 1) ?l) @ drop (i + 1 + k) ?l)"
    using Suc by simp
  also have "take (i + 1) ?l = take i l @ [l ! (i + 1)]"
    using Suc.prems by (simp add: take_Suc_conv_app_nth)
  also have "drop (i + 1 + 1) ?l = drop (i + 2) l" by simp
  also have "drop (i + 1 + k) ?l = drop (i + Suc k) l" by simp
  also have "(take i l @ [l ! (i + 1)]) @ take k (drop (i + 2) l) @ drop (i + Suc k) l =
      take i l @ take (Suc k) (drop (i + 1) l) @ drop (i + Suc k) l"
    using Suc.prems by (simp add: Cons_nth_drop_Suc [symmetric])
  finally show ?case .
qed

lemma dropWhile_above:
  fixes xs :: "u32 list"
  shows "sorted_wrt (<) xs \<Longrightarrow> x \<notin> set xs \<Longrightarrow> y \<in> set (dropWhile (\<lambda>y. y < x) xs) \<Longrightarrow> x < y"
proof (induction xs)
  case (Cons a xs)
  show ?case
  proof (cases "a < x")
    case False
    then have "x < a" using Cons.prems(2) by (simp add: not_less order_le_less)
    then show ?thesis using Cons.prems(1, 3) False by (auto intro: less_trans)
  qed (use Cons in auto)
qed simp

lemma sorted_insert:
  fixes xs :: "u32 list"
  assumes "sorted_wrt (<) xs" "x \<notin> set xs"
  defines "j \<equiv> length (takeWhile (\<lambda>y. y < x) xs)"
  shows "sorted_wrt (<) (take j xs @ x # drop j xs)" "set (take j xs @ x # drop j xs) = insert x (set xs)"
proof -
  have t: "take j xs = takeWhile (\<lambda>y. y < x) xs" and d: "drop j xs = dropWhile (\<lambda>y. y < x) xs"
    unfolding j_def by (rule takeWhile_eq_take [symmetric], rule dropWhile_eq_drop [symmetric])
  have above: "x < y" if "y \<in> set (dropWhile (\<lambda>y. y < x) xs)" for y
    by (rule dropWhile_above [OF assms(1, 2) that])
  have "sorted_wrt (<) (takeWhile (\<lambda>y. y < x) xs @ dropWhile (\<lambda>y. y < x) xs)"
    unfolding takeWhile_dropWhile_id by (rule assms(1))
  then show "sorted_wrt (<) (take j xs @ x # drop j xs)"
    using above unfolding t d sorted_wrt_append by (auto dest: set_takeWhileD)
  show "set (take j xs @ x # drop j xs) = insert x (set xs)"
    by (metis append_take_drop_id set_append list.set(2) Un_insert_right)
qed

lemma grow_result:
  assumes "ul_ok bb"
  shows "case ul_grow al fill bb of
      None \<Rightarrow> ul_num bb = ul_size bb \<and> \<not> al ((ul_size bb + 100) * 4)
    | Some b \<Rightarrow> ul_ok b \<and> ul_elems b = ul_elems bb \<and> ul_num b = ul_num bb \<and> ul_num b < length (ul_list b)"
  using assms by (auto simp: ul_grow_def ul_ok_def ul_elems_def)

lemma put_at_result:
  assumes "ul_ok b" "length l = ul_size b" "ul_num b < ul_size b" "j \<le> ul_num b"
    "take (ul_num b + 1) (l[j := blk]) = xs" "sorted_wrt (<) xs" "set xs = insert blk (ul_abs b)"
  shows "\<exists>b'. put_at b l j blk = Some (b', 0) \<and> ul_ok b' \<and> ul_abs b' = insert blk (ul_abs b)"
  using assms by (auto simp: put_at_def ul_ok_def ul_elems_def ul_abs_def)

text \<open>An insertion either succeeds, or memory is refused and the list is as it was.\<close>

lemma list_add_result:
  assumes ok: "ul_ok bb"
  shows "\<exists>bb' r. ext2fs_u32_list_add al fill bb blk = Some (bb', r) \<and> ul_ok bb' \<and>
    (r = 0 \<and> ul_abs bb' = insert blk (ul_abs bb) \<or>
     r = EXT2_ET_NO_MEMORY \<and> bb' = bb \<and> \<not> al ((ul_size bb + 100) * 4))"
proof (cases "ul_grow al fill bb")
  case None
  then show ?thesis using grow_result [OF ok, of al fill] ok by (simp add: ext2fs_u32_list_add_def ul_ok_def)
next
  case (Some b)
  then have b: "ul_ok b" "ul_elems b = ul_elems bb" "ul_num b < length (ul_list b)"
    using grow_result [OF ok, of al fill] by simp_all
  let ?l = "ul_list b" and ?n = "ul_num b"
  have len: "length ?l = ul_size b" and srt: "sorted_wrt (<) (take ?n ?l)"
    using b(1) by (simp_all add: ul_ok_def ul_elems_def)
  have abs: "ul_abs b = ul_abs bb" "ul_abs b = set (take ?n ?l)" using b(2) by (simp_all add: ul_abs_def ul_elems_def)
  have add: "ext2fs_u32_list_add al fill bb blk =
    (if ?n = 0 then put_at b ?l 0 blk
     else if ?l ! (?n - 1) = blk then Some (b, 0)
     else if ?l ! (?n - 1) < blk then put_at b ?l ?n blk
     else if blk \<in> set (take ?n ?l) then Some (b, 0)
     else let j = length (takeWhile (\<lambda>x. x < blk) (take ?n ?l))
          in case shift_up ?l j (?n - j) of None \<Rightarrow> None | Some l \<Rightarrow> put_at b l j blk)"
    using ok Some b(3) add_scan_result [of 0 ?n ?l blk] srt
    by (simp add: ext2fs_u32_list_add_def ul_ok_def Let_def)
  have finish: ?thesis if "\<exists>b'. ext2fs_u32_list_add al fill bb blk = Some (b', 0) \<and> ul_ok b' \<and> ul_abs b' = insert blk (ul_abs b)"
    using that abs(1) by auto
  consider (empty) "?n = 0" | (last) "?n \<noteq> 0" "?l ! (?n - 1) = blk" | (append) "?n \<noteq> 0" "?l ! (?n - 1) < blk"
    | (member) "?n \<noteq> 0" "blk < ?l ! (?n - 1)" "blk \<in> set (take ?n ?l)"
    | (middle) "?n \<noteq> 0" "blk < ?l ! (?n - 1)" "blk \<notin> set (take ?n ?l)"
    by (meson linorder_less_linear)
  then show ?thesis
  proof cases
    case empty
    have "take (?n + 1) (?l[0 := blk]) = [blk]" using empty b(3) by (cases ?l) simp_all
    then have "\<exists>b'. put_at b ?l 0 blk = Some (b', 0) \<and> ul_ok b' \<and> ul_abs b' = insert blk (ul_abs b)"
      using empty b(3) len abs(2) by (intro put_at_result [OF b(1) len, where xs = "[blk]"]) simp_all
    then show ?thesis using empty add by (intro finish) simp
  next
    case last
    have "?l ! (?n - 1) \<in> set (take ?n ?l)" 
      using last(1) b(3) nth_mem [of "?n - 1" "take ?n ?l"] by simp
    then show ?thesis using last add b(1) abs by (intro finish) (auto simp: insert_absorb)
  next
    case append
    have "x < blk" if x: "x \<in> set (take ?n ?l)" for x
    proof -
      obtain i where i: "i < ?n" "x = ?l ! i" using x b(3) by (force simp: in_set_conv_nth)
      then have "x \<le> ?l ! (?n - 1)"
        using srt b(3) by (cases "i = ?n - 1") (auto simp: sorted_wrt_iff_nth_less intro: less_imp_le)
      then show ?thesis using append(2) by simp
    qed
    then have "sorted_wrt (<) (take ?n ?l @ [blk])" using srt by (simp add: sorted_wrt_append)
    moreover have "take (?n + 1) (?l[?n := blk]) = take ?n ?l @ [blk]"
      using b(3) by (simp add: take_Suc_conv_app_nth)
    ultimately have "\<exists>b'. put_at b ?l ?n blk = Some (b', 0) \<and> ul_ok b' \<and> ul_abs b' = insert blk (ul_abs b)"
      using b(3) len abs(2) by (intro put_at_result [OF b(1) len]) auto
    then show ?thesis using append add by (intro finish) auto
  next
    case member
    then show ?thesis using add b(1) abs by (intro finish) (auto simp: insert_absorb)
  next
    case middle
    define j where "j = length (takeWhile (\<lambda>x. x < blk) (take ?n ?l))"
    have j: "j \<le> ?n" using length_takeWhile_le [of "\<lambda>x. x < blk" "take ?n ?l"] by (simp add: j_def)
    define l' where "l' = take (j + 1) ?l @ take (?n - j) (drop j ?l) @ drop (?n + 1) ?l"
    have up: "shift_up ?l j (?n - j) = Some l'"
      using shift_up_result [of j "?n - j" ?l] b(3) j by (simp add: l'_def)
    have lenl: "length l' = ul_size b" using len b(3) j by (simp add: l'_def)
    have tk: "take (?n + 1) (l'[j := blk]) = take j (take ?n ?l) @ blk # drop j (take ?n ?l)"
    proof -
      have "j < length (take (j + 1) ?l)" using b(3) j by simp
      then have "l'[j := blk] = (take (j + 1) ?l)[j := blk] @ take (?n - j) (drop j ?l) @ drop (?n + 1) ?l"
        unfolding l'_def by (simp only: list_update_append if_True)
      also have "(take (j + 1) ?l)[j := blk] = take j ?l @ [blk]"
        using b(3) j by (simp add: take_Suc_conv_app_nth list_update_append)
      also have "take j ?l = take j (take ?n ?l)" using j by (simp add: min_absorb1)
      also have "take (?n - j) (drop j ?l) = drop j (take ?n ?l)" by (simp add: drop_take)
      finally have "l'[j := blk] = (take j (take ?n ?l) @ blk # drop j (take ?n ?l)) @ drop (?n + 1) ?l" by simp
      moreover have "length (take j (take ?n ?l) @ blk # drop j (take ?n ?l)) = ?n + 1" using b(3) j by simp
      ultimately show ?thesis using append_eq_conv_conj by metis
    qed
    have n: "?n < ul_size b" using b(3) len by simp
    have "set (take j (take ?n ?l) @ blk # drop j (take ?n ?l)) = insert blk (ul_abs b)"
      unfolding abs(2) j_def by (rule sorted_insert(2) [OF srt middle(3)])
    then have "\<exists>b'. put_at b l' j blk = Some (b', 0) \<and> ul_ok b' \<and> ul_abs b' = insert blk (ul_abs b)"
      by (rule put_at_result [OF b(1) lenl n j tk, rotated]) (simp only: j_def sorted_insert(1) [OF srt middle(3)])
    then show ?thesis using middle add up by (intro finish) (auto simp: j_def [symmetric] Let_def)
  qed
qed

text \<open>No index outside the open interval between the bounds holds the number.\<close>

lemma bisect_result:
  assumes "sorted_wrt (<) (take n l)" "n \<le> length l"
  shows "high < n \<Longrightarrow> \<forall>i < n. i \<le> low \<or> high \<le> i \<longrightarrow> l ! i \<noteq> blk \<Longrightarrow>
    \<exists>r. find_bisect l blk low high = Some r \<and>
      (0 \<le> r \<and> nat r < n \<and> l ! nat r = blk \<or> r = -1 \<and> (\<forall>i < n. l ! i \<noteq> blk))"
proof (induction "high - low" arbitrary: low high rule: less_induct)
  case less
  have mono: "l ! i \<le> l ! j" if "i \<le> j" "j < n" for i j
    using assms that by (cases "i = j") (auto simp: sorted_wrt_iff_nth_less intro: less_imp_le)
  define mid where "mid = (low + high) div 2"
  show ?case
  proof (cases "low < high \<and> mid \<noteq> low")
    case False
    have "\<forall>i < n. l ! i \<noteq> blk"
    proof (intro allI impI)
      fix i assume "i < n"
      have "high \<le> low + 1" using False by (cases "low < high") (auto simp: mid_def)
      then have "i \<le> low \<or> high \<le> i" by linarith
      then show "l ! i \<noteq> blk" using less.prems(2) \<open>i < n\<close> by blast
    qed
    then show ?thesis using False by (subst find_bisect.simps) (auto simp: mid_def [symmetric] Let_def)
  next
    case True
    then have "low \<le> mid" "mid < high" unfolding mid_def by auto
    with True have mid: "low < mid" "mid < high" by simp_all
    have step: "find_bisect l blk low high =
      (if blk = l ! mid then Some (int mid)
       else if blk < l ! mid then find_bisect l blk low mid else find_bisect l blk mid high)"
      using True mid less.prems(1) assms(2)
      by (subst find_bisect.simps) (simp add: mid_def [symmetric] Let_def)
    consider "blk = l ! mid" | "blk < l ! mid" | "l ! mid < blk" by (rule linorder_cases)
    then show ?thesis
    proof cases
      case 1
      then show ?thesis using step mid less.prems(1) by auto
    next
      case 2
      have "\<forall>i < n. i \<le> low \<or> mid \<le> i \<longrightarrow> l ! i \<noteq> blk"
        using less.prems(2) mono [of mid] 2 by (metis leD linorder_le_less_linear)
      then show ?thesis using 2 step less.hyps [of mid low] mid less.prems(1) by auto
    next
      case 3
      have "\<forall>i < n. i \<le> mid \<or> high \<le> i \<longrightarrow> l ! i \<noteq> blk"
        using less.prems mono [of _ mid] 3 mid by (metis leD less_trans)
      moreover have "high - mid < high - low" using mid by simp
      ultimately show ?thesis using 3 step less.hyps [of high mid] less.prems(1) by auto
    qed
  qed
qed

lemma find_result:
  assumes "ul_ok bb"
  shows "\<exists>r. ext2fs_u32_list_find bb blk = Some r \<and>
    (0 \<le> r \<and> nat r < ul_num bb \<and> ul_list bb ! nat r = blk \<or> r = -1 \<and> blk \<notin> ul_abs bb)"
proof -
  let ?l = "ul_list bb" and ?n = "ul_num bb"
  have ok: "?n \<le> length ?l" "sorted_wrt (<) (take ?n ?l)" "ul_magic bb = EXT2_ET_MAGIC_BADBLOCKS_LIST"
    using assms by (simp_all add: ul_ok_def ul_elems_def)
  have abs: "blk \<notin> ul_abs bb \<longleftrightarrow> (\<forall>i < ?n. ?l ! i \<noteq> blk)"
    using ok(1) by (auto simp: ul_abs_def ul_elems_def in_set_conv_nth)
  show ?thesis
  proof (cases "?n = 0")
    case True
    then show ?thesis using ok abs by (simp add: ext2fs_u32_list_find_def)
  next
    case False
    then have rds: "rd ?l 0 = Some (?l ! 0)" "rd ?l (?n - 1) = Some (?l ! (?n - 1))"
      using ok(1) by (auto simp: rd_def)
    have f: "ext2fs_u32_list_find bb blk =
      (if blk = ?l ! 0 then Some 0 else if blk = ?l ! (?n - 1) then Some (int (?n - 1))
       else find_bisect ?l blk 0 (?n - 1))"
      unfolding ext2fs_u32_list_find_def rds using False ok(3) by simp
    show ?thesis
    proof (cases "blk = ?l ! 0 \<or> blk = ?l ! (?n - 1)")
      case True
      then show ?thesis
      proof (cases "blk = ?l ! 0")
        case True
        then show ?thesis unfolding f using False by (intro exI [of _ 0]) simp
      next
        case no: False
        then have "blk = ?l ! (?n - 1)" using True by simp
        moreover have "nat (int (?n - 1)) = ?n - 1" by (rule nat_int)
        ultimately show ?thesis unfolding f using no False by (intro exI [of _ "int (?n - 1)"]) (simp del: of_nat_diff)
      qed
    next
      case out: False
      have ends: "\<forall>i < ?n. i \<le> 0 \<or> ?n - 1 \<le> i \<longrightarrow> ?l ! i \<noteq> blk"
      proof (intro allI impI)
        fix i assume "i < ?n" "i \<le> 0 \<or> ?n - 1 \<le> i"
        then have "i = 0 \<or> i = ?n - 1" by linarith
        then show "?l ! i \<noteq> blk" using out by auto
      qed
      have "?n - 1 < ?n" using False by simp
      from bisect_result [OF ok(2, 1) this ends] obtain r where "find_bisect ?l blk 0 (?n - 1) = Some r"
        "0 \<le> r \<and> nat r < ?n \<and> ?l ! nat r = blk \<or> r = -1 \<and> (\<forall>i < ?n. ?l ! i \<noteq> blk)"
        by (elim exE conjE)
      then show ?thesis unfolding f abs using out by auto
    qed
  qed
qed

lemma test_result: "ul_ok bb \<Longrightarrow> ext2fs_u32_list_test bb blk = Some (if blk \<in> ul_abs bb then 1 else 0)"
proof -
  assume ok: "ul_ok bb"
  obtain r where r: "ext2fs_u32_list_find bb blk = Some r"
    "0 \<le> r \<and> nat r < ul_num bb \<and> ul_list bb ! nat r = blk \<or> r = -1 \<and> blk \<notin> ul_abs bb"
    using find_result [OF ok] by blast
  have "blk \<in> ul_abs bb" if "0 \<le> r"
    using r(2) that ok nth_mem [of "nat r" "ul_elems bb"] by (auto simp: ul_abs_def ul_elems_def ul_ok_def)
  then show ?thesis using r by (auto simp: ext2fs_u32_list_test_def)
qed

lemma del_result:
  assumes "ul_ok bb"
  shows "\<exists>bb'. ext2fs_u32_list_del bb blk = Some (bb', if blk \<in> ul_abs bb then 0 else -1) \<and> ul_ok bb' \<and>
    ul_abs bb' = ul_abs bb - {blk}"
proof -
  let ?l = "ul_list bb" and ?n = "ul_num bb"
  have ok: "?n \<le> length ?l" "sorted_wrt (<) (take ?n ?l)" using assms by (simp_all add: ul_ok_def ul_elems_def)
  obtain r where r: "ext2fs_u32_list_find bb blk = Some r"
    "0 \<le> r \<and> nat r < ?n \<and> ?l ! nat r = blk \<or> r = -1 \<and> blk \<notin> ul_abs bb"
    using find_result [OF assms] by blast
  show ?thesis
  proof (cases "0 \<le> r")
    case False
    then show ?thesis using r assms by (auto simp: ext2fs_u32_list_del_def)
  next
    case True
    define i where "i = nat r"
    have i: "i < ?n" "?l ! i = blk" using True r(2) by (auto simp: i_def)
    define l' where "l' = take i ?l @ take (?n - 1 - i) (drop (i + 1) ?l) @ drop (?n - 1) ?l"
    have down: "shift_down ?l i (?n - 1 - i) = Some l'"
      using shift_down_result [of i "?n - 1 - i" ?l] i ok(1) by (simp add: l'_def)
    have new: "take (?n - 1) l' = take i (take ?n ?l) @ drop (i + 1) (take ?n ?l)"
    proof -
      let ?x = "take i ?l" and ?y = "take (?n - 1 - i) (drop (i + 1) ?l)"
      have "length (?x @ ?y) = ?n - 1" using i ok(1) by simp
      then have "take (?n - 1) ((?x @ ?y) @ drop (?n - 1) ?l) = ?x @ ?y" using append_eq_conv_conj by metis
      then have "take (?n - 1) l' = ?x @ ?y" by (simp only: l'_def append_assoc)
      also have "?x = take i (take ?n ?l)" using i by (simp add: min_absorb1)
      also have "?y = drop (i + 1) (take ?n ?l)" by (simp add: drop_take)
      finally show ?thesis .
    qed
    have old: "take ?n ?l = take i (take ?n ?l) @ blk # drop (i + 1) (take ?n ?l)"
      using id_take_nth_drop [of i "take ?n ?l"] i ok(1) by simp
    have srt: "sorted_wrt (<) (take i (take ?n ?l) @ blk # drop (i + 1) (take ?n ?l))" using ok(2) old by metis
    have "length l' = length ?l" using i ok(1) by (simp add: l'_def)
    then have ok': "ul_ok (bb\<lparr>ul_list := l', ul_num := ?n - 1\<rparr>)"
      using assms srt new by (auto simp: ul_ok_def ul_elems_def sorted_wrt_append)
    have "set (take i (take ?n ?l) @ drop (i + 1) (take ?n ?l)) =
        set (take i (take ?n ?l) @ blk # drop (i + 1) (take ?n ?l)) - {blk}"
      using srt by (auto simp: sorted_wrt_append)
    also have "\<dots> = ul_abs bb - {blk}" unfolding ul_abs_def ul_elems_def by (simp only: old [symmetric])
    finally have "set (take (?n - 1) l') = ul_abs bb - {blk}" by (simp only: new)
    moreover have "ul_elems (bb\<lparr>ul_list := l', ul_num := ?n - 1\<rparr>) = take (?n - 1) l'"
      by (simp add: ul_elems_def)
    ultimately have abs': "ul_abs (bb\<lparr>ul_list := l', ul_num := ?n - 1\<rparr>) = ul_abs bb - {blk}"
      by (simp only: ul_abs_def)
    have "blk \<in> ul_abs bb" unfolding ul_abs_def ul_elems_def by (subst old) simp
    moreover have "ext2fs_u32_list_del bb blk = Some (bb\<lparr>ul_list := l', ul_num := ?n - 1\<rparr>, 0)"
      using True r(1) i down by (simp add: ext2fs_u32_list_del_def i_def)
    ultimately show ?thesis using ok' abs' by auto
  qed
qed

lemma create_result:
  assumes "al 20" "al ((if sz \<noteq> 0 then sz else 10) * 4)"
  shows "\<exists>bb. ext2fs_u32_list_create al sz = Some (Inr bb) \<and> ul_ok bb \<and> ul_abs bb = {} \<and> ul_num bb = 0"
  using assms by (simp add: ext2fs_u32_list_create_def make_u32_list_def ul_ok_def ul_abs_def ul_elems_def Let_def)

lemma copy_result:
  assumes "ul_ok bb" "ul_size bb \<noteq> 0" "al 20" "al (ul_size bb * 4)"
  shows "ext2fs_u32_copy al bb = Some (Inr bb)"
  using assms by (simp add: ext2fs_u32_copy_def make_u32_list_def ul_ok_def Let_def)

lemma sorted_unique:
  fixes xs ys :: "u32 list"
  assumes "sorted_wrt (<) xs" "sorted_wrt (<) ys" "set xs = set ys"
  shows "xs = ys"
  using assms by (metis strict_sorted_iff sorted_distinct_set_unique)

lemma equal_result:
  assumes "ul_ok a" "ul_ok b"
  shows "ext2fs_u32_list_equal a b = Some (if ul_abs a = ul_abs b then 1 else 0)"
proof -
  have same: "ul_abs a = ul_abs b \<longleftrightarrow> ul_elems a = ul_elems b"
    using assms sorted_unique [of "ul_elems a" "ul_elems b"] by (auto simp: ul_ok_def ul_abs_def)
  have ok: "ul_magic a = EXT2_ET_MAGIC_BADBLOCKS_LIST" "ul_magic b = EXT2_ET_MAGIC_BADBLOCKS_LIST"
    "ul_num a \<le> length (ul_list a)" "ul_num b \<le> length (ul_list b)" using assms by (simp_all add: ul_ok_def)
  show ?thesis
  proof (cases "ul_num a = ul_num b")
    case True
    have "ul_elems a = take (ul_num b) (ul_list a)" using True by (simp add: ul_elems_def)
    then show ?thesis
      unfolding same using True ok by (simp add: ext2fs_u32_list_equal_def ul_elems_def [of b])
  next
    case False
    then have "ul_elems a \<noteq> ul_elems b" using length_elems assms by metis
    then show ?thesis unfolding same using False ok by (simp add: ext2fs_u32_list_equal_def)
  qed
qed

text \<open>All calls of the iterator from the state \<open>it\<close> on, as long as they return 1.\<close>

primrec iterate_all :: "u32_list \<Rightarrow> nat \<Rightarrow> u32_iterate \<Rightarrow> u32 list option" where
  "iterate_all bb 0 it = None"
| "iterate_all bb (Suc n) it =
     (case ext2fs_u32_list_iterate bb it of
        None \<Rightarrow> None
      | Some (it', r, x) \<Rightarrow>
          if r = 0 then Some []
          else map_option ((#) (case x of None \<Rightarrow> 0 | Some v \<Rightarrow> v)) (iterate_all bb n it'))"

lemma iterate_from:
  assumes "ul_ok bb" "it_magic it = EXT2_ET_MAGIC_BADBLOCKS_ITERATE"
  shows "it_ptr it + n = ul_num bb \<Longrightarrow> iterate_all bb (Suc n) it = Some (drop (it_ptr it) (ul_elems bb))"
  using assms(2)
proof (induction n arbitrary: it)
  case 0
  then show ?case using assms(1) by (simp add: ext2fs_u32_list_iterate_def ul_ok_def ul_elems_def)
next
  case (Suc n)
  let ?it = "it\<lparr>it_ptr := it_ptr it + 1\<rparr>"
  have n: "it_ptr it < ul_num bb" "ul_num bb \<le> length (ul_list bb)" using Suc.prems assms(1) by (simp_all add: ul_ok_def)
  have now: "ext2fs_u32_list_iterate bb it = Some (?it, 1, Some (ul_elems bb ! it_ptr it))"
    using Suc.prems assms(1) n by (simp add: ext2fs_u32_list_iterate_def ul_ok_def ul_elems_def rd_def)
  have rest: "iterate_all bb (Suc n) ?it = Some (drop (it_ptr it + 1) (ul_elems bb))"
    using Suc.IH [of ?it] Suc.prems by simp
  have "drop (it_ptr it) (ul_elems bb) = ul_elems bb ! it_ptr it # drop (it_ptr it + 1) (ul_elems bb)"
    using n(1) length_elems [OF assms(1)] by (simp add: Cons_nth_drop_Suc)
  then show ?case using now rest by (simp del: iterate_all.simps add: iterate_all.simps(2) [of _ "Suc n"])
qed

lemma iterate_begin_result:
  assumes "ul_ok bb" "ext2fs_u32_list_iterate_begin al bb = Inr it"
  shows "iterate_all bb (Suc (ul_num bb)) it = Some (ul_elems bb)"
proof -
  have it: "it_magic it = EXT2_ET_MAGIC_BADBLOCKS_ITERATE" "it_ptr it = 0"
    using assms by (auto simp: ext2fs_u32_list_iterate_begin_def ul_ok_def split: if_splits)
  then show ?thesis using iterate_from [OF assms(1) it(1), of "ul_num bb"] by (simp del: iterate_all.simps)
qed

subsection \<open>The list refines a finite set of numbers\<close>

text \<open>The operations; an insertion says whether more memory would be granted.\<close>

datatype ul_op = UlAdd bool u32 | UlDel u32

definition ul_step :: "(nat \<Rightarrow> u32) \<Rightarrow> u32_list \<Rightarrow> ul_op \<Rightarrow> (u32_list \<times> int) option" where
  "ul_step fill bb op =
     (case op of
        UlAdd g x \<Rightarrow> map_option (\<lambda>(b, r). (b, int r)) (ext2fs_u32_list_add (\<lambda>_. g) fill bb x)
      | UlDel x \<Rightarrow> ext2fs_u32_list_del bb x)"

inductive ul_spec :: "u32 set \<Rightarrow> ul_op \<Rightarrow> int \<Rightarrow> u32 set \<Rightarrow> bool" where
  added: "ul_spec S (UlAdd g x) 0 (insert x S)"
| refused: "ul_spec S (UlAdd False x) (int EXT2_ET_NO_MEMORY) S"
| removed: "x \<in> S \<Longrightarrow> ul_spec S (UlDel x) 0 (S - {x})"
| absent: "x \<notin> S \<Longrightarrow> ul_spec S (UlDel x) (-1) S"

inductive_simps ul_spec_add: "ul_spec S (UlAdd g x) r T"
inductive_simps ul_spec_del: "ul_spec S (UlDel x) r T"

lemma ul_step_simulates:
  assumes "ul_ok bb"
  shows "\<exists>bb' r. ul_step fill bb op = Some (bb', r) \<and> ul_ok bb' \<and> ul_spec (ul_abs bb) op r (ul_abs bb')"
proof (cases op)
  case (UlAdd g x)
  then show ?thesis
    using list_add_result [OF assms, of "\<lambda>_. g" fill x] by (auto simp: ul_step_def ul_spec_add)
next
  case (UlDel x)
  then show ?thesis using del_result [OF assms, of x] by (auto simp: ul_step_def ul_spec_del)
qed

interpretation ul: simulation "ul_step fill" ul_spec ul_ok ul_abs "\<lambda>_. True" for fill
  by unfold_locales (rule ul_step_simulates)

lemma u32_list_refines:
  assumes "al 20" "al ((if sz \<noteq> 0 then sz else 10) * 4)"
  shows "\<exists>bb bb' rs. ext2fs_u32_list_create al sz = Some (Inr bb) \<and> run_ops (ul_step fill) bb ops = Some (bb', rs) \<and>
    spec_run ul_spec {} ops rs (ul_abs bb') \<and>
    (\<forall>x. ext2fs_u32_list_test bb' x = Some (if x \<in> ul_abs bb' then 1 else 0)) \<and>
    (\<forall>it. ext2fs_u32_list_iterate_begin al bb' = Inr it \<longrightarrow>
       iterate_all bb' (Suc (ext2fs_u32_list_count bb')) it = Some (sorted_list_of_set (ul_abs bb')))"
proof -
  obtain bb where bb: "ext2fs_u32_list_create al sz = Some (Inr bb)" "ul_ok bb" "ul_abs bb = {}"
    using create_result [OF assms] by blast
  obtain bb' rs where run: "run_ops (ul_step fill) bb ops = Some (bb', rs)" "ul_ok bb'"
      "spec_run ul_spec (ul_abs bb) ops rs (ul_abs bb')"
    using ul.run_simulates [OF bb(2), of ops fill] by (auto simp: list_all_iff)
  have "sorted_list_of_set (ul_abs bb') = ul_elems bb'"
    using run(2) by (intro sorted_unique) (simp_all add: ul_ok_def ul_abs_def)
  then show ?thesis
    using bb run test_result [OF run(2)] iterate_begin_result [OF run(2)] by (auto simp: ext2fs_u32_list_count_def)
qed

text \<open>C29: the list of bad blocks refines a finite set of 32-bit numbers: created empty, after any sequence of insertions and removals, in which memory may be refused, it holds exactly the set the operations describe, each operation returned what the specification says (0; no memory, the set unchanged; -1 for the removal of an absent number), the membership test answers for every number, and the iterator yields the members in increasing order.\<close>

theorem u32_list_is_set:
  assumes "al 20" "al ((if sz \<noteq> 0 then sz else 10) * 4)"
  shows "\<exists>bb bb' rs. ext2fs_u32_list_create al sz = Some (Inr bb) \<and> run_ops (ul_step fill) bb ops = Some (bb', rs) \<and>
    spec_run ul_spec {} ops rs (ul_abs bb') \<and>
    (\<forall>x. ext2fs_u32_list_test bb' x = Some (if x \<in> ul_abs bb' then 1 else 0)) \<and>
    (\<forall>it. ext2fs_u32_list_iterate_begin al bb' = Inr it \<longrightarrow>
       iterate_all bb' (Suc (ext2fs_u32_list_count bb')) it = Some (sorted_list_of_set (ul_abs bb')))"
  using assms by (rule u32_list_refines)

theorem u32_list_is_set_witness:
  "\<exists>bb bb' rs. ext2fs_u32_list_create (\<lambda>n. n < 100) 2 = Some (Inr bb) \<and>
    run_ops (ul_step (\<lambda>_. 7)) bb [UlAdd True 5, UlAdd True 3, UlAdd False 9, UlDel 5, UlDel 4] = Some (bb', rs) \<and>
    spec_run ul_spec {} [UlAdd True 5, UlAdd True 3, UlAdd False 9, UlDel 5, UlDel 4] rs (ul_abs bb') \<and>
    (\<forall>x. ext2fs_u32_list_test bb' x = Some (if x \<in> ul_abs bb' then 1 else 0)) \<and>
    (\<forall>it. ext2fs_u32_list_iterate_begin (\<lambda>n. n < 100) bb' = Inr it \<longrightarrow>
       iterate_all bb' (Suc (ext2fs_u32_list_count bb')) it = Some (sorted_list_of_set (ul_abs bb')))"
  by (rule u32_list_is_set) simp_all

end
