(* ===== verification/Region.thy ===== *)
theory Region
  imports Simulation
begin

text \<open>
  The allocator of extents inside an address range that e2fsck uses to find overlapping extended
  attributes (\<open>external/e2fsprogs/e2fsck/region.c\<close>): a sorted linked list of allocated intervals that
  grow and merge. Addresses are 32 bits wide; the length is a C \<open>int\<close>. The argument \<open>g\<close> says whether
  the element of a new interval can be allocated.
\<close>

record region_el =
  re_start :: u32
  re_end :: u32

record region =
  rg_min :: u32
  rg_max :: u32
  rg_allocated :: "region_el list"

definition region_create :: "bool \<Rightarrow> u32 \<Rightarrow> u32 \<Rightarrow> region option" where
  "region_create g lo hi = (if g then Some \<lparr>rg_min = lo, rg_max = hi, rg_allocated = []\<rparr> else None)"

definition el_conflict :: "u32 \<Rightarrow> u32 \<Rightarrow> region_el \<Rightarrow> bool" where
  "el_conflict start end' r \<longleftrightarrow>
     re_start r \<le> start \<and> start < re_end r \<or> re_start r < end' \<and> end' \<le> re_end r \<or>
     start \<le> re_start r \<and> re_end r \<le> end'"

text \<open>A new element before the rest of the list, if there is memory.\<close>

definition insert_el :: "bool \<Rightarrow> u32 \<Rightarrow> u32 \<Rightarrow> region_el list \<Rightarrow> region_el list \<times> int" where
  "insert_el g start end' rs = (if g then (\<lparr>re_start = start, re_end = end'\<rparr> # rs, 0) else (rs, -1))"

text \<open>The interval starts where \<open>r\<close> ends; \<open>rs\<close> are the elements after it.\<close>

definition append_el :: "u32 \<Rightarrow> region_el \<Rightarrow> region_el list \<Rightarrow> region_el list \<times> int" where
  "append_el end' r rs =
     (case rs of
        [] \<Rightarrow> ([r\<lparr>re_end := end'\<rparr>], 0)
      | next' # rest \<Rightarrow>
          if re_start next' < end' then (r # rs, 1)
          else if end' = re_start next' then (r\<lparr>re_end := re_end next'\<rparr> # rest, 0)
          else (r\<lparr>re_end := end'\<rparr> # rs, 0))"

primrec region_search :: "bool \<Rightarrow> u32 \<Rightarrow> u32 \<Rightarrow> region_el list \<Rightarrow> region_el list \<times> int" where
  "region_search g start end' [] = insert_el g start end' []"
| "region_search g start end' (r # rs) =
     (if el_conflict start end' r then (r # rs, 1)
      else if end' = re_start r then (r\<lparr>re_start := start\<rparr> # rs, 0)
      else if start = re_end r then append_el end' r rs
      else if start < re_start r then insert_el g start end' (r # rs)
      else (case region_search g start end' rs of (rs', res) \<Rightarrow> (r # rs', res)))"

definition region_allocate :: "bool \<Rightarrow> region \<Rightarrow> u32 \<Rightarrow> int \<Rightarrow> region \<times> int" where
  "region_allocate g rg start n =
     (let end' = start + word_of_int n
      in if start < rg_min rg \<or> rg_max rg < end' then (rg, -1)
         else if n = 0 then (rg, 1)
         else case region_search g start end' (rg_allocated rg) of
           (rs, res) \<Rightarrow> (rg\<lparr>rg_allocated := rs\<rparr>, res))"

subsection \<open>The set of allocated addresses\<close>

definition el_set :: "region_el \<Rightarrow> u32 set" where
  "el_set r = {re_start r ..< re_end r}"

definition els_set :: "region_el list \<Rightarrow> u32 set" where
  "els_set rs = (\<Union>r \<in> set rs. el_set r)"

definition els_ok :: "region_el list \<Rightarrow> bool" where
  "els_ok rs \<longleftrightarrow> sorted_wrt (\<lambda>r s. re_end r < re_start s) rs \<and> (\<forall>r \<in> set rs. re_start r < re_end r)"

definition region_ok :: "region \<Rightarrow> bool" where
  "region_ok rg \<longleftrightarrow> els_ok (rg_allocated rg) \<and>
     (\<forall>r \<in> set (rg_allocated rg). rg_min rg \<le> re_start r \<and> re_end r \<le> rg_max rg)"

definition region_set :: "region \<Rightarrow> u32 set" where
  "region_set rg = els_set (rg_allocated rg)"

lemma els_ok_Nil [simp]: "els_ok []"
  by (simp add: els_ok_def)

lemma els_ok_Cons: "els_ok (r # rs) \<longleftrightarrow>
    re_start r < re_end r \<and> (\<forall>s \<in> set rs. re_end r < re_start s) \<and> els_ok rs"
  by (auto simp: els_ok_def)

lemma els_set_simps [simp]: "els_set [] = {}" "els_set (r # rs) = el_set r \<union> els_set rs"
  by (simp_all add: els_set_def)

lemma el_conflict_iff:
  assumes "start < end'" "re_start r < re_end r"
  shows "el_conflict start end' r \<longleftrightarrow> {start..<end'} \<inter> el_set r \<noteq> {}"
proof -
  have "{start..<end'} \<inter> el_set r \<noteq> {} \<longleftrightarrow> max start (re_start r) < min end' (re_end r)"
    by (auto simp add: el_set_def atLeastLessThan_empty_iff)
  also have "\<dots> \<longleftrightarrow> el_conflict start end' r" using assms by (auto simp: el_conflict_def max_def min_def)
  finally show ?thesis by simp
qed

text \<open>The new interval lies before all the others.\<close>

lemma disjoint_before:
  assumes "els_ok rs" "\<forall>s \<in> set rs. end' \<le> re_start s"
  shows "{start..<end'} \<inter> els_set rs = {}"
  using assms by (fastforce simp: els_set_def el_set_def)

lemma append_el_result:
  assumes ok: "els_ok (r # rs)" and lt: "start < end'" and start: "start = re_end r"
  shows "case append_el end' r rs of (rs', res) \<Rightarrow>
    els_ok rs' \<and> (\<forall>s \<in> set rs'. \<exists>t \<in> set (r # rs). re_start s = re_start t) \<and>
    (\<forall>s \<in> set rs'. re_end s = end' \<or> (\<exists>t \<in> set (r # rs). re_end s = re_end t)) \<and>
    (if {start..<end'} \<inter> els_set (r # rs) \<noteq> {} then res = 1 \<and> rs' = r # rs
     else res = 0 \<and> els_set rs' = els_set (r # rs) \<union> {start..<end'})"
proof (cases rs)
  case Nil
  then show ?thesis using assms by (auto simp: append_el_def els_ok_Cons el_set_def)
next
  case (Cons s rest)
  have r: "re_start r < re_end r" "re_end r < re_start s" "re_start s < re_end s" "els_ok rest"
    and far: "\<forall>t \<in> set rest. re_end s < re_start t" "\<forall>t \<in> set rest. re_end r < re_start t"
    using ok Cons by (auto simp: els_ok_Cons)
  have dr: "{start..<end'} \<inter> el_set r = {}" using start by (auto simp: el_set_def)
  consider "re_start s < end'" | "end' = re_start s" | "end' < re_start s" by (rule linorder_cases)
  then show ?thesis
  proof cases
    case 1
    then have "re_start s \<in> {start..<end'} \<inter> el_set s" using r start by (auto simp: el_set_def)
    then show ?thesis using 1 Cons ok r far by (auto simp: append_el_def intro: less_imp_le)
  next
    case 2
    have "{start..<end'} \<inter> els_set rs = {}"
      using ok far 2 Cons r by (intro disjoint_before) (auto simp: els_ok_Cons intro: less_imp_le)
    moreover have "el_set (r\<lparr>re_end := re_end s\<rparr>) = el_set r \<union> el_set s \<union> {start..<end'}"
      using r 2 start by (auto simp: el_set_def)
    ultimately show ?thesis using dr 2 Cons ok r far by (auto simp: append_el_def els_ok_Cons intro: less_imp_le)
  next
    case 3
    have "{start..<end'} \<inter> els_set rs = {}"
      using ok far 3 Cons r by (intro disjoint_before) (auto simp: els_ok_Cons intro: less_imp_le)
    moreover have "el_set (r\<lparr>re_end := end'\<rparr>) = el_set r \<union> {start..<end'}"
      using r start lt by (auto simp: el_set_def)
    ultimately show ?thesis using dr 3 Cons ok r far lt start
      by (auto simp: append_el_def els_ok_Cons intro: less_imp_le)
  qed
qed

text \<open>The search: sound lists, bounds only from the old elements and the new interval, the right answer.\<close>

definition search_good :: "bool \<Rightarrow> u32 \<Rightarrow> u32 \<Rightarrow> region_el list \<Rightarrow> region_el list \<Rightarrow> int \<Rightarrow> bool" where
  "search_good g start end' rs rs' res \<longleftrightarrow>
     els_ok rs' \<and> (\<forall>s \<in> set rs'. re_start s = start \<or> (\<exists>t \<in> set rs. re_start s = re_start t)) \<and>
     (\<forall>s \<in> set rs'. re_end s = end' \<or> (\<exists>t \<in> set rs. re_end s = re_end t)) \<and>
     (if {start..<end'} \<inter> els_set rs \<noteq> {} then res = 1 \<and> rs' = rs
      else res = 0 \<and> els_set rs' = els_set rs \<union> {start..<end'} \<or> res = -1 \<and> \<not> g \<and> rs' = rs)"

lemma insert_el_result:
  assumes "els_ok rs" "start < end'" "\<forall>s \<in> set rs. end' < re_start s"
  shows "case insert_el g start end' rs of (rs', res) \<Rightarrow> search_good g start end' rs rs' res"
proof -
  have "{start..<end'} \<inter> els_set rs = {}" using assms by (intro disjoint_before) (auto intro: less_imp_le)
  then show ?thesis using assms by (auto simp: insert_el_def search_good_def els_ok_Cons el_set_def)
qed

lemma region_search_result:
  "els_ok rs \<Longrightarrow> start < end' \<Longrightarrow>
   case region_search g start end' rs of (rs', res) \<Rightarrow> search_good g start end' rs rs' res"
proof (induction rs)
  case Nil
  then show ?case using insert_el_result [of "[]" start end' g] by simp
next
  case (Cons r rs)
  have r: "re_start r < re_end r" "els_ok rs" and far: "\<forall>t \<in> set rs. re_end r < re_start t"
    using Cons.prems(1) by (auto simp: els_ok_Cons)
  note conflict = el_conflict_iff [OF Cons.prems(2) r(1)]
  consider (hit) "el_conflict start end' r" | (grow) "\<not> el_conflict start end' r" "end' = re_start r"
    | (append) "\<not> el_conflict start end' r" "end' \<noteq> re_start r" "start = re_end r"
    | (before) "\<not> el_conflict start end' r" "end' \<noteq> re_start r" "start \<noteq> re_end r" "start < re_start r"
    | (after) "\<not> el_conflict start end' r" "end' \<noteq> re_start r" "start \<noteq> re_end r" "\<not> start < re_start r"
    by blast
  then show ?case
  proof cases
    case hit
    then show ?thesis using conflict Cons.prems by (auto simp: search_good_def)
  next
    case grow
    have "{start..<end'} \<inter> els_set (r # rs) = {}"
      using Cons.prems(1) grow(2) far r(1) by (intro disjoint_before) (auto intro: less_imp_le less_trans)
    moreover have "el_set (r\<lparr>re_start := start\<rparr>) = el_set r \<union> {start..<end'}"
      using grow(2) r(1) Cons.prems(2) by (auto simp: el_set_def)
    ultimately show ?thesis
      using grow Cons.prems r far by (auto simp: search_good_def els_ok_Cons)
  next
    case append
    then have "region_search g start end' (r # rs) = append_el end' r rs" by simp
    then show ?thesis
      using append_el_result [OF Cons.prems append(3)] unfolding search_good_def
      by (cases "append_el end' r rs") (auto split: if_splits)
  next
    case before
    then have "end' < re_start r" using Cons.prems(2) r(1) by (auto simp: el_conflict_def)
    then have "\<forall>s \<in> set (r # rs). end' < re_start s" using far r(1) by (auto intro: less_trans)
    from insert_el_result [OF Cons.prems(1, 2) this, of g] show ?thesis using before by simp
  next
    case after
    then have gap: "re_end r < start" using r(1) by (auto simp: el_conflict_def)
    obtain rs' res where s: "region_search g start end' rs = (rs', res)" by fastforce
    then have good: "search_good g start end' rs rs' res" using Cons.IH [OF r(2) Cons.prems(2)] by simp
    then have "\<forall>t \<in> set rs'. re_end r < re_start t" using gap far by (fastforce simp: search_good_def)
    moreover have "{start..<end'} \<inter> el_set r = {}" using gap by (auto simp: el_set_def)
    ultimately show ?thesis
      using s after good r by (auto simp: search_good_def els_ok_Cons Int_Un_distrib)
  qed
qed

lemma end_no_wrap:
  assumes "0 \<le> n" "uint start + n < 2 ^ 32"
  shows "uint (start + word_of_int n :: u32) = uint start + n"
proof -
  have "start + word_of_int n = word_of_int (uint start + n)" by simp
  moreover have "uint (word_of_int (uint start + n) :: u32) = uint start + n"
    unfolding uint_word_of_int using assms by (simp add: mod_pos_pos_trivial)
  ultimately show ?thesis by metis
qed

text \<open>What an allocation does, when the end of the extent is a 32-bit number.\<close>

lemma region_allocate_result:
  assumes ok: "region_ok rg" and n: "0 \<le> n" "uint start + n < 2 ^ 32"
  shows "case region_allocate g rg start n of (rg', res) \<Rightarrow>
    region_ok rg' \<and> rg_min rg' = rg_min rg \<and> rg_max rg' = rg_max rg \<and>
    (if start < rg_min rg \<or> rg_max rg < start + word_of_int n then res = -1 \<and> rg' = rg
     else if n = 0 \<or> {start ..< start + word_of_int n} \<inter> region_set rg \<noteq> {} then res = 1 \<and> rg' = rg
     else res = 0 \<and> region_set rg' = region_set rg \<union> {start ..< start + word_of_int n} \<or>
          res = -1 \<and> \<not> g \<and> rg' = rg)"
proof (cases "start < rg_min rg \<or> rg_max rg < start + word_of_int n \<or> n = 0")
  case True
  then show ?thesis using ok by (auto simp: region_allocate_def Let_def)
next
  case False
  let ?e = "start + word_of_int n"
  have "start < ?e" unfolding word_less_def end_no_wrap [OF n] using False n(1) by simp
  moreover obtain rs res where s: "region_search g start ?e (rg_allocated rg) = (rs, res)" by fastforce
  ultimately have good: "search_good g start ?e (rg_allocated rg) rs res"
    using region_search_result [of "rg_allocated rg" start ?e g] ok by (simp add: region_ok_def)
  have a: "region_allocate g rg start n = (rg\<lparr>rg_allocated := rs\<rparr>, res)"
    using False s by (simp add: region_allocate_def Let_def)
  have "rg_min rg \<le> re_start r \<and> re_end r \<le> rg_max rg" if r: "r \<in> set rs" for r
  proof -
    have "rg_min rg \<le> re_start r" using good r ok False unfolding search_good_def region_ok_def by (metis not_less)
    moreover have "re_end r \<le> rg_max rg" using good r ok False unfolding search_good_def region_ok_def by (metis not_less)
    ultimately show ?thesis ..
  qed
  then have "region_ok (rg\<lparr>rg_allocated := rs\<rparr>)" using good by (simp add: region_ok_def search_good_def)
  then show ?thesis using good a False by (auto simp: search_good_def region_set_def split: if_splits)
qed

subsection \<open>Refinement of a set of addresses\<close>

text \<open>An operation: whether memory is granted, the first address and the length.\<close>

datatype region_op = RegionAlloc bool u32 int

definition region_step :: "region \<Rightarrow> region_op \<Rightarrow> (region \<times> int) option" where
  "region_step rg op = (case op of RegionAlloc g start n \<Rightarrow> Some (region_allocate g rg start n))"

definition region_op_ok :: "region_op \<Rightarrow> bool" where
  "region_op_ok op = (case op of RegionAlloc g start n \<Rightarrow> 0 \<le> n \<and> uint start + n < 2 ^ 32)"

inductive region_spec :: "u32 \<times> u32 \<times> u32 set \<Rightarrow> region_op \<Rightarrow> int \<Rightarrow> u32 \<times> u32 \<times> u32 set \<Rightarrow> bool" where
  outside: "start < lo \<or> hi < start + word_of_int n \<Longrightarrow>
    region_spec (lo, hi, S) (RegionAlloc g start n) (-1) (lo, hi, S)"
| taken: "lo \<le> start \<Longrightarrow> start + word_of_int n \<le> hi \<Longrightarrow>
    n = 0 \<or> {start ..< start + word_of_int n} \<inter> S \<noteq> {} \<Longrightarrow>
    region_spec (lo, hi, S) (RegionAlloc g start n) 1 (lo, hi, S)"
| allocated: "lo \<le> start \<Longrightarrow> start + word_of_int n \<le> hi \<Longrightarrow> 0 < n \<Longrightarrow>
    {start ..< start + word_of_int n} \<inter> S = {} \<Longrightarrow>
    region_spec (lo, hi, S) (RegionAlloc g start n) 0 (lo, hi, S \<union> {start ..< start + word_of_int n})"
| no_memory: "lo \<le> start \<Longrightarrow> start + word_of_int n \<le> hi \<Longrightarrow> 0 < n \<Longrightarrow>
    {start ..< start + word_of_int n} \<inter> S = {} \<Longrightarrow>
    region_spec (lo, hi, S) (RegionAlloc False start n) (-1) (lo, hi, S)"

inductive_simps region_spec_alloc: "region_spec (lo, hi, S) (RegionAlloc g start n) r T"

definition region_abs :: "region \<Rightarrow> u32 \<times> u32 \<times> u32 set" where
  "region_abs rg = (rg_min rg, rg_max rg, region_set rg)"

interpretation rg: simulation region_step region_spec region_ok region_abs region_op_ok
proof
  fix rg op assume ok: "region_ok rg" "region_op_ok op"
  obtain g start n where op: "op = RegionAlloc g start n" by (cases op)
  obtain rg' res where a: "region_allocate g rg start n = (rg', res)" by fastforce
  have "0 \<le> n" "uint start + n < 2 ^ 32" using ok(2) by (simp_all add: op region_op_ok_def)
  from region_allocate_result [OF ok(1) this, of g]
  have "region_ok rg' \<and> region_spec (region_abs rg) op res (region_abs rg')"
    using \<open>0 \<le> n\<close> unfolding a op region_abs_def
    by (auto simp: region_spec_alloc not_less split: if_splits)
  then show "\<exists>rg' res. region_step rg op = Some (rg', res) \<and> region_ok rg' \<and>
      region_spec (region_abs rg) op res (region_abs rg')"
    using a by (simp add: region_step_def op)
qed

lemma region_refines:
  assumes "list_all region_op_ok ops"
  shows "\<exists>rg rg' rs. region_create True lo hi = Some rg \<and> run_ops region_step rg ops = Some (rg', rs) \<and>
    region_ok rg' \<and> spec_run region_spec (lo, hi, {}) ops rs (lo, hi, region_set rg')"
proof -
  obtain rg where rg: "region_create True lo hi = Some rg" "region_ok rg" "region_abs rg = (lo, hi, {})"
    by (simp add: region_create_def region_ok_def region_abs_def region_set_def)
  obtain rg' rs where run: "run_ops region_step rg ops = Some (rg', rs)" "region_ok rg'"
      "spec_run region_spec (region_abs rg) ops rs (region_abs rg')"
    using rg.run_simulates [OF rg(2) assms] by blast
  have "rg_min t = rg_min s \<and> rg_max t = rg_max s" if "run_ops region_step s ops = Some (t, q)" for s t q
    using that
  proof (induction ops arbitrary: s q)
    case (Cons op ops)
    then show ?case
      by (cases op) (force simp: region_step_def region_allocate_def Let_def split: if_splits prod.splits)
  qed simp
  then have "region_abs rg' = (lo, hi, region_set rg')"
    using run(1) rg(1) by (auto simp: region_abs_def region_create_def)
  then show ?thesis using rg run by auto
qed

text \<open>C30: the extent allocator refines a set of 32-bit addresses: from a new region on, for every sequence of requests whose ends are 32-bit numbers, a request is refused with -1 exactly when it leaves the range or memory for it is refused, answered 1 without a change exactly when it is empty or meets an allocated address, and otherwise its addresses, and no others, are added; the list stays sorted with gaps between its elements, so that touching extents are merged.\<close>

theorem region_allocate_refines:
  assumes "list_all region_op_ok ops"
  shows "\<exists>rg rg' rs. region_create True lo hi = Some rg \<and> run_ops region_step rg ops = Some (rg', rs) \<and>
    region_ok rg' \<and> spec_run region_spec (lo, hi, {}) ops rs (lo, hi, region_set rg')"
  using assms by (rule region_refines)

theorem region_allocate_refines_witness:
  "\<exists>rg rg' rs. region_create True 0 1024 = Some rg \<and>
    run_ops region_step rg [RegionAlloc True 0 32, RegionAlloc True 1000 24, RegionAlloc True 32 16, RegionAlloc True 40 4] =
      Some (rg', rs) \<and> region_ok rg' \<and>
    spec_run region_spec (0, 1024, {})
      [RegionAlloc True 0 32, RegionAlloc True 1000 24, RegionAlloc True 32 16, RegionAlloc True 40 4] rs
      (0, 1024, region_set rg')"
  by (rule region_allocate_refines) (simp add: region_op_ok_def)

text \<open>A negative length that wraps around passes the range check, and an empty interval is recorded.\<close>

lemma region_allocate_negative:
  "region_allocate True \<lparr>rg_min = 0, rg_max = 1024, rg_allocated = []\<rparr> 512 (- 256) =
     (\<lparr>rg_min = 0, rg_max = 1024, rg_allocated = [\<lparr>re_start = 512, re_end = 256\<rparr>]\<rparr>, 0)"
  by (simp add: region_allocate_def insert_el_def Let_def)

end
