(* ===== verification/RefCount.thy ===== *)
theory RefCount
  imports Simulation
begin

text \<open>
  The reference counts of extended attribute blocks that e2fsck keeps while it walks the inodes
  (\<open>external/e2fsprogs/e2fsck/ea_refcount.c\<close>): a sorted array of block numbers with counts, entries with
  count zero being dropped when the array is full, and a cursor for sequential access. The pointer to
  an element is its index, the argument \<open>g\<close> says whether more memory is granted, \<open>fill\<close> what it then
  holds; an access outside the array is \<open>None\<close>. A count is a C \<open>int\<close>, kept in 32 bits.
\<close>

record ea_refcount_el =
  ea_blk :: u64
  ea_count :: u32

record ea_refcount =
  rc_count :: nat
  rc_size :: nat
  rc_cursor :: nat
  rc_list :: "ea_refcount_el list"

text \<open>The two requests for memory are granted by \<open>g1\<close> and \<open>g2\<close>.\<close>

definition ea_refcount_create :: "bool \<Rightarrow> bool \<Rightarrow> nat \<Rightarrow> nat + ea_refcount" where
  "ea_refcount_create g1 g2 sz =
     (let sz' = (if sz = 0 then 500 else sz)
      in if g1 \<and> g2
         then Inr \<lparr>rc_count = 0, rc_size = sz', rc_cursor = 0, rc_list = replicate sz' \<lparr>ea_blk = 0, ea_count = 0\<rparr>\<rparr>
         else Inl EXT2_ET_NO_MEMORY)"

text \<open>The loop of \<open>refcount_collapse\<close>: \<open>n\<close> elements are left from index \<open>i\<close> on.\<close>

primrec collapse_loop :: "ea_refcount_el list \<Rightarrow> nat \<Rightarrow> nat \<Rightarrow> nat \<Rightarrow> (ea_refcount_el list \<times> nat) option" where
  "collapse_loop l i j 0 = Some (l, j)"
| "collapse_loop l i j (Suc n) =
     (case rd l i of
        None \<Rightarrow> None
      | Some e \<Rightarrow> if ea_count e \<noteq> 0 then collapse_loop (if i \<noteq> j then l[j := e] else l) (i + 1) (j + 1) n
                  else collapse_loop l (i + 1) j n)"

definition refcount_collapse :: "ea_refcount \<Rightarrow> ea_refcount option" where
  "refcount_collapse rc =
     map_option (\<lambda>(l, j). rc\<lparr>rc_list := l, rc_count := j\<rparr>) (collapse_loop (rc_list rc) 0 0 (rc_count rc))"

definition insert_refcount_el ::
  "bool \<Rightarrow> (nat \<Rightarrow> ea_refcount_el) \<Rightarrow> ea_refcount \<Rightarrow> u64 \<Rightarrow> nat \<Rightarrow> (ea_refcount \<times> nat option) option" where
  "insert_refcount_el g fill rc blk pos =
     (if rc_size rc \<le> rc_count rc \<and> \<not> g then Some (rc, None)
      else let rc1 = (if rc_size rc \<le> rc_count rc
                      then rc\<lparr>rc_size := rc_size rc + 100,
                              rc_list := rc_list rc @ map fill [rc_size rc ..< rc_size rc + 100]\<rparr>
                      else rc);
               l = rc_list rc1; n = rc_count rc1
           in if n < pos then Some (rc1, None)
              else if length l \<le> n then None
              else Some (rc1\<lparr>rc_list := take pos l @ \<lparr>ea_blk = blk, ea_count = 0\<rparr> # take (n - pos) (drop pos l) @ drop (n + 1) l,
                             rc_count := n + 1\<rparr>, Some pos))"

text \<open>The binary search: the index of the block, or the place where it belongs.\<close>

function rc_bisect :: "ea_refcount_el list \<Rightarrow> u64 \<Rightarrow> int \<Rightarrow> int \<Rightarrow> (nat + int) option" where
  "rc_bisect l blk low high =
     (if low \<le> high
      then let mid = (low + high) div 2
           in if mid < 0 then None
              else case rd l (nat mid) of
                None \<Rightarrow> None
              | Some e \<Rightarrow> if blk = ea_blk e then Some (Inl (nat mid))
                          else if blk < ea_blk e then rc_bisect l blk low (mid - 1)
                          else rc_bisect l blk (mid + 1) high
      else Some (Inr low))"
  by pat_completeness auto
termination
  by (relation "measure (\<lambda>(_, _, low, high). nat (high - low + 1))") auto

declare rc_bisect.simps [simp del]

definition beyond_last :: "ea_refcount \<Rightarrow> u64 \<Rightarrow> bool option" where
  "beyond_last rc blk =
     (if rc_count rc = 0 then Some True
      else map_option (\<lambda>e. ea_blk e < blk) (rd (rc_list rc) (rc_count rc - 1)))"

function get_refcount_el ::
  "bool \<Rightarrow> (nat \<Rightarrow> ea_refcount_el) \<Rightarrow> ea_refcount \<Rightarrow> u64 \<Rightarrow> bool \<Rightarrow> (ea_refcount \<times> nat option) option" where
  "get_refcount_el g fill rc blk create =
     (case (if create then beyond_last rc blk else Some False) of
        None \<Rightarrow> None
      | Some True \<Rightarrow>
          (case (if rc_size rc \<le> rc_count rc then refcount_collapse rc else Some rc) of
             None \<Rightarrow> None
           | Some rc1 \<Rightarrow> insert_refcount_el g fill rc1 blk (rc_count rc1))
      | Some False \<Rightarrow>
          if rc_count rc = 0 then Some (rc, None)
          else
            let rc1 = (if rc_count rc \<le> rc_cursor rc then rc\<lparr>rc_cursor := 0\<rparr> else rc) in
            case rd (rc_list rc1) (rc_cursor rc1) of
              None \<Rightarrow> None
            | Some e \<Rightarrow>
                if blk = ea_blk e then Some (rc1\<lparr>rc_cursor := rc_cursor rc1 + 1\<rparr>, Some (rc_cursor rc1))
                else case rc_bisect (rc_list rc1) blk 0 (int (rc_count rc1) - 1) of
                  None \<Rightarrow> None
                | Some (Inl i) \<Rightarrow> Some (rc1\<lparr>rc_cursor := i + 1\<rparr>, Some i)
                | Some (Inr low) \<Rightarrow>
                    if \<not> create then Some (rc1, None)
                    else if rc_size rc1 \<le> rc_count rc1 then
                      (case refcount_collapse rc1 of
                         None \<Rightarrow> None
                       | Some rc2 \<Rightarrow>
                           if rc_count rc2 < rc_size rc2 then get_refcount_el g fill rc2 blk create
                           else insert_refcount_el g fill rc2 blk (nat low))
                    else insert_refcount_el g fill rc1 blk (nat low))"
  by pat_completeness auto
termination
  by (relation "measure (\<lambda>(_, _, rc, _, _). if rc_size rc \<le> rc_count rc then 1 else 0)") (auto split: if_splits)

declare get_refcount_el.simps [simp del]

text \<open>What an operation returns: the error number and the number written through the pointer \<open>ret\<close>.\<close>

type_synonym rc_result = "nat \<times> u32 option"

definition set_count :: "ea_refcount \<Rightarrow> nat \<Rightarrow> u32 \<Rightarrow> ea_refcount" where
  "set_count rc i c = rc\<lparr>rc_list := (rc_list rc)[i := (rc_list rc ! i)\<lparr>ea_count := c\<rparr>]\<rparr>"

definition no_el :: ea_refcount_el where
  "no_el = \<lparr>ea_blk = 0, ea_count = 0\<rparr>"

definition ea_refcount_fetch :: "ea_refcount \<Rightarrow> u64 \<Rightarrow> (ea_refcount \<times> rc_result) option" where
  "ea_refcount_fetch rc blk =
     (case get_refcount_el False (\<lambda>_. no_el) rc blk False of
        None \<Rightarrow> None
      | Some (rc1, None) \<Rightarrow> Some (rc1, 0, Some 0)
      | Some (rc1, Some i) \<Rightarrow> map_option (\<lambda>e. (rc1, 0, Some (ea_count e))) (rd (rc_list rc1) i))"

definition ea_refcount_increment ::
  "bool \<Rightarrow> (nat \<Rightarrow> ea_refcount_el) \<Rightarrow> ea_refcount \<Rightarrow> u64 \<Rightarrow> (ea_refcount \<times> rc_result) option" where
  "ea_refcount_increment g fill rc blk =
     (case get_refcount_el g fill rc blk True of
        None \<Rightarrow> None
      | Some (rc1, None) \<Rightarrow> Some (rc1, EXT2_ET_NO_MEMORY, None)
      | Some (rc1, Some i) \<Rightarrow>
          map_option (\<lambda>e. (set_count rc1 i (ea_count e + 1), 0, Some (ea_count e + 1))) (rd (rc_list rc1) i))"

definition ea_refcount_decrement :: "ea_refcount \<Rightarrow> u64 \<Rightarrow> (ea_refcount \<times> rc_result) option" where
  "ea_refcount_decrement rc blk =
     (case get_refcount_el False (\<lambda>_. no_el) rc blk False of
        None \<Rightarrow> None
      | Some (rc1, None) \<Rightarrow> Some (rc1, EXT2_ET_INVALID_ARGUMENT, None)
      | Some (rc1, Some i) \<Rightarrow>
          map_option (\<lambda>e. if ea_count e = 0 then (rc1, EXT2_ET_INVALID_ARGUMENT, None)
                          else (set_count rc1 i (ea_count e - 1), 0, Some (ea_count e - 1))) (rd (rc_list rc1) i))"

definition ea_refcount_store ::
  "bool \<Rightarrow> (nat \<Rightarrow> ea_refcount_el) \<Rightarrow> ea_refcount \<Rightarrow> u64 \<Rightarrow> u32 \<Rightarrow> (ea_refcount \<times> rc_result) option" where
  "ea_refcount_store g fill rc blk cnt =
     (case get_refcount_el g fill rc blk (cnt \<noteq> 0) of
        None \<Rightarrow> None
      | Some (rc1, None) \<Rightarrow> Some (rc1, if cnt \<noteq> 0 then EXT2_ET_NO_MEMORY else 0, None)
      | Some (rc1, Some i) \<Rightarrow> if i < length (rc_list rc1) then Some (set_count rc1 i cnt, 0, None) else None)"

definition ext2fs_get_refcount_size :: "ea_refcount \<Rightarrow> nat" where
  "ext2fs_get_refcount_size rc = rc_size rc"

definition ea_refcount_intr_begin :: "ea_refcount \<Rightarrow> ea_refcount" where
  "ea_refcount_intr_begin rc = rc\<lparr>rc_cursor := 0\<rparr>"

function ea_refcount_intr_next :: "ea_refcount \<Rightarrow> (ea_refcount \<times> u64 \<times> u32 option) option" where
  "ea_refcount_intr_next rc =
     (if rc_count rc \<le> rc_cursor rc then Some (rc, 0, None)
      else case rd (rc_list rc) (rc_cursor rc) of
        None \<Rightarrow> None
      | Some e \<Rightarrow>
          if ea_count e \<noteq> 0 then Some (rc\<lparr>rc_cursor := rc_cursor rc + 1\<rparr>, ea_blk e, Some (ea_count e))
          else ea_refcount_intr_next (rc\<lparr>rc_cursor := rc_cursor rc + 1\<rparr>))"
  by pat_completeness auto
termination
  by (relation "measure (\<lambda>rc. rc_count rc - rc_cursor rc)") auto

declare ea_refcount_intr_next.simps [simp del]

subsection \<open>The counts an array stands for\<close>

primrec count_in :: "ea_refcount_el list \<Rightarrow> u64 \<Rightarrow> u32" where
  "count_in [] b = 0"
| "count_in (e # es) b = (if ea_blk e = b then ea_count e else count_in es b)"

definition rc_els :: "ea_refcount \<Rightarrow> ea_refcount_el list" where
  "rc_els rc = take (rc_count rc) (rc_list rc)"

definition els_sorted :: "ea_refcount_el list \<Rightarrow> bool" where
  "els_sorted es \<longleftrightarrow> sorted_wrt (\<lambda>a b. ea_blk a < ea_blk b) es"

definition rc_ok :: "ea_refcount \<Rightarrow> bool" where
  "rc_ok rc \<longleftrightarrow> rc_count rc \<le> rc_size rc \<and> length (rc_list rc) = rc_size rc \<and> els_sorted (rc_els rc)"

definition rc_abs :: "ea_refcount \<Rightarrow> u64 \<Rightarrow> u32" where
  "rc_abs rc = count_in (rc_els rc)"

lemma length_els [simp]: "rc_ok rc \<Longrightarrow> length (rc_els rc) = rc_count rc"
  by (simp add: rc_ok_def rc_els_def)

lemma els_nth [simp]: "i < rc_count rc \<Longrightarrow> rc_els rc ! i = rc_list rc ! i"
  by (simp add: rc_els_def)

lemma count_in_absent: "b \<notin> ea_blk ` set es \<Longrightarrow> count_in es b = 0"
  by (induction es) auto

lemma count_in_append: "count_in (xs @ ys) b = (if b \<in> ea_blk ` set xs then count_in xs b else count_in ys b)"
  by (induction xs) auto

lemma count_in_filter:
  "els_sorted es \<Longrightarrow> count_in [e \<leftarrow> es. ea_count e \<noteq> 0] b = count_in es b"
proof (induction es)
  case (Cons e es)
  then have IH: "count_in [e \<leftarrow> es. ea_count e \<noteq> 0] b = count_in es b" by (simp add: els_sorted_def)
  show ?case
  proof (cases "ea_blk e = b")
    case True
    then have "b \<notin> ea_blk ` set es" using Cons.prems by (auto simp: els_sorted_def)
    then show ?thesis using True IH by (simp add: count_in_absent)
  qed (use IH in simp)
qed simp

lemma count_in_insert:
  "b' \<notin> ea_blk ` set (xs @ ys) \<Longrightarrow> count_in (xs @ \<lparr>ea_blk = b', ea_count = 0\<rparr> # ys) b = count_in (xs @ ys) b"
  by (auto simp: count_in_append count_in_absent image_Un)

lemma count_in_nth: "els_sorted es \<Longrightarrow> i < length es \<Longrightarrow> count_in es (ea_blk (es ! i)) = ea_count (es ! i)"
proof (induction es arbitrary: i)
  case (Cons e es)
  then show ?case by (cases i) (force simp: els_sorted_def)+
qed simp

lemma count_in_update:
  assumes "els_sorted es" "i < length es"
  shows "count_in (es[i := (es ! i)\<lparr>ea_count := c\<rparr>]) = (count_in es)(ea_blk (es ! i) := c)"
  using assms
proof (induction es arbitrary: i)
  case (Cons e es)
  then show ?case by (cases i) (force simp: els_sorted_def fun_eq_iff)+
qed simp

lemma els_sorted_update:
  assumes "els_sorted es"
  shows "els_sorted (es[i := (es ! i)\<lparr>ea_count := c\<rparr>])"
proof -
  have "map ea_blk (es[i := (es ! i)\<lparr>ea_count := c\<rparr>]) = map ea_blk es"
    by (cases "i < length es") (simp_all add: map_update list_update_same_conv list_update_beyond)
  then show ?thesis using assms unfolding els_sorted_def sorted_wrt_map [symmetric] by metis
qed

lemma collapse_loop_result:
  "i + n \<le> length l \<Longrightarrow> j \<le> i \<Longrightarrow>
   \<exists>l'. collapse_loop l i j n = Some (l', j + length [e \<leftarrow> take n (drop i l). ea_count e \<noteq> 0]) \<and> length l' = length l \<and>
     take (j + length [e \<leftarrow> take n (drop i l). ea_count e \<noteq> 0]) l' =
       take j l @ [e \<leftarrow> take n (drop i l). ea_count e \<noteq> 0]"
proof (induction n arbitrary: l i j)
  case (Suc n)
  have i: "i < length l" using Suc.prems by simp
  have d: "take (Suc n) (drop i l) = l ! i # take n (drop (i + 1) l)"
    using i by (simp add: Cons_nth_drop_Suc [symmetric])
  show ?case
  proof (cases "ea_count (l ! i) = 0")
    case True
    then show ?thesis using Suc.IH [of "i + 1" l j] Suc.prems i unfolding d by (simp add: rd_def)
  next
    case False
    let ?l = "if i \<noteq> j then l[j := l ! i] else l"
    have l: "take (j + 1) ?l = take j l @ [l ! i]" "drop (i + 1) ?l = drop (i + 1) l" "length ?l = length l"
      using i Suc.prems(2) by (auto simp: take_Suc_conv_app_nth)
    obtain l' where "collapse_loop ?l (i + 1) (j + 1) n =
          Some (l', j + 1 + length [e \<leftarrow> take n (drop (i + 1) ?l). ea_count e \<noteq> 0])" "length l' = length ?l"
        "take (j + 1 + length [e \<leftarrow> take n (drop (i + 1) ?l). ea_count e \<noteq> 0]) l' =
          take (j + 1) ?l @ [e \<leftarrow> take n (drop (i + 1) ?l). ea_count e \<noteq> 0]"
      using Suc.IH [of "i + 1" ?l "j + 1"] Suc.prems l(3) by auto
    then show ?thesis using False i unfolding d l by (simp add: rd_def)
  qed
qed simp

lemma collapse_result:
  assumes "rc_ok rc"
  shows "\<exists>rc'. refcount_collapse rc = Some rc' \<and> rc_ok rc' \<and> rc_abs rc' = rc_abs rc \<and>
    rc_els rc' = [e \<leftarrow> rc_els rc. ea_count e \<noteq> 0] \<and> rc_size rc' = rc_size rc"
proof -
  let ?f = "[e \<leftarrow> rc_els rc. ea_count e \<noteq> 0]"
  have ok: "rc_count rc \<le> length (rc_list rc)" "els_sorted (rc_els rc)" using assms by (simp_all add: rc_ok_def)
  obtain l where l: "collapse_loop (rc_list rc) 0 0 (rc_count rc) = Some (l, length ?f)"
      "length l = length (rc_list rc)" "take (length ?f) l = ?f"
    using collapse_loop_result [of 0 "rc_count rc" "rc_list rc" 0] ok(1) by (auto simp: rc_els_def)
  let ?rc = "rc\<lparr>rc_list := l, rc_count := length ?f\<rparr>"
  have els: "rc_els ?rc = ?f" using l(3) by (simp add: rc_els_def)
  have "length ?f \<le> rc_count rc" using length_filter_le [of _ "rc_els rc"] assms by simp
  moreover have "els_sorted ?f" using ok(2) by (simp add: els_sorted_def sorted_wrt_filter)
  ultimately have "rc_ok ?rc" using assms els l(2) by (simp add: rc_ok_def)
  then show ?thesis using els l(1) count_in_filter [OF ok(2)] by (simp add: refcount_collapse_def rc_abs_def fun_eq_iff)
qed

lemma insert_result:
  assumes ok: "rc_ok rc" and pos: "pos \<le> rc_count rc"
    and before: "\<forall>e \<in> set (take pos (rc_els rc)). ea_blk e < blk"
    and after: "\<forall>e \<in> set (drop pos (rc_els rc)). blk < ea_blk e"
  shows "\<exists>rc' p. insert_refcount_el g fill rc blk pos = Some (rc', p) \<and> rc_ok rc' \<and> rc_abs rc' = rc_abs rc \<and>
    (case p of None \<Rightarrow> \<not> g | Some i \<Rightarrow> i < rc_count rc' \<and> ea_blk (rc_list rc' ! i) = blk)"
proof (cases "rc_size rc \<le> rc_count rc \<and> \<not> g")
  case True
  then show ?thesis using ok by (simp add: insert_refcount_el_def)
next
  case False
  define rc1 where "rc1 = (if rc_size rc \<le> rc_count rc
     then rc\<lparr>rc_size := rc_size rc + 100, rc_list := rc_list rc @ map fill [rc_size rc ..< rc_size rc + 100]\<rparr> else rc)"
  let ?l = "rc_list rc1" and ?n = "rc_count rc" and ?el = "\<lparr>ea_blk = blk, ea_count = 0\<rparr>" and ?es = "rc_els rc"
  have rc1: "rc_count rc1 = ?n" "length ?l = rc_size rc1" "?n < rc_size rc1" "take ?n ?l = ?es"
    using ok False by (auto simp: rc1_def rc_ok_def rc_els_def)
  define l' where "l' = take pos ?l @ ?el # take (?n - pos) (drop pos ?l) @ drop (?n + 1) ?l"
  let ?rc = "rc1\<lparr>rc_list := l', rc_count := ?n + 1\<rparr>"
  have parts: "take pos ?l = take pos ?es" "take (?n - pos) (drop pos ?l) = drop pos ?es"
    unfolding rc1(4) [symmetric] using pos by (simp_all add: drop_take min_absorb1)
  have len: "length (take pos ?es) = pos" "length (drop pos ?es) = ?n - pos" using ok pos by simp_all
  have els: "rc_els ?rc = take pos ?es @ ?el # drop pos ?es"
  proof -
    have "length (take pos ?es @ ?el # drop pos ?es) = ?n + 1"
      using len pos by (simp del: length_take length_drop)
    then have "take (?n + 1) ((take pos ?es @ ?el # drop pos ?es) @ drop (?n + 1) ?l) = take pos ?es @ ?el # drop pos ?es"
      using append_eq_conv_conj by metis
    then show ?thesis by (simp add: rc_els_def l'_def parts)
  qed
  have "length l' = rc_size rc1" unfolding l'_def parts using len pos rc1(2, 3) by simp
  moreover have "els_sorted (take pos ?es @ drop pos ?es)" using ok by (simp add: rc_ok_def)
  then have "els_sorted (take pos ?es @ ?el # drop pos ?es)"
    using before after by (auto simp: els_sorted_def sorted_wrt_append simp del: append_take_drop_id)
  ultimately have "rc_ok ?rc" using rc1 els by (simp add: rc_ok_def)
  moreover have "blk \<notin> ea_blk ` set (take pos ?es @ drop pos ?es)"
    unfolding set_append using before after by auto
  then have "rc_abs ?rc = rc_abs rc"
    unfolding rc_abs_def els using count_in_insert [of blk "take pos ?es" "drop pos ?es"] by (auto simp: fun_eq_iff)
  moreover have "l' ! pos = ?el" unfolding l'_def parts using len by (simp add: nth_append)
  moreover have "insert_refcount_el g fill rc blk pos = Some (?rc, Some pos)"
    using False pos rc1 unfolding insert_refcount_el_def rc1_def [symmetric] l'_def by (simp add: Let_def)
  ultimately show ?thesis using pos by auto
qed

lemma rc_bisect_result:
  assumes sorted: "els_sorted (take n l)" and n: "n \<le> length l"
  shows "0 \<le> low \<Longrightarrow> low \<le> high + 1 \<Longrightarrow> high < int n \<Longrightarrow>
    \<forall>i < n. int i < low \<longrightarrow> ea_blk (l ! i) < blk \<Longrightarrow> \<forall>i < n. high < int i \<longrightarrow> blk < ea_blk (l ! i) \<Longrightarrow>
    \<exists>r. rc_bisect l blk low high = Some r \<and>
      (case r of Inl i \<Rightarrow> i < n \<and> ea_blk (l ! i) = blk
       | Inr p \<Rightarrow> 0 \<le> p \<and> p \<le> int n \<and> (\<forall>i < n. if int i < p then ea_blk (l ! i) < blk else blk < ea_blk (l ! i)))"
proof (induction "nat (high - low + 1)" arbitrary: low high rule: less_induct)
  case less
  have mono: "ea_blk (l ! i) < ea_blk (l ! j)" if "i < j" "j < n" for i j
    using sorted n that by (auto simp: els_sorted_def sorted_wrt_iff_nth_less)
  define mid where "mid = (low + high) div 2"
  show ?case
  proof (cases "low \<le> high")
    case False
    then show ?thesis using less.prems by (subst rc_bisect.simps) auto
  next
    case True
    have mid: "low \<le> mid" "mid \<le> high" using True unfolding mid_def by auto
    then have m: "nat mid < n" "int (nat mid) = mid" "\<not> mid < 0" using less.prems by linarith+
    have step: "rc_bisect l blk low high =
      (if blk = ea_blk (l ! nat mid) then Some (Inl (nat mid))
       else if blk < ea_blk (l ! nat mid) then rc_bisect l blk low (mid - 1) else rc_bisect l blk (mid + 1) high)"
      using True m n by (subst rc_bisect.simps) (simp add: mid_def [symmetric] Let_def rd_def)
    consider "blk = ea_blk (l ! nat mid)" | "blk < ea_blk (l ! nat mid)" | "ea_blk (l ! nat mid) < blk"
      by (rule linorder_cases)
    then show ?thesis
    proof cases
      case 1
      then show ?thesis using step m by simp
    next
      case 2
      have "\<forall>i < n. mid - 1 < int i \<longrightarrow> blk < ea_blk (l ! i)"
      proof (intro allI impI)
        fix i assume i: "i < n" "mid - 1 < int i"
        show "blk < ea_blk (l ! i)"
          using 2 mono [of "nat mid" i] i m(2) by (cases "i = nat mid") (auto intro: less_trans)
      qed
      moreover have "nat (mid - 1 - low + 1) < nat (high - low + 1)" using mid True by linarith
      ultimately show ?thesis using 2 step less.hyps [of "mid - 1" low] less.prems mid by auto
    next
      case 3
      have "\<forall>i < n. int i < mid + 1 \<longrightarrow> ea_blk (l ! i) < blk"
      proof (intro allI impI)
        fix i assume i: "i < n" "int i < mid + 1"
        show "ea_blk (l ! i) < blk"
          using 3 mono [of i "nat mid"] i m by (cases "i = nat mid") (auto intro: less_trans)
      qed
      moreover have "nat (high - (mid + 1) + 1) < nat (high - low + 1)" using mid True by linarith
      moreover have "rc_bisect l blk low high = rc_bisect l blk (mid + 1) high" using 3 step by auto
      ultimately show ?thesis using less.hyps [of high "mid + 1"] less.prems mid by simp
    qed
  qed
qed

lemma cursor_simps [simp]:
  "rc_els (rc\<lparr>rc_cursor := c\<rparr>) = rc_els rc" "rc_ok (rc\<lparr>rc_cursor := c\<rparr>) = rc_ok rc"
  "rc_abs (rc\<lparr>rc_cursor := c\<rparr>) = rc_abs rc"
  by (simp_all add: rc_els_def rc_ok_def rc_abs_def)

text \<open>What a search may answer: the index of the block, or nothing, when it is absent or memory is refused.\<close>

definition found :: "bool \<Rightarrow> bool \<Rightarrow> u64 \<Rightarrow> ea_refcount \<Rightarrow> ea_refcount \<Rightarrow> nat option \<Rightarrow> bool" where
  "found g create blk rc rc' p \<longleftrightarrow> rc_ok rc' \<and> rc_abs rc' = rc_abs rc \<and>
     (case p of None \<Rightarrow> if create then \<not> g else rc_abs rc blk = 0
      | Some i \<Rightarrow> i < rc_count rc' \<and> ea_blk (rc_list rc' ! i) = blk)"

lemma beyond_last_iff:
  assumes "rc_ok rc"
  shows "beyond_last rc blk = Some (\<forall>e \<in> set (rc_els rc). ea_blk e < blk)"
proof (cases "rc_count rc = 0")
  case True
  then show ?thesis by (simp add: beyond_last_def rc_els_def)
next
  case False
  let ?n = "rc_count rc" and ?l = "rc_list rc"
  have ok: "?n \<le> length ?l" "els_sorted (rc_els rc)" using assms by (simp_all add: rc_ok_def)
  have "(\<forall>e \<in> set (rc_els rc). ea_blk e < blk) \<longleftrightarrow> (\<forall>i < ?n. ea_blk (?l ! i) < blk)"
    using assms by (auto simp: all_set_conv_all_nth)
  also have "\<dots> \<longleftrightarrow> ea_blk (?l ! (?n - 1)) < blk"
  proof
    assume last: "ea_blk (?l ! (?n - 1)) < blk"
    have "ea_blk (?l ! i) \<le> ea_blk (?l ! (?n - 1))" if "i < ?n" for i
      using ok that assms by (cases "i = ?n - 1")
        (auto simp: els_sorted_def sorted_wrt_iff_nth_less intro!: less_imp_le)
    then show "\<forall>i < ?n. ea_blk (?l ! i) < blk" using last by (meson le_less_trans)
  qed (use False in simp)
  finally show ?thesis using False ok(1) by (simp add: beyond_last_def rd_def)
qed

lemma found_insert:
  assumes "rc_ok rc1" "rc_abs rc1 = rc_abs rc" "pos \<le> rc_count rc1"
    "\<forall>e \<in> set (take pos (rc_els rc1)). ea_blk e < blk" "\<forall>e \<in> set (drop pos (rc_els rc1)). blk < ea_blk e"
  shows "\<exists>rc' p. insert_refcount_el g fill rc1 blk pos = Some (rc', p) \<and> found g True blk rc rc' p"
  using insert_result [OF assms(1, 3, 4, 5), of g fill] assms(2) unfolding found_def by (fastforce split: option.splits)

lemma get_result_append:
  assumes ok: "rc_ok rc" and all: "\<forall>e \<in> set (rc_els rc). ea_blk e < blk"
  shows "\<exists>rc' p. get_refcount_el g fill rc blk True = Some (rc', p) \<and> found g True blk rc rc' p"
proof -
  obtain rc1 where rc1: "(if rc_size rc \<le> rc_count rc then refcount_collapse rc else Some rc) = Some rc1"
      "rc_ok rc1" "rc_abs rc1 = rc_abs rc" "set (rc_els rc1) \<subseteq> set (rc_els rc)"
    using collapse_result [OF ok] ok by (cases "rc_size rc \<le> rc_count rc") fastforce+
  have "take (rc_count rc1) (rc_els rc1) = rc_els rc1" "drop (rc_count rc1) (rc_els rc1) = []"
    using rc1(2) by simp_all
  then have "\<exists>rc' p. insert_refcount_el g fill rc1 blk (rc_count rc1) = Some (rc', p) \<and> found g True blk rc rc' p"
    using rc1 all by (intro found_insert) auto
  then show ?thesis
    using all by (subst get_refcount_el.simps) (simp add: beyond_last_iff [OF ok] rc1(1))
qed

lemma get_result:
  "rc_ok rc \<Longrightarrow> \<exists>rc' p. get_refcount_el g fill rc blk create = Some (rc', p) \<and> found g create blk rc rc' p"
proof (induction "if rc_size rc \<le> rc_count rc then 1 else 0 :: nat" arbitrary: rc rule: less_induct)
  case less
  note ok = less.prems
  show ?case
  proof (cases "create \<and> (\<forall>e \<in> set (rc_els rc). ea_blk e < blk)")
    case True
    then show ?thesis using get_result_append [OF ok] by simp
  next
    case notlast: False
    then have b: "(if create then beyond_last rc blk else Some False) = Some False"
      by (simp add: beyond_last_iff [OF ok])
    show ?thesis
    proof (cases "rc_count rc = 0")
      case True
      then have "\<not> create" using notlast by (auto simp: rc_els_def)
      then show ?thesis using True ok
        by (subst get_refcount_el.simps) (simp add: found_def rc_abs_def rc_els_def)
    next
      case False
      define rc1 where "rc1 = (if rc_count rc \<le> rc_cursor rc then rc\<lparr>rc_cursor := 0\<rparr> else rc)"
      have rc1: "rc_ok rc1" "rc_abs rc1 = rc_abs rc" "rc_els rc1 = rc_els rc" "rc_count rc1 = rc_count rc"
        "rc_size rc1 = rc_size rc" "rc_list rc1 = rc_list rc" "rc_cursor rc1 < rc_count rc"
        using ok False by (auto simp: rc1_def)
      let ?l = "rc_list rc" and ?n = "rc_count rc"
      have n: "?n \<le> length ?l" "els_sorted (take ?n ?l)" using ok by (simp_all add: rc_ok_def rc_els_def)
      obtain r where r: "rc_bisect ?l blk 0 (int ?n - 1) = Some r"
        and r': "case r of Inl i \<Rightarrow> i < ?n \<and> ea_blk (?l ! i) = blk
          | Inr p \<Rightarrow> 0 \<le> p \<and> p \<le> int ?n \<and> (\<forall>i < ?n. if int i < p then ea_blk (?l ! i) < blk else blk < ea_blk (?l ! i))"
        using rc_bisect_result [OF n(2, 1), of 0 "int ?n - 1" blk] False by auto
      have get: "get_refcount_el g fill rc blk create =
        (if blk = ea_blk (?l ! rc_cursor rc1) then Some (rc1\<lparr>rc_cursor := rc_cursor rc1 + 1\<rparr>, Some (rc_cursor rc1))
         else case r of
           Inl i \<Rightarrow> Some (rc1\<lparr>rc_cursor := i + 1\<rparr>, Some i)
         | Inr low \<Rightarrow>
             if \<not> create then Some (rc1, None)
             else if rc_size rc1 \<le> rc_count rc1 then
               (case refcount_collapse rc1 of
                  None \<Rightarrow> None
                | Some rc2 \<Rightarrow> if rc_count rc2 < rc_size rc2 then get_refcount_el g fill rc2 blk create
                              else insert_refcount_el g fill rc2 blk (nat low))
             else insert_refcount_el g fill rc1 blk (nat low))"
        using b False n(1) rc1 r
        by (subst get_refcount_el.simps) (simp add: Let_def rd_def rc1_def [symmetric])
      show ?thesis
      proof (cases "blk = ea_blk (?l ! rc_cursor rc1)")
        case True
        then show ?thesis unfolding get using rc1 by (simp add: found_def)
      next
        case miss: False
        show ?thesis
        proof (cases r)
          case (Inl i)
          then show ?thesis unfolding get using miss rc1 r' by (simp add: found_def)
        next
          case (Inr low)
          define k where "k = nat low"
          have k: "k \<le> ?n" "\<forall>i < ?n. if i < k then ea_blk (?l ! i) < blk else blk < ea_blk (?l ! i)"
            using r' Inr by (auto simp: k_def nat_le_iff zless_nat_conj split: if_splits)
          have sides: "\<forall>e \<in> set (take k (rc_els rc)). ea_blk e < blk" "\<forall>e \<in> set (drop k (rc_els rc)). blk < ea_blk e"
            using k ok by (auto simp: set_conv_nth)
          show ?thesis
          proof (cases create)
            case False
            have "ea_blk (rc_els rc ! i) \<noteq> blk" if "i < ?n" for i using k(2) that by (cases "i < k") auto
            then have "blk \<notin> ea_blk ` set (rc_els rc)" using ok length_els [OF ok] by (metis (no_types) imageE in_set_conv_nth)
            then show ?thesis unfolding get using miss Inr False rc1
              by (simp add: found_def count_in_absent) (simp add: rc_abs_def count_in_absent)
          next
            case create: True
            show ?thesis
            proof (cases "rc_size rc \<le> ?n")
              case False
              then show ?thesis unfolding get using miss Inr create rc1 sides k(1)
                by (simp add: k_def [symmetric] found_insert)
            next
              case full: True
              obtain rc2 where rc2: "refcount_collapse rc1 = Some rc2" "rc_ok rc2" "rc_abs rc2 = rc_abs rc"
                  "rc_els rc2 = [e \<leftarrow> rc_els rc. ea_count e \<noteq> 0]" "rc_size rc2 = rc_size rc"
                using collapse_result [OF rc1(1)] rc1 by auto
              show ?thesis
              proof (cases "rc_count rc2 < rc_size rc2")
                case True
                then have "\<exists>rc' p. get_refcount_el g fill rc2 blk create = Some (rc', p) \<and> found g create blk rc2 rc' p"
                  using less.hyps [of rc2] full rc2(2) by simp
                moreover have "found g create blk rc2 = found g create blk rc"
                  by (intro ext) (simp only: found_def rc2(3))
                ultimately show ?thesis unfolding get using miss Inr create full rc1 rc2(1) True by simp
              next
                case False
                then have "length [e \<leftarrow> rc_els rc. ea_count e \<noteq> 0] = length (rc_els rc)"
                  using rc2 ok full unfolding rc2(4) [symmetric] by (simp add: rc_ok_def)
                then have same: "rc_els rc2 = rc_els rc"
                  unfolding rc2(4) by (metis filter_id_conv length_filter_less less_irrefl)
                then have "rc_count rc2 = ?n" using rc2(2) ok length_els by metis
                then show ?thesis unfolding get using miss Inr create full rc1 rc2 False sides k(1)
                  by (simp add: k_def [symmetric] found_insert same)
              qed
            qed
          qed
        qed
      qed
    qed
  qed
qed

subsection \<open>The operations\<close>

lemma set_count_result:
  assumes "rc_ok rc" "i < rc_count rc"
  shows "rc_ok (set_count rc i c)" "rc_abs (set_count rc i c) = (rc_abs rc)(ea_blk (rc_list rc ! i) := c)"
    "ea_count (rc_list rc ! i) = rc_abs rc (ea_blk (rc_list rc ! i))" "i < length (rc_list rc)"
proof -
  have ok: "els_sorted (rc_els rc)" "i < length (rc_els rc)" using assms by (simp_all add: rc_ok_def)
  have els: "rc_els (set_count rc i c) = (rc_els rc)[i := (rc_els rc ! i)\<lparr>ea_count := c\<rparr>]"
    using assms(2) by (simp add: set_count_def rc_els_def take_update_swap)
  show "rc_ok (set_count rc i c)"
    using assms els_sorted_update [OF ok(1), of i c] els by (simp add: rc_ok_def set_count_def)
  show "rc_abs (set_count rc i c) = (rc_abs rc)(ea_blk (rc_list rc ! i) := c)"
    using count_in_update [OF ok] assms(2) els by (simp add: rc_abs_def)
  show "ea_count (rc_list rc ! i) = rc_abs rc (ea_blk (rc_list rc ! i))"
    using count_in_nth [OF ok] assms(2) by (simp add: rc_abs_def)
  show "i < length (rc_list rc)" using assms by (simp add: rc_ok_def)
qed

datatype rc_op = RcFetch u64 | RcIncrement bool u64 | RcDecrement u64 | RcStore bool u64 u32

definition rc_step :: "(nat \<Rightarrow> ea_refcount_el) \<Rightarrow> ea_refcount \<Rightarrow> rc_op \<Rightarrow> (ea_refcount \<times> rc_result) option" where
  "rc_step fill rc op =
     (case op of
        RcFetch b \<Rightarrow> ea_refcount_fetch rc b
      | RcIncrement g b \<Rightarrow> ea_refcount_increment g fill rc b
      | RcDecrement b \<Rightarrow> ea_refcount_decrement rc b
      | RcStore g b c \<Rightarrow> ea_refcount_store g fill rc b c)"

inductive rc_spec :: "(u64 \<Rightarrow> u32) \<Rightarrow> rc_op \<Rightarrow> rc_result \<Rightarrow> (u64 \<Rightarrow> u32) \<Rightarrow> bool" where
  fetched: "rc_spec f (RcFetch b) (0, Some (f b)) f"
| incremented: "rc_spec f (RcIncrement g b) (0, Some (f b + 1)) (f(b := f b + 1))"
| decremented: "f b \<noteq> 0 \<Longrightarrow> rc_spec f (RcDecrement b) (0, Some (f b - 1)) (f(b := f b - 1))"
| not_counted: "f b = 0 \<Longrightarrow> rc_spec f (RcDecrement b) (EXT2_ET_INVALID_ARGUMENT, None) f"
| stored: "rc_spec f (RcStore g b c) (0, None) (f(b := c))"
| no_memory_inc: "rc_spec f (RcIncrement False b) (EXT2_ET_NO_MEMORY, None) f"
| no_memory_store: "c \<noteq> 0 \<Longrightarrow> rc_spec f (RcStore False b c) (EXT2_ET_NO_MEMORY, None) f"

lemma rc_step_simulates:
  assumes ok: "rc_ok rc"
  shows "\<exists>rc' r. rc_step fill rc op = Some (rc', r) \<and> rc_ok rc' \<and> rc_spec (rc_abs rc) op r (rc_abs rc')"
proof (cases op)
  case (RcFetch b)
  obtain rc1 p where g: "get_refcount_el False (\<lambda>_. no_el) rc b False = Some (rc1, p)" "found False False b rc rc1 p"
    using get_result [OF ok] by blast
  then show ?thesis
    using RcFetch set_count_result(3, 4) [of rc1 "the p"] rc_spec.fetched [of "rc_abs rc" b]
    by (cases p) (auto simp: rc_step_def ea_refcount_fetch_def found_def rd_def)
next
  case (RcIncrement m b)
  obtain rc1 p where g: "get_refcount_el m fill rc b True = Some (rc1, p)" "found m True b rc rc1 p"
    using get_result [OF ok] by blast
  then show ?thesis
    using RcIncrement set_count_result [of rc1 "the p"] rc_spec.incremented [of "rc_abs rc" m b]
      rc_spec.no_memory_inc [of "rc_abs rc" b]
    by (cases p) (auto simp: rc_step_def ea_refcount_increment_def found_def rd_def)
next
  case (RcDecrement b)
  obtain rc1 p where g: "get_refcount_el False (\<lambda>_. no_el) rc b False = Some (rc1, p)" "found False False b rc rc1 p"
    using get_result [OF ok] by blast
  then show ?thesis
    using RcDecrement set_count_result [of rc1 "the p"] rc_spec.decremented [of "rc_abs rc" b]
      rc_spec.not_counted [of "rc_abs rc" b]
    by (cases p) (auto simp: rc_step_def ea_refcount_decrement_def found_def rd_def)
next
  case (RcStore m b c)
  obtain rc1 p where g: "get_refcount_el m fill rc b (c \<noteq> 0) = Some (rc1, p)" "found m (c \<noteq> 0) b rc rc1 p"
    using get_result [OF ok] by blast
  then show ?thesis
    using RcStore set_count_result [of rc1 "the p"] rc_spec.stored [of "rc_abs rc" m b c]
      rc_spec.no_memory_store [of c "rc_abs rc" b]
    by (cases p) (auto simp: rc_step_def ea_refcount_store_def found_def fun_upd_idem split: if_splits)
qed

interpretation rc: simulation "rc_step fill" rc_spec rc_ok rc_abs "\<lambda>_. True" for fill
  by unfold_locales (rule rc_step_simulates)

subsection \<open>The iterator\<close>

text \<open>The blocks and counts that \<open>n\<close> calls of the iterator give, up to the answer 0 without a count.\<close>

primrec intr_all :: "nat \<Rightarrow> ea_refcount \<Rightarrow> (u64 \<times> u32) list option" where
  "intr_all 0 rc = None"
| "intr_all (Suc n) rc =
     (case ea_refcount_intr_next rc of
        None \<Rightarrow> None
      | Some (rc', b, None) \<Rightarrow> Some []
      | Some (rc', b, Some c) \<Rightarrow> map_option ((#) (b, c)) (intr_all n rc'))"

definition el_pair :: "ea_refcount_el \<Rightarrow> u64 \<times> u32" where
  "el_pair e = (ea_blk e, ea_count e)"

lemma intr_next_result:
  "rc_ok rc \<Longrightarrow> case [e \<leftarrow> drop (rc_cursor rc) (rc_els rc). ea_count e \<noteq> 0] of
     [] \<Rightarrow> \<exists>rc'. ea_refcount_intr_next rc = Some (rc', 0, None)
   | e # es \<Rightarrow> \<exists>c. ea_refcount_intr_next rc = Some (rc\<lparr>rc_cursor := c\<rparr>, ea_blk e, Some (ea_count e)) \<and>
       [e \<leftarrow> drop c (rc_els rc). ea_count e \<noteq> 0] = es"
proof (induction rc rule: ea_refcount_intr_next.induct)
  case (1 rc)
  show ?case
  proof (cases "rc_count rc \<le> rc_cursor rc")
    case True
    then show ?thesis using 1 by (subst ea_refcount_intr_next.simps) simp
  next
    case False
    let ?c = "rc_cursor rc"
    have e: "rd (rc_list rc) ?c = Some (rc_els rc ! ?c)" using False 1(2) by (simp add: rd_def rc_ok_def)
    have d: "drop ?c (rc_els rc) = rc_els rc ! ?c # drop (?c + 1) (rc_els rc)"
      using False 1(2) by (simp add: Cons_nth_drop_Suc del: els_nth)
    show ?thesis
    proof (cases "ea_count (rc_els rc ! ?c) = 0")
      case True
      have "ea_refcount_intr_next rc = ea_refcount_intr_next (rc\<lparr>rc_cursor := ?c + 1\<rparr>)"
        using False e True by (subst ea_refcount_intr_next.simps) simp
      then show ?thesis using 1(1) [OF False e] True 1(2) unfolding d by (auto split: list.splits)
    next
      case nz: False
      have "ea_refcount_intr_next rc = Some (rc\<lparr>rc_cursor := ?c + 1\<rparr>, ea_blk (rc_els rc ! ?c), Some (ea_count (rc_els rc ! ?c)))"
        using False e nz by (subst ea_refcount_intr_next.simps) simp
      then show ?thesis using nz unfolding d by auto
    qed
  qed
qed

lemma intr_all_result:
  assumes ok: "rc_ok rc"
  shows "[e \<leftarrow> drop (rc_cursor rc) (rc_els rc). ea_count e \<noteq> 0] = es \<Longrightarrow> length es < n \<Longrightarrow>
    intr_all n rc = Some (map el_pair es)"
  using ok
proof (induction es arbitrary: rc n)
  case Nil
  then show ?case using intr_next_result [of rc] by (cases n) auto
next
  case (Cons e es)
  then obtain m where n: "n = Suc m" "length es < m" by (cases n) auto
  obtain c where c: "ea_refcount_intr_next rc = Some (rc\<lparr>rc_cursor := c\<rparr>, ea_blk e, Some (ea_count e))"
      "[e \<leftarrow> drop c (rc_els rc). ea_count e \<noteq> 0] = es"
    using intr_next_result [OF Cons.prems(3)] Cons.prems(1) by auto
  then show ?case using Cons.IH [of "rc\<lparr>rc_cursor := c\<rparr>" m] Cons.prems(3) n by (simp add: el_pair_def)
qed

lemma count_in_nonzero:
  assumes "els_sorted es"
  shows "set (map el_pair [e \<leftarrow> es. ea_count e \<noteq> 0]) = {(b, c). c \<noteq> 0 \<and> count_in es b = c}"
proof -
  have "count_in es (ea_blk e) = ea_count e" if "e \<in> set es" for e
    using count_in_nth [OF assms] that by (metis in_set_conv_nth)
  moreover have "\<exists>e \<in> set es. ea_blk e = b" if "count_in es b \<noteq> 0" for b
    using count_in_absent [of b es] that by auto
  ultimately show ?thesis by (force simp: el_pair_def image_iff)
qed

text \<open>The iteration from a fresh cursor lists the nonzero counts in the order of the blocks.\<close>

lemma iteration_result:
  assumes ok: "rc_ok rc"
  shows "\<exists>xs. intr_all (Suc (rc_size rc)) (ea_refcount_intr_begin rc) = Some xs \<and>
    sorted_wrt (<) (map fst xs) \<and> set xs = {(b, c). c \<noteq> 0 \<and> rc_abs rc b = c}"
proof -
  let ?es = "[e \<leftarrow> rc_els rc. ea_count e \<noteq> 0]"
  have srt: "els_sorted (rc_els rc)" using ok by (simp add: rc_ok_def)
  have "length ?es < Suc (rc_size rc)"
    using length_filter_le [of "\<lambda>e. ea_count e \<noteq> 0" "rc_els rc"] ok length_els [OF ok] by (simp add: rc_ok_def)
  then have "intr_all (Suc (rc_size rc)) (ea_refcount_intr_begin rc) = Some (map el_pair ?es)"
    using ok by (intro intr_all_result) (simp_all add: ea_refcount_intr_begin_def)
  moreover have "sorted_wrt (<) (map fst (map el_pair ?es))"
    using srt by (simp add: els_sorted_def sorted_wrt_map sorted_wrt_filter el_pair_def)
  ultimately show ?thesis using count_in_nonzero [OF srt] by (simp add: rc_abs_def)
qed

lemma refcount_refines:
  "\<exists>rc rc' rs xs. ea_refcount_create True True sz = Inr rc \<and> run_ops (rc_step fill) rc ops = Some (rc', rs) \<and>
    spec_run rc_spec (\<lambda>_. 0) ops rs (rc_abs rc') \<and>
    intr_all (Suc (ext2fs_get_refcount_size rc')) (ea_refcount_intr_begin rc') = Some xs \<and>
    sorted_wrt (<) (map fst xs) \<and> set xs = {(b, c). c \<noteq> 0 \<and> rc_abs rc' b = c}"
proof -
  obtain rc where rc: "ea_refcount_create True True sz = Inr rc" "rc_ok rc" "rc_abs rc = (\<lambda>_. 0)"
    by (simp add: ea_refcount_create_def Let_def rc_ok_def rc_els_def rc_abs_def els_sorted_def fun_eq_iff)
  obtain rc' rs where run: "run_ops (rc_step fill) rc ops = Some (rc', rs)" "rc_ok rc'"
      "spec_run rc_spec (rc_abs rc) ops rs (rc_abs rc')"
    using rc.run_simulates [OF rc(2), of ops fill] by (auto simp: list_all_iff)
  then show ?thesis using rc iteration_result [OF run(2)] by (auto simp: ext2fs_get_refcount_size_def)
qed

text \<open>C31: the reference counts refine a function from block numbers to counts: from a new array on, every sequence of fetches, increments, decrements and stores, with memory granted or refused, returns what the function says (the count; -1 from a count that is zero is an invalid argument and changes nothing; refused memory changes nothing), although entries are dropped, inserted and found through a cursor; and the iterator then lists exactly the blocks with a nonzero count, each once, in increasing order.\<close>

theorem ea_refcount_refines:
  "\<exists>rc rc' rs xs. ea_refcount_create True True sz = Inr rc \<and> run_ops (rc_step fill) rc ops = Some (rc', rs) \<and>
    spec_run rc_spec (\<lambda>_. 0) ops rs (rc_abs rc') \<and>
    intr_all (Suc (ext2fs_get_refcount_size rc')) (ea_refcount_intr_begin rc') = Some xs \<and>
    sorted_wrt (<) (map fst xs) \<and> set xs = {(b, c). c \<noteq> 0 \<and> rc_abs rc' b = c}"
  by (rule refcount_refines)

end
