(* ===== verification/DirBlock.thy ===== *)
theory DirBlock
  imports Simulation "HOL-Library.Monad_Syntax"
begin

text \<open>
  Directories of the ext2 family as \<open>libext2fs\<close> of e2fsprogs keeps them (\<open>lib/ext2fs\<close>): the record lengths and the
  scan of a directory block (\<open>dir_iterate.c\<close>), reading and writing of blocks (\<open>dirblock.c\<close>), \<open>link.c\<close>, \<open>unlink.c\<close>,
  \<open>lookup.c\<close> and \<open>newdir.c\<close>.

  A block is its bytes, a directory entry is the offset at which it starts, and every access names its offset; an access outside
  the block makes the result \<open>None\<close>. Numbers that the code keeps in 32 bits are natural numbers here: they are at most
  the block size plus the largest record length.
\<close>

abbreviation EXT2_ET_MAGIC_EXT2FS_FILSYS :: nat where "EXT2_ET_MAGIC_EXT2FS_FILSYS \<equiv> 2133571329"
abbreviation EXT2_ET_RO_FILSYS :: nat where "EXT2_ET_RO_FILSYS \<equiv> 2133571349"
abbreviation EXT2_ET_DIR_CORRUPTED :: nat where "EXT2_ET_DIR_CORRUPTED \<equiv> 2133571363"
abbreviation EXT2_ET_DIR_NO_SPACE :: nat where "EXT2_ET_DIR_NO_SPACE \<equiv> 2133571366"
abbreviation EXT2_ET_FILE_NOT_FOUND :: nat where "EXT2_ET_FILE_NOT_FOUND \<equiv> 2133571404"
abbreviation EINVAL :: nat where "EINVAL \<equiv> 22"

abbreviation DIRENT_DOT_FILE :: nat where "DIRENT_DOT_FILE \<equiv> 1"
abbreviation DIRENT_OTHER_FILE :: nat where "DIRENT_OTHER_FILE \<equiv> 3"
abbreviation DIRENT_DELETED_FILE :: nat where "DIRENT_DELETED_FILE \<equiv> 4"

abbreviation EXT2_FLAG_RW :: u32 where "EXT2_FLAG_RW \<equiv> 1"
abbreviation EXT2_FEATURE_INCOMPAT_FILETYPE :: u32 where "EXT2_FEATURE_INCOMPAT_FILETYPE \<equiv> 2"
abbreviation EXT2_INDEX_FL :: u32 where "EXT2_INDEX_FL \<equiv> 0x1000"
abbreviation EXT2_FT_DIR :: u16 where "EXT2_FT_DIR \<equiv> 2"

subsection \<open>Directory entries\<close>

text \<open>The fields of \<open>struct ext2_dir_entry\<close> at an offset: \<open>inode\<close>, \<open>rec_len\<close>, \<open>name_len\<close> and the name.\<close>

definition de_inode :: "u8 list \<Rightarrow> nat \<Rightarrow> u32 option" where
  "de_inode d i = map_option of_le32 (block_read d i 4)"

definition de_rec_len :: "u8 list \<Rightarrow> nat \<Rightarrow> u16 option" where
  "de_rec_len d i = map_option of_le16 (block_read d (i + 4) 2)"

definition de_name_len :: "u8 list \<Rightarrow> nat \<Rightarrow> u16 option" where
  "de_name_len d i = map_option of_le16 (block_read d (i + 6) 2)"

text \<open>The length of a name is the low byte, the high byte is the type of the file.\<close>

definition name_size :: "u16 \<Rightarrow> nat" where
  "name_size nl = unat (nl AND 0xFF)"

definition EXT2_DIR_REC_LEN :: "nat \<Rightarrow> nat" where
  "EXT2_DIR_REC_LEN name_len = (name_len + 8 + 3) div 4 * 4"

text \<open>Both never fail except as written; \<open>bs\<close> is \<open>fs->blocksize\<close>.\<close>

definition ext2fs_get_rec_len :: "nat \<Rightarrow> u8 list \<Rightarrow> nat \<Rightarrow> nat option" where
  "ext2fs_get_rec_len bs d i = do {
     w \<leftarrow> de_rec_len d i;
     let len = unat w;
     Some (if bs < 65536 then len
           else if len = 65535 \<or> len = 0 then bs
           else len div 4 * 4 + len mod 4 * 65536)
   }"

definition rec_len_code :: "nat \<Rightarrow> nat \<Rightarrow> nat" where
  "rec_len_code bs len =
     (if len < 65536 then len
      else if len = bs then (if bs = 65536 then 65535 else 0)
      else len mod 65536 div 4 * 4 + len div 65536 mod 4)"

definition ext2fs_set_rec_len :: "nat \<Rightarrow> nat \<Rightarrow> u8 list \<Rightarrow> nat \<Rightarrow> (u8 list \<times> nat) option" where
  "ext2fs_set_rec_len bs len d i =
     (if bs < len \<or> 262144 < bs \<or> len mod 4 \<noteq> 0 then Some (d, EINVAL)
      else do {
        d' \<leftarrow> block_write d (i + 4) (le16 (of_nat (rec_len_code bs len)));
        Some (d', 0)
      })"

subsection \<open>Scanning a block\<close>

text \<open>A deleted entry and its successors up to the next entry in use must look valid.\<close>

function ext2fs_validate_entry :: "nat \<Rightarrow> u8 list \<Rightarrow> nat \<Rightarrow> nat \<Rightarrow> bool option" where
  "ext2fs_validate_entry bs d offset final_offset =
     (if offset < final_offset \<and> offset + 12 \<le> bs then
        case ext2fs_get_rec_len bs d offset of
          None \<Rightarrow> None
        | Some rec_len \<Rightarrow>
            case de_name_len d offset of
              None \<Rightarrow> None
            | Some nl \<Rightarrow>
                if rec_len < 8 \<or> rec_len mod 4 \<noteq> 0 \<or> rec_len < name_size nl + 8 then Some False
                else ext2fs_validate_entry bs d (offset + rec_len) final_offset
      else Some (offset = final_offset))"
  by pat_completeness auto
termination
  by (relation "measure (\<lambda>(bs, d, offset, final_offset). final_offset - offset)") auto

declare ext2fs_validate_entry.simps [simp del]

text \<open>With \<open>DIRENT_FLAG_INCLUDE_REMOVED\<close> the scan goes on at the first valid entry behind the name.\<close>

function next_removed :: "nat \<Rightarrow> u8 list \<Rightarrow> nat \<Rightarrow> nat \<Rightarrow> nat option" where
  "next_removed bs d offset final_offset =
     (if offset < final_offset then
        case ext2fs_validate_entry bs d offset final_offset of
          None \<Rightarrow> None
        | Some v \<Rightarrow> if v then Some offset else next_removed bs d (offset + 4) final_offset
      else Some offset)"
  by pat_completeness auto
termination
  by (relation "measure (\<lambda>(bs, d, offset, final_offset). final_offset - offset)") auto

declare next_removed.simps [simp del]

definition dir_next :: "nat \<Rightarrow> nat \<Rightarrow> u8 list \<Rightarrow> nat \<Rightarrow> nat \<Rightarrow> nat option" where
  "dir_next bs flags d offset rec_len =
     (if flags div 2 mod 2 = 0 then Some (offset + rec_len)
      else do {
        nl \<leftarrow> de_name_len d offset;
        let size = (name_size nl + 11) div 4 * 4;
        if rec_len \<noteq> size then next_removed bs d (offset + size) (offset + rec_len) else Some (offset + rec_len)
      })"

text \<open>
  How the loop ends: at the end of the block, by \<open>DIRENT_ABORT\<close>, or by a corrupt entry. A callback gets the kind of entry, the
  offset, the block and its private data, and returns them with the bits \<open>DIRENT_CHANGED\<close> and \<open>DIRENT_ABORT\<close>. A callback
  may write any record length, and then the loop may not end: the result is \<open>None\<close> for that as well.
\<close>

datatype dir_end = Finished | Aborted | Corrupted

type_synonym 'p dir_func = "nat \<Rightarrow> nat \<Rightarrow> u8 list \<Rightarrow> 'p \<Rightarrow> (u8 list \<times> 'p \<times> bool \<times> bool) option"

partial_function (option) dir_loop ::
  "nat \<Rightarrow> nat \<Rightarrow> 'p dir_func \<Rightarrow> nat \<Rightarrow> nat \<Rightarrow> nat \<Rightarrow> bool \<Rightarrow> u8 list \<Rightarrow> 'p \<Rightarrow> (u8 list \<times> 'p \<times> bool \<times> dir_end) option"
where
  "dir_loop bs flags func offset next_real entry changed d p =
     (if offset < bs then do {
        rec_len \<leftarrow> ext2fs_get_rec_len bs d offset;
        nl \<leftarrow> de_name_len d offset;
        if bs < offset + rec_len \<or> rec_len < 8 \<or> rec_len mod 4 \<noteq> 0 \<or> rec_len < name_size nl + 8
        then Some (d, p, changed, Corrupted)
        else do {
          ino \<leftarrow> de_inode d offset;
          if ino = 0 \<and> even flags then do {
            offset' \<leftarrow> dir_next bs flags d offset rec_len;
            dir_loop bs flags func offset' (if next_real = offset then next_real + rec_len else next_real) entry changed d p
          } else do {
            (d', p', ch, ab) \<leftarrow> func (if offset < next_real then DIRENT_DELETED_FILE else entry) offset d p;
            let entry' = (if entry < DIRENT_OTHER_FILE then entry + 1 else entry);
            rec_len' \<leftarrow> (if ch then ext2fs_get_rec_len bs d' offset else Some rec_len);
            if ab then Some (d', p', changed \<or> ch, Aborted)
            else do {
              offset' \<leftarrow> dir_next bs flags d' offset rec_len';
              dir_loop bs flags func offset' (if next_real = offset then next_real + rec_len' else next_real) entry'
                (changed \<or> ch) d' p'
            }
          }
        }
      } else Some (d, p, changed, Finished))"

subsection \<open>Blocks on the device\<close>

text \<open>
  The file system: its magic number, flags, block size and incompatible features, the contents of its blocks and the flags of its
  inodes. What the rest of the library and the device contribute is the environment: error numbers of reads and writes of blocks
  and inodes, of the allocator, of \<open>ext2fs_check_directory\<close> and of \<open>ext2fs_block_iterate3\<close> itself, and the blocks the latter
  visits for an inode, each with its logical number, which is negative for the blocks of the block map.
\<close>

record filsys =
  fs_magic :: nat
  fs_flags :: u32
  fs_blocksize :: nat
  fs_incompat :: u32
  fs_disk :: "nat \<Rightarrow> u8 list"
  fs_iflags :: "nat \<Rightarrow> u32"

record fs_env =
  fe_mem :: "nat \<Rightarrow> bool"
  fe_read :: "nat \<Rightarrow> nat"
  fe_write :: "nat \<Rightarrow> nat"
  fe_read_inode :: "nat \<Rightarrow> nat"
  fe_write_inode :: "nat \<Rightarrow> nat"
  fe_check :: "nat \<Rightarrow> nat"
  fe_iterate :: "nat \<Rightarrow> nat"
  fe_blocks :: "nat \<Rightarrow> (int \<times> nat) list"

text \<open>The check of \<open>ext2fs_read_dir_block3\<close>: a record length that cannot be right counts as eight bytes.\<close>

function read_check :: "nat \<Rightarrow> u8 list \<Rightarrow> nat \<Rightarrow> nat \<Rightarrow> nat option" where
  "read_check bs d p retval =
     (if p + 8 < bs then
        case de_name_len d p of
          None \<Rightarrow> None
        | Some nl \<Rightarrow>
            case ext2fs_get_rec_len bs d p of
              None \<Rightarrow> None
            | Some rec_len \<Rightarrow>
                if rec_len < 8 \<or> rec_len mod 4 \<noteq> 0 then read_check bs d (p + 8) EXT2_ET_DIR_CORRUPTED
                else read_check bs d (p + rec_len) (if rec_len < name_size nl + 8 then EXT2_ET_DIR_CORRUPTED else 0)
      else Some retval)"
  by pat_completeness auto
termination
  by (relation "measure (\<lambda>(bs, d, p, retval). bs - p)") auto

declare read_check.simps [simp del]

definition ext2fs_read_dir_block3 :: "fs_env \<Rightarrow> filsys \<Rightarrow> nat \<Rightarrow> (u8 list \<times> nat) option" where
  "ext2fs_read_dir_block3 env fs block =
     (if fe_read env block \<noteq> 0 then Some ([], fe_read env block)
      else map_option (\<lambda>r. (fs_disk fs block, r)) (read_check (fs_blocksize fs) (fs_disk fs block) 0 0))"

definition ext2fs_write_dir_block3 :: "fs_env \<Rightarrow> filsys \<Rightarrow> nat \<Rightarrow> u8 list \<Rightarrow> filsys \<times> nat" where
  "ext2fs_write_dir_block3 env fs block buf =
     (if fe_write env block \<noteq> 0 then (fs, fe_write env block)
      else (fs\<lparr>fs_disk := (fs_disk fs)(block := buf)\<rparr>, 0))"

text \<open>The callback of the block iteration: the file system, the private data, \<open>ctx->errcode\<close>, and whether to stop.\<close>

definition ext2fs_process_dir_block ::
  "fs_env \<Rightarrow> nat \<Rightarrow> 'p dir_func \<Rightarrow> filsys \<Rightarrow> nat \<Rightarrow> int \<Rightarrow> 'p \<Rightarrow> nat \<Rightarrow> (filsys \<times> 'p \<times> nat \<times> bool) option" where
  "ext2fs_process_dir_block env flags func fs blocknr blockcnt p errcode =
     (if blockcnt < 0 then Some (fs, p, errcode, False)
      else do {
        (buf, err) \<leftarrow> ext2fs_read_dir_block3 env fs blocknr;
        if err \<noteq> 0 then Some (fs, p, err, True)
        else do {
          (buf', p', changed, how) \<leftarrow> dir_loop (fs_blocksize fs) flags func 0 0
            (if blockcnt \<noteq> 0 then DIRENT_OTHER_FILE else DIRENT_DOT_FILE) False buf p;
          if how = Corrupted then Some (fs, p', EXT2_ET_DIR_CORRUPTED, True)
          else if changed then
            let (fs', werr) = ext2fs_write_dir_block3 env fs blocknr buf'
            in Some (fs', p', werr, werr \<noteq> 0 \<or> how = Aborted)
          else Some (fs, p', 0, how = Aborted)
        }
      })"

text \<open>\<open>ext2fs_block_iterate3\<close> with \<open>BLOCK_FLAG_READ_ONLY\<close>: the blocks in order until the callback stops.\<close>

primrec iterate_blocks ::
  "fs_env \<Rightarrow> nat \<Rightarrow> 'p dir_func \<Rightarrow> (int \<times> nat) list \<Rightarrow> filsys \<Rightarrow> 'p \<Rightarrow> nat \<Rightarrow> (filsys \<times> 'p \<times> nat) option" where
  "iterate_blocks env flags func [] fs p errcode = Some (fs, p, errcode)"
| "iterate_blocks env flags func (b # bl) fs p errcode = do {
     (fs', p', errcode', stop) \<leftarrow> ext2fs_process_dir_block env flags func fs (snd b) (fst b) p errcode;
     if stop then Some (fs', p', errcode') else iterate_blocks env flags func bl fs' p' errcode'
   }"

definition ext2fs_dir_iterate2 ::
  "fs_env \<Rightarrow> filsys \<Rightarrow> nat \<Rightarrow> nat \<Rightarrow> bool \<Rightarrow> 'p dir_func \<Rightarrow> 'p \<Rightarrow> (filsys \<times> 'p \<times> nat) option" where
  "ext2fs_dir_iterate2 env fs dir flags has_buf func p =
     (if fs_magic fs \<noteq> EXT2_ET_MAGIC_EXT2FS_FILSYS then Some (fs, p, EXT2_ET_MAGIC_EXT2FS_FILSYS)
      else if fe_check env dir \<noteq> 0 then Some (fs, p, fe_check env dir)
      else if \<not> has_buf \<and> \<not> fe_mem env (fs_blocksize fs) then Some (fs, p, EXT2_ET_NO_MEMORY)
      else if fe_iterate env dir \<noteq> 0 then Some (fs, p, fe_iterate env dir)
      else iterate_blocks env flags func (fe_blocks env dir) fs p 0)"

text \<open>\<open>ext2fs_dir_iterate\<close> passes a callback that does not want the kind of entry.\<close>

definition xlate_func :: "(nat \<Rightarrow> u8 list \<Rightarrow> 'p \<Rightarrow> (u8 list \<times> 'p \<times> bool \<times> bool) option) \<Rightarrow> 'p dir_func" where
  "xlate_func func entry = func"

definition ext2fs_dir_iterate ::
  "fs_env \<Rightarrow> filsys \<Rightarrow> nat \<Rightarrow> nat \<Rightarrow> bool \<Rightarrow> (nat \<Rightarrow> u8 list \<Rightarrow> 'p \<Rightarrow> (u8 list \<times> 'p \<times> bool \<times> bool) option) \<Rightarrow> 'p \<Rightarrow>
   (filsys \<times> 'p \<times> nat) option" where
  "ext2fs_dir_iterate env fs dir flags has_buf func p = ext2fs_dir_iterate2 env fs dir flags has_buf (xlate_func func) p"

subsection \<open>Adding, removing and finding entries\<close>

record link_struct =
  ls_name :: "u8 list"
  ls_namelen :: nat
  ls_inode :: u32
  ls_flags :: u16
  ls_done :: nat
  ls_err :: nat

text \<open>
  The next entry, when it is unused, is absorbed: the block, the length of the entry, the error number and whether
  the block was changed.
\<close>

definition link_absorb :: "nat \<Rightarrow> nat \<Rightarrow> nat \<Rightarrow> u8 list \<Rightarrow> (u8 list \<times> nat \<times> nat \<times> bool) option" where
  "link_absorb bs offset curr_rec_len d =
     (if offset + curr_rec_len + 8 < bs then do {
        ino \<leftarrow> de_inode d (offset + curr_rec_len);
        next_len \<leftarrow> de_rec_len d (offset + curr_rec_len);
        if ino = 0 \<and> offset + curr_rec_len + unat next_len \<le> bs then do {
          (d', err) \<leftarrow> ext2fs_set_rec_len bs (curr_rec_len + unat next_len) d offset;
          Some (d', curr_rec_len + unat next_len, err, err = 0)
        } else Some (d, curr_rec_len, 0, False)
      } else Some (d, curr_rec_len, 0, False))"

text \<open>An entry in use is cut to the length of its name when the new name fits behind it.\<close>

definition link_split :: "nat \<Rightarrow> nat \<Rightarrow> nat \<Rightarrow> nat \<Rightarrow> bool \<Rightarrow> u8 list \<Rightarrow> link_struct \<Rightarrow>
    (u8 list \<times> link_struct \<times> bool \<times> bool) option" where
  "link_split bs offset curr_rec_len rec_len ret d ls = do {
     nl \<leftarrow> de_name_len d offset;
     let min_rec_len = EXT2_DIR_REC_LEN (name_size nl);
     if curr_rec_len < min_rec_len + rec_len then Some (d, ls, ret, False)
     else do {
       (d1, err) \<leftarrow> ext2fs_set_rec_len bs min_rec_len d offset;
       if err \<noteq> 0 then Some (d1, ls\<lparr>ls_err := err\<rparr>, False, True)
       else do {
         len \<leftarrow> de_rec_len d1 offset;
         d2 \<leftarrow> block_write d1 (offset + unat len) (le32 0);
         d3 \<leftarrow> block_write d2 (offset + unat len + 6) (le16 0);
         (d4, err') \<leftarrow> ext2fs_set_rec_len bs (curr_rec_len - min_rec_len) d3 (offset + unat len);
         if err' \<noteq> 0 then Some (d4, ls\<lparr>ls_err := err'\<rparr>, False, True)
         else Some (d4, ls, True, False)
       }
     }
   }"

definition link_proc :: "nat \<Rightarrow> u32 \<Rightarrow> nat \<Rightarrow> u8 list \<Rightarrow> link_struct \<Rightarrow> (u8 list \<times> link_struct \<times> bool \<times> bool) option" where
  "link_proc bs incompat offset d ls =
     (if ls_done ls \<noteq> 0 then Some (d, ls, False, True)
      else do {
        let rec_len = EXT2_DIR_REC_LEN (ls_namelen ls);
        curr \<leftarrow> ext2fs_get_rec_len bs d offset;
        (d1, curr_rec_len, err, ret) \<leftarrow> link_absorb bs offset curr d;
        if err \<noteq> 0 then Some (d1, ls\<lparr>ls_err := err\<rparr>, False, True)
        else do {
          ino \<leftarrow> de_inode d1 offset;
          if ino \<noteq> 0 then link_split bs offset curr_rec_len rec_len ret d1 ls
          else if curr_rec_len < rec_len then Some (d1, ls, ret, False)
          else do {
            d2 \<leftarrow> block_write d1 offset (le32 (ls_inode ls));
            d3 \<leftarrow> block_write d2 (offset + 6) (le16 (of_nat (ls_namelen ls)));
            d4 \<leftarrow> block_write d3 (offset + 8) (ls_name ls);
            d5 \<leftarrow> (if incompat AND EXT2_FEATURE_INCOMPAT_FILETYPE \<noteq> 0
                    then block_write d4 (offset + 6) (le16 (of_nat (ls_namelen ls) OR push_bit 8 (ls_flags ls AND 7)))
                    else Some d4);
            Some (d5, ls\<lparr>ls_done := ls_done ls + 1\<rparr>, True, True)
          }
        }
      })"

text \<open>A null name is the empty one. On success the hash index of the directory is switched off.\<close>

definition ext2fs_link :: "fs_env \<Rightarrow> filsys \<Rightarrow> nat \<Rightarrow> u8 list \<Rightarrow> u32 \<Rightarrow> u16 \<Rightarrow> (filsys \<times> nat) option" where
  "ext2fs_link env fs dir name ino flags =
     (if fs_magic fs \<noteq> EXT2_ET_MAGIC_EXT2FS_FILSYS then Some (fs, EXT2_ET_MAGIC_EXT2FS_FILSYS)
      else if fs_flags fs AND EXT2_FLAG_RW = 0 then Some (fs, EXT2_ET_RO_FILSYS)
      else do {
        (fs1, ls, retval) \<leftarrow> ext2fs_dir_iterate env fs dir 1 False (link_proc (fs_blocksize fs) (fs_incompat fs))
          \<lparr>ls_name = name, ls_namelen = length name, ls_inode = ino, ls_flags = flags, ls_done = 0, ls_err = 0\<rparr>;
        if retval \<noteq> 0 then Some (fs1, retval)
        else if ls_err ls \<noteq> 0 then Some (fs1, ls_err ls)
        else if ls_done ls = 0 then Some (fs1, EXT2_ET_DIR_NO_SPACE)
        else if fe_read_inode env dir \<noteq> 0 then Some (fs1, fe_read_inode env dir)
        else if fs_iflags fs1 dir AND EXT2_INDEX_FL \<noteq> 0 then
          if fe_write_inode env dir \<noteq> 0 then Some (fs1, fe_write_inode env dir)
          else Some (fs1\<lparr>fs_iflags := (fs_iflags fs1)(dir := fs_iflags fs1 dir AND NOT EXT2_INDEX_FL)\<rparr>, 0)
        else Some (fs1, 0)
      })"

text \<open>\<open>strncmp\<close> of \<open>n\<close> characters is zero.\<close>

fun strncmp_eq :: "nat \<Rightarrow> u8 list \<Rightarrow> u8 list \<Rightarrow> bool" where
  "strncmp_eq 0 a b = True"
| "strncmp_eq (Suc n) a b =
     (let x = (case a of [] \<Rightarrow> 0 | c # _ \<Rightarrow> c); y = (case b of [] \<Rightarrow> 0 | c # _ \<Rightarrow> c)
      in x = y \<and> (x = 0 \<or> strncmp_eq n (tl a) (tl b)))"

record unlink_struct =
  us_name :: "u8 list option"
  us_namelen :: nat
  us_inode :: u32
  us_prev :: "nat option"
  us_done :: nat

definition unlink_proc :: "nat \<Rightarrow> u8 list \<Rightarrow> unlink_struct \<Rightarrow> (u8 list \<times> unlink_struct \<times> bool \<times> bool) option" where
  "unlink_proc offset d us = do {
     let us' = us\<lparr>us_prev := Some offset\<rparr>;
     nl \<leftarrow> de_name_len d offset;
     same \<leftarrow> (case us_name us of
                None \<Rightarrow> Some True
              | Some name \<Rightarrow>
                  if name_size nl \<noteq> us_namelen us then Some False
                  else map_option (strncmp_eq (name_size nl) name) (block_read d (offset + 8) (name_size nl)));
     ino \<leftarrow> de_inode d offset;
     if \<not> same then Some (d, us', False, False)
     else if (if us_inode us \<noteq> 0 then ino \<noteq> us_inode us else ino = 0) then Some (d, us', False, False)
     else if offset \<noteq> 0 then do {
       prev \<leftarrow> us_prev us;
       prev_len \<leftarrow> de_rec_len d prev;
       len \<leftarrow> de_rec_len d offset;
       d' \<leftarrow> block_write d (prev + 4) (le16 (prev_len + len));
       Some (d', us'\<lparr>us_done := us_done us + 1\<rparr>, True, True)
     } else do {
       d' \<leftarrow> block_write d offset (le32 0);
       Some (d', us'\<lparr>us_done := us_done us + 1\<rparr>, True, True)
     }
   }"

definition ext2fs_unlink :: "fs_env \<Rightarrow> filsys \<Rightarrow> nat \<Rightarrow> u8 list option \<Rightarrow> u32 \<Rightarrow> (filsys \<times> nat) option" where
  "ext2fs_unlink env fs dir name ino =
     (if fs_magic fs \<noteq> EXT2_ET_MAGIC_EXT2FS_FILSYS then Some (fs, EXT2_ET_MAGIC_EXT2FS_FILSYS)
      else if name = None \<and> ino = 0 then Some (fs, EXT2_ET_INVALID_ARGUMENT)
      else if fs_flags fs AND EXT2_FLAG_RW = 0 then Some (fs, EXT2_ET_RO_FILSYS)
      else do {
        (fs1, us, retval) \<leftarrow> ext2fs_dir_iterate env fs dir 1 False unlink_proc
          \<lparr>us_name = name, us_namelen = (case name of None \<Rightarrow> 0 | Some n \<Rightarrow> length n), us_inode = ino, us_prev = None, us_done = 0\<rparr>;
        if retval \<noteq> 0 then Some (fs1, retval)
        else if us_done us \<noteq> 0 then Some (fs1, 0) else Some (fs1, EXT2_ET_DIR_NO_SPACE)
      })"

text \<open>The private data of \<open>lookup_proc\<close>: \<open>name\<close> and \<open>len\<close> do not change, the state is the inode found.\<close>

definition lookup_proc :: "u8 list \<Rightarrow> nat \<Rightarrow> nat \<Rightarrow> u8 list \<Rightarrow> u32 option \<Rightarrow> (u8 list \<times> u32 option \<times> bool \<times> bool) option" where
  "lookup_proc name len offset d found = do {
     nl \<leftarrow> de_name_len d offset;
     if len \<noteq> name_size nl then Some (d, found, False, False)
     else do {
       bytes \<leftarrow> block_read d (offset + 8) (name_size nl);
       if \<not> strncmp_eq (name_size nl) name bytes then Some (d, found, False, False)
       else do {
         ino \<leftarrow> de_inode d offset;
         Some (d, Some ino, False, True)
       }
     }
   }"

text \<open>The error number, and the inode when it is zero.\<close>

definition ext2fs_lookup :: "fs_env \<Rightarrow> filsys \<Rightarrow> nat \<Rightarrow> u8 list \<Rightarrow> nat \<Rightarrow> bool \<Rightarrow> (nat \<times> u32 option) option" where
  "ext2fs_lookup env fs dir name namelen has_buf =
     (if fs_magic fs \<noteq> EXT2_ET_MAGIC_EXT2FS_FILSYS then Some (EXT2_ET_MAGIC_EXT2FS_FILSYS, None)
      else do {
        (fs1, found, retval) \<leftarrow> ext2fs_dir_iterate env fs dir 0 has_buf (lookup_proc name namelen) None;
        if retval \<noteq> 0 then Some (retval, found)
        else if found = None then Some (EXT2_ET_FILE_NOT_FOUND, None) else Some (0, found)
      })"

text \<open>A new directory block: one unused entry, or the entries \<open>.\<close> and \<open>..\<close>.\<close>

definition ext2fs_new_dir_block :: "fs_env \<Rightarrow> filsys \<Rightarrow> u32 \<Rightarrow> u32 \<Rightarrow> (nat + u8 list) option" where
  "ext2fs_new_dir_block env fs dir_ino parent_ino =
     (if fs_magic fs \<noteq> EXT2_ET_MAGIC_EXT2FS_FILSYS then Some (Inl EXT2_ET_MAGIC_EXT2FS_FILSYS)
      else if \<not> fe_mem env (fs_blocksize fs) then Some (Inl EXT2_ET_NO_MEMORY)
      else do {
        (d, retval) \<leftarrow> ext2fs_set_rec_len (fs_blocksize fs) (fs_blocksize fs) (replicate (fs_blocksize fs) 0) 0;
        if retval \<noteq> 0 then Some (Inl retval)
        else if dir_ino = 0 then Some (Inr d)
        else do {
          let filetype = (if fs_incompat fs AND EXT2_FEATURE_INCOMPAT_FILETYPE \<noteq> 0 then push_bit 8 EXT2_FT_DIR else 0);
          d1 \<leftarrow> block_write d 0 (le32 dir_ino);
          d2 \<leftarrow> block_write d1 6 (le16 (1 OR filetype));
          d3 \<leftarrow> block_write d2 8 [46];
          d4 \<leftarrow> block_write d3 4 (le16 (of_nat (EXT2_DIR_REC_LEN 1)));
          (d5, retval') \<leftarrow> ext2fs_set_rec_len (fs_blocksize fs) (fs_blocksize fs - EXT2_DIR_REC_LEN 1) d4 (EXT2_DIR_REC_LEN 1);
          if retval' \<noteq> 0 then Some (Inl retval')
          else do {
            d6 \<leftarrow> block_write d5 (EXT2_DIR_REC_LEN 1) (le32 parent_ino);
            d7 \<leftarrow> block_write d6 (EXT2_DIR_REC_LEN 1 + 6) (le16 (2 OR filetype));
            d8 \<leftarrow> block_write d7 (EXT2_DIR_REC_LEN 1 + 8) [46, 46];
            Some (Inr d8)
          }
        }
      })"

subsection \<open>Well-formed blocks\<close>

text \<open>An entry with everything up to the next one, and its image.\<close>

record dir_entry =
  e_ino :: u32
  e_nl :: u16
  e_area :: "u8 list"

abbreviation entry_size :: "dir_entry \<Rightarrow> nat" where
  "entry_size e \<equiv> 8 + length (e_area e)"

definition raw_entry :: "u32 \<Rightarrow> u16 \<Rightarrow> u16 \<Rightarrow> u8 list" where
  "raw_entry ino len nl = le32 ino @ le16 len @ le16 nl"

definition entry_bytes :: "dir_entry \<Rightarrow> u8 list" where
  "entry_bytes e = raw_entry (e_ino e) (of_nat (entry_size e)) (e_nl e) @ e_area e"

definition block_image :: "dir_entry list \<Rightarrow> u8 list" where
  "block_image es = concat (map entry_bytes es)"

definition entry_ok :: "dir_entry \<Rightarrow> bool" where
  "entry_ok e \<longleftrightarrow> entry_size e mod 4 = 0 \<and> name_size (e_nl e) \<le> length (e_area e)"

definition entries_ok :: "nat \<Rightarrow> dir_entry list \<Rightarrow> bool" where
  "entries_ok bs es \<longleftrightarrow> (\<forall>e \<in> set es. entry_ok e) \<and> length (block_image es) = bs \<and> 12 < bs \<and> bs < 65536"

text \<open>The entries in use, with their names, types and inodes.\<close>

definition e_name :: "dir_entry \<Rightarrow> u8 list" where
  "e_name e = take (name_size (e_nl e)) (e_area e)"

definition live :: "dir_entry list \<Rightarrow> (u8 list \<times> u16 \<times> u32) list" where
  "live es = map (\<lambda>e. (e_name e, drop_bit 8 (e_nl e), e_ino e)) (filter (\<lambda>e. e_ino e \<noteq> 0) es)"

lemma block_image_simps [simp]:
  "block_image [] = []" "block_image (e # es) = entry_bytes e @ block_image es" "block_image (es @ fs) = block_image es @ block_image fs"
  by (simp_all add: block_image_def)

lemma live_simps [simp]:
  "live [] = []" "live (es @ fs) = live es @ live fs"
  "live (e # es) = (if e_ino e \<noteq> 0 then [(e_name e, drop_bit 8 (e_nl e), e_ino e)] else []) @ live es"
  by (simp_all add: live_def)

lemma length_raw [simp]: "length (raw_entry ino len nl) = 8"
  by (simp add: raw_entry_def)

lemma length_entry_bytes [simp]: "length (entry_bytes e) = entry_size e"
  by (simp add: entry_bytes_def)

text \<open>Reading the fields of an entry that stands behind \<open>a\<close>.\<close>

lemma read_fields:
  assumes "i = length a"
  shows "de_inode (a @ raw_entry ino len nl @ z) i = Some ino"
    "de_rec_len (a @ raw_entry ino len nl @ z) i = Some len"
    "de_name_len (a @ raw_entry ino len nl @ z) i = Some nl"
proof -
  show "de_inode (a @ raw_entry ino len nl @ z) i = Some ino"
    using block_read_behind [of "le32 ino" 4 i a] assms by (simp add: de_inode_def raw_entry_def)
  show "de_rec_len (a @ raw_entry ino len nl @ z) i = Some len"
    using block_read_behind [of "le16 len" 2 "i + 4" "a @ le32 ino"] assms by (simp add: de_rec_len_def raw_entry_def)
  show "de_name_len (a @ raw_entry ino len nl @ z) i = Some nl"
    using block_read_behind [of "le16 nl" 2 "i + 6" "a @ le32 ino @ le16 len"] assms
    by (simp add: de_name_len_def raw_entry_def)
qed

lemma write_fields:
  assumes "i = length a"
  shows "block_write (a @ raw_entry ino len nl @ z) i (le32 ino') = Some (a @ raw_entry ino' len nl @ z)"
    "block_write (a @ raw_entry ino len nl @ z) (i + 4) (le16 len') = Some (a @ raw_entry ino len' nl @ z)"
    "block_write (a @ raw_entry ino len nl @ z) (i + 6) (le16 nl') = Some (a @ raw_entry ino len nl' @ z)"
proof -
  show "block_write (a @ raw_entry ino len nl @ z) i (le32 ino') = Some (a @ raw_entry ino' len nl @ z)"
    using block_write_behind [of "le32 ino'" "le32 ino" i a] assms by (simp add: raw_entry_def)
  show "block_write (a @ raw_entry ino len nl @ z) (i + 4) (le16 len') = Some (a @ raw_entry ino len' nl @ z)"
    using block_write_behind [of "le16 len'" "le16 len" "i + 4" "a @ le32 ino"] assms by (simp add: raw_entry_def)
  show "block_write (a @ raw_entry ino len nl @ z) (i + 6) (le16 nl') = Some (a @ raw_entry ino len nl' @ z)"
    using block_write_behind [of "le16 nl'" "le16 nl" "i + 6" "a @ le32 ino @ le16 len"] assms by (simp add: raw_entry_def)
qed

lemma entry_fields:
  assumes "i = length a"
  shows "de_inode (a @ entry_bytes e @ z) i = Some (e_ino e)"
    "de_rec_len (a @ entry_bytes e @ z) i = Some (of_nat (entry_size e))"
    "de_name_len (a @ entry_bytes e @ z) i = Some (e_nl e)"
  using read_fields [OF assms] by (simp_all add: entry_bytes_def)

lemma entry_name:
  assumes "i = length a" "n \<le> length (e_area e)"
  shows "block_read (a @ entry_bytes e @ z) (i + 8) n = Some (take n (e_area e))"
proof -
  have "a @ entry_bytes e @ z = (a @ raw_entry (e_ino e) (of_nat (entry_size e)) (e_nl e)) @ take n (e_area e) @ drop n (e_area e) @ z"
    by (simp add: entry_bytes_def flip: append_assoc)
  then show ?thesis using assms by (simp only:) (rule block_read_behind, simp_all)
qed

lemma size_code: "n < 65536 \<Longrightarrow> unat (of_nat n :: u16) = n"
  by (rule unat_of_nat_small) simp

lemma get_len:
  assumes "i = length a" "bs < 65536" "entry_size e \<le> bs"
  shows "ext2fs_get_rec_len bs (a @ entry_bytes e @ z) i = Some (entry_size e)"
proof -
  have "unat (of_nat (entry_size e) :: u16) = entry_size e" using assms(2, 3) by (intro size_code) linarith
  then show ?thesis using assms(2) by (simp add: ext2fs_get_rec_len_def entry_fields [OF assms(1)] del: of_nat_add)
qed

lemma set_len:
  assumes "i = length a" "bs < 65536" "len \<le> bs" "len mod 4 = 0"
  shows "ext2fs_set_rec_len bs len (a @ raw_entry ino l nl @ z) i = Some (a @ raw_entry ino (of_nat len) nl @ z, 0)"
  using assms by (simp add: ext2fs_set_rec_len_def rec_len_code_def write_fields)

text \<open>The entries of a block, and what makes a block well formed.\<close>

function dir_entries :: "u8 list \<Rightarrow> dir_entry list" where
  "dir_entries d =
     (if length d < 8 then []
      else let n = max 8 (unat (of_le16 (slice 4 2 d)))
        in \<lparr>e_ino = of_le32 (slice 0 4 d), e_nl = of_le16 (slice 6 2 d), e_area = slice 8 (n - 8) d\<rparr> # dir_entries (drop n d))"
  by pat_completeness auto
termination
  by (relation "measure length") auto

declare dir_entries.simps [simp del]

definition block_ok :: "nat \<Rightarrow> u8 list \<Rightarrow> bool" where
  "block_ok bs d \<longleftrightarrow> block_image (dir_entries d) = d \<and> entries_ok bs (dir_entries d)"

lemma dir_entries_image: "\<forall>e \<in> set es. entry_size e < 65536 \<Longrightarrow> dir_entries (block_image es) = es"
proof (induction es)
  case Nil
  then show ?case by (simp add: dir_entries.simps)
next
  case (Cons e es)
  have n: "unat (of_nat (entry_size e) :: u16) = entry_size e" using Cons.prems by (intro size_code) simp
  have s: "slice 4 2 (block_image (e # es)) = le16 (of_nat (entry_size e))" "slice 0 4 (block_image (e # es)) = le32 (e_ino e)"
    "slice 6 2 (block_image (e # es)) = le16 (e_nl e)" "slice 8 (entry_size e - 8) (block_image (e # es)) = e_area e"
    by (simp_all add: entry_bytes_def raw_entry_def slice_def)
  have d: "drop (entry_size e) (block_image (e # es)) = block_image es" by simp
  have l: "\<not> length (block_image (e # es)) < 8" by simp
  have m: "max 8 (entry_size e) = entry_size e" by simp
  show ?case
    unfolding dir_entries.simps [of "block_image (e # es)"] Let_def if_not_P [OF l] s(1-3) of_le_images n m s(4) d
    using Cons by simp
qed

lemma image_bound: "e \<in> set es \<Longrightarrow> entry_size e \<le> length (block_image es)"
  by (induction es) auto

lemma entries_okD:
  assumes "entries_ok bs es"
  shows "dir_entries (block_image es) = es" "block_ok bs (block_image es)" "e \<in> set es \<Longrightarrow> entry_size e \<le> bs"
proof -
  have "\<forall>e \<in> set es. entry_size e < 65536"
    using assms image_bound [of _ es] unfolding entries_ok_def by fastforce
  then show r: "dir_entries (block_image es) = es" by (rule dir_entries_image)
  show "block_ok bs (block_image es)" using assms by (simp add: block_ok_def r)
  show "entry_size e \<le> bs" if "e \<in> set es" using assms image_bound [OF that] by (simp add: entries_ok_def)
qed

lemma read_check_image:
  "entries_ok bs (pre @ es) \<Longrightarrow> read_check bs (block_image (pre @ es)) (length (block_image pre)) 0 = Some 0"
proof (induction es arbitrary: pre)
  case Nil
  then show ?case by (simp add: read_check.simps entries_ok_def)
next
  case (Cons e es)
  have ok: "entry_ok e" using Cons.prems by (simp add: entries_ok_def)
  have bs: "bs < 65536" using Cons.prems by (simp add: entries_ok_def)
  have "ext2fs_get_rec_len bs (block_image (pre @ e # es)) (length (block_image pre)) = Some (entry_size e)"
    using get_len [OF refl bs, of e "block_image pre" "block_image es"] entries_okD(3) [OF Cons.prems, of e] by simp
  moreover have "de_name_len (block_image (pre @ e # es)) (length (block_image pre)) = Some (e_nl e)"
    using entry_fields(3) [OF refl, of "block_image pre" e "block_image es"] by simp
  moreover have "read_check bs (block_image (pre @ e # es)) (length (block_image pre) + entry_size e) 0 = Some 0"
    using Cons.IH [of "pre @ [e]"] Cons.prems by (simp add: add.assoc)
  ultimately show ?case
    unfolding read_check.simps [of bs "block_image (pre @ e # es)" "length (block_image pre)"]
    using ok by (simp add: entry_ok_def)
qed

text \<open>The blocks of a directory, a device and a library without errors, and a directory all of whose blocks are well formed.\<close>

definition data_blocks :: "(int \<times> nat) list \<Rightarrow> nat list" where
  "data_blocks bl = map snd (filter (\<lambda>b. 0 \<le> fst b) bl)"

definition healthy :: "fs_env \<Rightarrow> nat \<Rightarrow> bool" where
  "healthy env dir \<longleftrightarrow> (\<forall>b \<in> set (data_blocks (fe_blocks env dir)). fe_read env b = 0 \<and> fe_write env b = 0) \<and>
     (\<forall>n. fe_mem env n) \<and> fe_check env dir = 0 \<and> fe_iterate env dir = 0 \<and> fe_read_inode env dir = 0 \<and>
     fe_write_inode env dir = 0 \<and> distinct (data_blocks (fe_blocks env dir))"

definition dir_ok :: "fs_env \<Rightarrow> nat \<Rightarrow> filsys \<Rightarrow> bool" where
  "dir_ok env dir fs \<longleftrightarrow> fs_magic fs = EXT2_ET_MAGIC_EXT2FS_FILSYS \<and> fs_flags fs AND EXT2_FLAG_RW \<noteq> 0 \<and>
     (\<forall>b \<in> set (data_blocks (fe_blocks env dir)). block_ok (fs_blocksize fs) (fs_disk fs b))"

text \<open>The outcome of a scan: every block was passed, or it stopped in one of them and the later ones are as before.\<close>

definition scanned ::
  "(dir_entry list \<Rightarrow> dir_entry list \<Rightarrow> bool) \<Rightarrow> (dir_entry list \<Rightarrow> dir_entry list \<Rightarrow> bool) \<Rightarrow>
   (nat \<Rightarrow> u8 list) \<Rightarrow> (nat \<Rightarrow> u8 list) \<Rightarrow> nat list \<Rightarrow> bool \<Rightarrow> bool" where
  "scanned passed stopped disk disk' bl stop \<longleftrightarrow>
     (if stop then \<exists>xs b ys. bl = xs @ b # ys \<and> (\<forall>x \<in> set xs. passed (dir_entries (disk x)) (dir_entries (disk' x))) \<and>
        stopped (dir_entries (disk b)) (dir_entries (disk' b)) \<and> (\<forall>y \<in> set ys. disk' y = disk y)
      else \<forall>x \<in> set bl. passed (dir_entries (disk x)) (dir_entries (disk' x)))"

lemma scanned_Cons:
  assumes "passed (dir_entries (disk b)) (dir_entries (disk' b))" "scanned passed stopped disk disk' bl stop"
  shows "scanned passed stopped disk disk' (b # bl) stop"
proof (cases stop)
  case True
  then obtain xs c ys where "bl = xs @ c # ys" "\<forall>x \<in> set xs. passed (dir_entries (disk x)) (dir_entries (disk' x))"
    "stopped (dir_entries (disk c)) (dir_entries (disk' c))" "\<forall>y \<in> set ys. disk' y = disk y"
    using assms(2) by (auto simp: scanned_def)
  then show ?thesis using assms(1) True unfolding scanned_def
    by (simp only: if_True) (intro exI [of _ "b # xs"] exI [of _ c] exI [of _ ys], simp)
qed (use assms in \<open>simp add: scanned_def\<close>)

lemma scanned_cong:
  assumes "scanned passed stopped disk1 disk' bl stop" "\<And>x. x \<in> set bl \<Longrightarrow> disk1 x = disk2 x"
  shows "scanned passed stopped disk2 disk' bl stop"
proof (cases stop)
  case True
  then obtain xs b ys where bl: "bl = xs @ b # ys" and r: "\<forall>x \<in> set xs. passed (dir_entries (disk1 x)) (dir_entries (disk' x))"
    "stopped (dir_entries (disk1 b)) (dir_entries (disk' b))" "\<forall>y \<in> set ys. disk' y = disk1 y"
    using assms(1) by (auto simp: scanned_def)
  have "\<forall>x \<in> set xs \<union> {b} \<union> set ys. disk1 x = disk2 x" using assms(2) unfolding bl by auto
  then show ?thesis using r True bl unfolding scanned_def
    by (simp only: if_True) (intro exI [of _ xs] exI [of _ b] exI [of _ ys], simp)
qed (use assms in \<open>simp add: scanned_def\<close>)

subsection \<open>The scan as a contract\<close>

text \<open>
  What a callback owes on well-formed blocks, and what the scan of a block and of a directory give in return. \<open>inv\<close> relates
  the entries a block had at first to the private data, the entries passed and the entries to come; \<open>fin\<close> holds when the
  callback stops the scan; \<open>start\<close> of the private data holds at the beginning of every block.
\<close>

locale dir_scan =
  fixes bs :: nat and flags :: nat
    and func :: "nat \<Rightarrow> u8 list \<Rightarrow> 'p \<Rightarrow> (u8 list \<times> 'p \<times> bool \<times> bool) option"
    and start :: "'p \<Rightarrow> bool"
    and inv :: "dir_entry list \<Rightarrow> 'p \<Rightarrow> dir_entry list \<Rightarrow> dir_entry list \<Rightarrow> bool"
    and fin :: "dir_entry list \<Rightarrow> 'p \<Rightarrow> dir_entry list \<Rightarrow> bool"
  assumes not_removed: "flags < 2"
    and enter: "start p \<Longrightarrow> entries_ok bs es \<Longrightarrow> inv es p [] es"
    and leave: "inv es p es' [] \<Longrightarrow> start p"
    and skip: "even flags \<Longrightarrow> e_ino e = 0 \<Longrightarrow> inv es p pre (e # rest) \<Longrightarrow> inv es p (pre @ [e]) rest"
    and step: "inv es p pre (e # rest) \<Longrightarrow> entries_ok bs (pre @ e # rest) \<Longrightarrow> odd flags \<or> e_ino e \<noteq> 0 \<Longrightarrow>
      \<exists>es' p' ch ab. func (length (block_image pre)) (block_image (pre @ e # rest)) p = Some (block_image es', p', ch, ab) \<and>
        entries_ok bs es' \<and> (\<not> ch \<longrightarrow> es' = pre @ e # rest) \<and>
        (if ab then fin es p' es' else \<exists>e' rest'. es' = pre @ e' # rest' \<and> inv es p' (pre @ [e']) rest')"
begin

lemma scan_block:
  "inv es p pre rest \<Longrightarrow> entries_ok bs (pre @ rest) \<Longrightarrow>
   \<exists>es' p' ch how. dir_loop bs flags (xlate_func func) (length (block_image pre)) next_real entry changed (block_image (pre @ rest)) p =
       Some (block_image es', p', changed \<or> ch, how) \<and> entries_ok bs es' \<and> (\<not> ch \<longrightarrow> es' = pre @ rest) \<and>
     (how = Finished \<and> inv es p' es' [] \<or> how = Aborted \<and> fin es p' es')"
proof (induction "length (block_image rest)" arbitrary: p pre rest next_real entry changed rule: less_induct)
  case less
  show ?case
  proof (cases rest)
    case Nil
    then have "\<not> length (block_image pre) < bs" using less.prems(2) by (simp add: entries_ok_def)
    then have "dir_loop bs flags (xlate_func func) (length (block_image pre)) next_real entry changed (block_image (pre @ rest)) p =
        Some (block_image (pre @ rest), p, changed \<or> False, Finished)"
      by (simp add: dir_loop.simps [of bs flags "xlate_func func" "length (block_image pre)"])
    then show ?thesis using less.prems Nil by (intro exI conjI) auto
  next
    case (Cons e es2)
    let ?i = "length (block_image pre)" and ?d = "block_image (pre @ e # es2)"
    note ok = less.prems(2) [unfolded Cons]
    have bs: "bs < 65536" and e: "entry_ok e" and i: "?i + entry_size e \<le> bs" using ok by (auto simp: entries_ok_def)
    have f: "ext2fs_get_rec_len bs ?d ?i = Some (entry_size e)" "de_name_len ?d ?i = Some (e_nl e)" "de_inode ?d ?i = Some (e_ino e)"
      using get_len [OF refl bs, of e "block_image pre" "block_image es2"] entry_fields [OF refl, of "block_image pre" e "block_image es2"] i by simp_all
    have sane: "\<not> (bs < ?i + entry_size e \<or> entry_size e < 8 \<or> entry_size e mod 4 \<noteq> 0 \<or> entry_size e < name_size (e_nl e) + 8)"
      using e i by (simp add: entry_ok_def)
    have lt: "?i < bs" using i by simp
    have nxt: "dir_next bs flags d o' n = Some (o' + n)" for d o' n using not_removed by (simp add: dir_next_def)
    note unfold = dir_loop.simps [of bs flags "xlate_func func" ?i] if_P [OF lt] f Option.bind_lunit if_not_P [OF sane]
    show ?thesis
    proof (cases "e_ino e = 0 \<and> even flags")
      case True
      have "dir_loop bs flags (xlate_func func) ?i next_real entry changed ?d p =
          dir_loop bs flags (xlate_func func) (length (block_image (pre @ [e])))
            (if next_real = ?i then next_real + entry_size e else next_real) entry changed (block_image ((pre @ [e]) @ es2)) p"
        unfolding unfold nxt using True by simp
      then show ?thesis
        using less.hyps [of es2 p "pre @ [e]"] skip [of e es p pre es2] less.prems(1) ok True unfolding Cons by simp
    next
      case False
      then obtain es' p' ch ab where s: "func ?i ?d p = Some (block_image es', p', ch, ab)" "entries_ok bs es'"
        "\<not> ch \<longrightarrow> es' = pre @ e # es2"
        "if ab then fin es p' es' else \<exists>e' rest'. es' = pre @ e' # rest' \<and> inv es p' (pre @ [e']) rest'"
        using step [OF less.prems(1) [unfolded Cons] ok] by blast
      have len: "length (block_image es') = bs" "length ?d = bs" using s(2) ok by (simp_all only: entries_ok_def)
      show ?thesis
      proof (cases ab)
        case True
        have "\<exists>l. (if ch then ext2fs_get_rec_len bs (block_image es') ?i else Some (entry_size e)) = Some l"
          using len i by (simp add: ext2fs_get_rec_len_def de_rec_len_def block_read_def Let_def)
        then obtain l where l: "(if ch then ext2fs_get_rec_len bs (block_image es') ?i else Some (entry_size e)) = Some l" by blast
        have "dir_loop bs flags (xlate_func func) ?i next_real entry changed ?d p = Some (block_image es', p', changed \<or> ch, Aborted)"
          unfolding unfold if_not_P [OF False] xlate_func_def s(1) Option.bind_lunit prod.case Let_def l using True by simp
        then show ?thesis using s(2-4) True unfolding Cons by auto
      next
        case go: False
        then obtain e' rest' where e': "es' = pre @ e' # rest'" "inv es p' (pre @ [e']) rest'" using s(4) by auto
        have "entry_size e' \<le> bs" using entries_okD(3) [OF s(2), of e'] e'(1) by simp
        then have "ext2fs_get_rec_len bs (block_image es') ?i = Some (entry_size e')"
          using get_len [OF refl bs, of e' "block_image pre" "block_image rest'"] e'(1) by simp
        then have l: "(if ch then ext2fs_get_rec_len bs (block_image es') ?i else Some (entry_size e)) = Some (entry_size e')"
          using s(3) e'(1) by simp
        let ?nr = "if next_real = ?i then next_real + entry_size e' else next_real"
        let ?en = "if entry < DIRENT_OTHER_FILE then entry + 1 else entry"
        have eq: "dir_loop bs flags (xlate_func func) ?i next_real entry changed ?d p =
            dir_loop bs flags (xlate_func func) (length (block_image (pre @ [e']))) ?nr ?en (changed \<or> ch) (block_image ((pre @ [e']) @ rest')) p'"
          unfolding unfold if_not_P [OF False] xlate_func_def s(1) Option.bind_lunit prod.case Let_def l if_not_P [OF go] nxt
            by (simp add: e'(1))
        have "length (block_image rest') < length (block_image rest)" using len e'(1) unfolding Cons by simp
        moreover have "entries_ok bs ((pre @ [e']) @ rest')" using s(2) e'(1) by simp
        ultimately obtain es3 p3 ch3 how where r:
          "dir_loop bs flags (xlate_func func) ?i next_real entry changed ?d p = Some (block_image es3, p3, (changed \<or> ch) \<or> ch3, how)"
          "entries_ok bs es3" "\<not> ch3 \<longrightarrow> es3 = (pre @ [e']) @ rest'" "how = Finished \<and> inv es p3 es3 [] \<or> how = Aborted \<and> fin es p3 es3"
          using less.hyps [OF _ e'(2), of ?nr ?en "changed \<or> ch"] unfolding eq by blast
        have "\<not> (ch \<or> ch3) \<longrightarrow> es3 = pre @ e # es2" using r(3) s(3) e'(1) by simp
        then show ?thesis using r(1, 2, 4) unfolding Cons disj_assoc by blast
      qed
    qed
  qed
qed

text \<open>A block on the device, and the blocks of a directory.\<close>

lemma process_block:
  assumes fs: "fs_blocksize fs = bs" "fe_read env b = 0" "fe_write env b = 0"
    and ok: "block_ok bs (fs_disk fs b)" and p: "start p" and c: "0 \<le> c"
  shows "\<exists>es' p' stop. ext2fs_process_dir_block env flags (xlate_func func) fs b c p 0 =
      Some (fs\<lparr>fs_disk := (fs_disk fs)(b := block_image es')\<rparr>, p', 0, stop) \<and> entries_ok bs es' \<and>
    (if stop then fin (dir_entries (fs_disk fs b)) p' es' else inv (dir_entries (fs_disk fs b)) p' es' [])"
proof -
  define es where "es = dir_entries (fs_disk fs b)"
  have es: "block_image es = fs_disk fs b" "entries_ok bs es" using ok by (simp_all add: block_ok_def es_def)
  have "read_check bs (block_image es) 0 0 = Some 0" using read_check_image [of bs "[]" es] es(2) by simp
  then have r: "ext2fs_read_dir_block3 env fs b = Some (block_image es, 0)"
    using fs es(1) by (simp add: ext2fs_read_dir_block3_def)
  let ?en = "if c \<noteq> 0 then DIRENT_OTHER_FILE else DIRENT_DOT_FILE"
  obtain es' p' ch how where s: "dir_loop bs flags (xlate_func func) 0 0 ?en False (block_image es) p = Some (block_image es', p', ch, how)"
    "entries_ok bs es'" "\<not> ch \<longrightarrow> es' = es" "how = Finished \<and> inv es p' es' [] \<or> how = Aborted \<and> fin es p' es'"
    using scan_block [OF enter [OF p es(2)], of 0 ?en False] es(2) by auto
  have same: "fs\<lparr>fs_disk := (fs_disk fs)(b := block_image es')\<rparr> = fs" if "\<not> ch"
    using that s(3) es(1) by (simp add: fun_upd_idem)
  have "ext2fs_process_dir_block env flags (xlate_func func) fs b c p 0 =
      Some (fs\<lparr>fs_disk := (fs_disk fs)(b := block_image es')\<rparr>, p', 0, how = Aborted)"
    using c r s(1, 4) fs(1, 3) same by (auto simp: ext2fs_process_dir_block_def ext2fs_write_dir_block3_def)
  then show ?thesis using s(2, 4) unfolding es_def by (intro exI conjI) (assumption | auto)+
qed

lemma iterate_result:
  assumes "\<forall>b \<in> set (data_blocks bl). fe_read env b = 0 \<and> fe_write env b = 0" "distinct (data_blocks bl)"
    "fs_blocksize fs = bs" "\<forall>b \<in> set (data_blocks bl). block_ok bs (fs_disk fs b)" "start p"
  shows "\<exists>disk' p' stop. iterate_blocks env flags (xlate_func func) bl fs p 0 = Some (fs\<lparr>fs_disk := disk'\<rparr>, p', 0) \<and>
    (\<forall>b. b \<notin> set (data_blocks bl) \<longrightarrow> disk' b = fs_disk fs b) \<and> (\<forall>b \<in> set (data_blocks bl). block_ok bs (disk' b)) \<and>
    scanned (\<lambda>es es'. \<exists>q. inv es q es' []) (\<lambda>es es'. fin es p' es') (fs_disk fs) disk' (data_blocks bl) stop \<and>
    (\<not> stop \<longrightarrow> start p')"
  using assms
proof (induction bl arbitrary: fs p)
  case Nil
  have "iterate_blocks env flags (xlate_func func) [] fs p 0 = Some (fs\<lparr>fs_disk := fs_disk fs\<rparr>, p, 0)" by simp
  then show ?case using Nil by (intro exI [of _ "fs_disk fs"] exI [of _ p] exI [of _ False]) (simp add: scanned_def data_blocks_def)
next
  case (Cons cb bl)
  obtain c b where cb: "cb = (c, b)" by (cases cb)
  show ?case
  proof (cases "c < 0")
    case True
    then have d: "data_blocks (cb # bl) = data_blocks bl" using cb by (simp add: data_blocks_def)
    have "iterate_blocks env flags (xlate_func func) (cb # bl) fs p 0 = iterate_blocks env flags (xlate_func func) bl fs p 0"
      using True cb by (simp add: ext2fs_process_dir_block_def)
    then show ?thesis using Cons.IH [of fs p] Cons.prems unfolding d by simp
  next
    case False
    then have d: "data_blocks (cb # bl) = b # data_blocks bl" using cb by (simp add: data_blocks_def)
    note prems = Cons.prems [unfolded d]
    obtain es' p' stop where s: "ext2fs_process_dir_block env flags (xlate_func func) fs b c p 0 =
        Some (fs\<lparr>fs_disk := (fs_disk fs)(b := block_image es')\<rparr>, p', 0, stop)" "entries_ok bs es'"
      "if stop then fin (dir_entries (fs_disk fs b)) p' es' else inv (dir_entries (fs_disk fs b)) p' es' []"
      using process_block [of fs env b p c] prems False by auto
    let ?disk = "(fs_disk fs)(b := block_image es')"
    note es' = entries_okD(1, 2) [OF s(2)]
    show ?thesis
    proof (cases stop)
      case True
      have "scanned (\<lambda>es es'. \<exists>q. inv es q es' []) (\<lambda>es es'. fin es p' es') (fs_disk fs) ?disk (data_blocks (cb # bl)) True"
        unfolding scanned_def if_True d using s(3) True es'(1) prems(2)
        by (intro exI [of _ "[]"] exI [of _ b] exI [of _ "data_blocks bl"]) auto
      moreover have "iterate_blocks env flags (xlate_func func) (cb # bl) fs p 0 = Some (fs\<lparr>fs_disk := ?disk\<rparr>, p', 0)"
        using s(1) True by (simp add: cb)
      moreover have "\<forall>x. x \<notin> set (data_blocks (cb # bl)) \<longrightarrow> ?disk x = fs_disk fs x"
        "\<forall>x \<in> set (data_blocks (cb # bl)). block_ok bs (?disk x)"
        unfolding d using es'(2) prems(4) by auto
      ultimately show ?thesis by blast
    next
      case go: False
      have inv: "inv (dir_entries (fs_disk fs b)) p' es' []" using s(3) go by simp
      have other: "\<And>x. x \<in> set (data_blocks bl) \<Longrightarrow> ?disk x = fs_disk fs x" using prems(2) by auto
      define fs1 where "fs1 = fs\<lparr>fs_disk := ?disk\<rparr>"
      have fs1: "fs_disk fs1 = ?disk" "fs_blocksize fs1 = bs" "\<And>f. fs1\<lparr>fs_disk := f\<rparr> = fs\<lparr>fs_disk := f\<rparr>"
        using prems(3) by (simp_all add: fs1_def)
      have "\<forall>x \<in> set (data_blocks bl). fe_read env x = 0 \<and> fe_write env x = 0" "distinct (data_blocks bl)"
        "\<forall>x \<in> set (data_blocks bl). block_ok bs (fs_disk fs1 x)"
        using prems(1, 2, 4) other unfolding fs1(1) by auto
      from Cons.IH [OF this(1, 2) fs1(2) this(3) leave [OF inv], unfolded fs1]
      obtain disk' p2 stop2 where r: "iterate_blocks env flags (xlate_func func) bl fs1 p' 0 = Some (fs\<lparr>fs_disk := disk'\<rparr>, p2, 0)"
        "\<forall>x. x \<notin> set (data_blocks bl) \<longrightarrow> disk' x = ?disk x" "\<forall>x \<in> set (data_blocks bl). block_ok bs (disk' x)"
        "scanned (\<lambda>es es'. \<exists>q. inv es q es' []) (\<lambda>es es'. fin es p2 es') ?disk disk' (data_blocks bl) stop2"
        "\<not> stop2 \<longrightarrow> start p2"
        by blast
      have b: "disk' b = block_image es'" using r(2) prems(2) by simp
      have "scanned (\<lambda>es es'. \<exists>q. inv es q es' []) (\<lambda>es es'. fin es p2 es') (fs_disk fs) disk' (data_blocks (cb # bl)) stop2"
        unfolding d by (rule scanned_Cons) (use inv b es'(1) scanned_cong [OF r(4) other] in auto)
      moreover have "iterate_blocks env flags (xlate_func func) (cb # bl) fs p 0 = Some (fs\<lparr>fs_disk := disk'\<rparr>, p2, 0)"
        using s(1) go r(1) by (simp add: cb fs1_def)
      moreover have "\<forall>x. x \<notin> set (data_blocks (cb # bl)) \<longrightarrow> disk' x = fs_disk fs x"
        "\<forall>x \<in> set (data_blocks (cb # bl)). block_ok bs (disk' x)"
        unfolding d using r(2, 3) b es'(2) by auto
      ultimately show ?thesis using r(5) by blast
    qed
  qed
qed

lemma iterate_dir:
  assumes "healthy env dir" "dir_ok env dir fs" "fs_blocksize fs = bs" "start p"
  shows "\<exists>disk' p' stop. ext2fs_dir_iterate env fs dir flags has_buf func p = Some (fs\<lparr>fs_disk := disk'\<rparr>, p', 0) \<and>
    (\<forall>b. b \<notin> set (data_blocks (fe_blocks env dir)) \<longrightarrow> disk' b = fs_disk fs b) \<and> dir_ok env dir (fs\<lparr>fs_disk := disk'\<rparr>) \<and>
    scanned (\<lambda>es es'. \<exists>q. inv es q es' []) (\<lambda>es es'. fin es p' es') (fs_disk fs) disk' (data_blocks (fe_blocks env dir)) stop \<and>
    (\<not> stop \<longrightarrow> start p')"
proof -
  let ?bl = "fe_blocks env dir"
  have "ext2fs_dir_iterate env fs dir flags has_buf func p = iterate_blocks env flags (xlate_func func) ?bl fs p 0"
    using assms(1, 2) by (simp add: healthy_def dir_ok_def ext2fs_dir_iterate_def ext2fs_dir_iterate2_def)
  moreover have "dir_ok env dir (fs\<lparr>fs_disk := disk'\<rparr>) \<longleftrightarrow> (\<forall>b \<in> set (data_blocks ?bl). block_ok bs (disk' b))" for disk'
    using assms(2, 3) by (simp add: dir_ok_def)
  moreover have "\<forall>b \<in> set (data_blocks ?bl). fe_read env b = 0 \<and> fe_write env b = 0" "distinct (data_blocks ?bl)"
    using assms(1) by (simp_all add: healthy_def)
  moreover have "\<forall>b \<in> set (data_blocks ?bl). block_ok bs (fs_disk fs b)" using assms(2, 3) by (simp add: dir_ok_def)
  ultimately show ?thesis using iterate_result [of ?bl env fs p] assms(3, 4) by simp
qed

end

subsection \<open>Finding a name\<close>

definition lookup_in :: "u8 list \<Rightarrow> (u8 list \<times> u16 \<times> u32) list \<Rightarrow> u32 option" where
  "lookup_in name l = map_option (\<lambda>e. snd (snd e)) (find (\<lambda>e. fst e = name) l)"

lemma strncmp_names: "0 \<notin> set a \<Longrightarrow> length a = n \<Longrightarrow> length b = n \<Longrightarrow> strncmp_eq n a b \<longleftrightarrow> a = b"
proof (induction n arbitrary: a b)
  case (Suc n)
  then obtain x a' y b' where "a = x # a'" "b = y # b'" by (metis length_Suc_conv)
  then show ?case using Suc by auto
qed simp

lemma find_append: "find P (xs @ ys) = (case find P xs of None \<Rightarrow> find P ys | Some x \<Rightarrow> Some x)"
  by (induction xs) simp_all

lemma find_concat_None: "find P (concat ls) = None \<longleftrightarrow> (\<forall>l \<in> set ls. find P l = None)"
  by (induction ls) (auto simp: find_append split: option.split)

lemma length_e_name: "entry_ok e \<Longrightarrow> length (e_name e) = name_size (e_nl e)"
  by (simp add: e_name_def entry_ok_def)

lemma name_at:
  assumes "entry_ok e"
  shows "block_read (block_image (pre @ e # rest)) (length (block_image pre) + 8) (name_size (e_nl e)) = Some (e_name e)"
  using entry_name [OF refl, of "name_size (e_nl e)" e "block_image pre" "block_image rest"] assms
  by (simp add: entry_ok_def e_name_def)

lemma fields_at:
  "de_inode (block_image (pre @ e # rest)) (length (block_image pre)) = Some (e_ino e)"
  "de_rec_len (block_image (pre @ e # rest)) (length (block_image pre)) = Some (of_nat (entry_size e))"
  "de_name_len (block_image (pre @ e # rest)) (length (block_image pre)) = Some (e_nl e)"
  using entry_fields [OF refl, of "block_image pre" e "block_image rest"] by simp_all

lemma lookup_step:
  assumes "entry_ok e" "0 \<notin> set name"
  shows "lookup_proc name (length name) (length (block_image pre)) (block_image (pre @ e # rest)) found =
    Some (block_image (pre @ e # rest), if e_name e = name then Some (e_ino e) else found, False, e_name e = name)"
proof -
  have n: "length (e_name e) = name_size (e_nl e)" using assms(1) by (rule length_e_name)
  show ?thesis
  proof (cases "length name = name_size (e_nl e)")
    case True
    then have "strncmp_eq (name_size (e_nl e)) name (e_name e) \<longleftrightarrow> e_name e = name"
      using strncmp_names [OF assms(2) True n] by auto
    then show ?thesis unfolding lookup_proc_def fields_at name_at [OF assms(1)] using True by (simp del: block_image_simps add: name_at [OF assms(1)])
  next
    case False
    then have "e_name e \<noteq> name" using n by auto
    then show ?thesis unfolding lookup_proc_def fields_at using False by (simp del: block_image_simps)
  qed
qed

interpretation lookup: dir_scan bs 0 "lookup_proc name (length name)" "\<lambda>p. p = None \<and> 0 \<notin> set name"
    "\<lambda>es p pre rest. p = None \<and> 0 \<notin> set name \<and> pre @ rest = es \<and> lookup_in name (live pre) = None"
    "\<lambda>es p es'. es' = es \<and> p \<noteq> None \<and> lookup_in name (live es) = p"
  for bs and name :: "u8 list"
proof
  fix es :: "dir_entry list" and p :: "u32 option" and pre e rest
  assume i: "p = None \<and> 0 \<notin> set name \<and> pre @ e # rest = es \<and> lookup_in name (live pre) = None"
    and ok: "entries_ok bs (pre @ e # rest)" and "odd (0 :: nat) \<or> e_ino e \<noteq> 0"
  then have ino: "e_ino e \<noteq> 0" and zero: "0 \<notin> set name" by simp_all
  have e: "entry_ok e" using ok by (simp add: entries_ok_def)
  have es: "es = pre @ [e] @ rest" and none: "find (\<lambda>e. fst e = name) (live pre) = None" using i by (auto simp: lookup_in_def)
  have l: "lookup_in name (live es) = (if e_name e = name then Some (e_ino e) else lookup_in name (live rest))"
    "lookup_in name (live (pre @ [e])) = (if e_name e = name then Some (e_ino e) else None)"
    unfolding es using none ino by (simp_all add: lookup_in_def find_append)
  show "\<exists>es' p' ch ab. lookup_proc name (length name) (length (block_image pre)) (block_image (pre @ e # rest)) p =
      Some (block_image es', p', ch, ab) \<and> entries_ok bs es' \<and> (\<not> ch \<longrightarrow> es' = pre @ e # rest) \<and>
      (if ab then es' = es \<and> p' \<noteq> None \<and> lookup_in name (live es) = p'
       else \<exists>e' rest'. es' = pre @ e' # rest' \<and> p' = None \<and> 0 \<notin> set name \<and> (pre @ [e']) @ rest' = es \<and> lookup_in name (live (pre @ [e'])) = None)"
    unfolding lookup_step [OF e zero] using i ok l
    by (intro exI [of _ "pre @ e # rest"] exI conjI) (rule refl | auto)+
qed (auto simp: lookup_in_def find_append)

subsection \<open>Removing a name\<close>

primrec remove_first :: "('a \<Rightarrow> bool) \<Rightarrow> 'a list \<Rightarrow> 'a list" where
  "remove_first P [] = []"
| "remove_first P (x # xs) = (if P x then xs else x # remove_first P xs)"

definition unlink_match :: "u8 list option \<Rightarrow> u32 \<Rightarrow> u8 list \<times> u16 \<times> u32 \<Rightarrow> bool" where
  "unlink_match name ino x \<longleftrightarrow> (case name of None \<Rightarrow> True | Some n \<Rightarrow> fst x = n) \<and> (ino = 0 \<or> snd (snd x) = ino)"

lemma unlink_match_simps:
  "unlink_match name ino (n, t, i) \<longleftrightarrow> (case name of None \<Rightarrow> True | Some m \<Rightarrow> n = m) \<and> (ino = 0 \<or> i = ino)"
  by (simp add: unlink_match_def split: option.split)

lemma remove_first_append:
  "remove_first P (xs @ ys) = (if \<exists>x \<in> set xs. P x then remove_first P xs @ ys else xs @ remove_first P ys)"
  by (induction xs) auto

lemma remove_first_id: "\<forall>x \<in> set xs. \<not> P x \<Longrightarrow> remove_first P xs = xs"
  by (induction xs) auto

definition unlinking :: "u8 list option \<Rightarrow> u32 \<Rightarrow> unlink_struct \<Rightarrow> bool" where
  "unlinking name ino p \<longleftrightarrow> us_name p = name \<and> us_namelen p = (case name of None \<Rightarrow> 0 | Some n \<Rightarrow> length n) \<and>
     us_inode p = ino \<and> us_done p = 0 \<and> (\<forall>n. name = Some n \<longrightarrow> 0 \<notin> set n)"

lemma block_image_Nil_iff: "length (block_image pre) = 0 \<longleftrightarrow> pre = []"
  by (cases pre) simp_all

lemma unlink_test:
  assumes "entry_ok e" "unlinking name ino p"
  shows "(case us_name p of None \<Rightarrow> Some True
    | Some n \<Rightarrow> if name_size (e_nl e) \<noteq> us_namelen p then Some False
        else map_option (strncmp_eq (name_size (e_nl e)) n)
          (block_read (block_image (pre @ e # rest)) (length (block_image pre) + 8) (name_size (e_nl e)))) =
    Some (case name of None \<Rightarrow> True | Some n \<Rightarrow> e_name e = n)"
proof (cases name)
  case None
  then show ?thesis using assms(2) by (simp add: unlinking_def)
next
  case (Some n)
  have len: "length (e_name e) = name_size (e_nl e)" using assms(1) by (rule length_e_name)
  show ?thesis
  proof (cases "name_size (e_nl e) = length n")
    case True
    then have "strncmp_eq (name_size (e_nl e)) n (e_name e) \<longleftrightarrow> e_name e = n"
      using strncmp_names [of n "name_size (e_nl e)" "e_name e"] assms(2) Some len by (auto simp: unlinking_def)
    then show ?thesis unfolding name_at [OF assms(1)] using True Some assms(2) by (simp add: unlinking_def)
  next
    case False
    then have "e_name e \<noteq> n" using len by auto
    then show ?thesis using False Some assms(2) by (simp add: unlinking_def)
  qed
qed

lemma unlink_passes:
  assumes "entry_ok e" "unlinking name ino p"
    and no: "\<forall>x \<in> set (live [e]). \<not> unlink_match name ino x"
  shows "unlink_proc (length (block_image pre)) (block_image (pre @ e # rest)) p =
    Some (block_image (pre @ e # rest), p\<lparr>us_prev := Some (length (block_image pre))\<rparr>, False, False)"
proof -
  have i: "us_inode p = ino" using assms(2) by (simp add: unlinking_def)
  show ?thesis
    unfolding unlink_proc_def fields_at Let_def Option.bind_lunit unlink_test [OF assms(1, 2)] i
    using no by (auto simp: unlink_match_simps simp del: block_image_simps split: if_splits)
qed

lemma unlink_removes:
  assumes ok: "entries_ok bs (pre @ e # rest)" and "unlinking name ino p"
    and yes: "e_ino e \<noteq> 0" "unlink_match name ino (e_name e, drop_bit 8 (e_nl e), e_ino e)"
    and prev: "pre \<noteq> [] \<longrightarrow> us_prev p = Some (length (block_image (butlast pre)))"
  shows "\<exists>es' p'. unlink_proc (length (block_image pre)) (block_image (pre @ e # rest)) p = Some (block_image es', p', True, True) \<and>
    entries_ok bs es' \<and> live es' = live pre @ live rest \<and> us_done p' \<noteq> 0"
proof -
  have e: "entry_ok e" using ok by (simp add: entries_ok_def)
  have i: "us_inode p = ino" using assms(2) by (simp add: unlinking_def)
  have t: "(case name of None \<Rightarrow> True | Some n \<Rightarrow> e_name e = n)" "\<not> (if ino \<noteq> 0 then e_ino e \<noteq> ino else e_ino e = 0)"
    using yes by (auto simp: unlink_match_simps)
  note unfold = unlink_proc_def fields_at Let_def Option.bind_lunit unlink_test [OF e assms(2)] i
  show ?thesis
  proof (cases pre rule: rev_cases)
    case Nil
    have "unlink_proc (length (block_image pre)) (block_image (pre @ e # rest)) p =
        Some (block_image (e\<lparr>e_ino := 0\<rparr> # rest), p\<lparr>us_prev := Some 0, us_done := us_done p + 1\<rparr>, True, True)"
      unfolding unfold using t Nil write_fields(1) [OF refl, of "[]" "e_ino e" _ _ "e_area e @ block_image rest" 0]
      by (simp add: entry_bytes_def del: of_nat_add)
    moreover have "entries_ok bs (e\<lparr>e_ino := 0\<rparr> # rest)" using ok Nil by (simp add: entries_ok_def entry_ok_def)
    ultimately show ?thesis using Nil by (intro exI conjI) (assumption | simp)+
  next
    case (snoc pre0 q)
    let ?q = "q\<lparr>e_area := e_area q @ entry_bytes e\<rparr>"
    have pv: "us_prev p = Some (length (block_image pre0))" using prev snoc by simp
    have nz: "length (block_image pre) \<noteq> 0" using snoc block_image_Nil_iff by blast
    have l: "de_rec_len (block_image (pre @ e # rest)) (length (block_image pre0)) = Some (of_nat (entry_size q))"
      using fields_at(2) [of pre0 q "e # rest"] snoc by simp
    have w: "block_write (block_image (pre @ e # rest)) (length (block_image pre0) + 4)
        (le16 (of_nat (entry_size q) + of_nat (entry_size e))) = Some (block_image (pre0 @ ?q # rest))"
      using write_fields(2) [OF refl, of "block_image pre0" "e_ino q" "of_nat (entry_size q)" "e_nl q"
          "e_area q @ entry_bytes e @ block_image rest" "of_nat (entry_size q) + of_nat (entry_size e)"] snoc
      by (simp add: entry_bytes_def ac_simps)
    have "unlink_proc (length (block_image pre)) (block_image (pre @ e # rest)) p =
        Some (block_image (pre0 @ ?q # rest), p\<lparr>us_prev := Some (length (block_image pre)), us_done := us_done p + 1\<rparr>, True, True)"
      unfolding unfold pv l Option.bind_lunit w using t nz by (simp del: block_image_simps)
    moreover have "(8 + a) mod 4 = 0 \<Longrightarrow> (8 + b) mod 4 = 0 \<Longrightarrow> (16 + (a + b)) mod 4 = 0" for a b :: nat by presburger
    from this [of "length (e_area q)" "length (e_area e)"]
    have "entries_ok bs (pre0 @ ?q # rest)" "live (pre0 @ ?q # rest) = live pre @ live rest"
      using ok snoc by (auto simp: entries_ok_def entry_ok_def e_name_def)
    ultimately show ?thesis by (intro exI conjI) (assumption | simp)+
  qed
qed

text \<open>The contract: before the first match nothing changes, and the first match is removed.\<close>

interpretation unlink: dir_scan bs 1 unlink_proc "unlinking name ino"
    "\<lambda>es p pre rest. unlinking name ino p \<and> pre @ rest = es \<and> (\<forall>x \<in> set (live pre). \<not> unlink_match name ino x) \<and>
       (pre \<noteq> [] \<longrightarrow> us_prev p = Some (length (block_image (butlast pre))))"
    "\<lambda>es p es'. us_done p \<noteq> 0 \<and> (\<exists>x \<in> set (live es). unlink_match name ino x) \<and>
       live es' = remove_first (unlink_match name ino) (live es)"
  for bs name ino
proof
  fix es :: "dir_entry list" and p pre e rest
  assume i: "unlinking name ino p \<and> pre @ e # rest = es \<and> (\<forall>x \<in> set (live pre). \<not> unlink_match name ino x) \<and>
       (pre \<noteq> [] \<longrightarrow> us_prev p = Some (length (block_image (butlast pre))))"
    and ok: "entries_ok bs (pre @ e # rest)"
  have e: "entry_ok e" using ok by (simp add: entries_ok_def)
  have es: "es = pre @ e # rest" and p: "unlinking name ino p" using i by simp_all
  show "\<exists>es' p' ch ab. unlink_proc (length (block_image pre)) (block_image (pre @ e # rest)) p = Some (block_image es', p', ch, ab) \<and>
      entries_ok bs es' \<and> (\<not> ch \<longrightarrow> es' = pre @ e # rest) \<and>
      (if ab then us_done p' \<noteq> 0 \<and> (\<exists>x \<in> set (live es). unlink_match name ino x) \<and>
         live es' = remove_first (unlink_match name ino) (live es)
       else \<exists>e' rest'. es' = pre @ e' # rest' \<and> unlinking name ino p' \<and> (pre @ [e']) @ rest' = es \<and>
         (\<forall>x \<in> set (live (pre @ [e'])). \<not> unlink_match name ino x) \<and>
         (pre @ [e'] \<noteq> [] \<longrightarrow> us_prev p' = Some (length (block_image (butlast (pre @ [e']))))))"
  proof (cases "e_ino e \<noteq> 0 \<and> unlink_match name ino (e_name e, drop_bit 8 (e_nl e), e_ino e)")
    case True
    then obtain es' p' where "unlink_proc (length (block_image pre)) (block_image (pre @ e # rest)) p = Some (block_image es', p', True, True)"
      "entries_ok bs es'" "live es' = live pre @ live rest" "us_done p' \<noteq> 0"
      using unlink_removes [OF ok p] i by blast
    moreover have "remove_first (unlink_match name ino) (live es) = live pre @ live rest"
      "\<exists>x \<in> set (live es). unlink_match name ino x"
      using True i unfolding es by (auto simp: remove_first_append)
    ultimately show ?thesis by (intro exI conjI) (assumption | simp)+
  next
    case False
    then have no: "\<forall>x \<in> set (live [e]). \<not> unlink_match name ino x" by auto
    let ?p = "p\<lparr>us_prev := Some (length (block_image pre))\<rparr>"
    have "unlinking name ino ?p" using p by (simp add: unlinking_def)
    then show ?thesis using unlink_passes [OF e p no] ok i no unfolding es
      by (intro exI [of _ "pre @ e # rest"] exI [of _ ?p] exI [of _ False]) auto
  qed
qed auto

subsection \<open>Adding a name\<close>

text \<open>The room that an entry has for another one.\<close>

definition room :: "dir_entry \<Rightarrow> nat" where
  "room e = (if e_ino e = 0 then entry_size e else entry_size e - EXT2_DIR_REC_LEN (name_size (e_nl e)))"

definition type_bits :: "u32 \<Rightarrow> u16 \<Rightarrow> u16" where
  "type_bits incompat flags = (if incompat AND EXT2_FEATURE_INCOMPAT_FILETYPE \<noteq> 0 then flags AND 7 else 0)"

lemma rec_len_bounds: "n + 8 \<le> EXT2_DIR_REC_LEN n" "EXT2_DIR_REC_LEN n mod 4 = 0"
  unfolding EXT2_DIR_REC_LEN_def by (linarith, simp)

lemma low_byte: "(n :: nat) < 256 \<Longrightarrow> bit n k \<Longrightarrow> k < 8"
proof (rule ccontr)
  assume n: "n < 256" "bit n k" and "\<not> k < 8"
  then have "(256 :: nat) \<le> 2 ^ k" using power_increasing [of 8 k "2 :: nat"] by simp
  then show False using n by (simp add: bit_iff_odd)
qed

lemma low_bits:
  assumes "n < 256"
  shows "name_size (of_nat n OR push_bit 8 (t AND 7)) = n" "drop_bit 8 (of_nat n OR push_bit 8 (t AND 7) :: u16) = t AND 7"
    "name_size (of_nat n) = n" "drop_bit 8 (of_nat n :: u16) = 0"
proof -
  have ff: "(0xFF :: u16) = mask 8" "(7 :: u16) = mask 3" by (simp_all add: mask_eq_exp_minus_1)
  have hi: "bit n k \<Longrightarrow> k < 8" for k using low_byte [OF assms] .
  have u: "unat (of_nat n :: u16) = n" using assms by (intro unat_of_nat_small) simp
  have "(of_nat n OR push_bit 8 (t AND 7)) AND 0xFF = (of_nat n :: u16)" "of_nat n AND 0xFF = (of_nat n :: u16)"
    unfolding ff by (rule bit_word_eqI; auto simp: bit_simps dest: hi)+
  then show "name_size (of_nat n OR push_bit 8 (t AND 7)) = n" "name_size (of_nat n) = n" by (simp_all add: name_size_def u)
  show "drop_bit 8 (of_nat n OR push_bit 8 (t AND 7) :: u16) = t AND 7" "drop_bit 8 (of_nat n :: u16) = 0"
    unfolding ff by (rule bit_word_eqI; auto simp: bit_simps dest: hi)+
qed

lemma absorbed:
  assumes ok: "entries_ok bs (pre @ e # rest)"
  shows "\<exists>e1 rest1 ch. link_absorb bs (length (block_image pre)) (entry_size e) (block_image (pre @ e # rest)) =
      Some (block_image (pre @ e1 # rest1), entry_size e1, 0, ch) \<and> entries_ok bs (pre @ e1 # rest1) \<and>
    (\<not> ch \<longrightarrow> e1 = e \<and> rest1 = rest) \<and> e_ino e1 = e_ino e \<and> e_nl e1 = e_nl e \<and> live (e1 # rest1) = live (e # rest)"
proof -
  let ?i = "length (block_image pre)" and ?d = "block_image (pre @ e # rest)"
  have bs: "bs < 65536" and len: "?i + entry_size e + length (block_image rest) = bs" using ok by (auto simp: entries_ok_def)
  have plain: ?thesis if "link_absorb bs ?i (entry_size e) ?d = Some (?d, entry_size e, 0, False)"
    using that ok by blast
  show ?thesis
  proof (cases rest)
    case Nil
    then have "\<not> ?i + entry_size e + 8 < bs" using len by simp
    then show ?thesis by (intro plain) (simp only: link_absorb_def if_False)
  next
    case (Cons n rest1)
    have j: "?i + entry_size e = length (block_image (pre @ [e]))" by simp
    have d: "?d = block_image ((pre @ [e]) @ n # rest1)" using Cons by simp
    have f: "de_inode ?d (?i + entry_size e) = Some (e_ino n)" "de_rec_len ?d (?i + entry_size e) = Some (of_nat (entry_size n))"
      unfolding d j by (rule fields_at)+
    have n: "entry_size n \<le> bs" using len Cons by simp
    have u: "unat (of_nat (entry_size n) :: u16) = entry_size n" using n bs by (intro size_code) linarith
    show ?thesis
    proof (cases "?i + entry_size e + 8 < bs \<and> e_ino n = 0")
      case False
      then show ?thesis by (intro plain) (auto simp: link_absorb_def f simp del: block_image_simps)
    next
      case True
      let ?e = "e\<lparr>e_area := e_area e @ entry_bytes n\<rparr>"
      have fit: "?i + entry_size e + entry_size n \<le> bs" using len Cons by simp
      have m: "entry_size e mod 4 = 0" "entry_size n mod 4 = 0" using ok Cons by (auto simp: entries_ok_def entry_ok_def)
      have size: "entry_size ?e = entry_size e + entry_size n" by simp
      have m': "entry_size ?e mod 4 = 0" unfolding size using m by presburger
      have "ext2fs_set_rec_len bs (entry_size e + entry_size n) ?d ?i = Some (block_image (pre @ ?e # rest1), 0)"
        using set_len [OF refl bs, of "entry_size ?e" "block_image pre" "e_ino e" "of_nat (entry_size e)" "e_nl e"
            "e_area e @ entry_bytes n @ block_image rest1"] fit m' Cons
        unfolding size by (simp add: entry_bytes_def ac_simps)
      then have "link_absorb bs ?i (entry_size e) ?d = Some (block_image (pre @ ?e # rest1), entry_size ?e, 0, True)"
        unfolding size link_absorb_def f u Option.bind_lunit using True fit by (simp del: block_image_simps)
      moreover have "entries_ok bs (pre @ ?e # rest1)" "live (?e # rest1) = live (e # rest)"
        using ok m' Cons True by (auto simp: entries_ok_def entry_ok_def e_name_def)
      ultimately show ?thesis by (intro exI [of _ ?e] exI [of _ rest1] exI [of _ True]) simp
    qed
  qed
qed

lemma write_header:
  assumes "i = length a" "8 \<le> length B" "bs < 65536" "len \<le> bs" "len mod 4 = 0"
  shows "\<exists>d2 d3. block_write (a @ B @ z) i (le32 0) = Some d2 \<and> block_write d2 (i + 6) (le16 0) = Some d3 \<and>
    ext2fs_set_rec_len bs len d3 i = Some (a @ raw_entry 0 (of_nat len) 0 @ drop 8 B @ z, 0)"
proof -
  let ?p = "take 4 B" and ?q = "take 2 (drop 4 B)" and ?r = "take 2 (drop 6 B)" and ?s = "drop 8 B"
  have B: "B = ?p @ ?q @ ?r @ ?s"
    using append_take_drop_id [of 4 B] append_take_drop_id [of 2 "drop 4 B"] append_take_drop_id [of 2 "drop 6 B"] by simp
  have len: "length ?p = 4" "length ?q = 2" "length ?r = 2" using assms(2) by simp_all
  have 1: "block_write (a @ B @ z) i (le32 0) = Some (a @ le32 0 @ ?q @ ?r @ ?s @ z)"
    using block_write_behind [of "le32 0" ?p i a "?q @ ?r @ ?s @ z"] assms(1) len by (subst B) simp
  have 2: "block_write (a @ le32 0 @ ?q @ ?r @ ?s @ z) (i + 6) (le16 0) = Some (a @ le32 0 @ ?q @ le16 0 @ ?s @ z)"
    using block_write_behind [of "le16 0" ?r "i + 6" "a @ le32 0 @ ?q" "?s @ z"] assms(1) len by simp
  have "block_write (a @ le32 0 @ ?q @ le16 0 @ ?s @ z) (i + 4) (le16 (of_nat len)) =
      Some (a @ le32 0 @ le16 (of_nat len) @ le16 0 @ ?s @ z)"
    using block_write_behind [of "le16 (of_nat len)" ?q "i + 4" "a @ le32 0" "le16 0 @ ?s @ z"] assms(1) len by simp
  then have 3: "ext2fs_set_rec_len bs len (a @ le32 0 @ ?q @ le16 0 @ ?s @ z) i = Some (a @ raw_entry 0 (of_nat len) 0 @ ?s @ z, 0)"
    using assms(3-5) by (simp add: ext2fs_set_rec_len_def rec_len_code_def raw_entry_def)
  show ?thesis using 1 2 3 by blast
qed

lemma split_entry:
  assumes ok: "entries_ok bs (pre @ e # rest)" and e: "e_ino e \<noteq> 0" and need: "8 \<le> need" "need mod 4 = 0"
  shows "if room e < need
    then link_split bs (length (block_image pre)) (entry_size e) need ch (block_image (pre @ e # rest)) p =
      Some (block_image (pre @ e # rest), p, ch, False)
    else \<exists>e' f. link_split bs (length (block_image pre)) (entry_size e) need ch (block_image (pre @ e # rest)) p =
        Some (block_image (pre @ e' # f # rest), p, True, False) \<and> entries_ok bs (pre @ e' # f # rest) \<and>
      live (e' # f # rest) = live (e # rest) \<and> room e' < need"
proof -
  let ?i = "length (block_image pre)" and ?d = "block_image (pre @ e # rest)" and ?m = "EXT2_DIR_REC_LEN (name_size (e_nl e))"
  have bs: "bs < 65536" and len: "?i + entry_size e + length (block_image rest) = bs" using ok by (auto simp: entries_ok_def)
  have eo: "entry_size e mod 4 = 0" "name_size (e_nl e) \<le> length (e_area e)" using ok by (auto simp: entries_ok_def entry_ok_def)
  note m = rec_len_bounds [of "name_size (e_nl e)"]
  have fits: "?m \<le> entry_size e"
  proof -
    have "EXT2_DIR_REC_LEN n \<le> k" if "n + 8 \<le> k" "k mod 4 = 0" for n k :: nat
      using that unfolding EXT2_DIR_REC_LEN_def by presburger
    then show ?thesis using eo by simp
  qed
  have small: "entry_size e < ?m + need \<longleftrightarrow> room e < need"
    using e fits by (simp only: room_def if_False) linarith
  show ?thesis
  proof (cases "room e < need")
    case True
    then show ?thesis using small unfolding link_split_def fields_at Option.bind_lunit Let_def by simp
  next
    case False
    let ?A = "e_area e" and ?e = "e\<lparr>e_area := take (?m - 8) (e_area e)\<rparr>"
    let ?f = "\<lparr>e_ino = 0, e_nl = 0, e_area = drop ?m (e_area e)\<rparr>"
    have big: "?m + need \<le> entry_size e" using False small by simp
    have sizes: "entry_size ?e = ?m" "entry_size ?f = entry_size e - ?m" using big need m by simp_all
    have f4: "entry_size ?f mod 4 = 0"
    proof -
      have diff: "a mod 4 = 0 \<Longrightarrow> b mod 4 = 0 \<Longrightarrow> (a - b) mod 4 = 0" for a b :: nat by presburger
      show ?thesis unfolding sizes by (rule diff [OF eo(1) m(2)])
    qed
    let ?pre = "block_image pre" and ?d1 = "block_image pre @ raw_entry (e_ino e) (of_nat ?m) (e_nl e) @ ?A @ block_image rest"
    have s1: "ext2fs_set_rec_len bs ?m ?d ?i = Some (?d1, 0)"
      using set_len [OF refl bs, of ?m ?pre "e_ino e" "of_nat (entry_size e)" "e_nl e" "?A @ block_image rest"] big len m(2)
      by (simp add: entry_bytes_def)
    have l: "de_rec_len ?d1 ?i = Some (of_nat ?m)" by (rule read_fields(2) [OF refl])
    have u: "unat (of_nat ?m :: u16) = ?m" using big len bs by (intro size_code) linarith
    let ?a = "?pre @ raw_entry (e_ino e) (of_nat ?m) (e_nl e) @ take (?m - 8) ?A"
    have A: "take (?m - 8) ?A @ drop (?m - 8) ?A = ?A" by simp
    have d1: "?d1 = ?a @ drop (?m - 8) ?A @ block_image rest"
      using A by (simp only: append_assoc) (metis append_assoc)
    have j: "?i + ?m = length ?a" using big m by simp
    have B: "8 \<le> length (drop (?m - 8) ?A)" using big need m by simp
    have "entry_size e - ?m \<le> bs" using len by linarith
    then obtain d2 d3 where w: "block_write ?d1 (?i + ?m) (le32 0) = Some d2" "block_write d2 (?i + ?m + 6) (le16 0) = Some d3"
      "ext2fs_set_rec_len bs (entry_size e - ?m) d3 (?i + ?m) =
        Some (?a @ raw_entry 0 (of_nat (entry_size e - ?m)) 0 @ drop 8 (drop (?m - 8) ?A) @ block_image rest, 0)"
      using write_header [OF j B bs _ f4 [unfolded sizes], of "block_image rest"] unfolding d1 by blast
    have d4: "?a @ raw_entry 0 (of_nat (entry_size e - ?m)) 0 @ drop 8 (drop (?m - 8) ?A) @ block_image rest =
        block_image (pre @ ?e # ?f # rest)"
      using sizes m(1) big by (simp add: entry_bytes_def)
    have "link_split bs ?i (entry_size e) need ch ?d p = Some (block_image (pre @ ?e # ?f # rest), p, True, False)"
      unfolding link_split_def fields_at Option.bind_lunit Let_def s1 prod.case l u w d4 using big by simp
    moreover have "entry_ok ?e" "entry_ok ?f"
      using sizes(1) m f4 eo by (auto simp: entry_ok_def name_size_def)
    then have "entries_ok bs (pre @ ?e # ?f # rest)"
      using ok sizes big by (auto simp: entries_ok_def)
    moreover have "name_size (e_nl e) \<le> ?m - 8" using m(1) by linarith
    then have "live (?e # ?f # rest) = live (e # rest)" using e by (simp add: e_name_def min_def)
    moreover have "room ?e < need" using e need(1) sizes(1) by (simp add: room_def)
    ultimately show ?thesis unfolding if_not_P [OF False] by blast
  qed
qed

lemma fill_entry:
  assumes ok: "entries_ok bs (pre @ e # rest)" and e: "e_ino e = 0" and n: "length name < 256"
    and fits: "EXT2_DIR_REC_LEN (length name) \<le> entry_size e" and ino: "ino \<noteq> 0"
  shows "\<exists>e' d2 d3 d4. block_write (block_image (pre @ e # rest)) (length (block_image pre)) (le32 ino) = Some d2 \<and>
      block_write d2 (length (block_image pre) + 6) (le16 (of_nat (length name))) = Some d3 \<and>
      block_write d3 (length (block_image pre) + 8) name = Some d4 \<and>
      (if incompat AND EXT2_FEATURE_INCOMPAT_FILETYPE \<noteq> 0
       then block_write d4 (length (block_image pre) + 6) (le16 (of_nat (length name) OR push_bit 8 (flags AND 7)))
       else Some d4) = Some (block_image (pre @ e' # rest)) \<and>
    entries_ok bs (pre @ e' # rest) \<and> live [e'] = [(name, type_bits incompat flags, ino)]"
proof -
  let ?a = "block_image pre" and ?l = "of_nat (entry_size e) :: u16" and ?A = "e_area e" and ?z = "block_image rest"
  let ?n = "of_nat (length name) :: u16"
  let ?nl = "if incompat AND EXT2_FEATURE_INCOMPAT_FILETYPE \<noteq> 0 then ?n OR push_bit 8 (flags AND 7) else ?n"
  let ?B = "name @ drop (length name) ?A" and ?e = "\<lparr>e_ino = ino, e_nl = ?nl, e_area = name @ drop (length name) (e_area e)\<rparr>"
  have room: "length name \<le> length ?A" using fits rec_len_bounds(1) [of "length name"] by linarith
  have d: "block_image (pre @ e # rest) = ?a @ raw_entry 0 ?l (e_nl e) @ ?A @ ?z" by (simp add: entry_bytes_def e)
  have 2: "block_write (block_image (pre @ e # rest)) (length ?a) (le32 ino) = Some (?a @ raw_entry ino ?l (e_nl e) @ ?A @ ?z)"
    unfolding d by (rule write_fields(1) [OF refl])
  have 3: "block_write (?a @ raw_entry ino ?l (e_nl e) @ ?A @ ?z) (length ?a + 6) (le16 ?n) = Some (?a @ raw_entry ino ?l ?n @ ?A @ ?z)"
    by (rule write_fields(3) [OF refl])
  have Az: "?A @ ?z = take (length name) ?A @ drop (length name) ?A @ ?z" by (metis append_assoc append_take_drop_id)
  have 4: "block_write (?a @ raw_entry ino ?l ?n @ ?A @ ?z) (length ?a + 8) name = Some (?a @ raw_entry ino ?l ?n @ ?B @ ?z)"
    unfolding Az using block_write_behind [of name "take (length name) ?A" "length ?a + 8" "?a @ raw_entry ino ?l ?n"] room by simp
  have len: "length (e_area ?e) = length ?A" using room by simp
  have 5: "(if incompat AND EXT2_FEATURE_INCOMPAT_FILETYPE \<noteq> 0
       then block_write (?a @ raw_entry ino ?l ?n @ ?B @ ?z) (length ?a + 6) (le16 (?n OR push_bit 8 (flags AND 7)))
       else Some (?a @ raw_entry ino ?l ?n @ ?B @ ?z)) = Some (block_image (pre @ ?e # rest))"
    using write_fields(3) [OF refl, of ?a ino ?l ?n "?B @ ?z"] len by (simp add: entry_bytes_def)
  have size: "name_size ?nl = length name" "drop_bit 8 ?nl = type_bits incompat flags"
    using low_bits [OF n] by (simp_all add: type_bits_def)
  have "entry_ok ?e" using ok size(1) len by (simp add: entries_ok_def entry_ok_def)
  then have "entries_ok bs (pre @ ?e # rest)" using ok len by (simp add: entries_ok_def)
  moreover have "live [?e] = [(name, type_bits incompat flags, ino)]" using ino size by (simp add: e_name_def)
  ultimately show ?thesis using 2 3 4 5 by blast
qed

definition linking :: "u8 list \<Rightarrow> u32 \<Rightarrow> u16 \<Rightarrow> link_struct" where
  "linking name ino flags =
     \<lparr>ls_name = name, ls_namelen = length name, ls_inode = ino, ls_flags = flags, ls_done = 0, ls_err = 0\<rparr>"

interpretation link: dir_scan bs 1 "link_proc bs incompat"
    "\<lambda>p. p = linking name ino flags \<and> length name < 256 \<and> ino \<noteq> 0"
    "\<lambda>es p pre rest. (p = linking name ino flags \<and> length name < 256 \<and> ino \<noteq> 0) \<and> live (pre @ rest) = live es \<and>
       (\<forall>e \<in> set pre. room e < EXT2_DIR_REC_LEN (length name))"
    "\<lambda>es p es'. ls_done p \<noteq> 0 \<and> ls_err p = 0 \<and>
       (\<exists>xs ys. live es = xs @ ys \<and> live es' = xs @ (name, type_bits incompat flags, ino) # ys)"
  for bs incompat name ino flags
proof
  fix es :: "dir_entry list" and p pre e rest
  let ?need = "EXT2_DIR_REC_LEN (length name)" and ?i = "length (block_image pre)" and ?d = "block_image (pre @ e # rest)"
  assume i: "(p = linking name ino flags \<and> length name < 256 \<and> ino \<noteq> 0) \<and> live (pre @ e # rest) = live es \<and> (\<forall>e \<in> set pre. room e < ?need)"
    and ok: "entries_ok bs (pre @ e # rest)"
  have n: "length name < 256" and ino: "ino \<noteq> 0" using i by simp_all
  have need: "8 \<le> ?need" "?need mod 4 = 0" using rec_len_bounds [of "length name"] by simp_all
  have p: "ls_done p = 0" "ls_namelen p = length name" "ls_inode p = ino" "ls_name p = name" "ls_flags p = flags" "ls_err p = 0"
    using i by (simp_all add: linking_def)
  have "bs < 65536" "entry_size e \<le> bs" using ok entries_okD(3) [OF ok, of e] by (simp_all add: entries_ok_def)
  then have cur: "ext2fs_get_rec_len bs ?d ?i = Some (entry_size e)"
    using get_len [OF refl, of bs e "block_image pre" "block_image rest"] by simp
  obtain e1 rest1 ch where a: "link_absorb bs ?i (entry_size e) ?d = Some (block_image (pre @ e1 # rest1), entry_size e1, 0, ch)"
    "entries_ok bs (pre @ e1 # rest1)" "\<not> ch \<longrightarrow> e1 = e \<and> rest1 = rest" "live (e1 # rest1) = live (e # rest)"
    using absorbed [OF ok] by blast
  have live1: "live (pre @ e1 # rest1) = live es" using i a(4) by simp
  note unfold = link_proc_def p cur a(1) Option.bind_lunit prod.case Let_def fields_at(1)
  show "\<exists>es' p' ch ab. link_proc bs incompat ?i ?d p = Some (block_image es', p', ch, ab) \<and>
      entries_ok bs es' \<and> (\<not> ch \<longrightarrow> es' = pre @ e # rest) \<and>
      (if ab then ls_done p' \<noteq> 0 \<and> ls_err p' = 0 \<and>
         (\<exists>xs ys. live es = xs @ ys \<and> live es' = xs @ (name, type_bits incompat flags, ino) # ys)
       else \<exists>e' rest'. es' = pre @ e' # rest' \<and> (p' = linking name ino flags \<and> length name < 256 \<and> ino \<noteq> 0) \<and> live ((pre @ [e']) @ rest') = live es \<and>
         (\<forall>e \<in> set (pre @ [e']). room e < ?need))"
  proof (cases "e_ino e1 = 0")
    case used: False
    have r: "link_proc bs incompat ?i ?d p = link_split bs ?i (entry_size e1) ?need ch (block_image (pre @ e1 # rest1)) p"
      unfolding unfold using used by (simp del: block_image_simps)
    show ?thesis
    proof (cases "room e1 < ?need")
      case True
      then have "link_proc bs incompat ?i ?d p = Some (block_image (pre @ e1 # rest1), p, ch, False)"
        using split_entry [OF a(2) used need, of ch p] unfolding r by simp
      then show ?thesis using a(2, 3) i live1 True
        by (intro exI [of _ "pre @ e1 # rest1"] exI [of _ p] exI [of _ ch] exI [of _ False]) auto
    next
      case False
      then obtain e' f where s: "link_proc bs incompat ?i ?d p = Some (block_image (pre @ e' # f # rest1), p, True, False)"
        "entries_ok bs (pre @ e' # f # rest1)" "live (e' # f # rest1) = live (e1 # rest1)" "room e' < ?need"
        using split_entry [OF a(2) used need, of ch p] unfolding r if_not_P [OF False] by blast
      have "live (pre @ e' # f # rest1) = live es" using s(3) live1 by (simp only: live_simps(2))
      then show ?thesis using s(1, 2, 4) i
        by (intro exI [of _ "pre @ e' # f # rest1"] exI [of _ p] exI [of _ True] exI [of _ False])
          (simp del: live_simps block_image_simps)
    qed
  next
    case unused: True
    show ?thesis
    proof (cases "entry_size e1 < ?need")
      case True
      then have "link_proc bs incompat ?i ?d p = Some (block_image (pre @ e1 # rest1), p, ch, False)"
        unfolding unfold using unused by (simp del: block_image_simps)
      then show ?thesis using a(2, 3) i live1 True unused
        by (intro exI [of _ "pre @ e1 # rest1"] exI [of _ p] exI [of _ ch] exI [of _ False]) (auto simp: room_def)
    next
      case False
      then have fits: "?need \<le> entry_size e1" by simp
      obtain e' d2 d3 d4 where w: "block_write (block_image (pre @ e1 # rest1)) ?i (le32 ino) = Some d2"
        "block_write d2 (?i + 6) (le16 (of_nat (length name))) = Some d3" "block_write d3 (?i + 8) name = Some d4"
        "(if incompat AND EXT2_FEATURE_INCOMPAT_FILETYPE \<noteq> 0
          then block_write d4 (?i + 6) (le16 (of_nat (length name) OR push_bit 8 (flags AND 7))) else Some d4) =
          Some (block_image (pre @ e' # rest1))"
        "entries_ok bs (pre @ e' # rest1)" "live [e'] = [(name, type_bits incompat flags, ino)]"
        using fill_entry [OF a(2) unused n fits ino, of incompat flags] by blast
      have "link_proc bs incompat ?i ?d p = Some (block_image (pre @ e' # rest1), p\<lparr>ls_done := 1\<rparr>, True, True)"
        unfolding unfold w using unused False by simp
      moreover have "live (pre @ e' # rest1) = live pre @ (name, type_bits incompat flags, ino) # live rest1"
        using w(6) live_simps(2) [of "[e']" rest1] by simp
      moreover have "live es = live pre @ live rest1" using live1 unused by simp
      ultimately show ?thesis using w(5) p(6)
        by (intro exI [of _ "pre @ e' # rest1"] exI [of _ "p\<lparr>ls_done := 1\<rparr>"] exI [of _ True] exI [of _ True])
          (simp del: live_simps block_image_simps, blast)
    qed
  qed
qed auto

subsection \<open>A directory as a list of names\<close>

definition dir_list :: "fs_env \<Rightarrow> nat \<Rightarrow> filsys \<Rightarrow> (u8 list \<times> u16 \<times> u32) list" where
  "dir_list env dir fs = concat (map (\<lambda>b. live (dir_entries (fs_disk fs b))) (data_blocks (fe_blocks env dir)))"

lemma concat_map_cong: "(\<And>x. x \<in> set xs \<Longrightarrow> f x = g x) \<Longrightarrow> concat (map f xs) = concat (map g xs)"
  by (induction xs) auto

lemma lookup_result:
  assumes "healthy env dir" "dir_ok env dir fs" "0 \<notin> set name"
  shows "ext2fs_lookup env fs dir name (length name) has_buf =
    Some (case lookup_in name (dir_list env dir fs) of None \<Rightarrow> (EXT2_ET_FILE_NOT_FOUND, None) | Some i \<Rightarrow> (0, Some i))"
proof -
  let ?bl = "data_blocks (fe_blocks env dir)" and ?f = "\<lambda>b. live (dir_entries (fs_disk fs b))"
  have "None = None \<and> 0 \<notin> set name" using assms(3) by simp
  from lookup.iterate_dir [OF assms(1, 2) refl this, of has_buf]
  obtain disk' p stop where r: "ext2fs_dir_iterate env fs dir 0 has_buf (lookup_proc name (length name)) None = Some (fs\<lparr>fs_disk := disk'\<rparr>, p, 0)"
    "scanned (\<lambda>es es'. \<exists>q :: u32 option. q = None \<and> 0 \<notin> set name \<and> es' @ [] = es \<and> lookup_in name (live es') = None)
       (\<lambda>es es'. es' = es \<and> p \<noteq> None \<and> lookup_in name (live es) = p) (fs_disk fs) disk' ?bl stop"
    "\<not> stop \<longrightarrow> p = None \<and> 0 \<notin> set name"
    by blast
  have none: "find (\<lambda>e. fst e = name) (concat (map ?f xs)) = None"
    if "\<forall>x \<in> set xs. \<exists>q :: u32 option. q = None \<and> 0 \<notin> set name \<and> dir_entries (disk' x) @ [] = dir_entries (fs_disk fs x) \<and>
      lookup_in name (live (dir_entries (disk' x))) = None" for xs
    using that unfolding find_concat_None by (auto simp: lookup_in_def)
  have "lookup_in name (dir_list env dir fs) = p"
  proof (cases stop)
    case True
    have "\<exists>xs b ys. ?bl = xs @ b # ys \<and> find (\<lambda>e. fst e = name) (concat (map ?f xs)) = None \<and> lookup_in name (?f b) = p \<and> p \<noteq> None"
      using r(2) unfolding scanned_def if_P [OF True]
      by (elim exE conjE) (intro exI conjI; (assumption | (rule none, assumption)))
    then obtain xs b ys where bl: "?bl = xs @ b # ys" and n: "find (\<lambda>e. fst e = name) (concat (map ?f xs)) = None"
      and b: "lookup_in name (?f b) = p" "p \<noteq> None"
      by blast
    show ?thesis unfolding dir_list_def bl using n b by (auto simp: lookup_in_def find_append split: option.split)
  next
    case False
    have "find (\<lambda>e. fst e = name) (concat (map ?f ?bl)) = None"
      by (rule none [OF r(2) [unfolded scanned_def if_not_P [OF False]]])
    then show ?thesis using r(3) False by (simp add: dir_list_def lookup_in_def)
  qed
  then show ?thesis using r(1) assms(2) by (auto simp: ext2fs_lookup_def dir_ok_def split: option.split)
qed

lemma unlink_result:
  assumes "healthy env dir" "dir_ok env dir fs" "\<forall>n. name = Some n \<longrightarrow> 0 \<notin> set n" "name \<noteq> None \<or> ino \<noteq> 0"
  shows "\<exists>fs' r. ext2fs_unlink env fs dir name ino = Some (fs', r) \<and> dir_ok env dir fs' \<and> fs_incompat fs' = fs_incompat fs \<and>
    (\<forall>b. b \<notin> set (data_blocks (fe_blocks env dir)) \<longrightarrow> fs_disk fs' b = fs_disk fs b) \<and>
    dir_list env dir fs' = remove_first (unlink_match name ino) (dir_list env dir fs) \<and>
    r = (if \<exists>x \<in> set (dir_list env dir fs). unlink_match name ino x then 0 else EXT2_ET_DIR_NO_SPACE)"
proof -
  let ?bl = "data_blocks (fe_blocks env dir)" and ?f = "\<lambda>d b. live (dir_entries (d b))" and ?m = "unlink_match name ino"
  let ?p = "\<lparr>us_name = name, us_namelen = (case name of None \<Rightarrow> 0 | Some n \<Rightarrow> length n), us_inode = ino, us_prev = None, us_done = 0\<rparr>"
  have "unlinking name ino ?p" using assms(3) by (simp add: unlinking_def)
  from unlink.iterate_dir [OF assms(1, 2) refl this, of False]
  obtain disk' p stop where r: "ext2fs_dir_iterate env fs dir 1 False unlink_proc ?p = Some (fs\<lparr>fs_disk := disk'\<rparr>, p, 0)"
    "dir_ok env dir (fs\<lparr>fs_disk := disk'\<rparr>)" "\<forall>b. b \<notin> set ?bl \<longrightarrow> disk' b = fs_disk fs b"
    "scanned (\<lambda>es es'. \<exists>q. unlinking name ino q \<and> es' @ [] = es \<and> (\<forall>x \<in> set (live es'). \<not> ?m x) \<and>
         (es' \<noteq> [] \<longrightarrow> us_prev q = Some (length (block_image (butlast es')))))
       (\<lambda>es es'. us_done p \<noteq> 0 \<and> (\<exists>x \<in> set (live es). ?m x) \<and> live es' = remove_first ?m (live es)) (fs_disk fs) disk' ?bl stop"
    "\<not> stop \<longrightarrow> unlinking name ino p"
    by blast
  have run: "ext2fs_unlink env fs dir name ino = Some (fs\<lparr>fs_disk := disk'\<rparr>, if us_done p \<noteq> 0 then 0 else EXT2_ET_DIR_NO_SPACE)"
    using r(1) assms(2, 4) by (auto simp: ext2fs_unlink_def dir_ok_def)
  have "concat (map (?f disk') ?bl) = remove_first ?m (concat (map (?f (fs_disk fs)) ?bl)) \<and>
      (us_done p \<noteq> 0 \<longleftrightarrow> (\<exists>x \<in> set (concat (map (?f (fs_disk fs)) ?bl)). ?m x))"
  proof (cases stop)
    case True
    then have "\<exists>xs b ys. ?bl = xs @ b # ys \<and> (\<forall>x \<in> set xs. ?f disk' x = ?f (fs_disk fs) x \<and> (\<forall>e \<in> set (?f disk' x). \<not> ?m e)) \<and>
        us_done p \<noteq> 0 \<and> (\<exists>x \<in> set (?f (fs_disk fs) b). ?m x) \<and> ?f disk' b = remove_first ?m (?f (fs_disk fs) b) \<and>
        (\<forall>y \<in> set ys. disk' y = fs_disk fs y)"
      using r(4) unfolding scanned_def if_P [OF True] by (elim exE conjE) (intro exI conjI; (assumption | fastforce))
    then obtain xs b ys where bl: "?bl = xs @ b # ys" and xs: "\<forall>x \<in> set xs. ?f disk' x = ?f (fs_disk fs) x \<and> (\<forall>e \<in> set (?f disk' x). \<not> ?m e)"
      and b: "us_done p \<noteq> 0" "\<exists>x \<in> set (?f (fs_disk fs) b). ?m x" "?f disk' b = remove_first ?m (?f (fs_disk fs) b)"
      and ys: "\<forall>y \<in> set ys. disk' y = fs_disk fs y"
      by blast
    have "concat (map (?f disk') xs) = concat (map (?f (fs_disk fs)) xs)" using xs by (intro concat_map_cong) blast
    moreover have "concat (map (?f disk') ys) = concat (map (?f (fs_disk fs)) ys)" using ys by (intro concat_map_cong) simp
    moreover have "\<not> (\<exists>x \<in> set (concat (map (?f (fs_disk fs)) xs)). ?m x)" using xs by auto
    ultimately show ?thesis using b unfolding bl by (auto simp: remove_first_append)
  next
    case False
    then have all: "\<forall>x \<in> set ?bl. ?f disk' x = ?f (fs_disk fs) x \<and> (\<forall>e \<in> set (?f disk' x). \<not> ?m e)"
      using r(4) by (auto simp: scanned_def)
    then have "concat (map (?f disk') ?bl) = concat (map (?f (fs_disk fs)) ?bl)" by (intro concat_map_cong) blast
    moreover have no: "\<forall>x \<in> set (concat (map (?f (fs_disk fs)) ?bl)). \<not> ?m x" using all by auto
    ultimately show ?thesis using remove_first_id [OF no] r(5) False by (auto simp: unlinking_def)
  qed
  then show ?thesis using run r(2, 3) by (intro exI [of _ "fs\<lparr>fs_disk := disk'\<rparr>"]) (simp add: dir_list_def)
qed

text \<open>
  The outcome of \<open>ext2fs_link\<close>: the name is added, and the directory loses its hash index, or no entry of the directory has
  the room that the name needs.
\<close>

definition linked :: "fs_env \<Rightarrow> nat \<Rightarrow> filsys \<Rightarrow> u8 list \<Rightarrow> u16 \<Rightarrow> u32 \<Rightarrow> filsys \<Rightarrow> bool" where
  "linked env dir fs name t ino fs' \<longleftrightarrow> fs_iflags fs' dir AND EXT2_INDEX_FL = 0 \<and>
     (\<exists>xs ys. dir_list env dir fs = xs @ ys \<and> dir_list env dir fs' = xs @ (name, t, ino) # ys)"

definition no_room :: "fs_env \<Rightarrow> nat \<Rightarrow> filsys \<Rightarrow> nat \<Rightarrow> bool" where
  "no_room env dir fs n \<longleftrightarrow>
     (\<forall>b \<in> set (data_blocks (fe_blocks env dir)). \<forall>e \<in> set (dir_entries (fs_disk fs b)). room e < EXT2_DIR_REC_LEN n)"

lemma link_result:
  assumes "healthy env dir" "dir_ok env dir fs" "length name < 256" "ino \<noteq> 0"
  shows "\<exists>fs' r. ext2fs_link env fs dir name ino flags = Some (fs', r) \<and> dir_ok env dir fs' \<and> fs_incompat fs' = fs_incompat fs \<and>
    (\<forall>b. b \<notin> set (data_blocks (fe_blocks env dir)) \<longrightarrow> fs_disk fs' b = fs_disk fs b) \<and>
    (r = 0 \<and> linked env dir fs name (type_bits (fs_incompat fs) flags) ino fs' \<or>
     r = EXT2_ET_DIR_NO_SPACE \<and> dir_list env dir fs' = dir_list env dir fs \<and> no_room env dir fs' (length name))"
proof -
  let ?bl = "data_blocks (fe_blocks env dir)" and ?f = "\<lambda>d b. live (dir_entries (d b))"
  let ?new = "(name, type_bits (fs_incompat fs) flags, ino)" and ?p = "linking name ino flags"
  have "?p = linking name ino flags \<and> length name < 256 \<and> ino \<noteq> 0" using assms(3, 4) by simp
  from link.iterate_dir [OF assms(1, 2) refl this, of False "fs_incompat fs"]
  obtain disk' p stop where r: "ext2fs_dir_iterate env fs dir 1 False (link_proc (fs_blocksize fs) (fs_incompat fs)) ?p =
      Some (fs\<lparr>fs_disk := disk'\<rparr>, p, 0)"
    "dir_ok env dir (fs\<lparr>fs_disk := disk'\<rparr>)" "\<forall>b. b \<notin> set ?bl \<longrightarrow> disk' b = fs_disk fs b"
    "scanned (\<lambda>es es'. \<exists>q. (q = ?p \<and> length name < 256 \<and> ino \<noteq> 0) \<and> live (es' @ []) = live es \<and>
         (\<forall>e \<in> set es'. room e < EXT2_DIR_REC_LEN (length name)))
       (\<lambda>es es'. ls_done p \<noteq> 0 \<and> ls_err p = 0 \<and> (\<exists>xs ys. live es = xs @ ys \<and> live es' = xs @ ?new # ys)) (fs_disk fs) disk' ?bl stop"
    "\<not> stop \<longrightarrow> p = ?p \<and> length name < 256 \<and> ino \<noteq> 0"
    by blast
  let ?fs = "fs\<lparr>fs_disk := disk'\<rparr>"
  note ok = assms(1, 2) [unfolded healthy_def dir_ok_def]
  show ?thesis
  proof (cases stop)
    case True
    have "\<exists>xs b ys us vs. ?bl = xs @ b # ys \<and> (\<forall>x \<in> set xs. ?f disk' x = ?f (fs_disk fs) x) \<and> ls_done p \<noteq> 0 \<and> ls_err p = 0 \<and>
        ?f (fs_disk fs) b = us @ vs \<and> ?f disk' b = us @ ?new # vs \<and> (\<forall>y \<in> set ys. disk' y = fs_disk fs y)"
      using r(4) unfolding scanned_def if_P [OF True] by (elim exE conjE) (intro exI conjI; (assumption | fastforce))
    then obtain xs b ys us vs where bl: "?bl = xs @ b # ys" and xs: "\<forall>x \<in> set xs. ?f disk' x = ?f (fs_disk fs) x"
      and b: "ls_done p \<noteq> 0" "ls_err p = 0" "?f (fs_disk fs) b = us @ vs" "?f disk' b = us @ ?new # vs"
      and ys: "\<forall>y \<in> set ys. disk' y = fs_disk fs y"
      by blast
    have "concat (map (?f disk') xs) = concat (map (?f (fs_disk fs)) xs)" using xs by (intro concat_map_cong) blast
    moreover have "concat (map (?f disk') ys) = concat (map (?f (fs_disk fs)) ys)" using ys by (intro concat_map_cong) simp
    ultimately have "concat (map (?f (fs_disk fs)) ?bl) = (concat (map (?f (fs_disk fs)) xs) @ us) @ vs @ concat (map (?f (fs_disk fs)) ys)"
      "concat (map (?f disk') ?bl) = (concat (map (?f (fs_disk fs)) xs) @ us) @ ?new # vs @ concat (map (?f (fs_disk fs)) ys)"
      unfolding bl using b by simp_all
    then have l: "\<exists>xs ys. concat (map (?f (fs_disk fs)) ?bl) = xs @ ys \<and> concat (map (?f disk') ?bl) = xs @ ?new # ys" by blast
    define fs' where "fs' = (if fs_iflags fs dir AND EXT2_INDEX_FL \<noteq> 0
      then ?fs\<lparr>fs_iflags := (fs_iflags fs)(dir := fs_iflags fs dir AND NOT EXT2_INDEX_FL)\<rparr> else ?fs)"
    have "ext2fs_link env fs dir name ino flags = Some (fs', 0)"
      using r(1) b(1, 2) ok unfolding ext2fs_link_def linking_def [symmetric] fs'_def by simp
    moreover have "(w AND NOT EXT2_INDEX_FL) AND EXT2_INDEX_FL = 0" for w by (simp add: and.assoc)
    then have "linked env dir fs name (type_bits (fs_incompat fs) flags) ino fs'"
      using l by (simp add: linked_def dir_list_def fs'_def)
    moreover have "dir_ok env dir fs'" "fs_incompat fs' = fs_incompat fs" "fs_disk fs' = disk'"
      using r(2) by (simp_all add: fs'_def dir_ok_def)
    ultimately show ?thesis using r(3) by (intro exI [of _ fs'] exI [of _ 0]) simp
  next
    case False
    then have all: "\<forall>x \<in> set ?bl. ?f disk' x = ?f (fs_disk fs) x \<and> (\<forall>e \<in> set (dir_entries (disk' x)). room e < EXT2_DIR_REC_LEN (length name))"
      using r(4) by (auto simp: scanned_def)
    then have "concat (map (?f disk') ?bl) = concat (map (?f (fs_disk fs)) ?bl)" by (intro concat_map_cong) blast
    then have "dir_list env dir ?fs = dir_list env dir fs" "no_room env dir ?fs (length name)"
      using all by (simp_all add: dir_list_def no_room_def)
    moreover have "ext2fs_link env fs dir name ino flags = Some (?fs, EXT2_ET_DIR_NO_SPACE)"
      using r(1, 5) False ok unfolding ext2fs_link_def linking_def [symmetric] by (simp add: linking_def)
    ultimately show ?thesis using r(2, 3) by (intro exI [of _ ?fs] exI [of _ EXT2_ET_DIR_NO_SPACE]) simp
  qed
qed

subsection \<open>New blocks, and what goes wrong\<close>

lemma unat_or_one: "unat (1 OR push_bit 8 (2 :: u16)) = 0x201" "unat (2 OR push_bit 8 (2 :: u16)) = 0x202"
  by simp_all

lemma new_block_result:
  assumes "fs_magic fs = EXT2_ET_MAGIC_EXT2FS_FILSYS" "fe_mem env (fs_blocksize fs)" "24 \<le> fs_blocksize fs"
    "fs_blocksize fs < 65536" "fs_blocksize fs mod 4 = 0" "dir_ino \<noteq> 0"
  shows "\<exists>d. ext2fs_new_dir_block env fs dir_ino parent_ino = Some (Inr d) \<and> block_ok (fs_blocksize fs) d \<and>
    live (dir_entries d) = [([46], type_bits (fs_incompat fs) EXT2_FT_DIR, dir_ino)] @
      (if parent_ino = 0 then [] else [([46, 46], type_bits (fs_incompat fs) EXT2_FT_DIR, parent_ino)])"
proof -
  let ?bs = "fs_blocksize fs" and ?t = "if fs_incompat fs AND EXT2_FEATURE_INCOMPAT_FILETYPE \<noteq> 0 then push_bit 8 EXT2_FT_DIR else 0"
  have r: "EXT2_DIR_REC_LEN 1 = 12" by (simp add: EXT2_DIR_REC_LEN_def)
  let ?z = "replicate (?bs - 24) (0 :: u8)"
  have z8: "raw_entry 0 0 0 = replicate 8 0" by (simp add: raw_entry_def le32_def le16_def numeral_eq_Suc)
  have split: "replicate ?bs (0 :: u8) = raw_entry 0 0 0 @ [0] @ replicate 3 0 @ raw_entry 0 0 0 @ [0, 0] @ replicate 2 0 @ ?z"
    using assms(3) unfolding z8 by (simp add: replicate_add [symmetric] replicate_append_same flip: replicate_Suc)
  let ?r1 = "[46] @ replicate 3 0 @ raw_entry 0 0 0 @ [0, 0] @ replicate 2 0 @ ?z" and ?a = "[46] @ replicate 3 (0 :: u8)"
  let ?e1 = "\<lparr>e_ino = dir_ino, e_nl = 1 OR ?t, e_area = [46, 0, 0, 0]\<rparr>"
  let ?e2 = "\<lparr>e_ino = parent_ino, e_nl = 2 OR ?t, e_area = [46, 46, 0, 0] @ ?z\<rparr>"
  let ?h = "raw_entry dir_ino (of_nat 12) (1 OR ?t)"
  have s0: "ext2fs_set_rec_len ?bs ?bs (replicate ?bs 0) 0 = Some (raw_entry 0 (of_nat ?bs) 0 @ [0] @ drop 1 ?r1, 0)"
    unfolding split using set_len [OF refl, of ?bs ?bs "[]" 0 0 0] assms(4, 5) by simp
  have w: "block_write (raw_entry 0 l 0 @ z) 0 (le32 i) = Some (raw_entry i l 0 @ z)"
    "block_write (raw_entry i l 0 @ z) 6 (le16 nl) = Some (raw_entry i l nl @ z)"
    "block_write (raw_entry i l nl @ z) 4 (le16 l') = Some (raw_entry i l' nl @ z)" for i l nl z l'
    using write_fields [OF refl, of "[]"] by simp_all
  have w4: "block_write ((raw_entry i l nl @ ?a) @ z) 4 (le16 l') = Some ((raw_entry i l' nl @ ?a) @ z)" for i l nl z l'
    using w(3) [of i l nl "?a @ z" l'] by simp
  have b: "block_write (raw_entry i l nl @ [0] @ z) 8 [46] = Some (raw_entry i l nl @ [46] @ z)" for i l nl z
    by (rule block_write_behind) simp_all
  have 2: "length (?h @ ?a) = 12" by simp
  have s2: "ext2fs_set_rec_len ?bs (?bs - 12) ((?h @ ?a) @ raw_entry 0 0 0 @ z) 12 = Some ((?h @ ?a) @ raw_entry 0 (of_nat (?bs - 12)) 0 @ z, 0)" for z
  proof -
    have "(?bs - 12) mod 4 = 0" using assms(3, 5) by presburger
    then show ?thesis using set_len [of 12 "?h @ ?a" ?bs "?bs - 12" 0 0 0 z] 2 assms(4) by simp
  qed
  have w2: "block_write ((?h @ ?a) @ raw_entry 0 l 0 @ z) 12 (le32 i) = Some ((?h @ ?a) @ raw_entry i l 0 @ z)"
    "block_write ((?h @ ?a) @ raw_entry i l 0 @ z) 18 (le16 nl) = Some ((?h @ ?a) @ raw_entry i l nl @ z)" for i l nl z
    using write_fields [of 12 "?h @ ?a"] 2 by simp_all
  have b2: "block_write ((?h @ ?a) @ raw_entry i l nl @ [0, 0] @ z) 20 [46, 46] = Some ((?h @ ?a) @ raw_entry i l nl @ [46, 46] @ z)" for i l nl z
    using block_write_behind [of "[46, 46]" "[0, 0]" 20 "(?h @ ?a) @ raw_entry i l nl" z] by simp
  have d1: "drop 1 ?r1 = replicate 3 0 @ raw_entry 0 0 0 @ [0, 0] @ replicate 2 0 @ ?z" by simp
  have reg: "raw_entry i l nl @ [46] @ replicate 3 0 @ z = (raw_entry i l nl @ ?a) @ z" for i l nl z by simp
  have "ext2fs_new_dir_block env fs dir_ino parent_ino =
      Some (Inr ((?h @ ?a) @ raw_entry parent_ino (of_nat (?bs - 12)) (2 OR ?t) @ [46, 46] @ replicate 2 0 @ ?z))"
    unfolding ext2fs_new_dir_block_def r s0 d1 using assms(1, 2, 6)
    by (simp only: w w4 b reg s2 w2 b2 Let_def Option.bind_lunit prod.case if_False if_True not_not simp_thms numeral_plus_numeral
        arith_simps refl)
  moreover have "(?h @ ?a) @ raw_entry parent_ino (of_nat (?bs - 12)) (2 OR ?t) @ [46, 46] @ replicate 2 0 @ ?z = block_image [?e1, ?e2]"
    using assms(3) by (simp add: entry_bytes_def numeral_eq_Suc)
  moreover have "Suc (?bs - 13) mod 4 = 0 \<and> Suc (Suc (Suc (Suc (?bs - 4)))) = ?bs" using assms(3, 5) by presburger
  then have "entries_ok ?bs [?e1, ?e2]"
    using assms(3-5) unat_or_one by (simp add: entries_ok_def entry_ok_def name_size_def)
  moreover have "live [?e1, ?e2] = [([46], type_bits (fs_incompat fs) EXT2_FT_DIR, dir_ino)] @
      (if parent_ino = 0 then [] else [([46, 46], type_bits (fs_incompat fs) EXT2_FT_DIR, parent_ino)])"
    using assms(6) by (simp add: e_name_def name_size_def type_bits_def)
  ultimately show ?thesis using entries_okD(1, 2) by metis
qed


text \<open>
  \<open>ext2fs_read_dir_block3\<close> forgets the errors of all entries but the last one: the first entry here has a record
  length of 3, and the block is accepted.
\<close>

definition broken_block :: "u8 list" where
  "broken_block = [2, 0, 0, 0, 3, 0, 1, 0] @ [0, 0, 0, 0, 12, 0, 0, 0, 0, 0, 0, 0]"

lemma read_check_forgets: "read_check 20 broken_block 0 0 = Some 0"
  by (simp add: read_check.simps broken_block_def ext2fs_get_rec_len_def de_rec_len_def de_name_len_def block_read_def slice_def
      name_size_def Let_def)

text \<open>An entry that ends four bytes before the end of the block makes the scan read behind the block.\<close>

lemma dir_loop_overrun:
  "dir_loop 16 0 (\<lambda>entry offset d p. Some (d, p, False, False)) 0 0 1 False ([2, 0, 0, 0, 12, 0, 1, 0, 65, 0, 0, 0] @ replicate 4 0) () = None"
  by (simp add: dir_loop.simps ext2fs_get_rec_len_def de_rec_len_def de_name_len_def de_inode_def block_read_def slice_def
      name_size_def Let_def dir_next_def)

text \<open>Record lengths survive their encoding, except the one that leaves four bytes of a block of 256 KiB.\<close>

lemma rec_len_roundtrip:
  assumes "0 < len" "len mod 4 = 0" "len + 8 \<le> bs \<or> len = bs" "bs \<le> 262144" "i + 8 \<le> length d"
  shows "\<exists>d'. ext2fs_set_rec_len bs len d i = Some (d', 0) \<and> ext2fs_get_rec_len bs d' i = Some len"
proof -
  let ?c = "rec_len_code bs len"
  define q r where "q = len div 65536" and "r = len mod 65536"
  have qr: "len = q * 65536 + r" "r < 65536" by (simp_all add: q_def r_def)
  have r4: "r mod 4 = 0" using assms(2) by (simp add: r_def mod_mod_cancel)
  define s where "s = r div 4"
  have r: "r = 4 * s" using r4 unfolding s_def by presburger
  then have r': "r div 4 * 4 = r" "s \<le> 16383" using qr(2) by simp_all
  have big: "?c = r + q" "(r + q) mod 4 = q" "(r + q) div 4 * 4 = r" "r + q < 65535" "r + q \<noteq> 0"
    if "\<not> len < 65536" "len \<noteq> bs"
  proof -
    have q: "0 < q" "q < 4" using that assms(3, 4) qr by linarith+
    show "?c = r + q" using that q r'(1) by (simp add: rec_len_code_def flip: q_def r_def)
    show "(r + q) mod 4 = q" "(r + q) div 4 * 4 = r" "r + q \<noteq> 0" unfolding r using q by simp_all
    show "r + q < 65535"
    proof (cases "s \<le> 16382")
      case False
      then have "r = 65532" using r r'(2) by linarith
      then show ?thesis using that assms(3, 4) qr(1) q by linarith
    qed (use r q in linarith)
  qed
  have c: "?c < 65536" using big by (cases "len < 65536 \<or> len = bs") (auto simp: rec_len_code_def)
  have "ext2fs_set_rec_len bs len d i = Some (write_at (i + 4) (le16 (of_nat ?c)) d, 0)"
    using assms by (auto simp: ext2fs_set_rec_len_def block_write_def)
  moreover have rl: "de_rec_len (write_at (i + 4) (le16 (of_nat ?c)) d) i = Some (of_nat ?c)"
    using assms(5) by (simp add: de_rec_len_def block_read_def)
  have dec: "(if bs < 65536 then ?c else if ?c = 65535 \<or> ?c = 0 then bs else ?c div 4 * 4 + ?c mod 4 * 65536) = len"
  proof (cases "len < 65536 \<or> len = bs")
    case True
    have "len \<noteq> 65535" "len div 4 * 4 = len" using assms(2) by presburger+
    then show ?thesis using True assms(1-3) by (auto simp: rec_len_code_def)
  next
    case False
    then show ?thesis using big qr(1) assms(3) by auto
  qed
  have "ext2fs_get_rec_len bs (write_at (i + 4) (le16 (of_nat ?c)) d) i = Some len"
    unfolding ext2fs_get_rec_len_def rl Option.bind_lunit Let_def size_code [OF c] dec by (rule refl)
  ultimately show ?thesis by blast
qed

subsection \<open>Properties\<close>

datatype dir_op =
    Link "u8 list" u32 u16
  | Unlink "u8 list option" u32
  | Lookup "u8 list"

definition dir_step :: "fs_env \<Rightarrow> nat \<Rightarrow> filsys \<Rightarrow> dir_op \<Rightarrow> (filsys \<times> nat \<times> u32 option) option" where
  "dir_step env dir fs op =
     (case op of
        Link name ino flags \<Rightarrow> map_option (\<lambda>(fs', r). (fs', r, None)) (ext2fs_link env fs dir name ino flags)
      | Unlink name ino \<Rightarrow> map_option (\<lambda>(fs', r). (fs', r, None)) (ext2fs_unlink env fs dir name ino)
      | Lookup name \<Rightarrow> map_option (\<lambda>r. (fs, r)) (ext2fs_lookup env fs dir name (length name) False))"

definition dir_spec ::
  "u32 \<Rightarrow> (u8 list \<times> u16 \<times> u32) list \<Rightarrow> dir_op \<Rightarrow> nat \<times> u32 option \<Rightarrow> (u8 list \<times> u16 \<times> u32) list \<Rightarrow> bool" where
  "dir_spec incompat a op r a' \<longleftrightarrow>
     (case op of
        Link name ino flags \<Rightarrow>
          r = (0, None) \<and> (\<exists>xs ys. a = xs @ ys \<and> a' = xs @ (name, type_bits incompat flags, ino) # ys) \<or>
          r = (EXT2_ET_DIR_NO_SPACE, None) \<and> a' = a
      | Unlink name ino \<Rightarrow>
          if name = None \<and> ino = 0 then r = (EXT2_ET_INVALID_ARGUMENT, None) \<and> a' = a
          else r = (if \<exists>x \<in> set a. unlink_match name ino x then 0 else EXT2_ET_DIR_NO_SPACE, None) \<and>
            a' = remove_first (unlink_match name ino) a
      | Lookup name \<Rightarrow>
          r = (case lookup_in name a of None \<Rightarrow> (EXT2_ET_FILE_NOT_FOUND, None) | Some i \<Rightarrow> (0, Some i)) \<and> a' = a)"

text \<open>Names are C strings; a name that is added has at most 255 characters and an inode.\<close>

definition dir_op_ok :: "dir_op \<Rightarrow> bool" where
  "dir_op_ok op = (case op of
     Link name ino flags \<Rightarrow> length name < 256 \<and> ino \<noteq> 0
   | Unlink name ino \<Rightarrow> (case name of None \<Rightarrow> True | Some n \<Rightarrow> 0 \<notin> set n)
   | Lookup name \<Rightarrow> 0 \<notin> set name)"

lemma dir_step_simulates:
  assumes "healthy env dir" "dir_ok env dir fs" "dir_op_ok op"
  shows "\<exists>fs' r. dir_step env dir fs op = Some (fs', r) \<and> dir_ok env dir fs' \<and> fs_incompat fs' = fs_incompat fs \<and>
    dir_spec (fs_incompat fs) (dir_list env dir fs) op r (dir_list env dir fs')"
proof (cases op)
  case (Link name ino flags)
  then have "length name < 256" "ino \<noteq> 0" using assms(3) by (simp_all add: dir_op_ok_def)
  then obtain fs' r where r: "ext2fs_link env fs dir name ino flags = Some (fs', r)" "dir_ok env dir fs'" "fs_incompat fs' = fs_incompat fs"
    "r = 0 \<and> linked env dir fs name (type_bits (fs_incompat fs) flags) ino fs' \<or>
     r = EXT2_ET_DIR_NO_SPACE \<and> dir_list env dir fs' = dir_list env dir fs"
    using link_result [OF assms(1, 2), of name ino flags] by blast
  have "dir_step env dir fs op = Some (fs', r, None)" using r(1) by (simp add: Link dir_step_def)
  moreover have "dir_spec (fs_incompat fs) (dir_list env dir fs) op (r, None) (dir_list env dir fs')"
    using r(4) unfolding Link dir_spec_def linked_def dir_op.case by blast
  ultimately show ?thesis using r(2, 3) by blast
next
  case (Unlink name ino)
  show ?thesis
  proof (cases "name = None \<and> ino = 0")
    case True
    then show ?thesis using assms(2) Unlink by (simp add: dir_step_def dir_spec_def ext2fs_unlink_def dir_ok_def)
  next
    case False
    have f: "name \<noteq> None \<or> ino \<noteq> 0" using False by (simp only: de_Morgan_conj simp_thms)
    have n: "\<forall>n. name = Some n \<longrightarrow> 0 \<notin> set n" using assms(3) Unlink by (simp add: dir_op_ok_def split: option.splits)
    obtain fs' r where r: "ext2fs_unlink env fs dir name ino = Some (fs', r)" "dir_ok env dir fs'" "fs_incompat fs' = fs_incompat fs"
      "dir_list env dir fs' = remove_first (unlink_match name ino) (dir_list env dir fs)"
      "r = (if \<exists>x \<in> set (dir_list env dir fs). unlink_match name ino x then 0 else EXT2_ET_DIR_NO_SPACE)"
      using unlink_result [OF assms(1, 2) n f] by (elim exE conjE) (rule that; assumption)
    have "dir_step env dir fs op = Some (fs', r, None)" using r(1) by (simp add: Unlink dir_step_def)
    moreover have "dir_spec (fs_incompat fs) (dir_list env dir fs) op (r, None) (dir_list env dir fs')"
      unfolding Unlink dir_spec_def dir_op.case if_not_P [OF False] r(4, 5) by simp
    ultimately show ?thesis using r(2, 3) by blast
  qed
next
  case (Lookup name)
  then have "0 \<notin> set name" using assms(3) by (simp add: dir_op_ok_def)
  from lookup_result [OF assms(1, 2) this, of False] show ?thesis
    using assms(2) by (simp add: Lookup dir_step_def dir_spec_def)
qed

interpretation directory: simulation "dir_step env dir" "dir_spec incompat"
    "\<lambda>fs. healthy env dir \<and> dir_ok env dir fs \<and> fs_incompat fs = incompat" "dir_list env dir" dir_op_ok
  for env dir incompat
  using dir_step_simulates by unfold_locales metis

text \<open>C36: Directories refine lists of names. On a device without errors, any sequence of insertions, removals and lookups in a
  directory of well-formed blocks is defined, answers what the same operations answer on the list of the entries in use, and
  leaves well-formed blocks with the resulting list: an insertion adds one entry and touches no other or is refused, a
  removal takes the first match, a lookup finds the first entry of the name.
\<close>

theorem ext2_directory_refines:
  assumes "healthy env dir" "dir_ok env dir fs" "list_all dir_op_ok ops"
  shows "\<exists>fs' rs. run_ops (dir_step env dir) fs ops = Some (fs', rs) \<and> dir_ok env dir fs' \<and>
    spec_run (dir_spec (fs_incompat fs)) (dir_list env dir fs) ops rs (dir_list env dir fs')"
  using directory.run_simulates [of env dir fs "fs_incompat fs" ops] assms by blast


definition good_env :: fs_env where
  "good_env = \<lparr>fe_mem = \<lambda>_. True, fe_read = \<lambda>_. 0, fe_write = \<lambda>_. 0, fe_read_inode = \<lambda>_. 0, fe_write_inode = \<lambda>_. 0,
     fe_check = \<lambda>_. 0, fe_iterate = \<lambda>_. 0, fe_blocks = \<lambda>_. [(0, 7)]\<rparr>"

definition empty_fs :: filsys where
  "empty_fs = \<lparr>fs_magic = EXT2_ET_MAGIC_EXT2FS_FILSYS, fs_flags = 1, fs_blocksize = 64, fs_incompat = 2,
     fs_disk = \<lambda>_. replicate 64 0, fs_iflags = \<lambda>_. EXT2_INDEX_FL\<rparr>"

lemma good_start: "\<exists>d. healthy good_env 2 \<and> dir_ok good_env 2 (empty_fs\<lparr>fs_disk := \<lambda>_. d\<rparr>) \<and>
    ext2fs_new_dir_block good_env empty_fs 2 2 = Some (Inr d)"
proof -
  obtain d where "ext2fs_new_dir_block good_env empty_fs 2 2 = Some (Inr d)" "block_ok 64 d"
    using new_block_result [of empty_fs good_env 2 2] by (auto simp: good_env_def empty_fs_def)
  then show ?thesis by (auto simp: healthy_def dir_ok_def good_env_def empty_fs_def data_blocks_def)
qed

lemma ext2_directory_refines_witness:
  "\<exists>d fs' rs. ext2fs_new_dir_block good_env empty_fs 2 2 = Some (Inr d) \<and>
     run_ops (dir_step good_env 2) (empty_fs\<lparr>fs_disk := \<lambda>_. d\<rparr>) [Link [97] 12 1, Lookup [97], Unlink (Some [97]) 0] = Some (fs', rs)"
proof -
  obtain d where d: "healthy good_env 2" "dir_ok good_env 2 (empty_fs\<lparr>fs_disk := \<lambda>_. d\<rparr>)"
    "ext2fs_new_dir_block good_env empty_fs 2 2 = Some (Inr d)"
    using good_start by blast
  have "list_all dir_op_ok [Link [97] 12 1, Lookup [97], Unlink (Some [97]) 0]" by (simp add: dir_op_ok_def)
  from ext2_directory_refines [OF d(1, 2) this] d(3) show ?thesis by blast
qed


end
