(* ===== verification/Crc16.thy ===== *)
theory Crc16
  imports NetPrelude
begin

text \<open>
  The checksum of the group descriptors of e2fsprogs: \<open>ext2fs_crc16\<close> of \<open>lib/ext2fs/crc16.c\<close> with its table, and the
  reference it implements, one bit at a time, for the reflected polynomial \<open>0xA001\<close>.
\<close>

definition crc16_table :: "u16 list" where
  "crc16_table =
    [0x0000, 0xC0C1, 0xC181, 0x0140, 0xC301, 0x03C0, 0x0280, 0xC241,
     0xC601, 0x06C0, 0x0780, 0xC741, 0x0500, 0xC5C1, 0xC481, 0x0440,
     0xCC01, 0x0CC0, 0x0D80, 0xCD41, 0x0F00, 0xCFC1, 0xCE81, 0x0E40,
     0x0A00, 0xCAC1, 0xCB81, 0x0B40, 0xC901, 0x09C0, 0x0880, 0xC841,
     0xD801, 0x18C0, 0x1980, 0xD941, 0x1B00, 0xDBC1, 0xDA81, 0x1A40,
     0x1E00, 0xDEC1, 0xDF81, 0x1F40, 0xDD01, 0x1DC0, 0x1C80, 0xDC41,
     0x1400, 0xD4C1, 0xD581, 0x1540, 0xD701, 0x17C0, 0x1680, 0xD641,
     0xD201, 0x12C0, 0x1380, 0xD341, 0x1100, 0xD1C1, 0xD081, 0x1040,
     0xF001, 0x30C0, 0x3180, 0xF141, 0x3300, 0xF3C1, 0xF281, 0x3240,
     0x3600, 0xF6C1, 0xF781, 0x3740, 0xF501, 0x35C0, 0x3480, 0xF441,
     0x3C00, 0xFCC1, 0xFD81, 0x3D40, 0xFF01, 0x3FC0, 0x3E80, 0xFE41,
     0xFA01, 0x3AC0, 0x3B80, 0xFB41, 0x3900, 0xF9C1, 0xF881, 0x3840,
     0x2800, 0xE8C1, 0xE981, 0x2940, 0xEB01, 0x2BC0, 0x2A80, 0xEA41,
     0xEE01, 0x2EC0, 0x2F80, 0xEF41, 0x2D00, 0xEDC1, 0xEC81, 0x2C40,
     0xE401, 0x24C0, 0x2580, 0xE541, 0x2700, 0xE7C1, 0xE681, 0x2640,
     0x2200, 0xE2C1, 0xE381, 0x2340, 0xE101, 0x21C0, 0x2080, 0xE041,
     0xA001, 0x60C0, 0x6180, 0xA141, 0x6300, 0xA3C1, 0xA281, 0x6240,
     0x6600, 0xA6C1, 0xA781, 0x6740, 0xA501, 0x65C0, 0x6480, 0xA441,
     0x6C00, 0xACC1, 0xAD81, 0x6D40, 0xAF01, 0x6FC0, 0x6E80, 0xAE41,
     0xAA01, 0x6AC0, 0x6B80, 0xAB41, 0x6900, 0xA9C1, 0xA881, 0x6840,
     0x7800, 0xB8C1, 0xB981, 0x7940, 0xBB01, 0x7BC0, 0x7A80, 0xBA41,
     0xBE01, 0x7EC0, 0x7F80, 0xBF41, 0x7D00, 0xBDC1, 0xBC81, 0x7C40,
     0xB401, 0x74C0, 0x7580, 0xB541, 0x7700, 0xB7C1, 0xB681, 0x7640,
     0x7200, 0xB2C1, 0xB381, 0x7340, 0xB101, 0x71C0, 0x7080, 0xB041,
     0x5000, 0x90C1, 0x9181, 0x5140, 0x9301, 0x53C0, 0x5280, 0x9241,
     0x9601, 0x56C0, 0x5780, 0x9741, 0x5500, 0x95C1, 0x9481, 0x5440,
     0x9C01, 0x5CC0, 0x5D80, 0x9D41, 0x5F00, 0x9FC1, 0x9E81, 0x5E40,
     0x5A00, 0x9AC1, 0x9B81, 0x5B40, 0x9901, 0x59C0, 0x5880, 0x9841,
     0x8801, 0x48C0, 0x4980, 0x8941, 0x4B00, 0x8BC1, 0x8A81, 0x4A40,
     0x4E00, 0x8EC1, 0x8F81, 0x4F40, 0x8D01, 0x4DC0, 0x4C80, 0x8C41,
     0x4400, 0x84C1, 0x8581, 0x4540, 0x8701, 0x47C0, 0x4680, 0x8641,
     0x8201, 0x42C0, 0x4380, 0x8341, 0x4100, 0x81C1, 0x8081, 0x4040]"

text \<open>The state is an \<open>unsigned int\<close>, of which every step keeps the low 16 bits.\<close>

definition crc16_step :: "u8 \<Rightarrow> u32 \<Rightarrow> u32" where
  "crc16_step b crc =
     ((drop_bit 8 crc AND 0xff) XOR ucast (crc16_table ! unat ((crc XOR ucast b) AND 0xff))) AND 0xffff"

definition ext2fs_crc16 :: "u32 \<Rightarrow> u8 list \<Rightarrow> u32" where
  "ext2fs_crc16 crc buffer = fold crc16_step buffer crc"

subsection \<open>Bit by bit\<close>

definition crc16_bit :: "u16 \<Rightarrow> u16" where
  "crc16_bit c = (if bit c 0 then drop_bit 1 c XOR 0xA001 else drop_bit 1 c)"

definition crc16_byte :: "u8 \<Rightarrow> u16 \<Rightarrow> u16" where
  "crc16_byte b crc = (crc16_bit ^^ 8) (crc XOR ucast b)"

lemma crc16_bit_xor: "crc16_bit (a XOR b) = crc16_bit a XOR crc16_bit b"
  by (auto simp: crc16_bit_def bit_xor_iff ac_simps drop_bit_xor)

lemma crc16_bits_xor: "(crc16_bit ^^ n) (a XOR b) = (crc16_bit ^^ n) a XOR (crc16_bit ^^ n) b"
  by (induction n) (simp_all add: crc16_bit_xor)

text \<open>The low byte selects a row of the table, the high byte moves down.\<close>

lemma crc16_bits_high:
  "n \<le> 8 \<Longrightarrow> \<forall>i < 8. \<not> bit c i \<Longrightarrow> (crc16_bit ^^ n) c = drop_bit n (c :: u16)"
proof (induction n)
  case (Suc n)
  then have "(crc16_bit ^^ n) c = drop_bit n c" "\<not> bit c n" by simp_all
  moreover from this have "crc16_bit (drop_bit n c) = drop_bit 1 (drop_bit n c)" by (simp add: crc16_bit_def bit_drop_bit_eq)
  ultimately show ?case by (simp add: drop_bit_drop_bit)
qed simp

text \<open>The rows of the table: those of the two halves of the index are enough.\<close>

definition crc16_row :: "nat \<Rightarrow> u16" where
  "crc16_row i = (crc16_bit ^^ 8) (of_nat i)"

lemma crc16_eight:
  "(crc16_bit ^^ 8) c = crc16_bit (crc16_bit (crc16_bit (crc16_bit (crc16_bit (crc16_bit (crc16_bit (crc16_bit c)))))))"
  by (simp add: eval_nat_numeral)

lemma crc16_row_halves: "h < 16 \<Longrightarrow> l < 16 \<Longrightarrow> crc16_row (16 * h + l) = crc16_row (16 * h) XOR crc16_row l"
proof -
  assume "h < 16" "l < 16"
  have lo: "bit l k \<Longrightarrow> k < 4" for k
  proof (rule ccontr)
    assume "bit l k" "\<not> k < 4"
    then have "(16 :: nat) \<le> 2 ^ k" using power_increasing [of 4 k "2 :: nat"] by simp
    then show False using \<open>l < 16\<close> \<open>bit l k\<close> by (simp add: bit_iff_odd)
  qed
  have hi: "16 * h = push_bit 4 h" by (simp add: push_bit_eq_mult)
  have "16 * h AND l = 0" unfolding hi by (rule bit_eqI) (auto simp: bit_simps dest: lo)
  then have "16 * h + l = 16 * h XOR l" by (simp add: disjunctive_add_eq_xor)
  moreover have "(of_nat (16 * h XOR l) :: u16) = of_nat (16 * h) XOR of_nat l" by (rule of_nat_xor_eq)
  ultimately have "(of_nat (16 * h + l) :: u16) = of_nat (16 * h) XOR of_nat l" by simp
  then show ?thesis unfolding crc16_row_def crc16_bits_xor [symmetric] by simp
qed

definition crc16_lows :: "u16 list" where
  "crc16_lows = [0x0000, 0xC0C1, 0xC181, 0x0140, 0xC301, 0x03C0, 0x0280, 0xC241, 0xC601, 0x06C0, 0x0780, 0xC741, 0x0500, 0xC5C1, 0xC481, 0x0440]"

definition crc16_highs :: "u16 list" where
  "crc16_highs = [0x0000, 0xCC01, 0xD801, 0x1400, 0xF001, 0x3C00, 0x2800, 0xE401, 0xA001, 0x6C00, 0x7800, 0xB401, 0x5000, 0x9C01, 0x8801, 0x4400]"

lemma sixteen: "[0 ..< 16] = [0, 1, 2, 3, 4, 5, 6, 7, 8, 9, 10, 11, 12, 13, 14, 15 :: nat]"
  by code_simp

lemma crc16_half_rows: "map crc16_row [0 ..< 16] = crc16_lows" "map (\<lambda>h. crc16_row (16 * h)) [0 ..< 16] = crc16_highs"
  unfolding crc16_row_def crc16_eight crc16_lows_def crc16_highs_def sixteen list.map of_nat_0 of_nat_1 of_nat_numeral of_nat_mult
  by (code_simp, code_simp)

lemma crc16_table_halves: "crc16_table = concat (map (\<lambda>a. map (\<lambda>b. a XOR b) crc16_lows) crc16_highs)"
  unfolding crc16_table_def crc16_lows_def crc16_highs_def by simp

lemma crc16_indices: "[0 ..< 256] = concat (map (\<lambda>h. map (\<lambda>l. 16 * h + l) [0 ..< 16]) [0 ..< (16 :: nat)])"
  by code_simp

lemma crc16_table_rows: "crc16_table = map crc16_row [0 ..< 256]"
proof -
  have "map crc16_row [0 ..< 256] = concat (map (\<lambda>h. map (\<lambda>l. crc16_row (16 * h + l)) [0 ..< 16]) [0 ..< 16])"
    unfolding crc16_indices by (simp add: map_concat comp_def del: upt_conv_Cons)
  also have "\<dots> = concat (map (\<lambda>h. map (\<lambda>l. crc16_row (16 * h) XOR crc16_row l) [0 ..< 16]) [0 ..< 16])"
    by (intro arg_cong [of _ _ concat] map_cong refl) (simp add: crc16_row_halves)
  also have "\<dots> = crc16_table"
    unfolding crc16_table_halves crc16_half_rows [symmetric] by (simp add: comp_def del: upt_conv_Cons)
  finally show ?thesis by simp
qed

lemma low_high_byte: "(c :: u16) = (c AND 0xff) XOR push_bit 8 (drop_bit 8 c)"
proof -
  have "(0xff :: u16) = mask 8" by (simp add: mask_eq_exp_minus_1)
  show ?thesis unfolding \<open>0xff = mask 8\<close> by (intro bit_word_eqI) (auto simp: bit_simps)
qed

lemma crc16_byte_row: "(crc16_bit ^^ 8) c = drop_bit 8 c XOR crc16_table ! unat (c AND 0xff)"
proof -
  have ff: "(0xff :: u16) = mask 8" by (simp add: mask_eq_exp_minus_1)
  have "unat (c AND 0xff) < 256"
    unfolding ff using take_bit_nat_less_exp [of 8 "unat c"] by (simp add: take_bit_eq_mask [symmetric] unsigned_take_bit_eq)
  then have row: "crc16_table ! unat (c AND 0xff) = (crc16_bit ^^ 8) (c AND 0xff)"
    by (simp add: crc16_table_rows crc16_row_def)
  have high: "(crc16_bit ^^ 8) (push_bit 8 (drop_bit 8 c)) = drop_bit 8 c"
  proof -
    have "drop_bit 8 (push_bit 8 (drop_bit 8 c)) = drop_bit 8 c"
      using bit_imp_le_length [of c] by (intro bit_word_eqI) (fastforce simp: bit_simps)
    then show ?thesis using crc16_bits_high [of 8 "push_bit 8 (drop_bit 8 c)"] by (simp add: bit_simps)
  qed
  have "(crc16_bit ^^ 8) c = (crc16_bit ^^ 8) ((c AND 0xff) XOR push_bit 8 (drop_bit 8 c))"
    using low_high_byte [of c] by simp
  then show ?thesis unfolding crc16_bits_xor high row by (simp add: ac_simps)
qed

lemma crc16_step_byte: "crc16_step b crc = ucast (crc16_byte b (ucast crc))"
proof -
  let ?x = "ucast crc XOR ucast b :: u16"
  have ff: "(0xff :: u16) = mask 8" "(0xff :: u32) = mask 8" "(0xffff :: u32) = mask 16" by (simp_all add: mask_eq_exp_minus_1)
  have i: "unat ((crc XOR ucast b) AND 0xff) = unat (?x AND 0xff)"
  proof -
    have "(crc XOR ucast b) AND 0xff = ucast (?x AND 0xff)" unfolding ff by (rule bit_word_eqI) (auto simp: bit_simps)
    then show ?thesis by simp
  qed
  have b8: "\<not> bit b k" if "8 \<le> k" for k using that bit_imp_le_length [of b k] by auto
  have d: "drop_bit 8 ?x = drop_bit 8 (ucast crc)" by (rule bit_word_eqI) (auto simp: bit_simps b8)
  show ?thesis
    unfolding crc16_step_def crc16_byte_def crc16_byte_row i d unfolding ff
    using bit_imp_le_length [of "crc16_table ! unat (?x AND mask 8)"] by (intro bit_word_eqI) (auto simp: bit_simps)
qed

lemma crc16_fold:
  "ext2fs_crc16 crc buffer = (if buffer = [] then crc else ucast (fold crc16_byte buffer (ucast crc)))"
proof (induction buffer arbitrary: crc)
  case (Cons b buffer)
  have "ucast (ucast (crc16_byte b (ucast crc)) :: u32) = crc16_byte b (ucast crc)" by (rule bit_word_eqI) (auto simp: bit_simps)
  then show ?case using Cons [of "crc16_step b crc"] by (cases buffer) (simp_all add: ext2fs_crc16_def crc16_step_byte)
qed (simp add: ext2fs_crc16_def)

subsection \<open>What the checksum detects\<close>

lemma xor_cancel: "(x :: u16) XOR a = y XOR a \<longleftrightarrow> x = y"
  by (metis xor.assoc xor.right_neutral xor_self_eq)

lemma crc16_bit_inj: "crc16_bit a = crc16_bit b \<Longrightarrow> a = b"
proof -
  assume "crc16_bit a = crc16_bit b"
  then have z: "crc16_bit (a XOR b) = 0" by (simp add: crc16_bit_xor)
  have odd: "\<not> bit (a XOR b) 0"
  proof
    assume o: "bit (a XOR b) 0"
    then have "drop_bit 1 (a XOR b) XOR 0xA001 = 0" using z by (simp add: crc16_bit_def)
    then have "bit (drop_bit 1 (a XOR b) XOR 0xA001) 15 = bit (0 :: u16) 15" by (simp only:)
    moreover have "\<not> bit (drop_bit 1 (a XOR b)) 15"
      using bit_imp_le_length [of "a XOR b" 16] by (auto simp: bit_drop_bit_eq simp del: drop_bit_xor)
    moreover have "bit (0xA001 :: u16) 15" "\<not> bit (0 :: u16) 15" by simp_all
    ultimately show False unfolding bit_xor_iff by blast
  qed
  then have d: "drop_bit 1 (a XOR b) = 0" using z by (simp add: crc16_bit_def)
  have "bit (a XOR b) (Suc n) \<longleftrightarrow> bit (drop_bit 1 (a XOR b)) n" for n by (simp only: bit_drop_bit_eq comp_apply plus_1_eq_Suc)
  then have "\<not> bit (a XOR b) (Suc n)" for n unfolding d by simp
  then have "\<not> bit (a XOR b) n" for n using odd by (cases n) simp_all
  then have "a XOR b = b XOR b" by (intro bit_word_eqI) simp
  then show "a = b" by (simp only: xor_cancel)
qed

lemma crc16_bits_inj: "(crc16_bit ^^ n) a = (crc16_bit ^^ n) b \<Longrightarrow> a = b"
  by (induction n) (auto dest: crc16_bit_inj)

lemma crc16_byte_inj: "crc16_byte b c = crc16_byte b c' \<longleftrightarrow> c = c'"
  unfolding crc16_byte_def using crc16_bits_inj by (metis xor_cancel)

lemma crc16_fold_inj: "fold crc16_byte buf c = fold crc16_byte buf c' \<longleftrightarrow> c = c'"
  by (induction buf arbitrary: c c') (simp_all add: crc16_byte_inj)

text \<open>Two bytes in a row are sixteen bits of the state.\<close>

lemma crc16_two: "fold crc16_byte [a, b] c = (crc16_bit ^^ 16) (c XOR ucast a XOR push_bit 8 (ucast b))"
proof -
  have "(crc16_bit ^^ 8) (push_bit 8 (ucast b :: u16)) = ucast b"
  proof -
    have "drop_bit 8 (push_bit 8 (ucast b :: u16)) = ucast b"
      using bit_imp_le_length [of b] by (intro bit_word_eqI) (fastforce simp: bit_simps)
    then show ?thesis using crc16_bits_high [of 8 "push_bit 8 (ucast b)"] by (simp add: bit_simps)
  qed
  then have "(crc16_bit ^^ 8) (c XOR ucast a) XOR ucast b = (crc16_bit ^^ 8) (c XOR ucast a XOR push_bit 8 (ucast b))"
    by (simp add: crc16_bits_xor ac_simps)
  moreover have "(crc16_bit ^^ 16) x = (crc16_bit ^^ 8) ((crc16_bit ^^ 8) x)" for x
    by (simp flip: funpow_add comp_apply [of "crc16_bit ^^ 8"])
  ultimately show ?thesis by (simp add: crc16_byte_def)
qed

lemma crc16_two_inj: "fold crc16_byte [a, b] c = fold crc16_byte [a', b'] c \<longleftrightarrow> a = a' \<and> b = b'"
proof
  assume "fold crc16_byte [a, b] c = fold crc16_byte [a', b'] c"
  then have "c XOR ucast a XOR push_bit 8 (ucast b) = c XOR ucast a' XOR push_bit 8 (ucast b')"
    unfolding crc16_two by (rule crc16_bits_inj)
  then have "(ucast a XOR push_bit 8 (ucast b)) XOR c = (ucast a' XOR push_bit 8 (ucast b')) XOR c" by (simp add: ac_simps)
  then have e: "ucast a XOR push_bit 8 (ucast b) = (ucast a' XOR push_bit 8 (ucast b') :: u16)" by (simp only: xor_cancel)
  have "ucast (ucast x XOR push_bit 8 (ucast y) :: u16) = x" "ucast (drop_bit 8 (ucast x XOR push_bit 8 (ucast y) :: u16)) = y" for x y :: u8
    using bit_imp_le_length [of x] by (intro bit_word_eqI; fastforce simp: bit_simps)+
  then show "a = a' \<and> b = b'" by (metis e)
qed simp

lemma crc16_fold_window:
  assumes "length u = length v" "length u \<le> 2" "u \<noteq> []"
  shows "fold crc16_byte (xs @ u @ ys) c = fold crc16_byte (xs @ v @ ys) c \<longleftrightarrow> u = v"
proof -
  have "fold crc16_byte u c = fold crc16_byte v c \<longleftrightarrow> u = v" for c
  proof (cases "length u = 2")
    case True
    then obtain a b a' b' where "u = [a, b]" "v = [a', b']" using assms(1) by (auto simp: numeral_2_eq_2 length_Suc_conv)
    then show ?thesis using crc16_two_inj by simp
  next
    case False
    then have "length u = 1" using assms by (cases u) auto
    then obtain a a' where uv: "u = [a]" "v = [a']" using assms(1) by (auto simp: length_Suc_conv)
    then show ?thesis using crc16_two_inj [of a 0 c a' 0] crc16_byte_inj by (auto simp: crc16_byte_inj)
  qed
  then show ?thesis by (simp add: crc16_fold_inj)
qed

lemma crc16_window:
  assumes "length u = length v" "length u \<le> 2" "u \<noteq> []"
  shows "ext2fs_crc16 crc (xs @ u @ ys) = ext2fs_crc16 crc (xs @ v @ ys) \<longleftrightarrow> u = v"
proof -
  have inj: "ucast (x :: u16) = (ucast y :: u32) \<longleftrightarrow> x = y" for x y
  proof
    assume "ucast x = (ucast y :: u32)"
    then have "unat (ucast x :: u32) = unat (ucast y :: u32)" by simp
    then show "x = y" by (simp add: word_unat_eq_iff)
  qed simp
  have ne: "xs @ u @ ys \<noteq> []" "xs @ v @ ys \<noteq> []" using assms by auto
  show ?thesis unfolding crc16_fold if_not_P [OF ne(1)] if_not_P [OF ne(2)] inj by (rule crc16_fold_window [OF assms])
qed

text \<open>C38: The table-driven \<open>ext2fs_crc16\<close> is the bitwise remainder by the reflected polynomial \<open>0xA001\<close>, for every buffer and every
  state, of which only the low 16 bits matter; and it detects every error that is confined to two adjacent bytes.
\<close>

theorem ext2fs_crc16_bitwise:
  "ext2fs_crc16 crc buffer = (if buffer = [] then crc else ucast (fold crc16_byte buffer (ucast crc))) \<and>
   (length u = length v \<longrightarrow> length u \<le> 2 \<longrightarrow> u \<noteq> [] \<longrightarrow>
      (ext2fs_crc16 crc (xs @ u @ ys) = ext2fs_crc16 crc (xs @ v @ ys) \<longleftrightarrow> u = v))"
  using crc16_fold crc16_window by blast

lemma ext2fs_crc16_bitwise_witness: "ext2fs_crc16 0xffff ([1, 2] @ [3, 4] @ [5]) \<noteq> ext2fs_crc16 0xffff ([1, 2] @ [4, 3] @ [5])"
  using conjunct2 [OF ext2fs_crc16_bitwise [of "0xffff" "[]" "[3, 4]" "[4, 3]" "[1, 2]" "[5]"]] by simp

end
