(* ===== verification/GroupCsum.thy ===== *)
theory GroupCsum
  imports Crc16 "HOL-Library.Monad_Syntax"
begin

text \<open>
  The checksums of the block group descriptors (\<open>lib/ext2fs/csum.c\<close>), with the fields of a descriptor that they
  use (\<open>lib/ext2fs/blknum.c\<close>). The table of descriptors is one block of memory; an access outside it is \<open>None\<close>.
  Group numbers are natural numbers: the offset of a descriptor is below the size of the table, which fits in memory.
\<close>

abbreviation EXT2_ET_NO_INODE_BITMAP :: nat where "EXT2_ET_NO_INODE_BITMAP \<equiv> 2133571367"
abbreviation EXT4_FEATURE_INCOMPAT_64BIT :: u32 where "EXT4_FEATURE_INCOMPAT_64BIT \<equiv> 0x80"
abbreviation EXT4_FEATURE_RO_COMPAT_GDT_CSUM :: u32 where "EXT4_FEATURE_RO_COMPAT_GDT_CSUM \<equiv> 0x10"
abbreviation EXT2_BG_INODE_UNINIT :: u16 where "EXT2_BG_INODE_UNINIT \<equiv> 1"

text \<open>What the functions use of the file system and its superblock; the inode bitmap is absent or a test.\<close>

record group_fs =
  gf_incompat :: u32
  gf_ro_compat :: u32
  gf_uuid :: "u8 list"
  gf_desc_size :: u16
  gf_inodes_per_group :: u32
  gf_count :: nat
  gf_desc :: "u8 list"
  gf_inode_map :: "(nat \<Rightarrow> bool) option"
  gf_flags :: u32

definition EXT2_DESC_SIZE :: "group_fs \<Rightarrow> nat" where
  "EXT2_DESC_SIZE fs = (if gf_incompat fs AND EXT4_FEATURE_INCOMPAT_64BIT \<noteq> 0 then unat (gf_desc_size fs) else 32)"

definition ext2fs_group_desc :: "group_fs \<Rightarrow> nat \<Rightarrow> nat" where
  "ext2fs_group_desc fs grp = grp * EXT2_DESC_SIZE fs"

text \<open>16-bit fields, and counts with their high halves.\<close>

definition bg_get :: "group_fs \<Rightarrow> nat \<Rightarrow> nat \<Rightarrow> u16 option" where
  "bg_get fs grp field = map_option of_le16 (block_read (gf_desc fs) (ext2fs_group_desc fs grp + field) 2)"

definition bg_put :: "group_fs \<Rightarrow> nat \<Rightarrow> nat \<Rightarrow> u16 \<Rightarrow> group_fs option" where
  "bg_put fs grp field w =
     map_option (\<lambda>d. fs\<lparr>gf_desc := d\<rparr>) (block_write (gf_desc fs) (ext2fs_group_desc fs grp + field) (le16 w))"

definition bg_count :: "group_fs \<Rightarrow> nat \<Rightarrow> nat \<Rightarrow> nat \<Rightarrow> u32 option" where
  "bg_count fs grp lo hi = do {
     l \<leftarrow> bg_get fs grp lo;
     if gf_incompat fs AND EXT4_FEATURE_INCOMPAT_64BIT \<noteq> 0
     then map_option (\<lambda>h. ucast l OR push_bit 16 (ucast h)) (bg_get fs grp hi)
     else Some (ucast l)
   }"

definition ext2fs_bg_free_inodes_count :: "group_fs \<Rightarrow> nat \<Rightarrow> u32 option" where
  "ext2fs_bg_free_inodes_count fs grp = bg_count fs grp 14 46"

definition ext2fs_bg_itable_unused :: "group_fs \<Rightarrow> nat \<Rightarrow> u32 option" where
  "ext2fs_bg_itable_unused fs grp = bg_count fs grp 28 50"

definition ext2fs_bg_itable_unused_set :: "group_fs \<Rightarrow> nat \<Rightarrow> u32 \<Rightarrow> group_fs option" where
  "ext2fs_bg_itable_unused_set fs grp n = do {
     fs1 \<leftarrow> bg_put fs grp 28 (ucast n);
     if gf_incompat fs AND EXT4_FEATURE_INCOMPAT_64BIT \<noteq> 0 then bg_put fs1 grp 50 (ucast (drop_bit 16 n)) else Some fs1
   }"

definition ext2fs_bg_flags :: "group_fs \<Rightarrow> nat \<Rightarrow> u16 option" where
  "ext2fs_bg_flags fs grp = bg_get fs grp 18"

definition ext2fs_bg_flags_set :: "group_fs \<Rightarrow> nat \<Rightarrow> u16 \<Rightarrow> group_fs option" where
  "ext2fs_bg_flags_set fs grp w = do { f \<leftarrow> bg_get fs grp 18; bg_put fs grp 18 (f OR w) }"

definition ext2fs_bg_flags_clear :: "group_fs \<Rightarrow> nat \<Rightarrow> u16 \<Rightarrow> group_fs option" where
  "ext2fs_bg_flags_clear fs grp w = do { f \<leftarrow> bg_get fs grp 18; bg_put fs grp 18 (f AND NOT w) }"

definition ext2fs_bg_checksum :: "group_fs \<Rightarrow> nat \<Rightarrow> u16 option" where
  "ext2fs_bg_checksum fs grp = bg_get fs grp 30"

definition ext2fs_bg_checksum_set :: "group_fs \<Rightarrow> nat \<Rightarrow> u16 \<Rightarrow> group_fs option" where
  "ext2fs_bg_checksum_set fs grp w = bg_put fs grp 30 w"

text \<open>The checksum of a descriptor, over the identifier of the file system, the number of the group and the descriptor without
  its checksum. Without the feature the result is an uninitialised variable.\<close>

definition ext2fs_group_desc_csum :: "group_fs \<Rightarrow> nat \<Rightarrow> u16 option" where
  "ext2fs_group_desc_csum fs grp =
     (let desc = ext2fs_group_desc fs grp; size' = EXT2_DESC_SIZE fs
      in if gf_ro_compat fs AND EXT4_FEATURE_RO_COMPAT_GDT_CSUM = 0 then None
         else do {
           let crc = ext2fs_crc16 0xFFFFFFFF (gf_uuid fs);
           let crc = ext2fs_crc16 (crc AND 0xffff) (le32 (of_nat grp));
           head \<leftarrow> block_read (gf_desc fs) desc 30;
           let crc = ext2fs_crc16 (crc AND 0xffff) head;
           if 32 < size'
           then map_option (\<lambda>tail. ucast (ext2fs_crc16 (crc AND 0xffff) tail)) (block_read (gf_desc fs) (desc + 32) (size' - 32))
           else Some (ucast crc)
         })"

definition ext2fs_group_desc_csum_verify :: "group_fs \<Rightarrow> nat \<Rightarrow> bool option" where
  "ext2fs_group_desc_csum_verify fs grp =
     (if gf_ro_compat fs AND EXT4_FEATURE_RO_COMPAT_GDT_CSUM = 0 then Some True
      else do {
        a \<leftarrow> ext2fs_bg_checksum fs grp;
        b \<leftarrow> ext2fs_group_desc_csum fs grp;
        Some (a = b)
      })"

definition ext2fs_group_desc_csum_set :: "group_fs \<Rightarrow> nat \<Rightarrow> group_fs option" where
  "ext2fs_group_desc_csum_set fs grp =
     (if gf_ro_compat fs AND EXT4_FEATURE_RO_COMPAT_GDT_CSUM = 0 then Some fs
      else do {
        crc \<leftarrow> ext2fs_group_desc_csum fs grp;
        ext2fs_bg_checksum_set fs grp crc
      })"

text \<open>The loop runs down from the last inode of the group.\<close>

primrec last_inode :: "(nat \<Rightarrow> bool) \<Rightarrow> nat \<Rightarrow> nat \<Rightarrow> nat \<Rightarrow> nat" where
  "last_inode bitmap start_ino ipg 0 = ipg"
| "last_inode bitmap start_ino ipg (Suc n) =
     (if bitmap (start_ino + n) then n + 1 else last_inode bitmap start_ino ipg n)"

definition find_last_inode_ingrp :: "(nat \<Rightarrow> bool) \<Rightarrow> nat \<Rightarrow> nat \<Rightarrow> nat" where
  "find_last_inode_ingrp bitmap inodes_per_grp grp_no =
     last_inode bitmap (grp_no * inodes_per_grp + 1) inodes_per_grp inodes_per_grp"

definition set_group_csum :: "(nat \<Rightarrow> bool) \<Rightarrow> group_fs \<Rightarrow> nat \<Rightarrow> (group_fs \<times> bool) option" where
  "set_group_csum bitmap fs i = do {
     old_csum \<leftarrow> ext2fs_bg_checksum fs i;
     old_unused \<leftarrow> ext2fs_bg_itable_unused fs i;
     old_flags \<leftarrow> ext2fs_bg_flags fs i;
     old_free_inodes_count \<leftarrow> ext2fs_bg_free_inodes_count fs i;
     fs2 \<leftarrow> (if old_free_inodes_count = gf_inodes_per_group fs then do {
               fs1 \<leftarrow> ext2fs_bg_flags_set fs i EXT2_BG_INODE_UNINIT;
               ext2fs_bg_itable_unused_set fs1 i (gf_inodes_per_group fs)
             } else do {
               let unused = gf_inodes_per_group fs - of_nat (find_last_inode_ingrp bitmap (unat (gf_inodes_per_group fs)) i);
               fs1 \<leftarrow> ext2fs_bg_flags_clear fs i EXT2_BG_INODE_UNINIT;
               ext2fs_bg_itable_unused_set fs1 i unused
             });
     fs3 \<leftarrow> ext2fs_group_desc_csum_set fs2 i;
     flags \<leftarrow> ext2fs_bg_flags fs3 i;
     unused \<leftarrow> ext2fs_bg_itable_unused fs3 i;
     csum \<leftarrow> ext2fs_bg_checksum fs3 i;
     Some (fs3, old_flags \<noteq> flags \<or> old_unused \<noteq> unused \<or> old_csum \<noteq> csum)
   }"

primrec set_groups :: "(nat \<Rightarrow> bool) \<Rightarrow> nat list \<Rightarrow> group_fs \<Rightarrow> bool \<Rightarrow> (group_fs \<times> bool) option" where
  "set_groups bitmap [] fs dirty = Some (fs, dirty)"
| "set_groups bitmap (i # is) fs dirty = do {
     (fs', ch) \<leftarrow> set_group_csum bitmap fs i;
     set_groups bitmap is fs' (dirty \<or> ch)
   }"

definition ext2fs_set_gdt_csum :: "group_fs \<Rightarrow> (group_fs \<times> nat) option" where
  "ext2fs_set_gdt_csum fs =
     (case gf_inode_map fs of
        None \<Rightarrow> Some (fs, EXT2_ET_NO_INODE_BITMAP)
      | Some bitmap \<Rightarrow>
          if gf_ro_compat fs AND EXT4_FEATURE_RO_COMPAT_GDT_CSUM = 0 then Some (fs, 0)
          else do {
            (fs', dirty) \<leftarrow> set_groups bitmap [0 ..< gf_count fs] fs False;
            Some (if dirty then fs'\<lparr>gf_flags := gf_flags fs' OR 6\<rparr> else fs', 0)
          })"

subsection \<open>What is checked\<close>

definition table_ok :: "group_fs \<Rightarrow> bool" where
  "table_ok fs \<longleftrightarrow> length (gf_desc fs) = gf_count fs * EXT2_DESC_SIZE fs \<and> 32 \<le> EXT2_DESC_SIZE fs \<and>
     (gf_incompat fs AND EXT4_FEATURE_INCOMPAT_64BIT \<noteq> 0 \<longrightarrow> 64 \<le> EXT2_DESC_SIZE fs) \<and>
     gf_ro_compat fs AND EXT4_FEATURE_RO_COMPAT_GDT_CSUM \<noteq> 0"

text \<open>The bytes under the checksum of a group.\<close>

definition covered :: "group_fs \<Rightarrow> nat \<Rightarrow> u8 list" where
  "covered fs g = gf_uuid fs @ le32 (of_nat g) @ slice (ext2fs_group_desc fs g) 30 (gf_desc fs) @
     slice (ext2fs_group_desc fs g + 32) (EXT2_DESC_SIZE fs - 32) (gf_desc fs)"

lemma desc_update [simp]:
  "EXT2_DESC_SIZE (fs\<lparr>gf_desc := d\<rparr>) = EXT2_DESC_SIZE fs" "ext2fs_group_desc (fs\<lparr>gf_desc := d\<rparr>) g = ext2fs_group_desc fs g"
  "length d = length (gf_desc fs) \<Longrightarrow> table_ok (fs\<lparr>gf_desc := d\<rparr>) = table_ok fs"
  by (simp_all add: EXT2_DESC_SIZE_def ext2fs_group_desc_def table_ok_def)

lemma desc_inside:
  assumes "table_ok fs" "g < gf_count fs"
  shows "ext2fs_group_desc fs g + EXT2_DESC_SIZE fs \<le> length (gf_desc fs)"
proof -
  have "(g + 1) * EXT2_DESC_SIZE fs \<le> gf_count fs * EXT2_DESC_SIZE fs" using assms(2) by (intro mult_le_mono1) simp
  then show ?thesis using assms(1) by (simp add: table_ok_def ext2fs_group_desc_def)
qed

lemma crc16_state: "ucast (ext2fs_crc16 c xs) = fold crc16_byte xs (ucast c)" "ucast (c AND 0xffff) = (ucast c :: u16)"
proof -
  have u: "ucast (ucast w :: u32) = (w :: u16)" for w by (rule bit_word_eqI) (auto simp: bit_simps)
  show "ucast (ext2fs_crc16 c xs) = fold crc16_byte xs (ucast c)" by (simp add: crc16_fold u)
  have ff: "(0xffff :: u32) = mask 16" by (simp add: mask_eq_exp_minus_1)
  show "ucast (c AND 0xffff) = (ucast c :: u16)" unfolding ff by (rule bit_word_eqI) (auto simp: bit_simps)
qed

lemma csum_covered:
  assumes "table_ok fs" "g < gf_count fs"
  shows "ext2fs_group_desc_csum fs g = Some (fold crc16_byte (covered fs g) 0xFFFF)"
proof -
  note i = desc_inside [OF assms]
  have s: "32 \<le> EXT2_DESC_SIZE fs" and f: "\<not> gf_ro_compat fs AND EXT4_FEATURE_RO_COMPAT_GDT_CSUM = 0" using assms(1) by (simp_all add: table_ok_def)
  have r: "block_read (gf_desc fs) (ext2fs_group_desc fs g) 30 = Some (slice (ext2fs_group_desc fs g) 30 (gf_desc fs))"
    "block_read (gf_desc fs) (ext2fs_group_desc fs g + 32) (EXT2_DESC_SIZE fs - 32) =
      Some (slice (ext2fs_group_desc fs g + 32) (EXT2_DESC_SIZE fs - 32) (gf_desc fs))"
    using i s by (simp_all add: block_read_def)
  have ones: "(0xFFFFFFFF :: u16) = 0xFFFF" by simp
  have none: "slice i 0 d = []" for i and d :: "u8 list" by (simp add: slice_def)
  show ?thesis
    using f none by (simp add: ext2fs_group_desc_csum_def Let_def r crc16_state ones covered_def)
qed

lemma fields:
  assumes "table_ok fs" "g < gf_count fs" "k + 2 \<le> EXT2_DESC_SIZE fs"
  shows "bg_get fs g k = Some (of_le16 (slice (ext2fs_group_desc fs g + k) 2 (gf_desc fs)))"
    "bg_put fs g k w = Some (fs\<lparr>gf_desc := write_at (ext2fs_group_desc fs g + k) (le16 w) (gf_desc fs)\<rparr>)"
  using desc_inside [OF assms(1, 2)] assms(3) by (simp_all add: bg_get_def bg_put_def block_read_def block_write_def)

lemma verify_covered:
  assumes "table_ok fs" "g < gf_count fs"
  shows "ext2fs_group_desc_csum_verify fs g =
    Some (of_le16 (slice (ext2fs_group_desc fs g + 30) 2 (gf_desc fs)) = fold crc16_byte (covered fs g) 0xFFFF)"
proof -
  have "30 + 2 \<le> EXT2_DESC_SIZE fs" using assms(1) by (simp add: table_ok_def)
  then show ?thesis
    using assms csum_covered [OF assms] fields(1) [OF assms, of 30]
    by (simp add: ext2fs_group_desc_csum_verify_def ext2fs_bg_checksum_def table_ok_def)
qed

text \<open>Writing in the middle of a block.\<close>

lemma split_slice:
  assumes "i + n \<le> length d"
  shows "d = take i d @ slice i n d @ drop (i + n) d"
  using assms by (metis append_take_drop_id drop_drop add.commute slice_def)

lemma write_window:
  assumes "a \<le> i" "i + length v \<le> a + n" "a + n \<le> length d"
  shows "slice a n (write_at i v d) = slice a (i - a) d @ v @ slice (i + length v) (a + n - (i + length v)) d"
    "slice a n d = slice a (i - a) d @ slice i (length v) d @ slice (i + length v) (a + n - (i + length v)) d"
proof -
  have m: "length (slice i (length v) d) = length v" "write_at i (slice i (length v) d) d = d"
    using split_slice [of i "length v" d] assms by (simp_all add: write_at_def)
  have w: "slice a n (write_at i w d) = slice a (i - a) d @ w @ slice (i + length v) (a + n - (i + length v)) d" if "length w = length v" for w
  proof -
    have "n - (i - a) - length v = a + n - (i + length v)" using assms by linarith
    then show ?thesis using assms that by (simp add: slice_def write_at_def drop_take)
  qed
  show "slice a n (write_at i v d) = slice a (i - a) d @ v @ slice (i + length v) (a + n - (i + length v)) d" by (rule w) simp
  show "slice a n d = slice a (i - a) d @ slice i (length v) d @ slice (i + length v) (a + n - (i + length v)) d"
    using w [OF m(1)] m(2) by simp
qed

lemma slice_write_other:
  assumes "i + length v \<le> length d" "i + length v \<le> a \<or> a + n \<le> i"
  shows "slice a n (write_at i v d) = slice a n d"
  using assms by (auto simp: slice_def write_at_def drop_take min_def)

lemma slice_inner:
  assumes "slice o' n d' = slice o' n d" "a + l \<le> n"
  shows "slice (o' + a) l d' = slice (o' + a) l d"
proof -
  have "slice (o' + a) l x = take l (drop a (slice o' n x))" for x :: "'a list"
    using assms(2) by (simp add: slice_def drop_take min_absorb1 add.commute)
  then show ?thesis using assms(1) by simp
qed

text \<open>The covered bytes with a window replaced.\<close>

lemma covered_window:
  assumes "table_ok fs" "g < gf_count fs" "k + length v \<le> 30 \<or> 32 \<le> k \<and> k + length v \<le> EXT2_DESC_SIZE fs"
  shows "\<exists>xs ys. covered (fs\<lparr>gf_desc := write_at (ext2fs_group_desc fs g + k) v (gf_desc fs)\<rparr>) g = xs @ v @ ys \<and>
    covered fs g = xs @ slice (ext2fs_group_desc fs g + k) (length v) (gf_desc fs) @ ys"
proof -
  let ?o = "ext2fs_group_desc fs g" and ?d = "gf_desc fs" and ?s = "EXT2_DESC_SIZE fs"
  note i = desc_inside [OF assms(1, 2)]
  have s: "32 \<le> ?s" using assms(1) by (simp add: table_ok_def)
  have c: "covered (fs\<lparr>gf_desc := d\<rparr>) g = gf_uuid fs @ le32 (of_nat g) @ slice ?o 30 d @ slice (?o + 32) (?s - 32) d" for d
    by (simp add: covered_def)
  have c0: "covered fs g = gf_uuid fs @ le32 (of_nat g) @ slice ?o 30 ?d @ slice (?o + 32) (?s - 32) ?d"
    by (simp add: covered_def)
  show ?thesis
  proof (cases "k + length v \<le> 30")
    case True
    have w: "slice ?o 30 (write_at (?o + k) v ?d) = slice ?o k ?d @ v @ slice (?o + k + length v) (30 - (k + length v)) ?d"
      "slice ?o 30 ?d = slice ?o k ?d @ slice (?o + k) (length v) ?d @ slice (?o + k + length v) (30 - (k + length v)) ?d"
      using write_window [of ?o "?o + k" v 30 ?d] True i s by simp_all
    have t: "slice (?o + 32) (?s - 32) (write_at (?o + k) v ?d) = slice (?o + 32) (?s - 32) ?d"
      using True i s by (intro slice_write_other) linarith+
    show ?thesis unfolding c c0 w t by (intro exI [of _ "gf_uuid fs @ le32 (of_nat g) @ slice ?o k ?d"] exI) (rule conjI; simp)
  next
    case False
    then have k: "32 \<le> k" "k + length v \<le> ?s" using assms(3) by simp_all
    have w: "slice (?o + 32) (?s - 32) (write_at (?o + k) v ?d) =
        slice (?o + 32) (k - 32) ?d @ v @ slice (?o + k + length v) (?s - (k + length v)) ?d"
      "slice (?o + 32) (?s - 32) ?d =
        slice (?o + 32) (k - 32) ?d @ slice (?o + k) (length v) ?d @ slice (?o + k + length v) (?s - (k + length v)) ?d"
      using write_window [of "?o + 32" "?o + k" v "?s - 32" ?d] k i s by simp_all
    have h: "slice ?o 30 (write_at (?o + k) v ?d) = slice ?o 30 ?d"
      using k i by (intro slice_write_other) linarith+
    show ?thesis unfolding c c0 w h
      by (intro exI [of _ "gf_uuid fs @ le32 (of_nat g) @ slice ?o 30 ?d @ slice (?o + 32) (k - 32) ?d"] exI) (rule conjI; simp)
  qed
qed

lemma csum_detects:
  assumes "table_ok fs" "g < gf_count fs" "ext2fs_group_desc_csum_verify fs g = Some True"
    "v \<noteq> []" "length v \<le> 2" "k + length v \<le> 30 \<or> 32 \<le> k \<and> k + length v \<le> EXT2_DESC_SIZE fs"
  shows "ext2fs_group_desc_csum_verify (fs\<lparr>gf_desc := write_at (ext2fs_group_desc fs g + k) v (gf_desc fs)\<rparr>) g = Some True \<longleftrightarrow>
    v = slice (ext2fs_group_desc fs g + k) (length v) (gf_desc fs)"
proof -
  let ?o = "ext2fs_group_desc fs g" and ?d = "gf_desc fs"
  let ?fs = "fs\<lparr>gf_desc := write_at (?o + k) v ?d\<rparr>"
  note i = desc_inside [OF assms(1, 2)]
  have s: "32 \<le> EXT2_DESC_SIZE fs" using assms(1) by (simp add: table_ok_def)
  have fit: "?o + k + length v \<le> length ?d" using assms(6) i s by linarith
  have ok: "table_ok ?fs" "g < gf_count ?fs" using assms(1, 2) fit by simp_all
  have o: "ext2fs_group_desc ?fs g = ?o" by simp
  have f: "slice (?o + 30) 2 (gf_desc ?fs) = slice (?o + 30) 2 ?d"
    using slice_write_other [of "?o + k" v ?d "?o + 30" 2] fit assms(6) by auto
  obtain xs ys where c: "covered ?fs g = xs @ v @ ys" "covered fs g = xs @ slice (?o + k) (length v) ?d @ ys"
    using covered_window [OF assms(1, 2, 6)] by blast
  have "of_le16 (slice (?o + 30) 2 ?d) = fold crc16_byte (covered fs g) 0xFFFF"
    using assms(3) verify_covered [OF assms(1, 2)] by simp
  then have right: "of_le16 (slice (?o + 30) 2 ?d) = fold crc16_byte (xs @ slice (?o + k) (length v) ?d @ ys) 0xFFFF" unfolding c(2) .
  have "length v = length (slice (?o + k) (length v) ?d)" using fit by simp
  from crc16_fold_window [OF this assms(5, 4), of xs ys "0xFFFF"] show ?thesis
    unfolding verify_covered [OF ok] o f right c(1) by auto
qed

subsection \<open>Setting the checksums\<close>

lemma nth_write_at:
  "i + length v \<le> length d \<Longrightarrow> k < length d \<Longrightarrow> write_at i v d ! k = (if i \<le> k \<and> k < i + length v then v ! (k - i) else d ! k)"
  by (auto simp: write_at_def nth_append min_def)

lemma le16_of_le16: "length bs = 2 \<Longrightarrow> le16 (of_le16 bs) = bs"
proof -
  assume "length bs = 2"
  then obtain a b where bs: "bs = [a, b]" by (auto simp: numeral_2_eq_2 length_Suc_conv)
  have "\<not> bit a n" if "8 \<le> n" for n using that bit_imp_le_length [of a n] by auto
  then have "ucast (ucast a OR push_bit 8 (ucast b) :: u16) = a" "ucast (drop_bit 8 (ucast a OR push_bit 8 (ucast b) :: u16)) = b"
    by (intro bit_word_eqI; auto simp: bit_simps)+
  then show ?thesis by (simp add: bs le16_def)
qed

lemma write_same:
  "i + 2 \<le> length d \<Longrightarrow> of_le16 (slice i 2 d) = w \<Longrightarrow> write_at i (le16 w) d = d"
proof -
  assume i: "i + 2 \<le> length d" and w: "of_le16 (slice i 2 d) = w"
  have "le16 w = slice i 2 d" using le16_of_le16 [of "slice i 2 d"] i w by simp
  then have "write_at i (le16 w) d = take i d @ slice i 2 d @ drop (i + 2) d" unfolding write_at_def length_le16 by simp
  then show ?thesis using split_slice [OF i] by simp
qed

lemma csum_set_result:
  assumes "table_ok fs" "i < gf_count fs"
  shows "\<exists>w. ext2fs_group_desc_csum_set fs i = Some (fs\<lparr>gf_desc := write_at (ext2fs_group_desc fs i + 30) (le16 w) (gf_desc fs)\<rparr>) \<and>
    ext2fs_group_desc_csum_verify (fs\<lparr>gf_desc := write_at (ext2fs_group_desc fs i + 30) (le16 w) (gf_desc fs)\<rparr>) i = Some True"
proof -
  let ?o = "ext2fs_group_desc fs i" and ?w = "fold crc16_byte (covered fs i) 0xFFFF"
  let ?d = "write_at (?o + 30) (le16 ?w) (gf_desc fs)"
  note ins = desc_inside [OF assms]
  have s: "30 + 2 \<le> EXT2_DESC_SIZE fs" using assms(1) by (simp add: table_ok_def)
  have fit: "?o + 30 + 2 \<le> length (gf_desc fs)" using ins s by linarith
  have ok: "table_ok (fs\<lparr>gf_desc := ?d\<rparr>)" "i < gf_count (fs\<lparr>gf_desc := ?d\<rparr>)" using assms fit by simp_all
  have "slice ?o 30 ?d = slice ?o 30 (gf_desc fs)" "slice (?o + 32) (EXT2_DESC_SIZE fs - 32) ?d = slice (?o + 32) (EXT2_DESC_SIZE fs - 32) (gf_desc fs)"
    using fit by (intro slice_write_other; simp)+
  then have c: "covered (fs\<lparr>gf_desc := ?d\<rparr>) i = covered fs i" by (simp add: covered_def)
  have "of_le16 (slice (?o + 30) 2 ?d) = ?w" using fit by simp
  then have "ext2fs_group_desc_csum_verify (fs\<lparr>gf_desc := ?d\<rparr>) i = Some True" unfolding verify_covered [OF ok] c by simp
  moreover have "ext2fs_group_desc_csum_set fs i = Some (fs\<lparr>gf_desc := ?d\<rparr>)"
    using assms csum_covered [OF assms] fields(2) [OF assms s]
    by (simp add: ext2fs_group_desc_csum_set_def ext2fs_bg_checksum_set_def table_ok_def)
  ultimately show ?thesis by blast
qed

definition touches :: "nat \<Rightarrow> nat set \<Rightarrow> u8 list \<Rightarrow> u8 list \<Rightarrow> bool" where
  "touches o' S d d' \<longleftrightarrow> length d' = length d \<and> (\<forall>k < length d. k < o' \<or> k - o' \<notin> S \<longrightarrow> d' ! k = d ! k)"

lemma touches_trans: "touches o' S d d' \<Longrightarrow> touches o' T d' d'' \<Longrightarrow> touches o' (S \<union> T) d d''"
  by (simp add: touches_def)

lemma touches_write: "o' + a + 2 \<le> length d \<Longrightarrow> touches o' {a, a + 1} d (write_at (o' + a) (le16 w) d)"
  by (auto simp: touches_def nth_write_at)

lemma touches_slice:
  assumes "touches o' S d d'" "o' + a + 2 \<le> length d" "a \<notin> S" "a + 1 \<notin> S"
  shows "slice (o' + a) 2 d' = slice (o' + a) 2 d"
proof (rule nth_equalityI)
  show "length (slice (o' + a) 2 d') = length (slice (o' + a) 2 d)" using assms(1) by (simp add: touches_def)
  fix j assume "j < length (slice (o' + a) 2 d')"
  then have "j = 0 \<or> j = 1" by auto
  then have "d' ! (o' + a + j) = d ! (o' + a + j)" using assms unfolding touches_def by auto
  then show "slice (o' + a) 2 d' ! j = slice (o' + a) 2 d ! j"
    using \<open>j < length (slice (o' + a) 2 d')\<close> assms(1, 2) by (simp add: slice_def touches_def)
qed

lemma flags_result:
  assumes "table_ok fs" "i < gf_count fs"
  shows "\<exists>d'. bg_put fs i 18 f = Some (fs\<lparr>gf_desc := d'\<rparr>) \<and> touches (ext2fs_group_desc fs i) {18, 19} (gf_desc fs) d' \<and>
    bg_get (fs\<lparr>gf_desc := d'\<rparr>) i 18 = Some f \<and> (bg_get fs i 18 = Some f \<longrightarrow> d' = gf_desc fs)"
proof -
  let ?o = "ext2fs_group_desc fs i"
  have s: "18 + 2 \<le> EXT2_DESC_SIZE fs" using assms(1) by (simp add: table_ok_def)
  have fit: "?o + 18 + 2 \<le> length (gf_desc fs)" using desc_inside [OF assms] s by linarith
  let ?d = "write_at (?o + 18) (le16 f) (gf_desc fs)"
  have ok: "table_ok (fs\<lparr>gf_desc := ?d\<rparr>)" "i < gf_count (fs\<lparr>gf_desc := ?d\<rparr>)" using assms fit by simp_all
  have "bg_get (fs\<lparr>gf_desc := ?d\<rparr>) i 18 = Some f" using fields(1) [OF ok, of 18] s fit by simp
  then show ?thesis
    using fields [OF assms s] touches_write [OF fit, of f] write_same [OF fit] by (intro exI [of _ ?d]) auto
qed

lemma csum_result:
  assumes "table_ok fs" "i < gf_count fs"
  shows "\<exists>d' w. ext2fs_group_desc_csum_set fs i = Some (fs\<lparr>gf_desc := d'\<rparr>) \<and> touches (ext2fs_group_desc fs i) {30, 31} (gf_desc fs) d' \<and>
    bg_get (fs\<lparr>gf_desc := d'\<rparr>) i 30 = Some w \<and> (bg_get fs i 30 = Some w \<longrightarrow> d' = gf_desc fs) \<and>
    ext2fs_group_desc_csum_verify (fs\<lparr>gf_desc := d'\<rparr>) i = Some True"
proof -
  let ?o = "ext2fs_group_desc fs i"
  have s: "30 + 2 \<le> EXT2_DESC_SIZE fs" using assms(1) by (simp add: table_ok_def)
  have fit: "?o + 30 + 2 \<le> length (gf_desc fs)" using desc_inside [OF assms] s by linarith
  obtain w where w: "ext2fs_group_desc_csum_set fs i = Some (fs\<lparr>gf_desc := write_at (?o + 30) (le16 w) (gf_desc fs)\<rparr>)"
    "ext2fs_group_desc_csum_verify (fs\<lparr>gf_desc := write_at (?o + 30) (le16 w) (gf_desc fs)\<rparr>) i = Some True"
    using csum_set_result [OF assms] by blast
  let ?d = "write_at (?o + 30) (le16 w) (gf_desc fs)"
  have ok: "table_ok (fs\<lparr>gf_desc := ?d\<rparr>)" "i < gf_count (fs\<lparr>gf_desc := ?d\<rparr>)" using assms fit by simp_all
  have "bg_get (fs\<lparr>gf_desc := ?d\<rparr>) i 30 = Some w" using fields(1) [OF ok, of 30] s fit by simp
  then show ?thesis
    using w fields(1) [OF assms s] touches_write [OF fit, of w] write_same [OF fit] by (intro exI [of _ ?d] exI [of _ w]) auto
qed

lemma halves: "ucast (ucast n :: u16) OR push_bit 16 (ucast (ucast (drop_bit 16 n) :: u16)) = (n :: u32)"
proof -
  have "\<not> bit n k" if "32 \<le> k" for k using that bit_imp_le_length [of n k] by auto
  then show ?thesis by (intro bit_word_eqI) (auto simp: bit_simps)
qed

lemma halves_inj:
  assumes "ucast l OR push_bit 16 (ucast h) = (n :: u32)"
  shows "(l :: u16) = ucast n" "(h :: u16) = ucast (drop_bit 16 n)"
proof -
  have "\<not> bit l k" if "16 \<le> k" for k using that bit_imp_le_length [of l k] by auto
  then show "l = ucast n" "h = ucast (drop_bit 16 n)" unfolding assms [symmetric] by (intro bit_word_eqI; auto simp: bit_simps)+
qed

lemma unused_result:
  assumes "table_ok fs" "i < gf_count fs"
  shows "\<exists>d' m. ext2fs_bg_itable_unused_set fs i n = Some (fs\<lparr>gf_desc := d'\<rparr>) \<and>
    touches (ext2fs_group_desc fs i) ({28, 29, 50, 51} \<inter> {..< EXT2_DESC_SIZE fs}) (gf_desc fs) d' \<and> m \<le> n \<and>
    ext2fs_bg_itable_unused (fs\<lparr>gf_desc := d'\<rparr>) i = Some m \<and> (ext2fs_bg_itable_unused fs i = Some m \<longrightarrow> d' = gf_desc fs)"
proof -
  let ?o = "ext2fs_group_desc fs i" and ?wide = "gf_incompat fs AND EXT4_FEATURE_INCOMPAT_64BIT \<noteq> 0"
  have s: "28 + 2 \<le> EXT2_DESC_SIZE fs" using assms(1) by (simp add: table_ok_def)
  have fit: "?o + 28 + 2 \<le> length (gf_desc fs)" using desc_inside [OF assms] s by linarith
  let ?d = "write_at (?o + 28) (le16 (ucast n)) (gf_desc fs)"
  have ok: "table_ok (fs\<lparr>gf_desc := ?d\<rparr>)" "i < gf_count (fs\<lparr>gf_desc := ?d\<rparr>)" using assms fit by simp_all
  have t: "touches ?o {28, 29} (gf_desc fs) ?d" using touches_write [OF fit, of "ucast n"] by simp
  have r: "bg_get (fs\<lparr>gf_desc := ?d\<rparr>) i 28 = Some (ucast n)" using fields(1) [OF ok, of 28] s fit by simp
  note f = fields [OF assms s]
  show ?thesis
  proof (cases ?wide)
    case False
    then have "{28, 29, 50, 51} \<inter> {..< EXT2_DESC_SIZE fs} = {28, 29}" by (auto simp: EXT2_DESC_SIZE_def)
    then have "touches ?o ({28, 29, 50, 51} \<inter> {..< EXT2_DESC_SIZE fs}) (gf_desc fs) ?d" using t by simp
    moreover have "ucast (ucast n :: u16) \<le> n"
      by (simp add: word_le_nat_alt unsigned_ucast_eq unsigned_take_bit_eq take_bit_nat_less_eq_self)
    moreover have "ext2fs_bg_itable_unused (fs\<lparr>gf_desc := ?d\<rparr>) i = Some (ucast (ucast n :: u16))"
      using False r by (simp add: ext2fs_bg_itable_unused_def bg_count_def)
    moreover have "?d = gf_desc fs" if "ext2fs_bg_itable_unused fs i = Some (ucast (ucast n :: u16))"
    proof (rule write_same [OF fit])
      have "ucast (of_le16 (slice (?o + 28) 2 (gf_desc fs))) = (ucast (ucast n :: u16) :: u32)"
        using that False f(1) by (simp add: ext2fs_bg_itable_unused_def bg_count_def)
      then show "of_le16 (slice (?o + 28) 2 (gf_desc fs)) = ucast n" by (metis halves_inj(1) or.right_neutral push_bit_of_0 unsigned_0)
    qed
    ultimately show ?thesis using False f(2)
      by (intro exI [of _ ?d] exI [of _ "ucast (ucast n :: u16)"]) (simp add: ext2fs_bg_itable_unused_set_def)
  next
    case True
    then have s64: "64 \<le> EXT2_DESC_SIZE fs" using assms(1) by (simp add: table_ok_def)
    then have s2: "50 + 2 \<le> EXT2_DESC_SIZE fs" by simp
    have fit2: "?o + 50 + 2 \<le> length ?d" using desc_inside [OF assms] s2 fit by simp
    let ?e = "write_at (?o + 50) (le16 (ucast (drop_bit 16 n))) ?d"
    have ok2: "table_ok (fs\<lparr>gf_desc := ?e\<rparr>)" "i < gf_count (fs\<lparr>gf_desc := ?e\<rparr>)" using ok fit2 fit by simp_all
    have t2: "touches ?o {50, 51} ?d ?e" using touches_write [OF fit2, of "ucast (drop_bit 16 n)"] by simp
    have "{28, 29, 50, 51} \<inter> {..< EXT2_DESC_SIZE fs} = {28, 29} \<union> {50, 51}" using s64 by auto
    then have tt: "touches ?o ({28, 29, 50, 51} \<inter> {..< EXT2_DESC_SIZE fs}) (gf_desc fs) ?e" using touches_trans [OF t t2] by simp
    have s28: "slice (?o + 28) 2 ?e = le16 (ucast n)" using touches_slice [OF t2, of 28] fit by simp
    have re: "bg_get (fs\<lparr>gf_desc := ?e\<rparr>) i 28 = Some (ucast n)" "bg_get (fs\<lparr>gf_desc := ?e\<rparr>) i 50 = Some (ucast (drop_bit 16 n))"
      using fields(1) [OF ok2, of 28] fields(1) [OF ok2, of 50] s s2 fit2 s28 by simp_all
    have put: "bg_put (fs\<lparr>gf_desc := ?d\<rparr>) i 50 (ucast (drop_bit 16 n)) = Some (fs\<lparr>gf_desc := ?e\<rparr>)"
      using fields(2) [OF ok, of 50] s2 by simp
    have read: "ext2fs_bg_itable_unused (fs\<lparr>gf_desc := ?e\<rparr>) i = Some n"
      using True re by (simp add: ext2fs_bg_itable_unused_def bg_count_def halves)
    have same: "?e = gf_desc fs" if "ext2fs_bg_itable_unused fs i = Some n"
    proof -
      have "ucast (of_le16 (slice (?o + 28) 2 (gf_desc fs))) OR push_bit 16 (ucast (of_le16 (slice (?o + 50) 2 (gf_desc fs)))) = n"
        using that True f(1) fields(1) [OF assms s2] by (simp add: ext2fs_bg_itable_unused_def bg_count_def)
      note h = halves_inj [OF this]
      have "?d = gf_desc fs" by (rule write_same [OF fit h(1)])
      then show ?thesis using write_same [of "?o + 50" "gf_desc fs", OF _ h(2)] fit2 by simp
    qed
    show ?thesis using True f(2) put tt read same
      by (intro exI [of _ ?e] exI [of _ n]) (simp add: ext2fs_bg_itable_unused_set_def)
  qed
qed

text \<open>The bytes of a descriptor that \<open>ext2fs_set_gdt_csum\<close> may write: flags, unused inodes with their high half, checksum.\<close>

definition gdt_fields :: "nat set" where
  "gdt_fields = {18, 19, 28, 29, 30, 31, 50, 51}"

text \<open>What it establishes for a group: the checksum is right, the inodes are marked uninitialised iff all are free, and otherwise
  the inodes counted as never used are free.\<close>

definition group_good :: "(nat \<Rightarrow> bool) \<Rightarrow> group_fs \<Rightarrow> nat \<Rightarrow> bool" where
  "group_good bitmap fs g \<longleftrightarrow> ext2fs_group_desc_csum_verify fs g = Some True \<and>
     (let ipg = gf_inodes_per_group fs; e = the (ext2fs_bg_free_inodes_count fs g)
      in (bit (the (ext2fs_bg_flags fs g)) 0 \<longleftrightarrow> e = ipg) \<and>
         (e \<noteq> ipg \<longrightarrow>
           (\<forall>k < unat (the (ext2fs_bg_itable_unused fs g)). \<not> bitmap (g * unat ipg + unat ipg - k))))"

lemma last_inode_result:
  "n \<le> ipg \<Longrightarrow> last_inode bitmap start_ino ipg n \<le> ipg \<and>
     (\<forall>k. last_inode bitmap start_ino ipg n \<le> k \<longrightarrow> k < n \<longrightarrow> \<not> bitmap (start_ino + k))"
  by (induction n) (auto simp: less_Suc_eq)

lemma find_last_unused:
  assumes "unat m \<le> unat (ipg - of_nat (find_last_inode_ingrp bitmap (unat ipg) g) :: u32)" "k < unat m"
  shows "\<not> bitmap (g * unat ipg + unat ipg - k)"
proof -
  let ?r = "find_last_inode_ingrp bitmap (unat ipg) g"
  have r: "?r \<le> unat ipg" "\<forall>k. ?r \<le> k \<longrightarrow> k < unat ipg \<longrightarrow> \<not> bitmap (g * unat ipg + 1 + k)"
    using last_inode_result [of "unat ipg" "unat ipg" bitmap "g * unat ipg + 1"] by (simp_all add: find_last_inode_ingrp_def)
  have "?r < 4294967296" by (rule le_less_trans [OF r(1) unat_u32_less])
  then have "unat (of_nat ?r :: u32) = ?r" by (simp add: unat_of_nat_small)
  then have "unat (ipg - of_nat ?r) = unat ipg - ?r" using r(1) by (simp add: unat_sub word_le_nat_alt)
  then have k: "k < unat ipg - ?r" using assms by linarith
  then have a: "\<not> bitmap (g * unat ipg + 1 + (unat ipg - 1 - k))" by (intro r(2) [rule_format]) (use k in linarith)+
  have e: "g * unat ipg + 1 + (unat ipg - 1 - k) = g * unat ipg + unat ipg - k" using k by linarith
  show ?thesis using a unfolding e .
qed

text \<open>What is known of a group depends only on its own descriptor.\<close>

lemma bg_get_own:
  assumes "slice (ext2fs_group_desc fs g) (EXT2_DESC_SIZE fs) d' = slice (ext2fs_group_desc fs g) (EXT2_DESC_SIZE fs) d"
    "length d' = length d" "a + 2 \<le> EXT2_DESC_SIZE fs"
  shows "bg_get (fs\<lparr>gf_desc := d'\<rparr>) g a = bg_get (fs\<lparr>gf_desc := d\<rparr>) g a"
  using slice_inner [OF assms(1), of a 2] assms(2, 3) by (simp add: bg_get_def block_read_def)

lemma group_good_own:
  assumes "table_ok fs" "g < gf_count fs" "length d = length (gf_desc fs)" "length d' = length d"
    "slice (ext2fs_group_desc fs g) (EXT2_DESC_SIZE fs) d' = slice (ext2fs_group_desc fs g) (EXT2_DESC_SIZE fs) d"
  shows "group_good bitmap (fs\<lparr>gf_desc := d'\<rparr>) g = group_good bitmap (fs\<lparr>gf_desc := d\<rparr>) g"
proof -
  let ?o = "ext2fs_group_desc fs g" and ?s = "EXT2_DESC_SIZE fs"
  have s: "32 \<le> ?s" and wide: "gf_incompat fs AND EXT4_FEATURE_INCOMPAT_64BIT \<noteq> 0 \<Longrightarrow> 64 \<le> ?s"
    using assms(1) by (simp_all add: table_ok_def)
  have ok: "table_ok (fs\<lparr>gf_desc := x\<rparr>)" "g < gf_count (fs\<lparr>gf_desc := x\<rparr>)" if "length x = length (gf_desc fs)" for x
    using assms(1, 2) that by simp_all
  have get: "bg_get (fs\<lparr>gf_desc := d'\<rparr>) g a = bg_get (fs\<lparr>gf_desc := d\<rparr>) g a" if "a + 2 \<le> ?s" for a
    by (rule bg_get_own [OF assms(5, 4) that])
  have count: "bg_count (fs\<lparr>gf_desc := d'\<rparr>) g lo hi = bg_count (fs\<lparr>gf_desc := d\<rparr>) g lo hi" if "lo + 2 \<le> 32" "hi + 2 \<le> 64" for lo hi
    using get [of lo] get [of hi] that s wide
    by (cases "gf_incompat fs AND EXT4_FEATURE_INCOMPAT_64BIT = 0") (simp_all add: bg_count_def)
  have "slice ?o 30 d' = slice ?o 30 d" using slice_inner [OF assms(5), of 0 30] s by simp
  moreover have "slice (?o + 32) (?s - 32) d' = slice (?o + 32) (?s - 32) d" using slice_inner [OF assms(5), of 32 "?s - 32"] s by simp
  ultimately have c: "covered (fs\<lparr>gf_desc := d'\<rparr>) g = covered (fs\<lparr>gf_desc := d\<rparr>) g" by (simp add: covered_def)
  have "slice (?o + 30) 2 d' = slice (?o + 30) 2 d" using slice_inner [OF assms(5), of 30 2] s by simp
  then have "ext2fs_group_desc_csum_verify (fs\<lparr>gf_desc := d'\<rparr>) g = ext2fs_group_desc_csum_verify (fs\<lparr>gf_desc := d\<rparr>) g"
    using verify_covered [OF ok, of d'] verify_covered [OF ok, of d] assms(3, 4) c by simp
  then show ?thesis
    using get [of 18] count [of 28 50] count [of 14 46] s
    by (simp add: group_good_def ext2fs_bg_flags_def ext2fs_bg_itable_unused_def ext2fs_bg_free_inodes_count_def)
qed

lemma uninit_bit: "bit (f OR 1 :: u16) 0" "\<not> bit (f AND NOT 1 :: u16) 0"
  by (simp_all add: bit_simps)

lemma group_result:
  assumes "table_ok fs" "i < gf_count fs"
  shows "\<exists>d ch. set_group_csum bitmap fs i = Some (fs\<lparr>gf_desc := d\<rparr>, ch) \<and>
    touches (ext2fs_group_desc fs i) (gdt_fields \<inter> {..< EXT2_DESC_SIZE fs}) (gf_desc fs) d \<and>
    (ch \<longleftrightarrow> d \<noteq> gf_desc fs) \<and> group_good bitmap (fs\<lparr>gf_desc := d\<rparr>) i"
proof -
  let ?o = "ext2fs_group_desc fs i" and ?U = "{28, 29, 50, 51} \<inter> {..< EXT2_DESC_SIZE fs}" and ?ipg = "gf_inodes_per_group fs"
  have s: "32 \<le> EXT2_DESC_SIZE fs" using assms(1) by (simp add: table_ok_def)
  note ins = desc_inside [OF assms]
  obtain c0 where c0: "bg_get fs i 30 = Some c0" using fields(1) [OF assms, of 30] s by simp
  obtain f0 where f0: "bg_get fs i 18 = Some f0" using fields(1) [OF assms, of 18] s by simp
  have count: "\<exists>u. bg_count fs i lo hi = Some u" if "lo + 2 \<le> 32" "hi + 2 \<le> 64" for lo hi
    using fields(1) [OF assms, of lo] fields(1) [OF assms, of hi] that s assms(1)
    by (cases "gf_incompat fs AND EXT4_FEATURE_INCOMPAT_64BIT = 0") (auto simp: bg_count_def table_ok_def)
  obtain u0 e0 where u0: "ext2fs_bg_itable_unused fs i = Some u0" "ext2fs_bg_free_inodes_count fs i = Some e0"
    using count [of 28 50] count [of 14 46] by (auto simp: ext2fs_bg_itable_unused_def ext2fs_bg_free_inodes_count_def)
  define full where "full = (e0 = ?ipg)"
  define f where "f = (if full then f0 OR EXT2_BG_INODE_UNINIT else f0 AND NOT EXT2_BG_INODE_UNINIT)"
  define n where "n = (if full then ?ipg else ?ipg - of_nat (find_last_inode_ingrp bitmap (unat ?ipg) i))"
  obtain d1 where d1: "bg_put fs i 18 f = Some (fs\<lparr>gf_desc := d1\<rparr>)" "touches ?o {18, 19} (gf_desc fs) d1"
    "bg_get (fs\<lparr>gf_desc := d1\<rparr>) i 18 = Some f" "bg_get fs i 18 = Some f \<longrightarrow> d1 = gf_desc fs"
    using flags_result [OF assms] by blast
  have l1: "length d1 = length (gf_desc fs)" using d1(2) by (simp add: touches_def)
  have ok1: "table_ok (fs\<lparr>gf_desc := d1\<rparr>)" "i < gf_count (fs\<lparr>gf_desc := d1\<rparr>)" using assms l1 by simp_all
  obtain d2 m where d2: "ext2fs_bg_itable_unused_set (fs\<lparr>gf_desc := d1\<rparr>) i n = Some (fs\<lparr>gf_desc := d2\<rparr>)"
    "touches ?o ?U d1 d2" "m \<le> n" "ext2fs_bg_itable_unused (fs\<lparr>gf_desc := d2\<rparr>) i = Some m"
    "ext2fs_bg_itable_unused (fs\<lparr>gf_desc := d1\<rparr>) i = Some m \<longrightarrow> d2 = d1"
    using unused_result [OF ok1, of n] by auto
  have l2: "length d2 = length (gf_desc fs)" using d2(2) l1 by (simp add: touches_def)
  have ok2: "table_ok (fs\<lparr>gf_desc := d2\<rparr>)" "i < gf_count (fs\<lparr>gf_desc := d2\<rparr>)" using assms l2 by simp_all
  obtain d3 w where d3: "ext2fs_group_desc_csum_set (fs\<lparr>gf_desc := d2\<rparr>) i = Some (fs\<lparr>gf_desc := d3\<rparr>)"
    "touches ?o {30, 31} d2 d3" "bg_get (fs\<lparr>gf_desc := d3\<rparr>) i 30 = Some w" "bg_get (fs\<lparr>gf_desc := d2\<rparr>) i 30 = Some w \<longrightarrow> d3 = d2"
    "ext2fs_group_desc_csum_verify (fs\<lparr>gf_desc := d3\<rparr>) i = Some True"
    using csum_result [OF ok2] by auto
  have get: "bg_get (fs\<lparr>gf_desc := d'\<rparr>) i a = bg_get (fs\<lparr>gf_desc := d\<rparr>) i a"
    if "touches ?o S d d'" "length d = length (gf_desc fs)" "a + 2 \<le> EXT2_DESC_SIZE fs" "a \<notin> S" "a + 1 \<notin> S" for S d d' a
  proof -
    have fit: "?o + a + 2 \<le> length d" using that(2, 3) ins by linarith
    have "block_read d' (?o + a) 2 = block_read d (?o + a) 2"
      using touches_slice [OF that(1) fit that(4, 5)] that(1) by (simp add: block_read_def touches_def)
    then show ?thesis by (simp add: bg_get_def)
  qed
  have counts: "bg_count (fs\<lparr>gf_desc := d'\<rparr>) i lo hi = bg_count (fs\<lparr>gf_desc := d\<rparr>) i lo hi"
    if "touches ?o S d d'" "length d = length (gf_desc fs)" "S \<inter> {lo, lo + 1, hi, hi + 1} = {}" "lo + 2 \<le> 32" "hi + 2 \<le> 64" for S d d' lo hi
  proof (cases "gf_incompat fs AND EXT4_FEATURE_INCOMPAT_64BIT = 0")
    case True
    then show ?thesis using get [OF that(1, 2), of lo] that(3, 4) s by (simp add: bg_count_def)
  next
    case False
    then have "64 \<le> EXT2_DESC_SIZE fs" using assms(1) by (simp add: table_ok_def)
    then show ?thesis using False get [OF that(1, 2), of lo] get [OF that(1, 2), of hi] that(3, 4, 5) by (simp add: bg_count_def)
  qed
  have all: "touches ?o ({18, 19} \<union> ?U \<union> {30, 31}) (gf_desc fs) d3"
    using touches_trans [OF touches_trans [OF d1(2) d2(2)] d3(2)] .
  have "{18, 19} \<union> ?U \<union> {30, 31} = gdt_fields \<inter> {..< EXT2_DESC_SIZE fs}" using s by (auto simp: gdt_fields_def)
  then have t: "touches ?o (gdt_fields \<inter> {..< EXT2_DESC_SIZE fs}) (gf_desc fs) d3" using all by simp
  have r3: "bg_get (fs\<lparr>gf_desc := d3\<rparr>) i 18 = Some f" "ext2fs_bg_itable_unused (fs\<lparr>gf_desc := d3\<rparr>) i = Some m"
    "ext2fs_bg_free_inodes_count (fs\<lparr>gf_desc := d3\<rparr>) i = Some e0"
    using get [OF d2(2) l1, of 18] get [OF d3(2) l2, of 18] counts [OF d3(2) l2, of 28 50] d1(3) d2(4) s
      counts [OF all refl, of 14 46] u0(2)
    by (simp_all add: ext2fs_bg_itable_unused_def ext2fs_bg_free_inodes_count_def)
  let ?ch = "f0 \<noteq> f \<or> u0 \<noteq> m \<or> c0 \<noteq> w"
  have run: "set_group_csum bitmap fs i = Some (fs\<lparr>gf_desc := d3\<rparr>, ?ch)"
    using c0 u0 f0 d1(1) d2(1) d3(1, 3) r3
    by (cases full) (simp_all add: set_group_csum_def ext2fs_bg_checksum_def ext2fs_bg_flags_def ext2fs_bg_flags_set_def
        ext2fs_bg_flags_clear_def f_def n_def full_def Let_def)
  have "?ch \<longleftrightarrow> d3 \<noteq> gf_desc fs"
  proof
    assume ch: ?ch
    show "d3 \<noteq> gf_desc fs"
    proof
      assume "d3 = gf_desc fs"
      then show False using r3 d3(3) c0 f0 u0 ch by simp
    qed
  next
    assume "d3 \<noteq> gf_desc fs"
    then show ?ch using d1(4) d2(5) d3(4) f0 u0 c0 by (cases "d1 = gf_desc fs"; cases "d2 = d1") auto
  qed
  moreover have "group_good bitmap (fs\<lparr>gf_desc := d3\<rparr>) i"
  proof -
    have "bit f 0 \<longleftrightarrow> e0 = ?ipg" unfolding f_def full_def using uninit_bit [of f0] by simp
    moreover have "\<not> bitmap (i * unat ?ipg + unat ?ipg - k)" if "e0 \<noteq> ?ipg" "k < unat m" for k
      using find_last_unused [of m ?ipg bitmap i k] d2(3) that by (simp add: n_def full_def word_le_nat_alt)
    ultimately show ?thesis using d3(5) r3 by (simp add: group_good_def ext2fs_bg_flags_def Let_def)
  qed
  ultimately show ?thesis using run t by blast
qed

text \<open>The loop: the descriptors do not overlap.\<close>

lemma other_group:
  assumes "touches (ext2fs_group_desc fs i) (S \<inter> {..< EXT2_DESC_SIZE fs}) d d'" "k < length d"
    "k div EXT2_DESC_SIZE fs \<noteq> i \<or> k mod EXT2_DESC_SIZE fs \<notin> S"
  shows "d' ! k = d ! k"
proof -
  let ?s = "EXT2_DESC_SIZE fs"
  have "k < i * ?s \<or> k - i * ?s \<notin> S \<inter> {..< ?s}"
  proof (rule ccontr)
    assume "\<not> ?thesis"
    then have "k = i * ?s + (k - i * ?s)" "k - i * ?s \<in> S" "k - i * ?s < ?s" by auto
    then have "k div ?s = i" "k mod ?s \<in> S" by (metis div_mult_self3 div_less add.commute add.right_neutral less_nat_zero_code not_gr_zero mult.commute,
      metis mod_mult_self3 mod_less)
    then show False using assms(3) by simp
  qed
  then show ?thesis using assms(1, 2) by (auto simp: touches_def ext2fs_group_desc_def)
qed

lemma set_groups_result:
  assumes "table_ok fs" "distinct is" "set is \<subseteq> {..< gf_count fs}" "length d = length (gf_desc fs)"
  shows "\<exists>d' ch. set_groups bitmap is (fs\<lparr>gf_desc := d\<rparr>) dirty = Some (fs\<lparr>gf_desc := d'\<rparr>, dirty \<or> ch) \<and> length d' = length d \<and>
    (ch \<longleftrightarrow> d' \<noteq> d) \<and> (\<forall>g \<in> set is. group_good bitmap (fs\<lparr>gf_desc := d'\<rparr>) g) \<and>
    (\<forall>k < length d. k div EXT2_DESC_SIZE fs \<notin> set is \<or> k mod EXT2_DESC_SIZE fs \<notin> gdt_fields \<longrightarrow> d' ! k = d ! k)"
  using assms(2-)
proof (induction "is" arbitrary: d dirty)
  case (Cons i "is")
  let ?s = "EXT2_DESC_SIZE fs" and ?o = "ext2fs_group_desc fs i"
  have s: "32 \<le> ?s" using assms(1) by (simp add: table_ok_def)
  have i: "i < gf_count fs" "i \<notin> set is" using Cons.prems by simp_all
  obtain d1 c1 where g: "set_group_csum bitmap (fs\<lparr>gf_desc := d\<rparr>) i = Some (fs\<lparr>gf_desc := d1\<rparr>, c1)"
    "touches ?o (gdt_fields \<inter> {..< ?s}) d d1" "c1 \<longleftrightarrow> d1 \<noteq> d" "group_good bitmap (fs\<lparr>gf_desc := d1\<rparr>) i"
    using group_result [of "fs\<lparr>gf_desc := d\<rparr>" i bitmap] assms(1) Cons.prems(3) i by auto
  have l1: "length d1 = length d" using g(2) by (simp add: touches_def)
  obtain d2 c2 where r: "set_groups bitmap is (fs\<lparr>gf_desc := d1\<rparr>) (dirty \<or> c1) = Some (fs\<lparr>gf_desc := d2\<rparr>, (dirty \<or> c1) \<or> c2)"
    "length d2 = length d1" "c2 \<longleftrightarrow> d2 \<noteq> d1" "\<forall>g \<in> set is. group_good bitmap (fs\<lparr>gf_desc := d2\<rparr>) g"
    "\<forall>k < length d1. k div ?s \<notin> set is \<or> k mod ?s \<notin> gdt_fields \<longrightarrow> d2 ! k = d1 ! k"
    using Cons.IH [of d1 "dirty \<or> c1"] Cons.prems l1 by auto
  note same1 = other_group [OF g(2)]
  have own: "slice ?o ?s d2 = slice ?o ?s d1"
  proof (rule nth_equalityI)
    show "length (slice ?o ?s d2) = length (slice ?o ?s d1)" using r(2) by simp
    fix j assume j: "j < length (slice ?o ?s d2)"
    then have "j < ?s \<and> j < length d1 - ?o" using r(2) by simp
    then have k: "?o + j < length d1" "j < ?s" by linarith+
    then have "(?o + j) div ?s = i" by (simp add: ext2fs_group_desc_def)
    then have "d2 ! (?o + j) = d1 ! (?o + j)" using r(5) k i by simp
    then show "slice ?o ?s d2 ! j = slice ?o ?s d1 ! j" using j k r(2) by (simp add: slice_def)
  qed
  have good: "group_good bitmap (fs\<lparr>gf_desc := d2\<rparr>) i"
    using group_good_own [OF assms(1) i(1) _ r(2) own] g(4) l1 Cons.prems(3) by simp
  have change: "c1 \<or> c2 \<longleftrightarrow> d2 \<noteq> d"
  proof (cases "d1 = d")
    case False
    then obtain k where k: "k < length d" "d1 ! k \<noteq> d ! k" using l1 by (metis nth_equalityI)
    then have "k div ?s = i" using same1 by blast
    then have "d2 ! k = d1 ! k" using r(5) k l1 i by simp
    then show ?thesis using k g(3) False by auto
  qed (use g(3) r(3) in simp)
  have "d2 ! k = d ! k" if "k < length d" "k div ?s \<notin> set (i # is) \<or> k mod ?s \<notin> gdt_fields" for k
    using same1 [of k] r(5) that l1 by (metis list.set_intros(1, 2))
  moreover have "set_groups bitmap (i # is) (fs\<lparr>gf_desc := d\<rparr>) dirty = Some (fs\<lparr>gf_desc := d2\<rparr>, dirty \<or> (c1 \<or> c2))"
    using g(1) r(1) by (simp add: disj_assoc)
  ultimately show ?case using r(2, 4) l1 good change by (intro exI [of _ d2] exI [of _ "c1 \<or> c2"]) auto
next
  case Nil
  then show ?case by (intro exI [of _ d] exI [of _ False]) simp
qed

lemma gdt_csum_result:
  assumes "table_ok fs" "gf_inode_map fs = Some bitmap"
  shows "\<exists>d. length d = length (gf_desc fs) \<and>
    ext2fs_set_gdt_csum fs =
      Some (fs\<lparr>gf_desc := d, gf_flags := if d = gf_desc fs then gf_flags fs else gf_flags fs OR 6\<rparr>, 0) \<and>
    (\<forall>g < gf_count fs. group_good bitmap (fs\<lparr>gf_desc := d\<rparr>) g) \<and>
    (\<forall>k < length d. k mod EXT2_DESC_SIZE fs \<notin> gdt_fields \<longrightarrow> d ! k = gf_desc fs ! k)"
proof -
  have ro: "\<not> gf_ro_compat fs AND EXT4_FEATURE_RO_COMPAT_GDT_CSUM = 0" using assms(1) by (simp add: table_ok_def)
  have "gf_desc_update (\<lambda>_. gf_desc fs) fs = fs" by simp
  then obtain d ch where r: "set_groups bitmap [0 ..< gf_count fs] fs False = Some (fs\<lparr>gf_desc := d\<rparr>, ch)" "length d = length (gf_desc fs)"
    "ch \<longleftrightarrow> d \<noteq> gf_desc fs" "\<forall>g \<in> set [0 ..< gf_count fs]. group_good bitmap (fs\<lparr>gf_desc := d\<rparr>) g"
    "\<forall>k < length (gf_desc fs). k div EXT2_DESC_SIZE fs \<notin> set [0 ..< gf_count fs] \<or> k mod EXT2_DESC_SIZE fs \<notin> gdt_fields \<longrightarrow>
      d ! k = gf_desc fs ! k"
    using set_groups_result [OF assms(1), of "[0 ..< gf_count fs]" "gf_desc fs" bitmap False]
    by (simp only: simp_thms distinct_upt) (metis atLeastLessThan_upt atLeastLessThan_iff lessThan_iff subsetI)
  then show ?thesis using assms(2) ro by (intro exI [of _ d]) (simp add: ext2fs_set_gdt_csum_def)
qed

subsection \<open>Properties\<close>

text \<open>A file system with two groups.\<close>

definition two_groups :: group_fs where
  "two_groups = \<lparr>gf_incompat = 0, gf_ro_compat = 0x10, gf_uuid = replicate 16 7, gf_desc_size = 0, gf_inodes_per_group = 8,
     gf_count = 2, gf_desc = replicate 30 1 @ [0x91, 0xFD] @ replicate 32 0, gf_inode_map = Some (\<lambda>n. n = 11), gf_flags = 1\<rparr>"

text \<open>C39: The checksum of a group descriptor protects it. In a table that lies inside its memory, when the checksum of a group is right
  and at most two adjacent bytes of the descriptor other than the checksum are replaced, with a descriptor of 32 bytes or of 64 bytes
  and more alike, the checksum is right afterwards only if the bytes are the same.
\<close>

theorem ext2fs_group_desc_csum_detects:
  assumes "table_ok fs" "g < gf_count fs" "ext2fs_group_desc_csum_verify fs g = Some True"
    "v \<noteq> []" "length v \<le> 2" "k + length v \<le> 30 \<or> 32 \<le> k \<and> k + length v \<le> EXT2_DESC_SIZE fs"
  shows "ext2fs_group_desc_csum_verify (fs\<lparr>gf_desc := write_at (ext2fs_group_desc fs g + k) v (gf_desc fs)\<rparr>) g = Some True \<longleftrightarrow>
    v = slice (ext2fs_group_desc fs g + k) (length v) (gf_desc fs)"
  by (rule csum_detects [OF assms])

lemma ext2fs_group_desc_csum_detects_witness:
  "ext2fs_group_desc_csum_verify (two_groups\<lparr>gf_desc := write_at 5 [1, 2] (gf_desc two_groups)\<rparr>) 0 \<noteq> Some True"
proof -
  have "table_ok two_groups" "ext2fs_group_desc two_groups 0 = 0" "0 < gf_count two_groups"
    by (simp_all add: two_groups_def table_ok_def EXT2_DESC_SIZE_def ext2fs_group_desc_def)
  moreover have "ext2fs_group_desc_csum_verify two_groups 0 = Some True" by code_simp
  moreover have "slice 5 2 (gf_desc two_groups) = [1, 1]" by (simp add: two_groups_def slice_def numeral_2_eq_2)
  ultimately show ?thesis using ext2fs_group_desc_csum_detects [of two_groups 0 "[1, 2]" 5] by (simp add: numeral_2_eq_2)
qed

text \<open>C40: \<open>ext2fs_set_gdt_csum\<close> brings the table of group descriptors up to date. On a table that lies inside its memory it succeeds; then
  the checksum of every group is right, a group is marked as uninitialised exactly when all its inodes are free, and otherwise no
  inode that it counts as never used is in use; only the flags, the counts of unused inodes and the checksums are written, in every
  descriptor at their offsets; and the superblock is marked dirty exactly when a byte of the table changed.
\<close>

theorem ext2fs_set_gdt_csum_result:
  assumes "table_ok fs" "gf_inode_map fs = Some bitmap"
  shows "\<exists>d. length d = length (gf_desc fs) \<and>
    ext2fs_set_gdt_csum fs =
      Some (fs\<lparr>gf_desc := d, gf_flags := if d = gf_desc fs then gf_flags fs else gf_flags fs OR 6\<rparr>, 0) \<and>
    (\<forall>g < gf_count fs. group_good bitmap (fs\<lparr>gf_desc := d\<rparr>) g) \<and>
    (\<forall>k < length d. k mod EXT2_DESC_SIZE fs \<notin> gdt_fields \<longrightarrow> d ! k = gf_desc fs ! k)"
  by (rule gdt_csum_result [OF assms])

lemma ext2fs_set_gdt_csum_result_witness:
  "\<exists>d. ext2fs_set_gdt_csum two_groups = Some (two_groups\<lparr>gf_desc := d, gf_flags := if d = gf_desc two_groups then 1 else 7\<rparr>, 0) \<and>
    group_good (\<lambda>n. n = 11) (two_groups\<lparr>gf_desc := d\<rparr>) 0 \<and> group_good (\<lambda>n. n = 11) (two_groups\<lparr>gf_desc := d\<rparr>) 1"
proof -
  have "table_ok two_groups" "gf_inode_map two_groups = Some (\<lambda>n. n = 11)" by (simp_all add: two_groups_def table_ok_def EXT2_DESC_SIZE_def)
  moreover have "gf_flags two_groups = 1" "0 < gf_count two_groups" "1 < gf_count two_groups" by (simp_all add: two_groups_def)
  moreover have "(1 OR 6 :: u32) = 7" by simp
  ultimately show ?thesis using ext2fs_set_gdt_csum_result [of two_groups "\<lambda>n. n = 11"] by metis
qed

end
