(* ===== verification/Uuid.thy ===== *)
theory Uuid
  imports NetPrelude
begin

text \<open>
  The universally unique identifiers of \<open>e2fsprogs\<close> (\<open>lib/uuid\<close>): packing and unpacking of the structure, the text
  form and the order. An identifier is a block of 16 bytes. Random generation and the daemon are not modelled.
\<close>

subsection \<open>The structure\<close>

record uuid =
  uu_time_low :: u32
  uu_time_mid :: u16
  uu_time_hi_and_version :: u16
  uu_clock_seq :: u16
  uu_node :: "u8 list"

text \<open>The fields are shifted through a 32-bit temporary, byte by byte.\<close>

definition uuid_pack :: "uuid \<Rightarrow> u8 list" where
  "uuid_pack uu =
     (let t0 = uu_time_low uu; t1 = drop_bit 8 t0; t2 = drop_bit 8 t1; t3 = drop_bit 8 t2;
          m0 = ucast (uu_time_mid uu) :: u32; m1 = drop_bit 8 m0;
          h0 = ucast (uu_time_hi_and_version uu) :: u32; h1 = drop_bit 8 h0;
          c0 = ucast (uu_clock_seq uu) :: u32; c1 = drop_bit 8 c0
      in [ucast t3, ucast t2, ucast t1, ucast t0, ucast m1, ucast m0, ucast h1, ucast h0, ucast c1, ucast c0] @
         take 6 (uu_node uu))"

definition shift_in :: "u32 \<Rightarrow> u8 \<Rightarrow> u32" where
  "shift_in tmp b = push_bit 8 tmp OR ucast b"

definition uuid_unpack :: "u8 list \<Rightarrow> uuid" where
  "uuid_unpack ptr =
     \<lparr>uu_time_low = shift_in (shift_in (shift_in (ucast (ptr ! 0)) (ptr ! 1)) (ptr ! 2)) (ptr ! 3),
      uu_time_mid = ucast (shift_in (ucast (ptr ! 4)) (ptr ! 5)),
      uu_time_hi_and_version = ucast (shift_in (ucast (ptr ! 6)) (ptr ! 7)),
      uu_clock_seq = ucast (shift_in (ucast (ptr ! 8)) (ptr ! 9)),
      uu_node = slice 10 6 ptr\<rparr>"

definition uuid_clear :: "u8 list \<Rightarrow> u8 list" where
  "uuid_clear uu = write_at 0 (replicate 16 0) uu"

primrec copy_loop :: "nat \<Rightarrow> nat \<Rightarrow> u8 list \<Rightarrow> u8 list \<Rightarrow> u8 list" where
  "copy_loop 0 i src dst = dst"
| "copy_loop (Suc n) i src dst = copy_loop n (i + 1) src (dst[i := src ! i])"

definition uuid_copy :: "u8 list \<Rightarrow> u8 list \<Rightarrow> u8 list" where
  "uuid_copy dst src = copy_loop 16 0 src dst"

primrec null_loop :: "nat \<Rightarrow> nat \<Rightarrow> u8 list \<Rightarrow> bool" where
  "null_loop 0 i uu = True"
| "null_loop (Suc n) i uu = (if uu ! i \<noteq> 0 then False else null_loop n (i + 1) uu)"

definition uuid_is_null :: "u8 list \<Rightarrow> bool" where
  "uuid_is_null uu = null_loop 16 0 uu"

subsection \<open>The order\<close>

text \<open>\<open>memcmp\<close>: only the sign of its result is specified.\<close>

primrec memcmp :: "u8 list \<Rightarrow> u8 list \<Rightarrow> nat \<Rightarrow> int" where
  "memcmp a b 0 = 0"
| "memcmp a b (Suc n) = (if hd a \<noteq> hd b then (if hd a < hd b then - 1 else 1) else memcmp (tl a) (tl b) n)"

definition UUCMP :: "'a::len word \<Rightarrow> 'a word \<Rightarrow> int \<Rightarrow> int" where
  "UUCMP u1 u2 next = (if u1 \<noteq> u2 then (if u1 < u2 then - 1 else 1) else next)"

definition uuid_compare :: "u8 list \<Rightarrow> u8 list \<Rightarrow> int" where
  "uuid_compare uu1 uu2 =
     (let uuid1 = uuid_unpack uu1; uuid2 = uuid_unpack uu2
      in UUCMP (uu_time_low uuid1) (uu_time_low uuid2)
         (UUCMP (uu_time_mid uuid1) (uu_time_mid uuid2)
         (UUCMP (uu_time_hi_and_version uuid1) (uu_time_hi_and_version uuid2)
         (UUCMP (uu_clock_seq uuid1) (uu_clock_seq uuid2)
         (memcmp (uu_node uuid1) (uu_node uuid2) 6)))))"

subsection \<open>The text form\<close>

definition isxdigit :: "char \<Rightarrow> bool" where
  "isxdigit c \<longleftrightarrow> digit_in 16 c \<noteq> None"

text \<open>
  \<open>strtoul\<close> in base 16 of a text that starts with a digit and has no \<open>x\<close>: blanks, sign and prefix do not occur,
  because the characters have been checked before. At most eight digits are converted.
\<close>

definition strtoul16 :: "string \<Rightarrow> nat" where
  "strtoul16 str = the (digits_val 16 0 (takeWhile isxdigit str))"

text \<open>The loop over the 36 characters and the terminating zero.\<close>

primrec parse_chars :: "nat \<Rightarrow> string \<Rightarrow> bool" where
  "parse_chars i [] = True"
| "parse_chars i (c # cs) =
     (if i = 8 \<or> i = 13 \<or> i = 18 \<or> i = 23 then (if c = CHR ''-'' then parse_chars (i + 1) cs else False)
      else if i = 36 \<and> c = CHR 0x00 then parse_chars (i + 1) cs
      else if \<not> isxdigit c then False
      else parse_chars (i + 1) cs)"

primrec parse_node :: "nat \<Rightarrow> string \<Rightarrow> u8 list" where
  "parse_node 0 cp = []"
| "parse_node (Suc n) cp = of_nat (strtoul16 [cp ! 0, cp ! 1]) # parse_node n (drop 2 cp)"

text \<open>The argument has no zero character; \<open>None\<close> is the result -1.\<close>

definition uuid_parse :: "string \<Rightarrow> u8 list option" where
  "uuid_parse str =
     (if length str \<noteq> 36 then None
      else if \<not> parse_chars 0 (str @ [CHR 0x00]) then None
      else Some (uuid_pack
        \<lparr>uu_time_low = of_nat (strtoul16 str),
         uu_time_mid = of_nat (strtoul16 (drop 9 str)),
         uu_time_hi_and_version = of_nat (strtoul16 (drop 14 str)),
         uu_clock_seq = of_nat (strtoul16 (drop 19 str)),
         uu_node = parse_node 6 (drop 24 str)\<rparr>))"

definition toupper :: "char \<Rightarrow> char" where
  "toupper c = (if 97 \<le> (of_char c :: nat) \<and> (of_char c :: nat) \<le> 122 then char_of ((of_char c :: nat) - 32) else c)"

definition tolower :: "char \<Rightarrow> char" where
  "tolower c = (if 65 \<le> (of_char c :: nat) \<and> (of_char c :: nat) \<le> 90 then char_of ((of_char c :: nat) + 32) else c)"

text \<open>\<open>%08x\<close> and so on; \<open>up\<close> says whether the format is the upper case one.\<close>

definition uuid_unparse_x :: "u8 list \<Rightarrow> bool \<Rightarrow> string" where
  "uuid_unparse_x uu up =
     (let uuid = uuid_unpack uu;
          x = (\<lambda>w n. if up then map toupper (hex_w w n) else hex_w w n)
      in x 8 (unat (uu_time_low uuid)) @ ''-'' @ x 4 (unat (uu_time_mid uuid)) @ ''-'' @
         x 4 (unat (uu_time_hi_and_version uuid)) @ ''-'' @
         x 2 (unat (drop_bit 8 (uu_clock_seq uuid))) @ x 2 (unat (uu_clock_seq uuid AND 0xff)) @ ''-'' @
         x 2 (unat (uu_node uuid ! 0)) @ x 2 (unat (uu_node uuid ! 1)) @ x 2 (unat (uu_node uuid ! 2)) @
         x 2 (unat (uu_node uuid ! 3)) @ x 2 (unat (uu_node uuid ! 4)) @ x 2 (unat (uu_node uuid ! 5)))"

definition uuid_unparse_lower :: "u8 list \<Rightarrow> string" where
  "uuid_unparse_lower uu = uuid_unparse_x uu False"

definition uuid_unparse_upper :: "u8 list \<Rightarrow> string" where
  "uuid_unparse_upper uu = uuid_unparse_x uu True"

text \<open>The default format is the lower case one.\<close>

definition uuid_unparse :: "u8 list \<Rightarrow> string" where
  "uuid_unparse uu = uuid_unparse_x uu False"

subsection \<open>Bytes and digits\<close>

lemma shift_in_nat:
  assumes "unat w < 2 ^ 24"
  shows "unat (shift_in w b) = unat w * 256 + unat b"
proof -
  have m: "unat (push_bit 8 w) = unat w * 256"
    using assms by (simp add: push_bit_eq_mult unat_word_ariths)
  have "push_bit 8 w OR ucast b = push_bit 8 w + ucast b"
    using unat_u8_less [of b] by (intro disjunctive_add [symmetric]) (auto simp: bit_simps dest: bit_imp_le_length)
  moreover have "unat (push_bit 8 w + ucast b) = unat (push_bit 8 w) + unat (ucast b :: u32)"
  proof (rule unat_add_small)
    have "unat w < 16777216" using assms by simp
    then have "unat w * 256 + unat b < 4294967296" using unat_u8_less [of b] by linarith
    then show "unat (push_bit 8 w) + unat (ucast b :: u32) < 2 ^ LENGTH(32)" by (simp add: m)
  qed
  ultimately show ?thesis by (simp add: shift_in_def m)
qed

text \<open>The number read from a byte list, big-endian.\<close>

definition be_nat :: "u8 list \<Rightarrow> nat" where
  "be_nat bs = foldl (\<lambda>n b. n * 256 + unat b) 0 bs"

lemma be_nat_simps [simp]: "be_nat [] = 0" "be_nat (bs @ [b]) = be_nat bs * 256 + unat b"
  by (simp_all add: be_nat_def)

lemma be_nat_less: "be_nat bs < 256 ^ length bs"
proof (induction bs rule: rev_induct)
  case (snoc b bs)
  have "be_nat bs * 256 + unat b < (be_nat bs + 1) * 256" using unat_u8_less [of b] by simp
  also have "\<dots> \<le> 256 ^ length bs * 256" using snoc.IH by (intro mult_le_mono1) simp
  finally show ?case by simp
qed simp

lemma be_nat_short: "be_nat [a] = unat a" "be_nat [a, b] = unat a * 256 + unat b"
  "be_nat [a, b, c, d] = ((unat a * 256 + unat b) * 256 + unat c) * 256 + unat d"
  by (simp_all add: be_nat_def)

lemma shift_two: "unat (shift_in (ucast a) b) = be_nat [a, b]"
  using less_trans [OF unat_u8_less, of "2 ^ 24" a] by (simp add: shift_in_nat be_nat_short)

lemma shift_four: "unat (shift_in (shift_in (shift_in (ucast a) b) c) d) = be_nat [a, b, c, d]"
proof -
  have 2: "unat (shift_in (ucast a) b) < 65536" using be_nat_less [of "[a, b]"] by (simp add: shift_two)
  have 3: "unat (shift_in (shift_in (ucast a) b) c) = unat (shift_in (ucast a) b) * 256 + unat c"
    using 2 by (intro shift_in_nat) simp
  have "unat (shift_in (shift_in (ucast a) b) c) < 16777216" using 2 unat_u8_less [of c] unfolding 3 by linarith
  then show ?thesis by (simp add: shift_in_nat 3 shift_two be_nat_short)
qed

lemma unat_short: "unat w < 65536 \<Longrightarrow> unat (ucast (w :: u32) :: u16) = unat w"
  by (simp add: unsigned_ucast_eq take_bit_eq_mod)

lemma unpack_nat:
  assumes "length ptr = 16"
  shows "unat (uu_time_low (uuid_unpack ptr)) = be_nat (take 4 ptr)"
    "unat (uu_time_mid (uuid_unpack ptr)) = be_nat (slice 4 2 ptr)"
    "unat (uu_time_hi_and_version (uuid_unpack ptr)) = be_nat (slice 6 2 ptr)"
    "unat (uu_clock_seq (uuid_unpack ptr)) = be_nat (slice 8 2 ptr)"
    "uu_node (uuid_unpack ptr) = slice 10 6 ptr"
proof -
  have t: "take 4 ptr = [ptr ! 0, ptr ! 1, ptr ! 2, ptr ! 3]" "slice 4 2 ptr = [ptr ! 4, ptr ! 5]"
    "slice 6 2 ptr = [ptr ! 6, ptr ! 7]" "slice 8 2 ptr = [ptr ! 8, ptr ! 9]"
    using assms by (auto simp: slice_def list_eq_iff_nth_eq less_Suc_eq numeral_eq_Suc)
  have s: "be_nat [a, b] < 65536" for a b using be_nat_less [of "[a, b]"] by simp
  show "unat (uu_time_low (uuid_unpack ptr)) = be_nat (take 4 ptr)"
    "unat (uu_time_mid (uuid_unpack ptr)) = be_nat (slice 4 2 ptr)"
    "unat (uu_time_hi_and_version (uuid_unpack ptr)) = be_nat (slice 6 2 ptr)"
    "unat (uu_clock_seq (uuid_unpack ptr)) = be_nat (slice 8 2 ptr)"
    "uu_node (uuid_unpack ptr) = slice 10 6 ptr"
    using s by (simp_all add: uuid_unpack_def t shift_four unat_short shift_two)
qed

lemma shift_in_bits: "bit (shift_in w b) n \<longleftrightarrow> n < 32 \<and> (if n < 8 then bit b n else bit w (n - 8))"
  by (cases "n < 8") (auto simp: shift_in_def bit_simps dest: bit_imp_le_length)

lemma pack_unpack:
  assumes "length ptr = 16"
  shows "uuid_pack (uuid_unpack ptr) = ptr"
proof -
  have ptr: "ptr = [ptr ! 0, ptr ! 1, ptr ! 2, ptr ! 3, ptr ! 4, ptr ! 5, ptr ! 6, ptr ! 7, ptr ! 8, ptr ! 9] @ slice 10 6 ptr"
    using assms by (auto simp: slice_def list_eq_iff_nth_eq less_Suc_eq numeral_eq_Suc nth_append)
  have b: "ucast (drop_bit 8 (drop_bit 8 (drop_bit 8 (shift_in (shift_in (shift_in (ucast (a :: u8)) b) c) d)))) = a"
    "ucast (drop_bit 8 (drop_bit 8 (shift_in (shift_in (shift_in (ucast a) b) c) d))) = b"
    "ucast (drop_bit 8 (shift_in (shift_in (shift_in (ucast a) b) c) d)) = c"
    "ucast (shift_in (shift_in (shift_in (ucast a) b) c) d) = d"
    "ucast (drop_bit 8 (ucast (ucast (shift_in (ucast a) b) :: u16) :: u32)) = a"
    "ucast (ucast (ucast (shift_in (ucast a) b) :: u16) :: u32) = b" for a b c d
    by (rule bit_word_eqI; auto simp: bit_simps shift_in_bits)+
  have "take 6 (slice 10 6 ptr) = slice 10 6 ptr" by (simp add: slice_def)
  then have "uuid_pack (uuid_unpack ptr) =
      [ptr ! 0, ptr ! 1, ptr ! 2, ptr ! 3, ptr ! 4, ptr ! 5, ptr ! 6, ptr ! 7, ptr ! 8, ptr ! 9] @ slice 10 6 ptr"
    unfolding uuid_pack_def uuid_unpack_def Let_def uuid.simps b by simp
  then show ?thesis using ptr by simp
qed

text \<open>Two digits a byte.\<close>

definition hexs :: "u8 list \<Rightarrow> string" where
  "hexs bs = concat (map (\<lambda>b. hex_w 2 (unat b)) bs)"

lemma hex_w_two: "b < 256 \<Longrightarrow> hex_w (Suc (Suc w)) (n * 256 + b) = hex_w w n @ hex_w 2 b"
proof -
  assume b: "b < 256"
  have "n * 256 + b = b mod 16 + 16 * (b div 16 + 16 * n)" by simp
  then have d: "(n * 256 + b) div 16 = b div 16 + 16 * n" by simp
  have "n * 256 + b = b + 16 * (16 * n)" by simp
  then have "(n * 256 + b) mod 16 = b mod 16" by (metis mod_mult_self2)
  note 1 = d this
  have "b div 16 < 16" using b by (simp add: less_mult_imp_div_less)
  then have 2: "(b div 16 + 16 * n) div 16 = n" "(b div 16 + 16 * n) mod 16 = b div 16" "b div 16 mod 16 = b div 16" by simp_all
  show ?thesis by (simp add: numeral_2_eq_2 1 2)
qed

lemma hexs_append [simp]: "hexs [] = []" "hexs (a @ b) = hexs a @ hexs b" "hexs (x # a) = hex_w 2 (unat x) @ hexs a"
  by (simp_all add: hexs_def)

lemma hex_be_nat: "hex_w (2 * length bs) (be_nat bs) = hexs bs"
proof (induction bs rule: rev_induct)
  case (snoc b bs)
  have "2 * length (bs @ [b]) = Suc (Suc (2 * length bs))" by simp
  then show ?case using snoc.IH hex_w_two [OF unat_u8_less, of "2 * length bs" "be_nat bs" b]
    by (simp only: be_nat_simps hexs_append append_Nil2)
qed simp

fun pair_bytes :: "string \<Rightarrow> u8 list" where
  "pair_bytes (a # b # r) = of_nat (16 * the (digit_in 16 a) + the (digit_in 16 b)) # pair_bytes r"
| "pair_bytes r = []"

lemma digit_less: "digit_in 16 c = Some v \<Longrightarrow> v < 16"
  by (simp add: digit_in_def Let_def split: if_splits)

lemma pair_append: "even (length a) \<Longrightarrow> pair_bytes (a @ b) = pair_bytes a @ pair_bytes b"
  by (induction a rule: pair_bytes.induct) simp_all

lemma length_pair: "length (pair_bytes a) = length a div 2"
  by (induction a rule: pair_bytes.induct) simp_all

lemma digits_pair: "even (length g) \<Longrightarrow> \<forall>c \<in> set g. isxdigit c \<Longrightarrow>
  digits_val 16 acc g = Some (foldl (\<lambda>n b. n * 256 + unat b) acc (pair_bytes g))"
proof (induction g arbitrary: acc rule: pair_bytes.induct)
  case (1 a b r)
  obtain x y where xy: "digit_in 16 a = Some x" "digit_in 16 b = Some y" using "1.prems"(2) by (auto simp: isxdigit_def)
  have "16 * x + y < 256" using digit_less [OF xy(1)] digit_less [OF xy(2)] by simp
  then have "unat (of_nat (16 * x + y) :: u8) = 16 * x + y" by (intro unat_of_nat_small) simp
  moreover have "256 * acc + x * 16 + y = acc * 256 + (16 * x + y)" by simp
  ultimately show ?case using 1 xy by (simp add: algebra_simps)
qed simp_all

lemma strtoul_pair:
  assumes "even (length g)" "\<forall>c \<in> set g. isxdigit c" "r = [] \<or> \<not> isxdigit (hd r)"
  shows "strtoul16 (g @ r) = be_nat (pair_bytes g)"
proof -
  have "takeWhile isxdigit (g @ r) = g"
    using assms(2, 3) by (cases r) (simp_all add: takeWhile_append2)
  then show ?thesis using digits_pair [OF assms(1, 2), of 0] by (simp add: strtoul16_def be_nat_def)
qed

text \<open>A digit and its upper and lower case.\<close>

lemma hex_digit_value: "v < 16 \<Longrightarrow> digit_in 16 (hex_digit v) = Some v"
  by (simp add: digit_in_def hex_digit_def of_char_of take_bit_eq_mod)

lemma tolower_digit: "digit_in 16 c = Some v \<Longrightarrow> tolower c = hex_digit v"
  by (auto simp: digit_in_def hex_digit_def tolower_def Let_def split: if_splits)

lemma toupper_digit: "digit_in 16 (toupper (hex_digit v)) = Some v" if "v < 16"
proof -
  have "v \<in> set [0 ..< 16]" using that by simp
  then show ?thesis by (simp add: upt_rec numeral_eq_Suc) (auto simp: hex_digit_def toupper_def digit_in_def)
qed

lemma hex_w_chars: "c \<in> set (hex_w w n) \<Longrightarrow> \<exists>v < 16. c = hex_digit v"
proof (induction w arbitrary: n)
  case (Suc w)
  have "\<exists>v < 16. hex_digit (n mod 16) = hex_digit v" by (intro exI [of _ "n mod 16"]) simp
  then show ?case using Suc by auto
qed simp

lemma hex_digit_is: "v < 16 \<Longrightarrow> isxdigit (hex_digit v)"
  by (simp add: isxdigit_def hex_digit_value)

lemma tolower_hex_digit: "v < 16 \<Longrightarrow> tolower (hex_digit v) = hex_digit v"
  using tolower_digit [OF hex_digit_value] by simp

lemma tolower_toupper: "v < 16 \<Longrightarrow> tolower (toupper (hex_digit v)) = hex_digit v"
  using tolower_digit [OF toupper_digit] by simp

lemma hexs_chars: "c \<in> set (hexs bs) \<Longrightarrow> \<exists>v < 16. c = hex_digit v"
  using hex_w_chars by (induction bs) fastforce+

lemma length_hex_w [simp]: "length (hex_w w n) = w"
  by (induction w arbitrary: n) simp_all

lemma length_hexs [simp]: "length (hexs bs) = 2 * length bs"
  by (induction bs) simp_all

lemma pair_hexs: "pair_bytes (hexs bs) = bs"
proof (induction bs)
  case (Cons b bs)
  have b: "unat b div 16 < 16" using unat_u8_less [of b] by (simp add: less_mult_imp_div_less)
  have "hex_w 2 (unat b) = [hex_digit (unat b div 16), hex_digit (unat b mod 16)]"
    using b by (simp add: numeral_2_eq_2)
  moreover have "of_nat (16 * (unat b div 16) + unat b mod 16) = b" unfolding mult_div_mod_eq by simp
  ultimately show ?case using Cons.IH b by (simp add: hex_digit_value del: of_nat_add of_nat_mult)
qed (simp add: hexs_def)

lemma hexs_pair: "even (length g) \<Longrightarrow> \<forall>c \<in> set g. isxdigit c \<Longrightarrow> hexs (pair_bytes g) = map tolower g"
proof (induction g rule: pair_bytes.induct)
  case (1 a b r)
  obtain x y where xy: "digit_in 16 a = Some x" "digit_in 16 b = Some y" using "1.prems"(2) by (auto simp: isxdigit_def)
  have l: "x < 16" "y < 16" using digit_less xy by blast+
  then have "unat (of_nat (16 * x + y) :: u8) = 16 * x + y" by (intro unat_of_nat_small) simp
  then have "hex_w 2 (unat (of_nat (16 * x + y) :: u8)) = [hex_digit x, hex_digit y]"
    using l by (simp add: numeral_2_eq_2)
  then show ?case using 1 xy tolower_digit by (simp del: of_nat_add of_nat_mult)
qed (simp_all add: hexs_def)

lemma tolower_code: "(of_char (tolower c) :: nat) =
    (if 65 \<le> (of_char c :: nat) \<and> (of_char c :: nat) \<le> 90 then of_char c + 32 else of_char c)"
  by (simp add: tolower_def of_char_of take_bit_eq_mod)

lemma tolower_hex: "tolower c = hex_digit v \<Longrightarrow> v < 16 \<Longrightarrow> isxdigit c"
proof -
  assume eq: "tolower c = hex_digit v" and v: "v < 16"
  define n :: nat where "n = of_char c"
  have n: "n < 256" by (simp add: n_def)
  have "(of_char (hex_digit v) :: nat) = (if v < 10 then 48 + v else 87 + v)"
    using v by (simp add: hex_digit_def of_char_of take_bit_eq_mod)
  moreover have "(of_char (tolower c) :: nat) = (if 65 \<le> n \<and> n \<le> 90 then n + 32 else n)"
    by (simp add: tolower_code n_def)
  ultimately have "(if 65 \<le> n \<and> n \<le> 90 then n + 32 else n) = (if v < 10 then 48 + v else 87 + v)" using eq by simp
  then show ?thesis using v by (auto simp: isxdigit_def digit_in_def Let_def n_def [symmetric] split: if_splits)
qed

lemma lower_pair: "map tolower g = hexs bs \<Longrightarrow> \<forall>c \<in> set g. isxdigit c"
proof
  fix c assume eq: "map tolower g = hexs bs" and "c \<in> set g"
  then have "tolower c \<in> set (hexs bs)" by (metis image_eqI set_map)
  then show "isxdigit c" using hexs_chars tolower_hex by blast
qed

subsection \<open>Parsing and printing\<close>

definition dashed :: "string \<Rightarrow> string \<Rightarrow> string \<Rightarrow> string \<Rightarrow> string \<Rightarrow> string" where
  "dashed g1 g2 g3 g4 g5 = g1 @ ''-'' @ g2 @ ''-'' @ g3 @ ''-'' @ g4 @ ''-'' @ g5"

definition groups :: "string \<Rightarrow> string \<Rightarrow> string \<Rightarrow> string \<Rightarrow> string \<Rightarrow> bool" where
  "groups g1 g2 g3 g4 g5 \<longleftrightarrow> length g1 = 8 \<and> length g2 = 4 \<and> length g3 = 4 \<and> length g4 = 4 \<and> length g5 = 12 \<and>
     (\<forall>c \<in> set (g1 @ g2 @ g3 @ g4 @ g5). isxdigit c)"

definition char_fits :: "nat \<Rightarrow> char \<Rightarrow> bool" where
  "char_fits i c \<longleftrightarrow> (if i = 8 \<or> i = 13 \<or> i = 18 \<or> i = 23 then c = CHR ''-'' else i = 36 \<and> c = CHR 0x00 \<or> isxdigit c)"

lemma parse_chars_nth: "parse_chars i cs \<longleftrightarrow> (\<forall>k < length cs. char_fits (i + k) (cs ! k))"
proof (induction cs arbitrary: i)
  case (Cons c cs)
  have "parse_chars i (c # cs) \<longleftrightarrow> char_fits i c \<and> parse_chars (i + 1) cs"
    by (auto simp: char_fits_def)
  then show ?case by (simp add: Cons.IH All_less_Suc2)
qed simp

lemma parse_ok_iff:
  assumes "length str = 36"
  shows "parse_chars 0 (str @ [CHR 0x00]) \<longleftrightarrow> (\<exists>g1 g2 g3 g4 g5. str = dashed g1 g2 g3 g4 g5 \<and> groups g1 g2 g3 g4 g5)"
proof
  assume p: "parse_chars 0 (str @ [CHR 0x00])"
  have ok: "char_fits k (str ! k)" if "k < 36" for k
    using p that assms by (auto simp: parse_chars_nth nth_append dest!: spec [of _ k])
  let ?g = "\<lambda>a n. slice a n str"
  have hex: "\<forall>c \<in> set (?g a n). isxdigit c" if "a + n \<le> 36" "\<forall>k \<in> {a ..< a + n}. k \<notin> {8, 13, 18, 23}" for a n
  proof
    fix c assume "c \<in> set (?g a n)"
    then obtain j where j: "j < n" "c = str ! (a + j)" using that(1) assms by (auto simp: slice_def in_set_conv_nth)
    then show "isxdigit c" using ok [of "a + j"] that by (auto simp: char_fits_def)
  qed
  have d: "str ! 8 = CHR ''-''" "str ! 13 = CHR ''-''" "str ! 18 = CHR ''-''" "str ! 23 = CHR ''-''"
    using ok [of 8] ok [of 13] ok [of 18] ok [of 23] by (simp_all add: char_fits_def)
  have split: "drop a str = ?g a n @ str ! (a + n) # drop (a + n + 1) str" if "a + n < 36" for a n
    using that assms id_take_nth_drop [of n "drop a str"] by (simp add: slice_def add.commute)
  have "str = ?g 0 8 @ str ! 8 # ?g 9 4 @ str ! 13 # ?g 14 4 @ str ! 18 # ?g 19 4 @ str ! 23 # ?g 24 12"
  proof -
    have e24: "drop 24 str = ?g 24 12" using assms by (simp add: slice_def)
    have e19: "drop 19 str = ?g 19 4 @ str ! 23 # ?g 24 12" using split [of 19 4] by (simp add: e24)
    have e14: "drop 14 str = ?g 14 4 @ str ! 18 # ?g 19 4 @ str ! 23 # ?g 24 12" using split [of 14 4] by (simp add: e19)
    have e9: "drop 9 str = ?g 9 4 @ str ! 13 # ?g 14 4 @ str ! 18 # ?g 19 4 @ str ! 23 # ?g 24 12"
      using split [of 9 4] by (simp add: e14)
    have "str = ?g 0 8 @ str ! 8 # drop 9 str" using split [of 0 8] by simp
    then show ?thesis unfolding e9 .
  qed
  then have "str = dashed (?g 0 8) (?g 9 4) (?g 14 4) (?g 19 4) (?g 24 12)" by (simp add: dashed_def d)
  moreover have "groups (?g 0 8) (?g 9 4) (?g 14 4) (?g 19 4) (?g 24 12)"
    using assms hex [of 0 8] hex [of 9 4] hex [of 14 4] hex [of 19 4] hex [of 24 12]
    by (simp add: groups_def ball_Un)
  ultimately show "\<exists>g1 g2 g3 g4 g5. str = dashed g1 g2 g3 g4 g5 \<and> groups g1 g2 g3 g4 g5" by blast
next
  assume "\<exists>g1 g2 g3 g4 g5. str = dashed g1 g2 g3 g4 g5 \<and> groups g1 g2 g3 g4 g5"
  then obtain g1 g2 g3 g4 g5 where s: "str = dashed g1 g2 g3 g4 g5" and g: "groups g1 g2 g3 g4 g5" by blast
  have part: "parse_chars i (a @ b) \<longleftrightarrow> parse_chars (i + length a) b"
    if "\<forall>c \<in> set a. isxdigit c" "\<forall>k \<in> {i ..< i + length a}. k \<notin> {8, 13, 18, 23}" for i a b
    using that by (induction a arbitrary: i) (auto simp: Ball_def)
  show "parse_chars 0 (str @ [CHR 0x00])"
    using g by (simp add: s dashed_def groups_def part ball_Un)
qed

lemma parse_groups:
  assumes "groups g1 g2 g3 g4 g5"
  shows "uuid_parse (dashed g1 g2 g3 g4 g5) = Some (pair_bytes (g1 @ g2 @ g3 @ g4 @ g5))"
proof -
  let ?s = "dashed g1 g2 g3 g4 g5"
  define P where "P = pair_bytes (g1 @ g2 @ g3 @ g4 @ g5)"
  have len: "length g1 = 8" "length g2 = 4" "length g3 = 4" "length g4 = 4" "length g5 = 12"
    and hex: "\<forall>c \<in> set g1. isxdigit c" "\<forall>c \<in> set g2. isxdigit c" "\<forall>c \<in> set g3. isxdigit c" "\<forall>c \<in> set g4. isxdigit c"
      "\<forall>c \<in> set g5. isxdigit c"
    using assms by (auto simp: groups_def)
  have dash: "\<not> isxdigit CHR ''-''" by (simp add: isxdigit_def digit_in_def)
  have P: "P = pair_bytes g1 @ pair_bytes g2 @ pair_bytes g3 @ pair_bytes g4 @ pair_bytes g5"
    using len by (simp add: P_def pair_append)
  have lP: "length P = 16" using len by (simp add: P_def length_pair)
  have part: "take 4 P = pair_bytes g1" "slice 4 2 P = pair_bytes g2" "slice 6 2 P = pair_bytes g3"
    "slice 8 2 P = pair_bytes g4" "slice 10 6 P = pair_bytes g5"
    using len by (simp_all add: P slice_def length_pair)
  have n1: "strtoul16 ?s = be_nat (take 4 P)" using strtoul_pair [OF _ hex(1)] len dash by (simp add: dashed_def part)
  have n2: "strtoul16 (drop 9 ?s) = be_nat (slice 4 2 P)"
    using strtoul_pair [OF _ hex(2)] len dash by (simp add: dashed_def part)
  have n3: "strtoul16 (drop 14 ?s) = be_nat (slice 6 2 P)"
    using strtoul_pair [OF _ hex(3)] len dash by (simp add: dashed_def part)
  have n4: "strtoul16 (drop 19 ?s) = be_nat (slice 8 2 P)"
    using strtoul_pair [OF _ hex(4)] len dash by (simp add: dashed_def part)
  have d5: "drop 24 ?s = g5" using len by (simp add: dashed_def)
  have node: "parse_node n g = pair_bytes g" if "length g = 2 * n" "\<forall>c \<in> set g. isxdigit c" for n g
    using that
  proof (induction n arbitrary: g)
    case (Suc n)
    then obtain a b r where g: "g = a # b # r" by (cases g; cases "tl g") auto
    have "strtoul16 [a, b] = be_nat (pair_bytes [a, b])" using strtoul_pair [of "[a, b]" "[]"] Suc.prems(2) g by simp
    then have "of_nat (strtoul16 [a, b]) # pair_bytes r = pair_bytes g" by (simp add: g be_nat_short)
    then show ?case using Suc g by simp
  qed simp
  have "\<lparr>uu_time_low = of_nat (strtoul16 ?s), uu_time_mid = of_nat (strtoul16 (drop 9 ?s)),
      uu_time_hi_and_version = of_nat (strtoul16 (drop 14 ?s)), uu_clock_seq = of_nat (strtoul16 (drop 19 ?s)),
      uu_node = parse_node 6 (drop 24 ?s)\<rparr> = uuid_unpack P"
  proof -
    note u = unpack_nat [OF lP, symmetric]
    show ?thesis unfolding n1 n2 n3 n4 u(1-4) d5 using node [of g5 6] len hex(5) unpack_nat(5) [OF lP] part(5)
      by (cases "uuid_unpack P") simp
  qed
  moreover have "length ?s = 36" using len by (simp add: dashed_def)
  ultimately show ?thesis
    using assms parse_ok_iff [of ?s] pack_unpack [OF lP] unfolding uuid_parse_def P_def [symmetric] by auto
qed

lemma parse_Some_iff:
  "uuid_parse str = Some u \<longleftrightarrow>
     (\<exists>g1 g2 g3 g4 g5. str = dashed g1 g2 g3 g4 g5 \<and> groups g1 g2 g3 g4 g5 \<and> u = pair_bytes (g1 @ g2 @ g3 @ g4 @ g5))"
proof
  assume p: "uuid_parse str = Some u"
  then have "length str = 36" "parse_chars 0 (str @ [CHR 0x00])" by (auto simp: uuid_parse_def split: if_splits)
  then show "\<exists>g1 g2 g3 g4 g5. str = dashed g1 g2 g3 g4 g5 \<and> groups g1 g2 g3 g4 g5 \<and> u = pair_bytes (g1 @ g2 @ g3 @ g4 @ g5)"
    using parse_ok_iff parse_groups p by (metis option.inject)
qed (use parse_groups in blast)

lemma unparse_groups:
  assumes "length u = 16"
  shows "uuid_unparse_lower u =
      dashed (hexs (take 4 u)) (hexs (slice 4 2 u)) (hexs (slice 6 2 u)) (hexs (slice 8 2 u)) (hexs (slice 10 6 u))"
proof -
  note n = unpack_nat [OF assms]
  have c: "hex_w 2 (unat (drop_bit 8 (uu_clock_seq (uuid_unpack u)))) @ hex_w 2 (unat (uu_clock_seq (uuid_unpack u) AND 0xff)) =
      hexs (slice 8 2 u)"
  proof -
    have s: "slice 8 2 u = [u ! 8, u ! 9]" using assms by (auto simp: slice_def list_eq_iff_nth_eq less_Suc_eq numeral_eq_Suc)
    have a: "w AND 0xff = take_bit 8 w" for w :: u16 by (simp add: take_bit_eq_mask mask_eq_exp_minus_1)
    have "unat (uu_clock_seq (uuid_unpack u) AND 0xff) = be_nat (slice 8 2 u) mod 256"
      by (simp only: a unsigned_take_bit_eq n(4)) (simp add: take_bit_eq_mod)
    moreover have "unat (drop_bit 8 (uu_clock_seq (uuid_unpack u))) = be_nat (slice 8 2 u) div 256"
      using be_nat_less [of "slice 8 2 u"] assms
      by (simp only: unsigned_drop_bit_eq n(4)) (simp add: drop_bit_eq_div take_bit_eq_mod)
    ultimately show ?thesis by (simp add: s be_nat_short)
  qed
  have nodes: "hex_w 2 (unat (w ! 0)) @ hex_w 2 (unat (w ! 1)) @ hex_w 2 (unat (w ! 2)) @ hex_w 2 (unat (w ! 3)) @
      hex_w 2 (unat (w ! 4)) @ hex_w 2 (unat (w ! 5)) = hexs w" if "length w = 6" for w
  proof -
    have "w = [w ! 0, w ! 1, w ! 2, w ! 3, w ! 4, w ! 5]"
      using that by (auto simp: list_eq_iff_nth_eq less_Suc_eq numeral_eq_Suc)
    then have "hexs w = hexs [w ! 0, w ! 1, w ! 2, w ! 3, w ! 4, w ! 5]" by (rule arg_cong)
    then show ?thesis by simp
  qed
  have h: "hex_w 8 (be_nat (take 4 u)) = hexs (take 4 u)" "hex_w 4 (be_nat (slice 4 2 u)) = hexs (slice 4 2 u)"
    "hex_w 4 (be_nat (slice 6 2 u)) = hexs (slice 6 2 u)"
    using assms hex_be_nat [of "take 4 u"] hex_be_nat [of "slice 4 2 u"] hex_be_nat [of "slice 6 2 u"] by simp_all
  have "length (slice 10 6 u) = 6" using assms by simp
  then show ?thesis
    unfolding uuid_unparse_lower_def uuid_unparse_x_def Let_def if_False n(1-3, 5) h
    using c nodes [of "slice 10 6 u"] by (simp add: dashed_def)
qed

lemma dashed_lower: "map tolower (dashed g1 g2 g3 g4 g5) =
    dashed (map tolower g1) (map tolower g2) (map tolower g3) (map tolower g4) (map tolower g5)"
  by (simp add: dashed_def tolower_def)

lemma dashed_inj:
  assumes "map tolower str = dashed h1 h2 h3 h4 h5"
  shows "\<exists>g1 g2 g3 g4 g5. str = dashed g1 g2 g3 g4 g5 \<and> map tolower g1 = h1 \<and> map tolower g2 = h2 \<and> map tolower g3 = h3 \<and>
    map tolower g4 = h4 \<and> map tolower g5 = h5"
proof -
  have d: "c = CHR ''-''" if "tolower c = CHR ''-''" for c
  proof -
    have "(of_char (tolower c) :: nat) = 45" unfolding that by simp
    then have "\<not> (65 \<le> (of_char c :: nat) \<and> (of_char c :: nat) \<le> 90)" by (auto simp: tolower_code split: if_splits)
    then show ?thesis using that by (auto simp: tolower_def split: if_splits)
  qed
  have step: "\<exists>g r'. t = g @ CHR ''-'' # r' \<and> map tolower g = h \<and> map tolower r' = r"
    if "map tolower t = h @ CHR ''-'' # r" for t h r
    using that d by (fastforce simp: map_eq_append_conv map_eq_Cons_conv)
  obtain g1 r1 where 1: "str = g1 @ CHR ''-'' # r1" "map tolower g1 = h1" "map tolower r1 = h2 @ ''-'' @ h3 @ ''-'' @ h4 @ ''-'' @ h5"
    using step assms by (fastforce simp: dashed_def)
  obtain g2 r2 where 2: "r1 = g2 @ CHR ''-'' # r2" "map tolower g2 = h2" "map tolower r2 = h3 @ ''-'' @ h4 @ ''-'' @ h5"
    using step 1(3) by fastforce
  obtain g3 r3 where 3: "r2 = g3 @ CHR ''-'' # r3" "map tolower g3 = h3" "map tolower r3 = h4 @ ''-'' @ h5"
    using step 2(3) by fastforce
  obtain g4 r4 where 4: "r3 = g4 @ CHR ''-'' # r4" "map tolower g4 = h4" "map tolower r4 = h5"
    using step 3(3) by fastforce
  show ?thesis
    by (rule exI [of _ g1], rule exI [of _ g2], rule exI [of _ g3], rule exI [of _ g4], rule exI [of _ r4])
      (use 1 2 3 4 in \<open>simp add: dashed_def\<close>)
qed

lemma uuid_parse_iff:
  "uuid_parse str = Some u \<longleftrightarrow> length u = 16 \<and> map tolower str = uuid_unparse_lower u"
proof
  assume "uuid_parse str = Some u"
  then obtain g1 g2 g3 g4 g5 where s: "str = dashed g1 g2 g3 g4 g5" and g: "groups g1 g2 g3 g4 g5"
    and u: "u = pair_bytes (g1 @ g2 @ g3 @ g4 @ g5)" unfolding parse_Some_iff by blast
  have len: "length g1 = 8" "length g2 = 4" "length g3 = 4" "length g4 = 4" "length g5 = 12"
    using g by (simp_all add: groups_def)
  have hx: "map tolower g1 = hexs (pair_bytes g1)" "map tolower g2 = hexs (pair_bytes g2)" "map tolower g3 = hexs (pair_bytes g3)"
    "map tolower g4 = hexs (pair_bytes g4)" "map tolower g5 = hexs (pair_bytes g5)"
    using g by (simp_all add: groups_def hexs_pair)
  have u': "u = pair_bytes g1 @ pair_bytes g2 @ pair_bytes g3 @ pair_bytes g4 @ pair_bytes g5"
    using len by (simp add: u pair_append)
  have lu: "length u = 16" using len by (simp add: u length_pair)
  have "map tolower str = uuid_unparse_lower u"
    unfolding unparse_groups [OF lu] s dashed_lower hx using len by (simp add: u' slice_def length_pair)
  then show "length u = 16 \<and> map tolower str = uuid_unparse_lower u" using lu by blast
next
  assume a: "length u = 16 \<and> map tolower str = uuid_unparse_lower u"
  then obtain g1 g2 g3 g4 g5 where s: "str = dashed g1 g2 g3 g4 g5" and m: "map tolower g1 = hexs (take 4 u)"
    "map tolower g2 = hexs (slice 4 2 u)" "map tolower g3 = hexs (slice 6 2 u)" "map tolower g4 = hexs (slice 8 2 u)"
    "map tolower g5 = hexs (slice 10 6 u)"
    using dashed_inj unparse_groups by metis
  have hex: "\<forall>c \<in> set (g1 @ g2 @ g3 @ g4 @ g5). isxdigit c"
    using m [THEN lower_pair] by (simp add: ball_Un)
  have len: "length g1 = 8" "length g2 = 4" "length g3 = 4" "length g4 = 4" "length g5 = 12"
    using m [THEN arg_cong, of length] a by simp_all
  have gr: "groups g1 g2 g3 g4 g5" using len hex by (simp add: groups_def)
  have "hexs (pair_bytes (g1 @ g2 @ g3 @ g4 @ g5)) = map tolower (g1 @ g2 @ g3 @ g4 @ g5)"
    using len hex by (intro hexs_pair) simp_all
  also have "\<dots> = hexs (take 4 u @ slice 4 2 u @ slice 6 2 u @ slice 8 2 u @ slice 10 6 u)" using m by simp
  also have "take 4 u @ slice 4 2 u @ slice 6 2 u @ slice 8 2 u @ slice 10 6 u = u"
    using a by (simp add: slice_def) (simp add: list_eq_iff_nth_eq nth_append)
  finally have "pair_bytes (g1 @ g2 @ g3 @ g4 @ g5) = u" by (metis pair_hexs)
  then show "uuid_parse str = Some u" using parse_groups [OF gr] s by simp
qed

lemma unparse_chars: "c \<in> set (uuid_unparse_lower u) \<Longrightarrow> c = CHR ''-'' \<or> (\<exists>v < 16. c = hex_digit v)"
  using hex_w_chars by (auto simp: uuid_unparse_lower_def uuid_unparse_x_def Let_def)

lemma unparse_upper: "uuid_unparse_upper u = map toupper (uuid_unparse_lower u)"
  by (simp add: uuid_unparse_upper_def uuid_unparse_lower_def uuid_unparse_x_def Let_def toupper_def)

lemma lower_unparse: "map tolower (uuid_unparse_lower u) = uuid_unparse_lower u"
  "map tolower (uuid_unparse_upper u) = uuid_unparse_lower u"
proof -
  have d: "tolower CHR ''-'' = CHR ''-''" "toupper CHR ''-'' = CHR ''-''" by (simp_all add: tolower_def toupper_def)
  have "tolower c = c \<and> tolower (toupper c) = c" if "c \<in> set (uuid_unparse_lower u)" for c
    using unparse_chars [OF that] tolower_hex_digit tolower_toupper d by auto
  then show "map tolower (uuid_unparse_lower u) = uuid_unparse_lower u"
    "map tolower (uuid_unparse_upper u) = uuid_unparse_lower u"
    by (simp_all add: unparse_upper map_idI)
qed

lemma parse_unparse:
  "(uuid_parse str = Some u \<longleftrightarrow> length u = 16 \<and> map tolower str = uuid_unparse_lower u) \<and>
   (length u = 16 \<longrightarrow> uuid_parse (uuid_unparse_lower u) = Some u \<and> uuid_parse (uuid_unparse_upper u) = Some u)"
  using uuid_parse_iff lower_unparse by simp

text \<open>C32: \<open>uuid_parse\<close> accepts exactly the texts which, in lower case, \<open>uuid_unparse_lower\<close> prints for some identifier, and
  gives that identifier; in particular it reads back what \<open>uuid_unparse_lower\<close> and \<open>uuid_unparse_upper\<close> print for any
  sixteen bytes, and no two identifiers print alike.
\<close>

theorem uuid_parse_unparse:
  "(uuid_parse str = Some u \<longleftrightarrow> length u = 16 \<and> map tolower str = uuid_unparse_lower u) \<and>
   (length u = 16 \<longrightarrow> uuid_parse (uuid_unparse_lower u) = Some u \<and> uuid_parse (uuid_unparse_upper u) = Some u)"
  by (rule parse_unparse)

lemma uuid_parse_unparse_witness:
  "uuid_parse (uuid_unparse_upper (map of_nat [0 ..< 16])) = Some (map of_nat [0 ..< 16])"
  using uuid_parse_unparse [of _ "map of_nat [0 ..< 16]"] by simp

subsection \<open>The order is the order of the bytes\<close>

lemma memcmp_append: "length a = n \<Longrightarrow> length b = n \<Longrightarrow>
    memcmp (a @ c) (b @ d) (n + m) = (if a \<noteq> b then memcmp a b n else memcmp c d m)"
proof (induction n arbitrary: a b)
  case (Suc n)
  then obtain x a' y b' where "a = x # a'" "b = y # b'" by (metis length_Suc_conv)
  then show ?case using Suc by auto
qed simp

lemma carry:
  fixes A B p q :: nat
  assumes "p < 256" "q < 256"
  shows "A * 256 + p = B * 256 + q \<longleftrightarrow> A = B \<and> p = q" "A * 256 + p < B * 256 + q \<longleftrightarrow> A < B \<or> A = B \<and> p < q"
proof -
  have lt: "C * 256 + r < D * 256 + t" if "C < D" "r < 256" for C D r t :: nat using that by linarith
  show "A * 256 + p = B * 256 + q \<longleftrightarrow> A = B \<and> p = q" "A * 256 + p < B * 256 + q \<longleftrightarrow> A < B \<or> A = B \<and> p < q"
    using lt [of A B p q] lt [of B A q p] assms by (cases A B rule: linorder_cases; simp)+
qed

lemma memcmp_be_nat:
  assumes "length a = n" "length b = n"
  shows "memcmp a b n = (if be_nat a \<noteq> be_nat b then (if be_nat a < be_nat b then - 1 else 1) else 0)"
    "be_nat a = be_nat b \<longleftrightarrow> a = b"
proof -
  have "memcmp a b n = (if be_nat a \<noteq> be_nat b then (if be_nat a < be_nat b then - 1 else 1) else 0) \<and>
      (be_nat a = be_nat b \<longleftrightarrow> a = b)"
    using assms
  proof (induction n arbitrary: a b)
    case (Suc n)
    then obtain a' x where a: "a = a' @ [x]" "length a' = n" by (metis length_Suc_conv_rev)
    obtain b' y where b: "b = b' @ [y]" "length b' = n" using Suc.prems(2) by (metis length_Suc_conv_rev)
    have ih: "memcmp a' b' n = (if be_nat a' \<noteq> be_nat b' then (if be_nat a' < be_nat b' then - 1 else 1) else 0)"
      "be_nat a' = be_nat b' \<longleftrightarrow> a' = b'" using Suc.IH [OF a(2) b(2)] by blast+
    have c: "memcmp a b (n + 1) = (if a' \<noteq> b' then memcmp a' b' n else memcmp [x] [y] 1)"
      unfolding a b by (rule memcmp_append [OF a(2) b(2)])
    have "be_nat a' * 256 + unat x = be_nat b' * 256 + unat y \<longleftrightarrow> be_nat a' = be_nat b' \<and> unat x = unat y"
      "be_nat a' * 256 + unat x < be_nat b' * 256 + unat y \<longleftrightarrow>
        be_nat a' < be_nat b' \<or> be_nat a' = be_nat b' \<and> unat x < unat y"
      using carry [of "unat x" "unat y"] by simp_all
    then have e: "be_nat a = be_nat b \<longleftrightarrow> a' = b' \<and> x = y"
      "be_nat a < be_nat b \<longleftrightarrow> be_nat a' < be_nat b' \<or> a' = b' \<and> x < y"
      using ih(2) unfolding a(1) b(1) be_nat_simps word_less_nat_alt word_unat_eq_iff by blast+
    have "memcmp [x] [y] 1 = (if x \<noteq> y then (if x < y then - 1 else 1) else 0)" by simp
    then have "memcmp a b (Suc n) = (if be_nat a \<noteq> be_nat b then (if be_nat a < be_nat b then - 1 else 1) else 0)"
      using c ih unfolding e by (cases "a' = b'") simp_all
    then show ?case using e(1) a(1) b(1) by simp
  qed simp
  then show "memcmp a b n = (if be_nat a \<noteq> be_nat b then (if be_nat a < be_nat b then - 1 else 1) else 0)"
    "be_nat a = be_nat b \<longleftrightarrow> a = b" by blast+
qed

lemma UUCMP_bytes:
  assumes "unat x = be_nat a" "unat y = be_nat b" "length a = n" "length b = n" "next = memcmp c d m"
  shows "UUCMP x y next = memcmp (a @ c) (b @ d) (n + m)"
proof -
  have "x = y \<longleftrightarrow> be_nat a = be_nat b" "x < y \<longleftrightarrow> be_nat a < be_nat b"
    using assms(1, 2) by (simp_all add: word_unat_eq_iff word_less_nat_alt)
  then show ?thesis
    using memcmp_be_nat [OF assms(3, 4)] memcmp_append [OF assms(3, 4), of c d m] assms(5) by (simp add: UUCMP_def)
qed

lemma compare_memcmp:
  assumes "length a = 16" "length b = 16"
  shows "uuid_compare a b = memcmp a b 16"
proof -
  have s: "u = take 4 u @ slice 4 2 u @ slice 6 2 u @ slice 8 2 u @ slice 10 6 u" if "length u = 16" for u :: "u8 list"
    using that by (auto simp: slice_def list_eq_iff_nth_eq nth_append)
  note na = unpack_nat [OF assms(1)] and nb = unpack_nat [OF assms(2)]
  have "uuid_compare a b = memcmp (take 4 a @ slice 4 2 a @ slice 6 2 a @ slice 8 2 a @ slice 10 6 a)
      (take 4 b @ slice 4 2 b @ slice 6 2 b @ slice 8 2 b @ slice 10 6 b) (4 + (2 + (2 + (2 + 6))))"
    unfolding uuid_compare_def Let_def na(5) nb(5) using assms
    by (intro UUCMP_bytes na(1-4) nb(1-4)) simp_all
  then show ?thesis using s [OF assms(1)] s [OF assms(2)] by simp
qed

lemma memcmp_laws:
  "length a = n \<Longrightarrow> length b = n \<Longrightarrow> (memcmp a b n = 0 \<longleftrightarrow> a = b) \<and> memcmp b a n = - memcmp a b n \<and>
    (\<forall>c. length c = n \<longrightarrow> memcmp a b n < 0 \<longrightarrow> memcmp b c n < 0 \<longrightarrow> memcmp a c n < 0)"
  by (auto simp: memcmp_be_nat split: if_splits)

text \<open>Comparing identifiers field by field is comparing their sixteen bytes as \<open>memcmp\<close> does; it is 0 exactly for equal
  identifiers, changes its sign when the arguments are exchanged, and is transitive.
\<close>

lemma compare_order:
  assumes "length a = 16" "length b = 16" "length c = 16"
  shows "uuid_compare a b = memcmp a b 16 \<and> (uuid_compare a b = 0 \<longleftrightarrow> a = b) \<and> uuid_compare b a = - uuid_compare a b \<and>
    (uuid_compare a b < 0 \<and> uuid_compare b c < 0 \<longrightarrow> uuid_compare a c < 0)"
  using memcmp_laws [OF assms(1, 2)] assms by (simp add: compare_memcmp)

text \<open>Copying, clearing and the test for the null identifier.\<close>

lemma null_clear:
  assumes "length u = 16"
  shows "uuid_is_null u \<longleftrightarrow> u = replicate 16 0" "uuid_clear u = replicate 16 0" "uuid_is_null (uuid_clear u)"
proof -
  have l: "null_loop n i u \<longleftrightarrow> (\<forall>k < n. u ! (i + k) = 0)" for n i u
    by (induction n arbitrary: i) (auto simp: All_less_Suc2)
  then show n: "uuid_is_null u \<longleftrightarrow> u = replicate 16 0"  using assms by (auto simp: uuid_is_null_def list_eq_iff_nth_eq)
  show c: "uuid_clear u = replicate 16 0" using assms by (simp add: uuid_clear_def write_at_def)
  show "uuid_is_null (uuid_clear u)" using l by (simp add: c uuid_is_null_def)
qed

end
