(* ===== verification/DnsName.thy ===== *)
theory DnsName
  imports NetPrelude
begin

text \<open>
  Domain names in the DNS messages of \<open>dnsmasq\<close>, the forwarder that serves tethered clients: \<open>extract_name\<close> and
  \<open>skip_name\<close> of \<open>rfc1035.c\<close>, the writer \<open>do_rfc1035_name\<close> and the tests of host names of \<open>util.c\<close>.

  A message is the memory \<open>d\<close> from its header on, of which the first \<open>plen\<close> bytes were received; pointers are offsets into it.
  A read outside \<open>d\<close> makes the result \<open>None\<close>. Names are lists of characters as bytes, without the terminating zero.
\<close>

abbreviation "MAXDNAME \<equiv> 1025 :: nat"
abbreviation "MAXLABEL \<equiv> 63 :: nat"
abbreviation "dot \<equiv> 46 :: u8"

subsection \<open>Characters\<close>

definition isascii :: "u8 \<Rightarrow> bool" where
  "isascii c \<longleftrightarrow> c < 128"

definition iscntrl :: "u8 \<Rightarrow> bool" where
  "iscntrl c \<longleftrightarrow> c < 32 \<or> c = 127"

definition lower :: "u8 \<Rightarrow> u8" where
  "lower c = (if 65 \<le> c \<and> c \<le> 90 then c + 32 else c)"

text \<open>The names of the C library's tests, without a terminating zero.\<close>

definition hostname_isequal :: "u8 list \<Rightarrow> u8 list \<Rightarrow> bool" where
  "hostname_isequal a b \<longleftrightarrow> map lower a = map lower b"

subsection \<open>Extracting and comparing names\<close>

definition hex_upper :: "u8 \<Rightarrow> u8" where
  "hex_upper dig = (if dig < 10 then dig + 48 else dig + 65 - 10)"

text \<open>The digits of a bit string; the pointer moves on after every second digit.\<close>

primrec bit_digits :: "u8 list \<Rightarrow> nat \<Rightarrow> nat \<Rightarrow> nat \<Rightarrow> (u8 list \<times> nat) option" where
  "bit_digits d 0 j p = Some ([], p)"
| "bit_digits d (Suc n) j p =
     (case rd d p of
        None \<Rightarrow> None
      | Some b \<Rightarrow>
          (case bit_digits d n (j + 1) (if j mod 2 = 0 then p else p + 1) of
             None \<Rightarrow> None
           | Some (hs, q) \<Rightarrow> Some (hex_upper (if j mod 2 = 0 then drop_bit 4 b else b AND 0x0f) # hs, q)))"

text \<open>\<open>\[x<hex>/<count>]\<close>\<close>

definition bit_label :: "u8 list \<Rightarrow> nat \<Rightarrow> u8 list" where
  "bit_label hs count = [92, 91, 120] @ hs @ [47] @ map of_char (show_nat count) @ [93]"

text \<open>Comparing a label: what is left of the name, the characters passed and the return value.\<close>

definition compare_char :: "u8 \<Rightarrow> u8 list \<times> nat \<times> nat \<Rightarrow> u8 list \<times> nat \<times> nat" where
  "compare_char c2 st = (case st of (rest, n, ret) \<Rightarrow>
     (case rest of
        [] \<Rightarrow> ([], n, 2)
      | c1 # cs \<Rightarrow> (cs, n + 1, if lower c1 \<noteq> lower c2 then 2 else ret)))"

definition compare_dot :: "u8 list \<times> nat \<times> nat \<Rightarrow> u8 list \<times> nat \<times> nat" where
  "compare_dot st = (case st of (rest, n, ret) \<Rightarrow>
     (case rest of [] \<Rightarrow> ([], n, ret) | c # cs \<Rightarrow> (cs, n + 1, if c \<noteq> dot then 2 else ret)))"

lemma bit_digits_le: "bit_digits d n j p = Some (hs, q) \<Longrightarrow> p \<le> q"
proof (induction n arbitrary: j p hs q)
  case (Suc n)
  then show ?case by (fastforce split: option.splits if_splits)
qed simp

lemma bit_digits_in:
  "p + (j mod 2 + n + 1) div 2 \<le> length d \<Longrightarrow> \<exists>hs q. bit_digits d n j p = Some (hs, q) \<and> length hs = n \<and> q = p + (j mod 2 + n) div 2"
proof (induction n arbitrary: j p)
  case (Suc n)
  show ?case
  proof (cases "even j")
    case True
    then have j: "j mod 2 = 0" "Suc j mod 2 = 1" by presburger+
    then have "p < length d" using Suc.prems by simp
    moreover obtain hs q where "bit_digits d n (j + 1) p = Some (hs, q)" "length hs = n" "q = p + (1 + n) div 2"
      using Suc.IH [of p "j + 1"] Suc.prems j by auto
    ultimately show ?thesis using j by simp
  next
    case False
    then have j: "j mod 2 = 1" "Suc j mod 2 = 0" by presburger+
    then have "p < length d" using Suc.prems by simp
    moreover obtain hs q where "bit_digits d n (j + 1) (p + 1) = Some (hs, q)" "length hs = n" "q = p + 1 + n div 2"
      using Suc.IH [of "p + 1" "j + 1"] Suc.prems j by auto
    ultimately show ?thesis using j by simp
  qed
qed auto

lemma bit_digits_length: "bit_digits d n j p = Some (hs, q) \<Longrightarrow> length hs = n"
proof (induction n arbitrary: j p hs q)
  case (Suc n)
  then show ?case by (fastforce split: option.splits if_splits)
qed simp

declare bit_digits.simps(2) [simp del]

text \<open>
  The state of the loop of \<open>extract_name\<close>: the pointers \<open>p\<close> and \<open>p1\<close> (the place to go back to, after the first jump) and the
  number of jumps. Extracting (\<open>ex\<close>), \<open>ns_out\<close> holds the characters written before \<open>cp\<close>; comparing, \<open>ns_cmp\<close> holds the
  characters of the name from \<open>cp\<close> on, their position and the return value.
\<close>

record name_state =
  ns_p :: nat
  ns_p1 :: "nat option"
  ns_hops :: nat
  ns_out :: "u8 list"
  ns_cmp :: "u8 list \<times> nat \<times> nat"

text \<open>The outcome of one round: a read outside the memory, the end with the return value 0 (\<open>None\<close>) or with the value, the
  pointer and the name, or the next round.\<close>

datatype name_step = Undefined | Return "(nat \<times> nat \<times> u8 list) option" | Continue name_state

definition name_end :: "nat \<Rightarrow> nat \<Rightarrow> bool \<Rightarrow> name_state \<Rightarrow> name_step" where
  "name_end plen extrabytes ex s =
     (if plen < ns_p s + 1 + extrabytes then Return None
      else Return (Some (if \<not> ex \<and> fst (ns_cmp s) \<noteq> [] then 2 else snd (snd (ns_cmp s)),
                         case ns_p1 s of None \<Rightarrow> ns_p s + 1 | Some q \<Rightarrow> q,
                         if ex \<and> ns_out s \<noteq> [] then butlast (ns_out s) else ns_out s)))"

definition name_pointer :: "u8 list \<Rightarrow> nat \<Rightarrow> u8 \<Rightarrow> name_state \<Rightarrow> name_step" where
  "name_pointer d plen l s =
     (if plen < ns_p s + 2 then Return None
      else case rd d (ns_p s + 1) of
        None \<Rightarrow> Undefined
      | Some b \<Rightarrow>
          if 255 < ns_hops s + 1 then Return None
          else Continue (s\<lparr>ns_p := unat (l AND 0x3f) * 256 + unat b, ns_hops := ns_hops s + 1,
                 ns_p1 := (case ns_p1 s of None \<Rightarrow> Some (ns_p s + 2) | Some q \<Rightarrow> Some q)\<rparr>))"

definition name_bits :: "u8 list \<Rightarrow> nat \<Rightarrow> bool \<Rightarrow> u8 \<Rightarrow> name_state \<Rightarrow> name_step" where
  "name_bits d plen ex l s =
     (if l AND 0x3f \<noteq> 1 then Return None
      else if \<not> ex then Return None
      else case rd d (ns_p s + 1) of
        None \<Rightarrow> Undefined
      | Some c \<Rightarrow>
          (let count = (if c = 0 then 256 else unat c); digs = (count - 1) div 4 + 1
           in if MAXDNAME \<le> length (ns_out s) + digs + 9 then Return None
              else if plen < ns_p s + 2 + (count - 1) div 8 then Return None
              else case bit_digits d digs 0 (ns_p s + 2) of
                None \<Rightarrow> Undefined
              | Some (hs, q) \<Rightarrow> Continue (s\<lparr>ns_p := q, ns_out := ns_out s @ bit_label hs count @ [dot]\<rparr>)))"

definition name_label :: "u8 list \<Rightarrow> nat \<Rightarrow> bool \<Rightarrow> u8 \<Rightarrow> name_state \<Rightarrow> name_step" where
  "name_label d plen ex l s =
     (if MAXDNAME \<le> (if ex then length (ns_out s) else fst (snd (ns_cmp s))) + unat l + 1 then Return None
      else if plen < ns_p s + 1 + unat l then Return None
      else if length d < ns_p s + 1 + unat l then Undefined
      else let bs = slice (ns_p s + 1) (unat l) d; s' = s\<lparr>ns_p := ns_p s + 1 + unat l\<rparr>
        in if ex then
             if \<exists>c \<in> set bs. \<not> (isascii c \<and> \<not> iscntrl c \<and> c \<noteq> dot) then Return None
             else Continue (s'\<lparr>ns_out := ns_out s @ bs @ [dot]\<rparr>)
           else Continue (s'\<lparr>ns_cmp := compare_dot (fold compare_char bs (ns_cmp s))\<rparr>))"

definition name_round :: "u8 list \<Rightarrow> nat \<Rightarrow> nat \<Rightarrow> bool \<Rightarrow> name_state \<Rightarrow> name_step" where
  "name_round d plen extrabytes ex s =
     (if plen < ns_p s + 1 then Return None
      else case rd d (ns_p s) of
        None \<Rightarrow> Undefined
      | Some l \<Rightarrow>
          if l = 0 then name_end plen extrabytes ex s
          else if l AND 0xc0 = 0xc0 then name_pointer d plen l s
          else if l AND 0xc0 = 0x80 then Return None
          else if l AND 0xc0 = 0x40 then name_bits d plen ex l s
          else name_label d plen ex l s)"

text \<open>What the next round starts from.\<close>

lemma name_round_Continue:
  assumes "name_round d plen extrabytes ex s = Continue s'"
  obtains (pointer) l b where "ns_p s + 2 \<le> plen" "rd d (ns_p s) = Some l" "l AND 0xc0 = 0xc0" "rd d (ns_p s + 1) = Some b"
      "ns_hops s < 255"
      "s' = s\<lparr>ns_p := unat (l AND 0x3f) * 256 + unat b, ns_hops := ns_hops s + 1,
         ns_p1 := (case ns_p1 s of None \<Rightarrow> Some (ns_p s + 2) | Some q \<Rightarrow> Some q)\<rparr>"
  | (bits) l count hs q where "ns_p s + 1 \<le> plen" "rd d (ns_p s) = Some l" "l AND 0xc0 = 0x40" "ex" "count \<le> 256"
      "bit_digits d ((count - 1) div 4 + 1) 0 (ns_p s + 2) = Some (hs, q)"
      "length (ns_out s) + ((count - 1) div 4 + 1) + 9 < MAXDNAME"
      "s' = s\<lparr>ns_p := q, ns_out := ns_out s @ bit_label hs count @ [dot]\<rparr>"
  | (extracted) l bs where "ns_p s + 1 + unat l \<le> plen" "rd d (ns_p s) = Some l" "l \<noteq> 0" "l AND 0xc0 \<notin> {0x40, 0x80, 0xc0}" "ex"
      "length (ns_out s) + unat l + 1 < MAXDNAME" "bs = slice (ns_p s + 1) (unat l) d" "length bs = unat l"
      "\<forall>c \<in> set bs. isascii c \<and> \<not> iscntrl c \<and> c \<noteq> dot"
      "s' = s\<lparr>ns_p := ns_p s + 1 + unat l, ns_out := ns_out s @ bs @ [dot]\<rparr>"
  | (compared) l bs where "ns_p s + 1 + unat l \<le> plen" "rd d (ns_p s) = Some l" "l \<noteq> 0" "l AND 0xc0 \<notin> {0x40, 0x80, 0xc0}" "\<not> ex"
      "fst (snd (ns_cmp s)) + unat l + 1 < MAXDNAME" "bs = slice (ns_p s + 1) (unat l) d" "length bs = unat l"
      "s' = s\<lparr>ns_p := ns_p s + 1 + unat l, ns_cmp := compare_dot (fold compare_char bs (ns_cmp s))\<rparr>"
proof -
  obtain l where l: "\<not> plen < ns_p s + 1" "rd d (ns_p s) = Some l"
    using assms by (auto simp: name_round_def split: if_splits option.splits)
  note eq = assms [unfolded name_round_def if_not_P [OF l(1)] l(2) option.case]
  have l0: "l \<noteq> 0" using eq by (auto simp: name_end_def split: if_splits)
  consider (p) "l AND 0xc0 = 0xc0" | (b) "l AND 0xc0 = 0x40" | (n) "l AND 0xc0 \<notin> {0x40, 0x80, 0xc0}"
    using eq l0 by (auto split: if_splits)
  then show ?thesis
  proof cases
    case p
    then have "name_pointer d plen l s = Continue s'" using eq l0 by simp
    moreover from this obtain b where "rd d (ns_p s + 1) = Some b" by (auto simp: name_pointer_def split: if_splits option.splits)
    ultimately show ?thesis using p l by (intro pointer [of l b]) (auto simp: name_pointer_def split: if_splits)
  next
    case b
    then have r: "name_bits d plen ex l s = Continue s'" using eq l0 by simp
    then obtain c where c: "rd d (ns_p s + 1) = Some c" by (auto simp: name_bits_def split: if_splits option.splits)
    define count where "count = (if c = 0 then 256 else unat c)"
    have "count \<le> 256" using less_imp_le [OF unat_u8_less, of c] by (simp add: count_def)
    moreover have "ex" using r by (auto simp: name_bits_def split: if_splits)
    moreover obtain hs q where "bit_digits d ((count - 1) div 4 + 1) 0 (ns_p s + 2) = Some (hs, q)"
      "length (ns_out s) + ((count - 1) div 4 + 1) + 9 < MAXDNAME"
      "s' = s\<lparr>ns_p := q, ns_out := ns_out s @ bit_label hs count @ [dot]\<rparr>"
      using r c by (auto simp: name_bits_def Let_def count_def [symmetric] split: if_splits option.splits)
    ultimately show ?thesis using l b by (intro bits) simp_all
  next
    case n
    then have r: "name_label d plen ex l s = Continue s'" using eq l0 by auto
    then have r': "ns_p s + 1 + unat l \<le> plen" "ns_p s + 1 + unat l \<le> length d" by (auto simp: name_label_def split: if_splits)
    then have len: "length (slice (ns_p s + 1) (unat l) d) = unat l" by simp
    show ?thesis
    proof (cases ex)
      case True
      then show ?thesis using l l0 n r r'(1) len
        by (intro extracted [OF _ l(2)]) (auto simp: name_label_def Let_def split: if_splits)
    next
      case False
      then show ?thesis using l l0 n r r'(1) len
        by (intro compared [OF _ l(2)]) (auto simp: name_label_def Let_def split: if_splits)
    qed
  qed
qed

text \<open>At most 255 jumps, and between them the pointer moves on.\<close>

lemma name_round_decreases:
  assumes "name_round d plen extrabytes ex s = Continue s'"
  shows "256 - ns_hops s' < 256 - ns_hops s \<or> ns_hops s' = ns_hops s \<and> plen - ns_p s' < plen - ns_p s"
  using assms
proof (cases rule: name_round_Continue)
  case (bits l count hs q)
  then show ?thesis using bit_digits_le [OF bits(6)] by simp
qed auto

function name_loop :: "u8 list \<Rightarrow> nat \<Rightarrow> nat \<Rightarrow> bool \<Rightarrow> name_state \<Rightarrow> (nat \<times> nat \<times> u8 list) option option" where
  "name_loop d plen extrabytes ex s =
     (case name_round d plen extrabytes ex s of
        Undefined \<Rightarrow> None
      | Return r \<Rightarrow> Some r
      | Continue s' \<Rightarrow> name_loop d plen extrabytes ex s')"
  by pat_completeness auto
termination
  by (relation "measures [\<lambda>(d, plen, extrabytes, ex, s). 256 - ns_hops s, \<lambda>(d, plen, extrabytes, ex, s). plen - ns_p s]")
    (use name_round_decreases in force)+

declare name_loop.simps [simp del]

definition extract_name ::
  "u8 list \<Rightarrow> nat \<Rightarrow> nat \<Rightarrow> u8 list \<Rightarrow> bool \<Rightarrow> nat \<Rightarrow> (nat \<times> nat \<times> u8 list) option option" where
  "extract_name d plen pp name isExtract extrabytes =
     name_loop d plen extrabytes isExtract \<lparr>ns_p = pp, ns_p1 = None, ns_hops = 0, ns_out = [], ns_cmp = (name, 0, 1)\<rparr>"

text \<open>The end of \<open>skip_name\<close>, and the function; the inner \<open>None\<close> is a null pointer.\<close>

definition skip_end :: "nat \<Rightarrow> nat \<Rightarrow> nat \<Rightarrow> nat option" where
  "skip_end plen extrabytes ansp = (if plen < ansp + extrabytes then None else Some ansp)"

function skip_name :: "u8 list \<Rightarrow> nat \<Rightarrow> nat \<Rightarrow> nat \<Rightarrow> nat option option" where
  "skip_name d plen ansp extrabytes =
     (if plen < ansp + 1 then Some None
      else case rd d ansp of
        None \<Rightarrow> None
      | Some l \<Rightarrow>
          if l AND 0xc0 = 0xc0 then Some (skip_end plen extrabytes (ansp + 2))
          else if l AND 0xc0 = 0x80 then Some None
          else if l AND 0xc0 = 0x40 then
            if plen < ansp + 2 then Some None
            else if l AND 0x3f \<noteq> 1 then Some None
            else case rd d (ansp + 1) of
              None \<Rightarrow> None
            | Some c \<Rightarrow> skip_name d plen (ansp + 2 + (if c = 0 then 32 else (unat c - 1) div 8 + 1)) extrabytes
          else let len = unat (l AND 0x3f)
            in if plen < ansp + 1 + len then Some None
               else if len = 0 then Some (skip_end plen extrabytes (ansp + 1))
               else skip_name d plen (ansp + 1 + len) extrabytes)"
  by pat_completeness auto
termination
  by (relation "measure (\<lambda>(d, plen, ansp, extrabytes). plen - ansp)") auto

declare skip_name.simps [simp del]

subsection \<open>Writing and checking names\<close>

function do_rfc1035_name :: "u8 list \<Rightarrow> u8 list" where
  "do_rfc1035_name sval =
     (if sval = [] then []
      else let label = takeWhile (\<lambda>c. c \<noteq> dot) sval; rest = dropWhile (\<lambda>c. c \<noteq> dot) sval
           in of_nat (length label) # label @ do_rfc1035_name (if rest = [] then [] else tl rest))"
  by pat_completeness auto
termination
proof (relation "measure length")
  fix sval x xa :: "u8 list"
  assume "sval \<noteq> []" "xa = dropWhile (\<lambda>c. c \<noteq> dot) sval"
  moreover have "length (dropWhile (\<lambda>c. c \<noteq> dot) sval) \<le> length sval" by (rule length_dropWhile_le)
  moreover obtain m where "length sval = Suc m" using \<open>sval \<noteq> []\<close> by (cases sval) simp_all
  ultimately have "length (if xa = [] then [] else tl xa) < length sval" by (simp, arith)
  then show "((if xa = [] then [] else tl xa), sval) \<in> measure length" by simp
qed simp

declare do_rfc1035_name.simps [simp del]

text \<open>The loop of \<open>check_name\<close>: the length of the label so far, and whether a character other than a blank was seen.\<close>

primrec check_chars :: "nat \<Rightarrow> bool \<Rightarrow> u8 list \<Rightarrow> bool" where
  "check_chars dotgap nowhite [] = nowhite"
| "check_chars dotgap nowhite (c # cs) =
     (if c = dot then check_chars 0 nowhite cs
      else if MAXLABEL < dotgap + 1 then False
      else if isascii c \<and> iscntrl c then False
      else if \<not> isascii c then False
      else check_chars (dotgap + 1) (nowhite \<or> c \<noteq> 32) cs)"

text \<open>The name, from which a final period is removed in place, and the result.\<close>

definition check_name :: "u8 list \<Rightarrow> u8 list \<times> bool" where
  "check_name name =
     (if name = [] \<or> MAXDNAME < length name then (name, False)
      else if last name = dot then
        if length name = 1 then (name, False) else (butlast name, check_chars 0 False (butlast name))
      else (name, check_chars 0 False name))"

primrec legal_chars :: "u8 list \<Rightarrow> bool" where
  "legal_chars [] = True"
| "legal_chars (c # cs) =
     (if (65 \<le> c \<and> c \<le> 90) \<or> (97 \<le> c \<and> c \<le> 122) \<or> (48 \<le> c \<and> c \<le> 57) \<or> c = 45 \<or> c = 95 then legal_chars cs
      else c = dot)"

definition legal_hostname :: "u8 list \<Rightarrow> u8 list \<times> bool" where
  "legal_hostname name = (case check_name name of (n, ok) \<Rightarrow> (n, if ok then legal_chars n else False))"

text \<open>\<open>canonicalise\<close> without IDN: the argument, the copy and \<open>nomem\<close>; \<open>al\<close> grants memory.\<close>

definition canonicalise :: "(nat \<Rightarrow> bool) \<Rightarrow> u8 list \<Rightarrow> u8 list \<times> u8 list option \<times> bool" where
  "canonicalise al name =
     (case check_name name of (n, ok) \<Rightarrow>
        if \<not> ok then (n, None, False) else if al (length n + 1) then (n, Some n, False) else (n, None, True))"

subsection \<open>Bounds\<close>

lemma show_nat_length: "n < 1000 \<Longrightarrow> length (show_nat n) \<le> 3"
  by (simp add: show_nat.simps [of n] show_nat.simps [of "n div 10"] show_nat.simps [of "n div 10 div 10"])

lemma name_round_bounds:
  assumes "plen + 1 \<le> length d" "length (ns_out s) < MAXDNAME"
  shows "name_round d plen extrabytes ex s \<noteq> Undefined"
    "name_round d plen extrabytes ex s = Return (Some (ret, pp, name)) \<Longrightarrow> length name < MAXDNAME"
    "name_round d plen extrabytes ex s = Continue s' \<Longrightarrow> length (ns_out s') < MAXDNAME"
proof -
  have bits: "\<exists>hs. bit_digits d ((count - 1) div 4 + 1) 0 p = Some (hs, p + ((count - 1) div 4 + 1) div 2) \<and>
      length hs = (count - 1) div 4 + 1" if "\<not> plen < p + (count - 1) div 8" for p count
  proof -
    have "((count - 1) div 4 + 1 + 1) div 2 = (count - 1) div 8 + 1" by (simp add: div_mult2_eq)
    then show ?thesis using bit_digits_in [of p 0 "(count - 1) div 4 + 1" d] that assms(1) by auto
  qed
  have len: "length (bit_label hs count) \<le> length hs + 8" if "count \<le> 256" for hs count
    using show_nat_length [of count] that by (simp add: bit_label_def)
  have p: "rd d k = Some (d ! k)" if "\<not> plen < k" for k using that assms(1) by simp
  have "name_end plen extrabytes ex s \<noteq> Undefined" "\<And>l. name_label d plen ex l s \<noteq> Undefined"
    using assms(1) by (simp_all add: name_end_def name_label_def Let_def)
  moreover have "name_pointer d plen l s \<noteq> Undefined" for l
    using p [of "ns_p s + 1"] by (simp add: name_pointer_def)
  moreover have "name_bits d plen ex l s \<noteq> Undefined" if "\<not> plen < ns_p s + 1" for l
  proof -
    have c: "rd d (ns_p s + 1) = Some (d ! (ns_p s + 1))" using assms(1) that by simp
    define count where "count = (if d ! (ns_p s + 1) = 0 then 256 else unat (d ! (ns_p s + 1)))"
    show ?thesis
      using bits [of "ns_p s + 2" count] unfolding name_bits_def c option.case Let_def count_def [symmetric] by auto
  qed
  ultimately show "name_round d plen extrabytes ex s \<noteq> Undefined"
    using p [of "ns_p s"] by (auto simp: name_round_def)
  show "length name < MAXDNAME" if "name_round d plen extrabytes ex s = Return (Some (ret, pp, name))"
  proof -
    have "name_end plen extrabytes ex s = Return (Some (ret, pp, name))"
      using that by (auto simp: name_round_def name_pointer_def name_bits_def name_label_def Let_def split: if_splits option.splits)
    then show ?thesis using assms(2) by (auto simp: name_end_def split: if_splits)
  qed
  show "length (ns_out s') < MAXDNAME" if "name_round d plen extrabytes ex s = Continue s'"
    using that
  proof (cases rule: name_round_Continue)
    case (bits l count hs q)
    have "length hs = (count - 1) div 4 + 1" using bits(6) by (rule bit_digits_length)
    then show ?thesis using bits len [of count hs] by simp
  qed (use assms(2) in auto)
qed

lemma name_loop_bounds:
  "plen + 1 \<le> length d \<Longrightarrow> length (ns_out s) < MAXDNAME \<Longrightarrow>
   \<exists>r. name_loop d plen extrabytes ex s = Some r \<and> (\<forall>ret pp name. r = Some (ret, pp, name) \<longrightarrow> length name < MAXDNAME)"
proof (induction d plen extrabytes ex s rule: name_loop.induct)
  case (1 d plen extrabytes ex s)
  note b = name_round_bounds [OF "1.prems", of extrabytes ex]
  show ?case
  proof (cases "name_round d plen extrabytes ex s")
    case (Continue s')
    then show ?thesis using "1.IH" [OF Continue "1.prems"(1) b(3) [OF Continue]] by (simp add: name_loop.simps [of d])
  qed (use b in \<open>auto simp: name_loop.simps [of d]\<close>)
qed

subsection \<open>Writing and reading back\<close>

lemma low_high: "take_bit 6 l AND push_bit 6 k = (0 :: u8)" "l AND push_bit 6 k = push_bit 6 (drop_bit 6 l AND k :: u8)"
  by (rule bit_word_eqI; auto simp: bit_simps)+

lemma label_masks: "(0xc0 :: u8) = push_bit 6 3" "(0x3f :: u8) = mask 6"
  by (simp_all add: push_bit_eq_mult mask_eq_exp_minus_1)

lemma short_label: "unat (l :: u8) < 64 \<Longrightarrow> l AND 0xc0 = 0" "unat (l :: u8) < 64 \<Longrightarrow> l AND 0x3f = l"
proof -
  assume "unat l < 64"
  then have t: "take_bit 6 l = l" by (simp add: take_bit_eq_mod word_unat_eq_iff unat_mod)
  show "l AND 0xc0 = 0" using low_high(1) [of l 3] unfolding t label_masks(1) .
  show "l AND 0x3f = l" unfolding label_masks(2) using t by (simp add: take_bit_eq_mask)
qed

lemma top_bits: "l AND 0xc0 \<in> {0, 0x40, 0x80, 0xc0}" "l AND 0xc0 = 0 \<Longrightarrow> l AND 0x3f = (l :: u8)"
proof -
  have u: "unat (drop_bit 6 l) = unat l div 64" by (simp add: drop_bit_eq_div unat_div)
  then have "unat (drop_bit 6 l) < 4" using unat_u8_less [of l] by (simp add: less_mult_imp_div_less)
  then have "unat (drop_bit 6 l) \<in> {0, 1, 2, 3}" by auto
  then have s: "drop_bit 6 l \<in> {0, 1, 2, 3}" by (auto simp: word_unat_eq_iff)
  then have d: "l AND 0xc0 = push_bit 6 (drop_bit 6 l)" unfolding label_masks(1) low_high(2) by auto
  show "l AND 0xc0 \<in> {0, 0x40, 0x80, 0xc0}" using s unfolding d by (auto simp: push_bit_eq_mult)
  assume "l AND 0xc0 = 0"
  then have "drop_bit 6 l = 0" using s unfolding d by (auto simp: push_bit_eq_mult)
  then have "unat l div 64 = 0" using u by simp
  then show "l AND 0x3f = l" by (intro short_label(2)) (simp add: div_eq_0_iff)
qed

definition good_label :: "u8 list \<Rightarrow> bool" where
  "good_label l \<longleftrightarrow> l \<noteq> [] \<and> length l \<le> MAXLABEL \<and> (\<forall>c \<in> set l. isascii c \<and> \<not> iscntrl c \<and> c \<noteq> dot)"

definition wire :: "u8 list list \<Rightarrow> u8 list" where
  "wire ls = concat (map (\<lambda>l. of_nat (length l) # l) ls)"

definition dotted :: "u8 list list \<Rightarrow> u8 list" where
  "dotted ls = concat (map (\<lambda>l. l @ [dot]) ls)"

lemma wire_simps [simp]: "wire [] = []" "wire (l # ls) = of_nat (length l) # l @ wire ls"
  by (simp_all add: wire_def)

lemma dotted_simps [simp]: "dotted [] = []" "dotted (l # ls) = l @ dot # dotted ls"
  by (simp_all add: dotted_def)

lemma dotted_Nil [simp]: "dotted ls = [] \<longleftrightarrow> ls = []"
  by (cases ls) simp_all

lemma do_name_wire: "\<forall>l \<in> set ls. good_label l \<Longrightarrow> do_rfc1035_name (butlast (dotted ls)) = wire ls"
proof (induction ls)
  case Nil
  then show ?case by (simp add: do_rfc1035_name.simps)
next
  case (Cons l ls)
  have l: "l \<noteq> []" "\<forall>c \<in> set l. c \<noteq> dot" using Cons.prems by (auto simp: good_label_def)
  have tw: "takeWhile (\<lambda>c. c \<noteq> dot) l = l" "dropWhile (\<lambda>c. c \<noteq> dot) l = []"
    "takeWhile (\<lambda>c. c \<noteq> dot) (l @ dot # r) = l" "dropWhile (\<lambda>c. c \<noteq> dot) (l @ dot # r) = dot # r" for r
    using l(2) by (simp_all add: takeWhile_append2 dropWhile_append2)
  show ?case
  proof (cases "ls = []")
    case True
    then show ?thesis using l(1) by (simp add: do_rfc1035_name.simps [of l] butlast_append Let_def tw) (simp add: do_rfc1035_name.simps)
  next
    case False
    then have "butlast (dotted (l # ls)) = l @ dot # butlast (dotted ls)" by (simp add: butlast_append)
    then show ?thesis using Cons by (simp add: do_rfc1035_name.simps [of "l @ _"] Let_def tw)
  qed
qed

lemma round_label:
  assumes "good_label l" "stands_at d (ns_p s) (of_nat (length l) # l)" "ns_p s + 1 + length l \<le> plen"
  shows "length (ns_out s) + length l + 1 < MAXDNAME \<Longrightarrow> name_round d plen extrabytes True s =
      Continue (s\<lparr>ns_p := ns_p s + 1 + length l, ns_out := ns_out s @ l @ [dot]\<rparr>)"
    "rd d (ns_p s) = Some (of_nat (length l))" "unat (of_nat (length l) :: u8) = length l" "of_nat (length l) \<noteq> (0 :: u8)"
proof -
  have g: "l \<noteq> []" "length l \<le> 63" "\<forall>c \<in> set l. isascii c \<and> \<not> iscntrl c \<and> c \<noteq> dot" using assms(1) by (auto simp: good_label_def)
  let ?l = "of_nat (length l) :: u8"
  show ul: "unat ?l = length l" using g(2) by (intro unat_of_nat_small) simp
  have "unat ?l \<noteq> 0" using g(1) unfolding ul by simp
  then show nz: "?l \<noteq> 0" by auto
  have s: "ns_p s + 1 + length l \<le> length d" "drop (ns_p s) d = ?l # l @ drop (ns_p s + 1 + length l) d"
    using stands_at_length [OF assms(2)] stands_atD [OF assms(2)] by simp_all
  then have "d ! ns_p s = ?l" "slice (ns_p s + 1) (length l) d = l"
    using nth_via_drop [of "ns_p s" d ?l] by (auto simp: slice_def drop_Suc tl_drop [symmetric] simp flip: drop_drop)
  then show r: "rd d (ns_p s) = Some ?l" using s(1) by simp
  show "name_round d plen extrabytes True s =
      Continue (s\<lparr>ns_p := ns_p s + 1 + length l, ns_out := ns_out s @ l @ [dot]\<rparr>)"
    if "length (ns_out s) + length l + 1 < MAXDNAME"
    using that assms(3) s(1) g nz \<open>slice (ns_p s + 1) (length l) d = l\<close> short_label [of ?l]
    by (simp add: name_round_def r name_label_def ul Let_def)
qed

lemma loop_wire:
  "\<forall>l \<in> set ls. good_label l \<Longrightarrow> stands_at d (ns_p s) (wire ls @ [0]) \<Longrightarrow> ns_p s + length (wire ls) + 1 + extrabytes \<le> plen \<Longrightarrow>
   length (ns_out s) + length (wire ls) < MAXDNAME \<Longrightarrow>
   name_loop d plen extrabytes True s = Some (Some (snd (snd (ns_cmp s)),
     case ns_p1 s of None \<Rightarrow> ns_p s + length (wire ls) + 1 | Some q \<Rightarrow> q,
     let out = ns_out s @ dotted ls in if out = [] then [] else butlast out))"
proof (induction ls arbitrary: s)
  case Nil
  then have "rd d (ns_p s) = Some 0" by (simp add: stands_at_def slice_def rd_def) (metis Cons_nth_drop_Suc Suc_le_lessD list.sel(1) take_Suc_Cons)
  then show ?case using Nil.prems 
    by (simp add: name_loop.simps [of d] name_round_def name_end_def Let_def split: option.split)
next
  case (Cons l ls)
  have st: "stands_at d (ns_p s) (of_nat (length l) # l)" "stands_at d (ns_p s + (1 + length l)) (wire ls @ [0])"
    using Cons.prems(2) stands_at_append [of d "ns_p s" "of_nat (length l) # l" "wire ls @ [0]"] by (simp_all add: add.commute)
  let ?s = "s\<lparr>ns_p := ns_p s + 1 + length l, ns_out := ns_out s @ l @ [dot]\<rparr>"
  have "name_round d plen extrabytes True s = Continue ?s"
    using Cons.prems by (intro round_label(1) st(1)) simp_all
  then have "name_loop d plen extrabytes True s = name_loop d plen extrabytes True ?s" by (simp add: name_loop.simps [of d plen extrabytes True s])
  also have "\<dots> = Some (Some (snd (snd (ns_cmp ?s)),
     case ns_p1 ?s of None \<Rightarrow> ns_p ?s + length (wire ls) + 1 | Some q \<Rightarrow> q,
     let out = ns_out ?s @ dotted ls in if out = [] then [] else butlast out))"
    using Cons.prems st(2) by (intro Cons.IH) (simp_all add: add.assoc)
  finally show ?case by (simp add: Let_def split: option.split)
qed

lemma skip_wire:
  "\<forall>l \<in> set ls. good_label l \<Longrightarrow> stands_at d p (wire ls @ [0]) \<Longrightarrow> p + length (wire ls) + 1 + extrabytes \<le> plen \<Longrightarrow>
   skip_name d plen p extrabytes = Some (Some (p + length (wire ls) + 1))"
proof (induction ls arbitrary: p)
  case Nil
  then have "rd d p = Some 0" by (simp add: stands_at_def slice_def rd_def) (metis Cons_nth_drop_Suc Suc_le_lessD list.sel(1) take_Suc_Cons)
  then show ?case using Nil.prems by (simp add: skip_name.simps [of d] skip_end_def Let_def)
next
  case (Cons l ls)
  have st: "stands_at d p (of_nat (length l) # l)" "stands_at d (p + (1 + length l)) (wire ls @ [0])"
    using Cons.prems(2) stands_at_append [of d p "of_nat (length l) # l" "wire ls @ [0]"] by (simp_all add: add.commute)
  let ?s = "\<lparr>ns_p = p, ns_p1 = None, ns_hops = 0, ns_out = [], ns_cmp = ([], 0, 1)\<rparr>"
  have l: "rd d p = Some (of_nat (length l))" "unat (of_nat (length l) :: u8) = length l" "of_nat (length l) \<noteq> (0 :: u8)"
    using round_label(2-4) [of l d ?s plen] st(1) Cons.prems by simp_all
  have "length l \<noteq> 0" "length l < 64" using Cons.prems(1) by (auto simp: good_label_def)
  moreover have "skip_name d plen (p + 1 + length l) extrabytes = Some (Some (p + 1 + length l + length (wire ls) + 1))"
    using Cons.prems st(2) by (intro Cons.IH) (simp_all add: add.assoc)
  ultimately show ?case using Cons.prems(3) l(1, 2) short_label [of "of_nat (length l)"]
    by (simp add: skip_name.simps [of d plen p] Let_def)
qed

subsection \<open>Comparing is extracting and comparing\<close>

lemma compare_char_simps [simp]:
  "compare_char x ([], n, ret) = ([], n, 2)"
  "compare_char x (y # ys, n, ret) = (ys, n + 1, if lower y \<noteq> lower x then 2 else ret)"
  by (simp_all add: compare_char_def)

lemma compare_matches: "map lower b = map lower bs \<Longrightarrow> fold compare_char bs (b @ r, n, ret) = (r, n + length bs, ret)"
proof (induction bs arbitrary: b n)
  case (Cons x bs)
  then show ?case by (cases b) (simp_all add: compare_char_def)
qed simp

lemma compare_two: "\<exists>r n'. fold compare_char bs (rest, n, 2) = (r, n', 2)"
proof (induction bs arbitrary: rest n)
  case (Cons x bs)
  then show ?case by (cases rest) (simp_all add: compare_char_def)
qed simp

lemma compare_differs:
  "\<not> (\<exists>b r. rest = b @ r \<and> map lower b = map lower bs) \<Longrightarrow> \<exists>r n'. fold compare_char bs (rest, n, ret) = (r, n', 2)"
proof (induction bs arbitrary: rest n ret)
  case (Cons x bs)
  show ?case
  proof (cases rest)
    case Nil
    then show ?thesis using compare_two [of bs "[]" n] by simp
  next
    case (Cons y ys)
    show ?thesis
    proof (cases "lower y = lower x")
      case True
      have "\<not> (\<exists>b r. ys = b @ r \<and> map lower b = map lower bs)"
      proof
        assume "\<exists>b r. ys = b @ r \<and> map lower b = map lower bs"
        then obtain b r where "ys = b @ r" "map lower b = map lower bs" by blast
        then have "rest = (y # b) @ r \<and> map lower (y # b) = map lower (x # bs)" using Cons True by simp
        then show False using Cons.prems by blast
      qed
      then show ?thesis using Cons.IH [of ys "n + 1" ret] Cons True by simp
    next
      case False
      then show ?thesis using compare_two [of bs ys "n + 1"] Cons by simp
    qed
  qed
qed auto

lemma lower_dot: "lower c = dot \<longleftrightarrow> c = dot"
proof
  assume l: "lower c = dot"
  show "c = dot"
  proof (cases "65 \<le> c \<and> c \<le> 90")
    case True
    then have "65 \<le> unat c" "unat c \<le> 90" by (simp_all add: word_le_nat_alt)
    then have "unat (c + 32) = unat c + 32" by (subst unat_add_small) simp_all
    moreover have "c + 32 = dot" using l True by (simp add: lower_def)
    then have "unat (c + 32) = 46" by simp
    ultimately show ?thesis using \<open>65 \<le> unat c\<close> by simp
  qed (use l in \<open>simp add: lower_def split: if_splits\<close>)
qed (simp add: lower_def)

text \<open>
  What the comparison knows of the name \<open>nm\<close> when \<open>out\<close> has been extracted: it has matched and is at the end of \<open>out\<close>, or it
  has matched all of \<open>out\<close> but the last period and the name is at its end, or there is no match.
\<close>

definition starts :: "u8 list \<Rightarrow> u8 list \<Rightarrow> bool" where
  "starts nm out \<longleftrightarrow> (\<exists>c r. nm = c @ r \<and> map lower c = map lower out)"

definition ends :: "u8 list \<Rightarrow> u8 list \<Rightarrow> bool" where
  "ends nm out \<longleftrightarrow> out \<noteq> [] \<and> map lower nm = map lower (butlast out)"

definition matched :: "u8 list \<Rightarrow> u8 list \<Rightarrow> u8 list \<times> nat \<times> nat \<Rightarrow> bool" where
  "matched nm out st \<longleftrightarrow> (case st of (rest, n, ret) \<Rightarrow>
     if ret = 1 then (\<exists>c. nm = c @ rest \<and> map lower c = map lower out) \<or> rest = [] \<and> ends nm out
     else ret = 2 \<and> \<not> starts nm out \<and> \<not> ends nm out)"

lemma map_lower_append:
  assumes "map lower c = map lower (a @ b)"
  obtains c1 c2 where "c = c1 @ c2" "map lower c1 = map lower a" "map lower c2 = map lower b"
proof -
  have l: "length c = length a + length b" using arg_cong [OF assms, of length] by simp
  have "map lower (take (length a) c) @ map lower (drop (length a) c) = map lower a @ map lower b"
    using assms by (simp flip: map_append)
  then have "map lower (take (length a) c) = map lower a" "map lower (drop (length a) c) = map lower b"
    using l by (simp_all add: append_eq_append_conv)
  then show ?thesis using that [of "take (length a) c" "drop (length a) c"] by simp
qed

lemma starts_append: "starts nm (out @ x) \<Longrightarrow> starts nm out"
proof -
  assume "starts nm (out @ x)"
  then obtain c r where c: "nm = c @ r" "map lower c = map lower (out @ x)" unfolding starts_def by blast
  obtain c1 c2 where "c = c1 @ c2" "map lower c1 = map lower out" using c(2) by (rule map_lower_append)
  then have "nm = c1 @ (c2 @ r) \<and> map lower c1 = map lower out" using c(1) by simp
  then show ?thesis unfolding starts_def by blast
qed

lemma ends_dot: "ends nm (out @ bs @ [dot]) \<longleftrightarrow> map lower nm = map lower (out @ bs)"
  by (simp add: ends_def butlast_append)

lemma starts_length: "starts nm out \<Longrightarrow> length out \<le> length nm"
proof -
  assume "starts nm out"
  then obtain c r where "nm = c @ r" "map lower c = map lower out" unfolding starts_def by blast
  moreover from this(2) have "length c = length out" by (rule map_eq_imp_length_eq)
  ultimately show ?thesis by simp
qed

lemma ends_length: "ends nm (out @ bs @ [dot]) \<Longrightarrow> length nm = length out + length bs"
  unfolding ends_dot by (drule arg_cong [where f = length]) simp

lemma starts_at: "nm = c @ rest \<Longrightarrow> map lower c = map lower out \<Longrightarrow> starts nm (out @ x) \<longleftrightarrow> starts rest x"
proof
  assume nm: "nm = c @ rest" and c: "map lower c = map lower out"
  { assume "starts nm (out @ x)"
    then obtain d r where d: "nm = d @ r" "map lower d = map lower (out @ x)" unfolding starts_def by blast
    obtain c' b where b: "d = c' @ b" "map lower c' = map lower out" "map lower b = map lower x"
      using d(2) by (rule map_lower_append)
    have "length c' = length c" using b(2) c by (metis length_map)
    then have "rest = b @ r" using nm d(1) b(1) by simp
    then show "starts rest x" using b(3) unfolding starts_def by blast }
  assume "starts rest x"
  then obtain b r where "rest = b @ r" "map lower b = map lower x" unfolding starts_def by blast
  then have "nm = (c @ b) @ r \<and> map lower (c @ b) = map lower (out @ x)" using nm c by simp
  then show "starts nm (out @ x)" unfolding starts_def by blast
qed

lemma no_match:
  assumes "fold compare_char bs st = (r, n, 2)" "\<not> starts nm (out @ bs @ [dot])" "\<not> ends nm (out @ bs @ [dot])"
  shows "matched nm (out @ bs @ [dot]) (compare_dot (fold compare_char bs st))"
  using assms(2, 3) by (simp add: assms(1) compare_dot_def matched_def split: list.split)

lemma matched_label:
  assumes m: "matched nm out st" and bs: "bs \<noteq> []"
  shows "matched nm (out @ bs @ [dot]) (compare_dot (fold compare_char bs st))"
proof -
  obtain rest n ret where st: "st = (rest, n, ret)" by (cases st)
  consider (off) "ret = 2" "\<not> starts nm out" | (at_end) "ret = 1" "rest = []" "ends nm out"
    | (on) c where "ret = 1" "nm = c @ rest" "map lower c = map lower out"
  proof (cases "ret = 1")
    case True
    then have "(\<exists>c. nm = c @ rest \<and> map lower c = map lower out) \<or> rest = [] \<and> ends nm out"
      using m unfolding matched_def st by simp
    then show ?thesis using that(2, 3) True by blast
  next
    case False
    then have "ret = 2" "\<not> starts nm out" using m unfolding matched_def st by simp_all
    then show ?thesis using that(1) by blast
  qed
  then show ?thesis
  proof cases
    case off
    obtain r n' where "fold compare_char bs st = (r, n', 2)" using compare_two [of bs rest n] off st by auto
    moreover have "\<not> ends nm (out @ bs @ [dot])"
    proof
      assume "ends nm (out @ bs @ [dot])"
      then have "map lower nm = map lower (out @ bs)" by (simp only: ends_dot)
      then obtain c1 c2 where "nm = c1 @ c2" "map lower c1 = map lower out" by (rule map_lower_append)
      then have "starts nm out" unfolding starts_def by blast
      then show False using off by blast
    qed
    ultimately show ?thesis using off starts_append by (intro no_match) blast+
  next
    case at_end
    have len: "length nm < length out"
      using at_end(3) unfolding ends_def by (auto dest: arg_cong [where f = length] simp: Suc_le_eq)
    have "\<not> (\<exists>b r. rest = b @ r \<and> map lower b = map lower bs)" using at_end(2) bs by auto
    then obtain r n' where "fold compare_char bs st = (r, n', 2)" using compare_differs [of rest bs n ret] st by auto
    moreover have "\<not> starts nm (out @ bs @ [dot])"
      using len starts_length by fastforce
    moreover have "\<not> ends nm (out @ bs @ [dot])" using len ends_length by fastforce
    ultimately show ?thesis by (rule no_match)
  next
    case on
    note at = starts_at [OF on(2, 3)]
    show ?thesis
    proof (cases "\<exists>b r. rest = b @ r \<and> map lower b = map lower bs")
      case False
      then obtain r n' where "fold compare_char bs st = (r, n', 2)" using compare_differs [of rest bs n ret] st by auto
      moreover have "\<not> starts rest bs" using False unfolding starts_def .
      then have n: "\<not> starts nm (out @ bs)" by (simp only: at simp_thms)
      then have "\<not> starts nm (out @ bs @ [dot])" using starts_append [of nm "out @ bs" "[dot]"] by (metis append.assoc)
      moreover have "\<not> ends nm (out @ bs @ [dot])"
      proof
        assume "ends nm (out @ bs @ [dot])"
        then have "nm = nm @ [] \<and> map lower nm = map lower (out @ bs)" by (simp add: ends_dot)
        then show False using n unfolding starts_def by blast
      qed
      ultimately show ?thesis by (rule no_match)
    next
      case True
      then obtain b r where b: "rest = b @ r" "map lower b = map lower bs" by blast
      then have f: "fold compare_char bs st = (r, n + length bs, 1)" using compare_matches on(1) st by simp
      have cb: "nm = (c @ b) @ r" "map lower (c @ b) = map lower (out @ bs)" using on b by simp_all
      show ?thesis
      proof (cases r)
        case Nil
        then have "ends nm (out @ bs @ [dot])" using cb unfolding ends_dot by simp
        then show ?thesis using Nil by (simp add: f compare_dot_def matched_def)
      next
        case (Cons ch r')
        show ?thesis
        proof (cases "ch = dot")
          case True
          then have "nm = (c @ b @ [dot]) @ r' \<and> map lower (c @ b @ [dot]) = map lower (out @ bs @ [dot])" using cb Cons by simp
          then show ?thesis using Cons True by (auto simp: f compare_dot_def matched_def)
        next
          case False
          have "starts nm ((out @ bs) @ [dot]) \<longleftrightarrow> starts r [dot]" by (rule starts_at [OF cb])
          moreover have "\<not> starts r [dot]" using False lower_dot [of ch] lower_dot [of dot] unfolding starts_def Cons
            by (auto simp: Cons_eq_append_conv)
          moreover have "\<not> ends nm (out @ bs @ [dot])"
          proof
            assume "ends nm (out @ bs @ [dot])"
            then show False using ends_length arg_cong [OF cb(1), of length] arg_cong [OF cb(2), of length] Cons by fastforce
          qed
          ultimately show ?thesis using False Cons by (simp add: f compare_dot_def matched_def)
        qed
      qed
    qed
  qed
qed

lemma name_round_Return:
  assumes "name_round d plen extrabytes ex s = Return (Some r)"
  shows "rd d (ns_p s) = Some 0" "name_end plen extrabytes ex s = Return (Some r)" "ns_p s + 1 \<le> plen"
proof -
  obtain l where l: "\<not> plen < ns_p s + 1" "rd d (ns_p s) = Some l"
    using assms by (auto simp: name_round_def split: if_splits option.splits)
  note eq = assms [unfolded name_round_def if_not_P [OF l(1)] l(2) option.case]
  have "name_pointer d plen l s \<noteq> Return (Some r)" "name_label d plen ex l s \<noteq> Return (Some r)"
    by (auto simp: name_pointer_def name_label_def Let_def split: option.split)
  moreover have "name_bits d plen ex l s \<noteq> Return (Some r)"
    by (auto simp: name_bits_def Let_def split: option.split)
  ultimately have "l = 0" using eq by (auto split: if_splits)
  then show "rd d (ns_p s) = Some 0" "name_end plen extrabytes ex s = Return (Some r)" "ns_p s + 1 \<le> plen"
    using eq l by simp_all
qed

text \<open>A successful run of the loop, round by round.\<close>

lemma name_loop_Some:
  assumes "name_loop d plen extrabytes ex s = Some (Some r)"
  obtains (stop) "name_round d plen extrabytes ex s = Return (Some r)"
  | (go) s' where "name_round d plen extrabytes ex s = Continue s'" "name_loop d plen extrabytes ex s' = Some (Some r)"
  using assms by (cases "name_round d plen extrabytes ex s") (auto simp: name_loop.simps [of d])

definition same_name :: "u8 list \<Rightarrow> u8 list \<Rightarrow> bool" where
  "same_name nm nm' \<longleftrightarrow> hostname_isequal nm nm' \<or> nm' \<noteq> [] \<and> hostname_isequal nm (nm' @ [dot])"

lemma end_matched:
  assumes m: "matched nm out st" and out: "out = [] \<or> butlast out \<noteq> [] \<and> last out = dot"
  shows "(if fst st \<noteq> [] then 2 else snd (snd st)) = (1 :: nat) \<longleftrightarrow> same_name nm (if out \<noteq> [] then butlast out else out)"
proof -
  obtain rest n ret where st: "st = (rest, n, ret)" by (cases st)
  have low: "same_name nm (if out \<noteq> [] then butlast out else out) \<longleftrightarrow> ends nm out \<or> map lower nm = map lower out"
  proof (cases "out = []")
    case False
    then obtain w where "out = w @ [dot]" "w \<noteq> []" using out append_butlast_last_id [of out] by metis
    then show ?thesis by (auto simp: same_name_def hostname_isequal_def ends_def)
  qed (simp add: same_name_def hostname_isequal_def ends_def)
  show ?thesis
  proof (cases "ret = 1")
    case True
    have "rest = [] \<longleftrightarrow> ends nm out \<or> map lower nm = map lower out"
    proof (cases "rest = [] \<and> ends nm out")
      case False
      then obtain c where c: "nm = c @ rest" "map lower c = map lower out" using m True by (auto simp: matched_def st)
      have "length c = length out" by (rule map_eq_imp_length_eq [OF c(2)])
      moreover have "ends nm out \<Longrightarrow> length nm < length out"
        unfolding ends_def by (metis length_butlast length_map diff_less length_greater_0_conv less_one)
      ultimately show ?thesis using c False by (auto dest: map_eq_imp_length_eq)
    qed simp
    then show ?thesis using True low st by auto
  next
    case False
    then have "ret = 2" "\<not> starts nm out" "\<not> ends nm out" using m by (simp_all add: matched_def st)
    moreover from this(2) have "map lower nm \<noteq> map lower out" unfolding starts_def by (metis append_Nil2)
    ultimately show ?thesis using low st by auto
  qed
qed

lemma compare_extract:
  "name_loop d plen extrabytes True s = Some (Some (r, pp, nm')) \<Longrightarrow>
   name_loop d plen extrabytes False t = Some (Some (r', pp', x)) \<Longrightarrow>
   ns_p t = ns_p s \<Longrightarrow> ns_p1 t = ns_p1 s \<Longrightarrow> matched nm (ns_out s) (ns_cmp t) \<Longrightarrow>
   ns_out s = [] \<or> butlast (ns_out s) \<noteq> [] \<and> last (ns_out s) = dot \<Longrightarrow>
   pp' = pp \<and> (r' = 1 \<longleftrightarrow> same_name nm nm')"
proof (induction d plen extrabytes "True" s arbitrary: t rule: name_loop.induct)
  case (1 d plen extrabytes s)
  note same = "1.prems"(3, 4) and m = "1.prems"(5) and o = "1.prems"(6)
  from "1.prems"(1) show ?case
  proof (cases rule: name_loop_Some)
    case stop
    note a = name_round_Return [OF stop]
    from "1.prems"(2) show ?thesis
    proof (cases rule: name_loop_Some)
      case stop
      then have "name_end plen extrabytes False t = Return (Some (r', pp', x))" by (rule name_round_Return)
      then show ?thesis using a(2) same end_matched [OF m o]
        by (cases "ns_p1 s") (auto simp: name_end_def split: if_splits)
    next
      case (go t')
      show ?thesis using go(1) a(1) same(1) by (cases rule: name_round_Continue) auto
    qed
  next
    case (go s')
    from "1.prems"(2) show ?thesis
    proof (cases rule: name_loop_Some)
      case stop
      have "rd d (ns_p s) = Some 0" using name_round_Return(1) [OF stop] same(1) by simp
      with go(1) show ?thesis by (cases rule: name_round_Continue) auto
    next
      case t: (go t')
      note ih = "1.hyps" [OF go(1) go(2) t(2)]
      from go(1) show ?thesis
      proof (cases rule: name_round_Continue)
        case s: (pointer l b)
        from t(1) have "ns_p t' = ns_p s' \<and> ns_p1 t' = ns_p1 s' \<and> ns_cmp t' = ns_cmp t \<and> ns_out s' = ns_out s"
          by (cases rule: name_round_Continue) (use s same in \<open>auto split: option.split\<close>)
        then show ?thesis using ih m o by simp
      next
        case s: (bits l count hs q)
        from t(1) show ?thesis by (cases rule: name_round_Continue) (use s same in auto)
      next
        case s: (extracted l bs)
        have ne: "bs \<noteq> []" using s(3, 8) by (auto simp: word_unat_eq_iff)
        from t(1) have "ns_p t' = ns_p s' \<and> ns_p1 t' = ns_p1 s' \<and> ns_cmp t' = compare_dot (fold compare_char bs (ns_cmp t)) \<and>
            ns_out s' = ns_out s @ bs @ [dot]"
          by (cases rule: name_round_Continue) (use s same in auto)
        then show ?thesis using ih matched_label [OF m ne] ne by (simp add: butlast_append)
      qed simp
    qed
  qed
qed

lemma loop_back: "name_loop d plen extrabytes ex s = Some (Some (r, pp, x)) \<Longrightarrow> ns_p1 s = Some q \<Longrightarrow> pp = q"
proof (induction d plen extrabytes ex s rule: name_loop.induct)
  case (1 d plen extrabytes ex s)
  from "1.prems"(1) show ?case
  proof (cases rule: name_loop_Some)
    case stop
    then have "name_end plen extrabytes ex s = Return (Some (r, pp, x))" by (rule name_round_Return)
    then show ?thesis using "1.prems"(2) by (auto simp: name_end_def split: if_splits)
  next
    case (go s')
    from go(1) have "ns_p1 s' = Some q" by (cases rule: name_round_Continue) (use "1.prems"(2) in auto)
    then show ?thesis using "1.IH" go by blast
  qed
qed

lemma compare_skip:
  "name_loop d plen extrabytes False s = Some (Some (r, pp, x)) \<Longrightarrow> ns_p1 s = None \<Longrightarrow>
   skip_name d plen (ns_p s) 0 = Some (Some pp)"
proof (induction d plen extrabytes "False" s rule: name_loop.induct)
  case (1 d plen extrabytes s)
  from "1.prems"(1) show ?case
  proof (cases rule: name_loop_Some)
    case stop
    note a = name_round_Return [OF stop]
    then have "pp = ns_p s + 1" using "1.prems"(2) by (auto simp: name_end_def split: if_splits)
    then show ?thesis using a(1, 3) by (simp add: skip_name.simps [of d plen "ns_p s"] skip_end_def Let_def)
  next
    case (go s')
    from go(1) show ?thesis
    proof (cases rule: name_round_Continue)
      case (pointer l b)
      then have "pp = ns_p s + 2" using loop_back [OF go(2)] "1.prems"(2) by simp
      then show ?thesis using pointer by (simp add: skip_name.simps [of d plen "ns_p s"] skip_end_def)
    next
      case (compared l bs)
      have l: "l AND 0xc0 = 0" "l AND 0x3f = l" using top_bits [of l] compared(4) by auto
      have "unat l \<noteq> 0" using compared(3) by (auto simp: word_unat_eq_iff)
      then have "skip_name d plen (ns_p s) 0 = skip_name d plen (ns_p s + 1 + unat l) 0"
        using compared(1, 2) l by (simp add: skip_name.simps [of d plen "ns_p s"] Let_def)
      then show ?thesis using "1.hyps" [OF go] "1.prems"(2) compared(9) by simp
    qed auto
  qed
qed

subsection \<open>Properties\<close>

lemma extract_safe:
  "plen + 1 \<le> length d \<Longrightarrow> \<exists>r. extract_name d plen pp name isExtract extrabytes = Some r \<and>
     (\<forall>ret pp' name'. r = Some (ret, pp', name') \<longrightarrow> length name' < MAXDNAME)"
  unfolding extract_name_def by (rule name_loop_bounds) simp_all



text \<open>The length byte of a bit string is read without a check, so the byte behind the message is used.\<close>

lemma bit_string_overrun: "extract_name [0x41] 1 0 [] True 0 = None"
proof -
  have "(0x41 :: u8) AND 0xc0 = 0x40" "(0x41 :: u8) AND 0x3f = 1" by simp_all
  then show ?thesis by (simp add: extract_name_def name_loop.simps [of "[0x41]"] name_round_def name_bits_def rd_def)
qed

text \<open>A bit string of an odd number of digits is not skipped to its end: its last byte is taken for the next label.\<close>

lemma bit_string_odd:
  "extract_name [0x41, 4, 0, 0] 4 0 [] True 0 = Some (Some (1, 3, [92, 91, 120, 48, 47, 52, 93]))"
  "skip_name [0x41, 4, 0, 0] 4 0 0 = Some (Some 4)"
proof -
  have a: "(0x41 :: u8) AND 0xc0 = 0x40" "(0x41 :: u8) AND 0x3f = 1" by simp_all
  have l: "bit_label [48] 4 = [92, 91, 120, 48, 47, 52, 93]"
    by (simp add: bit_label_def show_nat.simps) code_simp
  have b: "bit_digits [0x41, 4, 0, 0] (Suc 0) 0 (Suc (Suc 0)) = Some ([48], 2)"
    by (simp add: bit_digits.simps(2) rd_def hex_upper_def)
  show "extract_name [0x41, 4, 0, 0] 4 0 [] True 0 = Some (Some (1, 3, [92, 91, 120, 48, 47, 52, 93]))"
    using a by (simp add: l b extract_name_def name_loop.simps [of "[0x41, 4, 0, 0]"] name_round_def name_bits_def name_end_def
        rd_def Let_def)
  show "skip_name [0x41, 4, 0, 0] 4 0 0 = Some (Some 4)"
    using a by (simp add: skip_name.simps [of "[0x41, 4, 0, 0]"] rd_def Let_def skip_end_def)
qed

text \<open>After a jump the room for the bytes that follow the name is checked at the target of the jump, not behind the name: the
  caller goes on to read four bytes that are not there.\<close>

lemma extra_bytes_unchecked:
  "extract_name [0, 0, 0, 0, 0, 0xc0, 0, 9] 7 5 [] True 4 = Some (Some (1, 7, []))"
  "skip_name [0, 0, 0, 0, 0, 0xc0, 0, 9] 7 5 4 = Some None"
  by (simp_all add: extract_name_def name_loop.simps [of "[0, 0, 0, 0, 0, 0xc0, 0, 9]"] name_round_def name_pointer_def
      name_end_def rd_def Let_def skip_name.simps [of "[0, 0, 0, 0, 0, 0xc0, 0, 9]"] skip_end_def)

lemma written_name_read:
  assumes ls: "\<forall>l \<in> set ls. good_label l" and name: "name = butlast (dotted ls)" and short: "length name + 1 < MAXDNAME"
    and st: "stands_at d p (do_rfc1035_name name @ [0])" and room: "p + length (do_rfc1035_name name) + 1 + extrabytes \<le> plen"
  shows "extract_name d plen p buf True extrabytes = Some (Some (1, p + length (do_rfc1035_name name) + 1, name))"
    "skip_name d plen p extrabytes = Some (Some (p + length (do_rfc1035_name name) + 1))"
    "stands_at d q [0xc0 OR of_nat (p div 256), of_nat (p mod 256)] \<Longrightarrow> p < 2 ^ 14 \<Longrightarrow> q + 2 \<le> plen \<Longrightarrow>
      extract_name d plen q buf True extrabytes = Some (Some (1, q + 2, name))"
proof -
  have w: "do_rfc1035_name name = wire ls" unfolding name by (rule do_name_wire [OF ls])
  have "length (wire ls) = length (dotted ls)" by (induction ls) simp_all
  then have len: "length (wire ls) < MAXDNAME" using short name by simp
  have out: "(let out = [] @ dotted ls in if out = [] then [] else butlast out) = name" by (simp add: name Let_def)
  let ?s = "\<lambda>p p1 hops. \<lparr>ns_p = p, ns_p1 = p1, ns_hops = hops, ns_out = [], ns_cmp = (buf, 0, 1)\<rparr>"
  have loop: "name_loop d plen extrabytes True (?s p p1 hops) =
      Some (Some (1, case p1 of None \<Rightarrow> p + length (wire ls) + 1 | Some q \<Rightarrow> q, name))" for p1 hops
    using loop_wire [OF ls, of d "?s p p1 hops" extrabytes plen] st room len out unfolding w by (simp split: option.split)
  show "extract_name d plen p buf True extrabytes = Some (Some (1, p + length (do_rfc1035_name name) + 1, name))"
    unfolding extract_name_def loop w by simp
  show "skip_name d plen p extrabytes = Some (Some (p + length (do_rfc1035_name name) + 1))"
    using skip_wire [OF ls] st room unfolding w by simp
  assume q: "stands_at d q [0xc0 OR of_nat (p div 256), of_nat (p mod 256)]" and p: "p < 2 ^ 14" and q2: "q + 2 \<le> plen"
  let ?h = "of_nat (p div 256) :: u8"
  have "p div 256 < 64" using p by (simp add: less_mult_imp_div_less)
  then have uh: "unat ?h = p div 256" by (intro unat_of_nat_small) simp
  have h: "?h AND 0xc0 = 0" "?h AND 0x3f = ?h" using short_label [of ?h] \<open>p div 256 < 64\<close> uh by simp_all
  have "(0xc0 OR ?h) AND 0xc0 = (0xc0 AND 0xc0) OR (?h AND 0xc0)" "(0xc0 OR ?h) AND 0x3f = (0xc0 AND 0x3f) OR (?h AND 0x3f)"
    by (rule bit.conj_disj_distrib2)+
  then have m1: "(0xc0 OR ?h) AND 0xc0 = 0xc0" "(0xc0 OR ?h) AND 0x3f = ?h" unfolding h by simp_all
  moreover have "0xc0 OR ?h \<noteq> 0"
  proof
    assume "0xc0 OR ?h = 0"
    then show False using m1(1) by simp
  qed
  ultimately have m: "(0xc0 OR ?h) AND 0xc0 = 0xc0" "(0xc0 OR ?h) AND 0x3f = ?h" "0xc0 OR ?h \<noteq> 0" by blast+
  have r: "rd d q = Some (0xc0 OR ?h)" "rd d (q + 1) = Some (of_nat (p mod 256))"
    using q stands_at_append [of d q "[0xc0 OR ?h]" "[of_nat (p mod 256)]"] by (auto simp: stands_at_def slice_def take_Suc hd_drop_conv_nth)
  have lo: "unat (of_nat (p mod 256) :: u8) = p mod 256" by (intro unat_of_nat_small) simp
  have "name_round d plen extrabytes True (?s q None 0) = Continue (?s p (Some (q + 2)) 1)"
    using q2 uh lo by (simp add: name_round_def r r(2) [simplified] m name_pointer_def)
  then show "extract_name d plen q buf True extrabytes = Some (Some (1, q + 2, name))"
    using loop [of "Some (q + 2)" 1] unfolding extract_name_def name_loop.simps [of d plen extrabytes True "?s q None 0"] by simp
qed

text \<open>C34: A name of labels of 1 to 63 printable characters, written by \<open>do_rfc1035_name\<close> with a zero behind it, is extracted again,
  the pointer ends behind it, where \<open>skip_name\<close> ends as well, and the same name is read through a compression pointer to it
  from anywhere else in the message.
\<close>

theorem dns_name_roundtrip:
  assumes "\<forall>l \<in> set ls. good_label l" "name = butlast (dotted ls)" "length name + 1 < MAXDNAME"
    "stands_at d p (do_rfc1035_name name @ [0])" "p + length (do_rfc1035_name name) + 1 + extrabytes \<le> plen"
    "stands_at d q [0xc0 OR of_nat (p div 256), of_nat (p mod 256)]" "p < 2 ^ 14" "q + 2 \<le> plen"
  shows "extract_name d plen p buf True extrabytes = Some (Some (1, p + length (do_rfc1035_name name) + 1, name)) \<and>
    skip_name d plen p extrabytes = Some (Some (p + length (do_rfc1035_name name) + 1)) \<and>
    extract_name d plen q buf True extrabytes = Some (Some (1, q + 2, name))"
  using written_name_read [OF assms(1-5)] assms(6-8) by blast

definition www_bytes :: "u8 list" where
  "www_bytes = [3, 119, 119, 119, 1, 97, 0, 0xc0, 0]"

lemma dns_name_roundtrip_witness:
  "extract_name www_bytes 9 0 [] True 2 = Some (Some (1, 7, [119, 119, 119, 46, 97])) \<and>
   skip_name www_bytes 9 0 2 = Some (Some 7) \<and>
   extract_name www_bytes 9 7 [] True 2 = Some (Some (1, 9, [119, 119, 119, 46, 97]))"
proof -
  let ?ls = "[[119, 119, 119], [97 :: u8]]"
  have good: "\<forall>l \<in> set ?ls. good_label l" by (simp add: good_label_def isascii_def iscntrl_def)
  have name: "[119, 119, 119, 46, 97] = butlast (dotted ?ls)" by simp
  have w: "do_rfc1035_name [119, 119, 119, 46, 97] = [3, 119, 119, 119, 1, 97]"
    using do_name_wire [OF good] unfolding name [symmetric] by simp
  show ?thesis
    using dns_name_roundtrip [OF good name, of www_bytes 0 2 9 7 "[]"]
    by (simp add: w www_bytes_def stands_at_def slice_def)
qed

text \<open>C35: Comparing a name with a name of the message, and extracting that name and comparing it as a host name, agree: whenever both
  succeed they leave the same pointer, which is the one \<open>skip_name\<close> finds, and the comparison returns 1 exactly when the names are equal
  up to case, a final period of the caller's name being ignored.
\<close>

theorem dns_compare_name:
  assumes "extract_name d plen p buf True extrabytes = Some (Some (r, pp, nm'))"
    "extract_name d plen p nm False extrabytes = Some (Some (r', pp', x))"
  shows "pp' = pp \<and> skip_name d plen p 0 = Some (Some pp) \<and> (r' = 1 \<longleftrightarrow> same_name nm nm')"
proof -
  have "pp' = pp \<and> (r' = 1 \<longleftrightarrow> same_name nm nm')"
    using compare_extract [OF assms [unfolded extract_name_def], of nm] by (simp add: matched_def)
  moreover have "skip_name d plen p 0 = Some (Some pp')"
    using compare_skip [OF assms(2) [unfolded extract_name_def]] by simp
  ultimately show ?thesis by blast
qed

lemma dns_compare_name_witness:
  "extract_name [1, 65, 0] 3 0 [] True 0 = Some (Some (1, 3, [65])) \<and>
   extract_name [1, 65, 0] 3 0 [97] False 0 = Some (Some (1, 3, [])) \<and> same_name [97] [65]"
proof -
  have a: "(1 :: u8) AND 0xc0 = 0" by simp
  have e: "extract_name [1, 65, 0] 3 0 [] True 0 = Some (Some (1, 3, [65]))"
    by (simp add: extract_name_def name_loop.simps [of "[1, 65, 0]"] name_round_def name_label_def name_end_def rd_def Let_def a
        slice_def isascii_def iscntrl_def)
  have c: "extract_name [1, 65, 0] 3 0 [97] False 0 = Some (Some (1, 3, []))"
    by (simp add: extract_name_def name_loop.simps [of "[1, 65, 0]"] name_round_def name_label_def name_end_def rd_def Let_def a
        slice_def compare_dot_def lower_def)
  show ?thesis using dns_compare_name [OF e c] e c by simp
qed

end
