(* ===== verification/Spec2Isabelle.thy ===== *)
theory Spec2Isabelle
  imports RawPacket Netmask DhcpInfo IfcConfig DhcpClient DhcpUtils ExifUtils ExifLoader ExifTag ExifEntry ExifContent ExifData JpegData MediaCtl
    ExifSave ExifRoundtrip ExifApi BadBlocks Region RefCount DirBlock Crc16 GroupCsum Uuid DnsName
begin

text \<open>
  A model of the C code of the G361F platform tree, with the theorems that make it correct. The tree holds an Android
  network library of its own (\<open>src/system/core/libnetutils\<close>), vendor code of Samsung and Marvell (\<open>src/vendor\<close>) and the
  open-source components the device ships (\<open>src/external\<close>). Paths below are relative to \<open>src\<close>.

  \<^bold>\<open>Conventions.\<close> Machine integers are words of their width (\<open>u8\<close> .. \<open>u64\<close>); natural numbers stand for sizes and offsets
  where the code bounds them by the size of a block in memory. A block of memory is a list of bytes; \<open>write_at\<close> is a
  \<open>memcpy\<close> into it, \<open>slice\<close> a copy out of it; the target is little-endian. A result \<open>None\<close> stands for undefined behaviour
  (an access outside a block, a null pointer, division by zero), so that a theorem that an operation gives \<open>Some\<close> states
  memory safety; failures that the code handles are values (error numbers, the code's own return values). Where memory is
  requested, an argument says which requests are refused, so both outcomes are covered. Kernel calls, clocks and code
  outside the tree are arguments, or part of an explicit state of the environment (\<open>IfcSys\<close>).

  \<^bold>\<open>Shared theories.\<close> \<open>NetPrelude\<close>: words, blocks, byte order, images of integers, strings. \<open>Simulation\<close>: the locale
  \<open>simulation\<close> (steps of an implementation against an abstract specification, through a representation predicate), whose
  lemma on whole runs is used by \<open>BadBlocks\<close>, \<open>Region\<close>, \<open>RefCount\<close> and \<open>DirBlock\<close>, each of which interprets it on the code's
  operations. Other interfaces are locales as well: \<open>inet_sum\<close> (sums that may be taken in parts), \<open>struct_image\<close> (a structure and its
  image in memory, interpreted for the packet headers, the DHCP message and the EXIF numbers), \<open>sorted_table\<close> (binary
  search with duplicates, interpreted on the EXIF tag table) and \<open>dir_scan\<close> (a visitor of directory entries, interpreted for
  lookup, insertion and removal).

  \<^bold>\<open>Network configuration\<close> (\<open>system/core/libnetutils\<close>).
  \<open>InetSum\<close> and \<open>RawPacket\<close> model \<open>packet.c\<close>: \<open>checksum\<close>, \<open>finish_sum\<close>, \<open>open_raw_socket\<close>, \<open>send_packet\<close> and
  \<open>receive_packet\<close>. Theorems: the checksum is the ones'-complement sum; a frame that was sent is received unchanged, with
  the one exception of a UDP checksum of zero; exactly which frames make the final copy leave its buffers.
  \<open>Netmask\<close>: \<open>prefixLengthToIpv4Netmask\<close> and \<open>ipv4NetmaskToPrefixLength\<close> of \<open>ifc_utils.c\<close> and their round trip.
  \<open>DhcpMsg\<close> (\<open>dhcpmsg.h\<close>, \<open>dhcpmsg.c\<close>), \<open>DhcpInfo\<close> (\<open>decode_dhcp_msg\<close>, \<open>is_valid_reply\<close>), \<open>DhcpDump\<close> (\<open>dump_dhcp_msg\<close>) and
  \<open>DhcpClient\<close> (\<open>dhcp_init_ifc\<close> with its states, timeouts and messages) model \<open>dhcpclient.c\<close>. The client is a step relation over the
  events of its loop (a frame, a timeout, an error); theorems: the decoder stays inside the message and computes the fold of
  the options' meanings; the reachable states; seven timeouts end every run; configuration happens only after a valid
  acknowledgement or on the last timeout; a matching offer and acknowledgement always lead to a configured interface.
  \<open>IfcSys\<close>, \<open>IfcUtils\<close> and \<open>IfcConfig\<close> model \<open>ifc_utils.c\<close>: the state has the two control sockets and the descriptors of the
  environment, a trace of requests and an oracle for their outcomes. Theorems: every operation closes what it opened, on every
  path; what the success of \<open>ifc_configure\<close> means. \<open>DhcpUtils\<close> models \<open>dhcp_utils.c\<close>, the control of \<open>dhcpcd\<close> through system
  properties, with its bounded waits (200 naps for a request) and the texts it parses.

  \<^bold>\<open>EXIF and JPEG\<close> (\<open>external/libexif/libexif\<close>, and its copy with a JPEG container in \<open>vendor/samsung/common/frameworks/seccamera\<close>).
  \<open>ExifUtils\<close> (\<open>exif-utils.c\<close>, \<open>exif-format.c\<close>, \<open>exif-byte-order.c\<close>), \<open>ExifTag\<close> (\<open>exif-tag.c\<close>, \<open>exif-ifd.c\<close>), \<open>ExifEntry\<close> (\<open>exif-entry.c\<close>:
  corrections and initial values), \<open>ExifContent\<close> (\<open>exif-content.c\<close>), \<open>ExifLoader\<close> (\<open>exif-loader.c\<close>, the incremental scanner),
  \<open>ExifData\<close> (the reader of \<open>exif-data.c\<close> and the object), \<open>ExifSave\<close> (its writer), \<open>ExifRoundtrip\<close> (writer against reader), \<open>ExifApi\<close>
  (histories of operations on an object), \<open>JpegData\<close> (\<open>jpeg-data.c\<close>, \<open>jpeg-marker.c\<close>). The reader recurses into sub-directories; the code
  bounds the depth by 31 pointers per root, and the recursion carries \<open>31 - depth\<close>; the writer has the depth 3 of the
  directories it knows. Tags are 16 bits in an entry; the sort of the records by tag is \<open>qsort\<close>, modelled as a stable sort (the
  records of one directory have different tags in the round trip). Theorems: loading any bytes is safe and ends; feeding the
  scanner in pieces is feeding it at once; the writer gives the block described directory by directory, and the reader
  gives back the entries, the byte order and the thumbnail; every object in reach is well typed and no operation is undefined on
  it; replacing the EXIF block of a JPEG file changes the bytes of that section alone; the tag lookup agrees with a linear
  search; corrections are safe, idempotent and keep the recorded entries.

  \<^bold>\<open>Media controller\<close> (\<open>vendor/marvell/generic/cameraengine\<close>, \<open>mediactl.c\<close>). \<open>MediaCtl\<close>: the device is a record of entities with their pads
  and links, as the kernel enumerates them (an argument). Every link is stored at both ends; theorems: an opened device has
  twins that agree, \<open>media_setup_link\<close> keeps this on each of its outcomes, a reset disables what is not immutable, and the text
  form of links is parsed into the set-up of those links.

  \<^bold>\<open>File systems\<close> (\<open>external/e2fsprogs\<close>). \<open>BadBlocks\<close> (\<open>lib/ext2fs/badblocks.c\<close>), \<open>Region\<close> (\<open>e2fsck/region.c\<close>) and \<open>RefCount\<close>
  (\<open>e2fsck/ea_refcount.c\<close>): sorted arrays and lists that refine a finite set, a set of addresses and a map of counts. \<open>DirBlock\<close>: directories
  (\<open>dir_iterate.c\<close>, \<open>dirblock.c\<close>, \<open>link.c\<close>, \<open>unlink.c\<close>, \<open>lookup.c\<close>, \<open>newdir.c\<close>) refine lists of names per block;
  the scan of a block is a \<open>partial_function (option)\<close>, as on a corrupted block it may leave the buffer, and is proved to return on every block that is
  a list of entries; the theorems are for block sizes below 64 KiB, where a record length is its own code. \<open>Crc16\<close> and \<open>GroupCsum\<close>
  (\<open>crc16.c\<close>, \<open>csum.c\<close>, \<open>blknum.c\<close>): the table-driven CRC against the bitwise one, what it detects, and the update of the group
  descriptors; numbers of inodes are natural numbers, as they fit 32 bits on the disk. \<open>Uuid\<close> (\<open>lib/uuid\<close>): packing, comparing, parsing,
  printing.

  \<^bold>\<open>DNS\<close> (\<open>external/dnsmasq/src\<close>). \<open>DnsName\<close>: names of \<open>rfc1035.c\<close> and \<open>util.c\<close>. The loop of \<open>extract_name\<close> is measured by the 255
  jumps it allows and the bytes that are left; theorems: it is safe except for one byte behind a bit-string label, reads back what
  \<open>do_rfc1035_name\<close> writes, and comparing agrees with extracting.

  \<^bold>\<open>Not modelled.\<close> Java, build files, resources and the kernel headers are not C code of the program. Of the C code: the rest of dnsmasq
  (servers, cache, leases, options: event loops over sockets and files), the rest of e2fsprogs (the checker's passes, the programs,
  the journal, the trivial database, compatibility code), iproute2, iptables, libnl, the demangler of gcc, the camera engine's wrappers of
  ioctls, the value texts and maker notes of libexif. They are large, mostly input and output on kernel interfaces, and independent
  of the parts above.
\<close>

end
